(* ===== verification/Prelude.thy ===== *)
theory Prelude
  imports Main "HOL-Library.Word" "HOL-Library.Multiset" "HOL-Library.Monad_Syntax"
    "HOL-Library.Product_Lexorder"
begin

unbundle bit_operations_syntax

text \<open>
  Shared vocabulary of the development.

  Machine integers are words of their width; \<open>usize\<close> values that only count or index
  in-memory vectors are natural numbers.  Arithmetic written with \<open>+\<close>, \<open>-\<close>, \<open>*\<close> on
  words wraps, as the release profile of the workspace does.  A computation that can panic
  returns an \<^typ>\<open>'a option\<close> with \<open>None\<close> for the panic (an index out of bounds, a failed
  \<open>assert!\<close> or \<open>expect\<close>), so that the \<open>do\<close> notation threads panics.
\<close>

section \<open>Types\<close>

type_synonym u8 = "8 word"
type_synonym u16 = "16 word"
type_synonym u32 = "32 word"
type_synonym u64 = "64 word"
type_synonym f32 = u32
type_synonym usize = nat
type_synonym byte_string = "8 word list"

text \<open>The bytes of an ASCII literal.\<close>

definition lit :: "string \<Rightarrow> byte_string" where
  "lit s = map (\<lambda>c. of_nat (of_char c)) s"

named_theorems colibri_defs \<open>unfolding of the small arithmetic definitions\<close>
named_theorems unat_simps \<open>reading word operations as natural numbers\<close>

section \<open>Saturating and checked arithmetic of the standard library\<close>

definition sat_sub :: "'a::len word \<Rightarrow> 'a word \<Rightarrow> 'a word" where
  "sat_sub a b = (if b \<le> a then a - b else 0)"

definition sat_add :: "'a::len word \<Rightarrow> 'a word \<Rightarrow> 'a word" where
  "sat_add a b = (if unat a + unat b < 2 ^ LENGTH('a) then a + b else - 1)"

definition sat_mul :: "'a::len word \<Rightarrow> 'a word \<Rightarrow> 'a word" where
  "sat_mul a b = (if unat a * unat b < 2 ^ LENGTH('a) then a * b else - 1)"

definition checked_mul :: "'a::len word \<Rightarrow> 'a word \<Rightarrow> 'a word option" where
  "checked_mul a b = (if unat a * unat b < 2 ^ LENGTH('a) then Some (a * b) else None)"

lemma unat_lt_pow [simp]: "unat (a :: 'a::len word) < 2 ^ LENGTH('a)"
  by simp

lemma unat_max_u: "unat (- 1 :: 'a::len word) = 2 ^ LENGTH('a) - 1"
  by (simp add: unsigned_minus_1_eq_mask mask_eq_exp_minus_1)

lemma unat_sat_sub [simp, unat_simps]: "unat (sat_sub a b) = unat a - unat b"
  by (simp add: sat_sub_def unat_sub word_le_nat_alt)

lemma unat_sat_add [unat_simps]:
  fixes a b :: "'a::len word"
  shows "unat (sat_add a b) = min (unat a + unat b) (2 ^ LENGTH('a) - 1)"
proof (cases "unat a + unat b < 2 ^ LENGTH('a)")
  case True
  then show ?thesis by (simp add: sat_add_def unat_word_ariths)
next
  case False
  then show ?thesis by (simp add: sat_add_def unat_max_u)
qed

lemma unat_sat_mul [unat_simps]:
  fixes a b :: "'a::len word"
  shows "unat (sat_mul a b) = min (unat a * unat b) (2 ^ LENGTH('a) - 1)"
proof (cases "unat a * unat b < 2 ^ LENGTH('a)")
  case True
  then show ?thesis by (simp add: sat_mul_def unat_word_ariths)
next
  case False
  then show ?thesis by (simp add: sat_mul_def unat_max_u)
qed

lemma sat_sub_le [simp]: "sat_sub a b \<le> a"
  by (simp add: word_le_nat_alt)

lemma sat_sub_le_mono: "a \<le> c \<Longrightarrow> sat_sub a b \<le> sat_sub c b"
  by (simp add: word_le_nat_alt)

lemma le_sat_add: "(a :: 'a::len word) \<le> sat_add a b"
proof -
  from unat_lt_pow [of a] have "unat a \<le> 2 ^ LENGTH('a) - 1" by linarith
  then show ?thesis by (simp add: word_le_nat_alt unat_sat_add)
qed

lemma checked_mul_Some:
  "checked_mul a b = Some c \<longleftrightarrow> unat c = unat a * unat b"
proof
  assume "checked_mul a b = Some c"
  then show "unat c = unat a * unat b"
    by (auto simp: checked_mul_def unat_word_ariths split: if_splits)
next
  assume c: "unat c = unat a * unat b"
  then have "unat a * unat b < 2 ^ LENGTH('a)" using unat_lt_pow [of c] by simp
  moreover from this c have "c = a * b"
    by (simp add: word_unat_eq_iff unat_word_ariths)
  ultimately show "checked_mul a b = Some c" by (simp add: checked_mul_def)
qed

lemma unat_add_no_wrap:
  fixes a b :: "'a::len word"
  shows "unat a + unat b < 2 ^ LENGTH('a) \<Longrightarrow> unat (a + b) = unat a + unat b"
  by (simp add: unat_word_ariths)

lemma not_bit_if_small:
  fixes b :: "'a::len word"
  assumes "unat b < 2 ^ k" and "k \<le> n"
  shows "\<not> bit b n"
proof -
  have "(2::nat) ^ k \<le> 2 ^ n" using assms(2) by (rule power_increasing) simp
  with assms(1) have "unat b < 2 ^ n" by linarith
  then have "\<not> bit (unat b) n" by (simp add: bit_iff_odd)
  then show ?thesis by (simp add: bit_unsigned_iff)
qed

text \<open>Packing a small field under a shifted one is addition.\<close>

lemma unat_push_or:
  fixes a b :: "'a::len word"
  assumes "unat a * 2 ^ k + unat b < 2 ^ LENGTH('a)" and "unat b < 2 ^ k"
  shows "unat (push_bit k a OR b) = unat a * 2 ^ k + unat b"
proof -
  have "push_bit k a AND b = 0"
    by (rule bit_eqI) (use not_bit_if_small [OF assms(2)] in \<open>auto simp: bit_simps\<close>)
  then have "push_bit k a OR b = push_bit k a + b"
    by (simp add: disjunctive_add_eq_or)
  also have "\<dots> = of_nat (unat a * 2 ^ k + unat b)"
    by (simp add: push_bit_eq_mult)
  finally have eq: "push_bit k a OR b = of_nat (unat a * 2 ^ k + unat b)" .
  show ?thesis unfolding eq using assms(1) by (simp only: unat_of_nat mod_less)
qed

lemma unat_drop_bit [unat_simps]: "unat (drop_bit k (a :: 'a::len word)) = unat a div 2 ^ k"
  by (simp only: unsigned_drop_bit_eq) (simp add: drop_bit_eq_div take_bit_nat_eq_self)

lemma unat_and_mask: "unat (a AND mask k :: 'a::len word) = unat a mod 2 ^ k"
  by (simp flip: take_bit_eq_mask add: unsigned_take_bit_eq take_bit_nat_def)

section \<open>Sizes at their width\<close>

text \<open>
  Where a \<open>usize\<close> computation can exceed 64 bits, \<open>usz\<close> wraps it; \<open>to_usize\<close> is the cast of a
  signed integer, which sign-extends; \<open>wrap64\<close> is two's complement \<open>i64\<close>.
\<close>

definition usz :: "nat \<Rightarrow> nat" where
  "usz n = n mod 2 ^ 64"

definition to_usize :: "int \<Rightarrow> nat" where
  "to_usize n = nat (n mod 2 ^ 64)"

definition wrap64 :: "int \<Rightarrow> int" where
  "wrap64 n = (n + 2 ^ 63) mod 2 ^ 64 - 2 ^ 63"

lemma usz_id: "n < 2 ^ 64 \<Longrightarrow> usz n = n"
  by (simp add: usz_def)

lemma to_usize_nonneg: "0 \<le> n \<Longrightarrow> n < 2 ^ 64 \<Longrightarrow> to_usize n = nat n"
  by (simp add: to_usize_def)

lemma wrap64_id: "- (2 ^ 63) \<le> n \<Longrightarrow> n < 2 ^ 63 \<Longrightarrow> wrap64 n = n"
  by (simp add: wrap64_def)

lemma wrap64_small: "0 \<le> n \<Longrightarrow> n < 9223372036854775808 \<Longrightarrow> wrap64 n = n"
  by (rule wrap64_id) simp_all

lemma lit_inject [simp]: "lit a = lit b \<longleftrightarrow> a = b"
proof -
  have "inj (\<lambda>c. of_nat (of_char c) :: u8)"
  proof (rule injI)
    fix c d assume "(of_nat (of_char c) :: u8) = of_nat (of_char d)"
    then have "(of_char c :: nat) mod 256 = of_char d mod 256" by (simp add: word_of_nat_eq_iff take_bit_nat_def)
    then show "c = d" by simp
  qed
  then show ?thesis unfolding lit_def by (simp add: inj_map_eq_map)
qed

section \<open>Fallible steps\<close>

text \<open>\<open>Option::ok_or\<close>, the \<open>?\<close> operator, and \<open>collect\<close> into a \<open>Result\<close>, which stops at the first error.\<close>

definition ok_or :: "'e \<Rightarrow> 'a option \<Rightarrow> 'e + 'a" where
  "ok_or e x = (case x of Some a \<Rightarrow> Inr a | None \<Rightarrow> Inl e)"

definition and_then :: "'e + 'a \<Rightarrow> ('a \<Rightarrow> 'e + 'b) \<Rightarrow> 'e + 'b" where
  "and_then r f = (case r of Inl e \<Rightarrow> Inl e | Inr a \<Rightarrow> f a)"

fun try_map :: "('a \<Rightarrow> 'e + 'b) \<Rightarrow> 'a list \<Rightarrow> 'e + 'b list" where
  "try_map f [] = Inr []"
| "try_map f (x # xs) = and_then (f x) (\<lambda>y. and_then (try_map f xs) (\<lambda>ys. Inr (y # ys)))"

lemma and_then_simps [simp]:
  "and_then (Inl e) f = Inl e" "and_then (Inr a) f = f a" "ok_or e (Some a) = Inr a" "ok_or e None = Inl e"
  by (simp_all add: and_then_def ok_or_def)

lemma and_then_Inr: "and_then r f = Inr b \<longleftrightarrow> (\<exists>a. r = Inr a \<and> f a = Inr b)"
  by (cases r) auto

lemma ok_or_Inr [simp]: "ok_or e x = Inr a \<longleftrightarrow> x = Some a"
  by (cases x) auto

section \<open>Checked indexing\<close>

definition idx :: "'a list \<Rightarrow> nat \<Rightarrow> 'a option" where
  "idx xs i = (if i < length xs then Some (xs ! i) else None)"

definition upd :: "'a list \<Rightarrow> nat \<Rightarrow> 'a \<Rightarrow> 'a list option" where
  "upd xs i v = (if i < length xs then Some (xs[i := v]) else None)"

text \<open>\<open>slice.get(i..e)\<close>: \<open>None\<close> when the range is decreasing or runs past the end.\<close>

definition get_range :: "'a list \<Rightarrow> nat \<Rightarrow> nat \<Rightarrow> 'a list option" where
  "get_range xs i e = (if i \<le> e \<and> e \<le> length xs then Some (take (e - i) (drop i xs)) else None)"

definition get_or :: "'a \<Rightarrow> 'a list \<Rightarrow> nat \<Rightarrow> 'a" where
  "get_or d xs i = (if i < length xs then xs ! i else d)"

lemma idx_Some [simp]: "i < length xs \<Longrightarrow> idx xs i = Some (xs ! i)"
  by (simp add: idx_def)

lemma idx_eq_Some: "idx xs i = Some v \<longleftrightarrow> i < length xs \<and> xs ! i = v"
  by (auto simp: idx_def)

lemma idx_eq_None: "idx xs i = None \<longleftrightarrow> length xs \<le> i"
  by (auto simp: idx_def)

lemma get_range_append [simp]: "get_range (xs @ ys) (length xs) (length xs + length ys) = Some ys"
  by (simp add: get_range_def)

lemma length_get_range: "get_range xs i e = Some ys \<Longrightarrow> length ys = e - i"
  by (auto simp: get_range_def split: if_splits)

section \<open>Scanning for an extreme element\<close>

text \<open>
  \<open>Iterator::min_by_key\<close> and the hand-written scans of the program keep the first extreme
  element: a later one replaces it only when it is strictly better.
\<close>

fun first_min_from :: "('a \<Rightarrow> 'k::ord) \<Rightarrow> 'a \<Rightarrow> 'a list \<Rightarrow> 'a" where
  "first_min_from f b [] = b"
| "first_min_from f b (x # xs) = first_min_from f (if f x < f b then x else b) xs"

fun first_min :: "('a \<Rightarrow> 'k::ord) \<Rightarrow> 'a list \<Rightarrow> 'a option" where
  "first_min f [] = None"
| "first_min f (x # xs) = Some (first_min_from f x xs)"

lemma first_min_from_le:
  fixes f :: "'a \<Rightarrow> 'k::linorder"
  shows "f (first_min_from f b xs) \<le> f b \<and> (\<forall>x \<in> set xs. f (first_min_from f b xs) \<le> f x)"
proof (induction xs arbitrary: b)
  case (Cons x xs)
  from Cons.IH [of "if f x < f b then x else b"] show ?case
    by (auto split: if_splits intro: order_trans)
qed simp

lemma first_min_from_in: "first_min_from f b xs \<in> insert b (set xs)"
proof (induction xs arbitrary: b)
  case (Cons x xs)
  from Cons.IH [of "if f x < f b then x else b"] show ?case by (auto split: if_splits)
qed simp

lemma first_min_Some:
  fixes f :: "'a \<Rightarrow> 'k::linorder"
  assumes "first_min f xs = Some m"
  shows "m \<in> set xs" and "\<And>x. x \<in> set xs \<Longrightarrow> f m \<le> f x"
proof -
  from assms obtain y ys where xs: "xs = y # ys" by (cases xs) auto
  with assms have m: "m = first_min_from f y ys" by simp
  show "m \<in> set xs" using first_min_from_in [of f y ys] by (simp add: m xs)
  show "f m \<le> f x" if "x \<in> set xs" for x
    using first_min_from_le [of f y ys] that by (auto simp: m xs)
qed

lemma first_min_None [simp]: "first_min f xs = None \<longleftrightarrow> xs = []"
  by (cases xs) auto

lemma first_min_from_split:
  fixes f :: "'a \<Rightarrow> 'k::linorder"
  shows "\<exists>us vs. b # xs = us @ first_min_from f b xs # vs
     \<and> (\<forall>u \<in> set us. f (first_min_from f b xs) < f u) \<and> (\<forall>v \<in> set vs. f (first_min_from f b xs) \<le> f v)"
proof (induction xs arbitrary: b)
  case Nil
  have "[b] = [] @ b # []" by simp
  then show ?case by fastforce
next
  case (Cons x xs)
  show ?case
  proof (cases "f x < f b")
    case True
    let ?m = "first_min_from f x xs"
    obtain us vs where s: "x # xs = us @ ?m # vs" "\<forall>u \<in> set us. f ?m < f u" "\<forall>v \<in> set vs. f ?m \<le> f v"
      using Cons.IH [of x] by blast
    have "f ?m < f b" using first_min_from_le [of f x xs] True by auto
    then have "b # x # xs = (b # us) @ ?m # vs \<and> (\<forall>u \<in> set (b # us). f ?m < f u) \<and> (\<forall>v \<in> set vs. f ?m \<le> f v)"
      using s by simp
    moreover have "first_min_from f b (x # xs) = ?m" using True by simp
    ultimately show ?thesis by metis
  next
    case False
    let ?m = "first_min_from f b xs"
    obtain us vs where s: "b # xs = us @ ?m # vs" "\<forall>u \<in> set us. f ?m < f u" "\<forall>v \<in> set vs. f ?m \<le> f v"
      using Cons.IH [of b] by blast
    show ?thesis
    proof (cases us)
      case Nil
      with s have m: "?m = b" "xs = vs" by auto
      then have "b # x # xs = [] @ b # (x # vs) \<and> (\<forall>v \<in> set (x # vs). f b \<le> f v)"
        using s(3) False by auto
      moreover have "first_min_from f b (x # xs) = b" using m False by simp
      ultimately show ?thesis by (metis empty_iff list.set(1))
    next
      case (Cons u us')
      with s have "u = b" "f ?m < f b" by auto
      with s Cons False have "b # x # xs = (b # x # us') @ ?m # vs
          \<and> (\<forall>u \<in> set (b # x # us'). f ?m < f u) \<and> (\<forall>v \<in> set vs. f ?m \<le> f v)"
        by auto
      moreover have "first_min_from f b (x # xs) = ?m" using False by simp
      ultimately show ?thesis by metis
    qed
  qed
qed

lemma first_min_split:
  fixes f :: "'a \<Rightarrow> 'k::linorder"
  assumes "first_min f xs = Some m"
  obtains us vs where "xs = us @ m # vs" "\<forall>u \<in> set us. f m < f u" "\<forall>v \<in> set vs. f m \<le> f v"
proof -
  obtain y ys where "xs = y # ys" "m = first_min_from f y ys" using assms by (cases xs) auto
  with first_min_from_split [of y ys f] that show ?thesis by auto
qed

text \<open>Sorting puts the first minimum in front and sorts the rest.\<close>

lemma sort_key_first_min:
  fixes f :: "'a \<Rightarrow> 'k::linorder"
  assumes "first_min f xs = Some m" and "distinct xs"
  shows "sort_key f xs = m # sort_key f (filter (\<lambda>x. x \<noteq> m) xs)"
proof -
  obtain us vs where xs: "xs = us @ m # vs" and us: "\<forall>u \<in> set us. f m < f u" and vs: "\<forall>v \<in> set vs. f m \<le> f v"
    using assms(1) by (rule first_min_split)
  have rest: "filter (\<lambda>x. x \<noteq> m) xs = us @ vs"
  proof -
    have "filter (\<lambda>x. x \<noteq> m) us = us" "filter (\<lambda>x. x \<noteq> m) vs = vs"
      using assms(2) by (auto simp: xs filter_id_conv)
    then show ?thesis by (simp add: xs)
  qed
  show ?thesis unfolding rest
  proof (rule properties_for_sort_key)
    show "mset (m # sort_key f (us @ vs)) = mset xs" by (simp add: xs)
    show "sorted (map f (m # sort_key f (us @ vs)))" using us vs by (auto simp: less_imp_le)
    fix k assume "k \<in> set (m # sort_key f (us @ vs))"
    have "filter (\<lambda>x. f k = f x) us = []" if "f k = f m" using us that by (auto simp: filter_empty_conv)
    then show "filter (\<lambda>x. f k = f x) (m # sort_key f (us @ vs)) = filter (\<lambda>x. f k = f x) xs"
      using sort_key_stable [of f "f k" "us @ vs"] by (auto simp: xs eq_commute [of "f k"])
  qed
qed

section \<open>Sums over lists\<close>

lemma sum_list_update_add:
  fixes xs :: "'a::ab_group_add list"
  shows "i < length xs \<Longrightarrow> sum_list (xs[i := xs ! i + d]) = sum_list xs + d"
  by (induction xs arbitrary: i) (auto split: nat.splits simp: algebra_simps)

lemma sum_list_update_Suc:
  "i < length xs \<Longrightarrow> sum_list (xs[i := xs ! i + (d::nat)]) = sum_list xs + d"
  by (induction xs arbitrary: i) (auto split: nat.splits)

lemma sum_list_map_update:
  fixes f :: "'a \<Rightarrow> 'b::comm_monoid_add"
  shows "i < length xs \<Longrightarrow> sum_list (map f (xs[i := v])) + f (xs ! i) = sum_list (map f xs) + f v"
  by (induction xs arbitrary: i) (auto split: nat.splits simp: ac_simps)

lemma sum_list_filter_partition:
  "(\<Sum>k<n. length (filter (\<lambda>x. f x = k) xs)) = length (filter (\<lambda>x. f x < (n::nat)) xs)"
proof (induction xs)
  case (Cons x xs)
  have "(\<Sum>k<n. length (filter (\<lambda>y. f y = k) (x # xs)))
      = (\<Sum>k<n. (if f x = k then 1 else 0) + length (filter (\<lambda>y. f y = k) xs))"
    by (intro sum.cong) auto
  also have "\<dots> = (if f x < n then 1 else 0) + (\<Sum>k<n. length (filter (\<lambda>y. f y = k) xs))"
    by (simp add: sum.distrib)
  finally show ?case using Cons.IH by simp
qed simp

section \<open>Overwriting part of a list\<close>

definition patch :: "nat \<Rightarrow> 'a list \<Rightarrow> 'a list \<Rightarrow> 'a list" where
  "patch pos new xs = take pos xs @ new @ drop (pos + length new) xs"

lemma nth_patch:
  assumes "pos + length new \<le> length xs" and "q < length xs"
  shows "patch pos new xs ! q = (if pos \<le> q \<and> q < pos + length new then new ! (q - pos) else xs ! q)"
  using assms by (auto simp: patch_def nth_append min_def not_less)

lemma length_patch: "pos + length new \<le> length xs \<Longrightarrow> length (patch pos new xs) = length xs"
  by (simp add: patch_def)

section \<open>Substrings\<close>

text \<open>\<open>str::contains\<close>\<close>

fun contains :: "'a list \<Rightarrow> 'a list \<Rightarrow> bool" where
  "contains pat [] = (pat = [])"
| "contains pat (c # s) = (take (length pat) (c # s) = pat \<or> contains pat s)"

section \<open>Hash maps as association lists\<close>

text \<open>
  \<open>entry(k).or_insert(d)\<close> followed by an update of the value.  The list order stands for the
  arbitrary iteration order of a hash map.
\<close>

fun entry_mod :: "'k \<Rightarrow> 'v \<Rightarrow> ('v \<Rightarrow> 'v) \<Rightarrow> ('k \<times> 'v) list \<Rightarrow> ('k \<times> 'v) list" where
  "entry_mod k d f [] = [(k, f d)]"
| "entry_mod k d f ((k', v) # kvs) = (if k' = k then (k', f v) # kvs else (k', v) # entry_mod k d f kvs)"

definition lookup_or :: "'v \<Rightarrow> ('k \<times> 'v) list \<Rightarrow> 'k \<Rightarrow> 'v" where
  "lookup_or d kvs k = (case map_of kvs k of Some v \<Rightarrow> v | None \<Rightarrow> d)"

lemma map_of_entry_mod: "map_of (entry_mod k d f kvs) = (map_of kvs)(k \<mapsto> f (lookup_or d kvs k))"
  by (induction k d f kvs rule: entry_mod.induct) (auto simp: fun_eq_iff lookup_or_def)

lemma keys_entry_mod [simp]: "fst ` set (entry_mod k d f kvs) = insert k (fst ` set kvs)"
  by (induction k d f kvs rule: entry_mod.induct) auto

lemma distinct_entry_mod [simp]:
  "distinct (map fst kvs) \<Longrightarrow> distinct (map fst (entry_mod k d f kvs))"
  by (induction k d f kvs rule: entry_mod.induct) (auto simp flip: image_set)

section \<open>Sorted and split lists\<close>

lemma sorted_take_drop_le:
  fixes f :: "'a \<Rightarrow> 'k::linorder"
  assumes "sorted (map f xs)" and "x \<in> set (take k xs)" and "y \<in> set (drop k xs)"
  shows "f x \<le> f y"
proof -
  have "map f xs = map f (take k xs) @ map f (drop k xs)"
    by (simp flip: map_append)
  then have "\<forall>a \<in> set (map f (take k xs)). \<forall>b \<in> set (map f (drop k xs)). a \<le> b"
    using assms(1) by (metis sorted_append)
  then show ?thesis using assms(2,3) by auto
qed

lemma upt_split_at: "x < n \<Longrightarrow> [0..<n] = [0..<x] @ x # [Suc x..<n]"
  using upt_add_eq_append [of 0 x "n - x"] by (simp add: upt_conv_Cons)

end
