(* ===== verification/Tier.thy ===== *)
theory Tier
  imports Prelude
begin

text \<open>
  Expert hot-store policy: \<^verbatim>\<open>crates/colibri-core/src/tier.rs\<close>.

  Heat counters and access clocks are 32-bit words, scores 64-bit words.  \<open>pick_swap\<close> and
  \<open>pick_lfru\<close> index the heat slice with caller-supplied slots, so the outer \<open>None\<close> of their
  result is the index panic; the inner option is the source's \<open>Option<Swap>\<close>.
\<close>

section \<open>Definitions\<close>

record swap =
  slot :: nat
  eid :: nat
  gain :: int

text \<open>The loop \<open>for z in 1..pinned.len()\<close> over a key of the pinned expert.\<close>

fun scan_cold :: "(nat \<Rightarrow> ('k::ord) option) \<Rightarrow> nat list \<Rightarrow> nat list \<Rightarrow> nat \<Rightarrow> nat option" where
  "scan_cold key pinned [] cold = Some cold"
| "scan_cold key pinned (z # zs) cold = do {
     pz \<leftarrow> idx pinned z; a \<leftarrow> key pz;
     pc \<leftarrow> idx pinned cold; b \<leftarrow> key pc;
     scan_cold key pinned zs (if a < b then z else cold) }"

text \<open>The hottest non-resident expert of \<open>pick_swap\<close>; \<open>None\<close> is the source's \<open>hot = -1\<close>.\<close>

fun scan_hot :: "nat list \<Rightarrow> (nat \<times> u32) list \<Rightarrow> nat option \<Rightarrow> u32 \<Rightarrow> nat option \<times> u32" where
  "scan_hot pinned [] hot fh = (hot, fh)"
| "scan_hot pinned ((e, h) # ehs) hot fh =
     (if e \<notin> set pinned \<and> fh < h then scan_hot pinned ehs (Some e) h
      else scan_hot pinned ehs hot fh)"

definition pick_swap :: "u32 list \<Rightarrow> nat list \<Rightarrow> swap option option" where
  "pick_swap heat pinned =
     (if pinned = [] \<or> length heat < 1 then Some None
      else do {
        cold \<leftarrow> scan_cold (idx heat) pinned [1..<length pinned] 0;
        (case scan_hot pinned (enumerate 0 heat) None 0 of
           (None, _) \<Rightarrow> Some None
         | (Some hot, fh) \<Rightarrow> do {
             pc \<leftarrow> idx pinned cold; fc \<leftarrow> idx heat pc;
             (if fh \<le> fc + drop_bit 2 fc + 4 then Some None
              else Some (Some \<lparr> slot = cold, eid = hot, gain = uint fh - uint fc \<rparr>)) }) })"

definition lfru_score :: "u32 \<Rightarrow> u32 \<Rightarrow> u32 \<Rightarrow> u64" where
  "lfru_score heat lst clock =
     (let age = clock - lst;
          recent = (if age < 255 then 255 - age else 0)
      in push_bit 8 (ucast heat) OR ucast recent)"

definition evict_score :: "u32 \<Rightarrow> u32 \<Rightarrow> u32 \<Rightarrow> u64" where
  "evict_score heat lst clock =
     (let age = clock - lst;
          recency = - 1 - age
      in push_bit 16 (ucast recency) OR ucast (min heat 0xffff))"

fun scan_hot_lfru ::
  "(nat \<Rightarrow> u64 option) \<Rightarrow> nat list \<Rightarrow> nat list \<Rightarrow> nat option \<Rightarrow> u64 \<Rightarrow> (nat option \<times> u64) option"
where
  "scan_hot_lfru score pinned [] hot hs = Some (hot, hs)"
| "scan_hot_lfru score pinned (e # es) hot hs = do {
     sc \<leftarrow> score e;
     (if e \<notin> set pinned \<and> (hot = None \<or> hs < sc)
      then scan_hot_lfru score pinned es (Some e) sc
      else scan_hot_lfru score pinned es hot hs) }"

definition lfru_at :: "u32 list \<Rightarrow> u32 list \<Rightarrow> u32 \<Rightarrow> nat \<Rightarrow> u64 option" where
  "lfru_at heat lst clock e = do { h \<leftarrow> idx heat e; l \<leftarrow> idx lst e; Some (lfru_score h l clock) }"

definition pick_lfru :: "u32 list \<Rightarrow> u32 list \<Rightarrow> u32 \<Rightarrow> nat list \<Rightarrow> swap option option" where
  "pick_lfru heat lst clock pinned =
     (if length lst < length heat \<or> pinned = [] \<or> length heat < 1 then Some None
      else do {
        cold \<leftarrow> scan_cold (lfru_at heat lst clock) pinned [1..<length pinned] 0;
        (hot, hs) \<leftarrow> scan_hot_lfru (lfru_at heat lst clock) pinned [0..<length heat] None 0;
        (case hot of
           None \<Rightarrow> Some None
         | Some e \<Rightarrow> do {
             pc \<leftarrow> idx pinned cold; cs \<leftarrow> lfru_at heat lst clock pc;
             (if hs \<le> cs + drop_bit 2 cs + push_bit 8 4 then Some None
              else Some (Some \<lparr> slot = cold, eid = e, gain = uint (drop_bit 8 (hs - cs)) \<rparr>)) }) })"

definition decay :: "u32 list \<Rightarrow> u32 list" where
  "decay heat = map (drop_bit 1) heat"

section \<open>Scores as numbers\<close>


lemma unat_ucast_u64 [simp]: "unat (ucast (a :: u32) :: u64) = unat a"
  using unat_lt_pow [of a] by (simp add: unsigned_ucast_eq take_bit_nat_eq_self_iff)

lemma pack_bound:
  fixes a :: u32
  assumes "k \<le> 32" and "b < 2 ^ k"
  shows "unat a * 2 ^ k + b < 2 ^ (32 + k)"
proof -
  have "unat a < 2 ^ 32" using unat_lt_pow [of a] by simp
  then have "(unat a + 1) * 2 ^ k \<le> 2 ^ 32 * 2 ^ k" by (intro mult_right_mono) auto
  moreover have "unat a * 2 ^ k + b < (unat a + 1) * 2 ^ k" using assms(2) by simp
  ultimately show ?thesis unfolding power_add by linarith
qed

lemma unat_pack:
  fixes a b :: u32
  assumes "k \<le> 32" and "unat b < 2 ^ k"
  shows "unat (push_bit k (ucast a :: u64) OR ucast b) = unat a * 2 ^ k + unat b"
proof -
  have "unat a * 2 ^ k + unat b < 2 ^ (32 + k)" by (rule pack_bound [OF assms])
  also have "\<dots> \<le> 2 ^ 64" using assms(1) by (intro power_increasing) auto
  finally show ?thesis using assms(2) unat_push_or [of "ucast a :: u64" k "ucast b"] by simp
qed

definition recency_bonus :: "u32 \<Rightarrow> u32 \<Rightarrow> nat" where
  "recency_bonus lst clock = 255 - unat (clock - lst)"

lemma unat_lfru_score:
  "unat (lfru_score heat lst clock) = unat heat * 256 + recency_bonus lst clock"
proof -
  let ?age = "clock - lst"
  let ?r = "if ?age < 255 then 255 - ?age else 0"
  have r: "unat ?r = recency_bonus lst clock"
    by (auto simp: recency_bonus_def word_less_nat_alt unat_sub word_le_nat_alt)
  then have "unat ?r < 2 ^ 8" by (simp add: recency_bonus_def)
  with unat_pack [of 8 ?r heat] r show ?thesis by (simp add: lfru_score_def Let_def)
qed

lemma unat_evict_score:
  "unat (evict_score heat lst clock)
     = (2 ^ 32 - 1 - unat (clock - lst)) * 65536 + min (unat heat) 65535"
proof -
  have h: "unat (min heat 0xffff) = min (unat heat) 65535"
    by (simp add: min_def word_le_nat_alt)
  have "unat (- 1 - (clock - lst)) = 2 ^ 32 - 1 - unat (clock - lst)"
    by (subst unat_sub) (auto simp: unat_max_u)
  with h unat_pack [of 16 "min heat 0xffff" "- 1 - (clock - lst)"] show ?thesis
    by (simp add: evict_score_def Let_def)
qed

lemma lfru_score_bound: "unat (lfru_score heat lst clock) < 2 ^ 40"
proof -
  have "recency_bonus lst clock < 2 ^ 8" by (simp add: recency_bonus_def)
  from pack_bound [OF _ this, of heat] show ?thesis by (simp add: unat_lfru_score)
qed

section \<open>The scans\<close>

lemma scan_cold_total:
  fixes f :: "nat \<Rightarrow> 'k::ord"
  assumes "\<And>p. p \<in> set pinned \<Longrightarrow> key p = Some (f p)"
    and "cold < length pinned" and "\<forall>z \<in> set zs. z < length pinned"
  shows "scan_cold key pinned zs cold = Some (first_min_from (\<lambda>z. f (pinned ! z)) cold zs)"
  using assms(2,3)
proof (induction zs arbitrary: cold)
  case (Cons z zs)
  then show ?case using assms(1) by (simp add: nth_mem)
qed simp

lemma scan_cold_Some:
  assumes "scan_cold key pinned zs cold = Some c" and "cold < length pinned"
  shows "c < length pinned"
  using assms
proof (induction zs arbitrary: cold)
  case (Cons z zs)
  then show ?case by (auto simp: idx_eq_Some Option.bind_eq_Some_conv split: if_splits)
qed simp

text \<open>What a successful scan has established: a least slot among those visited.\<close>

lemma scan_cold_least:
  fixes key :: "nat \<Rightarrow> ('k::linorder) option"
  assumes "scan_cold key pinned zs cold = Some c"
  shows "\<forall>z \<in> insert cold (set zs). zs \<noteq> [] \<longrightarrow> the (key (pinned ! c)) \<le> the (key (pinned ! z))"
  using assms
proof (induction zs arbitrary: cold)
  case (Cons z zs)
  from Cons.prems obtain a b where ab: "key (pinned ! z) = Some a" "key (pinned ! cold) = Some b"
    and sc: "scan_cold key pinned zs (if a < b then z else cold) = Some c"
    by (auto simp: idx_eq_Some Option.bind_eq_Some_conv)
  show ?case
  proof (cases "zs = []")
    case True
    with sc ab show ?thesis by (auto split: if_splits)
  next
    case False
    with Cons.IH [OF sc] ab show ?thesis by (auto split: if_splits intro: order_trans)
  qed
qed simp

lemma scan_hot_spec:
  assumes "scan_hot pinned ehs hot fh = (Some e, m)" and "\<forall>(i, h) \<in> set ehs. P i h"
    and "\<forall>e0. hot = Some e0 \<longrightarrow> e0 \<notin> set pinned \<and> P e0 fh"
  shows "e \<notin> set pinned \<and> P e m \<and> fh \<le> m \<and> (\<forall>(i, h) \<in> set ehs. i \<notin> set pinned \<longrightarrow> h \<le> m)"
  using assms
proof (induction ehs arbitrary: hot fh)
  case (Cons eh ehs)
  obtain i h where eh: "eh = (i, h)" by (cases eh)
  show ?case
  proof (cases "i \<notin> set pinned \<and> fh < h")
    case True
    with Cons.prems eh Cons.IH [of "Some i" h] show ?thesis by auto
  next
    case False
    with Cons.prems eh Cons.IH [of hot fh] show ?thesis
      by (auto simp: not_less intro: order_trans)
  qed
qed auto

lemma scan_hot_None:
  assumes "scan_hot pinned ehs hot fh = (None, m)"
  shows "hot = None \<and> (\<forall>(i, h) \<in> set ehs. i \<notin> set pinned \<longrightarrow> h \<le> fh)"
  using assms
proof (induction ehs arbitrary: hot fh)
  case (Cons eh ehs)
  obtain i h where "eh = (i, h)" by (cases eh)
  with Cons show ?case by (fastforce simp: not_less split: if_splits)
qed simp

lemma scan_hot_lfru_total:
  assumes "\<And>e. e \<in> set es \<Longrightarrow> score e = Some (f e)"
  shows "\<exists>r. scan_hot_lfru score pinned es hot hs = Some r"
  using assms by (induction es arbitrary: hot hs) auto

lemma scan_hot_lfru_spec:
  assumes "scan_hot_lfru score pinned es hot hs = Some (r, m)"
    and "\<forall>e0. hot = Some e0 \<longrightarrow> e0 \<notin> set pinned \<and> score e0 = Some hs"
  shows "(\<forall>e. r = Some e \<longrightarrow> e \<notin> set pinned \<and> score e = Some m \<and> e \<in> set es \<union> set_option hot \<and>
            (hot \<noteq> None \<longrightarrow> hs \<le> m) \<and>
            (\<forall>i \<in> set es. i \<notin> set pinned \<longrightarrow> the (score i) \<le> m))
       \<and> (r = None \<longrightarrow> hot = None \<and> (\<forall>i \<in> set es. i \<in> set pinned))"
  using assms
proof (induction es arbitrary: hot hs)
  case (Cons e es)
  from Cons.prems(1) obtain sc where sc: "score e = Some sc"
    by (auto simp: Option.bind_eq_Some_conv)
  show ?case
  proof (cases "e \<notin> set pinned \<and> (hot = None \<or> hs < sc)")
    case True
    with Cons.prems(1) sc have "scan_hot_lfru score pinned es (Some e) sc = Some (r, m)" by simp
    from Cons.IH [OF this] True sc show ?thesis by (cases r) auto
  next
    case False
    with Cons.prems(1) sc have eq: "scan_hot_lfru score pinned es hot hs = Some (r, m)" by simp
    have "e \<in> set pinned \<or> sc \<le> hs \<and> hot \<noteq> None" using False by (auto simp: not_less)
    then have "e \<notin> set pinned \<Longrightarrow> hs \<le> m \<Longrightarrow> sc \<le> m" using order_trans by blast
    with Cons.IH [OF eq Cons.prems(2)] False sc show ?thesis by (cases r) auto
  qed
qed auto

lemma lfru_at_Some [simp]:
  "e < length heat \<Longrightarrow> e < length lst \<Longrightarrow>
   lfru_at heat lst clock e = Some (lfru_score (heat ! e) (lst ! e) clock)"
  by (simp add: lfru_at_def)

section \<open>Properties\<close>

text \<open>
  Eviction ranks by recency first.  Of two cached experts the one whose last access is
  older scores strictly lower whatever the heats are, also after the 32-bit clock has wrapped
  (ages are differences modulo \<open>2^32\<close>); for equal ages the lower (capped) heat loses.
\<close>

lemma evict_score_recency_primary:
  "evict_score h1 l1 clock < evict_score h2 l2 clock \<longleftrightarrow>
     clock - l2 < clock - l1 \<or>
     (clock - l1 = clock - l2 \<and> min (unat h1) 65535 < min (unat h2) 65535)"
proof -
  let ?a1 = "unat (clock - l1)" and ?a2 = "unat (clock - l2)"
  let ?m1 = "min (unat h1) 65535" and ?m2 = "min (unat h2) 65535"
  have b: "?a1 < 2 ^ 32" "?a2 < 2 ^ 32"
    using unat_lt_pow [of "clock - l1"] unat_lt_pow [of "clock - l2"] by simp_all
  have "(2 ^ 32 - 1 - ?a1) * 65536 + ?m1 < (2 ^ 32 - 1 - ?a2) * 65536 + ?m2 \<longleftrightarrow>
      ?a2 < ?a1 \<or> (?a1 = ?a2 \<and> ?m1 < ?m2)"
    using b by (cases "?a1 < ?a2"; cases "?a1 = ?a2") (auto simp: min_def)
  then show ?thesis
    by (simp only: word_less_nat_alt unat_evict_score word_unat_eq_iff)
qed

text \<open>
  In the LFRU score one access of frequency outweighs any recency, so a colder expert
  never outscores a hotter one however recently it was used.
\<close>

lemma lfru_score_frequency_primary:
  assumes "h1 < h2"
  shows "lfru_score h1 l1 clock < lfru_score h2 l2 clock"
proof -
  have "recency_bonus l1 clock < 256" by (simp add: recency_bonus_def)
  moreover from assms have "unat h1 + 1 \<le> unat h2" by (simp add: word_less_nat_alt)
  ultimately show ?thesis by (simp add: word_less_nat_alt unat_lfru_score)
qed

text \<open>What the cold scan of a whole pinned set establishes, panics excluded or not.\<close>

lemma cold_slot_least:
  fixes key :: "nat \<Rightarrow> ('k::linorder) option"
  assumes "scan_cold key pinned [1..<length pinned] 0 = Some c" and "pinned \<noteq> []"
    and "z < length pinned"
  shows "the (key (pinned ! c)) \<le> the (key (pinned ! z))"
proof (cases "length pinned = 1")
  case True
  with assms show ?thesis by simp
next
  case False
  with assms(2) have "1 < length pinned" by (cases pinned) auto
  moreover from this assms(3) have "z \<in> insert 0 (set [1..<length pinned])" by auto
  ultimately show ?thesis using scan_cold_least [OF assms(1)] by auto
qed

text \<open>
  A swap that \<open>pick_swap\<close> proposes names a pinned slot of least heat and an unpinned
  expert of greatest heat, its gain is the difference of their heats, and, whenever the margin
  itself fits 32 bits, the newcomer beats the slot by more than a quarter plus four.
\<close>

lemma pick_swap_sound:
  assumes "pick_swap heat pinned = Some (Some s)"
  shows "slot s < length pinned \<and> pinned ! slot s < length heat \<and> eid s < length heat \<and>
    eid s \<notin> set pinned \<and>
    (\<forall>z < length pinned. heat ! (pinned ! slot s) \<le> the (idx heat (pinned ! z))) \<and>
    (\<forall>e < length heat. e \<notin> set pinned \<longrightarrow> heat ! e \<le> heat ! eid s) \<and>
    gain s = uint (heat ! eid s) - uint (heat ! (pinned ! slot s)) \<and>
    (let fc = unat (heat ! (pinned ! slot s)) in
       fc + fc div 4 + 4 < 2 ^ 32 \<longrightarrow> fc + fc div 4 + 4 < unat (heat ! eid s))"
proof -
  from assms have ne: "pinned \<noteq> []" by (auto simp: pick_swap_def)
  obtain hot fh where h': "scan_hot pinned (enumerate 0 heat) None 0 = (hot, fh)" by fastforce
  with assms obtain c e fc where
    c: "scan_cold (idx heat) pinned [1..<length pinned] 0 = Some c" and
    h: "scan_hot pinned (enumerate 0 heat) None 0 = (Some e, fh)" and
    fc: "idx pinned c = Some (pinned ! c)" "idx heat (pinned ! c) = Some fc" and
    m: "\<not> fh \<le> fc + drop_bit 2 fc + 4" and
    s: "s = \<lparr>slot = c, eid = e, gain = uint fh - uint fc\<rparr>"
    by (auto simp: pick_swap_def Option.bind_eq_Some_conv idx_eq_Some
        split: option.splits if_splits)
  have rng: "\<forall>(i, h) \<in> set (enumerate 0 heat). i < length heat \<and> h = heat ! i"
    by (auto simp: in_set_enumerate_eq)
  have hot: "e \<notin> set pinned" "e < length heat \<and> fh = heat ! e"
    and mx: "\<forall>(i, h) \<in> set (enumerate 0 heat). i \<notin> set pinned \<longrightarrow> h \<le> fh"
    using scan_hot_spec [OF h rng] by auto
  have "\<forall>i < length heat. i \<notin> set pinned \<longrightarrow> heat ! i \<le> fh"
    using mx by (auto simp: in_set_enumerate_eq)
  moreover have "\<forall>z < length pinned. fc \<le> the (idx heat (pinned ! z))"
    using cold_slot_least [OF c ne] fc(2) by auto
  moreover have "unat fc + unat fc div 4 + 4 < unat fh" if "unat fc + unat fc div 4 + 4 < 2 ^ 32"
  proof -
    have "unat (fc + drop_bit 2 fc) = unat fc + unat fc div 4"
      using that by (subst unat_add_no_wrap) (simp_all add: unat_drop_bit)
    then have "unat (fc + drop_bit 2 fc + 4) = unat fc + unat fc div 4 + 4"
      using that by (subst unat_add_no_wrap) simp_all
    with m show ?thesis by (simp add: word_le_nat_alt)
  qed
  ultimately show ?thesis using s hot fc by (auto simp: idx_eq_Some Let_def)
qed

text \<open>
  With every pinned slot in range the scan cannot panic, and when no swap is proposed no
  unpinned expert clears the (wrapped) margin over some coldest slot: no due swap is missed.
\<close>

lemma pick_swap_complete:
  assumes "\<forall>p \<in> set pinned. p < length heat" and "pinned \<noteq> []"
  shows "\<exists>r. pick_swap heat pinned = Some r \<and>
    (r = None \<longrightarrow> (\<exists>c < length pinned. (\<forall>z < length pinned. heat ! (pinned ! c) \<le> heat ! (pinned ! z)) \<and>
       (\<forall>e < length heat. e \<notin> set pinned \<longrightarrow>
          heat ! e \<le> heat ! (pinned ! c) + drop_bit 2 (heat ! (pinned ! c)) + 4 \<or> heat ! e = 0)))"
proof -
  let ?f = "\<lambda>z. heat ! (pinned ! z)"
  define c where "c = first_min_from ?f 0 [1..<length pinned]"
  have pos: "0 < length pinned" using assms(2) by simp
  have sc: "scan_cold (idx heat) pinned [1..<length pinned] 0 = Some c"
    unfolding c_def by (rule scan_cold_total) (use assms pos in auto)
  have cl: "c < length pinned" by (rule scan_cold_Some [OF sc pos])
  have pc: "pinned ! c < length heat" using assms(1) cl by simp
  have least: "?f c \<le> ?f z" if "z < length pinned" for z
    using cold_slot_least [OF sc assms(2) that] assms(1) cl that by simp
  obtain hot fh where h: "scan_hot pinned (enumerate 0 heat) None 0 = (hot, fh)" by fastforce
  have lh: "1 \<le> length heat" using pc by simp
  show ?thesis
  proof (cases hot)
    case None
    with h scan_hot_None [of pinned "enumerate 0 heat" None 0 fh]
    have "\<forall>e < length heat. e \<notin> set pinned \<longrightarrow> heat ! e = 0"
      by (auto simp: in_set_enumerate_eq)
    then show ?thesis using None h sc cl least lh assms(2) by (auto simp: pick_swap_def)
  next
    case (Some e)
    have "\<forall>i < length heat. i \<notin> set pinned \<longrightarrow> heat ! i \<le> fh"
      using scan_hot_spec [of pinned "enumerate 0 heat" None 0 e fh "\<lambda>_ _. True"] h Some
      by (auto simp: in_set_enumerate_eq)
    then show ?thesis using Some h sc cl pc least lh assms(2)
      by (auto simp: pick_swap_def intro: order_trans)
  qed
qed

text \<open>
  The margin of \<open>pick_swap\<close> is computed in 32 bits without a guard, so near the top of
  the counter range it wraps and a colder expert displaces a hotter pinned one.
\<close>

lemma pick_swap_margin_wraps:
  "pick_swap [4294967295, 1342177280] [0] = Some (Some \<lparr>slot = 0, eid = 1, gain = - 2952790015\<rparr>)"
  by (simp add: pick_swap_def idx_def)

text \<open>
  \<open>pick_lfru\<close> cannot wrap.  A proposed swap names a pinned slot of least LFRU score and an
  unpinned expert of greatest score, whose score exceeds the slot's by a quarter plus four
  frequency units, so the reported gain is at least four accesses.
\<close>

lemma pick_lfru_sound:
  assumes "pick_lfru heat lst clock pinned = Some (Some s)"
  defines "score \<equiv> \<lambda>e. lfru_score (heat ! e) (lst ! e) clock"
  shows "slot s < length pinned \<and> pinned ! slot s < length heat \<and> eid s < length heat \<and>
    eid s \<notin> set pinned \<and>
    (\<forall>e < length heat. e \<notin> set pinned \<longrightarrow> score e \<le> score (eid s)) \<and>
    (\<forall>z < length pinned. score (pinned ! slot s) \<le> the (lfru_at heat lst clock (pinned ! z))) \<and>
    unat (score (pinned ! slot s)) + unat (score (pinned ! slot s)) div 4 + 1024
      < unat (score (eid s)) \<and>
    4 \<le> gain s"
proof -
  from assms have ne: "pinned \<noteq> []" and len: "length heat \<le> length lst"
    by (auto simp: pick_lfru_def split: if_splits)
  let ?k = "lfru_at heat lst clock"
  from assms obtain c e hs cs where
    c: "scan_cold ?k pinned [1..<length pinned] 0 = Some c" and
    h: "scan_hot_lfru ?k pinned [0..<length heat] None 0 = Some (Some e, hs)" and
    cl: "c < length pinned" and cs: "?k (pinned ! c) = Some cs" and
    m: "\<not> hs \<le> cs + drop_bit 2 cs + push_bit 8 4" and
    s: "s = \<lparr>slot = c, eid = e, gain = uint (drop_bit 8 (hs - cs))\<rparr>"
    by (auto simp: pick_lfru_def Option.bind_eq_Some_conv idx_eq_Some
        split: option.splits if_splits)
  from scan_hot_lfru_spec [OF h] have e: "e \<notin> set pinned" "?k e = Some hs" "e < length heat"
    and mx: "\<forall>i < length heat. i \<notin> set pinned \<longrightarrow> the (?k i) \<le> hs" by auto
  have pc: "pinned ! c < length heat" "cs = score (pinned ! c)"
    using cs by (auto simp: lfru_at_def score_def idx_eq_Some Option.bind_eq_Some_conv)
  have hs: "hs = score e" using e len by (simp add: score_def)
  have small: "unat cs < 2 ^ 40" "unat hs < 2 ^ 40"
    using lfru_score_bound by (simp_all add: pc hs score_def)
  then have "unat (cs + drop_bit 2 cs) = unat cs + unat cs div 4"
    by (subst unat_add_no_wrap) (simp_all add: unat_drop_bit)
  then have "unat (cs + drop_bit 2 cs + push_bit 8 4) = unat cs + unat cs div 4 + 1024"
    using small by (subst unat_add_no_wrap) simp_all
  with m have gap: "unat cs + unat cs div 4 + 1024 < unat hs" by (simp add: word_le_nat_alt)
  then have "unat (hs - cs) = unat hs - unat cs"
    by (simp add: unat_sub word_le_nat_alt)
  with gap have "4 \<le> unat (drop_bit 8 (hs - cs))" by (simp add: unat_drop_bit)
  then have "int 4 \<le> int (unat (drop_bit 8 (hs - cs)))" by (simp only: of_nat_le_iff)
  then have "4 \<le> gain s" by (simp add: s)
  moreover have "\<forall>z < length pinned. cs \<le> the (?k (pinned ! z))"
    using cold_slot_least [OF c ne] cs by auto
  moreover have "\<forall>i < length heat. i \<notin> set pinned \<longrightarrow> score i \<le> hs"
    using mx len by (auto simp: score_def)
  ultimately show ?thesis using s cl pc e hs gap by auto
qed

text \<open>Decay halves every counter and keeps their order.\<close>

lemma decay_halves: "e < length heat \<Longrightarrow> unat (decay heat ! e) = unat (heat ! e) div 2"
  by (simp add: decay_def unat_drop_bit [of 1, simplified])

end
