(* ===== verification/Sharding.thy ===== *)
theory Sharding
  imports Prelude
begin

text \<open>
  Expert-to-node assignment: \<^verbatim>\<open>crates/colibri-cluster/src/sharding.rs\<close>, and the cluster
  configuration of \<^verbatim>\<open>crates/colibri-cluster/src/lib.rs\<close>.

  Node and expert numbers are natural numbers (the source's \<open>u32\<close> values; every product is
  formed in 64 or 128 bits and cannot overflow), selection weights and node loads are 64-bit
  words whose addition wraps.  \<open>None\<close> is a failed assertion, an index panic or a failed
  \<open>expect\<close>.
\<close>

section \<open>Definitions\<close>

datatype node_id = NodeId nat

record expert_sharding =
  num_nodes :: nat
  n_experts :: nat
  tbl :: "nat list option"

definition sharding_new :: "nat \<Rightarrow> nat \<Rightarrow> expert_sharding option" where
  "sharding_new nodes experts =
     (if nodes \<ge> 1 \<and> experts \<ge> 1
      then Some \<lparr> num_nodes = nodes, n_experts = experts, tbl = None \<rparr> else None)"

definition sharding_single :: "nat \<Rightarrow> expert_sharding option" where
  "sharding_single experts = sharding_new 1 experts"

text \<open>\<open>weights.get(e).copied().unwrap_or(0)\<close> and the heaviest-first order of both greedies.\<close>

definition weight_of :: "u64 list \<Rightarrow> nat \<Rightarrow> u64" where
  "weight_of weights e = get_or 0 weights e"

definition heaviest_first :: "u64 list \<Rightarrow> nat \<Rightarrow> nat list" where
  "heaviest_first weights experts =
     sort_key (\<lambda>e. (- uint (weight_of weights e), e)) [0..<experts]"

text \<open>One placement of the longest-processing-time greedy of \<open>balanced\<close>.\<close>

definition place_lightest :: "u64 list \<Rightarrow> nat \<Rightarrow> u64 list \<times> nat list \<Rightarrow> (u64 list \<times> nat list) option"
where
  "place_lightest weights e = (\<lambda>(load, table). do {
     node \<leftarrow> first_min (\<lambda>i. (load ! i, i)) [0..<length load];
     table' \<leftarrow> upd table e node;
     load' \<leftarrow> upd load node (load ! node + weight_of weights e);
     Some (load', table') })"

fun place_all :: "('s \<Rightarrow> nat \<Rightarrow> 's option) \<Rightarrow> nat list \<Rightarrow> 's \<Rightarrow> 's option" where
  "place_all step [] s = Some s"
| "place_all step (e # es) s = do { s' \<leftarrow> step s e; place_all step es s' }"

definition balanced :: "nat \<Rightarrow> nat \<Rightarrow> u64 list \<Rightarrow> expert_sharding option" where
  "balanced nodes experts weights =
     (if nodes < 1 \<or> experts < 1 then None
      else if nodes = 1 then sharding_single experts
      else do {
        (load, table) \<leftarrow> place_all (\<lambda>s e. place_lightest weights e s)
           (heaviest_first weights experts) (replicate nodes 0, replicate experts 0);
        Some \<lparr> num_nodes = nodes, n_experts = experts, tbl = Some table \<rparr> })"

text \<open>Largest-remainder quotas of \<open>capacity_weighted\<close>.\<close>

definition cap_of :: "u64 list \<Rightarrow> nat \<Rightarrow> nat" where
  "cap_of capacity n = unat (get_or 0 capacity n)"

definition cap_total :: "nat \<Rightarrow> u64 list \<Rightarrow> nat" where
  "cap_total nodes capacity = sum_list (map (cap_of capacity) [0..<nodes])"

definition quota_floor :: "nat \<Rightarrow> nat \<Rightarrow> u64 list \<Rightarrow> nat \<Rightarrow> nat" where
  "quota_floor nodes experts capacity n =
     cap_of capacity n * experts div cap_total nodes capacity"

definition quota_rem :: "nat \<Rightarrow> nat \<Rightarrow> u64 list \<Rightarrow> nat \<Rightarrow> nat" where
  "quota_rem nodes experts capacity n =
     cap_of capacity n * experts mod cap_total nodes capacity"

fun bump_all :: "nat list \<Rightarrow> nat list \<Rightarrow> nat list" where
  "bump_all quota [] = quota"
| "bump_all quota (n # ns) = bump_all (quota[n := quota ! n + 1]) ns"

definition quotas :: "nat \<Rightarrow> nat \<Rightarrow> u64 list \<Rightarrow> nat list" where
  "quotas nodes experts capacity =
     (let floors = map (quota_floor nodes experts capacity) [0..<nodes];
          by_rem = sort_key (\<lambda>n. (- int (quota_rem nodes experts capacity n), n)) [0..<nodes]
      in bump_all floors (take (experts - sum_list floors) by_rem))"

definition place_under_quota ::
  "nat list \<Rightarrow> u64 list \<Rightarrow> nat \<Rightarrow> u64 list \<times> nat list \<times> nat list
     \<Rightarrow> (u64 list \<times> nat list \<times> nat list) option"
where
  "place_under_quota quota weights e = (\<lambda>(load, used, table). do {
     node \<leftarrow> first_min (\<lambda>i. (load ! i, i)) (filter (\<lambda>i. used ! i < quota ! i) [0..<length load]);
     table' \<leftarrow> upd table e node;
     used' \<leftarrow> upd used node (used ! node + 1);
     load' \<leftarrow> upd load node (load ! node + weight_of weights e);
     Some (load', used', table') })"

definition capacity_weighted ::
  "nat \<Rightarrow> nat \<Rightarrow> u64 list \<Rightarrow> u64 list \<Rightarrow> expert_sharding option"
where
  "capacity_weighted nodes experts capacity weights =
     (if nodes < 1 \<or> experts < 1 then None
      else if nodes = 1 \<or> cap_total nodes capacity = 0 then balanced nodes experts weights
      else do {
        (load, used, table) \<leftarrow>
          place_all (\<lambda>s e. place_under_quota (quotas nodes experts capacity) weights e s)
            (heaviest_first weights experts)
            (replicate nodes 0, replicate nodes 0, replicate experts 0);
        Some \<lparr> num_nodes = nodes, n_experts = experts, tbl = Some table \<rparr> })"

definition is_hot_aware :: "expert_sharding \<Rightarrow> bool" where
  "is_hot_aware sh = (tbl sh \<noteq> None)"

definition owner :: "expert_sharding \<Rightarrow> nat \<Rightarrow> node_id option" where
  "owner sh e = (case tbl sh of
     Some t \<Rightarrow> map_option NodeId (idx t e)
   | None \<Rightarrow> if n_experts sh = 0 then None
             else Some (NodeId (e * num_nodes sh div n_experts sh)))"

definition is_local :: "expert_sharding \<Rightarrow> node_id \<Rightarrow> nat \<Rightarrow> bool option" where
  "is_local sh node e = map_option (\<lambda>o'. o' = node) (owner sh e)"

definition div_ceil :: "nat \<Rightarrow> nat \<Rightarrow> nat" where
  "div_ceil a b = (a div b) + (if a mod b = 0 then 0 else 1)"

fun node_num :: "node_id \<Rightarrow> nat" where
  "node_num (NodeId n) = n"

definition range_for :: "expert_sharding \<Rightarrow> node_id \<Rightarrow> nat \<times> nat" where
  "range_for sh node =
     (let e = n_experts sh; n = num_nodes sh; k = node_num node
      in (div_ceil (k * e) n, div_ceil ((k + 1) * e) n))"

definition owners :: "expert_sharding \<Rightarrow> node_id list option" where
  "owners sh = those (map (owner sh) [0..<n_experts sh])"

definition local_experts :: "expert_sharding \<Rightarrow> node_id \<Rightarrow> nat list option" where
  "local_experts sh node = do {
     os \<leftarrow> owners sh; Some (filter (\<lambda>e. os ! e = node) [0..<n_experts sh]) }"

definition count_for :: "expert_sharding \<Rightarrow> node_id \<Rightarrow> nat option" where
  "count_for sh node = do { es \<leftarrow> local_experts sh node; Some (length es) }"

definition node_weights :: "expert_sharding \<Rightarrow> u64 list \<Rightarrow> u64 list option" where
  "node_weights sh weights =
     place_all (\<lambda>out e. do {
         o' \<leftarrow> owner sh e;
         w \<leftarrow> idx out (node_num o');
         upd out (node_num o') (w + weight_of weights e) })
       [0..<n_experts sh] (replicate (num_nodes sh) 0)"

text \<open>FNV-1a over the little-endian bytes of the counts and the owner sequence.\<close>

definition le_bytes4 :: "nat \<Rightarrow> u64 list" where
  "le_bytes4 x = map (\<lambda>k. of_nat (x div 256 ^ k mod 256)) [0, 1, 2, 3]"

definition fnv_step :: "u64 \<Rightarrow> u64 \<Rightarrow> u64" where
  "fnv_step h b = (h XOR b) * 0x100000001b3"

definition fnv_mix :: "u64 \<Rightarrow> nat \<Rightarrow> u64" where
  "fnv_mix h x = foldl fnv_step h (le_bytes4 x)"

definition fingerprint :: "expert_sharding \<Rightarrow> u64 option" where
  "fingerprint sh = do {
     os \<leftarrow> owners sh;
     Some (foldl fnv_mix 0xcbf29ce484222325 (num_nodes sh # n_experts sh # map node_num os)) }"

record cluster_config =
  cc_num_nodes :: nat
  cc_this_node :: node_id

definition cluster_single :: cluster_config where
  "cluster_single = \<lparr> cc_num_nodes = 1, cc_this_node = NodeId 0 \<rparr>"

text \<open>
  \<open>from_env\<close>: the two variables as already parsed \<open>u32\<close> values (\<open>None\<close> when unset or
  unparseable).
\<close>

definition cluster_from_env :: "nat option \<Rightarrow> nat option \<Rightarrow> cluster_config" where
  "cluster_from_env nodes_var rank_var =
     (let n = (case nodes_var of Some n \<Rightarrow> if n \<ge> 1 then n else 1 | None \<Rightarrow> 1);
          r = (case rank_var of Some r \<Rightarrow> if r < n then r else 0 | None \<Rightarrow> 0)
      in \<lparr> cc_num_nodes = n, cc_this_node = NodeId r \<rparr>)"

definition expert_sharding_of :: "cluster_config \<Rightarrow> nat \<Rightarrow> expert_sharding option" where
  "expert_sharding_of cc experts = sharding_new (cc_num_nodes cc) experts"

definition expert_sharding_balanced ::
  "cluster_config \<Rightarrow> nat \<Rightarrow> u64 list \<Rightarrow> expert_sharding option" where
  "expert_sharding_balanced cc experts weights = balanced (cc_num_nodes cc) experts weights"

section \<open>The ownership interface\<close>

text \<open>
  What the MoE dispatch relies on, whatever produced the map: every expert has an owner and the
  owner is a node of the cluster.
\<close>

locale ownership =
  fixes wf :: "'m \<Rightarrow> bool"
    and own :: "'m \<Rightarrow> nat \<Rightarrow> node_id option"
    and nodes_of :: "'m \<Rightarrow> nat"
    and experts_of :: "'m \<Rightarrow> nat"
  assumes own_total: "wf m \<Longrightarrow> e < experts_of m \<Longrightarrow> \<exists>k < nodes_of m. own m e = Some (NodeId k)"
begin

lemma unique_owner:
  assumes "wf m" and "e < experts_of m"
  shows "\<exists>!k. k < nodes_of m \<and> own m e = Some (NodeId k)"
  using own_total [OF assms] by auto

lemma owned_counts_sum:
  assumes "wf m"
  shows "(\<Sum>k < nodes_of m. length (filter (\<lambda>e. own m e = Some (NodeId k)) [0..<experts_of m]))
     = experts_of m"
proof -
  define f where "f e = node_num (the (own m e))" for e
  have "length (filter (\<lambda>e. own m e = Some (NodeId k)) [0..<experts_of m])
      = length (filter (\<lambda>e. f e = k) [0..<experts_of m])" for k
  proof -
    have "filter (\<lambda>e. own m e = Some (NodeId k)) [0..<experts_of m]
        = filter (\<lambda>e. f e = k) [0..<experts_of m]"
      by (rule filter_cong) (use own_total [OF assms] in \<open>force simp: f_def\<close>)+
    then show ?thesis by simp
  qed
  moreover have "filter (\<lambda>e. f e < nodes_of m) [0..<experts_of m] = [0..<experts_of m]"
    by (rule filter_True) (use own_total [OF assms] in \<open>force simp: f_def\<close>)
  ultimately show ?thesis using sum_list_filter_partition [where f = f and n = "nodes_of m" and xs = "[0..<experts_of m]"]
    by simp
qed

end

definition wf_sharding :: "expert_sharding \<Rightarrow> bool" where
  "wf_sharding sh \<longleftrightarrow> 1 \<le> num_nodes sh \<and> 1 \<le> n_experts sh \<and>
     (case tbl sh of None \<Rightarrow> True
      | Some t \<Rightarrow> length t = n_experts sh \<and> list_all (\<lambda>k. k < num_nodes sh) t)"

lemma contiguous_owner_lt:
  fixes e n k :: nat
  assumes "e < n" and "1 \<le> k"
  shows "e * k div n < k"
  using assms by (simp add: div_less_iff_less_mult)

interpretation shards: ownership wf_sharding owner num_nodes n_experts
proof
  fix sh e
  assume "wf_sharding sh" and "e < n_experts sh"
  then show "\<exists>k < num_nodes sh. owner sh e = Some (NodeId k)"
    by (auto simp: wf_sharding_def owner_def list_all_length contiguous_owner_lt split: option.splits)
qed

lemma those_map_Some:
  "(\<And>x. x \<in> set xs \<Longrightarrow> f x = Some (g x)) \<Longrightarrow> those (map f xs) = Some (map g xs)"
  by (induction xs) auto

lemma owners_Some:
  assumes "wf_sharding sh"
  shows "owners sh = Some (map (\<lambda>e. the (owner sh e)) [0..<n_experts sh])"
  unfolding owners_def
  by (rule those_map_Some) (use shards.own_total [OF assms] in force)

lemma local_experts_wf:
  assumes "wf_sharding sh"
  shows "local_experts sh node
     = Some (filter (\<lambda>e. owner sh e = Some node) [0..<n_experts sh])"
proof -
  have "filter (\<lambda>e. map (\<lambda>e. the (owner sh e)) [0..<n_experts sh] ! e = node) [0..<n_experts sh]
      = filter (\<lambda>e. owner sh e = Some node) [0..<n_experts sh]"
    by (rule filter_cong) (use shards.own_total [OF assms] in force)+
  then show ?thesis by (simp add: local_experts_def owners_Some [OF assms])
qed

section \<open>Running the greedies\<close>

text \<open>Invariant rule for \<open>place_all\<close>: the invariant may mention the experts already placed.\<close>

lemma place_all_inv:
  assumes step: "\<And>ps e rest s. order = ps @ e # rest \<Longrightarrow> I ps s \<Longrightarrow>
      \<exists>s'. step s e = Some s' \<and> I (ps @ [e]) s'"
    and init: "I [] s0"
  shows "\<exists>s'. place_all step order s0 = Some s' \<and> I order s'"
proof -
  have "\<exists>s'. place_all step es s = Some s' \<and> I order s'"
    if "order = ps @ es" and "I ps s" for ps es s
    using that
  proof (induction es arbitrary: ps s)
    case (Cons e es)
    from step [OF Cons.prems] obtain s' where s': "step s e = Some s'" "I (ps @ [e]) s'" by auto
    have "order = (ps @ [e]) @ es" using Cons.prems by simp
    from Cons.IH [OF this s'(2)] s'(1) show ?case by simp
  qed simp
  from this [of "[]" order s0] init show ?thesis by simp
qed

lemma mset_heaviest_first: "mset (heaviest_first weights experts) = mset [0..<experts]"
  by (simp add: heaviest_first_def)

lemma set_heaviest_first [simp]: "set (heaviest_first weights experts) = {0..<experts}"
  by (simp add: heaviest_first_def)

lemma distinct_heaviest_first [simp]: "distinct (heaviest_first weights experts)"
  by (simp add: heaviest_first_def)

lemma length_heaviest_first [simp]: "length (heaviest_first weights experts) = experts"
  by (simp add: heaviest_first_def)

text \<open>The load a table gives a node, over the experts placed so far.\<close>

definition node_load :: "u64 list \<Rightarrow> nat list \<Rightarrow> nat list \<Rightarrow> nat \<Rightarrow> u64" where
  "node_load weights table ps i = (\<Sum>e \<in> {e \<in> set ps. table ! e = i}. weight_of weights e)"

lemma node_load_step:
  assumes "e \<notin> set ps" and "e < length table"
  shows "node_load weights (table[e := node]) (ps @ [e]) i
     = node_load weights table ps i + (if i = node then weight_of weights e else 0)"
proof -
  have "{d \<in> set (ps @ [e]). table[e := node] ! d = i}
      = {d \<in> set ps. table ! d = i} \<union> (if i = node then {e} else {})"
    using assms by (auto simp: nth_list_update)
  moreover have "e \<notin> {d \<in> set ps. table ! d = i}" using assms(1) by auto
  ultimately show ?thesis by (auto simp: node_load_def add.commute)
qed

lemma order_next:
  assumes "heaviest_first weights experts = ps @ e # rest"
  shows "e \<notin> set ps" and "e < experts"
proof -
  have "distinct (ps @ e # rest)" using distinct_heaviest_first [of weights experts] assms by simp
  then show "e \<notin> set ps" by simp
  have "e \<in> set (heaviest_first weights experts)" by (simp add: assms)
  then show "e < experts" by simp
qed

definition table_inv :: "nat \<Rightarrow> nat \<Rightarrow> u64 list \<Rightarrow> nat list \<Rightarrow> u64 list \<times> nat list \<Rightarrow> bool" where
  "table_inv nodes experts weights ps = (\<lambda>(load, table).
     length load = nodes \<and> length table = experts \<and> list_all (\<lambda>k. k < nodes) table \<and>
     (\<forall>i < nodes. load ! i = node_load weights table ps i))"

lemma place_lightest_inv:
  assumes "heaviest_first weights experts = ps @ e # rest" and "1 \<le> nodes"
    and inv: "table_inv nodes experts weights ps (load, table)"
  obtains node where "node < nodes" and "\<forall>i < nodes. load ! node \<le> load ! i"
    and "place_lightest weights e (load, table)
       = Some (load[node := load ! node + weight_of weights e], table[e := node])"
    and "table_inv nodes experts weights (ps @ [e])
       (load[node := load ! node + weight_of weights e], table[e := node])"
proof -
  note e = order_next [OF assms(1)]
  have len: "length load = nodes" "length table = experts" using inv by (auto simp: table_inv_def)
  then have "[0..<length load] \<noteq> []" using assms(2) by simp
  then obtain node where m: "first_min (\<lambda>i. (load ! i, i)) [0..<length load] = Some node"
    by fastforce
  have n: "node < nodes" using first_min_Some(1) [OF m] len by simp
  have "load ! node \<le> load ! i" if "i < nodes" for i
    using first_min_Some(2) [OF m, of i] len that by (auto simp: less_eq_prod_def)
  then have least: "\<forall>i < nodes. load ! node \<le> load ! i" by blast
  have "table_inv nodes experts weights (ps @ [e])
     (load[node := load ! node + weight_of weights e], table[e := node])"
    using inv n e len
    by (auto simp: table_inv_def node_load_step nth_list_update list_all_length)
  moreover have "place_lightest weights e (load, table)
     = Some (load[node := load ! node + weight_of weights e], table[e := node])"
    using m n e len by (simp add: place_lightest_def upd_def)
  ultimately show ?thesis using n least that by blast
qed

lemma table_inv_init:
  "1 \<le> nodes \<Longrightarrow> table_inv nodes experts weights [] (replicate nodes 0, replicate experts 0)"
  by (simp add: table_inv_def node_load_def list_all_length)

text \<open>No expert outweighs \<open>w\<close>, the loads are within one such weight of each other.\<close>

definition lpt_inv :: "nat \<Rightarrow> nat \<Rightarrow> u64 list \<Rightarrow> nat \<Rightarrow> nat list \<Rightarrow> u64 list \<times> nat list \<Rightarrow> bool" where
  "lpt_inv nodes experts weights w ps = (\<lambda>(load, table).
     table_inv nodes experts weights ps (load, table) \<and>
     (\<Sum>x \<leftarrow> load. unat x) = (\<Sum>e \<leftarrow> ps. unat (weight_of weights e)) \<and>
     (\<forall>i < nodes. \<forall>j < nodes. unat (load ! i) \<le> unat (load ! j) + w))"

lemma sum_list_unat_update:
  assumes "i < length load" and "unat (load ! i + x) = unat (load ! i) + unat x"
  shows "(\<Sum>y \<leftarrow> load[i := load ! i + x]. unat y) = (\<Sum>y \<leftarrow> load. unat y) + unat x"
proof -
  have "map unat (load[i := load ! i + x]) = (map unat load)[i := map unat load ! i + unat x]"
    using assms by (simp add: map_update)
  then show ?thesis using assms(1) sum_list_update_Suc [of i "map unat load" "unat x"] by simp
qed

lemma place_lightest_lpt:
  assumes order: "heaviest_first weights experts = ps @ e # rest" and "1 \<le> nodes"
    and total: "(\<Sum>e < experts. unat (weight_of weights e)) < 2 ^ 64"
    and w: "\<forall>e < experts. unat (weight_of weights e) \<le> w"
    and inv: "lpt_inv nodes experts weights w ps s"
  shows "\<exists>s'. place_lightest weights e s = Some s' \<and> lpt_inv nodes experts weights w (ps @ [e]) s'"
proof -
  obtain load table where s: "s = (load, table)" by (cases s)
  from inv s have ti: "table_inv nodes experts weights ps (load, table)"
    and sum: "(\<Sum>x \<leftarrow> load. unat x) = (\<Sum>e \<leftarrow> ps. unat (weight_of weights e))"
    and gap: "\<And>i j. i < nodes \<Longrightarrow> j < nodes \<Longrightarrow> unat (load ! i) \<le> unat (load ! j) + w"
    by (auto simp: lpt_inv_def)
  from place_lightest_inv [OF order assms(2) ti] obtain node where n: "node < nodes"
    and least: "\<forall>i < nodes. load ! node \<le> load ! i"
    and st: "place_lightest weights e (load, table)
       = Some (load[node := load ! node + weight_of weights e], table[e := node])"
    and ti': "table_inv nodes experts weights (ps @ [e])
       (load[node := load ! node + weight_of weights e], table[e := node])"
    by blast
  let ?we = "unat (weight_of weights e)"
  have len: "length load = nodes" using ti by (simp add: table_inv_def)
  have "(\<Sum>e \<leftarrow> heaviest_first weights experts. unat (weight_of weights e))
      = (\<Sum>e < experts. unat (weight_of weights e))"
    by (subst sum_list_distinct_conv_sum_set) (simp_all add: atLeast0LessThan)
  then have "(\<Sum>x \<leftarrow> load. unat x) + ?we \<le> (\<Sum>e < experts. unat (weight_of weights e))"
    by (simp add: order sum)
  moreover have "unat (load ! node) \<le> (\<Sum>x \<leftarrow> load. unat x)"
    by (rule member_le_sum_list) (use n len in auto)
  ultimately have small: "unat (load ! node) + ?we < 2 ^ 64" using total by linarith
  then have add: "unat (load ! node + weight_of weights e) = unat (load ! node) + ?we"
    by (subst unat_add_no_wrap) simp_all
  have we: "?we \<le> w" using w order_next(2) [OF order] by simp
  have "unat (load[node := load ! node + weight_of weights e] ! i)
      \<le> unat (load[node := load ! node + weight_of weights e] ! j) + w"
    if "i < nodes" "j < nodes" for i j
    using gap [OF that] least n that len we add
    by (auto simp: nth_list_update word_le_nat_alt intro: add_mono)
  then have "lpt_inv nodes experts weights w (ps @ [e])
      (load[node := load ! node + weight_of weights e], table[e := node])"
    using ti' sum sum_list_unat_update [OF _ add] n len by (simp add: lpt_inv_def)
  then show ?thesis using st s by blast
qed

lemma balanced_run:
  assumes "2 \<le> nodes" and "1 \<le> experts"
  obtains load table where "balanced nodes experts weights
      = Some \<lparr>num_nodes = nodes, n_experts = experts, tbl = Some table\<rparr>"
    and "table_inv nodes experts weights (heaviest_first weights experts) (load, table)"
proof -
  let ?step = "\<lambda>s e. place_lightest weights e s"
  have n: "1 \<le> nodes" using assms(1) by simp
  have "\<exists>s'. place_all ?step (heaviest_first weights experts)
        (replicate nodes 0, replicate experts 0) = Some s' \<and>
      table_inv nodes experts weights (heaviest_first weights experts) s'"
  proof (rule place_all_inv [where I = "table_inv nodes experts weights"])
    fix ps e rest s
    assume "heaviest_first weights experts = ps @ e # rest"
      and "table_inv nodes experts weights ps s"
    then show "\<exists>s'. place_lightest weights e s = Some s' \<and>
        table_inv nodes experts weights (ps @ [e]) s'"
      using place_lightest_inv [OF _ n] by (cases s) blast
  qed (rule table_inv_init [OF n])
  then obtain load table where r: "place_all ?step (heaviest_first weights experts)
        (replicate nodes 0, replicate experts 0) = Some (load, table)"
    and i: "table_inv nodes experts weights (heaviest_first weights experts) (load, table)"
    by auto
  from r assms have "balanced nodes experts weights
      = Some \<lparr>num_nodes = nodes, n_experts = experts, tbl = Some table\<rparr>"
    by (simp add: balanced_def)
  then show ?thesis using i that by blast
qed

lemma balanced_wf:
  assumes "1 \<le> nodes" and "1 \<le> experts"
  shows "\<exists>sh. balanced nodes experts weights = Some sh \<and> wf_sharding sh \<and>
     num_nodes sh = nodes \<and> n_experts sh = experts"
proof (cases "nodes = 1")
  case True
  with assms show ?thesis
    by (auto simp: balanced_def sharding_single_def sharding_new_def wf_sharding_def)
next
  case False
  with assms have "2 \<le> nodes" by simp
  from balanced_run [OF this assms(2)] obtain load table where
    "balanced nodes experts weights = Some \<lparr>num_nodes = nodes, n_experts = experts, tbl = Some table\<rparr>"
    and "table_inv nodes experts weights (heaviest_first weights experts) (load, table)" by blast
  then show ?thesis using assms by (auto simp: wf_sharding_def table_inv_def)
qed

section \<open>Quotas\<close>

lemma length_bump_all [simp]: "length (bump_all quota ns) = length quota"
  by (induction quota ns rule: bump_all.induct) auto

lemma bump_all_nth:
  assumes "distinct ns" and "\<forall>n \<in> set ns. n < length quota" and "i < length quota"
  shows "bump_all quota ns ! i = quota ! i + (if i \<in> set ns then 1 else 0)"
  using assms by (induction quota ns rule: bump_all.induct) (auto simp: nth_list_update)

lemma sum_bump_all:
  assumes "\<forall>n \<in> set ns. n < length quota"
  shows "sum_list (bump_all quota ns) = sum_list quota + length ns"
  using assms
proof (induction quota ns rule: bump_all.induct)
  case (2 quota n ns)
  then have "sum_list (bump_all (quota[n := quota ! n + 1]) ns)
      = sum_list (quota[n := quota ! n + 1]) + length ns" by simp
  with 2 show ?case using sum_list_update_Suc [of n quota 1] by simp
qed simp

definition by_rem :: "nat \<Rightarrow> nat \<Rightarrow> u64 list \<Rightarrow> nat list" where
  "by_rem nodes experts capacity =
     sort_key (\<lambda>n. (- int (quota_rem nodes experts capacity n), n)) [0..<nodes]"

lemma by_rem_props [simp]:
  "set (by_rem nodes experts capacity) = {0..<nodes}"
  "distinct (by_rem nodes experts capacity)"
  "length (by_rem nodes experts capacity) = nodes"
  by (simp_all add: by_rem_def)

text \<open>The leftover after rounding down is smaller than the number of nodes.\<close>

lemma quota_leftover:
  fixes nodes experts :: nat and capacity :: "u64 list"
  assumes "0 < cap_total nodes capacity"
  defines "fl \<equiv> sum_list (map (quota_floor nodes experts capacity) [0..<nodes])"
  shows "fl \<le> experts" and "experts - fl < nodes"
proof -
  let ?T = "cap_total nodes capacity"
  let ?f = "quota_floor nodes experts capacity" and ?r = "quota_rem nodes experts capacity"
  have split: "cap_of capacity n * experts = ?f n * ?T + ?r n" for n
    by (simp only: quota_floor_def quota_rem_def div_mult_mod_eq)
  have "?T * experts = (\<Sum>n \<leftarrow> [0..<nodes]. cap_of capacity n * experts)"
    by (simp add: cap_total_def sum_list_mult_const)
  also have "\<dots> = fl * ?T + (\<Sum>n \<leftarrow> [0..<nodes]. ?r n)"
    by (simp add: split sum_list_addf sum_list_mult_const fl_def)
  finally have eq: "?T * experts = fl * ?T + (\<Sum>n \<leftarrow> [0..<nodes]. ?r n)" .
  then have "fl * ?T \<le> experts * ?T" by (simp add: mult.commute)
  then show le: "fl \<le> experts" using assms(1) by simp
  have pos: "nodes \<noteq> 0"
    using assms(1) by (cases nodes) (auto simp: cap_total_def)
  have "(\<Sum>n \<leftarrow> [0..<nodes]. ?r n) = (\<Sum>n < nodes. ?r n)"
    by (simp add: sum_list_distinct_conv_sum_set atLeast0LessThan)
  also have "\<dots> < (\<Sum>n < nodes. ?T)"
    by (rule sum_strict_mono) (use assms(1) pos in \<open>auto simp: quota_rem_def\<close>)
  finally have "(\<Sum>n \<leftarrow> [0..<nodes]. ?r n) < nodes * ?T" by simp
  moreover have "(experts - fl) * ?T = (\<Sum>n \<leftarrow> [0..<nodes]. ?r n)"
    using eq by (simp add: diff_mult_distrib mult.commute)
  ultimately show "experts - fl < nodes" by (metis mult_less_cancel2)
qed

lemma quotas_alt:
  "quotas nodes experts capacity =
     bump_all (map (quota_floor nodes experts capacity) [0..<nodes])
       (take (experts - sum_list (map (quota_floor nodes experts capacity) [0..<nodes]))
         (by_rem nodes experts capacity))"
  by (simp add: quotas_def by_rem_def Let_def)

lemma length_quotas [simp]: "length (quotas nodes experts capacity) = nodes"
  by (simp add: quotas_alt)

lemma quotas_sum:
  assumes "0 < cap_total nodes capacity"
  shows "sum_list (quotas nodes experts capacity) = experts"
proof -
  let ?fl = "sum_list (map (quota_floor nodes experts capacity) [0..<nodes])"
  have "\<forall>n \<in> set (take (experts - ?fl) (by_rem nodes experts capacity)). n < nodes"
    using set_take_subset [of "experts - ?fl" "by_rem nodes experts capacity"] by auto
  then show ?thesis
    using quota_leftover [OF assms, of experts] by (simp add: quotas_alt sum_bump_all)
qed

lemma quotas_near_share:
  assumes "0 < cap_total nodes capacity" and "n < nodes"
  shows "quota_floor nodes experts capacity n \<le> quotas nodes experts capacity ! n"
    and "quotas nodes experts capacity ! n \<le> quota_floor nodes experts capacity n + 1"
proof -
  let ?fl = "sum_list (map (quota_floor nodes experts capacity) [0..<nodes])"
  let ?ns = "take (experts - ?fl) (by_rem nodes experts capacity)"
  have "\<forall>n \<in> set ?ns. n < nodes"
    using set_take_subset [of "experts - ?fl" "by_rem nodes experts capacity"] by auto
  then have "quotas nodes experts capacity ! n
      = quota_floor nodes experts capacity n + (if n \<in> set ?ns then 1 else 0)"
    using assms(2) by (simp add: quotas_alt bump_all_nth)
  then show "quota_floor nodes experts capacity n \<le> quotas nodes experts capacity ! n"
    and "quotas nodes experts capacity ! n \<le> quota_floor nodes experts capacity n + 1" by simp_all
qed

definition cap_inv :: "nat \<Rightarrow> nat \<Rightarrow> nat list \<Rightarrow> nat list \<Rightarrow> u64 list \<times> nat list \<times> nat list \<Rightarrow> bool"
where
  "cap_inv nodes experts quota ps = (\<lambda>(load, used, table).
     length load = nodes \<and> length used = nodes \<and> length table = experts \<and>
     list_all (\<lambda>k. k < nodes) table \<and> sum_list used = length ps \<and>
     (\<forall>i < nodes. used ! i \<le> quota ! i \<and> used ! i = card {e \<in> set ps. table ! e = i}))"

lemma some_under_quota:
  assumes "length used = length quota" and "sum_list used < sum_list (quota :: nat list)"
  shows "\<exists>i < length quota. used ! i < quota ! i"
proof (rule ccontr)
  assume "\<not> ?thesis"
  then have "\<forall>i. i < length quota \<longrightarrow> quota ! i \<le> used ! i" by (meson not_less)
  then have "sum_list quota \<le> sum_list used"
    using assms(1) by (intro sum_list_mono2) simp_all
  with assms(2) show False by simp
qed

lemma place_under_quota_inv:
  assumes order: "heaviest_first weights experts = ps @ e # rest" and "1 \<le> nodes"
    and q: "length quota = nodes" "sum_list quota = experts"
    and inv: "cap_inv nodes experts quota ps s"
  shows "\<exists>s'. place_under_quota quota weights e s = Some s' \<and> cap_inv nodes experts quota (ps @ [e]) s'"
proof -
  obtain load used table where s: "s = (load, used, table)" by (cases s)
  note e = order_next [OF order]
  have len: "length load = nodes" "length used = nodes" "length table = experts"
    and sum: "sum_list used = length ps" using inv by (auto simp: cap_inv_def s)
  have "length ps < experts" using length_heaviest_first [of weights experts] order by simp
  with some_under_quota [of used quota] len q sum
  have "filter (\<lambda>i. used ! i < quota ! i) [0..<length load] \<noteq> []"
    by (auto simp: filter_empty_conv)
  then obtain node where m: "first_min (\<lambda>i. (load ! i, i))
      (filter (\<lambda>i. used ! i < quota ! i) [0..<length load]) = Some node" by fastforce
  from first_min_Some(1) [OF m] len have n: "node < nodes" "used ! node < quota ! node" by auto
  let ?s' = "(load[node := load ! node + weight_of weights e],
      used[node := used ! node + 1], table[e := node])"
  have set_eq: "{d \<in> set (ps @ [e]). table[e := node] ! d = i}
      = {d \<in> set ps. table ! d = i} \<union> (if i = node then {e} else {})" for i
    using e len by (auto simp: nth_list_update)
  have "card {d \<in> set (ps @ [e]). table[e := node] ! d = i}
      = card {d \<in> set ps. table ! d = i} + (if i = node then 1 else 0)" for i
    unfolding set_eq using e by (simp add: card_insert_if)
  then have "cap_inv nodes experts quota (ps @ [e]) ?s'"
    using inv n e len sum_list_update_Suc [of node used 1]
    by (auto simp: cap_inv_def s nth_list_update list_all_length)
  moreover have "place_under_quota quota weights e s = Some ?s'"
    using m n e len by (simp add: place_under_quota_def upd_def s)
  ultimately show ?thesis by blast
qed

lemma capacity_run:
  assumes "2 \<le> nodes" and "1 \<le> experts" and "0 < cap_total nodes capacity"
  obtains load used table where "capacity_weighted nodes experts capacity weights
      = Some \<lparr>num_nodes = nodes, n_experts = experts, tbl = Some table\<rparr>"
    and "cap_inv nodes experts (quotas nodes experts capacity)
      (heaviest_first weights experts) (load, used, table)"
proof -
  let ?q = "quotas nodes experts capacity"
  let ?step = "\<lambda>s e. place_under_quota ?q weights e s"
  let ?s0 = "(replicate nodes 0, replicate nodes 0, replicate experts 0)"
  have n: "1 \<le> nodes" using assms(1) by simp
  have "\<exists>s'. place_all ?step (heaviest_first weights experts) ?s0 = Some s' \<and>
      cap_inv nodes experts ?q (heaviest_first weights experts) s'"
  proof (rule place_all_inv [where I = "cap_inv nodes experts ?q"])
    fix ps e rest s
    assume "heaviest_first weights experts = ps @ e # rest" and "cap_inv nodes experts ?q ps s"
    then show "\<exists>s'. place_under_quota ?q weights e s = Some s' \<and> cap_inv nodes experts ?q (ps @ [e]) s'"
      using place_under_quota_inv [OF _ n length_quotas quotas_sum [OF assms(3)]] by blast
  qed (use n in \<open>simp add: cap_inv_def list_all_length\<close>)
  then obtain load used table where
    r: "place_all ?step (heaviest_first weights experts) ?s0 = Some (load, used, table)"
    and i: "cap_inv nodes experts ?q (heaviest_first weights experts) (load, used, table)"
    by (metis prod_cases3)
  from r assms have "capacity_weighted nodes experts capacity weights
      = Some \<lparr>num_nodes = nodes, n_experts = experts, tbl = Some table\<rparr>"
    by (simp add: capacity_weighted_def)
  then show ?thesis using i that by blast
qed

section \<open>Contiguous blocks\<close>

lemma div_ceil_le_iff: "0 < b \<Longrightarrow> div_ceil a b \<le> e \<longleftrightarrow> a \<le> e * b"
proof -
  assume b: "0 < b"
  have a: "a = a div b * b + a mod b" by simp
  show "div_ceil a b \<le> e \<longleftrightarrow> a \<le> e * b"
  proof (cases "a mod b = 0")
    case True
    then have "a = a div b * b" using a by simp
    then have "a \<le> e * b \<longleftrightarrow> a div b \<le> e" using b by (metis mult_le_cancel2)
    then show ?thesis using True by (simp add: div_ceil_def)
  next
    case False
    have "a div b + 1 \<le> e \<longleftrightarrow> a < e * b" using b by (simp add: less_mult_imp_div_less div_less_iff_less_mult Suc_le_eq)
    moreover have "a \<noteq> e * b" using False by auto
    ultimately show ?thesis using False by (auto simp: div_ceil_def)
  qed
qed

lemma div_eq_iff_bounds:
  "0 < b \<Longrightarrow> (a :: nat) div b = k \<longleftrightarrow> k * b \<le> a \<and> a < (k + 1) * b"
proof -
  assume b: "0 < b"
  have "a div b < k + 1 \<longleftrightarrow> a < (k + 1) * b" using b by (simp only: div_less_iff_less_mult)
  moreover have "k \<le> a div b \<longleftrightarrow> k * b \<le> a" using b by (simp only: less_eq_div_iff_mult_less_eq)
  ultimately show ?thesis by linarith
qed

lemma owner_contiguous:
  assumes "wf_sharding sh" and "tbl sh = None" and "e < n_experts sh"
  shows "owner sh e = Some (NodeId k) \<longleftrightarrow>
     fst (range_for sh (NodeId k)) \<le> e \<and> e < snd (range_for sh (NodeId k))"
proof -
  let ?E = "n_experts sh" and ?N = "num_nodes sh"
  have pos: "0 < ?E" "0 < ?N" using assms(1) by (auto simp: wf_sharding_def)
  have "owner sh e = Some (NodeId k) \<longleftrightarrow> e * ?N div ?E = k"
    using assms(2) pos by (simp add: owner_def)
  also have "\<dots> \<longleftrightarrow> k * ?E \<le> e * ?N \<and> e * ?N < (k + 1) * ?E"
    by (rule div_eq_iff_bounds) (rule pos)
  also have "\<dots> \<longleftrightarrow> div_ceil (k * ?E) ?N \<le> e \<and> \<not> div_ceil ((k + 1) * ?E) ?N \<le> e"
    by (simp only: div_ceil_le_iff [OF pos(2)] not_le)
  finally show ?thesis by (simp add: range_for_def not_le Let_def)
qed

lemma div_ceil_alt: "0 < b \<Longrightarrow> div_ceil a b = (a + (b - 1)) div b"
proof -
  assume b: "0 < b"
  have "div_ceil a b \<le> e \<longleftrightarrow> (a + (b - 1)) div b \<le> e" for e
  proof -
    have "(a + (b - 1)) div b \<le> e \<longleftrightarrow> a + (b - 1) < (e + 1) * b"
      using b div_less_iff_less_mult [of b "a + (b - 1)" "e + 1"] by (simp add: less_Suc_eq_le)
    also have "\<dots> \<longleftrightarrow> a \<le> e * b" using b by (auto simp: algebra_simps)
    finally show ?thesis using div_ceil_le_iff [OF b] by simp
  qed
  then show ?thesis by (metis order_antisym order_refl)
qed

lemma div_add_bounds:
  fixes x b n :: nat
  shows "x div n + b div n \<le> (x + b) div n" and "(x + b) div n \<le> x div n + b div n + 1"
proof -
  have eq: "(x + b) div n = x div n + b div n + (x mod n + b mod n) div n" by (rule div_add1_eq)
  then show "x div n + b div n \<le> (x + b) div n" by simp
  have "(x mod n + b mod n) div n \<le> 1"
  proof (cases "n = 0")
    case False
    then have "x mod n + b mod n < 2 * n" by (simp add: add_less_mono mult_2)
    then have "(x mod n + b mod n) div n < 2" using False by (simp add: div_less_iff_less_mult)
    then show ?thesis by simp
  qed simp
  with eq show "(x + b) div n \<le> x div n + b div n + 1" by simp
qed

lemma range_for_size:
  assumes "wf_sharding sh" and "range_for sh (NodeId k) = (lo, hi)"
  shows "lo + n_experts sh div num_nodes sh \<le> hi"
    and "hi \<le> lo + n_experts sh div num_nodes sh + 1"
proof -
  let ?E = "n_experts sh" and ?N = "num_nodes sh"
  have N: "0 < ?N" using assms(1) by (simp add: wf_sharding_def)
  have "lo = (k * ?E + (?N - 1)) div ?N" and "hi = ((k * ?E + (?N - 1)) + ?E) div ?N"
    using assms(2) by (auto simp: range_for_def div_ceil_alt [OF N] Let_def algebra_simps)
  then show "lo + ?E div ?N \<le> hi" and "hi \<le> lo + ?E div ?N + 1"
    using div_add_bounds [where x = "k * ?E + (?N - 1)" and n = ?N and b = ?E] by simp_all
qed

lemma count_for_contiguous:
  assumes "wf_sharding sh" and "tbl sh = None" and "k < num_nodes sh"
    and "range_for sh (NodeId k) = (lo, hi)"
  shows "count_for sh (NodeId k) = Some (hi - lo)"
proof -
  let ?E = "n_experts sh" and ?N = "num_nodes sh"
  have N: "0 < ?N" using assms(1) by (simp add: wf_sharding_def)
  have "(k + 1) * ?E \<le> ?N * ?E" using assms(3) by (intro mult_le_mono1) simp
  then have "(k + 1) * ?E \<le> ?E * ?N" by (simp only: mult.commute)
  then have hi: "hi \<le> ?E" using assms(4) div_ceil_le_iff [OF N] by (auto simp: range_for_def Let_def)
  have "filter (\<lambda>e. owner sh e = Some (NodeId k)) [0..<?E] = filter (\<lambda>e. lo \<le> e \<and> e < hi) [0..<?E]"
    by (rule filter_cong) (use owner_contiguous [OF assms(1,2)] assms(4) in auto)
  moreover have "length (filter (\<lambda>e. lo \<le> e \<and> e < hi) [0..<?E]) = card {e. lo \<le> e \<and> e < hi}"
    by (subst distinct_card [symmetric])
      (use hi in \<open>auto intro!: arg_cong [where f = card]\<close>)
  moreover have "{e. lo \<le> e \<and> e < hi} = {lo..<hi}" by auto
  ultimately show ?thesis by (simp add: count_for_def local_experts_wf [OF assms(1)])
qed

section \<open>The fingerprint\<close>

lemma fnv_prime_invertible: "(x :: u64) * 0x100000001b3 * 14886173955864302971 = x"
proof -
  have "(0x100000001b3 :: u64) * 14886173955864302971 = 1" by simp
  then show ?thesis by (simp only: mult.assoc mult_1_right)
qed

lemma fnv_prime_cancel: "(x :: u64) * 0x100000001b3 = y * 0x100000001b3 \<longleftrightarrow> x = y"
proof
  assume "x * 0x100000001b3 = y * 0x100000001b3"
  then have "x * 0x100000001b3 * 14886173955864302971 = y * 0x100000001b3 * 14886173955864302971"
    by (simp only:)
  then show "x = y" by (simp only: fnv_prime_invertible)
qed simp

lemma fnv_step_inj: "fnv_step h b = fnv_step h' b' \<longleftrightarrow> h XOR b = h' XOR b'"
  unfolding fnv_step_def by (rule fnv_prime_cancel)

lemma xor_cancel: "(h :: u64) XOR b = h' XOR b \<longleftrightarrow> h = h'"
proof
  assume "h XOR b = h' XOR b"
  then have "(h XOR b) XOR b = (h' XOR b) XOR b" by (simp only:)
  then show "h = h'" by (simp add: xor.assoc)
qed simp

lemma foldl_fnv_step_inj: "foldl fnv_step h bs = foldl fnv_step h' bs \<longleftrightarrow> h = h'"
  by (induction bs arbitrary: h h') (simp_all add: fnv_step_inj xor_cancel)

lemma foldl_fnv_mix_inj: "foldl fnv_mix h xs = foldl fnv_mix h' xs \<longleftrightarrow> h = h'"
  by (induction xs arbitrary: h h') (simp_all add: fnv_mix_def foldl_fnv_step_inj)

lemma fnv_mix_distinguishes:
  assumes "x < 256" and "y < 256"
  shows "fnv_mix h x = fnv_mix h y \<longleftrightarrow> x = y"
proof
  assume eq: "fnv_mix h x = fnv_mix h y"
  have "le_bytes4 x = [of_nat x, 0, 0, 0]" "le_bytes4 y = [of_nat y, 0, 0, 0]"
    using assms by (simp_all add: le_bytes4_def)
  with eq have "h XOR of_nat x = h XOR of_nat y"
    by (simp add: fnv_mix_def fnv_step_inj xor_cancel)
  then have "(of_nat x :: u64) = of_nat y" by (metis xor.assoc xor.left_neutral xor_self_eq)
  then have "unat (of_nat x :: u64) = unat (of_nat y :: u64)" by simp
  then show "x = y" using assms by (simp add: unat_of_nat)
qed simp

section \<open>Traffic per node\<close>

definition served :: "expert_sharding \<Rightarrow> u64 list \<Rightarrow> nat list \<Rightarrow> nat \<Rightarrow> u64" where
  "served sh weights ps i =
     (\<Sum>e \<in> {e \<in> set ps. owner sh e = Some (NodeId i)}. weight_of weights e)"

lemma served_step:
  assumes "e \<notin> set ps" and "owner sh e = Some (NodeId k)"
  shows "served sh weights (ps @ [e]) i
     = served sh weights ps i + (if i = k then weight_of weights e else 0)"
proof -
  have eq: "{d \<in> set (ps @ [e]). owner sh d = Some (NodeId i)}
      = {d \<in> set ps. owner sh d = Some (NodeId i)} \<union> (if i = k then {e} else {})"
    using assms(2) by auto
  show ?thesis unfolding served_def eq using assms(1) by (simp add: add.commute)
qed

lemma node_weights_served:
  assumes wf: "wf_sharding sh"
  shows "node_weights sh weights
     = Some (map (served sh weights [0..<n_experts sh]) [0..<num_nodes sh])"
proof -
  let ?I = "\<lambda>ps out. length out = num_nodes sh \<and> (\<forall>i < num_nodes sh. out ! i = served sh weights ps i)"
  let ?step = "\<lambda>out e. do {
         o' \<leftarrow> owner sh e;
         w \<leftarrow> idx out (node_num o');
         upd out (node_num o') (w + weight_of weights e) }"
  have "\<exists>out. place_all ?step [0..<n_experts sh] (replicate (num_nodes sh) 0) = Some out \<and>
      ?I [0..<n_experts sh] out"
  proof (rule place_all_inv [where I = ?I])
    fix ps e rest out
    assume o: "[0..<n_experts sh] = ps @ e # rest" and inv: "?I ps out"
    have "distinct (ps @ e # rest)" unfolding o [symmetric] by simp
    then have e: "e \<notin> set ps" by simp
    have "e \<in> set [0..<n_experts sh]" unfolding o by simp
    then have "e < n_experts sh" by simp
    from shards.own_total [OF wf this] obtain k where
      k: "k < num_nodes sh" "owner sh e = Some (NodeId k)" by blast
    let ?out = "out[k := out ! k + weight_of weights e]"
    have "?step out e = Some ?out" using k inv by (simp add: upd_def)
    moreover have "?I (ps @ [e]) ?out"
      using inv k served_step [OF e k(2)] by (simp add: nth_list_update)
    ultimately show "\<exists>s'. ?step out e = Some s' \<and> ?I (ps @ [e]) s'" by blast
  qed (simp add: served_def)
  then obtain out where out: "place_all ?step [0..<n_experts sh] (replicate (num_nodes sh) 0) = Some out"
    "length out = num_nodes sh" "\<forall>i < num_nodes sh. out ! i = served sh weights [0..<n_experts sh] i"
    by blast
  then have "out = map (served sh weights [0..<n_experts sh]) [0..<num_nodes sh]"
    by (intro nth_equalityI) simp_all
  with out show ?thesis by (simp add: node_weights_def)
qed

lemma served_table:
  assumes "table_inv nodes experts weights (heaviest_first weights experts) (load, table)"
    and "i < nodes"
  shows "served \<lparr>num_nodes = nodes, n_experts = experts, tbl = Some table\<rparr> weights [0..<experts] i
     = load ! i"
proof -
  let ?sh = "\<lparr>num_nodes = nodes, n_experts = experts, tbl = Some table\<rparr>"
  have "length table = experts" using assms(1) by (simp add: table_inv_def)
  then have "{e \<in> set [0..<experts]. owner ?sh e = Some (NodeId i)}
      = {e \<in> set (heaviest_first weights experts). table ! e = i}"
    by (auto simp: owner_def idx_def)
  then show ?thesis using assms by (simp add: served_def table_inv_def node_load_def)
qed

section \<open>Properties\<close>

text \<open>
  For every well-formed map, contiguous or table based, every expert has exactly one owner
  in range and the per-node counts add up to the number of experts.
\<close>

lemma experts_partitioned:
  assumes "wf_sharding sh"
  shows "(\<forall>e < n_experts sh. \<exists>!k. k < num_nodes sh \<and> owner sh e = Some (NodeId k)) \<and>
    (\<Sum>k < num_nodes sh. the (count_for sh (NodeId k))) = n_experts sh"
  using shards.unique_owner [OF assms] shards.owned_counts_sum [OF assms]
  by (simp add: count_for_def local_experts_wf [OF assms])

text \<open>
  The closed form of \<open>range_for\<close> inverts the contiguous map: the experts of a node are
  exactly its half-open range, and any two nodes' counts differ by at most one.
\<close>

lemma contiguous_blocks:
  assumes "sharding_new nodes experts = Some sh" and "j < nodes" and "k < nodes"
  shows "(\<forall>e < experts. owner sh e = Some (NodeId k) \<longleftrightarrow>
      fst (range_for sh (NodeId k)) \<le> e \<and> e < snd (range_for sh (NodeId k))) \<and>
    the (count_for sh (NodeId k)) \<le> the (count_for sh (NodeId j)) + 1"
proof -
  from assms(1) have sh: "wf_sharding sh" "tbl sh = None" "num_nodes sh = nodes" "n_experts sh = experts"
    by (auto simp: sharding_new_def wf_sharding_def split: if_splits)
  obtain lo hi lo' hi' where r: "range_for sh (NodeId k) = (lo, hi)" "range_for sh (NodeId j) = (lo', hi')"
    by fastforce
  have "count_for sh (NodeId k) = Some (hi - lo)" "count_for sh (NodeId j) = Some (hi' - lo')"
    using count_for_contiguous sh assms r by simp_all
  then have "the (count_for sh (NodeId k)) \<le> the (count_for sh (NodeId j)) + 1"
    using range_for_size [OF sh(1) r(1)] range_for_size [OF sh(1) r(2)] by simp
  then show ?thesis using owner_contiguous [OF sh(1,2)] sh(4) by blast
qed

text \<open>
  C10: the hot-aware greedy spreads traffic.  Without 64-bit overflow of the total, the summed
  weight any two nodes serve differs by at most the weight of the heaviest expert.
\<close>

theorem balanced_spread:
  assumes "2 \<le> nodes" and "1 \<le> experts"
    and total: "(\<Sum>e < experts. unat (weight_of weights e)) < 2 ^ 64"
    and w: "\<forall>e < experts. unat (weight_of weights e) \<le> w"
  shows "\<exists>sh out. balanced nodes experts weights = Some sh \<and> node_weights sh weights = Some out \<and>
     length out = nodes \<and> (\<forall>i < nodes. \<forall>j < nodes. unat (out ! i) \<le> unat (out ! j) + w)"
proof -
  let ?step = "\<lambda>s e. place_lightest weights e s"
  have n: "1 \<le> nodes" using assms(1) by simp
  have "\<exists>s'. place_all ?step (heaviest_first weights experts)
        (replicate nodes 0, replicate experts 0) = Some s' \<and>
      lpt_inv nodes experts weights w (heaviest_first weights experts) s'"
  proof (rule place_all_inv [where I = "lpt_inv nodes experts weights w"])
    show "lpt_inv nodes experts weights w [] (replicate nodes 0, replicate experts 0)"
      using table_inv_init [OF n] by (simp add: lpt_inv_def)
  qed (rule place_lightest_lpt [OF _ n total w])
  then obtain load table where r: "place_all ?step (heaviest_first weights experts)
        (replicate nodes 0, replicate experts 0) = Some (load, table)"
    and i: "lpt_inv nodes experts weights w (heaviest_first weights experts) (load, table)"
    by auto
  let ?sh = "\<lparr>num_nodes = nodes, n_experts = experts, tbl = Some table\<rparr>"
  have b: "balanced nodes experts weights = Some ?sh"
    using r assms(1,2) by (simp add: balanced_def)
  then have wf: "wf_sharding ?sh" using balanced_wf [OF n assms(2), of weights] by simp
  have ti: "table_inv nodes experts weights (heaviest_first weights experts) (load, table)"
    using i by (simp add: lpt_inv_def)
  have "map (served ?sh weights [0..<experts]) [0..<nodes] = load"
    using served_table [OF ti] ti by (intro nth_equalityI) (simp_all add: table_inv_def)
  then have "node_weights ?sh weights = Some load"
    using node_weights_served [OF wf] by simp
  then show ?thesis using b i ti by (auto simp: lpt_inv_def table_inv_def)
qed

theorem balanced_spread_witness:
  "\<exists>sh out. balanced 2 3 [5, 1, 1] = Some sh \<and> node_weights sh [5, 1, 1] = Some out \<and>
     length out = 2 \<and> (\<forall>i < 2. \<forall>j < 2. unat (out ! i) \<le> unat (out ! j) + 5)"
  using balanced_spread [of 2 3 "[5, 1, 1]" 5]
  by (auto simp: weight_of_def get_or_def numeral_3_eq_3 lessThan_Suc less_Suc_eq)

text \<open>A node without capacity has remainder zero and is never among the nodes rounded up.\<close>

lemma zero_capacity_quota:
  assumes T: "0 < cap_total nodes capacity" and n: "n < nodes" "cap_of capacity n = 0"
  shows "quotas nodes experts capacity ! n = 0"
proof -
  let ?T = "cap_total nodes capacity"
  let ?f = "quota_floor nodes experts capacity" and ?r = "quota_rem nodes experts capacity"
  let ?fl = "sum_list (map ?f [0..<nodes])"
  let ?L = "experts - ?fl"
  let ?ns = "take ?L (by_rem nodes experts capacity)"
  have rn: "?r n = 0" and fn: "?f n = 0" using n by (simp_all add: quota_rem_def quota_floor_def)
  have sub: "set ?ns \<subseteq> {0..<nodes}"
    using set_take_subset [of ?L "by_rem nodes experts capacity"] by simp
  have dist: "distinct ?ns" by simp
  have "n \<notin> set ?ns"
  proof
    assume mem: "n \<in> set ?ns"
    have srt: "sorted (map (\<lambda>n. (- int (?r n), n)) (by_rem nodes experts capacity))"
      by (simp add: by_rem_def)
    have rest: "?r m = 0" if "m \<in> set (drop ?L (by_rem nodes experts capacity))" for m
    proof -
      have "(- int (?r n), n) \<le> (- int (?r m), m)"
        by (rule sorted_take_drop_le [OF srt mem that])
      then show ?thesis using rn by (auto simp: less_eq_prod_def)
    qed
    have all: "{..<nodes} = set ?ns \<union> set (drop ?L (by_rem nodes experts capacity))"
      by (metis append_take_drop_id set_append by_rem_props(1) atLeast0LessThan)
    have "(\<Sum>m < nodes. ?r m) = (\<Sum>m \<in> set ?ns. ?r m)"
      by (rule sum.mono_neutral_right) (use all rest in auto)
    also have "\<dots> = (\<Sum>m \<in> set ?ns - {n}. ?r m)" using rn by (simp add: sum.remove [OF _ mem])
    also have "\<dots> \<le> (\<Sum>m \<in> set ?ns - {n}. ?T)"
      by (rule sum_mono) (use T in \<open>simp add: quota_rem_def less_imp_le\<close>)
    also have "\<dots> = (length ?ns - 1) * ?T"
      using mem distinct_card [OF dist] by simp
    finally have le: "(\<Sum>m < nodes. ?r m) \<le> (length ?ns - 1) * ?T" .
    have "?T * experts = (\<Sum>m < nodes. cap_of capacity m * experts)"
      by (simp add: cap_total_def sum_list_distinct_conv_sum_set atLeast0LessThan sum_distrib_right)
    also have "\<dots> = (\<Sum>m < nodes. ?f m * ?T + ?r m)"
      by (simp only: quota_floor_def quota_rem_def div_mult_mod_eq)
    also have "\<dots> = ?fl * ?T + (\<Sum>m < nodes. ?r m)"
      by (simp add: sum.distrib sum_list_distinct_conv_sum_set atLeast0LessThan sum_distrib_right)
    finally have "?T * experts = ?fl * ?T + (\<Sum>m < nodes. ?r m)" .
    then have "?L * ?T = (\<Sum>m < nodes. ?r m)"
      by (simp only: diff_mult_distrib mult.commute [of experts])
    with le have "?L * ?T \<le> (length ?ns - 1) * ?T" by simp
    then have "?L \<le> length ?ns - 1" using T by simp
    moreover have "length ?ns \<le> ?L" by simp
    moreover have "0 < length ?ns" using mem by (rule length_pos_if_in_set)
    ultimately show False by linarith
  qed
  moreover from sub have "\<forall>m \<in> set ?ns. m < length (map ?f [0..<nodes])" by auto
  ultimately show ?thesis
    using bump_all_nth [OF dist, of "map ?f [0..<nodes]" n] n fn by (simp add: quotas_alt)
qed

text \<open>
  C9: capacity-weighted sharding never panics; each node owns its exact proportional share
  rounded down or up, a node without capacity owns nothing, and no expert is dropped.
\<close>

theorem capacity_weighted_quota:
  assumes "2 \<le> nodes" and "1 \<le> experts" and T: "0 < cap_total nodes capacity"
  shows "\<exists>sh. capacity_weighted nodes experts capacity weights = Some sh \<and> wf_sharding sh \<and>
    (\<forall>k < nodes. \<exists>c. count_for sh (NodeId k) = Some c \<and>
       cap_of capacity k * experts div cap_total nodes capacity \<le> c \<and>
       c \<le> cap_of capacity k * experts div cap_total nodes capacity + 1 \<and>
       (cap_of capacity k = 0 \<longrightarrow> c = 0)) \<and>
    (\<Sum>k < nodes. the (count_for sh (NodeId k))) = experts"
proof -
  let ?q = "quotas nodes experts capacity"
  from capacity_run [OF assms] obtain load used table where
    sh: "capacity_weighted nodes experts capacity weights
      = Some \<lparr>num_nodes = nodes, n_experts = experts, tbl = Some table\<rparr>"
    and inv: "cap_inv nodes experts ?q (heaviest_first weights experts) (load, used, table)"
    by blast
  let ?sh = "\<lparr>num_nodes = nodes, n_experts = experts, tbl = Some table\<rparr>"
  have wf: "wf_sharding ?sh" using inv assms by (auto simp: cap_inv_def wf_sharding_def)
  have lens: "length used = nodes" "length table = experts" and sum: "sum_list used = experts"
    and le: "\<forall>i < nodes. used ! i \<le> ?q ! i"
    and card: "\<forall>i < nodes. used ! i = card {e \<in> {0..<experts}. table ! e = i}"
    using inv by (auto simp: cap_inv_def)
  have eq: "used ! k = ?q ! k" if k: "k < nodes" for k
  proof (rule ccontr)
    assume "used ! k \<noteq> ?q ! k"
    then have "used ! k < ?q ! k" using le k by (simp add: le_neq_implies_less)
    then have "(\<Sum>i < nodes. used ! i) < (\<Sum>i < nodes. ?q ! i)"
      using le k by (intro sum_strict_mono_ex1) auto
    then have "sum_list used < sum_list ?q" using lens by (simp add: sum_list_sum_nth atLeast0LessThan)
    then show False using sum quotas_sum [OF T] by simp
  qed
  have cnt: "count_for ?sh (NodeId k) = Some (?q ! k)" if k: "k < nodes" for k
  proof -
    have "filter (\<lambda>e. owner ?sh e = Some (NodeId k)) [0..<experts]
        = filter (\<lambda>e. table ! e = k) [0..<experts]"
      by (rule filter_cong) (use lens in \<open>auto simp: owner_def idx_def\<close>)
    moreover have "length (filter (\<lambda>e. table ! e = k) [0..<experts])
        = card {e \<in> {0..<experts}. table ! e = k}"
      by (subst distinct_card [symmetric]) (auto intro!: arg_cong [where f = card])
    ultimately show ?thesis using eq [OF k] card k
      by (simp add: count_for_def local_experts_wf [OF wf])
  qed
  moreover have "(\<Sum>k < nodes. ?q ! k) = experts"
    using quotas_sum [OF T, of experts] by (simp add: sum_list_sum_nth atLeast0LessThan)
  ultimately show ?thesis
    using sh wf quotas_near_share [OF T] zero_capacity_quota [OF T]
    by (auto simp: quota_floor_def intro!: exI [of _ ?sh])
qed

theorem capacity_weighted_quota_witness:
  "\<exists>sh. capacity_weighted 2 10 [300, 100] [] = Some sh \<and> wf_sharding sh \<and>
     (\<Sum>k < 2. the (count_for sh (NodeId k))) = 10"
proof -
  have "0 < cap_total 2 [300, 100]" by (simp add: cap_total_def cap_of_def get_or_def upt_rec)
  from capacity_weighted_quota [OF _ _ this, of 10 "[]"] show ?thesis by auto
qed

text \<open>
  The handshake fingerprint separates neighbouring maps.  In a cluster of at most 256
  nodes, two maps of the same size that disagree on the owner of exactly one expert have
  different fingerprints.
\<close>

lemma fingerprint_detects_single_move:
  assumes wf: "wf_sharding a" "wf_sharding b"
    and same: "num_nodes a = num_nodes b" "n_experts a = n_experts b"
    and small: "num_nodes a \<le> 256"
    and diff: "x < n_experts a" "owner a x \<noteq> owner b x"
      "\<forall>e < n_experts a. e \<noteq> x \<longrightarrow> owner a e = owner b e"
  shows "fingerprint a \<noteq> fingerprint b"
proof -
  let ?n = "n_experts a"
  let ?o = "\<lambda>sh e. node_num (the (owner sh e))"
  let ?h = "foldl fnv_mix 0xcbf29ce484222325 [num_nodes a, ?n]"
  have split: "[0..<?n] = [0..<x] @ x # [Suc x..<?n]"
    by (rule upt_split_at [OF diff(1)])
  have fp: "fingerprint sh = Some (foldl fnv_mix (fnv_mix (foldl fnv_mix ?h (map (?o sh) [0..<x])) (?o sh x))
      (map (?o sh) [Suc x..<?n]))"
    if "wf_sharding sh" "num_nodes sh = num_nodes a" "n_experts sh = ?n" for sh
    using that by (simp add: fingerprint_def owners_Some comp_def split)
  have pre: "map (?o a) [0..<x] = map (?o b) [0..<x]"
    and suf: "map (?o a) [Suc x..<?n] = map (?o b) [Suc x..<?n]"
    using diff by auto
  obtain k l where k: "k < num_nodes a" "owner a x = Some (NodeId k)"
    and l: "l < num_nodes a" "owner b x = Some (NodeId l)"
    using shards.own_total [OF wf(1), of x] shards.own_total [OF wf(2), of x] diff(1) same by auto
  then have "k \<noteq> l" using diff(2) by auto
  then have "fnv_mix g (?o a x) \<noteq> fnv_mix g (?o b x)" for g
    using k l small by (simp add: fnv_mix_distinguishes)
  then show ?thesis
    by (simp only: fp [OF wf(1)] fp [OF wf(2)] same pre suf [unfolded same] option.inject foldl_fnv_mix_inj) simp
qed

end
