(* ===== verification/Text.thy ===== *)
theory Text
  imports Prelude
begin

text \<open>
  The string functions of the Rust standard library that the modelled code calls: whitespace,
  splitting, decimal and hexadecimal numbers.  A \<open>str\<close> is its list of Unicode scalar values.
\<close>

type_synonym str = "nat list"

section \<open>Definitions\<close>

definition str_of :: "string \<Rightarrow> str" where
  "str_of s = map of_char s"

text \<open>\<open>char::is_whitespace\<close>: the Unicode \<open>White_Space\<close> property.\<close>

definition is_ws :: "nat \<Rightarrow> bool" where
  "is_ws c \<longleftrightarrow> 9 \<le> c \<and> c \<le> 13 \<or> c = 32 \<or> c = 0x85 \<or> c = 0xA0 \<or> c = 0x1680 \<or>
     0x2000 \<le> c \<and> c \<le> 0x200A \<or> c = 0x2028 \<or> c = 0x2029 \<or> c = 0x202F \<or> c = 0x205F \<or> c = 0x3000"

definition trim_end :: "str \<Rightarrow> str" where
  "trim_end s = rev (dropWhile is_ws (rev s))"

definition trim :: "str \<Rightarrow> str" where
  "trim s = rev (dropWhile is_ws (rev (dropWhile is_ws s)))"

definition ascii_lower :: "str \<Rightarrow> str" where
  "ascii_lower = map (\<lambda>c. if 65 \<le> c \<and> c \<le> 90 then c + 32 else c)"

function split_ws :: "str \<Rightarrow> str list" where
  "split_ws s = (let t = dropWhile is_ws s in
     if t = [] then [] else takeWhile (\<lambda>c. \<not> is_ws c) t # split_ws (dropWhile (\<lambda>c. \<not> is_ws c) t))"
  by pat_completeness auto
termination
proof (relation "measure length")
  fix s t :: str
  assume t: "t = dropWhile is_ws s" "t \<noteq> []"
  from t(2) obtain c cs where cs: "t = c # cs" by (meson neq_Nil_conv)
  then have "\<not> is_ws c" using t(1) by (metis hd_dropWhile list.distinct(1) list.sel(1))
  then have "length (dropWhile (\<lambda>c. \<not> is_ws c) t) < length t"
    using cs length_dropWhile_le [of "\<lambda>c. \<not> is_ws c" cs] by simp
  moreover have "length t \<le> length s" using t(1) length_dropWhile_le by blast
  ultimately show "(dropWhile (\<lambda>c. \<not> is_ws c) t, s) \<in> measure length" by simp
qed simp

declare split_ws.simps [simp del]

fun split_on :: "nat \<Rightarrow> str \<Rightarrow> str list" where
  "split_on d [] = [[]]"
| "split_on d (c # cs) = (if c = d then [] # split_on d cs
     else (case split_on d cs of [] \<Rightarrow> [[c]] | w # ws \<Rightarrow> (c # w) # ws))"

text \<open>\<open>splitn(n, d)\<close>: at most \<open>n\<close> pieces, the last one keeps its delimiters.\<close>

fun splitn :: "nat \<Rightarrow> nat \<Rightarrow> str \<Rightarrow> str list" where
  "splitn 0 d s = []"
| "splitn (Suc 0) d s = [s]"
| "splitn (Suc (Suc n)) d s = (if d \<in> set s
     then takeWhile (\<lambda>c. c \<noteq> d) s # splitn (Suc n) d (tl (dropWhile (\<lambda>c. c \<noteq> d) s)) else [s])"

definition split_once :: "nat \<Rightarrow> str \<Rightarrow> (str \<times> str) option" where
  "split_once d s = (if d \<in> set s
     then Some (takeWhile (\<lambda>c. c \<noteq> d) s, tl (dropWhile (\<lambda>c. c \<noteq> d) s)) else None)"

text \<open>\<open>BufRead::lines\<close> and \<open>str::lines\<close>: the terminator \<open>\n\<close> or \<open>\r\n\<close> is removed.\<close>

definition strip_cr :: "str \<Rightarrow> str" where
  "strip_cr l = (if l \<noteq> [] \<and> last l = 13 then butlast l else l)"

fun text_lines :: "str \<Rightarrow> str \<Rightarrow> str list" where
  "text_lines cur [] = (if cur = [] then [] else [rev cur])"
| "text_lines cur (c # cs) =
     (if c = 10 then strip_cr (rev cur) # text_lines [] cs else text_lines (c # cur) cs)"

definition lines_of :: "str \<Rightarrow> str list" where
  "lines_of s = text_lines [] s"

text \<open>\<open>char::to_digit\<close> for a radix up to 16.\<close>

definition digit_of :: "nat \<Rightarrow> nat \<Rightarrow> nat option" where
  "digit_of radix c =
     (let d = (if 48 \<le> c \<and> c \<le> 57 then Some (c - 48)
               else if 97 \<le> c \<and> c \<le> 102 then Some (c - 87)
               else if 65 \<le> c \<and> c \<le> 70 then Some (c - 55) else None)
      in case d of Some v \<Rightarrow> if v < radix then Some v else None | None \<Rightarrow> None)"

fun digits_val :: "nat \<Rightarrow> nat \<Rightarrow> nat \<Rightarrow> str \<Rightarrow> nat option" where
  "digits_val bound radix acc [] = Some acc"
| "digits_val bound radix acc (c # cs) = (case digit_of radix c of
     None \<Rightarrow> None
   | Some d \<Rightarrow> if acc * radix + d < bound then digits_val bound radix (acc * radix + d) cs else None)"

text \<open>\<open>parse::<uN>()\<close> and \<open>from_str_radix\<close>, with \<open>bound = 2^N\<close>: one leading \<open>+\<close> is allowed.\<close>

definition parse_uint :: "nat \<Rightarrow> nat \<Rightarrow> str \<Rightarrow> nat option" where
  "parse_uint bound radix s =
     (let ds = (case s of c # cs \<Rightarrow> if c = 43 then cs else s | [] \<Rightarrow> [])
      in if ds = [] then None else digits_val bound radix 0 ds)"

fun show_dec :: "nat \<Rightarrow> str" where
  "show_dec n = (if n < 10 then [48 + n] else show_dec (n div 10) @ [48 + n mod 10])"

declare show_dec.simps [simp del]

definition hex_digit :: "nat \<Rightarrow> nat" where
  "hex_digit d = (if d < 10 then 48 + d else 87 + d)"

text \<open>\<open>{:016x}\<close> of a 64-bit value.\<close>

definition show_hex16 :: "u64 \<Rightarrow> str" where
  "show_hex16 x = map (\<lambda>k. hex_digit (unat x div 16 ^ k mod 16)) (rev [0..<16])"

section \<open>Numbers round trip\<close>

lemma digit_of_dec [simp]: "d < 10 \<Longrightarrow> digit_of 10 (48 + d) = Some d"
  by (simp add: digit_of_def)

lemma digit_of_hex [simp]: "d < 16 \<Longrightarrow> digit_of 16 (hex_digit d) = Some d"
  by (auto simp: digit_of_def hex_digit_def)

lemma digits_val_append:
  "digits_val bound radix acc (xs @ ys) = do {
     v \<leftarrow> digits_val bound radix acc xs; digits_val bound radix v ys }"
  by (induction xs arbitrary: acc) (auto split: option.splits)

lemma digits_val_show_dec:
  "n < bound \<Longrightarrow> digits_val bound 10 0 (show_dec n) = Some n"
proof (induction n rule: show_dec.induct)
  case (1 n)
  show ?case
  proof (cases "n < 10")
    case True
    with 1 show ?thesis by (subst show_dec.simps) simp
  next
    case False
    with 1 have "digits_val bound 10 0 (show_dec (n div 10)) = Some (n div 10)" by simp
    moreover have "n div 10 * 10 + n mod 10 = n" by simp
    ultimately show ?thesis using False 1
      by (subst show_dec.simps) (simp add: digits_val_append)
  qed
qed

lemma show_dec_digits: "c \<in> set (show_dec n) \<Longrightarrow> 48 \<le> c \<and> c \<le> 57"
proof (induction n rule: show_dec.induct)
  case (1 n)
  then show ?case
    by (cases "n < 10") (auto simp: show_dec.simps [of n])
qed

lemma show_dec_nonempty [simp]: "show_dec n \<noteq> []"
  by (subst show_dec.simps) simp

lemma parse_show_dec:
  assumes "n < bound"
  shows "parse_uint bound 10 (show_dec n) = Some n"
proof -
  obtain c cs where cs: "show_dec n = c # cs" by (cases "show_dec n") auto
  have "c \<noteq> 43" using show_dec_digits [of c n] cs by auto
  then show ?thesis using digits_val_show_dec [OF assms] cs by (simp add: parse_uint_def)
qed

lemma digits_val_fits:
  assumes "digits_val bound radix acc cs = Some v"
  shows "acc < bound \<longrightarrow> v < bound"
  using assms by (induction cs arbitrary: acc) (auto split: option.splits if_splits)

lemma parse_uint_bound: "parse_uint bound radix s = Some v \<Longrightarrow> v < bound \<or> bound = 0"
  using digits_val_fits [of bound radix 0]
  by (fastforce simp: parse_uint_def Let_def split: if_splits)

lemma digits_val_hex_list:
  assumes "k \<le> 16" and "unat (x :: u64) < bound"
  shows "digits_val bound 16 (unat x div 16 ^ k) (map (\<lambda>k. hex_digit (unat x div 16 ^ k mod 16)) (rev [0..<k]))
     = Some (unat x)"
  using assms(1)
proof (induction k)
  case (Suc k)
  have step: "unat x div 16 ^ Suc k * 16 + unat x div 16 ^ k mod 16 = unat x div 16 ^ k"
    by (metis div_mult_mod_eq div_mult2_eq power_Suc2)
  have "unat x div 16 ^ k \<le> unat x" by (rule div_le_dividend)
  then have "unat x div 16 ^ k < bound" using assms(2) by linarith
  then show ?case using Suc step by simp
qed simp

lemma parse_show_hex16: "parse_uint (2 ^ 64) 16 (show_hex16 x) = Some (unat x)"
proof -
  have x: "unat x < 2 ^ 64" using unat_lt_pow [of x] by simp
  then have "unat x div 16 ^ 16 = 0" by simp
  then have "digits_val (2 ^ 64) 16 0 (show_hex16 x) = Some (unat x)"
    using digits_val_hex_list [of 16 x "2 ^ 64"] x by (simp add: show_hex16_def)
  moreover have "show_hex16 x \<noteq> []" "hd (show_hex16 x) \<noteq> 43"
    by (simp_all add: show_hex16_def hex_digit_def upt_rec)
  ultimately show ?thesis by (cases "show_hex16 x") (simp_all add: parse_uint_def)
qed

section \<open>Splitting\<close>

lemma split_ws_Nil [simp]: "split_ws [] = []"
  by (subst split_ws.simps) simp

lemma split_ws_word:
  assumes "w \<noteq> []" and "\<forall>c \<in> set w. \<not> is_ws c" and "rest = [] \<or> is_ws (hd rest)"
  shows "split_ws (w @ rest) = w # split_ws rest"
proof -
  obtain c cs where w: "w = c # cs" using assms(1) by (cases w) auto
  have d: "dropWhile is_ws (w @ rest) = w @ rest" using w assms(2) by simp
  have "takeWhile (\<lambda>c. \<not> is_ws c) rest = []" "dropWhile (\<lambda>c. \<not> is_ws c) rest = rest"
    using assms(3) by (cases rest; auto)+
  then have "takeWhile (\<lambda>c. \<not> is_ws c) (w @ rest) = w" "dropWhile (\<lambda>c. \<not> is_ws c) (w @ rest) = rest"
    using assms(2) by (simp_all add: takeWhile_append2 dropWhile_append2)
  then show ?thesis using d w by (subst split_ws.simps) simp
qed

lemma split_ws_skip: "is_ws c \<Longrightarrow> split_ws (c # s) = split_ws s"
  by (subst (1 2) split_ws.simps) simp

lemma text_lines_append_newline:
  "10 \<notin> set l \<Longrightarrow> text_lines cur (l @ 10 # rest) = strip_cr (rev cur @ l) # text_lines [] rest"
  by (induction l arbitrary: cur) auto

lemma lines_of_newline:
  "10 \<notin> set l \<Longrightarrow> lines_of (l @ 10 # rest) = strip_cr l # lines_of rest"
  by (simp add: lines_of_def text_lines_append_newline)

lemma show_dec_not_ws: "c \<in> set (show_dec n) \<Longrightarrow> \<not> is_ws c"
  using show_dec_digits [of c n] by (auto simp: is_ws_def)

end
