(* ===== verification/Usage.thy ===== *)
theory Usage
  imports Text
begin

text \<open>
  The expert-usage histogram of \<open>usage.rs\<close>: a hash map from (layer, expert) to a 64-bit
  selection count and its text file.  The map is an association list with distinct keys whose
  order stands for the arbitrary iteration order of the hash map; what the program derives
  from a history is shown not to depend on that order.
\<close>

section \<open>Definitions\<close>

type_synonym usage_key = "nat \<times> nat"

record usage_history =
  counts :: "(usage_key \<times> u64) list"

definition usage_new :: usage_history where
  "usage_new = \<lparr> counts = [] \<rparr>"

text \<open>\<open>*entry(k).or_insert(0) += c\<close>\<close>

fun entry_add :: "usage_key \<Rightarrow> u64 \<Rightarrow> (usage_key \<times> u64) list \<Rightarrow> (usage_key \<times> u64) list" where
  "entry_add k c [] = [(k, c)]"
| "entry_add k c ((k', v) # kvs) = (if k' = k then (k', v + c) # kvs else (k', v) # entry_add k c kvs)"

definition usage_add :: "nat \<Rightarrow> nat \<Rightarrow> u64 \<Rightarrow> usage_history \<Rightarrow> usage_history" where
  "usage_add layer eid c h = h\<lparr> counts := entry_add (layer, eid) c (counts h) \<rparr>"

definition usage_record :: "nat \<Rightarrow> nat \<Rightarrow> usage_history \<Rightarrow> usage_history" where
  "usage_record layer eid h = h\<lparr> counts := entry_add (layer, eid) 1 (counts h) \<rparr>"

definition usage_get :: "usage_history \<Rightarrow> nat \<Rightarrow> nat \<Rightarrow> u64" where
  "usage_get h layer eid = (case map_of (counts h) (layer, eid) of Some c \<Rightarrow> c | None \<Rightarrow> 0)"

definition usage_len :: "usage_history \<Rightarrow> nat" where
  "usage_len h = length (counts h)"

definition usage_is_empty :: "usage_history \<Rightarrow> bool" where
  "usage_is_empty h = (counts h = [])"

definition usage_total :: "usage_history \<Rightarrow> u64" where
  "usage_total h = sum_list (map snd (counts h))"

definition weight_step :: "u64 list \<Rightarrow> usage_key \<times> u64 \<Rightarrow> u64 list" where
  "weight_step w = (\<lambda>((_, e), c). if e < length w then w[e := w ! e + c] else w)"

definition expert_weights :: "usage_history \<Rightarrow> nat \<Rightarrow> u64 list" where
  "expert_weights h n = foldl weight_step (replicate n 0) (counts h)"

text \<open>Count descending, then (layer, expert) ascending.\<close>

definition hotness :: "usage_key \<times> u64 \<Rightarrow> int \<times> usage_key" where
  "hotness = (\<lambda>(k, c). (- uint c, k))"

definition ranked :: "usage_history \<Rightarrow> usage_key list" where
  "ranked h = map fst (sort_key hotness (counts h))"

definition sorted_counts :: "usage_history \<Rightarrow> u64 list" where
  "sorted_counts h = sort_key (\<lambda>c. - uint c) (map snd (counts h))"

definition filter_experts :: "usage_history \<Rightarrow> (nat \<Rightarrow> bool) \<Rightarrow> usage_history" where
  "filter_experts h keep = \<lparr> counts = filter (\<lambda>((_, e), _). keep e) (counts h) \<rparr>"

definition usage_merge :: "usage_history \<Rightarrow> usage_history \<Rightarrow> usage_history" where
  "usage_merge h other = foldl (\<lambda>h ((l, e), c). usage_add l e c h) h (counts other)"

text \<open>
  The file as \<open>load\<close> meets it: absent, not to be opened, or a sequence of lines of which a
  read can fail (\<open>None\<close>: an input error or bytes that are not UTF-8).
\<close>

datatype usage_file = Missing | Open_failed | Opened "str option list"

datatype usage_error = Io_error

definition usage_line :: "str \<Rightarrow> usage_history \<Rightarrow> usage_history" where
  "usage_line line h = (case split_ws line of
     l # e # c # _ \<Rightarrow>
       (case (parse_uint (2 ^ 64) 10 l, parse_uint (2 ^ 64) 10 e, parse_uint (2 ^ 64) 10 c) of
          (Some l, Some e, Some c) \<Rightarrow> usage_add l e (of_nat c) h
        | _ \<Rightarrow> h)
   | _ \<Rightarrow> h)"

fun load_lines :: "str option list \<Rightarrow> usage_history \<Rightarrow> usage_error + usage_history" where
  "load_lines [] h = Inr h"
| "load_lines (None # ls) h = Inl Io_error"
| "load_lines (Some l # ls) h = load_lines ls (usage_line l h)"

fun usage_load :: "usage_file \<Rightarrow> usage_error + usage_history" where
  "usage_load Missing = Inr usage_new"
| "usage_load Open_failed = Inl Io_error"
| "usage_load (Opened ls) = load_lines ls usage_new"

definition usage_entry_line :: "usage_key \<Rightarrow> u64 \<Rightarrow> str" where
  "usage_entry_line = (\<lambda>(l, e) c. show_dec l @ 32 # show_dec e @ 32 # show_dec (unat c) @ [10])"

text \<open>The bytes \<open>save\<close> writes: keys sorted, zero counts left out.\<close>

definition usage_save :: "usage_history \<Rightarrow> str" where
  "usage_save h = concat (map
     (\<lambda>(l, e). let c = usage_get h l e in if 0 < c then usage_entry_line (l, e) c else [])
     (sort (map fst (counts h))))"

section \<open>Well-formed histories\<close>

definition wf_usage :: "usage_history \<Rightarrow> bool" where
  "wf_usage h \<longleftrightarrow> distinct (map fst (counts h))"

text \<open>Two histories hold the same map, whatever the iteration order of their hash maps.\<close>

definition same_usage :: "usage_history \<Rightarrow> usage_history \<Rightarrow> bool" where
  "same_usage h h' \<longleftrightarrow> mset (counts h) = mset (counts h')"

lemma map_of_entry_add:
  "map_of (entry_add k c kvs) = (map_of kvs)(k \<mapsto> (case map_of kvs k of Some v \<Rightarrow> v | None \<Rightarrow> 0) + c)"
  by (induction k c kvs rule: entry_add.induct) (auto simp: fun_eq_iff split: option.splits)

lemma fst_entry_add: "fst ` set (entry_add k c kvs) = insert k (fst ` set kvs)"
  by (induction k c kvs rule: entry_add.induct) auto

lemma distinct_entry_add:
  "distinct (map fst kvs) \<Longrightarrow> distinct (map fst (entry_add k c kvs))"
  by (induction k c kvs rule: entry_add.induct) (auto simp: fst_entry_add simp flip: image_set)

lemma sum_entry_add: "sum_list (map snd (entry_add k c kvs)) = sum_list (map snd kvs) + (c :: u64)"
  by (induction k c kvs rule: entry_add.induct) (auto simp: algebra_simps)

lemma entry_add_fresh: "k \<notin> fst ` set kvs \<Longrightarrow> entry_add k c kvs = kvs @ [(k, c)]"
  by (induction k c kvs rule: entry_add.induct) auto

lemma wf_usage_new [simp]: "wf_usage usage_new"
  by (simp add: wf_usage_def usage_new_def)

lemma wf_usage_add [simp]: "wf_usage h \<Longrightarrow> wf_usage (usage_add l e c h)"
  by (simp add: wf_usage_def usage_add_def distinct_entry_add)

lemma usage_get_add:
  "usage_get (usage_add l e c h) l' e' = usage_get h l' e' + (if (l', e') = (l, e) then c else 0)"
  by (auto simp: usage_get_def usage_add_def map_of_entry_add split: option.splits)

lemma usage_record_add: "usage_record l e h = usage_add l e 1 h"
  by (simp add: usage_record_def usage_add_def)

lemma usage_total_add: "usage_total (usage_add l e c h) = usage_total h + c"
  by (simp add: usage_total_def usage_add_def sum_entry_add)

lemma wf_usage_perm: "wf_usage h \<Longrightarrow> same_usage h h' \<Longrightarrow> wf_usage h'"
  unfolding wf_usage_def same_usage_def
  by (metis mset_map mset_eq_imp_distinct_iff)

lemma usage_get_perm:
  assumes "wf_usage h" and "same_usage h h'"
  shows "usage_get h' l e = usage_get h l e"
proof -
  have "map_of (counts h') = map_of (counts h)"
    using assms wf_usage_perm [OF assms]
    by (intro map_of_eqI) (auto simp: wf_usage_def same_usage_def dest: mset_eq_setD)
  then show ?thesis by (simp add: usage_get_def)
qed

section \<open>Weights and rank do not depend on the iteration order\<close>

lemma length_weight_step [simp]: "length (weight_step w kv) = length w"
  by (simp add: weight_step_def split: prod.splits)

lemma length_weights_fold [simp]: "length (foldl weight_step w kvs) = length w"
  by (induction kvs arbitrary: w) simp_all

lemma weights_fold_nth:
  assumes "e < length w"
  shows "foldl weight_step w kvs ! e = w ! e + (\<Sum>(k, c) \<leftarrow> kvs. if snd k = e then c else 0)"
  using assms
proof (induction kvs arbitrary: w)
  case (Cons kv kvs)
  obtain l e' c where kv: "kv = ((l, e'), c)" by (metis prod.collapse)
  from Cons.prems Cons.IH [of "weight_step w kv"] show ?case
    by (auto simp: kv weight_step_def nth_list_update algebra_simps)
qed simp

lemma expert_weights_nth:
  assumes "e < n"
  shows "expert_weights h n ! e = (\<Sum>(k, c) \<leftarrow> counts h. if snd k = e then c else 0)"
  using assms by (simp add: expert_weights_def weights_fold_nth)

lemma length_expert_weights [simp]: "length (expert_weights h n) = n"
  by (simp add: expert_weights_def)

lemma sum_list_mset_eq:
  fixes f :: "'a \<Rightarrow> 'b::comm_monoid_add"
  assumes "mset xs = mset ys"
  shows "sum_list (map f xs) = sum_list (map f ys)"
  using assms by (metis mset_map sum_mset_sum_list)

lemma expert_weights_perm: "same_usage h h' \<Longrightarrow> expert_weights h n = expert_weights h' n"
  by (rule nth_equalityI)
     (simp_all add: expert_weights_nth same_usage_def sum_list_mset_eq [of "counts h" "counts h'"])

lemma sort_key_perm:
  fixes f :: "'a \<Rightarrow> 'k::linorder"
  assumes "mset xs = mset ys" and "distinct (map f xs)"
  shows "sort_key f xs = sort_key f ys"
proof (rule map_sorted_distinct_set_unique [where f = f])
  have "distinct (map f ys)" using assms by (metis mset_eq_imp_distinct_iff mset_map)
  then show "distinct (map f (sort_key f ys))" by (simp add: distinct_map)
  show "distinct (map f (sort_key f xs))" using assms(2) by (simp add: distinct_map)
  show "set (sort_key f xs) = set (sort_key f ys)" using mset_eq_setD [OF assms(1)] by simp
  show "inj_on f (set (sort_key f xs) \<union> set (sort_key f ys))"
    using assms mset_eq_setD [OF assms(1)] by (simp add: distinct_map)
qed simp_all

lemma distinct_hotness: "distinct (map fst kvs) \<Longrightarrow> distinct (map hotness kvs)"
  by (induction kvs) (force simp: hotness_def)+

lemma ranked_perm: "wf_usage h \<Longrightarrow> same_usage h h' \<Longrightarrow> ranked h = ranked h'"
  by (simp add: ranked_def wf_usage_def same_usage_def sort_key_perm distinct_hotness)

lemma map_of_nth_key:
  assumes "distinct (map fst kvs)" and "i < length kvs"
  shows "map_of kvs (fst (kvs ! i)) = Some (snd (kvs ! i))"
  using assms by simp

lemma usage_get_sorted_nth:
  assumes "wf_usage h" and "i < length (ranked h)"
  shows "case_prod (usage_get h) (ranked h ! i) = snd (sort_key hotness (counts h) ! i)"
proof -
  define kvs where "kvs = sort_key hotness (counts h)"
  have d: "distinct (map fst kvs)"
    using assms(1) by (simp add: kvs_def wf_usage_def distinct_map)
  have m: "map_of (counts h) = map_of kvs"
    using assms(1) d by (intro map_of_eqI) (auto simp: wf_usage_def kvs_def)
  have "i < length kvs" using assms(2) by (simp add: ranked_def kvs_def)
  moreover obtain l e where "fst (kvs ! i) = (l, e)" by force
  ultimately show ?thesis using map_of_nth_key [OF d, of i] m
    by (simp add: ranked_def usage_get_def flip: kvs_def)
qed

section \<open>Merging\<close>

lemma usage_merge_Cons:
  "usage_merge h \<lparr> counts = ((l, e), c) # kvs \<rparr> = usage_merge (usage_add l e c h) \<lparr> counts = kvs \<rparr>"
  by (simp add: usage_merge_def)

lemma usage_merge_get_total:
  assumes "distinct (map fst kvs)"
  shows "usage_get (usage_merge h \<lparr> counts = kvs \<rparr>) l e = usage_get h l e + usage_get \<lparr> counts = kvs \<rparr> l e"
    and "usage_total (usage_merge h \<lparr> counts = kvs \<rparr>) = usage_total h + usage_total \<lparr> counts = kvs \<rparr>"
    and "wf_usage h \<Longrightarrow> wf_usage (usage_merge h \<lparr> counts = kvs \<rparr>)"
  using assms
proof (induction kvs arbitrary: h)
  case Nil
  { case 1 then show ?case by (simp add: usage_merge_def usage_get_def) next
    case 2 then show ?case by (simp add: usage_merge_def usage_total_def) next
    case 3 then show ?case by (simp add: usage_merge_def) }
next
  case (Cons kv kvs)
  obtain l' e' c where kv: "kv = ((l', e'), c)" by (metis prod.collapse)
  { case 1
    then have "map_of kvs (l', e') = None" by (force simp: kv map_of_eq_None_iff)
    with 1 Cons.IH(1) [of "usage_add l' e' c h"] show ?case
      by (auto simp: kv usage_merge_Cons usage_get_add) (auto simp: usage_get_def)
  next
    case 2
    with Cons.IH(2) [of "usage_add l' e' c h"] show ?case
      by (simp add: kv usage_merge_Cons usage_total_add) (simp add: usage_total_def)
  next
    case 3
    with Cons.IH(3) [of "usage_add l' e' c h"] show ?case by (simp add: kv usage_merge_Cons) }
qed

section \<open>The file round trip\<close>

lemma usage_line_entry:
  assumes "l < 2 ^ 64" and "e < 2 ^ 64"
  shows "usage_line (show_dec l @ 32 # show_dec e @ 32 # show_dec (unat c)) h = usage_add l e c h"
proof -
  have ws: "is_ws 32" by (simp add: is_ws_def)
  have w: "split_ws (show_dec n @ 32 # s) = show_dec n # split_ws s" for n s
    by (subst split_ws_word) (auto simp: ws split_ws_skip dest: show_dec_not_ws)
  have "split_ws (show_dec n) = [show_dec n]" for n
    using split_ws_word [of "show_dec n" "[]"] by (auto dest: show_dec_not_ws)
  then have "split_ws (show_dec l @ 32 # show_dec e @ 32 # show_dec (unat c))
      = [show_dec l, show_dec e, show_dec (unat c)]"
    by (simp add: w)
  moreover have "unat c < 2 ^ 64" using unat_lt_pow [of c] by simp
  ultimately show ?thesis using assms by (simp add: usage_line_def parse_show_dec)
qed

lemma lines_of_entry:
  "lines_of (usage_entry_line (l, e) c @ rest)
     = (show_dec l @ 32 # show_dec e @ 32 # show_dec (unat c)) # lines_of rest"
proof -
  have nl: "10 \<notin> set (show_dec n)" "13 \<notin> set (show_dec n)" for n
    by (auto dest: show_dec_digits)
  have "last (show_dec (unat c)) \<noteq> 13"
    using nl(2) [of "unat c"] last_in_set [of "show_dec (unat c)"] by force
  then show ?thesis
    using lines_of_newline [of "show_dec l @ 32 # show_dec e @ 32 # show_dec (unat c)" rest]
    by (simp add: usage_entry_line_def nl strip_cr_def)
qed

definition stored_entries :: "usage_history \<Rightarrow> usage_key list \<Rightarrow> (usage_key \<times> u64) list" where
  "stored_entries h ks = map (\<lambda>k. (k, case_prod (usage_get h) k))
     (filter (\<lambda>k. case_prod (usage_get h) k \<noteq> 0) ks)"

lemma load_saved_keys:
  assumes "distinct ks" and "\<forall>(l, e) \<in> set ks. l < 2 ^ 64 \<and> e < 2 ^ 64"
    and "fst ` set (counts acc) \<inter> set ks = {}"
  shows "load_lines (map Some (lines_of (concat (map
     (\<lambda>(l, e). let c = usage_get h l e in if 0 < c then usage_entry_line (l, e) c else []) ks)))) acc
     = Inr (acc\<lparr> counts := counts acc @ stored_entries h ks \<rparr>)"
  using assms
proof (induction ks arbitrary: acc)
  case Nil
  then show ?case by (simp add: lines_of_def stored_entries_def)
next
  case (Cons k ks)
  obtain l e where k: "k = (l, e)" by force
  show ?case
  proof (cases "usage_get h l e = 0")
    case True
    with Cons show ?thesis by (simp add: k stored_entries_def)
  next
    case False
    then have pos: "0 < usage_get h l e" by (simp add: word_greater_zero_iff)
    have le: "l < 2 ^ 64" "e < 2 ^ 64" and fresh: "(l, e) \<notin> fst ` set (counts acc)"
      using Cons.prems by (auto simp: k)
    have add: "usage_add l e c acc = acc\<lparr> counts := counts acc @ [((l, e), c)] \<rparr>" for c
      by (simp add: usage_add_def entry_add_fresh [OF fresh])
    show ?thesis using Cons.prems False
      by (simp add: k pos lines_of_entry usage_line_entry [OF le] add) 
         (subst Cons.IH, auto simp: k stored_entries_def)
  qed
qed

lemma map_of_stored_entries:
  "map_of (stored_entries h ks) k
     = (if k \<in> set ks \<and> case_prod (usage_get h) k \<noteq> 0 then Some (case_prod (usage_get h) k) else None)"
  by (induction ks) (auto simp: stored_entries_def)

lemma usage_get_absent: "(l, e) \<notin> fst ` set (counts h) \<Longrightarrow> usage_get h l e = 0"
  by (simp add: usage_get_def map_of_eq_None_iff [THEN iffD2])

lemma keys_stored_entries:
  "map fst (stored_entries h ks) = filter (\<lambda>k. case_prod (usage_get h) k \<noteq> 0) ks"
  by (simp add: stored_entries_def comp_def)

section \<open>Properties\<close>

text \<open>
  C28: Saving a history and loading the file again succeeds and gives back every count: the
  loaded history is well-formed, agrees with the saved one on every (layer, expert), has no
  zero entry, and saving it again writes the same file.  Layers and experts are 64-bit.
\<close>

theorem usage_save_load:
  assumes "wf_usage h"
    and "\<forall>(l, e) \<in> fst ` set (counts h). l < 2 ^ 64 \<and> e < 2 ^ 64"
  shows "\<exists>h'. usage_load (Opened (map Some (lines_of (usage_save h)))) = Inr h'
     \<and> wf_usage h' \<and> (\<forall>l e. usage_get h' l e = usage_get h l e)
     \<and> 0 \<notin> snd ` set (counts h') \<and> usage_save h' = usage_save h"
proof -
  define ks where "ks = sort (map fst (counts h))"
  define h' where "h' = \<lparr> counts = stored_entries h ks \<rparr>"
  have ks: "distinct ks" "set ks = fst ` set (counts h)" "sorted ks"
    using assms(1) by (simp_all add: ks_def wf_usage_def)
  have "usage_load (Opened (map Some (lines_of (usage_save h)))) = Inr h'"
    using load_saved_keys [of ks usage_new h] ks assms(2)
    by (simp add: usage_save_def usage_new_def h'_def ks_def)
  moreover have get: "usage_get h' l e = usage_get h l e" for l e
  proof (cases "(l, e) \<in> fst ` set (counts h) \<and> usage_get h l e \<noteq> 0")
    case True
    then have "map_of (counts h') (l, e) = Some (usage_get h l e)"
      by (simp add: h'_def map_of_stored_entries ks(2))
    then show ?thesis by (simp add: usage_get_def [of h'])
  next
    case False
    then have "map_of (counts h') (l, e) = None"
      by (simp add: h'_def map_of_stored_entries ks(2))
    then show ?thesis using False usage_get_absent [of l e h] by (auto simp: usage_get_def [of h'])
  qed
  moreover have "wf_usage h'" using ks(1) by (simp add: wf_usage_def h'_def keys_stored_entries)
  moreover have "0 \<notin> snd ` set (counts h')" by (auto simp: h'_def stored_entries_def)
  moreover have "usage_save h' = usage_save h"
  proof -
    have "sort (map fst (counts h')) = filter (\<lambda>k. case_prod (usage_get h) k \<noteq> 0) ks"
      using ks(3) by (simp add: h'_def keys_stored_entries sorted_sort_id sorted_wrt_filter)
    moreover have "concat (map f (filter (\<lambda>k. case_prod (usage_get h) k \<noteq> 0) xs)) = concat (map f xs)"
      if "\<And>k. case_prod (usage_get h) k = 0 \<Longrightarrow> f k = []" for f :: "usage_key \<Rightarrow> str" and xs
      using that by (induction xs) auto
    ultimately show ?thesis unfolding usage_save_def get ks_def [symmetric]
      by (simp add: Let_def split: prod.splits)
  qed
  ultimately show ?thesis by blast
qed

theorem usage_save_load_witness:
  "\<exists>h'. usage_load (Opened (map Some (lines_of (usage_save
          \<lparr> counts = [((5, 200), 3), ((3, 1), 7), ((4, 4), 0)] \<rparr>)))) = Inr h'
     \<and> usage_get h' 5 200 = 3 \<and> usage_get h' 3 1 = 7 \<and> usage_get h' 4 4 = 0"
  using usage_save_load [of "\<lparr> counts = [((5, 200), 3), ((3, 1), 7), ((4, 4), 0)] \<rparr>"]
  by (auto simp: wf_usage_def usage_get_def)

text \<open>
  The pin order is a function of the map alone: two histories with the same entries in
  any iteration order give the same ranking, which lists every key once, hottest first, and
  equal counts in (layer, expert) order.
\<close>

lemma ranked_hottest_first:
  assumes "wf_usage h" and "same_usage h h'"
  shows "ranked h' = ranked h \<and> distinct (ranked h) \<and> set (ranked h) = fst ` set (counts h)
     \<and> (\<forall>i j. i < j \<and> j < length (ranked h) \<longrightarrow>
          case_prod (usage_get h) (ranked h ! j) \<le> case_prod (usage_get h) (ranked h ! i)
          \<and> (case_prod (usage_get h) (ranked h ! j) = case_prod (usage_get h) (ranked h ! i)
             \<longrightarrow> ranked h ! i < ranked h ! j))"
proof -
  let ?kvs = "sort_key hotness (counts h)"
  have d: "distinct (ranked h)" using assms(1)
    by (simp add: ranked_def wf_usage_def distinct_map)
  have "case_prod (usage_get h) (ranked h ! j) \<le> case_prod (usage_get h) (ranked h ! i)
          \<and> (case_prod (usage_get h) (ranked h ! j) = case_prod (usage_get h) (ranked h ! i)
             \<longrightarrow> ranked h ! i < ranked h ! j)" if ij: "i < j" "j < length (ranked h)" for i j
  proof -
    have len: "j < length ?kvs" "i < length ?kvs" using ij by (simp_all add: ranked_def)
    have "hotness (?kvs ! i) \<le> hotness (?kvs ! j)"
      using sorted_nth_mono [of "map hotness ?kvs" i j] ij(1) len by simp
    moreover have "ranked h ! i \<noteq> ranked h ! j" using d ij by (simp add: nth_eq_iff_index_eq)
    moreover have "fst (?kvs ! i) = ranked h ! i" "fst (?kvs ! j) = ranked h ! j"
      using len by (simp_all add: ranked_def)
    ultimately show ?thesis
      using usage_get_sorted_nth [OF assms(1), of i] usage_get_sorted_nth [OF assms(1), of j] ij
      by (auto simp: hotness_def word_le_def less_prod_def split: prod.splits)
  qed
  moreover have "set (ranked h) = fst ` set (counts h)" by (simp add: ranked_def)
  ultimately show ?thesis using d ranked_perm [OF assms] by simp
qed

text \<open>
  Merging a history into another adds the counts of every key and the totals (as 64-bit
  sums) and keeps the keys distinct.
\<close>

lemma usage_merge_adds:
  assumes "wf_usage h" and "wf_usage other"
  shows "wf_usage (usage_merge h other)
     \<and> (\<forall>l e. usage_get (usage_merge h other) l e = usage_get h l e + usage_get other l e)
     \<and> usage_total (usage_merge h other) = usage_total h + usage_total other"
proof -
  obtain kvs where other: "other = \<lparr> counts = kvs \<rparr>" by (cases other) simp
  then have "distinct (map fst kvs)" using assms(2) by (simp add: wf_usage_def)
  then show ?thesis using usage_merge_get_total [of kvs h] assms(1) by (simp add: other)
qed

end
