(* ===== verification/Wire.thy ===== *)
theory Wire
  imports Sharding
begin

text \<open>
  The wire format of \<open>net.rs\<close> and the messages of \<open>transport.rs\<close>: little-endian scalars, the
  read cursor, the six message codecs and the length-prefixed frames.  A float travels as its
  bit pattern and is modelled as that \<^typ>\<open>u32\<close>.  The cursor arithmetic on \<open>usize\<close> wraps at
  64 bits.
\<close>

section \<open>Messages\<close>

record expert_request =
  req_experts :: "u32 list"
  req_weights :: "u32 list"
  req_activations :: "u32 list"
  req_n_tokens :: nat
  req_hidden :: nat
  req_layer :: u32

record expert_response =
  rsp_outputs :: "u32 list"
  rsp_n_tokens :: nat
  rsp_hidden :: nat

record attn_request =
  areq_activations :: "u32 list"
  areq_sel :: "u32 list list"
  areq_n_tokens :: nat
  areq_hidden :: nat
  areq_pos_base :: u32
  areq_h_start :: u32
  areq_h_count :: u32
  areq_layer :: u32

record attn_response =
  arsp_outputs :: "u32 list"
  arsp_n_tokens :: nat
  arsp_hidden :: nat

definition REQ_MAGIC :: u32 where "REQ_MAGIC = 0x43524551"
definition RSP_MAGIC :: u32 where "RSP_MAGIC = 0x43525350"
definition AREQ_MAGIC :: u32 where "AREQ_MAGIC = 0x43415251"
definition ARSP_MAGIC :: u32 where "ARSP_MAGIC = 0x43415250"
definition HELLO_MAGIC :: u32 where "HELLO_MAGIC = 0x4348454c"
definition HACK_MAGIC :: u32 where "HACK_MAGIC = 0x43484143"
definition MAX_FRAME :: nat where "MAX_FRAME = 2 ^ 30"

section \<open>Scalars\<close>

text \<open>\<open>to_le_bytes\<close> and \<open>from_le_bytes\<close>\<close>

fun to_le :: "nat \<Rightarrow> 'a::len word \<Rightarrow> byte_string" where
  "to_le 0 w = []"
| "to_le (Suc k) w = ucast w # to_le k (drop_bit 8 w)"

fun from_le :: "byte_string \<Rightarrow> 'a::len word" where
  "from_le [] = 0"
| "from_le (b # bs) = ucast b OR push_bit 8 (from_le bs)"

definition put_u32 :: "u32 \<Rightarrow> byte_string" where
  "put_u32 v = to_le 4 v"

definition put_u64 :: "u64 \<Rightarrow> byte_string" where
  "put_u64 v = to_le 8 v"

definition put_f32s :: "u32 list \<Rightarrow> byte_string" where
  "put_f32s v = concat (map (to_le 4) v)"

definition put_u32s :: "u32 list \<Rightarrow> byte_string" where
  "put_u32s v = concat (map put_u32 v)"

section \<open>The cursor\<close>

record cur =
  cbuf :: byte_string
  cpos :: nat

fun chunks4 :: "byte_string \<Rightarrow> byte_string list" where
  "chunks4 (a # b # c # d # bs) = [a, b, c, d] # chunks4 bs"
| "chunks4 _ = []"

definition cur_u32 :: "cur \<Rightarrow> (u32 \<times> cur) option" where
  "cur_u32 c = do {
     let e = usz (cpos c + 4);
     s \<leftarrow> get_range (cbuf c) (cpos c) e;
     Some (from_le s, c\<lparr> cpos := e \<rparr>) }"

definition cur_u64 :: "cur \<Rightarrow> (u64 \<times> cur) option" where
  "cur_u64 c = do {
     let e = usz (cpos c + 8);
     s \<leftarrow> get_range (cbuf c) (cpos c) e;
     Some (from_le s, c\<lparr> cpos := e \<rparr>) }"

definition cur_f32s :: "nat \<Rightarrow> cur \<Rightarrow> (u32 list \<times> cur) option" where
  "cur_f32s n c = do {
     let e = usz (cpos c + usz (n * 4));
     s \<leftarrow> get_range (cbuf c) (cpos c) e;
     Some (map from_le (chunks4 s), c\<lparr> cpos := e \<rparr>) }"

definition cur_u32s :: "nat \<Rightarrow> cur \<Rightarrow> (u32 list \<times> cur) option" where
  "cur_u32s n c = do {
     let e = usz (cpos c + usz (n * 4));
     s \<leftarrow> get_range (cbuf c) (cpos c) e;
     Some (map from_le (chunks4 s), c\<lparr> cpos := e \<rparr>) }"

text \<open>\<open>usize::checked_mul\<close>\<close>

definition usz_checked_mul :: "nat \<Rightarrow> nat \<Rightarrow> nat option" where
  "usz_checked_mul a b = (if a * b < 2 ^ 64 then Some (a * b) else None)"

definition guard :: "bool \<Rightarrow> unit option" where
  "guard b = (if b then Some () else None)"

section \<open>Codecs\<close>

definition encode_hello :: "node_id \<Rightarrow> u64 \<Rightarrow> byte_string" where
  "encode_hello node fp = put_u32 HELLO_MAGIC @ put_u32 (of_nat (node_num node)) @ put_u64 fp"

definition decode_hello :: "byte_string \<Rightarrow> (node_id \<times> u64) option" where
  "decode_hello b = do {
     (m, c) \<leftarrow> cur_u32 \<lparr> cbuf = b, cpos = 0 \<rparr>;
     guard (m = HELLO_MAGIC);
     (node, c) \<leftarrow> cur_u32 c;
     (fp, c) \<leftarrow> cur_u64 c;
     Some (NodeId (unat node), fp) }"

definition encode_hello_ack :: "bool \<Rightarrow> u64 \<Rightarrow> byte_string" where
  "encode_hello_ack ok fp = put_u32 HACK_MAGIC @ put_u32 (if ok then 1 else 0) @ put_u64 fp"

definition decode_hello_ack :: "byte_string \<Rightarrow> (bool \<times> u64) option" where
  "decode_hello_ack b = do {
     (m, c) \<leftarrow> cur_u32 \<lparr> cbuf = b, cpos = 0 \<rparr>;
     guard (m = HACK_MAGIC);
     (ok, c) \<leftarrow> cur_u32 c;
     (fp, c) \<leftarrow> cur_u64 c;
     Some (ok \<noteq> 0, fp) }"

definition encode_request :: "expert_request \<Rightarrow> byte_string" where
  "encode_request r =
     put_u32 REQ_MAGIC @ put_u32 (req_layer r) @ put_u32 (of_nat (req_n_tokens r)) @
     put_u32 (of_nat (req_hidden r)) @ put_u32 (of_nat (length (req_experts r))) @
     put_u32 (of_nat (length (req_weights r))) @ put_u32s (req_experts r) @
     put_f32s (req_weights r) @ put_f32s (req_activations r)"

definition decode_request :: "byte_string \<Rightarrow> expert_request option" where
  "decode_request b = do {
     (m, c) \<leftarrow> cur_u32 \<lparr> cbuf = b, cpos = 0 \<rparr>;
     guard (m = REQ_MAGIC);
     (layer, c) \<leftarrow> cur_u32 c;
     (n_tokens, c) \<leftarrow> cur_u32 c;
     (hidden, c) \<leftarrow> cur_u32 c;
     (n_experts, c) \<leftarrow> cur_u32 c;
     (n_weights, c) \<leftarrow> cur_u32 c;
     (experts, c) \<leftarrow> cur_u32s (unat n_experts) c;
     (weights, c) \<leftarrow> cur_f32s (unat n_weights) c;
     n \<leftarrow> usz_checked_mul (unat n_tokens) (unat hidden);
     (activations, c) \<leftarrow> cur_f32s n c;
     Some \<lparr> req_experts = experts, req_weights = weights, req_activations = activations,
            req_n_tokens = unat n_tokens, req_hidden = unat hidden, req_layer = layer \<rparr> }"

definition encode_response :: "expert_response \<Rightarrow> byte_string" where
  "encode_response r =
     put_u32 RSP_MAGIC @ put_u32 (of_nat (rsp_n_tokens r)) @ put_u32 (of_nat (rsp_hidden r)) @
     put_f32s (rsp_outputs r)"

definition decode_response :: "byte_string \<Rightarrow> expert_response option" where
  "decode_response b = do {
     (m, c) \<leftarrow> cur_u32 \<lparr> cbuf = b, cpos = 0 \<rparr>;
     guard (m = RSP_MAGIC);
     (n_tokens, c) \<leftarrow> cur_u32 c;
     (hidden, c) \<leftarrow> cur_u32 c;
     n \<leftarrow> usz_checked_mul (unat n_tokens) (unat hidden);
     (outputs, c) \<leftarrow> cur_f32s n c;
     Some \<lparr> rsp_outputs = outputs, rsp_n_tokens = unat n_tokens, rsp_hidden = unat hidden \<rparr> }"

definition put_query :: "u32 list \<Rightarrow> byte_string" where
  "put_query q = put_u32 (of_nat (length q)) @ put_u32s q"

definition get_query :: "cur \<Rightarrow> (u32 list \<times> cur) option" where
  "get_query c = do { (len, c) \<leftarrow> cur_u32 c; cur_u32s (unat len) c }"

fun repeat_get :: "(cur \<Rightarrow> ('v \<times> cur) option) \<Rightarrow> nat \<Rightarrow> cur \<Rightarrow> ('v list \<times> cur) option" where
  "repeat_get get 0 c = Some ([], c)"
| "repeat_get get (Suc n) c = do {
     (v, c) \<leftarrow> get c; (vs, c) \<leftarrow> repeat_get get n c; Some (v # vs, c) }"

definition encode_attn_request :: "attn_request \<Rightarrow> byte_string" where
  "encode_attn_request r =
     put_u32 AREQ_MAGIC @ put_u32 (areq_layer r) @ put_u32 (of_nat (areq_n_tokens r)) @
     put_u32 (of_nat (areq_hidden r)) @ put_u32 (areq_pos_base r) @ put_u32 (areq_h_start r) @
     put_u32 (areq_h_count r) @ put_u32 (of_nat (length (areq_sel r))) @
     concat (map put_query (areq_sel r)) @ put_f32s (areq_activations r)"

definition decode_attn_request :: "byte_string \<Rightarrow> attn_request option" where
  "decode_attn_request b = do {
     (m, c) \<leftarrow> cur_u32 \<lparr> cbuf = b, cpos = 0 \<rparr>;
     guard (m = AREQ_MAGIC);
     (layer, c) \<leftarrow> cur_u32 c;
     (n_tokens, c) \<leftarrow> cur_u32 c;
     (hidden, c) \<leftarrow> cur_u32 c;
     (pos_base, c) \<leftarrow> cur_u32 c;
     (h_start, c) \<leftarrow> cur_u32 c;
     (h_count, c) \<leftarrow> cur_u32 c;
     (n_sel, c) \<leftarrow> cur_u32 c;
     (sel, c) \<leftarrow> repeat_get get_query (unat n_sel) c;
     n \<leftarrow> usz_checked_mul (unat n_tokens) (unat hidden);
     (activations, c) \<leftarrow> cur_f32s n c;
     Some \<lparr> areq_activations = activations, areq_sel = sel, areq_n_tokens = unat n_tokens,
            areq_hidden = unat hidden, areq_pos_base = pos_base, areq_h_start = h_start,
            areq_h_count = h_count, areq_layer = layer \<rparr> }"

definition encode_attn_response :: "attn_response \<Rightarrow> byte_string" where
  "encode_attn_response r =
     put_u32 ARSP_MAGIC @ put_u32 (of_nat (arsp_n_tokens r)) @ put_u32 (of_nat (arsp_hidden r)) @
     put_f32s (arsp_outputs r)"

definition decode_attn_response :: "byte_string \<Rightarrow> attn_response option" where
  "decode_attn_response b = do {
     (m, c) \<leftarrow> cur_u32 \<lparr> cbuf = b, cpos = 0 \<rparr>;
     guard (m = ARSP_MAGIC);
     (n_tokens, c) \<leftarrow> cur_u32 c;
     (hidden, c) \<leftarrow> cur_u32 c;
     n \<leftarrow> usz_checked_mul (unat n_tokens) (unat hidden);
     (outputs, c) \<leftarrow> cur_f32s n c;
     Some \<lparr> arsp_outputs = outputs, arsp_n_tokens = unat n_tokens, arsp_hidden = unat hidden \<rparr> }"

section \<open>Frames\<close>

datatype io_error = Unexpected_eof | Frame_too_large | Bad_first_frame | Bad_fingerprint
  | Bad_expert_frame | Bad_attn_frame | Unknown_magic | Write_failed

definition frame :: "byte_string \<Rightarrow> byte_string" where
  "frame payload = to_le 4 (of_nat (length payload) :: u32) @ payload"

definition read_exact :: "nat \<Rightarrow> byte_string \<Rightarrow> io_error + byte_string \<times> byte_string" where
  "read_exact n s = (if n \<le> length s then Inr (take n s, drop n s) else Inl Unexpected_eof)"

definition read_frame :: "byte_string \<Rightarrow> io_error + byte_string \<times> byte_string" where
  "read_frame s = (case read_exact 4 s of
     Inl e \<Rightarrow> Inl e
   | Inr (len, s) \<Rightarrow> (let n = unat (from_le len :: u32) in
       if MAX_FRAME < n then Inl Frame_too_large else read_exact n s))"

section \<open>Scalars round trip\<close>

lemma length_to_le [simp]: "length (to_le k w) = k"
  by (induction k arbitrary: w) simp_all

lemma from_to_le: "from_le (to_le k (w :: 'a::len word)) = take_bit (8 * k) w"
proof (induction k arbitrary: w)
  case (Suc k)
  show ?case
    by (rule bit_eqI) (auto simp: Suc bit_simps not_less)
qed simp

lemma from_to_le_full: "LENGTH('a) \<le> 8 * k \<Longrightarrow> from_le (to_le k (w :: 'a::len word)) = w"
  by (simp add: from_to_le take_bit_word_eq_self)

lemma length_put [simp]:
  "length (put_u32 v) = 4" "length (put_u64 x) = 8"
  by (simp_all add: put_u32_def put_u64_def)

lemma length_put_list [simp]:
  "length (put_u32s vs) = 4 * length vs" "length (put_f32s vs) = 4 * length vs"
  by (induction vs) (simp_all add: put_u32s_def put_f32s_def)

lemma put_f32s_eq: "put_f32s = put_u32s"
  by (simp add: fun_eq_iff put_f32s_def put_u32s_def put_u32_def [abs_def])

lemma chunks4_put: "map from_le (chunks4 (put_u32s vs)) = vs"
proof (induction vs)
  case (Cons v vs)
  have v: "to_le 4 v = [ucast v, ucast (drop_bit 8 v), ucast (drop_bit 16 v), ucast (drop_bit 24 v)]"
    by (simp add: eval_nat_numeral del: to_le.simps(1)) simp
  have "from_le (to_le 4 v) = v" by (simp add: from_to_le_full)
  with Cons v show ?case by (simp add: put_u32s_def put_u32_def)
qed (simp add: put_u32s_def)

section \<open>The codec interface\<close>

text \<open>
  A cursor that has consumed \<open>pre\<close> and has \<open>s\<close> in front of it.  A codec reads back what was
  written, advances by exactly that much, and leaves the rest alone; buffers are shorter than
  \<open>isize::MAX\<close>, as every vector is.
\<close>

definition at :: "byte_string \<Rightarrow> byte_string \<Rightarrow> cur" where
  "at pre s = \<lparr> cbuf = pre @ s, cpos = length pre \<rparr>"

definition fits :: "byte_string \<Rightarrow> bool" where
  "fits b \<longleftrightarrow> length b < 2 ^ 63"

locale wire_codec =
  fixes put :: "'v \<Rightarrow> byte_string" and get :: "cur \<Rightarrow> ('v \<times> cur) option" and ok :: "'v \<Rightarrow> bool"
  assumes get_put: "ok v \<Longrightarrow> fits (pre @ put v @ rest) \<Longrightarrow>
    get (at pre (put v @ rest)) = Some (v, at (pre @ put v) rest)"
begin

lemma repeat_get_put:
  assumes "\<forall>v \<in> set vs. ok v" and "fits (pre @ concat (map put vs) @ rest)"
  shows "repeat_get get (length vs) (at pre (concat (map put vs) @ rest))
    = Some (vs, at (pre @ concat (map put vs)) rest)"
  using assms
proof (induction vs arbitrary: pre)
  case (Cons v vs)
  then have "get (at pre (put v @ concat (map put vs) @ rest))
      = Some (v, at (pre @ put v) (concat (map put vs) @ rest))"
    by (intro get_put) simp_all
  with Cons.prems Cons.IH [of "pre @ put v"] show ?case by simp
qed simp

end

lemma get_range_at:
  "get_range (pre @ xs @ rest) (length pre) (length pre + length xs) = Some xs"
  by (simp add: get_range_def)

lemma usz_small: "n < 2 ^ 64 \<Longrightarrow> usz n = n"
  by (simp add: usz_def)

interpretation u32_codec: wire_codec put_u32 cur_u32 "\<lambda>_. True"
proof
  fix v :: u32 and pre rest assume "fits (pre @ put_u32 v @ rest)"
  then have "usz (length pre + 4) = length pre + 4" by (intro usz_small) (simp add: fits_def)
  then show "cur_u32 (at pre (put_u32 v @ rest)) = Some (v, at (pre @ put_u32 v) rest)"
    using get_range_at [of pre "put_u32 v" rest]
    by (simp add: cur_u32_def at_def put_u32_def from_to_le_full)
qed

interpretation u64_codec: wire_codec put_u64 cur_u64 "\<lambda>_. True"
proof
  fix v :: u64 and pre rest assume "fits (pre @ put_u64 v @ rest)"
  then have "usz (length pre + 8) = length pre + 8" by (intro usz_small) (simp add: fits_def)
  then show "cur_u64 (at pre (put_u64 v @ rest)) = Some (v, at (pre @ put_u64 v) rest)"
    using get_range_at [of pre "put_u64 v" rest]
    by (simp add: cur_u64_def at_def put_u64_def from_to_le_full)
qed

lemma cur_list_eq: "cur_f32s = cur_u32s"
  by (simp add: fun_eq_iff cur_f32s_def cur_u32s_def)

lemma cur_u32s_at:
  assumes "fits (pre @ put_u32s vs @ rest)"
  shows "cur_u32s (length vs) (at pre (put_u32s vs @ rest)) = Some (vs, at (pre @ put_u32s vs) rest)"
proof -
  have "length pre + 4 * length vs < 2 ^ 64" using assms by (simp add: fits_def)
  then have "usz (length pre + usz (length vs * 4)) = length pre + length (put_u32s vs)"
    by (simp add: usz_small)
  then show ?thesis
    using get_range_at [of pre "put_u32s vs" rest] chunks4_put [of vs]
    by (simp add: cur_u32s_def at_def)
qed

interpretation query_codec: wire_codec put_query get_query "\<lambda>q. length q < 2 ^ 32"
proof
  fix q :: "u32 list" and pre rest
  assume len: "length q < 2 ^ 32" and f: "fits (pre @ put_query q @ rest)"
  have n: "unat (of_nat (length q) :: u32) = length q" using len by (simp add: unat_of_nat)
  have f1: "fits (pre @ put_u32 (of_nat (length q)) @ put_u32s q @ rest)"
    and f2: "fits ((pre @ put_u32 (of_nat (length q))) @ put_u32s q @ rest)"
    using f by (simp_all add: put_query_def)
  show "get_query (at pre (put_query q @ rest)) = Some (q, at (pre @ put_query q) rest)"
    using u32_codec.get_put [OF _ f1] cur_u32s_at [OF f2]
    by (simp add: get_query_def put_query_def n)
qed

lemma start_at: "\<lparr> cbuf = b, cpos = 0 \<rparr> = at [] b"
  by (simp add: at_def)

lemma guard_simps [simp]: "guard True = Some ()" "guard False = None"
  by (simp_all add: guard_def)

lemma cur_u32s_last:
  assumes "fits (pre @ put_u32s vs)" and "length vs = n"
  shows "cur_u32s n (at pre (put_u32s vs)) = Some (vs, at (pre @ put_u32s vs) [])"
  using cur_u32s_at [of pre vs "[]"] assms by simp

lemma unat_of_nat_u32: "n < 2 ^ 32 \<Longrightarrow> unat (of_nat n :: u32) = n"
  by (simp add: unat_of_nat)

lemma product_lt_64: "a < 2 ^ 32 \<Longrightarrow> b < 2 ^ 32 \<Longrightarrow> usz_checked_mul a b = Some (a * b)"
  using mult_strict_mono [of a "2 ^ 32" b "2 ^ 32"] by (simp add: usz_checked_mul_def)

lemma cur_u64_last:
  "fits (pre @ put_u64 v) \<Longrightarrow> cur_u64 (at pre (put_u64 v)) = Some (v, at (pre @ put_u64 v) [])"
  using u64_codec.get_put [where v = v and pre = pre and rest = "[]"] by simp

lemmas codec_simps = start_at u32_codec.get_put cur_u32s_at cur_u32s_last cur_list_eq put_f32s_eq
  cur_u64_last unat_of_nat_u32 product_lt_64

section \<open>Well-formed messages\<close>

definition wf_request :: "expert_request \<Rightarrow> bool" where
  "wf_request r \<longleftrightarrow> req_n_tokens r < 2 ^ 32 \<and> req_hidden r < 2 ^ 32 \<and> length (req_experts r) < 2 ^ 32
     \<and> length (req_weights r) < 2 ^ 32 \<and> length (req_activations r) = req_n_tokens r * req_hidden r
     \<and> fits (encode_request r)"

definition wf_response :: "expert_response \<Rightarrow> bool" where
  "wf_response r \<longleftrightarrow> rsp_n_tokens r < 2 ^ 32 \<and> rsp_hidden r < 2 ^ 32
     \<and> length (rsp_outputs r) = rsp_n_tokens r * rsp_hidden r \<and> fits (encode_response r)"

definition wf_attn_request :: "attn_request \<Rightarrow> bool" where
  "wf_attn_request r \<longleftrightarrow> areq_n_tokens r < 2 ^ 32 \<and> areq_hidden r < 2 ^ 32
     \<and> length (areq_sel r) < 2 ^ 32 \<and> (\<forall>q \<in> set (areq_sel r). length q < 2 ^ 32)
     \<and> length (areq_activations r) = areq_n_tokens r * areq_hidden r \<and> fits (encode_attn_request r)"

definition wf_attn_response :: "attn_response \<Rightarrow> bool" where
  "wf_attn_response r \<longleftrightarrow> arsp_n_tokens r < 2 ^ 32 \<and> arsp_hidden r < 2 ^ 32
     \<and> length (arsp_outputs r) = arsp_n_tokens r * arsp_hidden r \<and> fits (encode_attn_response r)"

lemma hello_codec: "node < 2 ^ 32 \<Longrightarrow> decode_hello (encode_hello (NodeId node) fp) = Some (NodeId node, fp)"
  by (simp add: decode_hello_def encode_hello_def codec_simps fits_def)

lemma hello_ack_codec: "decode_hello_ack (encode_hello_ack ok fp) = Some (ok, fp)"
  by (simp add: decode_hello_ack_def encode_hello_ack_def codec_simps fits_def)

lemma request_codec: "wf_request r \<Longrightarrow> decode_request (encode_request r) = Some r"
  by (simp add: wf_request_def encode_request_def decode_request_def codec_simps)

lemma response_codec: "wf_response r \<Longrightarrow> decode_response (encode_response r) = Some r"
  by (simp add: wf_response_def encode_response_def decode_response_def codec_simps)

lemma attn_response_codec: "wf_attn_response r \<Longrightarrow> decode_attn_response (encode_attn_response r) = Some r"
  by (simp add: wf_attn_response_def encode_attn_response_def decode_attn_response_def codec_simps)

lemma attn_request_codec: "wf_attn_request r \<Longrightarrow> decode_attn_request (encode_attn_request r) = Some r"
  by (simp add: wf_attn_request_def encode_attn_request_def decode_attn_request_def codec_simps)
     (simp add: codec_simps query_codec.repeat_get_put fits_def)

section \<open>Frames round trip\<close>

lemma read_exact_append [simp]: "read_exact (length xs) (xs @ ys) = Inr (xs, ys)"
  by (simp add: read_exact_def)

lemma read_frame_frame:
  assumes "length p \<le> MAX_FRAME"
  shows "read_frame (frame p @ rest) = Inr (p, rest)"
proof -
  have n: "unat (of_nat (length p) :: u32) = length p"
    using assms by (intro unat_of_nat_u32) (simp add: MAX_FRAME_def)
  have "read_exact 4 (frame p @ rest) = Inr (to_le 4 (of_nat (length p) :: u32), p @ rest)"
    using read_exact_append [of "to_le 4 (of_nat (length p) :: u32)" "p @ rest"]
    by (simp add: frame_def)
  then show ?thesis using assms n by (simp add: read_frame_def from_to_le_full)
qed

lemma read_frame_large:
  assumes "MAX_FRAME < length p" and "length p < 2 ^ 32"
  shows "read_frame (frame p @ rest) = Inl Frame_too_large"
proof -
  have "read_exact 4 (frame p @ rest) = Inr (to_le 4 (of_nat (length p) :: u32), p @ rest)"
    using read_exact_append [of "to_le 4 (of_nat (length p) :: u32)" "p @ rest"]
    by (simp add: frame_def)
  then show ?thesis using assms by (simp add: read_frame_def from_to_le_full unat_of_nat_u32)
qed

lemma read_frame_shorter: "read_frame s = Inr (p, rest) \<Longrightarrow> length rest < length s"
  by (auto simp: read_frame_def read_exact_def Let_def split: if_splits sum.splits)

section \<open>Properties\<close>

text \<open>
  C27: Every message decodes to itself: the two handshake messages for every value, and the
  expert and attention requests and responses whenever their dimensions and list lengths are
  32-bit and the payload matches \<open>n_tokens * hidden\<close>.
\<close>

theorem messages_round_trip:
  assumes "node < 2 ^ 32" and "wf_request q" and "wf_response r"
    and "wf_attn_request aq" and "wf_attn_response ar"
  shows "decode_hello (encode_hello (NodeId node) fp) = Some (NodeId node, fp)
    \<and> decode_hello_ack (encode_hello_ack accepted fp) = Some (accepted, fp)
    \<and> decode_request (encode_request q) = Some q
    \<and> decode_response (encode_response r) = Some r
    \<and> decode_attn_request (encode_attn_request aq) = Some aq
    \<and> decode_attn_response (encode_attn_response ar) = Some ar"
  using assms hello_codec hello_ack_codec request_codec response_codec attn_request_codec
    attn_response_codec by blast

theorem messages_round_trip_witness:
  "decode_attn_request (encode_attn_request
     \<lparr> areq_activations = [1, 2], areq_sel = [[], [0, 2], [1]], areq_n_tokens = 2, areq_hidden = 1,
       areq_pos_base = 0, areq_h_start = 32, areq_h_count = 32, areq_layer = 7 \<rparr>)
   = Some \<lparr> areq_activations = [1, 2], areq_sel = [[], [0, 2], [1]], areq_n_tokens = 2, areq_hidden = 1,
       areq_pos_base = 0, areq_h_start = 32, areq_h_count = 32, areq_layer = 7 \<rparr>"
  using messages_round_trip [of 1
      "\<lparr> req_experts = [130, 200], req_weights = [5, 6], req_activations = [1, 2],
         req_n_tokens = 2, req_hidden = 1, req_layer = 7 \<rparr>"
      "\<lparr> rsp_outputs = [3], rsp_n_tokens = 1, rsp_hidden = 1 \<rparr>"
      "\<lparr> areq_activations = [1, 2], areq_sel = [[], [0, 2], [1]], areq_n_tokens = 2, areq_hidden = 1,
       areq_pos_base = 0, areq_h_start = 32, areq_h_count = 32, areq_layer = 7 \<rparr>"
      "\<lparr> arsp_outputs = [3], arsp_n_tokens = 1, arsp_hidden = 1 \<rparr>" 0 True]
  by (simp add: wf_request_def wf_response_def wf_attn_request_def wf_attn_response_def fits_def
      encode_request_def encode_response_def encode_attn_request_def encode_attn_response_def
      put_query_def)

text \<open>
  A frame is read back exactly, with the rest of the stream untouched, if and only if its
  payload is within \<open>MAX_FRAME\<close>, for every payload the 32-bit length prefix can describe.
\<close>

lemma frame_round_trip:
  assumes "length p < 2 ^ 32"
  shows "read_frame (frame p @ rest) = Inr (p, rest) \<longleftrightarrow> length p \<le> MAX_FRAME"
  using read_frame_frame [of p rest] read_frame_large [OF _ assms, of rest] by force

lemma length_chunks4: "length (chunks4 bs) = length bs div 4"
  by (induction bs rule: chunks4.induct) auto

text \<open>A cursor inside a buffer that fits a frame.\<close>

definition sane :: "cur \<Rightarrow> bool" where
  "sane c \<longleftrightarrow> cpos c \<le> length (cbuf c) \<and> length (cbuf c) \<le> MAX_FRAME"

lemma cur_u32_sane: "sane c \<Longrightarrow> cur_u32 c = Some (v, c') \<Longrightarrow> sane c'"
  by (auto simp: sane_def cur_u32_def Let_def get_range_def bind_eq_Some_conv split: if_splits)

lemma cur_u32s_sane:
  assumes "sane c" and "cur_u32s n c = Some (vs, c')" and "n < 2 ^ 62"
  shows "sane c'" and "length vs = n"
proof -
  let ?e = "usz (cpos c + usz (n * 4))"
  from assms(2) have e: "cpos c \<le> ?e" "?e \<le> length (cbuf c)" and c': "c' = c\<lparr> cpos := ?e \<rparr>"
    and vs: "length vs = (?e - cpos c) div 4"
    by (auto simp: cur_u32s_def Let_def get_range_def bind_eq_Some_conv length_chunks4 split: if_splits)
  show "sane c'" using assms(1) e c' by (simp add: sane_def)
  have n4: "usz (n * 4) = n * 4" using assms(3) by (simp add: usz_def)
  have pos: "cpos c < 2 ^ 64" using assms(1) by (simp add: sane_def MAX_FRAME_def)
  have "cpos c + n * 4 < 2 ^ 64"
  proof (rule ccontr)
    assume "\<not> ?thesis"
    then have "?e = cpos c + n * 4 - 2 ^ 64"
      using pos assms(3) by (simp add: n4) (simp add: usz_def mod_if)
    with e(1) \<open>\<not> _\<close> assms(3) show False by simp
  qed
  then show "length vs = n" using vs by (simp add: n4 usz_small)
qed

lemma guard_Some: "guard b = Some u \<longleftrightarrow> b"
  by (simp add: guard_def)

text \<open>
  What the decoder accepts has the shape it announces: for a buffer that \<open>read_frame\<close> can
  return, the activations of an accepted request are \<open>n_tokens * hidden\<close> long, provided that
  product is below \<open>2^62\<close>, where its byte count does not wrap; the same for an accepted response.
\<close>

lemma decoded_payload_shape:
  assumes "length b \<le> MAX_FRAME"
  shows "(decode_request b = Some q \<longrightarrow> req_n_tokens q * req_hidden q < 2 ^ 62 \<longrightarrow>
            length (req_activations q) = req_n_tokens q * req_hidden q)
       \<and> (decode_response b = Some r \<longrightarrow> rsp_n_tokens r * rsp_hidden r < 2 ^ 62 \<longrightarrow>
            length (rsp_outputs r) = rsp_n_tokens r * rsp_hidden r)"
proof -
  have s0: "sane \<lparr> cbuf = b, cpos = 0 \<rparr>" using assms by (simp add: sane_def)
  have u32: "unat (w :: u32) < 2 ^ 62" for w using unat_lt_pow [of w] by simp
  have "length (req_activations q) = req_n_tokens q * req_hidden q"
    if dec: "decode_request b = Some q" and small: "req_n_tokens q * req_hidden q < 2 ^ 62"
  proof -
    from dec obtain m c1 l c2 nt c3 hid c4 ne c5 nw c6 es c7 ws c8 as c9 where
      "cur_u32 \<lparr> cbuf = b, cpos = 0 \<rparr> = Some (m, c1)" "cur_u32 c1 = Some (l, c2)"
      "cur_u32 c2 = Some (nt, c3)" "cur_u32 c3 = Some (hid, c4)" "cur_u32 c4 = Some (ne, c5)"
      "cur_u32 c5 = Some (nw, c6)" and es: "cur_u32s (unat ne) c6 = Some (es, c7)"
      and ws: "cur_u32s (unat nw) c7 = Some (ws, c8)"
      and as: "cur_u32s (unat nt * unat hid) c8 = Some (as, c9)"
      and q: "req_activations q = as" "req_n_tokens q = unat nt" "req_hidden q = unat hid"
      by (auto simp: decode_request_def cur_list_eq usz_checked_mul_def bind_eq_Some_conv guard_Some
          split: if_splits)
    then have "sane c6" using s0 cur_u32_sane by blast
    then have "sane c8" using cur_u32s_sane(1) es ws u32 by blast
    then show ?thesis using cur_u32s_sane(2) [OF _ as] small by (simp add: q)
  qed
  moreover have "length (rsp_outputs r) = rsp_n_tokens r * rsp_hidden r"
    if dec: "decode_response b = Some r" and small: "rsp_n_tokens r * rsp_hidden r < 2 ^ 62"
  proof -
    from dec obtain m c1 nt c2 hid c3 os c4 where
      "cur_u32 \<lparr> cbuf = b, cpos = 0 \<rparr> = Some (m, c1)" "cur_u32 c1 = Some (nt, c2)"
      "cur_u32 c2 = Some (hid, c3)" and os: "cur_u32s (unat nt * unat hid) c3 = Some (os, c4)"
      and r: "rsp_outputs r = os" "rsp_n_tokens r = unat nt" "rsp_hidden r = unat hid"
      by (auto simp: decode_response_def cur_list_eq usz_checked_mul_def bind_eq_Some_conv guard_Some
          split: if_splits)
    then have "sane c3" using s0 cur_u32_sane by blast
    then show ?thesis using cur_u32s_sane(2) [OF _ os] small by (simp add: r)
  qed
  ultimately show ?thesis by blast
qed

text \<open>
  Outside that bound the check fails: a 24-byte request that announces \<open>2^31\<close> tokens of
  \<open>2^31\<close> elements is accepted with no activations at all, because the product passes
  \<open>checked_mul\<close> and its multiplication by four wraps to zero.
\<close>

lemma decode_request_shape_wraps:
  "decode_request (put_u32 REQ_MAGIC @ put_u32 0 @ put_u32 0x80000000 @ put_u32 0x80000000 @
      put_u32 0 @ put_u32 0)
   = Some \<lparr> req_experts = [], req_weights = [], req_activations = [],
            req_n_tokens = 2 ^ 31, req_hidden = 2 ^ 31, req_layer = 0 \<rparr>"
proof -
  let ?b = "put_u32 REQ_MAGIC @ put_u32 0 @ put_u32 0x80000000 @ put_u32 0x80000000 @
      put_u32 0 @ put_u32 0"
  have last: "cur_u32 (at pre (put_u32 v)) = Some (v, at (pre @ put_u32 v) [])"
    if "fits (pre @ put_u32 v)" for pre v
    using u32_codec.get_put [where pre = pre and v = v and rest = "[]"] that by simp
  have wrap: "cur_u32s n (at pre []) = Some ([], at pre [])"
    if "fits pre" "n * 4 mod 2 ^ 64 = 0" for pre n
    using that by (simp add: cur_u32s_def at_def usz_def fits_def get_range_def)
  show ?thesis
    by (simp add: decode_request_def codec_simps last wrap fits_def usz_checked_mul_def)
qed

end
