(* ===== verification/Transport.thy ===== *)
theory Transport
  imports Wire
begin

text \<open>
  The expert server and the TCP client of \<open>net.rs\<close>, and the transport interface of
  \<open>transport.rs\<close>.

  A connection is the sequence of bytes the other side will send and the outcome of every
  write.  The server's run over its input stream is a trace of the handler calls and writes and
  the error that ends it (the source's loop ends only in an error, end of file included).  The
  handlers are arguments.  A client connection records everything handed to the socket, and a
  closed connection is kept in the state, so that statements about what was ever sent can be made.
  The client's operations hold the pool's lock throughout, so each is one atomic step.
\<close>

section \<open>Server\<close>

datatype event = Wrote byte_string | Called_expert expert_request | Called_attn attn_request

definition frame_magic :: "byte_string \<Rightarrow> u32 option" where
  "frame_magic f = map_option from_le (get_range f 0 4)"

text \<open>
  \<open>serve_loop\<close> is the request loop of \<open>serve_conn\<close>; \<open>wr k\<close> says whether the \<open>k\<close>-th write
  of the connection succeeds.
\<close>

function serve_loop :: "(expert_request \<Rightarrow> expert_response) \<Rightarrow> (attn_request \<Rightarrow> attn_response) \<Rightarrow>
    (nat \<Rightarrow> bool) \<Rightarrow> nat \<Rightarrow> byte_string \<Rightarrow> event list \<times> io_error" where
  "serve_loop expert attn wr k s = (case read_frame s of
     Inl e \<Rightarrow> ([], e)
   | Inr (f, s') \<Rightarrow>
       (let magic = frame_magic f in
        if magic = Some REQ_MAGIC then
          (case decode_request f of
             None \<Rightarrow> ([], Bad_expert_frame)
           | Some req \<Rightarrow>
               if wr k then
                 (case serve_loop expert attn wr (Suc k) s' of
                    (ev, e) \<Rightarrow> (Called_expert req # Wrote (frame (encode_response (expert req))) # ev, e))
               else ([Called_expert req], Write_failed))
        else if magic = Some AREQ_MAGIC then
          (case decode_attn_request f of
             None \<Rightarrow> ([], Bad_attn_frame)
           | Some req \<Rightarrow>
               if wr k then
                 (case serve_loop expert attn wr (Suc k) s' of
                    (ev, e) \<Rightarrow> (Called_attn req # Wrote (frame (encode_attn_response (attn req))) # ev, e))
               else ([Called_attn req], Write_failed))
        else ([], Unknown_magic)))"
  by pat_completeness auto
termination
  by (relation "measure (\<lambda>(_, _, _, _, s). length s)") (auto dest: read_frame_shorter)

declare serve_loop.simps [simp del]

definition serve_conn :: "u64 \<Rightarrow> (expert_request \<Rightarrow> expert_response) \<Rightarrow> (attn_request \<Rightarrow> attn_response) \<Rightarrow>
    (nat \<Rightarrow> bool) \<Rightarrow> byte_string \<Rightarrow> event list \<times> io_error" where
  "serve_conn fp expert attn wr s = (case read_frame s of
     Inl e \<Rightarrow> ([], e)
   | Inr (hello, s') \<Rightarrow> (case decode_hello hello of
       None \<Rightarrow> ([], Bad_first_frame)
     | Some (peer, peer_fp) \<Rightarrow>
         if peer_fp \<noteq> fp then
           ((if wr 0 then [Wrote (frame (encode_hello_ack False fp))] else []), Bad_fingerprint)
         else if \<not> wr 0 then ([], Write_failed)
         else (case serve_loop expert attn wr 1 s' of
                 (ev, e) \<Rightarrow> (Wrote (frame (encode_hello_ack True fp)) # ev, e))))"

text \<open>\<open>serve_experts\<close>: the attention handler answers zeros.\<close>

definition zero_attn :: "attn_request \<Rightarrow> attn_response" where
  "zero_attn req = \<lparr> arsp_outputs = replicate (areq_n_tokens req * areq_hidden req) 0,
     arsp_n_tokens = areq_n_tokens req, arsp_hidden = areq_hidden req \<rparr>"

definition serve_experts_conn :: "u64 \<Rightarrow> (expert_request \<Rightarrow> expert_response) \<Rightarrow>
    (nat \<Rightarrow> bool) \<Rightarrow> byte_string \<Rightarrow> event list \<times> io_error" where
  "serve_experts_conn fp expert wr s = serve_conn fp expert zero_attn wr s"

text \<open>The bytes a run puts on the wire, and its handler calls.\<close>

fun wrote :: "event list \<Rightarrow> byte_string" where
  "wrote [] = []"
| "wrote (Wrote b # ev) = b @ wrote ev"
| "wrote (_ # ev) = wrote ev"

definition is_call :: "event \<Rightarrow> bool" where
  "is_call ev = (case ev of Wrote _ \<Rightarrow> False | _ \<Rightarrow> True)"

section \<open>Client\<close>

datatype transport_error = Not_connected | Rdma_unavailable
  | Fingerprint_mismatch nat u64 u64
  | Transport_io transport_io
and transport_io = No_address node_id | Connect_failed | Stream_error io_error
  | Bad_handshake_ack | Bad_response_frame | Bad_attn_response_frame

record conn =
  script :: byte_string
  inbox :: byte_string
  outbox :: "byte_string list"
  wok :: "nat \<Rightarrow> bool"

type_synonym addr = nat

record tcp_transport =
  tcp_this :: node_id
  tcp_peers :: "(node_id \<times> addr) list"
  tcp_fingerprint :: u64
  tcp_conns :: "(node_id \<times> conn) list"
  tcp_closed :: "(node_id \<times> conn) list"
  tcp_dial :: "nat \<Rightarrow> addr \<Rightarrow> (byte_string \<times> (nat \<Rightarrow> bool)) option"
  tcp_dials :: nat

definition tcp_new :: "node_id \<Rightarrow> (node_id \<times> addr) list \<Rightarrow> u64 \<Rightarrow>
    (nat \<Rightarrow> addr \<Rightarrow> (byte_string \<times> (nat \<Rightarrow> bool)) option) \<Rightarrow> tcp_transport" where
  "tcp_new this peers fp dial = \<lparr> tcp_this = this, tcp_peers = peers, tcp_fingerprint = fp,
     tcp_conns = [], tcp_closed = [], tcp_dial = dial, tcp_dials = 0 \<rparr>"

definition write_frame :: "byte_string \<Rightarrow> conn \<Rightarrow> (io_error + unit) \<times> conn" where
  "write_frame p c = (if wok c (length (outbox c)) then Inr () else Inl Write_failed,
     c\<lparr> outbox := outbox c @ [p] \<rparr>)"

definition recv_frame :: "conn \<Rightarrow> (io_error + byte_string) \<times> conn" where
  "recv_frame c = (case read_frame (inbox c) of
     Inl e \<Rightarrow> (Inl e, c) | Inr (f, s) \<Rightarrow> (Inr f, c\<lparr> inbox := s \<rparr>))"

text \<open>\<open>write_frame(stream, payload).and_then(|_| read_frame(stream))\<close>\<close>

definition send_recv :: "byte_string \<Rightarrow> conn \<Rightarrow> (io_error + byte_string) \<times> conn" where
  "send_recv p c = (case write_frame p c of
     (Inl e, c) \<Rightarrow> (Inl e, c) | (Inr _, c) \<Rightarrow> recv_frame c)"

definition connect_and_hello :: "node_id \<Rightarrow> addr \<Rightarrow> tcp_transport \<Rightarrow>
    (transport_error + conn) \<times> tcp_transport" where
  "connect_and_hello node addr t =
     (let k = tcp_dials t; t = t\<lparr> tcp_dials := Suc k \<rparr> in
      case tcp_dial t k addr of
        None \<Rightarrow> (Inl (Transport_io Connect_failed), t)
      | Some (s, w) \<Rightarrow>
          (case send_recv (encode_hello (tcp_this t) (tcp_fingerprint t))
                 \<lparr> script = s, inbox = s, outbox = [], wok = w \<rparr> of
             (Inl e, c) \<Rightarrow> (Inl (Transport_io (Stream_error e)), t\<lparr> tcp_closed := (node, c) # tcp_closed t \<rparr>)
           | (Inr ack, c) \<Rightarrow> (case decode_hello_ack ack of
               None \<Rightarrow> (Inl (Transport_io Bad_handshake_ack), t\<lparr> tcp_closed := (node, c) # tcp_closed t \<rparr>)
             | Some (ok, peer_fp) \<Rightarrow>
                 if \<not> ok then
                   (Inl (Fingerprint_mismatch (node_num node) (tcp_fingerprint t) peer_fp),
                    t\<lparr> tcp_closed := (node, c) # tcp_closed t \<rparr>)
                 else (Inr c, t))))"

text \<open>The loop of \<open>roundtrip\<close>; \<open>None\<close> is its final \<open>unreachable!()\<close>.\<close>

definition is_mismatch :: "transport_error \<Rightarrow> bool" where
  "is_mismatch e = (case e of Fingerprint_mismatch _ _ _ \<Rightarrow> True | _ \<Rightarrow> False)"

definition ensure_conn :: "node_id \<Rightarrow> addr \<Rightarrow> tcp_transport \<Rightarrow>
    (transport_error + unit) \<times> tcp_transport" where
  "ensure_conn node addr t =
     (if map_of (tcp_conns t) node \<noteq> None then (Inr (), t)
      else case connect_and_hello node addr t of
             (Inl e, t) \<Rightarrow> (Inl e, t)
           | (Inr c, t) \<Rightarrow> (Inr (), t\<lparr> tcp_conns := (node, c) # tcp_conns t \<rparr>))"

definition drop_key :: "node_id \<Rightarrow> (node_id \<times> conn) list \<Rightarrow> (node_id \<times> conn) list" where
  "drop_key node cs = filter (\<lambda>(n, _). n \<noteq> node) cs"

fun attempts :: "nat \<Rightarrow> node_id \<Rightarrow> addr \<Rightarrow> byte_string \<Rightarrow> tcp_transport \<Rightarrow>
    (transport_error + byte_string) option \<times> tcp_transport" where
  "attempts 0 node addr payload t = (None, t)"
| "attempts (Suc left) node addr payload t = (case ensure_conn node addr t of
     (Inl e, t) \<Rightarrow>
       if is_mismatch e then (Some (Inl e), t)
       else if left = 0 then (Some (Inl e), t)
       else attempts left node addr payload t
   | (Inr _, t) \<Rightarrow> (case map_of (tcp_conns t) node of
       None \<Rightarrow> (None, t)
     | Some c \<Rightarrow> (case send_recv payload c of
         (Inr f, c) \<Rightarrow> (Some (Inr f), t\<lparr> tcp_conns := (node, c) # drop_key node (tcp_conns t) \<rparr>)
       | (Inl e, c) \<Rightarrow>
           (let t = t\<lparr> tcp_conns := drop_key node (tcp_conns t), tcp_closed := (node, c) # tcp_closed t \<rparr> in
            if left = 0 then (Some (Inl (Transport_io (Stream_error e))), t)
            else attempts left node addr payload t))))"

definition roundtrip :: "node_id \<Rightarrow> byte_string \<Rightarrow> tcp_transport \<Rightarrow>
    (transport_error + byte_string) option \<times> tcp_transport" where
  "roundtrip node payload t = (case map_of (tcp_peers t) node of
     None \<Rightarrow> (Some (Inl (Transport_io (No_address node))), t)
   | Some addr \<Rightarrow> attempts 2 node addr payload t)"

definition exchange :: "node_id \<Rightarrow> expert_request \<Rightarrow> tcp_transport \<Rightarrow>
    (transport_error + expert_response) option \<times> tcp_transport" where
  "exchange node req t = (case roundtrip node (encode_request req) t of
     (None, t) \<Rightarrow> (None, t)
   | (Some (Inl e), t) \<Rightarrow> (Some (Inl e), t)
   | (Some (Inr f), t) \<Rightarrow> (Some (case decode_response f of
        None \<Rightarrow> Inl (Transport_io Bad_response_frame) | Some r \<Rightarrow> Inr r), t))"

definition exchange_attn :: "node_id \<Rightarrow> attn_request \<Rightarrow> tcp_transport \<Rightarrow>
    (transport_error + attn_response) option \<times> tcp_transport" where
  "exchange_attn node req t = (case roundtrip node (encode_attn_request req) t of
     (None, t) \<Rightarrow> (None, t)
   | (Some (Inl e), t) \<Rightarrow> (Some (Inl e), t)
   | (Some (Inr f), t) \<Rightarrow> (Some (case decode_attn_response f of
        None \<Rightarrow> Inl (Transport_io Bad_attn_response_frame) | Some r \<Rightarrow> Inr r), t))"

fun verify_each :: "(node_id \<times> addr) list \<Rightarrow> tcp_transport \<Rightarrow> (transport_error + unit) \<times> tcp_transport" where
  "verify_each [] t = (Inr (), t)"
| "verify_each ((node, addr) # ts) t = (case ensure_conn node addr t of
     (Inl e, t) \<Rightarrow> (Inl e, t) | (Inr _, t) \<Rightarrow> verify_each ts t)"

definition verify_peers :: "tcp_transport \<Rightarrow> (transport_error + unit) \<times> tcp_transport" where
  "verify_peers t = verify_each (sort_key (\<lambda>(n, _). node_num n) (tcp_peers t)) t"

definition tcp_is_local :: "tcp_transport \<Rightarrow> node_id \<Rightarrow> bool" where
  "tcp_is_local t node = (node = tcp_this t)"

definition tcp_this_node :: "tcp_transport \<Rightarrow> node_id" where
  "tcp_this_node t = tcp_this t"

section \<open>Single-node transport\<close>

datatype local_transport = LocalTransport

definition local_is_local :: "local_transport \<Rightarrow> node_id \<Rightarrow> bool" where
  "local_is_local t node = (node = NodeId 0)"

definition local_this_node :: "local_transport \<Rightarrow> node_id" where
  "local_this_node t = NodeId 0"

definition local_exchange :: "local_transport \<Rightarrow> node_id \<Rightarrow> expert_request \<Rightarrow>
    transport_error + expert_response" where
  "local_exchange t node req = Inl Not_connected"

definition default_exchange_attn :: "node_id \<Rightarrow> attn_request \<Rightarrow> transport_error + attn_response" where
  "default_exchange_attn node req = Inl Not_connected"

definition default_verify_peers :: "transport_error + unit" where
  "default_verify_peers = Inr ()"

text \<open>The placeholder for the RDMA build.\<close>

definition rdma_connect :: "node_id \<Rightarrow> transport_error + unit" where
  "rdma_connect this = Inl Rdma_unavailable"

definition rdma_exchange :: "node_id \<Rightarrow> expert_request \<Rightarrow> transport_error + expert_response" where
  "rdma_exchange node req = Inl Rdma_unavailable"

section \<open>The transport interface\<close>

text \<open>
  What the engine relies on before it routes an expert: exactly one node is local.  With a
  well-formed sharding map every expert is then computed in process by exactly one of the nodes.
\<close>

locale transport =
  fixes is_local :: "'t \<Rightarrow> node_id \<Rightarrow> bool" and this_node :: "'t \<Rightarrow> node_id"
  assumes is_local_iff: "is_local t n \<longleftrightarrow> n = this_node t"
begin

lemma local_unique: "is_local t n \<Longrightarrow> is_local t m \<Longrightarrow> n = m"
  by (simp add: is_local_iff)

lemma one_node_computes:
  assumes "wf_sharding sh" and "e < n_experts sh"
    and "\<And>i. i < num_nodes sh \<Longrightarrow> this_node (ts i) = NodeId i"
  shows "\<exists>!i. i < num_nodes sh \<and> (\<exists>n. Sharding.owner sh e = Some n \<and> is_local (ts i) n)"
proof -
  obtain k where k: "Sharding.owner sh e = Some (NodeId k)" "k < num_nodes sh"
    using shards.unique_owner [OF assms(1,2)] by blast
  then show ?thesis using assms(3) by (auto simp: is_local_iff)
qed

end

interpretation tcp: transport tcp_is_local tcp_this_node
  by unfold_locales (simp add: tcp_is_local_def tcp_this_node_def)

interpretation single: transport local_is_local local_this_node
  by unfold_locales (simp add: local_is_local_def local_this_node_def)

section \<open>Server lemmas\<close>

datatype request = Expert_req expert_request | Attn_req attn_request

fun payload_of :: "request \<Rightarrow> byte_string" where
  "payload_of (Expert_req q) = encode_request q"
| "payload_of (Attn_req q) = encode_attn_request q"

fun wf_req :: "request \<Rightarrow> bool" where
  "wf_req (Expert_req q) = (wf_request q \<and> length (encode_request q) \<le> MAX_FRAME)"
| "wf_req (Attn_req q) = (wf_attn_request q \<and> length (encode_attn_request q) \<le> MAX_FRAME)"

fun answer :: "(expert_request \<Rightarrow> expert_response) \<Rightarrow> (attn_request \<Rightarrow> attn_response) \<Rightarrow> request \<Rightarrow> event list" where
  "answer expert attn (Expert_req q) = [Called_expert q, Wrote (frame (encode_response (expert q)))]"
| "answer expert attn (Attn_req q) = [Called_attn q, Wrote (frame (encode_attn_response (attn q)))]"

lemma magic_prefix: "frame_magic (put_u32 m @ rest) = Some m"
  using get_range_at [of "[]" "put_u32 m" rest]
  by (simp add: frame_magic_def put_u32_def from_to_le_full)

lemma magic_of:
  "frame_magic (encode_request q) = Some REQ_MAGIC"
  "frame_magic (encode_attn_request aq) = Some AREQ_MAGIC"
  by (simp_all only: encode_request_def encode_attn_request_def magic_prefix)

lemma magics_differ: "AREQ_MAGIC \<noteq> REQ_MAGIC"
  by (simp add: AREQ_MAGIC_def REQ_MAGIC_def)

lemma serve_loop_answer:
  assumes "wf_req q" and "wr k"
  shows "serve_loop expert attn wr k (frame (payload_of q) @ s)
     = (case serve_loop expert attn wr (Suc k) s of (ev, e) \<Rightarrow> (answer expert attn q @ ev, e))"
proof (cases q)
  case (Expert_req r)
  then show ?thesis using assms
    by (subst serve_loop.simps)
       (simp add: read_frame_frame magic_of request_codec Let_def split: prod.splits)
next
  case (Attn_req r)
  then show ?thesis using assms
    by (subst serve_loop.simps)
       (simp add: read_frame_frame magic_of magics_differ attn_request_codec Let_def split: prod.splits)
qed

lemma serve_loop_eof: "serve_loop expert attn wr k [] = ([], Unexpected_eof)"
  by (subst serve_loop.simps) (simp add: read_frame_def read_exact_def)

lemma serve_loop_answers:
  assumes "\<forall>q \<in> set qs. wf_req q" and "\<forall>k. wr k"
  shows "serve_loop expert attn wr k (concat (map (frame \<circ> payload_of) qs))
     = (concat (map (answer expert attn) qs), Unexpected_eof)"
  using assms by (induction qs arbitrary: k) (simp_all add: serve_loop_eof serve_loop_answer)

lemma length_hello_le: "length (encode_hello n fp) \<le> MAX_FRAME" "length (encode_hello_ack ok fp) \<le> MAX_FRAME"
  by (simp_all add: encode_hello_def encode_hello_ack_def MAX_FRAME_def)

section \<open>Client lemmas\<close>

definition accepted :: "byte_string \<Rightarrow> bool" where
  "accepted s \<longleftrightarrow> (case read_frame s of Inl _ \<Rightarrow> False
     | Inr (f, _) \<Rightarrow> (case decode_hello_ack f of Some (ok, _) \<Rightarrow> ok | None \<Rightarrow> False))"

text \<open>A connection is opened by our hello, and carries more only when its peer accepted it.\<close>

definition greeted :: "byte_string \<Rightarrow> conn \<Rightarrow> bool" where
  "greeted hello c \<longleftrightarrow> outbox c \<noteq> [] \<and> hd (outbox c) = hello \<and> (tl (outbox c) \<noteq> [] \<longrightarrow> accepted (script c))"

definition my_hello :: "tcp_transport \<Rightarrow> byte_string" where
  "my_hello t = encode_hello (tcp_this t) (tcp_fingerprint t)"

definition tcp_inv :: "tcp_transport \<Rightarrow> bool" where
  "tcp_inv t \<longleftrightarrow> (\<forall>(n, c) \<in> set (tcp_conns t). greeted (my_hello t) c \<and> accepted (script c))
     \<and> (\<forall>(n, c) \<in> set (tcp_closed t). greeted (my_hello t) c)"

definition same_ends :: "tcp_transport \<Rightarrow> tcp_transport \<Rightarrow> bool" where
  "same_ends t t' \<longleftrightarrow> tcp_this t' = tcp_this t \<and> tcp_fingerprint t' = tcp_fingerprint t
     \<and> tcp_peers t' = tcp_peers t \<and> tcp_dial t' = tcp_dial t"

lemma same_ends_refl [simp]: "same_ends t t"
  by (simp add: same_ends_def)

lemma same_ends_trans: "same_ends a b \<Longrightarrow> same_ends b c \<Longrightarrow> same_ends a c"
  by (simp add: same_ends_def)

lemma same_ends_hello: "same_ends t t' \<Longrightarrow> my_hello t' = my_hello t"
  by (simp add: same_ends_def my_hello_def)

lemma send_recv_conn:
  assumes "send_recv p c = (r, c')"
  shows "script c' = script c" and "outbox c' = outbox c @ [p]"
  using assms by (auto simp: send_recv_def write_frame_def recv_frame_def split: if_splits sum.splits)

lemma tcp_inv_dials: "tcp_inv t \<Longrightarrow> tcp_inv (t\<lparr> tcp_dials := k \<rparr>)"
  by (simp add: tcp_inv_def my_hello_def)

lemma tcp_inv_closed:
  "tcp_inv t \<Longrightarrow> greeted (my_hello t) c \<Longrightarrow> tcp_inv (t\<lparr> tcp_closed := (n, c) # tcp_closed t \<rparr>)"
  by (simp add: tcp_inv_def my_hello_def)

lemma connect_inv:
  assumes "connect_and_hello node addr t = (r, t')" and "tcp_inv t"
  shows "tcp_inv t'" and "same_ends t t'" and "tcp_conns t' = tcp_conns t" and "tcp_dials t' = Suc (tcp_dials t)"
    and "\<And>c. r = Inr c \<Longrightarrow> greeted (my_hello t) c \<and> accepted (script c)"
proof -
  consider (no) "tcp_dial t (tcp_dials t) addr = None"
    | (yes) s w where "tcp_dial t (tcp_dials t) addr = Some (s, w)" by force
  then have "tcp_inv t' \<and> same_ends t t' \<and> tcp_conns t' = tcp_conns t \<and> tcp_dials t' = Suc (tcp_dials t)
     \<and> (\<forall>c. r = Inr c \<longrightarrow> greeted (my_hello t) c \<and> accepted (script c))"
  proof cases
    case no
    with assms show ?thesis
      by (auto simp: connect_and_hello_def tcp_inv_def same_ends_def my_hello_def)
  next
    case yes
    let ?c0 = "\<lparr> script = s, inbox = s, outbox = [], wok = w \<rparr>"
    obtain a c where ac: "send_recv (my_hello t) ?c0 = (a, c)" by force
    from send_recv_conn [OF ac] have c: "script c = s" "outbox c = [my_hello t]" by simp_all
    have acc: "accepted s" if "a = Inr f" "decode_hello_ack f = Some (True, fp)" for f fp
      using ac that by (auto simp: send_recv_def write_frame_def recv_frame_def accepted_def
          split: if_splits sum.splits)
    have ac': "send_recv (encode_hello (tcp_this t) (tcp_fingerprint t)) ?c0 = (a, c)"
      using ac by (simp add: my_hello_def)
    let ?t0 = "t\<lparr> tcp_dials := Suc (tcp_dials t) \<rparr>"
    let ?t1 = "?t0\<lparr> tcp_closed := (node, c) # tcp_closed ?t0 \<rparr>"
    have g: "greeted (my_hello t) c" using c by (simp add: greeted_def)
    have t0: "tcp_inv ?t0" using assms(2) by (rule tcp_inv_dials)
    then have t1: "tcp_inv ?t1" by (rule tcp_inv_closed) (use g in \<open>simp add: my_hello_def\<close>)
    have "r = Inr c \<and> t' = ?t0 \<and> accepted s \<or> (\<exists>e. r = Inl e \<and> t' = ?t1)"
      using assms(1) yes
      by (auto simp: connect_and_hello_def Let_def ac' acc split: sum.splits option.splits if_splits)
    then show ?thesis
    proof
      assume *: "r = Inr c \<and> t' = ?t0 \<and> accepted s"
      then show ?thesis using t0 g c(1) by (simp add: same_ends_def)
    next
      assume *: "\<exists>e. r = Inl e \<and> t' = ?t1"
      then show ?thesis using t1 by (auto simp: same_ends_def)
    qed
  qed
  then show "tcp_inv t'" and "same_ends t t'" and "tcp_conns t' = tcp_conns t" and "tcp_dials t' = Suc (tcp_dials t)"
    and "\<And>c. r = Inr c \<Longrightarrow> greeted (my_hello t) c \<and> accepted (script c)"
    by simp_all
qed

lemma ensure_inv:
  assumes "ensure_conn node addr t = (r, t')" and "tcp_inv t"
  shows "tcp_inv t' \<and> same_ends t t' \<and> tcp_dials t' \<le> Suc (tcp_dials t)
     \<and> (r = Inr () \<longrightarrow> map_of (tcp_conns t') node \<noteq> None)"
proof (cases "map_of (tcp_conns t) node")
  case (Some c)
  with assms show ?thesis by (simp add: ensure_conn_def)
next
  case None
  obtain x t1 where x: "connect_and_hello node addr t = (x, t1)" by force
  note c = connect_inv [OF x assms(2)]
  show ?thesis
  proof (cases x)
    case (Inl e)
    with assms(1) None x c show ?thesis by (auto simp: ensure_conn_def)
  next
    case (Inr cn)
    with assms(1) None x have t': "t' = t1\<lparr> tcp_conns := (node, cn) # tcp_conns t1 \<rparr>"
      by (simp add: ensure_conn_def)
    then have "tcp_inv t'" using c(1) c(5) [OF Inr] same_ends_hello [OF c(2)]
      by (simp add: tcp_inv_def my_hello_def)
    then show ?thesis using t' c(2,4) by (simp add: same_ends_def)
  qed
qed

lemma tcp_inv_sent:
  assumes "tcp_inv t" and "map_of (tcp_conns t) node = Some c" and "send_recv p c = (r, c')"
  shows "tcp_inv (t\<lparr> tcp_conns := (node, c') # drop_key node (tcp_conns t) \<rparr>)"
    and "tcp_inv (t\<lparr> tcp_conns := drop_key node (tcp_conns t), tcp_closed := (node, c') # tcp_closed t \<rparr>)"
proof -
  have "(node, c) \<in> set (tcp_conns t)" using assms(2) by (rule map_of_SomeD)
  then have "greeted (my_hello t) c" "accepted (script c)" using assms(1) by (auto simp: tcp_inv_def)
  then have "greeted (my_hello t) c'" "accepted (script c')"
    using send_recv_conn [OF assms(3)] by (simp_all add: greeted_def)
  then show "tcp_inv (t\<lparr> tcp_conns := (node, c') # drop_key node (tcp_conns t) \<rparr>)"
    and "tcp_inv (t\<lparr> tcp_conns := drop_key node (tcp_conns t), tcp_closed := (node, c') # tcp_closed t \<rparr>)"
    using assms(1) by (auto simp: tcp_inv_def my_hello_def drop_key_def)
qed

lemma attempts_inv:
  assumes "attempts n node addr p t = (r, t')" and "tcp_inv t"
  shows "tcp_inv t' \<and> same_ends t t' \<and> tcp_dials t' \<le> tcp_dials t + n \<and> (0 < n \<longrightarrow> r \<noteq> None)"
  using assms
proof (induction n arbitrary: t)
  case (Suc n)
  obtain x t1 where x: "ensure_conn node addr t = (x, t1)" by force
  note e = ensure_inv [OF x Suc.prems(2)]
  have step: ?case if "attempts n node addr p t2 = (r, t')" "tcp_inv t2" "same_ends t t2"
      "tcp_dials t2 \<le> Suc (tcp_dials t)" "n \<noteq> 0" for t2
    using Suc.IH [OF that(1,2)] that(3,4,5) same_ends_trans [OF that(3)] by auto
  show ?case
  proof (cases x)
    case (Inl err)
    show ?thesis
    proof (cases "is_mismatch err \<or> n = 0")
      case True
      with Suc.prems(1) x Inl e show ?thesis by (auto split: if_splits)
    next
      case False
      with Suc.prems(1) x Inl have "attempts n node addr p t1 = (r, t')" by simp
      then show ?thesis by (rule step) (use e False in auto)
    qed
  next
    case (Inr u)
    with e obtain c where c: "map_of (tcp_conns t1) node = Some c" by force
    obtain y c' where y: "send_recv p c = (y, c')" by force
    note inv = tcp_inv_sent [OF conjunct1 [OF e] c y]
    show ?thesis
    proof (cases y)
      case (Inr f)
      with Suc.prems(1) x \<open>x = Inr u\<close> c y
      have "t' = t1\<lparr> tcp_conns := (node, c') # drop_key node (tcp_conns t1) \<rparr> \<and> r = Some (Inr f)" by auto
      then show ?thesis using inv(1) e by (simp add: same_ends_def)
    next
      case (Inl err)
      let ?t2 = "t1\<lparr> tcp_conns := drop_key node (tcp_conns t1), tcp_closed := (node, c') # tcp_closed t1 \<rparr>"
      have ends: "same_ends t ?t2" "tcp_dials ?t2 \<le> Suc (tcp_dials t)"
        using e by (simp_all add: same_ends_def)
      show ?thesis
      proof (cases "n = 0")
        case True
        with Suc.prems(1) x \<open>x = Inr u\<close> c y Inl have "t' = ?t2" "r \<noteq> None" by auto
        then show ?thesis using inv(2) ends by simp
      next
        case False
        with Suc.prems(1) x \<open>x = Inr u\<close> c y Inl have "attempts n node addr p ?t2 = (r, t')" by simp
        then show ?thesis using inv(2) ends False by (rule step)
      qed
    qed
  qed
qed simp

lemma roundtrip_inv:
  assumes "roundtrip node p t = (r, t')" and "tcp_inv t"
  shows "tcp_inv t' \<and> same_ends t t' \<and> tcp_dials t' \<le> tcp_dials t + 2 \<and> r \<noteq> None"
  using assms attempts_inv [of 2 node _ p t r t'] by (auto simp: roundtrip_def split: option.splits)

lemma verify_each_inv:
  assumes "verify_each ts t = (r, t')" and "tcp_inv t"
  shows "tcp_inv t' \<and> same_ends t t'"
  using assms
proof (induction ts arbitrary: t)
  case (Cons na ts)
  obtain n a where na: "na = (n, a)" by force
  obtain x t1 where x: "ensure_conn n a t = (x, t1)" by force
  from ensure_inv [OF x Cons.prems(2)] Cons.IH [of t1] Cons.prems(1) same_ends_trans [of t t1 t']
  show ?case by (cases x) (auto simp: na x)
qed simp

section \<open>Runs of a client\<close>

inductive client_run :: "tcp_transport \<Rightarrow> tcp_transport \<Rightarrow> bool" where
  start: "client_run t t"
| expert: "client_run t t1 \<Longrightarrow> exchange node req t1 = (r, t2) \<Longrightarrow> client_run t t2"
| attention: "client_run t t1 \<Longrightarrow> exchange_attn node areq t1 = (ar, t2) \<Longrightarrow> client_run t t2"
| verify: "client_run t t1 \<Longrightarrow> verify_peers t1 = (v, t2) \<Longrightarrow> client_run t t2"

lemma exchange_state: "exchange node req t = (r, t') \<Longrightarrow> \<exists>x. roundtrip node (encode_request req) t = (x, t')"
  by (auto simp: exchange_def split: prod.splits option.splits sum.splits)

lemma exchange_attn_state:
  "exchange_attn node req t = (r, t') \<Longrightarrow> \<exists>x. roundtrip node (encode_attn_request req) t = (x, t')"
  by (auto simp: exchange_attn_def split: prod.splits option.splits sum.splits)

lemma client_run_inv: "client_run t t' \<Longrightarrow> tcp_inv t \<Longrightarrow> tcp_inv t' \<and> same_ends t t'"
proof (induction rule: client_run.induct)
  case (expert t t1 node req r t2)
  then show ?case using exchange_state roundtrip_inv same_ends_trans by metis
next
  case (attention t t1 node areq ar t2)
  then show ?case using exchange_attn_state roundtrip_inv same_ends_trans by metis
next
  case (verify t t1 v t2)
  then show ?case using verify_each_inv same_ends_trans unfolding verify_peers_def by metis
qed simp

lemma tcp_inv_new: "tcp_inv (tcp_new this peers fp dial)"
  by (simp add: tcp_inv_def tcp_new_def)

lemma server_run:
  assumes "node < 2 ^ 32" and "\<forall>q \<in> set qs. wf_req q" and "\<forall>k. wr k"
  shows "serve_conn fp expert attn wr
       (frame (encode_hello (NodeId node) fp) @ concat (map (frame \<circ> payload_of) qs))
     = (Wrote (frame (encode_hello_ack True fp)) # concat (map (answer expert attn) qs), Unexpected_eof)"
  using assms
  by (simp add: serve_conn_def read_frame_frame length_hello_le hello_codec serve_loop_answers)

section \<open>Properties\<close>

text \<open>
  C13: The server never calls a handler on a connection whose first frame is not a hello with
  its own fingerprint; a hello with another fingerprint is answered by a refusal that carries
  the server's fingerprint, and nothing else is written.
\<close>

theorem server_refuses_mismatch:
  assumes "serve_conn fp expert attn wr s = (ev, e)"
  shows "((\<exists>x \<in> set ev. is_call x) \<longrightarrow>
           (\<exists>hello s' peer. read_frame s = Inr (hello, s') \<and> decode_hello hello = Some (peer, fp)))
     \<and> (\<forall>hello s' peer peer_fp. read_frame s = Inr (hello, s') \<and> decode_hello hello = Some (peer, peer_fp)
           \<and> peer_fp \<noteq> fp \<longrightarrow>
           e = Bad_fingerprint \<and> set ev \<subseteq> {Wrote (frame (encode_hello_ack False fp))})"
  using assms by (auto simp: serve_conn_def is_call_def split: sum.splits option.splits prod.splits if_splits)

theorem server_refuses_mismatch_witness:
  "set (fst (serve_conn 5 (\<lambda>_. \<lparr> rsp_outputs = [], rsp_n_tokens = 0, rsp_hidden = 0 \<rparr>) zero_attn (\<lambda>_. True)
      (frame (encode_hello (NodeId 2) 6) @ frame (encode_request
         \<lparr> req_experts = [1], req_weights = [2], req_activations = [], req_n_tokens = 0,
           req_hidden = 0, req_layer = 3 \<rparr>))))
   \<subseteq> {Wrote (frame (encode_hello_ack False 5))}"
proof -
  let ?s = "frame (encode_hello (NodeId 2) 6) @ frame (encode_request
         \<lparr> req_experts = [1], req_weights = [2], req_activations = [], req_n_tokens = 0,
           req_hidden = 0, req_layer = 3 \<rparr>)"
  let ?ex = "\<lambda>_. \<lparr> rsp_outputs = [], rsp_n_tokens = 0, rsp_hidden = 0 \<rparr>"
  obtain ev e where run: "serve_conn 5 ?ex zero_attn (\<lambda>_. True) ?s = (ev, e)" by force
  show ?thesis
    using server_refuses_mismatch [OF run] by (simp add: run read_frame_frame length_hello_le hello_codec)
qed

text \<open>
  C14: A client that greets with the right fingerprint is served: the server accepts it and
  then calls the right handler on every request, in order, each call followed by the frame of
  its response, until the stream ends.
\<close>

theorem server_answers_in_order:
  assumes "node < 2 ^ 32" and "\<forall>q \<in> set qs. wf_req q" and "\<forall>k. wr k"
  shows "serve_conn fp expert attn wr
       (frame (encode_hello (NodeId node) fp) @ concat (map (frame \<circ> payload_of) qs))
     = (Wrote (frame (encode_hello_ack True fp)) # concat (map (answer expert attn) qs), Unexpected_eof)"
  using assms by (rule server_run)

theorem server_answers_in_order_witness:
  "serve_conn 5 (\<lambda>_. \<lparr> rsp_outputs = [9], rsp_n_tokens = 1, rsp_hidden = 1 \<rparr>) zero_attn (\<lambda>_. True)
      (frame (encode_hello (NodeId 1) 5) @ frame (encode_request
         \<lparr> req_experts = [1], req_weights = [2], req_activations = [7], req_n_tokens = 1,
           req_hidden = 1, req_layer = 3 \<rparr>))
   = ([Wrote (frame (encode_hello_ack True 5)),
       Called_expert \<lparr> req_experts = [1], req_weights = [2], req_activations = [7], req_n_tokens = 1,
           req_hidden = 1, req_layer = 3 \<rparr>,
       Wrote (frame (encode_response \<lparr> rsp_outputs = [9], rsp_n_tokens = 1, rsp_hidden = 1 \<rparr>))],
      Unexpected_eof)"
  using server_answers_in_order [of 1
      "[Expert_req \<lparr> req_experts = [1], req_weights = [2], req_activations = [7], req_n_tokens = 1,
           req_hidden = 1, req_layer = 3 \<rparr>]" "\<lambda>_. True" 5
      "\<lambda>_. \<lparr> rsp_outputs = [9], rsp_n_tokens = 1, rsp_hidden = 1 \<rparr>" zero_attn]
  by (simp add: wf_request_def fits_def encode_request_def MAX_FRAME_def)

text \<open>
  C12: Over any run of exchanges and verifications of a new transport, and whatever the peers
  send: every connection ever opened starts with the hello of this node and this fingerprint, a
  request is handed only to a connection whose peer has accepted that hello, and every pooled
  connection is such a one.
\<close>

theorem client_sends_only_after_accept:
  assumes "client_run (tcp_new this peers fp dial) t"
  shows "(\<forall>(n, c) \<in> set (tcp_conns t) \<union> set (tcp_closed t).
            hd (outbox c) = encode_hello this fp \<and> (1 < length (outbox c) \<longrightarrow> accepted (script c)))
       \<and> (\<forall>(n, c) \<in> set (tcp_conns t). accepted (script c))"
proof -
  have inv: "tcp_inv t" and "same_ends (tcp_new this peers fp dial) t"
    using client_run_inv [OF assms tcp_inv_new] by simp_all
  then have "my_hello t = encode_hello this fp" by (simp add: same_ends_def my_hello_def tcp_new_def)
  moreover have "tl xs \<noteq> []" if "1 < length xs" for xs :: "byte_string list"
    using that by (cases xs) auto
  ultimately show ?thesis using inv by (fastforce simp: tcp_inv_def greeted_def)
qed

theorem client_sends_only_after_accept_witness:
  "list_all (\<lambda>(n, c). accepted (script c)) (tcp_conns (snd (verify_peers (tcp_new (NodeId 0) [(NodeId 1, 7)] 5
       (\<lambda>_ _. Some (frame (encode_hello_ack True 5), \<lambda>_. True))))))"
proof -
  let ?t = "tcp_new (NodeId 0) [(NodeId 1, 7)] 5 (\<lambda>_ _. Some (frame (encode_hello_ack True 5), \<lambda>_. True))"
  have "client_run ?t (snd (verify_peers ?t))"
    by (rule client_run.verify [OF client_run.start]) (rule prod.collapse [symmetric])
  from client_sends_only_after_accept [OF this] show ?thesis unfolding list_all_iff by blast
qed

text \<open>
  A round trip dials at most twice and always ends in a result: the \<open>unreachable!()\<close> after
  the two attempts is unreachable.
\<close>

lemma roundtrip_two_attempts:
  assumes "client_run (tcp_new this peers fp dial) t"
  shows "fst (roundtrip node payload t) \<noteq> None
     \<and> tcp_dials (snd (roundtrip node payload t)) \<le> tcp_dials t + 2"
proof -
  have "tcp_inv t" using client_run_inv [OF assms tcp_inv_new] by simp
  then show ?thesis using roundtrip_inv [OF prod.collapse [symmetric]] by blast
qed

lemma wrote_append: "wrote (xs @ ys) = wrote xs @ wrote ys"
  by (induction xs rule: wrote.induct) simp_all

lemma read_frame_only: "length p \<le> MAX_FRAME \<Longrightarrow> read_frame (frame p) = Inr (p, [])"
  using read_frame_frame [of p "[]"] by simp

lemma fresh_roundtrip:
  assumes "map_of (tcp_peers t) node = Some addr" and "tcp_conns t = []"
    and "tcp_dial t (tcp_dials t) addr = Some (frame (encode_hello_ack True fp') @ frame p, \<lambda>_. True)"
    and "length p \<le> MAX_FRAME"
  shows "roundtrip node payload t = (Some (Inr p), t\<lparr> tcp_dials := Suc (tcp_dials t),
     tcp_conns := [(node, \<lparr> script = frame (encode_hello_ack True fp') @ frame p, inbox = [],
       outbox = [my_hello t, payload], wok = \<lambda>_. True \<rparr>)] \<rparr>)"
  using assms
  by (simp add: roundtrip_def numeral_2_eq_2 ensure_conn_def connect_and_hello_def Let_def send_recv_def
      write_frame_def recv_frame_def read_frame_frame read_frame_only length_hello_le hello_ack_codec
      drop_key_def my_hello_def)

lemma refused_roundtrip:
  assumes "map_of (tcp_peers t) node = Some addr" and "tcp_conns t = []"
    and "tcp_dial t (tcp_dials t) addr = Some (frame (encode_hello_ack False fp') @ rest, \<lambda>_. True)"
  shows "roundtrip node payload t = (Some (Inl (Fingerprint_mismatch (node_num node) (tcp_fingerprint t) fp')),
     t\<lparr> tcp_dials := Suc (tcp_dials t),
       tcp_closed := (node, \<lparr> script = frame (encode_hello_ack False fp') @ rest, inbox = rest,
         outbox = [my_hello t], wok = \<lambda>_. True \<rparr>) # tcp_closed t \<rparr>)"
  using assms
  by (simp add: roundtrip_def numeral_2_eq_2 ensure_conn_def connect_and_hello_def Let_def send_recv_def
      write_frame_def recv_frame_def read_frame_frame length_hello_le hello_ack_codec is_mismatch_def
      my_hello_def)

text \<open>
  C11: Client and server composed: a new client whose first connection reaches a server gets
  the server's own answer to its request when the fingerprints agree, and the mismatch error with
  both fingerprints, after a single dial and with nothing sent but the hello, when they differ.
  The server's run is on exactly the frames the client hands to the socket.
\<close>

theorem exchange_end_to_end:
  assumes "i < 2 ^ 32" and "map_of peers node = Some addr" and "wf_req (Expert_req q)"
    and "wf_response (expert q)" and "length (encode_response (expert q)) \<le> MAX_FRAME"
    and "sent = [encode_hello (NodeId i) fp, encode_request q]"
    and "dial 0 addr = Some (wrote (fst (serve_conn fp' expert attn (\<lambda>_. True) (concat (map frame sent)))),
           \<lambda>_. True)"
    and "exchange node q (tcp_new (NodeId i) peers fp dial) = (r, t)"
  shows "(fp = fp' \<longrightarrow> r = Some (Inr (expert q)) \<and> map (outbox \<circ> snd) (tcp_conns t) = [sent])
     \<and> (fp \<noteq> fp' \<longrightarrow> r = Some (Inl (Fingerprint_mismatch (node_num node) fp fp')) \<and> tcp_dials t = 1
          \<and> tcp_conns t = [] \<and> map (outbox \<circ> snd) (tcp_closed t) = [[encode_hello (NodeId i) fp]])"
proof (cases "fp = fp'")
  case True
  have "serve_conn fp' expert attn (\<lambda>_. True) (concat (map frame sent))
      = (Wrote (frame (encode_hello_ack True fp)) # answer expert attn (Expert_req q), Unexpected_eof)"
    using server_run [of i "[Expert_req q]"] assms(1,3,6) True by simp
  with assms(7) have dial: "dial 0 addr = Some (frame (encode_hello_ack True fp)
      @ frame (encode_response (expert q)), \<lambda>_. True)" by simp
  have "roundtrip node (encode_request q) (tcp_new (NodeId i) peers fp dial)
     = (Some (Inr (encode_response (expert q))), (tcp_new (NodeId i) peers fp dial)\<lparr> tcp_dials := 1,
     tcp_conns := [(node, \<lparr> script = frame (encode_hello_ack True fp) @ frame (encode_response (expert q)),
       inbox = [], outbox = sent, wok = \<lambda>_. True \<rparr>)] \<rparr>)"
    using fresh_roundtrip [of "tcp_new (NodeId i) peers fp dial" node addr fp "encode_response (expert q)"]
      assms(2,5) dial assms(6) by (simp add: tcp_new_def my_hello_def)
  then show ?thesis using True assms(4,8)
    by (auto simp: exchange_def response_codec)
next
  case False
  have "serve_conn fp' expert attn (\<lambda>_. True) (concat (map frame sent))
      = ([Wrote (frame (encode_hello_ack False fp'))], Bad_fingerprint)"
    using assms(1,6) False by (simp add: serve_conn_def read_frame_frame length_hello_le hello_codec)
  with assms(7) have dial: "dial 0 addr = Some (frame (encode_hello_ack False fp') @ [], \<lambda>_. True)" by simp
  show ?thesis
    using False assms(8) refused_roundtrip [of "tcp_new (NodeId i) peers fp dial" node addr fp' "[]"]
      assms(2) dial
    by (auto simp: exchange_def tcp_new_def my_hello_def)
qed

theorem exchange_end_to_end_witness:
  "fst (exchange (NodeId 1) \<lparr> req_experts = [1], req_weights = [2], req_activations = [7],
       req_n_tokens = 1, req_hidden = 1, req_layer = 3 \<rparr>
     (tcp_new (NodeId 0) [(NodeId 1, 7)] 5 (\<lambda>_ _. Some (wrote (fst (serve_conn 5
        (\<lambda>_. \<lparr> rsp_outputs = [9], rsp_n_tokens = 1, rsp_hidden = 1 \<rparr>) zero_attn (\<lambda>_. True)
        (concat (map frame [encode_hello (NodeId 0) 5, encode_request \<lparr> req_experts = [1],
           req_weights = [2], req_activations = [7], req_n_tokens = 1, req_hidden = 1, req_layer = 3 \<rparr>])))),
        \<lambda>_. True))))
   = Some (Inr \<lparr> rsp_outputs = [9], rsp_n_tokens = 1, rsp_hidden = 1 \<rparr>)"
proof -
  let ?q = "\<lparr> req_experts = [1], req_weights = [2], req_activations = [7],
       req_n_tokens = 1, req_hidden = 1, req_layer = 3 \<rparr>"
  let ?ex = "\<lambda>_. \<lparr> rsp_outputs = [9], rsp_n_tokens = 1, rsp_hidden = 1 \<rparr>"
  let ?sent = "[encode_hello (NodeId 0) 5, encode_request ?q]"
  let ?s = "Some (wrote (fst (serve_conn 5 ?ex zero_attn (\<lambda>_. True) (concat (map frame ?sent)))), \<lambda>_ :: nat. True)"
  have "wf_req (Expert_req ?q)"
    by (simp add: wf_request_def fits_def encode_request_def MAX_FRAME_def)
  moreover have "wf_response (?ex ?q)" "length (encode_response (?ex ?q)) \<le> MAX_FRAME"
    by (simp_all add: wf_response_def fits_def encode_response_def MAX_FRAME_def)
  moreover obtain r t where rt: "exchange (NodeId 1) ?q (tcp_new (NodeId 0) [(NodeId 1, 7)] 5 (\<lambda>_ _. ?s)) = (r, t)"
    by force
  ultimately have "r = Some (Inr (?ex ?q))"
    using exchange_end_to_end [where dial = "\<lambda>_ _. ?s", OF _ _ _ _ _ refl refl rt] by simp
  then show ?thesis by (simp only: rt fst_conv)
qed

end
