(* ===== verification/Predictor.thy ===== *)
theory Predictor
  imports Prelude
begin

text \<open>
  The next-layer expert predictor of \<open>cache.rs\<close>: per-layer expert frequencies and the
  transitions between the experts of adjacent layers, and the prediction drawn from them.
\<close>

section \<open>Definitions\<close>

type_synonym count_map = "(u32 \<times> u32) list"

record predictor =
  topn :: nat
  freq :: "(nat \<times> count_map) list"
  trans_map :: "(nat \<times> (u32 \<times> count_map) list) list"
  last_layer :: "(nat \<times> u32 list) option"

definition predictor_new :: "nat \<Rightarrow> predictor" where
  "predictor_new n = \<lparr> topn = n, freq = [], trans_map = [], last_layer = None \<rparr>"

text \<open>\<open>for &e in &cur { *f.entry(e).or_insert(0) += 1; }\<close>\<close>

definition bump_each :: "u32 list \<Rightarrow> count_map \<Rightarrow> count_map" where
  "bump_each cur f = fold (\<lambda>e. entry_mod e 0 (\<lambda>c. c + 1)) cur f"

definition score_step :: "(u32 \<times> count_map) list \<Rightarrow> u32 \<Rightarrow> count_map \<Rightarrow> count_map" where
  "score_step t e score = (case map_of t e of
     None \<Rightarrow> score
   | Some c \<Rightarrow> fold (\<lambda>(ne, cnt). entry_mod ne 0 (\<lambda>s. s + cnt)) c score)"

definition by_count :: "u32 \<times> u32 \<Rightarrow> int \<times> u32" where
  "by_count = (\<lambda>(e, c). (- uint c, e))"

fun push_upto :: "nat \<Rightarrow> nat list \<Rightarrow> nat list \<Rightarrow> nat list" where
  "push_upto n out [] = out"
| "push_upto n out (e # es) = (if n \<le> length out then out else push_upto n (out @ [e]) es)"

fun push_new_upto :: "nat \<Rightarrow> nat list \<Rightarrow> nat list \<Rightarrow> nat list" where
  "push_new_upto n out [] = out"
| "push_new_upto n out (e # es) =
     (if n \<le> length out then out
      else push_new_upto n (if e \<in> set out then out else out @ [e]) es)"

definition ranked_ids :: "count_map \<Rightarrow> nat list" where
  "ranked_ids m = map (unat \<circ> fst) (sort_key by_count m)"

definition predict :: "predictor \<Rightarrow> nat \<Rightarrow> u32 list \<Rightarrow> nat list" where
  "predict p target from =
     (let score = (case map_of (trans_map p) target of
                     None \<Rightarrow> [] | Some t \<Rightarrow> fold (score_step t) from []);
          out = push_upto (topn p) [] (ranked_ids score)
      in if length out < topn p then
           (case map_of (freq p) target of
              None \<Rightarrow> out
            | Some f \<Rightarrow> push_new_upto (topn p) out (ranked_ids f))
         else out)"

definition observe :: "nat \<Rightarrow> u32 list \<Rightarrow> predictor \<Rightarrow> predictor" where
  "observe layer cur p =
     (let p = p\<lparr> freq := entry_mod layer [] (bump_each cur) (freq p) \<rparr>;
          p = (case last_layer p of
                 None \<Rightarrow> p
               | Some (ll, le) \<Rightarrow>
                   if ll + 1 = layer
                   then p\<lparr> trans_map := entry_mod layer []
                            (\<lambda>t. fold (\<lambda>pe. entry_mod pe [] (bump_each cur)) le t) (trans_map p) \<rparr>
                   else p)
      in p)"

definition observe_and_predict :: "nat \<Rightarrow> nat list \<Rightarrow> predictor \<Rightarrow> nat list \<times> predictor" where
  "observe_and_predict layer eids p =
     (let cur = map of_nat eids;
          p = observe layer cur p
      in (predict p (layer + 1) cur, p\<lparr> last_layer := Some (layer, cur) \<rparr>))"

section \<open>What has been observed\<close>

definition seen_at :: "predictor \<Rightarrow> nat \<Rightarrow> u32 set" where
  "seen_at p l = fst ` set (lookup_or [] (freq p) l)"

definition predictor_ok :: "predictor \<Rightarrow> bool" where
  "predictor_ok p \<longleftrightarrow>
     (\<forall>l. distinct (map fst (lookup_or [] (freq p) l)))
     \<and> (\<forall>l e. fst ` set (lookup_or [] (lookup_or [] (trans_map p) l) e) \<subseteq> seen_at p l)"

lemma keys_bump_each [simp]: "fst ` set (bump_each cur f) = fst ` set f \<union> set cur"
  unfolding bump_each_def by (induction cur arbitrary: f) auto

lemma distinct_bump_each [simp]: "distinct (map fst f) \<Longrightarrow> distinct (map fst (bump_each cur f))"
  unfolding bump_each_def by (induction cur arbitrary: f) auto

lemma lookup_entry_mod:
  "lookup_or d (entry_mod k d f kvs) k' = (if k' = k then f (lookup_or d kvs k) else lookup_or d kvs k')"
  by (simp add: lookup_or_def [of _ "entry_mod k d f kvs"] map_of_entry_mod) (simp add: lookup_or_def)

lemma seen_at_observe: "seen_at (observe layer cur p) l = seen_at p l \<union> (if l = layer then set cur else {})"
proof -
  have "freq (observe layer cur p) = entry_mod layer [] (bump_each cur) (freq p)"
    by (simp add: observe_def Let_def split: option.splits prod.splits)
  then show ?thesis by (simp add: seen_at_def lookup_entry_mod)
qed

lemma keys_fold_bump:
  "fst ` set (lookup_or [] (fold (\<lambda>pe. entry_mod pe [] (bump_each cur)) le t) e)
     \<subseteq> fst ` set (lookup_or [] t e) \<union> set cur"
proof (induction le arbitrary: t)
  case (Cons pe le)
  from Cons [of "entry_mod pe [] (bump_each cur) t"] show ?case
    by (auto simp: lookup_entry_mod split: if_splits)
qed simp

lemma predictor_ok_observe:
  assumes "predictor_ok p"
  shows "predictor_ok (observe layer cur p)"
proof -
  have f: "freq (observe layer cur p) = entry_mod layer [] (bump_each cur) (freq p)"
    by (simp add: observe_def Let_def split: option.splits prod.splits)
  then have "distinct (map fst (lookup_or [] (freq (observe layer cur p)) l))" for l
    using assms by (simp add: predictor_ok_def lookup_entry_mod)
  moreover have "fst ` set (lookup_or [] (lookup_or [] (trans_map (observe layer cur p)) l) e)
      \<subseteq> seen_at (observe layer cur p) l" for l e
  proof -
    have "trans_map (observe layer cur p) = trans_map p \<or>
        (\<exists>le. trans_map (observe layer cur p)
           = entry_mod layer [] (\<lambda>t. fold (\<lambda>pe. entry_mod pe [] (bump_each cur)) le t) (trans_map p))"
      by (auto simp: observe_def Let_def split: option.splits prod.splits)
    moreover have old: "fst ` set (lookup_or [] (lookup_or [] (trans_map p) l) e) \<subseteq> seen_at p l"
      using assms by (simp add: predictor_ok_def)
    ultimately show ?thesis
    proof (elim disjE exE)
      fix le
      assume tm: "trans_map (observe layer cur p)
        = entry_mod layer [] (\<lambda>t. fold (\<lambda>pe. entry_mod pe [] (bump_each cur)) le t) (trans_map p)"
      show ?thesis
      proof (cases "l = layer")
        case True
        then show ?thesis
          using keys_fold_bump [of cur le "lookup_or [] (trans_map p) l" e] old
          by (simp add: tm lookup_entry_mod seen_at_observe) blast
      next
        case False
        then show ?thesis using old by (simp add: tm lookup_entry_mod seen_at_observe)
      qed
    qed (use old in \<open>auto simp: seen_at_observe\<close>)
  qed
  ultimately show ?thesis by (simp add: predictor_ok_def)
qed

section \<open>The prediction\<close>

lemma push_upto_take: "push_upto n out es = out @ take (n - length out) es"
proof (induction n out es rule: push_upto.induct)
  case (2 n out e es)
  show ?case
  proof (cases "n \<le> length out")
    case False
    then have "n - length out = Suc (n - Suc (length out))" by simp
    with 2 False show ?thesis by simp
  qed simp
qed simp

lemma push_new_upto_props:
  assumes "distinct out" and "length out \<le> n" and "r = push_new_upto n out es"
  shows "distinct r \<and> length r \<le> n \<and> set out \<subseteq> set r \<and> set r \<subseteq> set out \<union> set es
     \<and> (length r < n \<longrightarrow> set es \<subseteq> set r)"
  using assms
proof (induction n out es rule: push_new_upto.induct)
  case (2 n out e es)
  show ?case
  proof (cases "n \<le> length out")
    case True
    with 2 show ?thesis by auto
  next
    case False
    with 2 show ?thesis by (cases "e \<in> set out") auto
  qed
qed auto

lemma score_step_keys:
  "fst ` set (score_step t e score) = fst ` set score \<union> fst ` set (lookup_or [] t e)"
proof -
  have "fst ` set (fold (\<lambda>(ne, cnt). entry_mod ne 0 (\<lambda>s. s + cnt)) c score) = fst ` set score \<union> fst ` set c"
    for c :: count_map
    by (induction c arbitrary: score) (simp_all add: case_prod_unfold insert_commute)
  then show ?thesis by (simp add: score_step_def lookup_or_def split: option.splits)
qed

lemma score_step_distinct:
  assumes "distinct (map fst score)"
  shows "distinct (map fst (score_step t e score))"
proof -
  have "distinct (map fst (fold (\<lambda>(ne, cnt). entry_mod ne 0 (\<lambda>s. s + cnt)) c score))" for c :: count_map
    using assms by (induction c arbitrary: score) (simp_all add: case_prod_unfold)
  then show ?thesis using assms by (simp add: score_step_def split: option.splits)
qed

lemma score_fold:
  assumes "\<And>e. fst ` set (lookup_or [] t e) \<subseteq> S" and "distinct (map fst score)" and "fst ` set score \<subseteq> S"
  shows "distinct (map fst (fold (score_step t) from score)) \<and> fst ` set (fold (score_step t) from score) \<subseteq> S"
  using assms(2,3)
proof (induction "from" arbitrary: score)
  case (Cons e es)
  from Cons.IH [of "score_step t e score"] Cons.prems assms(1) [of e] show ?case
    by (simp add: score_step_distinct score_step_keys)
qed simp

lemma ranked_ids_props:
  assumes "distinct (map fst m)"
  shows "distinct (ranked_ids m)" and "set (ranked_ids m) = unat ` fst ` set m"
proof -
  have "distinct (map fst (sort_key by_count m))" using assms by (simp add: distinct_map)
  then have "distinct (map unat (map fst (sort_key by_count m)))"
    by (simp only: distinct_map [of unat]) (auto intro: inj_onI simp: word_unat_eq_iff)
  then show "distinct (ranked_ids m)" by (simp add: ranked_ids_def)
qed (simp add: ranked_ids_def image_comp)

lemma predict_props:
  assumes "predictor_ok p" and "r = predict p target from"
  shows "distinct r \<and> length r \<le> topn p \<and> set r \<subseteq> unat ` seen_at p target
     \<and> (length r < topn p \<longrightarrow> unat ` seen_at p target \<subseteq> set r)"
proof -
  define score where "score = (case map_of (trans_map p) target of
     None \<Rightarrow> [] | Some t \<Rightarrow> fold (score_step t) from [])"
  have sc: "distinct (map fst score)" "fst ` set score \<subseteq> seen_at p target"
    using score_fold [of "lookup_or [] (trans_map p) target" "seen_at p target" "[]" "from"] assms(1)
    by (auto simp: score_def predictor_ok_def lookup_or_def [of _ "trans_map p"] split: option.splits)
  define out where "out = take (topn p) (ranked_ids score)"
  have out: "distinct out" "length out \<le> topn p" "set out \<subseteq> unat ` seen_at p target"
    using ranked_ids_props [OF sc(1)] image_mono [OF sc(2), of unat]
      set_take_subset [of "topn p" "ranked_ids score"]
    by (simp_all add: out_def)
  have r: "r = (if length out < topn p then (case map_of (freq p) target of
      None \<Rightarrow> out | Some f \<Rightarrow> push_new_upto (topn p) out (ranked_ids f)) else out)"
    unfolding assms(2) predict_def push_upto_take score_def [symmetric] Let_def
    by (simp add: out_def split: option.splits)
  show ?thesis
  proof (cases "map_of (freq p) target")
    case None
    then show ?thesis using r out by (auto simp: seen_at_def lookup_or_def)
  next
    case (Some f)
    have f: "seen_at p target = fst ` set f" "distinct (map fst f)"
      using Some assms(1) unfolding predictor_ok_def seen_at_def lookup_or_def by (auto dest: spec [of _ target])
    show ?thesis
    proof (cases "length out < topn p")
      case True
      then have "r = push_new_upto (topn p) out (ranked_ids f)" using r Some by simp
      from push_new_upto_props [OF out(1,2) this] out(3) ranked_ids_props(2) [OF f(2)] f(1)
      show ?thesis by auto
    next
      case False
      then show ?thesis using r out by simp
    qed
  qed
qed

section \<open>Properties\<close>

text \<open>Runs of the predictor: the layers it was shown, in order.\<close>

definition observe_all :: "(nat \<times> nat list) list \<Rightarrow> predictor \<Rightarrow> predictor" where
  "observe_all hist p = fold (\<lambda>(layer, eids). snd \<circ> observe_and_predict layer eids) hist p"

lemma observe_all_props:
  assumes "predictor_ok p"
  shows "predictor_ok (observe_all hist p) \<and> topn (observe_all hist p) = topn p
     \<and> seen_at (observe_all hist p) l
        = seen_at p l \<union> {of_nat e | e es. (l, es) \<in> set hist \<and> e \<in> set es}"
  using assms
proof (induction hist arbitrary: p)
  case Nil
  then show ?case by (simp add: observe_all_def)
next
  case (Cons h hist)
  obtain layer eids where h: "h = (layer, eids)" by force
  let ?p1 = "snd (observe_and_predict layer eids p)"
  have ext: "predictor_ok (q\<lparr> last_layer := x \<rparr>) = predictor_ok q" "seen_at (q\<lparr> last_layer := x \<rparr>) = seen_at q" for q x
    by (simp_all add: predictor_ok_def seen_at_def fun_eq_iff)
  have step: "observe_all (h # hist) p = observe_all hist ?p1" by (simp add: observe_all_def h)
  have seen: "seen_at ?p1 l = seen_at p l \<union> (if l = layer then of_nat ` set eids else {})"
    by (simp add: observe_and_predict_def Let_def ext seen_at_observe)
  have top: "topn ?p1 = topn p"
    by (simp add: observe_and_predict_def observe_def Let_def split: option.splits prod.splits)
  have "predictor_ok ?p1"
    using predictor_ok_observe [OF Cons.prems, of layer "map of_nat eids"]
    by (simp add: observe_and_predict_def Let_def ext)
  moreover have "{of_nat e :: u32 | e es. (l, es) \<in> set (h # hist) \<and> e \<in> set es}
      = (if l = layer then of_nat ` set eids else {}) \<union> {of_nat e | e es. (l, es) \<in> set hist \<and> e \<in> set es}"
    by (auto simp: h)
  ultimately show ?case using Cons.IH [of ?p1] top unfolding step seen by (simp add: Un_assoc)
qed

lemma predictor_ok_new: "predictor_ok (predictor_new n)" "seen_at (predictor_new n) l = {}"
  by (simp_all add: predictor_ok_def predictor_new_def seen_at_def lookup_or_def)

text \<open>
  Whatever the layers a new predictor was shown, its prediction for a layer lists distinct
  experts that were observed at that layer, and exactly as many as \<open>topn\<close> allows: the smaller
  of \<open>topn\<close> and the number of experts seen there.  With \<open>topn = 0\<close> it predicts nothing.
\<close>

lemma predict_exactly_topn:
  "distinct (predict (observe_all hist (predictor_new n)) target from)
     \<and> set (predict (observe_all hist (predictor_new n)) target from)
         \<subseteq> {unat (of_nat e :: u32) | e es. (target, es) \<in> set hist \<and> e \<in> set es}
     \<and> length (predict (observe_all hist (predictor_new n)) target from)
         = min n (card {unat (of_nat e :: u32) | e es. (target, es) \<in> set hist \<and> e \<in> set es})"
proof -
  define p where "p = observe_all hist (predictor_new n)"
  note obs = observe_all_props [OF predictor_ok_new(1) [of n], of hist target, folded p_def]
  from obs have ok: "predictor_ok p" by blast
  have top: "topn p = n" using obs by (simp add: predictor_new_def)
  have seen: "unat ` seen_at p target = {unat (of_nat e :: u32) | e es. (target, es) \<in> set hist \<and> e \<in> set es}"
    unfolding conjunct2 [OF conjunct2 [OF obs]] predictor_ok_new(2) by blast
  note pr = predict_props [OF ok refl, of target "from", unfolded top]
  have len: "length (predict p target from) = card (set (predict p target from))"
    using pr by (simp add: distinct_card)
  have "card (set (predict p target from)) \<le> card (unat ` seen_at p target)"
    using pr by (intro card_mono) (auto simp: seen_at_def)
  moreover have "card (unat ` seen_at p target) \<le> length (predict p target from)"
    if "length (predict p target from) < n"
    using pr that len by (metis List.finite_set card_mono)
  moreover have "L = min n C" if "L \<le> C" "L < n \<Longrightarrow> C \<le> L" "L \<le> n" for L C :: nat
    using that by (cases "L < n") auto
  ultimately have "length (predict p target from) = min n (card (unat ` seen_at p target))"
    using conjunct1 [OF conjunct2 [OF pr]] len by presburger
  then show ?thesis using pr unfolding p_def [symmetric] seen by blast
qed

end
