(* ===== verification/RamLedger.thy ===== *)
theory RamLedger
  imports Prelude
begin

text \<open>
  The RAM ledger of \<open>ram.rs\<close>: the manager's counters, commitments, the expert cache's
  \<open>set_usage\<close>, admission with waiting, and the process-wide manager.

  The first part gives every operation as a function of the manager's state, as one thread runs
  it undisturbed.  The second part takes the operations apart into their atomic accesses and lets
  any number of threads interleave them; the compare-and-swap may also fail spuriously.
\<close>

section \<open>Definitions\<close>

datatype ram_class = Dense | Experts | Kv | Scratch | ReadBuf

fun class_ix :: "ram_class \<Rightarrow> nat" where
  "class_ix Dense = 0"
| "class_ix Experts = 1"
| "class_ix Kv = 2"
| "class_ix Scratch = 3"
| "class_ix ReadBuf = 4"

definition N_CLASSES :: nat where
  "N_CLASSES = 5"

record ram_manager =
  ceiling :: u64
  total :: u64
  per_class :: "u64 list"
  peak_per_class :: "u64 list"

record commitment =
  c_class :: ram_class
  c_bytes :: u64

definition ram_new :: "u64 \<Rightarrow> ram_manager" where
  "ram_new c = \<lparr> ceiling = c, total = 0, per_class = replicate N_CLASSES 0,
     peak_per_class = replicate N_CLASSES 0 \<rparr>"

definition committed :: "ram_manager \<Rightarrow> u64" where
  "committed m = total m"

definition committed_in :: "ram_manager \<Rightarrow> ram_class \<Rightarrow> u64" where
  "committed_in m k = per_class m ! class_ix k"

definition peak_in :: "ram_manager \<Rightarrow> ram_class \<Rightarrow> u64" where
  "peak_in m k = peak_per_class m ! class_ix k"

definition note_peak :: "ram_class \<Rightarrow> u64 \<Rightarrow> ram_manager \<Rightarrow> ram_manager" where
  "note_peak k now m =
     (if peak_in m k < now then m\<lparr> peak_per_class := (peak_per_class m)[class_ix k := now] \<rparr> else m)"

definition headroom :: "ram_manager \<Rightarrow> u64" where
  "headroom m = sat_sub (ceiling m) (total m)"

definition arena_grant :: "ram_manager \<Rightarrow> u64 \<Rightarrow> u64" where
  "arena_grant m rigid_reserve = sat_sub (sat_sub (ceiling m) (committed m)) rigid_reserve"

text \<open>The bookkeeping after the total has moved.\<close>

definition add_class :: "ram_class \<Rightarrow> u64 \<Rightarrow> ram_manager \<Rightarrow> ram_manager" where
  "add_class k b m = (let now = committed_in m k + b in
     note_peak k now (m\<lparr> per_class := (per_class m)[class_ix k := now] \<rparr>))"

definition ram_commit :: "ram_class \<Rightarrow> u64 \<Rightarrow> ram_manager \<Rightarrow> commitment option \<times> ram_manager" where
  "ram_commit k b m =
     (if b = 0 then (Some \<lparr> c_class = k, c_bytes = 0 \<rparr>, m)
      else if sat_sub (ceiling m) (total m) < b then (None, m)
      else (Some \<lparr> c_class = k, c_bytes = b \<rparr>, add_class k b (m\<lparr> total := total m + b \<rparr>)))"

definition ram_drop :: "commitment \<Rightarrow> ram_manager \<Rightarrow> ram_manager" where
  "ram_drop c m = (let m = m\<lparr> total := total m - c_bytes c \<rparr> in
     m\<lparr> per_class := (per_class m)[class_ix (c_class c) := committed_in m (c_class c) - c_bytes c] \<rparr>)"

definition set_usage :: "ram_class \<Rightarrow> u64 \<Rightarrow> ram_manager \<Rightarrow> u64 \<times> ram_manager" where
  "set_usage k b m =
     (let prev = committed_in m k;
          m = note_peak k b (m\<lparr> per_class := (per_class m)[class_ix k := b] \<rparr>);
          m = (if prev \<le> b then m\<lparr> total := total m + (b - prev) \<rparr>
               else m\<lparr> total := total m - (prev - b) \<rparr>)
      in (sat_sub (ceiling m) (total m), m))"

text \<open>
  The process-wide manager: a \<open>OnceLock\<close> cell, \<open>None\<close> until the first \<open>init_manager\<close>.  Without
  a manager a commitment is of zero bytes and usage is unconstrained.
\<close>

type_synonym ram_cell = "ram_manager option"

definition init_manager :: "u64 \<Rightarrow> ram_cell \<Rightarrow> ram_cell" where
  "init_manager c cell = (case cell of Some m \<Rightarrow> Some m | None \<Rightarrow> Some (ram_new c))"

definition try_commit :: "ram_class \<Rightarrow> u64 \<Rightarrow> ram_cell \<Rightarrow> commitment option \<times> ram_cell" where
  "try_commit k b cell = (case cell of
     Some m \<Rightarrow> (case ram_commit k b m of (r, m) \<Rightarrow> (r, Some m))
   | None \<Rightarrow> (Some \<lparr> c_class = k, c_bytes = 0 \<rparr>, None))"

definition cell_set_usage :: "ram_class \<Rightarrow> u64 \<Rightarrow> ram_cell \<Rightarrow> u64 \<times> ram_cell" where
  "cell_set_usage k b cell = (case cell of
     Some m \<Rightarrow> (case set_usage k b m of (h, m) \<Rightarrow> (h, Some m))
   | None \<Rightarrow> (- 1, None))"

datatype admission = Adm_ok | Adm_busy | Adm_too_large

text \<open>
  \<open>commit_or_wait\<close>: what the other threads do to the cell while this one sleeps is the list
  \<open>sleeps\<close>, one function for every poll before the deadline.
\<close>

fun poll_commit :: "ram_class \<Rightarrow> u64 \<Rightarrow> (ram_cell \<Rightarrow> ram_cell) list \<Rightarrow> ram_cell \<Rightarrow>
    (admission \<times> commitment option) \<times> ram_cell" where
  "poll_commit k b [] cell = ((Adm_busy, None), cell)"
| "poll_commit k b (f # fs) cell = (case try_commit k b (f cell) of
     (Some c, cell) \<Rightarrow> ((Adm_ok, Some c), cell)
   | (None, cell) \<Rightarrow> poll_commit k b fs cell)"

definition commit_or_wait :: "ram_class \<Rightarrow> u64 \<Rightarrow> u64 \<Rightarrow> (ram_cell \<Rightarrow> ram_cell) list \<Rightarrow> ram_cell \<Rightarrow>
    (admission \<times> commitment option) \<times> ram_cell" where
  "commit_or_wait k b rigid_budget sleeps cell =
     (if rigid_budget < b then ((Adm_too_large, None), cell)
      else case try_commit k b cell of
             (Some c, cell) \<Rightarrow> ((Adm_ok, Some c), cell)
           | (None, cell) \<Rightarrow> poll_commit k b sleeps cell)"

section \<open>Atomic steps of concurrent threads\<close>

text \<open>
  Where a thread stands inside an operation.  The arguments are its local variables:
  \<open>Commit_try\<close> holds the last observed total, \<open>Commit_class\<close> has won the swap of the total,
  \<open>Peak_load\<close> and \<open>Peak_try\<close> are inside \<open>note_peak\<close> (with what remains to be done after it),
  \<open>Drop_class\<close> has returned the total of a dropped commitment.
\<close>

datatype after_peak = Then_commit ram_class u64 | Then_usage ram_class u64 u64

datatype thread =
    Idle
  | Commit_try ram_class u64 u64
  | Commit_class ram_class u64
  | Peak_load ram_class u64 after_peak
  | Peak_try ram_class u64 u64 after_peak
  | Drop_class ram_class u64
  | Usage_total ram_class u64 u64

record ledger =
  mgr :: ram_manager
  threads :: "thread list"
  live :: "commitment list"

fun peak_done :: "after_peak \<Rightarrow> thread" where
  "peak_done (Then_commit k b) = Idle"
| "peak_done (Then_usage k b prev) = Usage_total k b prev"

fun peak_live :: "after_peak \<Rightarrow> commitment list" where
  "peak_live (Then_commit k b) = [\<lparr> c_class = k, c_bytes = b \<rparr>]"
| "peak_live (Then_usage k b prev) = []"

definition at_thread :: "ledger \<Rightarrow> nat \<Rightarrow> thread \<Rightarrow> bool" where
  "at_thread s i th \<longleftrightarrow> i < length (threads s) \<and> threads s ! i = th"

definition goto :: "nat \<Rightarrow> thread \<Rightarrow> ledger \<Rightarrow> ledger" where
  "goto i th s = s\<lparr> threads := (threads s)[i := th] \<rparr>"

datatype action = Commits | Usage

inductive ledger_step :: "action \<Rightarrow> ledger \<Rightarrow> ledger \<Rightarrow> bool" where
  commit_zero: "at_thread s i Idle \<Longrightarrow>
    ledger_step Commits s (s\<lparr> live := \<lparr> c_class = k, c_bytes = 0 \<rparr> # live s \<rparr>)"
| commit_load: "at_thread s i Idle \<Longrightarrow> b \<noteq> 0 \<Longrightarrow>
    ledger_step Commits s (goto i (Commit_try k b (total (mgr s))) s)"
| commit_refuse: "at_thread s i (Commit_try k b cur) \<Longrightarrow> sat_sub (ceiling (mgr s)) cur < b \<Longrightarrow>
    ledger_step Commits s (goto i Idle s)"
| commit_swap: "at_thread s i (Commit_try k b cur) \<Longrightarrow> \<not> sat_sub (ceiling (mgr s)) cur < b \<Longrightarrow>
    total (mgr s) = cur \<Longrightarrow>
    ledger_step Commits s (goto i (Commit_class k b) (s\<lparr> mgr := (mgr s)\<lparr> total := cur + b \<rparr> \<rparr>))"
| commit_lost: "at_thread s i (Commit_try k b cur) \<Longrightarrow> \<not> sat_sub (ceiling (mgr s)) cur < b \<Longrightarrow>
    ledger_step Commits s (goto i (Commit_try k b (total (mgr s))) s)"
| commit_class: "at_thread s i (Commit_class k b) \<Longrightarrow> now = committed_in (mgr s) k + b \<Longrightarrow>
    ledger_step Commits s (goto i (Peak_load k now (Then_commit k b))
      (s\<lparr> mgr := (mgr s)\<lparr> per_class := (per_class (mgr s))[class_ix k := now] \<rparr> \<rparr>))"
| peak_load: "at_thread s i (Peak_load k now a) \<Longrightarrow>
    ledger_step Commits s (goto i (Peak_try k now (peak_in (mgr s) k) a) s)"
| peak_low: "at_thread s i (Peak_try k now seen a) \<Longrightarrow> \<not> seen < now \<Longrightarrow>
    ledger_step Commits s (goto i (peak_done a) (s\<lparr> live := peak_live a @ live s \<rparr>))"
| peak_swap: "at_thread s i (Peak_try k now seen a) \<Longrightarrow> seen < now \<Longrightarrow> peak_in (mgr s) k = seen \<Longrightarrow>
    ledger_step Commits s (goto i (peak_done a) (s\<lparr> live := peak_live a @ live s,
      mgr := (mgr s)\<lparr> peak_per_class := (peak_per_class (mgr s))[class_ix k := now] \<rparr> \<rparr>))"
| peak_lost: "at_thread s i (Peak_try k now seen a) \<Longrightarrow> seen < now \<Longrightarrow>
    ledger_step Commits s (goto i (Peak_try k now (peak_in (mgr s) k) a) s)"
| drop_total: "at_thread s i Idle \<Longrightarrow> live s = xs @ c # ys \<Longrightarrow>
    ledger_step Commits s (goto i (Drop_class (c_class c) (c_bytes c))
      (s\<lparr> live := xs @ ys, mgr := (mgr s)\<lparr> total := total (mgr s) - c_bytes c \<rparr> \<rparr>))"
| drop_class: "at_thread s i (Drop_class k b) \<Longrightarrow>
    ledger_step Commits s (goto i Idle (s\<lparr> mgr := (mgr s)\<lparr> per_class :=
      (per_class (mgr s))[class_ix k := committed_in (mgr s) k - b] \<rparr> \<rparr>))"
| usage_swap: "at_thread s i Idle \<Longrightarrow>
    ledger_step Usage s (goto i (Peak_load k b (Then_usage k b (committed_in (mgr s) k)))
      (s\<lparr> mgr := (mgr s)\<lparr> per_class := (per_class (mgr s))[class_ix k := b] \<rparr> \<rparr>))"
| usage_total: "at_thread s i (Usage_total k b prev) \<Longrightarrow>
    ledger_step Usage s (goto i Idle (s\<lparr> mgr := (mgr s)\<lparr> total :=
      (if prev \<le> b then total (mgr s) + (b - prev) else total (mgr s) - (prev - b)) \<rparr> \<rparr>))"

inductive ledger_run :: "action set \<Rightarrow> ledger \<Rightarrow> ledger \<Rightarrow> bool" for acts where
  run_start: "ledger_run acts s s"
| run_step: "ledger_run acts s t \<Longrightarrow> a \<in> acts \<Longrightarrow> ledger_step a t u \<Longrightarrow> ledger_run acts s u"

definition ledger_init :: "u64 \<Rightarrow> nat \<Rightarrow> ledger" where
  "ledger_init c n = \<lparr> mgr = ram_new c, threads = replicate n Idle, live = [] \<rparr>"

section \<open>Sequential contract\<close>

lemma class_ix_lt [simp]: "class_ix k < 5"
  by (cases k) simp_all

definition wf_ram :: "ram_manager \<Rightarrow> bool" where
  "wf_ram m \<longleftrightarrow> length (per_class m) = N_CLASSES \<and> length (peak_per_class m) = N_CLASSES
     \<and> total m = sum_list (per_class m)"

lemma note_peak_simps [simp]:
  "ceiling (note_peak k now m) = ceiling m" "total (note_peak k now m) = total m"
  "per_class (note_peak k now m) = per_class m"
  "length (peak_per_class (note_peak k now m)) = length (peak_per_class m)"
  by (simp_all add: note_peak_def)

lemma add_class_simps [simp]:
  "ceiling (add_class k b m) = ceiling m" "total (add_class k b m) = total m"
  "per_class (add_class k b m) = (per_class m)[class_ix k := committed_in m k + b]"
  "length (peak_per_class (add_class k b m)) = length (peak_per_class m)"
  by (simp_all add: add_class_def Let_def)

text \<open>
  What a client of a ledger relies on: an admitted commitment moves the committed total by its
  size and leaves it within the ceiling, a refused one changes nothing, and a release gives
  exactly its size back.
\<close>

locale bounded_ledger =
  fixes ceil :: "'m \<Rightarrow> u64" and used :: "'m \<Rightarrow> u64"
    and admit :: "'k \<Rightarrow> u64 \<Rightarrow> 'm \<Rightarrow> 'c option \<times> 'm" and release :: "'c \<Rightarrow> 'm \<Rightarrow> 'm"
    and size_of :: "'c \<Rightarrow> u64"
  assumes admit_Some: "admit k b m = (Some c, m') \<Longrightarrow> used m \<le> ceil m \<Longrightarrow>
      size_of c = b \<and> ceil m' = ceil m \<and> unat (used m') = unat (used m) + unat b \<and> used m' \<le> ceil m"
    and admit_None: "admit k b m = (None, m') \<Longrightarrow> m' = m \<and> unat (ceil m) < unat (used m) + unat b"
    and release_used: "ceil (release c m) = ceil m \<and> used (release c m) = used m - size_of c"
begin

fun admit_all :: "('k \<times> u64) list \<Rightarrow> 'm \<Rightarrow> 'c list \<times> 'm" where
  "admit_all [] m = ([], m)"
| "admit_all ((k, b) # rs) m = (case admit k b m of
     (Some c, m) \<Rightarrow> (case admit_all rs m of (cs, m) \<Rightarrow> (c # cs, m))
   | (None, m) \<Rightarrow> admit_all rs m)"

lemma admit_all_bounded:
  assumes "admit_all rs m = (cs, m')" and "used m \<le> ceil m"
  shows "used m' \<le> ceil m' \<and> ceil m' = ceil m
     \<and> unat (used m') = unat (used m) + (\<Sum>c \<leftarrow> cs. unat (size_of c))"
  using assms
proof (induction rs arbitrary: m cs)
  case (Cons r rs)
  obtain k b where r: "r = (k, b)" by force
  obtain x m1 where x: "admit k b m = (x, m1)" by force
  show ?case
  proof (cases x)
    case None
    with x have "m1 = m" using admit_None by blast
    with Cons.prems x None Cons.IH [of m cs] show ?thesis by (auto simp: r)
  next
    case (Some c)
    obtain cs1 m2 where rest: "admit_all rs m1 = (cs1, m2)" by force
    with Cons.prems x Some have cs: "cs = c # cs1" "m2 = m'" by (simp_all add: r)
    note a = admit_Some [OF x [unfolded Some] Cons.prems(2)]
    then have "used m1 \<le> ceil m1" by simp
    from Cons.IH [OF rest [unfolded cs] this] a cs show ?thesis by auto
  qed
qed simp

lemma release_all:
  assumes "unat (used m) = n + (\<Sum>c \<leftarrow> cs. unat (size_of c))"
  shows "unat (used (fold release cs m)) = n \<and> ceil (fold release cs m) = ceil m"
  using assms
proof (induction cs arbitrary: m)
  case (Cons c cs)
  then have "size_of c \<le> used m" by (simp add: word_le_nat_alt)
  then have "unat (used (release c m)) = n + (\<Sum>c \<leftarrow> cs. unat (size_of c))"
    using Cons.prems by (simp add: release_used unat_sub word_le_nat_alt)
  from Cons.IH [OF this] show ?case by (simp add: release_used)
qed simp

lemma admit_then_release:
  assumes "admit_all rs m = (cs, m')" and "used m \<le> ceil m"
  shows "used (fold release cs m') = used m"
  using admit_all_bounded [OF assms] release_all [of m' "unat (used m)" cs]
  by (simp add: word_unat_eq_iff)

end

lemma commit_fits:
  assumes "\<not> sat_sub c t < b" and "t \<le> (c :: u64)"
  shows "unat (t + b) = unat t + unat b" and "t + b \<le> c"
proof -
  have le: "unat t + unat b \<le> unat c"
    using assms by (simp add: word_less_nat_alt word_le_nat_alt)
  then have "unat t + unat b < 2 ^ 64" using unat_lt_pow [of c] by simp
  then show u: "unat (t + b) = unat t + unat b" by (simp add: unat_word_ariths)
  show "t + b \<le> c" using le by (simp add: word_le_nat_alt u)
qed

interpretation ram: bounded_ledger ceiling committed ram_commit ram_drop c_bytes
proof
  fix k b m c m'
  assume r: "ram_commit k b m = (Some c, m')" and le: "committed m \<le> ceiling m"
  show "c_bytes c = b \<and> ceiling m' = ceiling m \<and> unat (committed m') = unat (committed m) + unat b
     \<and> committed m' \<le> ceiling m"
  proof (cases "b = 0")
    case True
    with r le show ?thesis by (auto simp: ram_commit_def committed_def)
  next
    case False
    then have fit: "\<not> sat_sub (ceiling m) (total m) < b"
      using r by (auto simp: ram_commit_def split: if_splits)
    from commit_fits [OF this] le r False fit show ?thesis
      by (auto simp: ram_commit_def committed_def)
  qed
next
  fix k b m m'
  assume "ram_commit k b m = (None, m')"
  then show "m' = m \<and> unat (ceiling m) < unat (committed m) + unat b"
    by (auto simp: ram_commit_def committed_def word_less_nat_alt split: if_splits)
next
  fix c m
  show "ceiling (ram_drop c m) = ceiling m \<and> committed (ram_drop c m) = committed m - c_bytes c"
    by (simp add: ram_drop_def committed_def Let_def)
qed

section \<open>Invariants of the interleaved ledger\<close>

inductive_cases ledger_stepE: "ledger_step a s t"

text \<open>Bytes a thread has taken from the total without a live commitment yet.\<close>

fun taken_after :: "after_peak \<Rightarrow> u64" where
  "taken_after (Then_commit k b) = b"
| "taken_after (Then_usage k b prev) = 0"

fun taken :: "thread \<Rightarrow> u64" where
  "taken (Commit_class k b) = b"
| "taken (Peak_load k now a) = taken_after a"
| "taken (Peak_try k now seen a) = taken_after a"
| "taken _ = 0"

text \<open>What the total is ahead of the per-class counters because of a thread between the two.\<close>

fun ahead_after :: "after_peak \<Rightarrow> u64" where
  "ahead_after (Then_commit k b) = 0"
| "ahead_after (Then_usage k b prev) = prev - b"

fun ahead :: "thread \<Rightarrow> u64" where
  "ahead (Commit_class k b) = b"
| "ahead (Peak_load k now a) = ahead_after a"
| "ahead (Peak_try k now seen a) = ahead_after a"
| "ahead (Drop_class k b) = - b"
| "ahead (Usage_total k b prev) = prev - b"
| "ahead _ = 0"

definition held :: "ledger \<Rightarrow> nat" where
  "held s = (\<Sum>c \<leftarrow> live s. unat (c_bytes c)) + (\<Sum>th \<leftarrow> threads s. unat (taken th))"

definition ceiling_inv :: "ledger \<Rightarrow> bool" where
  "ceiling_inv s \<longleftrightarrow> unat (total (mgr s)) = held s \<and> total (mgr s) \<le> ceiling (mgr s)"

definition class_inv :: "ledger \<Rightarrow> bool" where
  "class_inv s \<longleftrightarrow> length (per_class (mgr s)) = 5
     \<and> total (mgr s) = sum_list (per_class (mgr s)) + (\<Sum>th \<leftarrow> threads s. ahead th)"

lemma goto_threads:
  assumes "at_thread s i th"
  shows "(\<Sum>t \<leftarrow> (threads s)[i := th']. unat (taken t)) + unat (taken th)
           = (\<Sum>t \<leftarrow> threads s. unat (taken t)) + unat (taken th')"
    and "(\<Sum>t \<leftarrow> (threads s)[i := th']. ahead t) + ahead th = (\<Sum>t \<leftarrow> threads s. ahead t) + ahead th'"
  using assms sum_list_map_update [of i "threads s" "\<lambda>t. unat (taken t)" th']
    sum_list_map_update [of i "threads s" ahead th']
  by (simp_all add: at_thread_def)

lemma taken_peak: "unat (taken_after a) = (\<Sum>c \<leftarrow> peak_live a. unat (c_bytes c)) + unat (taken (peak_done a))"
  by (cases a) simp_all

lemma ahead_peak: "ahead (peak_done a) = ahead_after a"
  by (cases a) simp_all

lemma ceiling_inv_step:
  assumes "ledger_step Commits s t" and "ceiling_inv s"
  shows "ceiling_inv t"
proof -
  have same: "(\<Sum>t \<leftarrow> (threads s)[i := th']. unat (taken t)) = (\<Sum>t \<leftarrow> threads s. unat (taken t))"
    if "at_thread s i th" "taken th' = taken th" for i th th'
    using goto_threads(1) [OF that(1), of th'] that(2) by simp
  from assms(1) show ?thesis
  proof cases
    case (commit_swap i k b cur)
    then have "unat (cur + b) = unat cur + unat b" "cur + b \<le> ceiling (mgr s)"
      using commit_fits [of "ceiling (mgr s)" cur b] assms(2) by (simp_all add: ceiling_inv_def)
    then show ?thesis using commit_swap goto_threads(1) [OF commit_swap(2), of "Commit_class k b"] assms(2)
      by (simp add: ceiling_inv_def held_def goto_def)
  next
    case (peak_low i k now seen a)
    then show ?thesis using goto_threads(1) [OF peak_low(2), of "peak_done a"] assms(2) taken_peak [of a]
      by (simp add: ceiling_inv_def held_def goto_def)
  next
    case (peak_swap i k now seen a)
    then show ?thesis using goto_threads(1) [OF peak_swap(2), of "peak_done a"] assms(2) taken_peak [of a]
      by (simp add: ceiling_inv_def held_def goto_def)
  next
    case (drop_total i xs c ys)
    then have le: "c_bytes c \<le> total (mgr s)" using assms(2)
      by (simp add: ceiling_inv_def held_def word_le_nat_alt)
    then have "unat (total (mgr s) - c_bytes c) = unat (total (mgr s)) - unat (c_bytes c)"
      by (simp add: unat_sub word_le_nat_alt)
    moreover have "total (mgr s) - c_bytes c \<le> ceiling (mgr s)"
      using calculation assms(2) unfolding ceiling_inv_def word_le_nat_alt by linarith
    ultimately show ?thesis
      using drop_total goto_threads(1) [OF drop_total(2), of "Drop_class (c_class c) (c_bytes c)"] assms(2)
      by (simp add: ceiling_inv_def held_def goto_def)
  qed (use assms(2) in \<open>auto simp: ceiling_inv_def held_def goto_def same\<close>)
qed

lemma sum_class_update:
  "length xs = 5 \<Longrightarrow> sum_list (xs[class_ix k := v]) = sum_list xs - xs ! class_ix k + (v :: u64)"
  using sum_list_map_update [of "class_ix k" xs "\<lambda>x. x" v] by (simp add: algebra_simps)

lemma class_inv_step:
  assumes "ledger_step a s t" and "class_inv s"
  shows "class_inv t"
proof -
  have len: "length (per_class (mgr s)) = 5" using assms(2) by (simp add: class_inv_def)
  have g: "(\<Sum>t \<leftarrow> (threads s)[i := th']. ahead t) = (\<Sum>t \<leftarrow> threads s. ahead t) + ahead th' - ahead th"
    if "at_thread s i th" for i th th'
    using goto_threads(2) [OF that, of th'] by (simp add: algebra_simps)
  from assms(1) show ?thesis
    by cases (use assms(2) in \<open>auto simp: class_inv_def goto_def g sum_class_update [OF len] committed_in_def
        ahead_peak\<close>)
qed

lemma ledger_run_inv:
  assumes "ledger_run acts s t" and "P s" and "\<And>a s t. a \<in> acts \<Longrightarrow> ledger_step a s t \<Longrightarrow> P s \<Longrightarrow> P t"
  shows "P t"
  using assms(1,2) by (induction rule: ledger_run.induct) (auto intro: assms(3))

lemma ledger_ceiling_same: "ledger_step a s t \<Longrightarrow> ceiling (mgr t) = ceiling (mgr s)"
  by (auto elim!: ledger_stepE simp: goto_def)

lemma sum_list_zeros: "(\<And>x. x \<in> set xs \<Longrightarrow> f x = 0) \<Longrightarrow> sum_list (map f xs) = (0 :: 'a::comm_monoid_add)"
  by (induction xs) auto

lemma init_invs: "ceiling_inv (ledger_init c n)" "class_inv (ledger_init c n)"
  by (simp_all add: ceiling_inv_def class_inv_def held_def ledger_init_def ram_new_def N_CLASSES_def
      sum_list_zeros sum_list_replicate)

lemma refused_same: "fst (try_commit k b cell) = None \<Longrightarrow> snd (try_commit k b cell) = cell"
  by (auto simp: try_commit_def ram_commit_def split: option.splits if_splits)

lemma poll_busy:
  "fst (fst (poll_commit k b fs cell)) = Adm_busy
     \<longleftrightarrow> (\<forall>j \<in> {1..length fs}. fst (try_commit k b (fold (\<lambda>f. f) (take j fs) cell)) = None)"
proof (induction fs arbitrary: cell)
  case (Cons f fs)
  have split: "(\<forall>j \<in> {1..Suc n}. P j) \<longleftrightarrow> P 1 \<and> (\<forall>j \<in> {1..n}. P (Suc j))" for n :: nat and P
  proof -
    have "{1..Suc n} = insert 1 (Suc ` {1..n})"
      by (auto simp: image_iff)
    then show ?thesis by (simp only: ball_simps)
  qed
  obtain r cell' where x: "try_commit k b (f cell) = (r, cell')" by force
  show ?case
  proof (cases r)
    case None
    with x refused_same [of k b "f cell"] have "cell' = f cell" by simp
    with Cons.IH [of "f cell"] x None show ?thesis by (simp add: split [unfolded One_nat_def])
  next
    case (Some c)
    with x show ?thesis by (simp add: split [unfolded One_nat_def])
  qed
qed simp

lemma poll_ok_or_busy:
  "fst (fst (poll_commit k b fs cell)) = (if snd (fst (poll_commit k b fs cell)) = None then Adm_busy else Adm_ok)"
  by (induction fs arbitrary: cell) (auto split: prod.splits option.splits)

lemma set_usage_facts:
  assumes "wf_ram m" and "set_usage k b m = (h, m')"
  shows "wf_ram m' \<and> ceiling m' = ceiling m \<and> committed_in m' k = b
     \<and> (\<forall>k'. k' \<noteq> k \<longrightarrow> committed_in m' k' = committed_in m k')
     \<and> committed m' = committed m - committed_in m k + b
     \<and> h = headroom m' \<and> (h = 0 \<longleftrightarrow> ceiling m' \<le> committed m')"
proof -
  have len: "length (per_class m) = 5" "length (peak_per_class m) = 5" "total m = sum_list (per_class m)"
    using assms(1) by (simp_all add: wf_ram_def N_CLASSES_def)
  have m': "ceiling m' = ceiling m" "per_class m' = (per_class m)[class_ix k := b]"
    "length (peak_per_class m') = 5" "total m' = total m - committed_in m k + b" "h = headroom m'"
    using assms(2) len(2)
    by (auto simp: set_usage_def Let_def headroom_def algebra_simps split: if_splits)
  have "class_ix k \<noteq> class_ix k'" if "k' \<noteq> k" for k' using that by (cases k; cases k') simp_all
  then have "committed_in m' k' = committed_in m k'" if "k' \<noteq> k" for k'
    using that by (simp add: committed_in_def m'(2))
  moreover have "wf_ram m'" "committed_in m' k = b"
    using m' len by (simp_all add: wf_ram_def N_CLASSES_def committed_in_def sum_class_update)
  moreover have "h = 0 \<longleftrightarrow> ceiling m' \<le> committed m'"
    by (simp add: m'(5) headroom_def committed_def word_unat_eq_iff word_le_nat_alt)
  ultimately show ?thesis using m' by (simp add: committed_def)
qed

section \<open>Properties\<close>

text \<open>
  C20: Whatever the interleaving of any number of threads committing and releasing, with lost
  and spurious compare-and-swaps: the total never exceeds the ceiling, in no intermediate state,
  and it is exactly the sum of the live commitments and of those just being taken.
\<close>

theorem ledger_never_over_ceiling:
  assumes "ledger_run {Commits} (ledger_init c n) s"
  shows "total (mgr s) \<le> c \<and> unat (total (mgr s)) = held s
     \<and> ((\<forall>th \<in> set (threads s). th = Idle) \<longrightarrow> unat (total (mgr s)) = (\<Sum>x \<leftarrow> live s. unat (c_bytes x)))"
proof -
  have "ceiling_inv s" using assms init_invs(1) ceiling_inv_step by (rule ledger_run_inv) auto
  moreover have "ceiling (mgr s) = c"
    using assms by (rule ledger_run_inv) (auto simp: ledger_init_def ram_new_def ledger_ceiling_same)
  moreover have "held s = (\<Sum>x \<leftarrow> live s. unat (c_bytes x))" if "\<forall>th \<in> set (threads s). th = Idle"
    using that sum_list_zeros [of "threads s" "\<lambda>th. unat (taken th)"] by (auto simp: held_def)
  ultimately show ?thesis by (simp add: ceiling_inv_def)
qed

theorem ledger_never_over_ceiling_witness:
  "\<exists>s. ledger_run {Commits} (ledger_init 100 2) s \<and> total (mgr s) = 60 \<and> total (mgr s) \<le> 100"
proof -
  let ?s0 = "ledger_init 100 2"
  let ?s1 = "goto 0 (Commit_try Kv 60 (total (mgr ?s0))) ?s0"
  let ?s2 = "goto 0 (Commit_class Kv 60) (?s1\<lparr> mgr := (mgr ?s1)\<lparr> total := 0 + 60 \<rparr> \<rparr>)"
  have 1: "ledger_step Commits ?s0 ?s1"
    by (rule commit_load) (simp_all add: at_thread_def ledger_init_def)
  have 2: "ledger_step Commits ?s1 ?s2"
    by (rule commit_swap)
       (simp_all add: at_thread_def ledger_init_def ram_new_def goto_def sat_sub_def)
  have run: "ledger_run {Commits} ?s0 ?s2"
    by (rule run_step [OF run_step [OF run_start _ 1] _ 2]) simp_all
  moreover have "total (mgr ?s2) = 60" by (simp add: goto_def)
  ultimately show ?thesis using ledger_never_over_ceiling [OF run] by blast
qed

text \<open>
  Also with \<open>set_usage\<close> interleaved, the total and the per-class counters agree (as
  64-bit sums) up to what the threads between the two updates account for; whenever no operation
  is under way the total is the sum of the classes.
\<close>

lemma ledger_classes_add_up:
  assumes "ledger_run acts (ledger_init c n) s"
  shows "total (mgr s) = sum_list (per_class (mgr s)) + (\<Sum>th \<leftarrow> threads s. ahead th)
     \<and> ((\<forall>th \<in> set (threads s). th = Idle) \<longrightarrow> total (mgr s) = sum_list (per_class (mgr s)))"
proof -
  have "class_inv s" using assms init_invs(2) class_inv_step by (rule ledger_run_inv)
  moreover have "(\<Sum>th \<leftarrow> threads s. ahead th) = 0" if "\<forall>th \<in> set (threads s). th = Idle"
    by (rule sum_list_zeros) (use that in auto)
  ultimately show ?thesis by (simp add: class_inv_def)
qed

text \<open>
  A batch of commitments that are admitted or refused one by one stays within the ceiling,
  the total moves by exactly the admitted bytes, and dropping them all restores it.
\<close>

lemma commitments_balance:
  assumes "ram.admit_all rs m = (cs, m')" and "committed m \<le> ceiling m"
  shows "committed m' \<le> ceiling m
     \<and> unat (committed m') = unat (committed m) + (\<Sum>c \<leftarrow> cs. unat (c_bytes c))
     \<and> committed (fold ram_drop cs m') = committed m"
  using ram.admit_all_bounded [OF assms] ram.admit_then_release [OF assms] by auto

text \<open>
  Admission with waiting: a request over the rigid budget is rejected at once and changes
  nothing; otherwise it is admitted exactly when some attempt, the first or one of the polls,
  finds room, and reported busy when every attempt is refused.
\<close>

lemma commit_or_wait_outcome:
  shows "(fst (fst (commit_or_wait k b rigid sleeps cell)) = Adm_too_large \<longleftrightarrow> rigid < b)
     \<and> (rigid < b \<longrightarrow> commit_or_wait k b rigid sleeps cell = ((Adm_too_large, None), cell))
     \<and> (fst (fst (commit_or_wait k b rigid sleeps cell)) = Adm_busy \<longleftrightarrow>
          \<not> rigid < b \<and> (\<forall>j \<le> length sleeps. fst (try_commit k b (fold (\<lambda>f. f) (take j sleeps) cell)) = None))
     \<and> (fst (fst (commit_or_wait k b rigid sleeps cell)) = Adm_ok \<longleftrightarrow>
          snd (fst (commit_or_wait k b rigid sleeps cell)) \<noteq> None)"
proof (cases "rigid < b")
  case True
  then show ?thesis by (simp add: commit_or_wait_def)
next
  case False
  have all: "(\<forall>j \<le> n. P j) \<longleftrightarrow> P 0 \<and> (\<forall>j \<in> {1..n}. P j)" for n :: nat and P
    by (auto simp: Suc_le_eq)
  obtain r cell' where x: "try_commit k b cell = (r, cell')" by force
  show ?thesis
  proof (cases r)
    case None
    with x refused_same [of k b cell] have "cell' = cell" by simp
    with x None False show ?thesis
      using poll_busy [of k b sleeps cell] poll_ok_or_busy [of k b sleeps cell]
      by (auto simp: commit_or_wait_def all split: if_splits)
  next
    case (Some c)
    with x False show ?thesis by (auto simp: commit_or_wait_def)
  qed
qed

text \<open>
  \<open>set_usage\<close> is absolute: it sets the class to the given figure and moves the total by the
  difference, whatever the class held before; the headroom it returns is zero exactly when the
  total has reached the ceiling.
\<close>

lemma set_usage_absolute:
  assumes "wf_ram m" and "set_usage k b m = (h, m')"
  shows "wf_ram m' \<and> ceiling m' = ceiling m \<and> committed_in m' k = b
     \<and> (\<forall>k'. k' \<noteq> k \<longrightarrow> committed_in m' k' = committed_in m k')
     \<and> committed m' = committed m - committed_in m k + b
     \<and> h = headroom m' \<and> (h = 0 \<longleftrightarrow> ceiling m' \<le> committed m')"
  using assms by (rule set_usage_facts)

end
