(* ===== verification/ExpertCache.thy ===== *)
theory ExpertCache
  imports Tier Usage RamLedger Predictor
begin

text \<open>
  The resident expert cache of \<open>cache.rs\<close>: its state, eviction, the two critical sections of a
  fetch, pinning, batch loading and prefetching.

  The inner provider is a type parameter of the source; here it is what a load of a key
  returned (\<open>None\<close> for an I/O error), and the size of an expert is the function \<open>ebytes\<close>
  (\<open>Expert::bytes\<close>).  The hash maps are association lists with distinct keys, whose order stands
  for the arbitrary iteration order; a sort that need not be stable then picks an arbitrary
  order of equal scores.  The process-wide RAM ledger is a field of the cache.
\<close>

section \<open>Definitions\<close>

type_synonym ekey = "nat \<times> nat"

record 'e entry =
  e_expert :: 'e
  e_bytes :: u64
  e_heat :: u32
  e_last :: u32

record 'e cstate =
  entries :: "(ekey \<times> 'e entry) list"
  pinned :: "ekey set"
  bytes :: u64
  clock :: u32
  hits :: u64
  misses :: u64
  evictions :: u64
  session_usage :: "(ekey \<times> u64) list"

record 'e cache =
  budget :: u64
  fill_target :: u64
  hard_floor :: u64
  reserved :: u64
  state :: "'e cstate"
  predictor_of :: "predictor option"
  prefetch_tx :: "(nat \<times> nat list) list option"
  c_n_experts :: u64
  ram_cell :: ram_cell

record cache_stats =
  st_hits :: u64
  st_misses :: u64
  st_evictions :: u64
  st_resident :: nat
  st_bytes :: u64
  st_budget :: u64

definition cstate_new :: "'e cstate" where
  "cstate_new = \<lparr> entries = [], pinned = {}, bytes = 0, clock = 0, hits = 0, misses = 0,
     evictions = 0, session_usage = [] \<rparr>"

definition cache_new :: "u64 \<Rightarrow> ram_cell \<Rightarrow> 'e cache" where
  "cache_new budget_bytes cell = \<lparr> budget = budget_bytes, fill_target = 0, hard_floor = 0, reserved = 0,
     state = cstate_new, predictor_of = None, prefetch_tx = None, c_n_experts = 0, ram_cell = cell \<rparr>"

definition cache_stats_of :: "'e cache \<Rightarrow> cache_stats" where
  "cache_stats_of c = (let s = state c in
     \<lparr> st_hits = hits s, st_misses = misses s, st_evictions = evictions s,
       st_resident = length (entries s), st_bytes = bytes s, st_budget = budget c \<rparr>)"

definition pinned_count :: "'e cache \<Rightarrow> nat" where
  "pinned_count c = card (pinned (state c))"

definition usage_snapshot :: "'e cache \<Rightarrow> usage_history" where
  "usage_snapshot c = foldl (\<lambda>h ((l, e), n). usage_add l e n h) usage_new (session_usage (state c))"

subsection \<open>Eviction\<close>

text \<open>The candidates with their score, ranked once, coldest first.\<close>

definition victims :: "ekey set \<Rightarrow> 'e cstate \<Rightarrow> (ekey \<times> u64 \<times> u64) list" where
  "victims protect s = sort_key (\<lambda>(_, score, _). score)
     (map (\<lambda>(k, e). (k, evict_score (e_heat e) (e_last e) (clock s), e_bytes e))
        (filter (\<lambda>(k, _). k \<notin> pinned s \<and> k \<notin> protect) (entries s)))"

fun evict_loop :: "u64 \<Rightarrow> (ekey \<times> u64 \<times> u64) list \<Rightarrow> 'e cstate \<Rightarrow> 'e entry list \<times> 'e cstate" where
  "evict_loop limit [] s = ([], s)"
| "evict_loop limit ((k, _, b) # vs) s =
     (if bytes s \<le> limit then ([], s)
      else case map_of (entries s) k of
        None \<Rightarrow> evict_loop limit vs s
      | Some e \<Rightarrow>
          (case evict_loop limit vs (s\<lparr> entries := filter (\<lambda>(k', _). k' \<noteq> k) (entries s),
                bytes := bytes s - b, evictions := evictions s + 1 \<rparr>) of
             (freed, s) \<Rightarrow> (e # freed, s)))"

definition publish_ram :: "'e cstate \<Rightarrow> ram_cell \<Rightarrow> ram_cell" where
  "publish_ram s cell = snd (cell_set_usage Experts (bytes s) cell)"

definition evict_to_protecting :: "u64 \<Rightarrow> ekey set \<Rightarrow> 'e cstate \<Rightarrow> ram_cell \<Rightarrow>
    'e entry list \<times> 'e cstate \<times> ram_cell" where
  "evict_to_protecting limit protect s cell =
     (if bytes s \<le> limit then ([], s, publish_ram s cell)
      else case evict_loop limit (victims protect s) s of
             (freed, s) \<Rightarrow> (freed, s, publish_ram s cell))"

definition evict_to :: "u64 \<Rightarrow> 'e cstate \<Rightarrow> ram_cell \<Rightarrow> 'e entry list \<times> 'e cstate \<times> ram_cell" where
  "evict_to limit s cell = evict_to_protecting limit {} s cell"

text \<open>Eviction of the cache's own state under its lock, to a given target.\<close>

definition cache_evict :: "u64 \<Rightarrow> ekey set \<Rightarrow> 'e cache \<Rightarrow> 'e cache" where
  "cache_evict target protect c = (case evict_to_protecting target protect (state c) (ram_cell c) of
     (_, s, cell) \<Rightarrow> c\<lparr> state := s, ram_cell := cell \<rparr>)"

subsection \<open>Fetching\<close>

text \<open>
  The first critical section of \<open>fetch\<close>: advance the clock, record the selection, and either
  hit or count a miss.
\<close>

definition touch :: "u32 \<Rightarrow> 'e entry \<Rightarrow> 'e entry" where
  "touch clk e = e\<lparr> e_heat := sat_add (e_heat e) 1, e_last := clk \<rparr>"

definition tick :: "ekey \<Rightarrow> bool \<Rightarrow> 'e cstate \<Rightarrow> 'e cstate" where
  "tick key record s = (let s = s\<lparr> clock := clock s + 1 \<rparr> in
     if record then s\<lparr> session_usage := entry_mod key 0 (\<lambda>n. n + 1) (session_usage s) \<rparr> else s)"

definition fetch_lookup :: "ekey \<Rightarrow> bool \<Rightarrow> 'e cache \<Rightarrow> 'e option \<times> 'e cache" where
  "fetch_lookup key record c =
     (let s = tick key record (state c)
      in case map_of (entries s) key of
           Some e \<Rightarrow> (Some (e_expert e), c\<lparr> state := s\<lparr>
              entries := map (\<lambda>(k, x). (k, if k = key then touch (clock s) x else x)) (entries s),
              hits := hits s + 1 \<rparr> \<rparr>)
         | None \<Rightarrow> (None, c\<lparr> state := s\<lparr> misses := misses s + 1 \<rparr> \<rparr>))"

text \<open>The second: insert what was loaded, unless another thread did, and evict to the budget.\<close>

definition fetch_insert :: "('e \<Rightarrow> u64) \<Rightarrow> ekey \<Rightarrow> 'e \<Rightarrow> 'e cache \<Rightarrow> 'e \<times> 'e cache" where
  "fetch_insert ebytes key ex c =
     (let s = state c in
      case map_of (entries s) key of
        Some e \<Rightarrow> (e_expert e, c)
      | None \<Rightarrow>
          (let s = s\<lparr> entries := (key, \<lparr> e_expert = ex, e_bytes = ebytes ex, e_heat = 1, e_last = clock s \<rparr>)
                       # entries s, bytes := bytes s + ebytes ex \<rparr>
           in (ex, cache_evict (budget c) {} (c\<lparr> state := s \<rparr>))))"

definition fetch :: "('e \<Rightarrow> u64) \<Rightarrow> (nat \<Rightarrow> nat \<Rightarrow> 'e option) \<Rightarrow> nat \<Rightarrow> nat \<Rightarrow> bool \<Rightarrow> 'e cache \<Rightarrow>
    'e option \<times> 'e cache" where
  "fetch ebytes inner layer xid record c = (case fetch_lookup (layer, xid) record c of
     (Some ex, c) \<Rightarrow> (Some ex, c)
   | (None, c) \<Rightarrow> (case inner layer xid of
       None \<Rightarrow> (None, c)
     | Some ex \<Rightarrow> (case fetch_insert ebytes (layer, xid) ex c of (ex, c) \<Rightarrow> (Some ex, c))))"

definition expert :: "('e \<Rightarrow> u64) \<Rightarrow> (nat \<Rightarrow> nat \<Rightarrow> 'e option) \<Rightarrow> nat \<Rightarrow> nat \<Rightarrow> 'e cache \<Rightarrow>
    'e option \<times> 'e cache" where
  "expert ebytes inner layer xid c = fetch ebytes inner layer xid True c"

subsection \<open>Pinning\<close>

definition pin_key :: "ekey \<Rightarrow> 'e cache \<Rightarrow> 'e cache" where
  "pin_key key c = c\<lparr> state := (state c)\<lparr> pinned := insert key (pinned (state c)) \<rparr> \<rparr>"

definition pin :: "('e \<Rightarrow> u64) \<Rightarrow> (nat \<Rightarrow> nat \<Rightarrow> 'e option) \<Rightarrow> nat \<Rightarrow> nat \<Rightarrow> 'e cache \<Rightarrow>
    unit option \<times> 'e cache" where
  "pin ebytes inner layer xid c = (case fetch ebytes inner layer xid False c of
     (None, c) \<Rightarrow> (None, c)
   | (Some _, c) \<Rightarrow> (Some (), pin_key (layer, xid) c))"

fun pin_loop :: "('e \<Rightarrow> u64) \<Rightarrow> (nat \<Rightarrow> nat \<Rightarrow> 'e option) \<Rightarrow> u64 \<Rightarrow> nat \<Rightarrow> ekey list \<Rightarrow> nat \<Rightarrow> u64 \<Rightarrow>
    'e cache \<Rightarrow> (nat \<times> u64) option \<times> 'e cache" where
  "pin_loop ebytes inner byte_cap count_cap [] n b c = (Some (n, b), c)"
| "pin_loop ebytes inner byte_cap count_cap ((layer, xid) # ks) n b c =
     (if count_cap \<le> n then (Some (n, b), c)
      else case fetch ebytes inner layer xid False c of
        (None, c) \<Rightarrow> (None, c)
      | (Some ex, c) \<Rightarrow>
          if 0 < n \<and> byte_cap < b + ebytes ex then (Some (n, b), c)
          else pin_loop ebytes inner byte_cap count_cap ks (n + 1) (b + ebytes ex) (pin_key (layer, xid) c))"

definition pin_ranked :: "('e \<Rightarrow> u64) \<Rightarrow> (nat \<Rightarrow> nat \<Rightarrow> 'e option) \<Rightarrow> ekey list \<Rightarrow> u64 \<Rightarrow> nat \<Rightarrow>
    'e cache \<Rightarrow> (nat \<times> u64) option \<times> 'e cache" where
  "pin_ranked ebytes inner order byte_cap count_cap c = pin_loop ebytes inner byte_cap count_cap order 0 0 c"

definition warm_pin :: "('e \<Rightarrow> u64) \<Rightarrow> (nat \<Rightarrow> nat \<Rightarrow> 'e option) \<Rightarrow> usage_history \<Rightarrow> u64 \<Rightarrow>
    'e cache \<Rightarrow> nat option \<times> 'e cache" where
  "warm_pin ebytes inner history pin_budget c =
     (case pin_ranked ebytes inner (ranked history) pin_budget (2 ^ 64 - 1) c of
        (r, c) \<Rightarrow> (map_option fst r, c))"

text \<open>
  \<open>warm_pin_auto\<close> with the knee of the usage curve, a floating-point statistic of the history,
  as an argument.
\<close>

definition warm_pin_auto :: "('e \<Rightarrow> u64) \<Rightarrow> (nat \<Rightarrow> nat \<Rightarrow> 'e option) \<Rightarrow> usage_history \<Rightarrow> nat \<Rightarrow> u64 \<Rightarrow>
    'e cache \<Rightarrow> (nat \<times> u64) option \<times> 'e cache" where
  "warm_pin_auto ebytes inner history knee cache_budget c =
     pin_ranked ebytes inner (ranked history) (sat_mul (cache_budget div 5) 4)
       (min knee (length (ranked history))) c"

subsection \<open>Batch loading and prefetch\<close>

definition batch_missing :: "nat \<Rightarrow> nat list \<Rightarrow> 'e cache \<Rightarrow> nat list" where
  "batch_missing layer eids c = filter (\<lambda>e. map_of (entries (state c)) (layer, e) = None) eids"

text \<open>What was loaded off the lock: the batch, or best-effort single loads.\<close>

definition batch_loaded :: "(nat \<Rightarrow> nat \<Rightarrow> 'e option) \<Rightarrow> 'e list option \<Rightarrow> nat \<Rightarrow> nat list \<Rightarrow> (nat \<times> 'e) list" where
  "batch_loaded inner batch layer missing = (case batch of
     Some exps \<Rightarrow> if length exps = length missing then zip missing exps
                  else List.map_filter (\<lambda>e. map_option (Pair e) (inner layer e)) missing
   | None \<Rightarrow> List.map_filter (\<lambda>e. map_option (Pair e) (inner layer e)) missing)"

definition insert_loaded :: "('e \<Rightarrow> u64) \<Rightarrow> nat \<Rightarrow> nat \<times> 'e \<Rightarrow> 'e cstate \<Rightarrow> 'e cstate" where
  "insert_loaded ebytes layer = (\<lambda>(e, ex) s.
     if map_of (entries s) (layer, e) \<noteq> None then s
     else s\<lparr> entries := ((layer, e), \<lparr> e_expert = ex, e_bytes = ebytes ex, e_heat = 1, e_last = clock s \<rparr>)
               # entries s, bytes := bytes s + ebytes ex, misses := misses s + 1 \<rparr>)"

definition batch_insert :: "('e \<Rightarrow> u64) \<Rightarrow> nat \<Rightarrow> nat list \<Rightarrow> (nat \<times> 'e) list \<Rightarrow> 'e cache \<Rightarrow> 'e cache" where
  "batch_insert ebytes layer missing loaded c =
     cache_evict (budget c) (Pair layer ` set missing)
       (c\<lparr> state := fold (insert_loaded ebytes layer) loaded (state c) \<rparr>)"

definition load_batch :: "('e \<Rightarrow> u64) \<Rightarrow> (nat \<Rightarrow> nat \<Rightarrow> 'e option) \<Rightarrow> (nat \<Rightarrow> nat list \<Rightarrow> 'e list option) \<Rightarrow>
    nat \<Rightarrow> nat list \<Rightarrow> 'e cache \<Rightarrow> 'e cache" where
  "load_batch ebytes inner experts_batch layer eids c =
     (let missing = batch_missing layer eids c in
      if missing = [] then c
      else batch_insert ebytes layer missing (batch_loaded inner (experts_batch layer missing) layer missing) c)"

definition PREFETCH_AHEAD_MIN :: nat where "PREFETCH_AHEAD_MIN = 64"
definition PREFETCH_AHEAD_MIN_PCT :: u64 where "PREFETCH_AHEAD_MIN_PCT = 50"

definition ahead_predicts_next_layer :: "nat \<Rightarrow> u64 \<Rightarrow> bool" where
  "ahead_predicts_next_layer n_routed n_experts =
     (if n_routed < PREFETCH_AHEAD_MIN then False
      else if n_experts = 0 then True
      else n_experts * PREFETCH_AHEAD_MIN_PCT \<le> of_nat n_routed * 100)"

text \<open>\<open>try_send\<close> on the channel of capacity four: a full queue drops the message.\<close>

definition try_send :: "nat \<times> nat list \<Rightarrow> (nat \<times> nat list) list \<Rightarrow> (nat \<times> nat list) list" where
  "try_send m q = (if length q < 4 then q @ [m] else q)"

definition queue_next :: "bool \<Rightarrow> nat \<Rightarrow> nat list \<Rightarrow> 'e cache \<Rightarrow> 'e cache" where
  "queue_next ahead_on layer eids c = (case prefetch_tx c of
     None \<Rightarrow> c
   | Some q \<Rightarrow>
       if ahead_on \<and> ahead_predicts_next_layer (length eids) (c_n_experts c)
       then c\<lparr> prefetch_tx := Some (try_send (layer + 1, eids) q) \<rparr>
       else (case predictor_of c of
               None \<Rightarrow> c
             | Some p \<Rightarrow> (case observe_and_predict layer eids p of
                 (pred, p) \<Rightarrow> c\<lparr> predictor_of := Some p,
                    prefetch_tx := Some (if pred = [] then q else try_send (layer + 1, pred) q) \<rparr>)))"

definition prefetch :: "('e \<Rightarrow> u64) \<Rightarrow> (nat \<Rightarrow> nat \<Rightarrow> 'e option) \<Rightarrow> (nat \<Rightarrow> nat list \<Rightarrow> 'e list option) \<Rightarrow>
    bool \<Rightarrow> nat \<Rightarrow> nat list \<Rightarrow> 'e cache \<Rightarrow> 'e cache" where
  "prefetch ebytes inner experts_batch ahead_on layer eids c =
     load_batch ebytes inner experts_batch layer eids (queue_next ahead_on layer eids c)"

definition enable_prefetch :: "nat \<Rightarrow> u64 \<Rightarrow> 'e cache \<Rightarrow> 'e cache" where
  "enable_prefetch n ne c = (let c = c\<lparr> c_n_experts := ne, predictor_of := Some (predictor_new n) \<rparr> in
     case prefetch_tx c of Some _ \<Rightarrow> c | None \<Rightarrow> c\<lparr> prefetch_tx := Some [] \<rparr>)"

text \<open>One turn of the background loader thread.\<close>

definition loader_step :: "('e \<Rightarrow> u64) \<Rightarrow> (nat \<Rightarrow> nat \<Rightarrow> 'e option) \<Rightarrow> (nat \<Rightarrow> nat list \<Rightarrow> 'e list option) \<Rightarrow>
    'e cache \<Rightarrow> 'e cache" where
  "loader_step ebytes inner experts_batch c = (case prefetch_tx c of
     Some ((layer, eids) # q) \<Rightarrow>
       load_batch ebytes inner experts_batch layer eids (c\<lparr> prefetch_tx := Some q \<rparr>)
   | _ \<Rightarrow> c)"

section \<open>Eviction\<close>

definition wf_cstate :: "'e cstate \<Rightarrow> bool" where
  "wf_cstate s \<longleftrightarrow> distinct (map fst (entries s)) \<and> bytes s = (\<Sum>(k, e) \<leftarrow> entries s. e_bytes e)"

definition score_of :: "'e cstate \<Rightarrow> 'e entry \<Rightarrow> u64" where
  "score_of s e = evict_score (e_heat e) (e_last e) (clock s)"

definition evictable :: "ekey set \<Rightarrow> 'e cstate \<Rightarrow> ekey \<Rightarrow> bool" where
  "evictable protect s k \<longleftrightarrow> k \<notin> pinned s \<and> k \<notin> protect"

text \<open>The state after the entries with the keys \<open>ks\<close>, \<open>n\<close> of them, have left.\<close>

definition without :: "ekey set \<Rightarrow> nat \<Rightarrow> 'e cstate \<Rightarrow> 'e cstate" where
  "without ks n s = s\<lparr> entries := filter (\<lambda>(k, _). k \<notin> ks) (entries s),
     bytes := bytes s - (\<Sum>(k, e) \<leftarrow> filter (\<lambda>(k, _). k \<in> ks) (entries s). e_bytes e),
     evictions := evictions s + of_nat n \<rparr>"

lemma sum_filter_split:
  fixes f :: "'a \<Rightarrow> 'b::comm_monoid_add"
  shows "sum_list (map f xs) = sum_list (map f (filter P xs)) + sum_list (map f (filter (\<lambda>x. \<not> P x) xs))"
  by (induction xs) (auto simp: ac_simps)

lemma wf_without: "wf_cstate s \<Longrightarrow> wf_cstate (without ks n s)"
  using sum_filter_split [of "\<lambda>(k, e). e_bytes e" "entries s" "\<lambda>(k, _). k \<in> ks"]
  by (auto simp: wf_cstate_def without_def distinct_map_filter case_prod_unfold)

lemma filter_key:
  "distinct (map fst kvs) \<Longrightarrow> map_of kvs k = Some v \<Longrightarrow> filter (\<lambda>(k', _). k' = k) kvs = [(k, v)]"
  by (induction kvs) (auto simp: filter_empty_conv split: if_splits, force)

lemma remove_key_without:
  assumes "wf_cstate s" and "map_of (entries s) k = Some e"
  shows "s\<lparr> entries := filter (\<lambda>(k', _). k' \<noteq> k) (entries s), bytes := bytes s - e_bytes e,
            evictions := evictions s + 1 \<rparr> = without {k} 1 s"
  using filter_key [of "entries s" k e] assms by (simp add: without_def wf_cstate_def case_prod_unfold)

text \<open>
  The reference: find the coldest candidate, remove it, and start over, as the test oracle
  \<open>evict_by_repeated_min\<close> does.
\<close>

definition candidates :: "ekey set \<Rightarrow> 'e cstate \<Rightarrow> (ekey \<times> 'e entry) list" where
  "candidates protect s = filter (\<lambda>(k, _). evictable protect s k) (entries s)"

lemma first_min_in: "first_min f xs = Some m \<Longrightarrow> m \<in> set xs"
  by (cases xs) (use first_min_from_in in fastforce)+

function evict_by_repeated_min :: "u64 \<Rightarrow> ekey set \<Rightarrow> 'e cstate \<Rightarrow> (ekey \<times> 'e entry) list \<times> 'e cstate" where
  "evict_by_repeated_min limit protect s =
     (if bytes s \<le> limit then ([], s)
      else case first_min (\<lambda>(_, e). score_of s e) (candidates protect s) of
        None \<Rightarrow> ([], s)
      | Some (k, e) \<Rightarrow>
          (case evict_by_repeated_min limit protect (s\<lparr> entries := filter (\<lambda>(k', _). k' \<noteq> k) (entries s),
                bytes := bytes s - e_bytes e, evictions := evictions s + 1 \<rparr>) of
             (order, s) \<Rightarrow> ((k, e) # order, s)))"
  by pat_completeness auto
termination
proof (relation "measure (\<lambda>(_, _, s). length (entries s))", goal_cases)
  case (2 limit protect s m k e)
  then have "(k, e) \<in> set (entries s)" by (auto simp: candidates_def dest: first_min_in)
  then show ?case by (auto intro!: length_filter_less)
qed simp

declare evict_by_repeated_min.simps [simp del]

lemma first_min_from_map: "first_min_from f (g b) (map g xs) = g (first_min_from (f \<circ> g) b xs)"
proof (induction xs arbitrary: b)
  case (Cons x xs)
  from Cons.IH [of "if f (g x) < f (g b) then x else b"] show ?case by (auto split: if_splits)
qed simp

lemma first_min_map: "first_min f (map g xs) = map_option g (first_min (f \<circ> g) xs)"
  by (cases xs) (simp_all add: first_min_from_map)

definition ranked_as :: "'e cstate \<Rightarrow> ekey \<times> 'e entry \<Rightarrow> ekey \<times> u64 \<times> u64" where
  "ranked_as s = (\<lambda>(k, e). (k, score_of s e, e_bytes e))"

lemma victims_alt: "victims protect s = sort_key (\<lambda>(_, score, _). score) (map (ranked_as s) (candidates protect s))"
  unfolding victims_def candidates_def ranked_as_def score_of_def evictable_def ..

lemma candidates_without:
  "candidates protect (without {k} n s) = filter (\<lambda>(k', _). k' \<noteq> k) (candidates protect s)"
  by (auto simp: candidates_def without_def evictable_def intro: filter_cong)

lemma victims_step:
  assumes "wf_cstate s" and "first_min (\<lambda>(_, e). score_of s e) (candidates protect s) = Some (k, e)"
  shows "victims protect s = (k, score_of s e, e_bytes e) # victims protect (without {k} 1 s)"
proof -
  let ?cs = "candidates protect s"
  have d: "distinct (map fst ?cs)" using assms(1)
    by (simp add: candidates_def wf_cstate_def distinct_map_filter)
  have dm: "distinct (map (ranked_as s) ?cs)"
  proof -
    have "distinct (map fst (map (ranked_as s) ?cs))"
      using d by (simp add: ranked_as_def comp_def case_prod_unfold)
    then show ?thesis by (simp only: distinct_map [of fst])
  qed
  have fm: "first_min (\<lambda>(_, score, _). score) (map (ranked_as s) ?cs) = Some (k, score_of s e, e_bytes e)"
    using assms(2) by (simp add: first_min_map ranked_as_def comp_def case_prod_unfold)
  have ke: "(k, e) \<in> set ?cs" using first_min_in [OF assms(2)] .
  have "filter (\<lambda>x. x \<noteq> (k, score_of s e, e_bytes e)) (map (ranked_as s) ?cs)
      = map (ranked_as s) (filter (\<lambda>(k', _). k' \<noteq> k) ?cs)"
    unfolding filter_map comp_def
    by (intro arg_cong [of _ _ "map (ranked_as s)"] filter_cong refl)
       (use ke d in \<open>auto simp: ranked_as_def dest: eq_key_imp_eq_value\<close>)
  moreover have "ranked_as (without {k} 1 s) = ranked_as s"
    by (simp add: ranked_as_def without_def score_of_def)
  ultimately show ?thesis
    using sort_key_first_min [OF fm dm] by (simp add: victims_alt candidates_without)
qed

lemma evict_loop_reference:
  assumes "wf_cstate s"
  shows "evict_loop limit (victims protect s) s
     = (map snd (fst (evict_by_repeated_min limit protect s)), snd (evict_by_repeated_min limit protect s))"
  using assms
proof (induction limit protect s rule: evict_by_repeated_min.induct)
  case (1 limit protect s)
  show ?case
  proof (cases "bytes s \<le> limit")
    case True
    then show ?thesis by (subst (1 2) evict_by_repeated_min.simps) (cases "victims protect s"; auto)
  next
    case False
    show ?thesis
    proof (cases "first_min (\<lambda>(_, e). score_of s e) (candidates protect s)")
      case None
      then have "victims protect s = []" by (simp add: victims_alt)
      with None False show ?thesis by (subst (1 2) evict_by_repeated_min.simps) simp
    next
      case (Some ke)
      obtain k e where ke: "ke = (k, e)" by (cases ke)
      have "(k, e) \<in> set (entries s)"
        using first_min_in [OF Some] by (auto simp: ke candidates_def)
      then have m: "map_of (entries s) k = Some e" using "1.prems" by (simp add: wf_cstate_def)
      note w = remove_key_without [OF "1.prems" m]
      note IH = "1.IH" [OF False Some ke [symmetric], unfolded w, OF wf_without [OF "1.prems"]]
      show ?thesis using False m Some ke IH
        by (subst (1 2) evict_by_repeated_min.simps)
           (simp add: victims_step [OF "1.prems" Some [unfolded ke]] w split: prod.splits)
    qed
  qed
qed

lemma without_simps [simp]:
  "pinned (without ks n s) = pinned s" "clock (without ks n s) = clock s"
  "hits (without ks n s) = hits s" "misses (without ks n s) = misses s"
  "session_usage (without ks n s) = session_usage s"
  "entries (without ks n s) = filter (\<lambda>(k, _). k \<notin> ks) (entries s)"
  by (simp_all add: without_def)

lemma sum_insert_key:
  assumes "k \<notin> ks"
  shows "(\<Sum>x \<leftarrow> filter (\<lambda>x. fst x \<in> insert k ks) xs. e_bytes (snd x))
      = (\<Sum>x \<leftarrow> filter (\<lambda>x. fst x = k) xs. e_bytes (snd x))
        + (\<Sum>x \<leftarrow> filter (\<lambda>x. fst x \<noteq> k \<and> fst x \<in> ks) xs. e_bytes (snd x))"
  using assms by (induction xs) auto

lemma without_without:
  assumes "k \<notin> ks"
  shows "without ks n (without {k} 1 s) = without (insert k ks) (Suc n) s"
  using sum_insert_key [OF assms, of "entries s"]
  by (simp add: without_def case_prod_unfold algebra_simps conj_commute cong: filter_cong)

lemma first_min_le: "first_min f xs = Some m \<Longrightarrow> x \<in> set xs \<Longrightarrow> f m \<le> (f x :: 'k::linorder)"
  using first_min_Some(2) by metis

definition evicted_ok :: "u64 \<Rightarrow> ekey set \<Rightarrow> 'e cstate \<Rightarrow> (ekey \<times> 'e entry) list \<Rightarrow> 'e cstate \<Rightarrow> bool" where
  "evicted_ok limit protect s order s' \<longleftrightarrow>
     s' = without (fst ` set order) (length order) s \<and> distinct (map fst order)
     \<and> set order \<subseteq> set (entries s) \<and> (\<forall>(k, e) \<in> set order. evictable protect s k)
     \<and> (bytes s' \<le> limit \<or> (\<forall>(k, e) \<in> set (entries s'). \<not> evictable protect s k))
     \<and> (\<forall>(k, e) \<in> set order. \<forall>(k', e') \<in> set (entries s'). evictable protect s k' \<longrightarrow>
          score_of s e \<le> score_of s e')
     \<and> (order \<noteq> [] \<longrightarrow> limit < bytes s' + e_bytes (snd (last order)))"

lemma evicted_ok_Nil:
  assumes "bytes s \<le> limit \<or> candidates protect s = []"
  shows "evicted_ok limit protect s [] s"
  using assms by (auto simp: evicted_ok_def without_def candidates_def filter_empty_conv)

lemma evicted_ok_Cons:
  assumes wf: "wf_cstate s" and over: "\<not> bytes s \<le> limit"
    and fm: "first_min (\<lambda>(_, e). score_of s e) (candidates protect s) = Some (k, e)"
    and rest: "evicted_ok limit protect (without {k} 1 s) order s'"
  shows "evicted_ok limit protect s ((k, e) # order) s'"
proof -
  let ?s1 = "without {k} 1 s"
  have ke: "(k, e) \<in> set (entries s)" "evictable protect s k"
    using first_min_in [OF fm] by (auto simp: candidates_def)
  then have m: "map_of (entries s) k = Some e" using wf by (simp add: wf_cstate_def)
  have same: "evictable protect ?s1 = evictable protect s" "score_of ?s1 = score_of s"
    by (simp_all add: evictable_def score_of_def fun_eq_iff)
  have s': "s' = without (fst ` set order) (length order) ?s1"
    and sub: "set order \<subseteq> set (entries ?s1)"
    using rest by (simp_all add: evicted_ok_def)
  have knot: "k \<notin> fst ` set order" using sub by auto
  have b: "bytes ?s1 + e_bytes e = bytes s"
    using filter_key [of "entries s" k e] wf m by (simp add: without_def wf_cstate_def case_prod_unfold)
  have sc: "score_of s e \<le> score_of s e'" if "(k', e') \<in> set (entries s')" "evictable protect s k'" for k' e'
  proof -
    have "(k', e') \<in> set (candidates protect s)" using that by (auto simp: s' candidates_def)
    from first_min_le [OF fm this] show ?thesis by simp
  qed
  have "limit < bytes s' + e_bytes (snd (last ((k, e) # order)))"
  proof (cases "order = []")
    case True
    then have "bytes s' = bytes ?s1" by (simp add: s' without_def)
    with True b over show ?thesis by simp
  next
    case False
    moreover have "order \<noteq> [] \<longrightarrow> limit < bytes s' + e_bytes (snd (last order))"
      using rest unfolding evicted_ok_def by blast
    ultimately show ?thesis by simp
  qed
  moreover have "s' = without (fst ` set ((k, e) # order)) (length ((k, e) # order)) s"
    using without_without [OF knot, of "length order" s] by (simp add: s')
  moreover have "distinct (map fst ((k, e) # order))" using rest knot by (simp add: evicted_ok_def)
  moreover have "set ((k, e) # order) \<subseteq> set (entries s)" using ke(1) sub by auto
  moreover have "\<forall>(k, e) \<in> set ((k, e) # order). evictable protect s k"
    using rest ke(2) unfolding evicted_ok_def same by simp
  moreover have "bytes s' \<le> limit \<or> (\<forall>(k, e) \<in> set (entries s'). \<not> evictable protect s k)"
    using rest unfolding evicted_ok_def same by blast
  moreover have "\<forall>(k, e) \<in> set ((k, e) # order). \<forall>(k', e') \<in> set (entries s'). evictable protect s k' \<longrightarrow>
          score_of s e \<le> score_of s e'"
  proof -
    have "\<forall>(k, e) \<in> set order. \<forall>(k', e') \<in> set (entries s'). evictable protect s k' \<longrightarrow>
          score_of s e \<le> score_of s e'" using rest unfolding evicted_ok_def same by blast
    then show ?thesis using sc by auto
  qed
  ultimately show ?thesis unfolding evicted_ok_def by blast
qed

lemma repeated_min_ok:
  assumes "wf_cstate s" and "evict_by_repeated_min limit protect s = (order, s')"
  shows "evicted_ok limit protect s order s'"
  using assms
proof (induction limit protect s arbitrary: order rule: evict_by_repeated_min.induct)
  case (1 limit protect s)
  show ?case
  proof (cases "bytes s \<le> limit \<or> candidates protect s = []")
    case True
    then have "order = [] \<and> s' = s"
      using "1.prems"(2) by (subst (asm) evict_by_repeated_min.simps) (auto split: if_splits)
    then show ?thesis using evicted_ok_Nil [OF True] by simp
  next
    case False
    then obtain k e where fm: "first_min (\<lambda>(_, e). score_of s e) (candidates protect s) = Some (k, e)"
      by (metis first_min_None not_None_eq prod.collapse)
    have "(k, e) \<in> set (entries s)" using first_min_in [OF fm] by (auto simp: candidates_def)
    then have m: "map_of (entries s) k = Some e" using "1.prems" by (simp add: wf_cstate_def)
    note w = remove_key_without [OF "1.prems"(1) m]
    obtain rest where r: "evict_by_repeated_min limit protect (without {k} 1 s) = (rest, s')" "order = (k, e) # rest"
      using "1.prems"(2) False fm by (subst (asm) evict_by_repeated_min.simps) (auto simp: w split: prod.splits)
    have "evicted_ok limit protect (without {k} 1 s) rest s'"
      using "1.IH" [of "(k, e)" k e, unfolded w] False fm wf_without [OF "1.prems"(1)] r(1) by simp
    then show ?thesis using evicted_ok_Cons [OF "1.prems"(1) _ fm] False r(2) by simp
  qed
qed

lemma evict_to_protecting_ok:
  assumes "wf_cstate s" and "evict_to_protecting limit protect s cell = (freed, s', cell')"
  shows "\<exists>order. freed = map snd order \<and> evicted_ok limit protect s order s' \<and> cell' = publish_ram s' cell"
proof (cases "bytes s \<le> limit")
  case True
  with assms(2) show ?thesis
    by (auto simp: evict_to_protecting_def intro!: exI [of _ "[]"] evicted_ok_Nil)
next
  case False
  obtain order t where o: "evict_by_repeated_min limit protect s = (order, t)" by force
  show ?thesis
    using assms(2) False evict_loop_reference [OF assms(1), of limit protect] repeated_min_ok [OF assms(1) o]
    by (auto simp: evict_to_protecting_def o)
qed

section \<open>The invariant of the cache\<close>

text \<open>
  \<open>serves k x\<close>: the provider returned \<open>x\<close> for the key \<open>k\<close> at some time.  Every entry holds
  what was served for its key, the byte count is the sum of the entries, and an installed ledger
  shows the resident bytes.
\<close>

definition ram_synced :: "ram_cell \<Rightarrow> u64 \<Rightarrow> bool" where
  "ram_synced cell b = (case cell of None \<Rightarrow> True | Some m \<Rightarrow> wf_ram m \<and> committed_in m Experts = b)"

definition cache_inv :: "('e \<Rightarrow> u64) \<Rightarrow> (ekey \<Rightarrow> 'e \<Rightarrow> bool) \<Rightarrow> 'e cache \<Rightarrow> bool" where
  "cache_inv ebytes serves c \<longleftrightarrow> wf_cstate (state c)
     \<and> (\<forall>(k, e) \<in> set (entries (state c)). e_bytes e = ebytes (e_expert e) \<and> serves k (e_expert e))
     \<and> ram_synced (ram_cell c) (bytes (state c))"

definition ram_wf :: "ram_cell \<Rightarrow> bool" where
  "ram_wf cell = (case cell of None \<Rightarrow> True | Some m \<Rightarrow> wf_ram m)"

lemma publish_synced: "ram_wf cell \<Longrightarrow> ram_synced (publish_ram s cell) (bytes s)"
proof (cases cell)
  case (Some m)
  assume "ram_wf cell"
  then have "wf_ram m" by (simp add: Some ram_wf_def)
  from set_usage_facts [OF this prod.collapse [symmetric], of Experts "bytes s"]
  have "wf_ram (snd (set_usage Experts (bytes s) m))" "committed_in (snd (set_usage Experts (bytes s) m)) Experts = bytes s"
    by blast+
  then show ?thesis
    by (simp add: Some ram_synced_def publish_ram_def cell_set_usage_def case_prod_unfold)
qed (simp add: ram_synced_def publish_ram_def cell_set_usage_def)

lemma synced_wf: "ram_synced cell b \<Longrightarrow> ram_wf cell"
  by (auto simp: ram_synced_def ram_wf_def split: option.splits)

text \<open>Before the eviction of an insert the ledger still shows the old count.\<close>

definition cache_pre :: "('e \<Rightarrow> u64) \<Rightarrow> (ekey \<Rightarrow> 'e \<Rightarrow> bool) \<Rightarrow> 'e cache \<Rightarrow> bool" where
  "cache_pre ebytes serves c \<longleftrightarrow> wf_cstate (state c)
     \<and> (\<forall>(k, e) \<in> set (entries (state c)). e_bytes e = ebytes (e_expert e) \<and> serves k (e_expert e))
     \<and> ram_wf (ram_cell c)"

lemma cache_inv_pre: "cache_inv ebytes serves c \<Longrightarrow> cache_pre ebytes serves c"
  by (auto simp: cache_inv_def cache_pre_def dest: synced_wf)

lemma cache_evict_state:
  assumes "wf_cstate (state c)"
  obtains order where "evicted_ok target protect (state c) order (state (cache_evict target protect c))"
    "ram_cell (cache_evict target protect c) = publish_ram (state (cache_evict target protect c)) (ram_cell c)"
proof -
  obtain freed s' cell' where e: "evict_to_protecting target protect (state c) (ram_cell c) = (freed, s', cell')"
    by (metis prod.collapse)
  from evict_to_protecting_ok [OF assms e] that show ?thesis by (auto simp: cache_evict_def e)
qed

lemma cache_evict_inv:
  assumes "cache_pre ebytes serves c"
  shows "cache_inv ebytes serves (cache_evict target protect c)"
proof -
  have wf: "wf_cstate (state c)" using assms by (simp add: cache_pre_def)
  obtain order where o: "evicted_ok target protect (state c) order (state (cache_evict target protect c))"
    and cell: "ram_cell (cache_evict target protect c) = publish_ram (state (cache_evict target protect c)) (ram_cell c)"
    using wf by (rule cache_evict_state)
  then have s': "state (cache_evict target protect c) = without (fst ` set order) (length order) (state c)"
    by (simp add: evicted_ok_def)
  show ?thesis
    using assms wf_without [OF wf] publish_synced unfolding cache_inv_def cache_pre_def cell s'
    by auto
qed

lemma tick_simps [simp]:
  "entries (tick key record s) = entries s" "bytes (tick key record s) = bytes s"
  "pinned (tick key record s) = pinned s" "clock (tick key record s) = clock s + 1"
  by (simp_all add: tick_def Let_def)

lemma touch_simps [simp]: "e_bytes (touch clk e) = e_bytes e" "e_expert (touch clk e) = e_expert e"
  by (simp_all add: touch_def)

lemma touched_entries:
  assumes "f = (\<lambda>(k, x). (k, if k = key then touch clk x else x))"
  shows "map fst (map f xs) = map fst xs" and "(\<Sum>(k, e) \<leftarrow> map f xs. e_bytes e) = (\<Sum>(k, e) \<leftarrow> xs. e_bytes e)"
    and "(\<forall>(k, e) \<in> set (map f xs). P k (e_bytes e) (e_expert e)) \<longleftrightarrow> (\<forall>(k, e) \<in> set xs. P k (e_bytes e) (e_expert e))"
  using assms by (induction xs) (auto split: if_splits)

lemma fetch_lookup_inv:
  assumes "cache_inv ebytes serves c" and "fetch_lookup key record c = (r, c')"
  shows "cache_inv ebytes serves c' \<and> (\<forall>ex. r = Some ex \<longrightarrow> serves key ex)
     \<and> (r = None \<longleftrightarrow> map_of (entries (state c)) key = None)"
proof (cases "map_of (entries (state c)) key")
  case None
  with assms show ?thesis
    by (auto simp: fetch_lookup_def cache_inv_def wf_cstate_def Let_def)
next
  case (Some e)
  let ?f = "\<lambda>(k, x). (k, if k = key then touch (clock (tick key record (state c))) x else x)"
  have ents: "\<forall>(k, e) \<in> set (entries (state c)). e_bytes e = ebytes (e_expert e) \<and> serves k (e_expert e)"
    using assms(1) by (simp add: cache_inv_def)
  have c': "c' = c\<lparr> state := (tick key record (state c))\<lparr> entries := map ?f (entries (state c)),
      hits := hits (tick key record (state c)) + 1 \<rparr> \<rparr>" and r: "r = Some (e_expert e)"
    using Some assms(2) by (auto simp: fetch_lookup_def Let_def)
  have "serves key (e_expert e)" using ents map_of_SomeD [OF Some] by blast
  moreover have "cache_inv ebytes serves c'"
  proof -
    have st: "entries (state c') = map ?f (entries (state c))" "bytes (state c') = bytes (state c)"
      "ram_cell c' = ram_cell c" by (simp_all add: c')
    show ?thesis
      using assms(1) unfolding cache_inv_def wf_cstate_def st touched_entries(1,2) [OF refl]
        touched_entries(3) [OF refl, where P = "\<lambda>k b x. b = ebytes x \<and> serves k x"] .
  qed
  ultimately show ?thesis using Some r by simp
qed

lemma insert_pre:
  assumes "cache_pre ebytes serves c" and "map_of (entries (state c)) key = None" and "serves key ex"
    and "s' = (state c)\<lparr> entries := (key, \<lparr> e_expert = ex, e_bytes = ebytes ex, e_heat = 1, e_last = l \<rparr>)
          # entries (state c), bytes := bytes (state c) + ebytes ex, misses := m \<rparr>"
  shows "cache_pre ebytes serves (c\<lparr> state := s' \<rparr>)"
  using assms by (auto simp: cache_pre_def wf_cstate_def map_of_eq_None_iff image_iff)

lemma fetch_insert_inv:
  assumes "cache_inv ebytes serves c" and "serves key ex" and "fetch_insert ebytes key ex c = (r, c')"
  shows "cache_inv ebytes serves c' \<and> serves key r"
proof (cases "map_of (entries (state c)) key")
  case None
  then show ?thesis
    using cache_evict_inv [OF insert_pre [OF cache_inv_pre [OF assms(1)] None assms(2) refl,
          of "misses (state c)" "clock (state c)"], of "budget c" "{}"] assms(2,3)
    by (auto simp: fetch_insert_def Let_def)
next
  case (Some e)
  then show ?thesis using assms
    by (auto simp: fetch_insert_def cache_inv_def dest: map_of_SomeD)
qed

lemma insert_loaded_pre:
  assumes "cache_pre ebytes serves c" and "\<forall>(e, ex) \<in> set loaded. serves (layer, e) ex"
  shows "cache_pre ebytes serves (c\<lparr> state := fold (insert_loaded ebytes layer) loaded (state c) \<rparr>)"
  using assms
proof (induction loaded arbitrary: c)
  case (Cons l loaded)
  obtain e ex where l: "l = (e, ex)" by force
  have "cache_pre ebytes serves (c\<lparr> state := insert_loaded ebytes layer l (state c) \<rparr>)"
    using Cons.prems insert_pre [of ebytes serves c "(layer, e)" ex] by (auto simp: l insert_loaded_def)
  from Cons.IH [OF this] Cons.prems(2) show ?case by simp
qed simp

lemma batch_insert_inv:
  assumes "cache_inv ebytes serves c" and "\<forall>(e, ex) \<in> set loaded. serves (layer, e) ex"
  shows "cache_inv ebytes serves (batch_insert ebytes layer missing loaded c)"
  using cache_evict_inv [OF insert_loaded_pre [OF cache_inv_pre [OF assms(1)] assms(2)]]
  by (simp add: batch_insert_def)

section \<open>Concurrent runs\<close>

text \<open>
  One step is one critical section of some thread: the two halves of a fetch, a pin, a batch
  insertion, the queueing of a prefetch and its reception, an eviction by the monitor or by a RAM
  reservation, and the change of a setting.  Between the halves of a fetch anything can happen.
\<close>

inductive cache_step :: "('e \<Rightarrow> u64) \<Rightarrow> (ekey \<Rightarrow> 'e \<Rightarrow> bool) \<Rightarrow> 'e cache \<Rightarrow> 'e cache \<Rightarrow> bool"
  for ebytes serves where
  lookup: "cache_step ebytes serves c (snd (fetch_lookup key record c))"
| insert: "serves key ex \<Longrightarrow> cache_step ebytes serves c (snd (fetch_insert ebytes key ex c))"
| pin: "cache_step ebytes serves c (pin_key key c)"
| batch: "\<forall>(e, ex) \<in> set loaded. serves (layer, e) ex \<Longrightarrow>
    cache_step ebytes serves c (batch_insert ebytes layer missing loaded c)"
| queue: "cache_step ebytes serves c (queue_next on layer eids c)"
| receive: "prefetch_tx c = Some (m # q) \<Longrightarrow> cache_step ebytes serves c (c\<lparr> prefetch_tx := Some q \<rparr>)"
| enable: "cache_step ebytes serves c (enable_prefetch n ne c)"
| evict: "cache_step ebytes serves c (cache_evict target {} c)"
| settings: "cache_step ebytes serves c
    (c\<lparr> budget := b, fill_target := ft, hard_floor := hf, reserved := r \<rparr>)"

inductive cache_run :: "('e \<Rightarrow> u64) \<Rightarrow> (ekey \<Rightarrow> 'e \<Rightarrow> bool) \<Rightarrow> 'e cache \<Rightarrow> 'e cache \<Rightarrow> bool"
  for ebytes serves where
  stop: "cache_run ebytes serves c c"
| step: "cache_run ebytes serves c c1 \<Longrightarrow> cache_step ebytes serves c1 c2 \<Longrightarrow> cache_run ebytes serves c c2"

inductive_cases cache_stepE: "cache_step ebytes serves c c'"

lemma queue_next_state [simp]:
  "state (queue_next on layer eids c) = state c" "ram_cell (queue_next on layer eids c) = ram_cell c"
  by (simp_all add: queue_next_def split: option.splits prod.splits)

lemma enable_prefetch_state [simp]:
  "state (enable_prefetch n ne c) = state c" "ram_cell (enable_prefetch n ne c) = ram_cell c"
  by (simp_all add: enable_prefetch_def Let_def split: option.splits)

lemma cache_step_inv:
  assumes "cache_step ebytes serves c c'" and "cache_inv ebytes serves c"
  shows "cache_inv ebytes serves c'"
  using assms(1)
proof cases
  case (lookup key rcd)
  then show ?thesis using fetch_lookup_inv [OF assms(2) prod.collapse [symmetric]] by blast
next
  case (insert key ex)
  then show ?thesis using fetch_insert_inv [OF assms(2) _ prod.collapse [symmetric]] by blast
next
  case (batch loaded layer missing)
  then show ?thesis using batch_insert_inv [OF assms(2)] by blast
next
  case (evict target)
  then show ?thesis using cache_evict_inv [OF cache_inv_pre [OF assms(2)]] by blast
qed (use assms(2) in \<open>auto simp: cache_inv_def pin_key_def wf_cstate_def\<close>)

lemma cache_run_inv: "cache_run ebytes serves c c' \<Longrightarrow> cache_inv ebytes serves c \<Longrightarrow> cache_inv ebytes serves c'"
  by (induction rule: cache_run.induct) (auto intro: cache_step_inv)

text \<open>A resident pinned expert.\<close>

definition holds :: "'e cache \<Rightarrow> ekey \<Rightarrow> 'e \<Rightarrow> bool" where
  "holds c k x \<longleftrightarrow> (\<exists>e. map_of (entries (state c)) k = Some e \<and> e_expert e = x)"

lemma cache_evict_keeps:
  assumes "wf_cstate (state c)" and "k \<in> pinned (state c) \<or> k \<in> protect"
  shows "map_of (entries (state (cache_evict target protect c))) k = map_of (entries (state c)) k"
    and "pinned (state (cache_evict target protect c)) = pinned (state c)"
proof -
  obtain order where o: "evicted_ok target protect (state c) order (state (cache_evict target protect c))"
    using assms(1) by (rule cache_evict_state)
  then have s': "state (cache_evict target protect c) = without (fst ` set order) (length order) (state c)"
    and ev: "\<forall>(k, e) \<in> set order. evictable protect (state c) k"
    by (simp_all add: evicted_ok_def)
  have "k \<notin> fst ` set order" using ev assms(2) by (auto simp: evictable_def)
  moreover have "map_of (filter (\<lambda>(k, _). k \<notin> ks) xs) k = map_of xs k" if "k \<notin> ks" for ks xs
    using that by (induction xs) auto
  ultimately show "map_of (entries (state (cache_evict target protect c))) k = map_of (entries (state c)) k"
    by (simp add: s')
  show "pinned (state (cache_evict target protect c)) = pinned (state c)" by (simp add: s')
qed

lemma insert_loaded_keeps:
  "map_of (entries s) k = Some e \<Longrightarrow> map_of (entries (fold (insert_loaded ebytes layer) loaded s)) k = Some e
     \<and> pinned (fold (insert_loaded ebytes layer) loaded s) = pinned s"
proof (induction loaded arbitrary: s)
  case (Cons l loaded)
  obtain a ex where l: "l = (a, ex)" by force
  have "map_of (entries (insert_loaded ebytes layer l s)) k = Some e" "pinned (insert_loaded ebytes layer l s) = pinned s"
    using Cons.prems by (auto simp: l insert_loaded_def)
  with Cons.IH [of "insert_loaded ebytes layer l s"] show ?case by simp
qed simp

lemma cache_step_keeps:
  assumes "cache_step ebytes serves c c'" and "cache_inv ebytes serves c"
    and "k \<in> pinned (state c)" and "holds c k x"
  shows "k \<in> pinned (state c') \<and> holds c' k x"
proof -
  have wf: "wf_cstate (state c)" using assms(2) by (simp add: cache_inv_def)
  obtain e where e: "map_of (entries (state c)) k = Some e" "e_expert e = x"
    using assms(4) by (auto simp: holds_def)
  from assms(1) show ?thesis
  proof cases
    case (lookup key rcd)
    have m: "map_of (map (\<lambda>(k, x). (k, if k = key then touch clk x else x)) xs) k
        = map_option (\<lambda>x. if k = key then touch clk x else x) (map_of xs k)" for clk xs
      by (induction xs) auto
    show ?thesis using lookup assms(3) e
      by (auto simp: fetch_lookup_def Let_def holds_def m split: option.splits)
  next
    case (insert key ex)
    show ?thesis
    proof (cases "map_of (entries (state c)) key")
      case None
      let ?c = "c\<lparr> state := (state c)\<lparr> entries := (key, \<lparr> e_expert = ex, e_bytes = ebytes ex, e_heat = 1,
          e_last = clock (state c) \<rparr>) # entries (state c), bytes := bytes (state c) + ebytes ex \<rparr> \<rparr>"
      have "cache_pre ebytes serves ?c"
        using insert_pre [OF cache_inv_pre [OF assms(2)] None insert(2) refl,
            of "misses (state c)" "clock (state c)"] by simp
      then have "wf_cstate (state ?c)" by (simp add: cache_pre_def)
      from cache_evict_keeps [OF this, of k "{}" "budget c"] None insert(1) assms(3) e
      show ?thesis by (auto simp: fetch_insert_def Let_def holds_def)
    next
      case (Some e')
      with insert(1) assms(3,4) show ?thesis by (simp add: fetch_insert_def)
    qed
  next
    case (batch loaded layer missing)
    let ?c = "c\<lparr> state := fold (insert_loaded ebytes layer) loaded (state c) \<rparr>"
    have "wf_cstate (state ?c)"
      using insert_loaded_pre [OF cache_inv_pre [OF assms(2)] batch(2)] by (simp add: cache_pre_def)
    from cache_evict_keeps [OF this, of k "Pair layer ` set missing" "budget c"]
      insert_loaded_keeps [OF e(1), of ebytes layer loaded] batch(1) assms(3) e(2)
    show ?thesis by (simp add: batch_insert_def holds_def)
  next
    case (evict target)
    with cache_evict_keeps [OF wf, of k "{}" target] assms(3) e show ?thesis by (simp add: holds_def)
  qed (use assms(3) e in \<open>auto simp: holds_def pin_key_def\<close>)
qed

lemma cache_run_keeps:
  assumes "cache_run ebytes serves c c'" and "cache_inv ebytes serves c"
    and "k \<in> pinned (state c)" and "holds c k x"
  shows "k \<in> pinned (state c') \<and> holds c' k x"
  using assms
proof (induction rule: cache_run.induct)
  case (step c c1 c2)
  then show ?case using cache_step_keeps [OF step.hyps(2) cache_run_inv [OF step.hyps(1)]] by blast
qed simp

lemma cache_inv_new: "ram_synced cell 0 \<Longrightarrow> cache_inv ebytes serves (cache_new b cell)"
  by (simp add: cache_inv_def cache_new_def cstate_new_def wf_cstate_def)

section \<open>The provider interface\<close>

text \<open>
  What the compute loop relies on: a request for an expert returns what the specified source
  would, error included, and the provider stays usable.
\<close>

locale expert_provider =
  fixes usable :: "'p \<Rightarrow> bool" and get :: "nat \<Rightarrow> nat \<Rightarrow> 'p \<Rightarrow> 'e option \<times> 'p"
    and spec :: "nat \<Rightarrow> nat \<Rightarrow> 'e option"
  assumes get_spec: "usable p \<Longrightarrow> get l e p = (r, p') \<Longrightarrow> usable p' \<and> r = spec l e"
begin

fun get_all :: "(nat \<times> nat) list \<Rightarrow> 'p \<Rightarrow> 'e option list \<times> 'p" where
  "get_all [] p = ([], p)"
| "get_all ((l, e) # ks) p = (case get l e p of (r, p) \<Rightarrow> (case get_all ks p of (rs, p) \<Rightarrow> (r # rs, p)))"

lemma get_all_spec:
  "usable p \<Longrightarrow> get_all ks p = (rs, p') \<Longrightarrow> usable p' \<and> rs = map (\<lambda>(l, e). spec l e) ks"
proof (induction ks arbitrary: p rs)
  case (Cons k ks)
  obtain l e where k: "k = (l, e)" by force
  obtain r p1 where g: "get l e p = (r, p1)" by force
  obtain rs1 p2 where ga: "get_all ks p1 = (rs1, p2)" by force
  from get_spec [OF Cons.prems(1) g] Cons.IH [of p1 rs1] Cons.prems(2) show ?case
    by (auto simp: k g ga)
qed simp

end

definition served_by :: "(nat \<Rightarrow> nat \<Rightarrow> 'e option) \<Rightarrow> ekey \<Rightarrow> 'e \<Rightarrow> bool" where
  "served_by inner = (\<lambda>(l, e) x. inner l e = Some x)"

lemma fetch_spec:
  assumes "cache_inv ebytes (served_by inner) c" and "fetch ebytes inner layer xid record c = (r, c')"
  shows "cache_inv ebytes (served_by inner) c' \<and> r = inner layer xid"
proof -
  obtain x c1 where l: "fetch_lookup (layer, xid) record c = (x, c1)" by force
  note li = fetch_lookup_inv [OF assms(1) l]
  show ?thesis
  proof (cases x)
    case (Some ex)
    with li assms(2) show ?thesis by (auto simp: fetch_def l served_by_def)
  next
    case None
    show ?thesis
    proof (cases "inner layer xid")
      case None
      with \<open>x = None\<close> li assms(2) show ?thesis by (auto simp: fetch_def l)
    next
      case (Some ex)
      obtain y c2 where i: "fetch_insert ebytes (layer, xid) ex c1 = (y, c2)" by force
      have "served_by inner (layer, xid) ex" using Some by (simp add: served_by_def)
      from fetch_insert_inv [OF conjunct1 [OF li] this i]
      have "cache_inv ebytes (served_by inner) c2" "inner layer xid = Some y" by (simp_all add: served_by_def)
      moreover have "r = Some y" "c' = c2" using Some \<open>x = None\<close> assms(2) by (simp_all add: fetch_def l i)
      ultimately show ?thesis by simp
    qed
  qed
qed

interpretation cached: expert_provider "cache_inv ebytes (served_by inner)" "expert ebytes inner" inner
  for ebytes inner
  by unfold_locales (simp add: expert_def fetch_spec)

lemma fetch_insert_pins: "pinned (state (snd (fetch_insert ebytes key ex c))) = pinned (state c)"
proof -
  have "pinned (snd (evict_loop limit vs s)) = pinned s" for limit vs and s :: "'a cstate"
    by (induction limit vs s rule: evict_loop.induct) (auto split: option.splits prod.splits)
  then have "pinned (state (cache_evict t p c)) = pinned (state c)" for t p and c :: "'a cache"
    by (simp add: cache_evict_def evict_to_protecting_def split: prod.splits) (metis snd_conv)
  then show ?thesis by (auto simp: fetch_insert_def Let_def split: option.splits)
qed

lemma fetch_pins: "pinned (state (snd (fetch ebytes inner l e record c))) = pinned (state c)"
proof -
  obtain x c1 where l: "fetch_lookup (l, e) record c = (x, c1)" by force
  then have c1: "pinned (state c1) = pinned (state c)"
    by (auto simp: fetch_lookup_def Let_def split: option.splits)
  have "pinned (state c2) = pinned (state c)" if "fetch_insert ebytes (l, e) ex c1 = (y, c2)" for ex y c2
    using fetch_insert_pins [of ebytes "(l, e)" ex c1] c1 by (simp add: that)
  with c1 show ?thesis by (simp add: fetch_def l split: option.splits prod.splits)
qed

lemma pin_loop_props:
  assumes "cache_inv ebytes (served_by inner) c"
    and "pin_loop ebytes inner byte_cap count_cap ks n b c = (Some (n', b'), c')"
  shows "\<exists>m. n' = n + m \<and> m \<le> length ks \<and> (m = 0 \<or> n' \<le> count_cap)
     \<and> pinned (state c') = pinned (state c) \<union> set (take m ks)
     \<and> b' = b + (\<Sum>(l, e) \<leftarrow> take m ks. ebytes (the (inner l e)))
     \<and> (m = 0 \<or> n + m = 1 \<or> b' \<le> byte_cap) \<and> (ks \<noteq> [] \<and> n = 0 \<and> 0 < count_cap \<longrightarrow> 0 < m)
     \<and> cache_inv ebytes (served_by inner) c'"
  using assms
proof (induction ks arbitrary: n b c)
  case (Cons k ks)
  obtain l e where k: "k = (l, e)" by force
  obtain r c1 where f: "fetch ebytes inner l e False c = (r, c1)" by force
  from fetch_spec [OF Cons.prems(1) f] have inv1: "cache_inv ebytes (served_by inner) c1" and r: "r = inner l e" by simp_all
  have pins: "pinned (state c1) = pinned (state c)" using fetch_pins [of ebytes inner l e False c] by (simp add: f)
  show ?case
  proof (cases "count_cap \<le> n")
    case True
    with Cons.prems show ?thesis by (intro exI [of _ 0]) (auto simp: k)
  next
    case False
    with Cons.prems(2) obtain ex where ex: "r = Some ex" by (cases r) (auto simp: k f)
    show ?thesis
    proof (cases "0 < n \<and> byte_cap < b + ebytes ex")
      case True
      with Cons.prems False inv1 pins ex show ?thesis by (intro exI [of _ 0]) (auto simp: k f)
    next
      case go: False
      have "pin_loop ebytes inner byte_cap count_cap ks (n + 1) (b + ebytes ex) (pin_key k c1) = (Some (n', b'), c')"
        using Cons.prems(2) False go ex by (simp add: k f split: if_splits)
      moreover have "cache_inv ebytes (served_by inner) (pin_key k c1)"
        using inv1 by (auto simp: cache_inv_def pin_key_def wf_cstate_def)
      ultimately obtain m where m: "n' = n + 1 + m" "m \<le> length ks" "m = 0 \<or> n' \<le> count_cap"
        "pinned (state c') = pinned (state (pin_key k c1)) \<union> set (take m ks)"
        "b' = b + ebytes ex + (\<Sum>(l, e) \<leftarrow> take m ks. ebytes (the (inner l e)))"
        "m = 0 \<or> n + 1 + m = 1 \<or> b' \<le> byte_cap" "cache_inv ebytes (served_by inner) c'"
        using Cons.IH by blast
      have the_ex: "the (inner l e) = ex" using r ex by (metis option.sel)
      show ?thesis
        using m go False pins the_ex
        by (intro exI [of _ "Suc m"]) (auto simp: k pin_key_def algebra_simps not_less)
    qed
  qed
qed auto

section \<open>Properties\<close>

text \<open>
  Ranking the candidates once and evicting down the list does exactly what the original
  loop did that looked for the coldest candidate again after every eviction: same victims in the
  same order, same final state.
\<close>

lemma evict_same_as_repeated_min:
  assumes "wf_cstate s"
  shows "evict_to_protecting limit protect s cell =
     (case evict_by_repeated_min limit protect s of
        (order, s') \<Rightarrow> (map snd order, s', publish_ram s' cell))"
proof (cases "bytes s \<le> limit")
  case True
  then show ?thesis by (subst evict_by_repeated_min.simps) (simp add: evict_to_protecting_def)
next
  case False
  then show ?thesis using evict_loop_reference [OF assms, of limit protect]
    by (simp add: evict_to_protecting_def split: prod.splits)
qed

text \<open>
  C16: What eviction does: it removes only resident experts that are neither pinned nor
  protected, coldest first (no victim scores higher than a surviving candidate), counts them, ends
  within the limit unless only pinned and protected experts are left, and never evicts one expert
  more than needed.
\<close>

theorem eviction_policy:
  assumes "wf_cstate s" and "evict_to_protecting limit protect s cell = (freed, s', cell')"
  shows "\<exists>order. freed = map snd order \<and> distinct (map fst order) \<and> set order \<subseteq> set (entries s)
     \<and> (\<forall>(k, e) \<in> set order. k \<notin> pinned s \<and> k \<notin> protect)
     \<and> entries s' = filter (\<lambda>(k, _). k \<notin> fst ` set order) (entries s)
     \<and> evictions s' = evictions s + of_nat (length order) \<and> wf_cstate s'
     \<and> (bytes s' \<le> limit \<or> (\<forall>(k, e) \<in> set (entries s'). k \<in> pinned s \<or> k \<in> protect))
     \<and> (\<forall>(k, e) \<in> set order. \<forall>(k', e') \<in> set (entries s'). k' \<notin> pinned s \<and> k' \<notin> protect \<longrightarrow>
          evict_score (e_heat e) (e_last e) (clock s) \<le> evict_score (e_heat e') (e_last e') (clock s))
     \<and> (order \<noteq> [] \<longrightarrow> limit < bytes s' + e_bytes (last freed))"
proof -
  obtain order where o: "freed = map snd order" "evicted_ok limit protect s order s'"
    using evict_to_protecting_ok [OF assms] by blast
  then have s': "s' = without (fst ` set order) (length order) s" by (simp add: evicted_ok_def)
  have "entries s' = filter (\<lambda>(k, _). k \<notin> fst ` set order) (entries s)"
    "evictions s' = evictions s + of_nat (length order)" by (simp_all add: s' without_def)
  moreover have "wf_cstate s'" unfolding s' using assms(1) by (rule wf_without)
  moreover have "order \<noteq> [] \<longrightarrow> limit < bytes s' + e_bytes (last freed)"
    using o by (auto simp: evicted_ok_def last_map)
  ultimately show ?thesis using o unfolding evicted_ok_def evictable_def score_of_def de_Morgan_conj not_not
    by blast
qed

theorem eviction_policy_witness:
  "\<exists>order. map snd order = [\<lparr> e_expert = ''b'', e_bytes = 7, e_heat = 1, e_last = 2 \<rparr>]
     \<and> list_all (\<lambda>(k, e). k \<notin> {(0, 1) :: ekey}) order"
proof -
  let ?s = "\<lparr> entries = [((0, 1), \<lparr> e_expert = ''a'', e_bytes = 7, e_heat = 1, e_last = 3 \<rparr>),
       ((0, 2), \<lparr> e_expert = ''b'', e_bytes = 7, e_heat = 1, e_last = 2 \<rparr>)],
     pinned = {(0, 1)}, bytes = 14, clock = 4, hits = 0, misses = 0, evictions = 0, session_usage = [] \<rparr> :: string cstate"
  have wf: "wf_cstate ?s" by (simp add: wf_cstate_def)
  have "evict_to_protecting 10 {} ?s None = ([\<lparr> e_expert = ''b'', e_bytes = 7, e_heat = 1, e_last = 2 \<rparr>],
      ?s\<lparr> entries := [((0, 1), \<lparr> e_expert = ''a'', e_bytes = 7, e_heat = 1, e_last = 3 \<rparr>)],
        bytes := 7, evictions := 1 \<rparr>, None)"
    by (simp add: evict_to_protecting_def victims_def publish_ram_def cell_set_usage_def)
  from eviction_policy [OF wf this] show ?thesis
  proof (elim exE conjE, goal_cases)
    case (1 order)
    from 1(4) have "list_all (\<lambda>(k, e). k \<notin> {(0, 1)}) order" by (simp add: list_all_iff)
    with 1(1) [symmetric] show ?case by (intro exI [of _ order] conjI)
  qed
qed

text \<open>
  C17: In every state that any interleaving of fetches, pins, batch loads, prefetches, evictions
  and setting changes can reach, the byte count is the sum of the resident experts' sizes, no key
  is resident twice, every entry holds an expert that the provider returned for that very key, and
  an installed ledger shows exactly the resident bytes.
\<close>

theorem cache_accounting:
  assumes "cache_run ebytes serves (cache_new b cell) c" and "ram_synced cell 0"
  shows "bytes (state c) = (\<Sum>(k, e) \<leftarrow> entries (state c). ebytes (e_expert e))
     \<and> distinct (map fst (entries (state c)))
     \<and> (\<forall>(k, e) \<in> set (entries (state c)). serves k (e_expert e))
     \<and> (\<forall>m. ram_cell c = Some m \<longrightarrow> committed_in m Experts = bytes (state c))"
proof -
  have inv: "cache_inv ebytes serves c"
    using cache_run_inv [OF assms(1) cache_inv_new [OF assms(2)]] .
  have "(\<Sum>(k, e) \<leftarrow> xs. e_bytes e) = (\<Sum>(k, e) \<leftarrow> xs. ebytes (e_expert e))"
    if "\<forall>(k, e) \<in> set xs. e_bytes e = ebytes (e_expert e) \<and> serves k (e_expert e)" for xs :: "(ekey \<times> 'a entry) list"
    using that by (induction xs) auto
  with inv show ?thesis by (auto simp: cache_inv_def wf_cstate_def ram_synced_def)
qed

theorem cache_accounting_witness:
  "bytes (state (snd (fetch_insert (\<lambda>x. 5) (0, 1) ''a'' (cache_new 100 (Some (ram_new 1000)))))) = 5"
proof -
  let ?c = "cache_new 100 (Some (ram_new 1000)) :: string cache"
  let ?c1 = "snd (fetch_insert (\<lambda>x. 5) (0, 1) ''a'' ?c)"
  have "cache_run (\<lambda>x. 5) (\<lambda>k x. x = ''a'') ?c ?c1"
    by (rule cache_run.step [OF cache_run.stop cache_step.insert]) simp
  moreover have "ram_synced (Some (ram_new 1000)) 0"
    by (simp add: ram_synced_def wf_ram_def ram_new_def N_CLASSES_def committed_in_def sum_list_replicate)
  ultimately have "bytes (state ?c1) = (\<Sum>(k, e) \<leftarrow> entries (state ?c1). 5)"
    by (rule conjunct1 [OF cache_accounting])
  moreover have "length (entries (state ?c1)) = 1"
    by (simp add: fetch_insert_def cache_new_def cstate_new_def Let_def cache_evict_def
        evict_to_protecting_def split: prod.splits)
  ultimately show ?thesis by (cases "entries (state ?c1)") auto
qed

text \<open>
  C15: The cache is transparent: whatever its history, a sequence of requests through it
  returns, errors included, exactly what the inner provider returns for each key.
\<close>

theorem cache_transparent:
  assumes "cache_run ebytes (served_by inner) (cache_new b cell) c" and "ram_synced cell 0"
  shows "fst (cached.get_all ebytes inner ks c) = map (\<lambda>(l, e). inner l e) ks
     \<and> fst (expert ebytes inner layer xid c) = inner layer xid"
proof -
  have inv: "cache_inv ebytes (served_by inner) c"
    using cache_run_inv [OF assms(1) cache_inv_new [OF assms(2)]] .
  show ?thesis
    using cached.get_all_spec [OF inv prod.collapse [symmetric]] cached.get_spec [OF inv prod.collapse [symmetric]]
    by blast
qed

theorem cache_transparent_witness:
  "fst (expert (\<lambda>x. 5) (\<lambda>l e. if e < 3 then Some (l + e) else None) 4 2 (cache_new 8 None)) = Some 6"
proof -
  have "ram_synced None 0" by (simp add: ram_synced_def)
  from cache_transparent [OF cache_run.stop this, where inner = "\<lambda>l e. if e < 3 then Some (l + e) else None" and layer = 4 and xid = 2]
  show ?thesis by simp
qed

text \<open>
  C18: A resident pinned expert is never lost: through every interleaving of steps it stays
  resident and pinned, with the same contents.
\<close>

theorem pinned_stay_resident:
  assumes "cache_run ebytes serves (cache_new b cell) c" and "ram_synced cell 0"
    and "k \<in> pinned (state c)" and "holds c k x" and "cache_run ebytes serves c c'"
  shows "k \<in> pinned (state c') \<and> holds c' k x"
  using cache_run_keeps [OF assms(5) cache_run_inv [OF assms(1) cache_inv_new [OF assms(2)]] assms(3,4)] .

theorem pinned_stay_resident_witness:
  "holds (cache_evict 0 {} (pin_key (0, 1) (snd (fetch_insert (\<lambda>x. 5) (0, 1) ''a'' (cache_new 100 None))))) (0, 1) ''a''"
proof -
  let ?c1 = "snd (fetch_insert (\<lambda>x. 5) (0, 1) ''a'' (cache_new 100 None)) :: string cache"
  let ?c2 = "pin_key (0, 1) ?c1"
  have r1: "cache_run (\<lambda>x. 5) (\<lambda>k x. x = ''a'') (cache_new 100 None) ?c1"
    by (rule cache_run.step [OF cache_run.stop cache_step.insert]) simp
  have r2: "cache_run (\<lambda>x. 5) (\<lambda>k x. x = ''a'') (cache_new 100 None) ?c2"
    by (rule cache_run.step [OF r1 cache_step.pin])
  have r3: "cache_run (\<lambda>x. 5) (\<lambda>k x. x = ''a'') ?c2 (cache_evict 0 {} ?c2)"
    by (rule cache_run.step [OF cache_run.stop cache_step.evict])
  have "ram_synced None 0" "(0, 1) \<in> pinned (state ?c2)" "holds ?c2 (0, 1) ''a''"
    by (simp_all add: ram_synced_def pin_key_def holds_def fetch_insert_def cache_new_def cstate_new_def Let_def
        cache_evict_def evict_to_protecting_def split: prod.splits)
  from pinned_stay_resident [OF r2 this r3] show ?thesis by blast
qed

text \<open>
  Warming the hot-store from a ranking pins exactly a prefix of it: no more experts than
  the count cap, at least one when there is one to pin, with the reported bytes those of the prefix,
  and within the byte cap as soon as more than one is pinned.
\<close>

lemma pin_ranked_prefix:
  assumes "cache_inv ebytes (served_by inner) c"
    and "pin_ranked ebytes inner order byte_cap count_cap c = (Some (n, b), c')"
  shows "n \<le> length order \<and> n \<le> count_cap \<and> (order \<noteq> [] \<and> 0 < count_cap \<longrightarrow> 0 < n)
     \<and> pinned (state c') = pinned (state c) \<union> set (take n order)
     \<and> b = (\<Sum>(l, e) \<leftarrow> take n order. ebytes (the (inner l e))) \<and> (1 < n \<longrightarrow> b \<le> byte_cap)"
  using pin_loop_props [OF assms(1) assms(2) [unfolded pin_ranked_def]] by auto

end
