(* ===== verification/Monitor.thy ===== *)
theory Monitor
  imports ExpertCache
begin

text \<open>
  The memory control of the expert cache in \<open>cache.rs\<close>: the readings of \<open>/proc/meminfo\<close>, the
  floors and caps, a tick of the adaptive-budget monitor, and the reservation of RAM for a
  request.  The readings of available memory and swap are arguments.  A tick is a sequence of steps,
  one for each access to shared state (a store to the ledger, a look under the lock, a load or store
  of an atomic, an eviction under the lock), and any step of another thread may come between two of
  them.  A reservation is made by the one serving thread and taken as one step.
\<close>

section \<open>Definitions\<close>

definition FLOOR_MIN :: u64 where "FLOOR_MIN = push_bit 30 2"
definition SUSTAIN :: u32 where "SUSTAIN = 6"
definition HARD_SLACK :: u64 where "HARD_SLACK = push_bit 30 3"
definition SWAP_TOLERANCE :: u64 where "SWAP_TOLERANCE = push_bit 20 256"
definition BRAKE_TICKS :: u64 where "BRAKE_TICKS = 4"
definition MAX_BRAKE :: u64 where "MAX_BRAKE = push_bit 30 8"
definition CAP_RECOVER_PER_TICK :: u64 where "CAP_RECOVER_PER_TICK = push_bit 20 64"

subsection \<open>Readings\<close>

definition strip_prefix :: "str \<Rightarrow> str \<Rightarrow> str option" where
  "strip_prefix p s = (if take (length p) s = p then Some (drop (length p) s) else None)"

text \<open>
  The first line with the key decides: the \<open>?\<close> operators end the search when its value does not
  parse.
\<close>

fun meminfo_lines :: "str \<Rightarrow> str list \<Rightarrow> u64 option" where
  "meminfo_lines key [] = None"
| "meminfo_lines key (l # ls) = (case strip_prefix key l of
     None \<Rightarrow> meminfo_lines key ls
   | Some rest \<Rightarrow> (case split_ws rest of
       [] \<Rightarrow> None
     | w # _ \<Rightarrow> map_option (\<lambda>kb. of_nat kb * 1024) (parse_uint (2 ^ 64) 10 w)))"

definition meminfo_field :: "str option \<Rightarrow> str \<Rightarrow> u64 option" where
  "meminfo_field file key = (case file of None \<Rightarrow> None | Some txt \<Rightarrow> meminfo_lines key (lines_of txt))"

definition available_ram_bytes :: "str option \<Rightarrow> u64 option" where
  "available_ram_bytes file = meminfo_field file (str_of ''MemAvailable:'')"

definition total_ram_bytes :: "str option \<Rightarrow> u64 option" where
  "total_ram_bytes file = meminfo_field file (str_of ''MemTotal:'')"

definition swap_used_bytes :: "str option \<Rightarrow> u64 option" where
  "swap_used_bytes file = do {
     t \<leftarrow> meminfo_field file (str_of ''SwapTotal:'');
     f \<leftarrow> meminfo_field file (str_of ''SwapFree:'');
     Some (sat_sub t f) }"

subsection \<open>Floors and caps\<close>

definition braking_floor :: "u64 \<Rightarrow> u64 \<Rightarrow> u64" where
  "braking_floor hard drop_per_tick = sat_add hard (min (sat_mul drop_per_tick BRAKE_TICKS) MAX_BRAKE)"

definition cap_margin :: "u64 \<Rightarrow> u64" where
  "cap_margin hard = sat_add hard (MAX_BRAKE div 2)"

definition supported_cap :: "u64 \<Rightarrow> u64 \<Rightarrow> u64 \<Rightarrow> u64" where
  "supported_cap resident avail hard = sat_sub (sat_add resident avail) (cap_margin hard)"

definition recover_cap :: "u64 \<Rightarrow> u64 \<Rightarrow> u64" where
  "recover_cap cap fill = min (sat_add cap CAP_RECOVER_PER_TICK) fill"

subsection \<open>The monitor\<close>

record monitor =
  m_fill :: u64
  m_danger :: u64
  m_hard :: u64
  m_swap_base :: u64
  low_ticks :: u32
  prev_avail :: u64
  learned_cap :: u64

text \<open>\<open>spawn_adaptive_budget\<close> with its readings: swap, and the available memory read twice.\<close>

definition spawn_adaptive_budget :: "u64 \<Rightarrow> u64 \<Rightarrow> u64 \<Rightarrow> u64 option \<Rightarrow> u64 option \<Rightarrow> u64 option \<Rightarrow>
    'e cache \<Rightarrow> monitor \<times> 'e cache" where
  "spawn_adaptive_budget fill danger hard swap avail1 avail2 c =
     (let fill = max fill FLOOR_MIN;
          hard = max hard FLOOR_MIN;
          danger = max danger hard
      in (\<lparr> m_fill = fill, m_danger = danger, m_hard = hard,
            m_swap_base = (case swap of Some b \<Rightarrow> b | None \<Rightarrow> 0), low_ticks = 0,
            prev_avail = (case avail1 of Some a \<Rightarrow> a | None \<Rightarrow> - 1),
            learned_cap = (case avail2 of
              Some a \<Rightarrow> min fill (max (supported_cap 0 a hard) FLOOR_MIN) | None \<Rightarrow> fill) \<rparr>,
          c\<lparr> fill_target := fill, hard_floor := hard, budget := fill \<rparr>))"

definition publish_usage :: "ram_class \<Rightarrow> u64 \<Rightarrow> 'e cache \<Rightarrow> 'e cache" where
  "publish_usage k b c = c\<lparr> ram_cell := snd (cell_set_usage k b (ram_cell c)) \<rparr>"

definition swap_guard :: "u64 option \<Rightarrow> monitor \<Rightarrow> bool" where
  "swap_guard swap m = (case swap of None \<Rightarrow> False | Some sw \<Rightarrow> m_swap_base m + SWAP_TOLERANCE < sw)"

text \<open>The part of a tick below the guards.\<close>

definition steady_cap :: "u64 \<Rightarrow> u64 \<Rightarrow> monitor \<Rightarrow> u64" where
  "steady_cap resident avail m =
     (let cap = max (min (learned_cap m) (supported_cap resident avail (m_hard m))) FLOOR_MIN in
      if m_danger m < avail \<and> cap \<le> sat_add resident CAP_RECOVER_PER_TICK
      then recover_cap cap (m_fill m) else cap)"

text \<open>
  What a tick decides once it knows the resident bytes: the new monitor, the new budget and whether to
  evict.  The swap guard loads the current budget, the steady path the reserved total.
\<close>

definition tick_choice :: "u64 \<Rightarrow> u64 option \<Rightarrow> u64 \<Rightarrow> u64 \<Rightarrow> u64 \<Rightarrow> u64 \<Rightarrow> monitor \<Rightarrow> monitor \<times> u64 \<times> bool" where
  "tick_choice avail swap drop_per_tick resident cur_budget cur_reserved m =
     (if swap_guard swap m
      then (m\<lparr> low_ticks := 0 \<rparr>, max (min (sat_sub resident (resident div 4)) cur_budget) FLOOR_MIN, True)
      else let floor_now = braking_floor (m_hard m) drop_per_tick in
        if avail < floor_now
        then (let reclaim = sat_add (floor_now - avail) HARD_SLACK;
                  nb = max (sat_sub resident reclaim) FLOOR_MIN
              in (m\<lparr> learned_cap := nb, low_ticks := 0 \<rparr>, nb, True))
        else (let lt = (if avail < m_danger m then sat_add (low_ticks m) 1 else 0);
                  cap = steady_cap resident avail m;
                  held = sat_sub cap cur_reserved;
                  nb = (if SUSTAIN \<le> lt then max (sat_sub resident (m_danger m - avail)) FLOOR_MIN
                        else max held FLOOR_MIN)
              in (m\<lparr> low_ticks := lt, learned_cap := cap \<rparr>, nb, nb < resident)))"

text \<open>
  Where a tick is: before its first access, before each of the two stores to the ledger, before it
  looks at the resident bytes, before it decides (with what it saw), before it stores the budget, before
  it evicts, and asleep again.
\<close>

datatype tick_phase = Fresh | Publish_read_buf u64 | Publish_scratch u64 | Sample u64 | Decide u64 u64
  | Store u64 u64 bool | Evict u64 u64 | Slept

text \<open>
  The next access of the monitor's thread.  \<open>scratch\<close> is \<open>None\<close> without the \<open>cuda\<close> feature; without a
  reading of the available memory the thread ends, so \<open>avail\<close> is a reading.
\<close>

fun tick_next :: "u64 \<Rightarrow> u64 option \<Rightarrow> u64 \<Rightarrow> u64 option \<Rightarrow> monitor \<Rightarrow> tick_phase \<Rightarrow> 'e cache \<Rightarrow>
    (monitor \<times> tick_phase \<times> 'e cache) option" where
  "tick_next avail swap pool_live scratch m Fresh c =
     Some (m\<lparr> prev_avail := avail \<rparr>, Publish_read_buf (sat_sub (prev_avail m) avail), c)"
| "tick_next avail swap pool_live scratch m (Publish_read_buf d) c = Some (m, Publish_scratch d, publish_usage ReadBuf pool_live c)"
| "tick_next avail swap pool_live scratch m (Publish_scratch d) c =
     Some (m, Sample d, case scratch of None \<Rightarrow> c | Some b \<Rightarrow> publish_usage Scratch b c)"
| "tick_next avail swap pool_live scratch m (Sample d) c = Some (m, Decide d (bytes (state c)), c)"
| "tick_next avail swap pool_live scratch m (Decide d resident) c =
     (case tick_choice avail swap d resident (budget c) (reserved c) m of (m, nb, ev) \<Rightarrow> Some (m, Store resident nb ev, c))"
| "tick_next avail swap pool_live scratch m (Store resident nb ev) c =
     Some (m, if ev then Evict resident nb else Slept, c\<lparr> budget := nb \<rparr>)"
| "tick_next avail swap pool_live scratch m (Evict resident nb) c = Some (m, Slept, cache_evict nb {} c)"
| "tick_next avail swap pool_live scratch m Slept c = None"

text \<open>
  A step of another thread: one of the cache's, or a change of the ledger that keeps the figure of the
  experts.  A tick among them, up to a moment.
\<close>

inductive other_step :: "('e \<Rightarrow> u64) \<Rightarrow> (ekey \<Rightarrow> 'e \<Rightarrow> bool) \<Rightarrow> 'e cache \<Rightarrow> 'e cache \<Rightarrow> bool" for ebytes serves where
  cache: "cache_step ebytes serves c c' \<Longrightarrow> other_step ebytes serves c c'"
| ledger: "ram_synced cell (bytes (state c)) \<Longrightarrow> other_step ebytes serves c (c\<lparr> ram_cell := cell \<rparr>)"

inductive ticking :: "('e \<Rightarrow> u64) \<Rightarrow> (ekey \<Rightarrow> 'e \<Rightarrow> bool) \<Rightarrow> u64 \<Rightarrow> u64 option \<Rightarrow> u64 \<Rightarrow> u64 option \<Rightarrow> monitor \<Rightarrow> 'e cache \<Rightarrow>
    monitor \<Rightarrow> tick_phase \<Rightarrow> 'e cache \<Rightarrow> bool" for ebytes serves avail swap pool scratch m0 c0 where
  start: "ticking ebytes serves avail swap pool scratch m0 c0 m0 Fresh c0"
| own: "ticking ebytes serves avail swap pool scratch m0 c0 m p c \<Longrightarrow>
    tick_next avail swap pool scratch m p c = Some (m', p', c') \<Longrightarrow>
    ticking ebytes serves avail swap pool scratch m0 c0 m' p' c'"
| other: "ticking ebytes serves avail swap pool scratch m0 c0 m p c \<Longrightarrow> other_step ebytes serves c c' \<Longrightarrow>
    ticking ebytes serves avail swap pool scratch m0 c0 m p c'"

inductive_cases other_stepE: "other_step ebytes serves c c'"

subsection \<open>Reserving RAM\<close>

text \<open>
  The \<open>fetch_add\<close> of a reservation, and its release, a load and a store, which only the serving thread
  makes.
\<close>

definition release_ram :: "u64 \<Rightarrow> 'e cache \<Rightarrow> 'e cache" where
  "release_ram b c = c\<lparr> reserved := sat_sub (reserved c) b \<rparr>"

definition reserve_add :: "u64 \<Rightarrow> 'e cache \<Rightarrow> 'e cache" where
  "reserve_add b c = c\<lparr> reserved := reserved c + b \<rparr>"

definition MAX_PASSES :: nat where "MAX_PASSES = 4"

text \<open>
  The eviction passes; \<open>read i\<close> is the \<open>i\<close>-th reading of the available memory.  The result is
  the last reading, the index of the next one, and the cache.
\<close>

fun reserve_passes :: "nat \<Rightarrow> (nat \<Rightarrow> u64 option) \<Rightarrow> nat \<Rightarrow> u64 \<Rightarrow> u64 option \<Rightarrow> 'e cache \<Rightarrow>
    u64 option \<times> nat \<times> 'e cache" where
  "reserve_passes 0 read i need avail_after c = (avail_after, i, c)"
| "reserve_passes (Suc n) read i need avail_after c = (case read i of
     None \<Rightarrow> (avail_after, Suc i, c)
   | Some now \<Rightarrow>
       if need \<le> now then (Some now, Suc i, c)
       else (let target = max (sat_sub (bytes (state c)) (need - now)) FLOOR_MIN in
             if bytes (state c) \<le> target then (Some now, Suc i, c)
             else reserve_passes n read (Suc i) need (Some now) ((cache_evict target {} c)\<lparr> budget := target \<rparr>)))"

definition reserve_ram :: "u64 \<Rightarrow> (nat \<Rightarrow> u64 option) \<Rightarrow> 'e cache \<Rightarrow> bool \<times> 'e cache" where
  "reserve_ram b read c =
     (let c = reserve_add b c in
      if fill_target c = 0 then (True, c)
      else case read 0 of
        None \<Rightarrow> (True, c)
      | Some avail \<Rightarrow>
          (let need = sat_add b (hard_floor c) in
           if need \<le> avail then (True, c)
           else case reserve_passes MAX_PASSES read 1 need (Some avail) c of
             (avail_after, i, c) \<Rightarrow>
               (let avail_after = (case read i of Some a \<Rightarrow> Some a | None \<Rightarrow> avail_after);
                    ok = (case avail_after of Some a \<Rightarrow> need \<le> a | None \<Rightarrow> True)
                in (ok, if ok then c else release_ram b c))))"

subsection \<open>Capacity planning\<close>

definition div_ceil_u64 :: "u64 \<Rightarrow> u64 \<Rightarrow> u64" where
  "div_ceil_u64 a b = (if a mod b = 0 then a div b else a div b + 1)"

definition qt_bytes :: "u64 \<Rightarrow> u64 \<Rightarrow> u32 \<Rightarrow> u64" where
  "qt_bytes o' i bits =
     (let n = o' * i in
      if 16 \<le> bits then n * 4
      else if 5 \<le> bits then n + o' * 4
      else if 3 \<le> bits then o' * div_ceil_u64 i 2 + o' * 4
      else o' * div_ceil_u64 i 4 + o' * 4)"

definition bytes_per_expert :: "u64 \<Rightarrow> u64 \<Rightarrow> u32 \<Rightarrow> u64" where
  "bytes_per_expert hidden moe_inter bits = 2 * qt_bytes moe_inter hidden bits + qt_bytes hidden moe_inter bits"

text \<open>The shape of an expert as \<open>bytes_per_expert_of\<close> reads it from the configuration.\<close>

record expert_shape =
  routed_experts_are_latent :: bool
  moe_latent :: u64
  hidden_dim :: u64
  moe_inter_dim :: u64
  relu2 :: bool

definition bytes_per_expert_of :: "expert_shape \<Rightarrow> u32 \<Rightarrow> u64" where
  "bytes_per_expert_of cfg bits =
     (let outer = (if routed_experts_are_latent cfg \<and> 0 < moe_latent cfg then moe_latent cfg else hidden_dim cfg);
          inter = moe_inter_dim cfg;
          up_down = qt_bytes inter outer bits + qt_bytes outer inter bits
      in if relu2 cfg then up_down else up_down + qt_bytes inter outer bits)"

definition experts_in_budget :: "u64 \<Rightarrow> u64 \<Rightarrow> u64" where
  "experts_in_budget budget_bytes per = (if per = 0 then 0 else budget_bytes div per)"

definition context_in_kv_budget :: "u64 \<Rightarrow> u64 \<Rightarrow> u64" where
  "context_in_kv_budget budget_bytes per = (if per = 0 then 0 else budget_bytes div per)"

section \<open>Lemmas\<close>

lemma cache_evict_fields [simp]:
  "budget (cache_evict t p c) = budget c" "reserved (cache_evict t p c) = reserved c"
  "fill_target (cache_evict t p c) = fill_target c" "hard_floor (cache_evict t p c) = hard_floor c"
  by (simp_all add: cache_evict_def split: prod.splits)

lemma cache_inv_settings [simp]:
  "cache_inv ebytes serves (c\<lparr> budget := b \<rparr>) = cache_inv ebytes serves c"
  "cache_inv ebytes serves (c\<lparr> reserved := r \<rparr>) = cache_inv ebytes serves c"
  by (simp_all add: cache_inv_def)

text \<open>Within the limit, or nothing left to evict.\<close>

definition within :: "u64 \<Rightarrow> 'e cache \<Rightarrow> bool" where
  "within limit c \<longleftrightarrow> bytes (state c) \<le> limit \<or> fst ` set (entries (state c)) \<subseteq> pinned (state c)"

lemma cache_evict_within:
  assumes "cache_inv ebytes serves c"
  shows "within t (cache_evict t {} c)" and "cache_inv ebytes serves (cache_evict t {} c)"
proof -
  have wf: "wf_cstate (state c)" using assms by (simp add: cache_inv_def)
  obtain order where o: "evicted_ok t {} (state c) order (state (cache_evict t {} c))"
    using wf by (rule cache_evict_state)
  then have s': "state (cache_evict t {} c) = without (fst ` set order) (length order) (state c)"
    and left: "bytes (state (cache_evict t {} c)) \<le> t
      \<or> (\<forall>(k, e) \<in> set (entries (state (cache_evict t {} c))). \<not> evictable {} (state c) k)"
    unfolding evicted_ok_def by blast+
  have "pinned (state (cache_evict t {} c)) = pinned (state c)" by (simp add: s')
  with left show "within t (cache_evict t {} c)" unfolding within_def evictable_def by force
  show "cache_inv ebytes serves (cache_evict t {} c)"
    using assms by (rule cache_evict_inv [OF cache_inv_pre])
qed

lemma publish_usage_inv:
  assumes "cache_inv ebytes serves c" and "k \<noteq> Experts"
  shows "cache_inv ebytes serves (publish_usage k b c)"
proof (cases "ram_cell c")
  case None
  with assms show ?thesis
    by (auto simp: publish_usage_def cell_set_usage_def cache_inv_def ram_synced_def)
next
  case (Some m)
  then have wf: "wf_ram m" "committed_in m Experts = bytes (state c)"
    using assms(1) by (simp_all add: cache_inv_def ram_synced_def)
  have "wf_ram (snd (set_usage k b m))" "committed_in (snd (set_usage k b m)) Experts = committed_in m Experts"
    using set_usage_facts [OF wf(1) prod.collapse [symmetric], of k b] assms(2) by (metis, metis)
  with assms(1) wf(2) Some show ?thesis
    by (auto simp: publish_usage_def cell_set_usage_def cache_inv_def ram_synced_def case_prod_unfold)
qed

lemma publish_usage_fields [simp]:
  "state (publish_usage k b c) = state c" "budget (publish_usage k b c) = budget c"
  "reserved (publish_usage k b c) = reserved c"
  by (simp_all add: publish_usage_def)

lemma tick_choice_ok:
  assumes "tick_choice avail swap d resident cb cr m = (m', nb, ev)"
  shows "FLOOR_MIN \<le> nb \<and> (\<not> ev \<longrightarrow> resident \<le> nb) \<and>
    (\<not> swap_guard swap m \<and> avail < braking_floor (m_hard m) d \<longrightarrow> ev \<and> learned_cap m' = nb \<and> low_ticks m' = 0 \<and>
      nb = max (sat_sub resident (sat_add (braking_floor (m_hard m) d - avail) HARD_SLACK)) FLOOR_MIN) \<and>
    (SUSTAIN \<le> low_ticks m' \<longrightarrow> avail < m_danger m) \<and> m_hard m' = m_hard m \<and> m_danger m' = m_danger m \<and> m_swap_base m' = m_swap_base m"
proof -
  have s0: "\<not> SUSTAIN \<le> 0" by (simp add: SUSTAIN_def)
  show ?thesis
  proof (cases "swap_guard swap m \<or> avail < braking_floor (m_hard m) d")
    case True
    then show ?thesis using s0 assms by (auto simp: tick_choice_def Let_def split: if_splits)
  next
    case False
    define lt where "lt = (if avail < m_danger m then sat_add (low_ticks m) 1 else 0)"
    define n where "n = (if SUSTAIN \<le> lt then max (sat_sub resident (m_danger m - avail)) FLOOR_MIN
      else max (sat_sub (steady_cap resident avail m) cr) FLOOR_MIN)"
    have "nb = n" "ev = (n < resident)" "m' = m\<lparr> low_ticks := lt, learned_cap := steady_cap resident avail m \<rparr>"
      using assms False unfolding tick_choice_def Let_def lt_def [symmetric] n_def [symmetric] by auto
    moreover have "FLOOR_MIN \<le> n" by (simp add: n_def)
    moreover have "SUSTAIN \<le> lt \<longrightarrow> avail < m_danger m" using s0 by (simp add: lt_def)
    ultimately show ?thesis using False by auto
  qed
qed

lemma other_step_inv: "other_step ebytes serves c c' \<Longrightarrow> cache_inv ebytes serves c \<Longrightarrow> cache_inv ebytes serves c'"
proof (erule other_stepE)
  fix cell assume "c' = c\<lparr> ram_cell := cell \<rparr>" "ram_synced cell (bytes (state c))" "cache_inv ebytes serves c"
  then show "cache_inv ebytes serves c'" by (simp add: cache_inv_def)
qed (rule cache_step_inv)

lemma tick_next_inv:
  assumes "tick_next avail swap pool scratch m p c = Some (m', p', c')" and "cache_inv ebytes serves c"
  shows "cache_inv ebytes serves c'"
proof (cases p)
  case (Evict r nb)
  then have "c' = cache_evict nb {} c" using assms(1) by simp
  then show ?thesis by (simp only: cache_evict_within(2) [OF assms(2)])
qed (use assms publish_usage_inv [OF assms(2)] in \<open>auto split: option.splits prod.splits\<close>)

lemma reserve_passes_ok:
  assumes "cache_inv ebytes serves c" and "reserve_passes n read i need aa c = (aa', i', c')"
  shows "cache_inv ebytes serves c' \<and> reserved c' = reserved c \<and> i' \<le> i + n
     \<and> (c' = c \<or> FLOOR_MIN \<le> budget c' \<and> within (budget c') c')"
  using assms
proof (induction n arbitrary: i aa c)
  case (Suc n)
  show ?case
  proof (cases "read i")
    case None
    with Suc.prems show ?thesis by simp
  next
    case (Some now)
    define target where "target = max (sat_sub (bytes (state c)) (need - now)) FLOOR_MIN"
    show ?thesis
    proof (cases "need \<le> now \<or> bytes (state c) \<le> target")
      case True
      with Suc.prems Some show ?thesis by (auto simp: target_def Let_def split: if_splits)
    next
      case False
      let ?c = "(cache_evict target {} c)\<lparr> budget := target \<rparr>"
      have r: "reserve_passes n read (Suc i) need (Some now) ?c = (aa', i', c')"
        using Suc.prems(2) Some False by (simp add: target_def Let_def)
      have inv: "cache_inv ebytes serves ?c" using cache_evict_within(2) [OF Suc.prems(1)] by simp
      have "FLOOR_MIN \<le> budget ?c \<and> within (budget ?c) ?c"
        using cache_evict_within(1) [OF Suc.prems(1), of target] by (simp add: within_def target_def)
      then show ?thesis using Suc.IH [OF inv r] by auto
    qed
  qed
qed simp

lemma reserve_passes_some:
  "reserve_passes n read i need (Some a) c = (aa, i', c') \<Longrightarrow> aa \<noteq> None"
proof (induction n arbitrary: i a c)
  case (Suc n)
  then show ?case by (cases "read i") (auto simp: Let_def split: if_splits dest!: sym [of "Some _"])
qed auto

lemma reserve_passes_reading:
  assumes "reserve_passes n read i need (Some a0) c = (aa, i', c')" and "j0 < i" and "read j0 = Some a0"
  shows "\<forall>a. aa = Some a \<longrightarrow> (\<exists>j < i'. read j = Some a)"
  using assms
proof (induction n arbitrary: i a0 j0 c)
  case (Suc n)
  show ?case
  proof (cases "read i")
    case None
    with Suc.prems show ?thesis by (auto intro: less_SucI)
  next
    case (Some now)
    with Suc.prems show ?thesis
      using Suc.IH [of "Suc i" now _ i] by (auto simp: Let_def split: if_splits)
  qed
qed auto

section \<open>Properties\<close>

text \<open>What a tick knows when it is about to store a budget, or to evict to the one it stored.\<close>

definition choice_ok :: "u64 \<Rightarrow> u64 option \<Rightarrow> monitor \<Rightarrow> monitor \<Rightarrow> u64 \<Rightarrow> u64 \<Rightarrow> bool \<Rightarrow> bool" where
  "choice_ok avail swap m0 m resident nb ev \<longleftrightarrow> FLOOR_MIN \<le> nb \<and> (\<not> ev \<longrightarrow> resident \<le> nb) \<and>
    (\<not> swap_guard swap m0 \<and> avail < braking_floor (m_hard m0) (sat_sub (prev_avail m0) avail) \<longrightarrow>
       ev \<and> learned_cap m = nb \<and> low_ticks m = 0 \<and>
       nb = max (sat_sub resident (sat_add (braking_floor (m_hard m0) (sat_sub (prev_avail m0) avail) - avail) HARD_SLACK)) FLOOR_MIN) \<and>
    (SUSTAIN \<le> low_ticks m \<longrightarrow> avail < m_danger m0)"

text \<open>The monitor's own data at each phase, and where the resident bytes it carries come from.\<close>

definition phase_inv :: "u64 \<Rightarrow> u64 option \<Rightarrow> (u64 \<Rightarrow> bool) \<Rightarrow> monitor \<Rightarrow> monitor \<Rightarrow> tick_phase \<Rightarrow> bool" where
  "phase_inv avail swap seen m0 m p \<longleftrightarrow> (case p of
     Fresh \<Rightarrow> m = m0
   | Publish_read_buf d \<Rightarrow> m = m0\<lparr> prev_avail := avail \<rparr> \<and> d = sat_sub (prev_avail m0) avail
   | Publish_scratch d \<Rightarrow> m = m0\<lparr> prev_avail := avail \<rparr> \<and> d = sat_sub (prev_avail m0) avail
   | Sample d \<Rightarrow> m = m0\<lparr> prev_avail := avail \<rparr> \<and> d = sat_sub (prev_avail m0) avail
   | Decide d r \<Rightarrow> m = m0\<lparr> prev_avail := avail \<rparr> \<and> d = sat_sub (prev_avail m0) avail \<and> seen r
   | Store r nb ev \<Rightarrow> choice_ok avail swap m0 m r nb ev \<and> seen r
   | Evict r nb \<Rightarrow> choice_ok avail swap m0 m r nb True \<and> seen r
   | Slept \<Rightarrow> True)"

lemma swap_guard_prev [simp]: "swap_guard swap (m\<lparr> prev_avail := a \<rparr>) = swap_guard swap m"
  by (simp add: swap_guard_def split: option.splits)

lemma phase_inv_next:
  assumes "tick_next avail swap pool scratch m p c = Some (m', p', c')" and "phase_inv avail swap seen m0 m p"
    and "\<And>d. p = Sample d \<Longrightarrow> seen (bytes (state c))"
  shows "phase_inv avail swap seen m0 m' p'"
proof (cases p)
  case (Decide d r)
  obtain nb ev where t: "tick_choice avail swap d r (budget c) (reserved c) m = (m', nb, ev)" "p' = Store r nb ev"
    using assms(1) Decide by (auto split: prod.splits)
  have "m = m0\<lparr> prev_avail := avail \<rparr>" "d = sat_sub (prev_avail m0) avail" "seen r"
    using assms(2) Decide by (simp_all add: phase_inv_def)
  then show ?thesis using tick_choice_ok [OF t(1)] t(2) by (simp add: phase_inv_def choice_ok_def)
qed (use assms in \<open>auto simp: phase_inv_def split: if_splits\<close>)

lemma ticking_inv:
  assumes "ticking ebytes serves avail swap pool scratch m0 c0 m p c" and "cache_inv ebytes serves c0"
  shows "cache_inv ebytes serves c \<and> phase_inv avail swap
    (\<lambda>r. \<exists>m1 d c1. ticking ebytes serves avail swap pool scratch m0 c0 m1 (Sample d) c1 \<and> r = bytes (state c1)) m0 m p"
  using assms
proof (induction rule: ticking.induct)
  case (own m p c m' p' c')
  then show ?case using tick_next_inv [OF own(2)] phase_inv_next [OF own(2)] by blast
qed (auto simp: phase_inv_def intro: other_step_inv)

text \<open>
  C19: A tick is safe whatever other threads do between its accesses: loading and inserting experts,
  evicting, reserving, changing the settings or the ledger.  The cache's own invariant holds
  throughout.  Until it sleeps again the tick always has a next access.  The budget it is about to
  store, or has stored and evicts to, is at least the two-gigabyte minimum and was computed from the
  bytes that were resident at the moment it looked; when the out-of-memory guard fires it is
  those bytes less the shortfall and the slack, it is learned as the cap, and an eviction follows;
  no eviction is left out unless the bytes seen were within the budget.  At the moment its eviction
  releases the lock the cache is within that budget, or only pinned experts are left.
\<close>

theorem monitor_tick_safe:
  assumes "cache_inv ebytes serves c0" and "ticking ebytes serves avail swap pool scratch m0 c0 m p c"
  shows "cache_inv ebytes serves c \<and> (p \<noteq> Slept \<longrightarrow> tick_next avail swap pool scratch m p c \<noteq> None) \<and>
    (\<forall>r nb ev. p = Store r nb ev \<or> p = Evict r nb \<and> ev \<longrightarrow> choice_ok avail swap m0 m r nb ev \<and>
      (\<exists>m1 d c1. ticking ebytes serves avail swap pool scratch m0 c0 m1 (Sample d) c1 \<and> r = bytes (state c1))) \<and>
    (\<forall>r nb. p = Evict r nb \<longrightarrow> (\<exists>c'. tick_next avail swap pool scratch m p c = Some (m, Slept, c') \<and> within nb c' \<and>
      cache_inv ebytes serves c'))"
proof -
  note i = ticking_inv [OF assms(2,1)]
  have "p \<noteq> Slept \<longrightarrow> tick_next avail swap pool scratch m p c \<noteq> None" by (cases p) (auto split: prod.splits)
  moreover have "\<exists>c'. tick_next avail swap pool scratch m p c = Some (m, Slept, c') \<and> within nb c' \<and> cache_inv ebytes serves c'"
    if "p = Evict r nb" for r nb using that cache_evict_within [OF conjunct1 [OF i], of nb] by simp
  ultimately show ?thesis using i by (auto simp: phase_inv_def)
qed

text \<open>Memory is short, and while the tick is under way an expert is loaded.\<close>

theorem monitor_tick_safe_witness:
  "\<exists>m nb c. ticking (\<lambda>x. 1) (\<lambda>k x. True) 0 None 0 None
       \<lparr> m_fill = 0x100000000, m_danger = 0x80000000, m_hard = 0x80000000, m_swap_base = 0, low_ticks = 0,
         prev_avail = 0, learned_cap = 0x100000000 \<rparr> (cache_new 5 None :: string cache) m (Evict 0 nb) c
     \<and> bytes (state c) = 1 \<and> nb = FLOOR_MIN"
proof -
  let ?m = "\<lparr> m_fill = 0x100000000, m_danger = 0x80000000, m_hard = 0x80000000, m_swap_base = 0, low_ticks = 0,
         prev_avail = 0, learned_cap = 0x100000000 \<rparr> :: monitor"
  let ?c = "cache_new 5 None :: string cache" and ?eb = "\<lambda>x :: string. 1 :: u64" and ?sv = "\<lambda>(k :: ekey) (x :: string). True"
  let ?c1 = "publish_usage ReadBuf 0 ?c"
  let ?T = "ticking ?eb ?sv 0 None 0 None ?m ?c"
  have inv: "cache_inv ?eb ?sv ?c" by (rule cache_inv_new) (simp add: ram_synced_def)
  have z: "bytes (state ?c) = 0" by (simp add: cache_new_def cstate_new_def)
  have "?T ?m Fresh ?c" by (rule ticking.start)
  from ticking.own [OF this] have "?T ?m (Publish_read_buf 0) ?c" by (simp add: sat_sub_def)
  from ticking.own [OF this] have "?T ?m (Publish_scratch 0) ?c1" by simp
  from ticking.own [OF this] have "?T ?m (Sample 0) ?c1" by simp
  from ticking.own [OF this] have d: "?T ?m (Decide 0 0) ?c1" using z by simp
  let ?c2 = "snd (fetch_insert ?eb (0, 0) ''e'' ?c1)"
  have "other_step ?eb ?sv ?c1 ?c2" by (intro other_step.cache cache_step.insert) simp
  from ticking.other [OF d this] have d2: "?T ?m (Decide 0 0) ?c2" .
  obtain m1 nb1 ev1 where ch: "tick_choice 0 None 0 0 (budget ?c2) (reserved ?c2) ?m = (m1, nb1, ev1)" by (metis prod_cases3)
  from ticking.own [OF d2] have st: "?T m1 (Store 0 nb1 ev1) ?c2" by (simp add: ch)
  from monitor_tick_safe [OF inv st] have ok: "choice_ok 0 None ?m m1 0 nb1 ev1" by blast
  have g: "ev1 \<and> nb1 = FLOOR_MIN"
    using ok by (simp add: choice_ok_def swap_guard_def braking_floor_def sat_mul_def sat_add_def BRAKE_TICKS_def MAX_BRAKE_def sat_sub_def)
  from ticking.own [OF st] g have "?T m1 (Evict 0 FLOOR_MIN) (?c2\<lparr> budget := FLOOR_MIN \<rparr>)" by simp
  moreover have "bytes (state (?c2\<lparr> budget := FLOOR_MIN \<rparr>)) = 1"
    by (simp add: fetch_insert_def cache_new_def cstate_new_def publish_usage_def cell_set_usage_def Let_def cache_evict_def
        evict_to_protecting_def publish_ram_def tick_def)
  ultimately show ?thesis by blast
qed

lemma recover_step: "recover_cap cap fill \<le> sat_add cap CAP_RECOVER_PER_TICK" "recover_cap cap fill \<le> fill"
  by (simp_all add: recover_cap_def)

lemma unat_sat_add_le: "unat (sat_add a b) \<le> unat a + unat (b :: u64)"
  by (simp add: unat_sat_add)

text \<open>
  While no guard fires the learned cap grows by at most one recovery step per tick, it
  never exceeds the plan, and it never promises more than one recovery step beyond what the memory
  available at that tick supports.
\<close>

lemma steady_cap_bounded:
  assumes "learned_cap m \<le> m_fill m" and "FLOOR_MIN \<le> m_fill m"
  shows "FLOOR_MIN \<le> steady_cap resident avail m \<and> steady_cap resident avail m \<le> m_fill m
     \<and> unat (steady_cap resident avail m) \<le> unat (max (learned_cap m) FLOOR_MIN) + 2 ^ 26
     \<and> unat (steady_cap resident avail m)
         \<le> unat (max (supported_cap resident avail (m_hard m)) FLOOR_MIN) + 2 ^ 26"
proof -
  define cap where "cap = max (min (learned_cap m) (supported_cap resident avail (m_hard m))) FLOOR_MIN"
  have r: "steady_cap resident avail m = recover_cap cap (m_fill m) \<or> steady_cap resident avail m = cap"
    by (simp add: steady_cap_def cap_def Let_def)
  have cap: "FLOOR_MIN \<le> cap" "cap \<le> m_fill m" using assms by (auto simp: cap_def min_le_iff_disj)
  have caps: "cap \<le> max (learned_cap m) FLOOR_MIN" "cap \<le> max (supported_cap resident avail (m_hard m)) FLOOR_MIN"
    by (auto simp: cap_def min_le_iff_disj intro: max.coboundedI1)
  have rec: "unat (recover_cap cap (m_fill m)) \<le> unat cap + 2 ^ 26"
    using recover_step(1) [of cap "m_fill m"] unat_sat_add_le [of cap CAP_RECOVER_PER_TICK]
    by (simp add: word_le_nat_alt CAP_RECOVER_PER_TICK_def)
  have "cap \<le> recover_cap cap (m_fill m)"
    using cap(2) le_sat_add [of cap] by (simp add: recover_cap_def)
  then have "FLOOR_MIN \<le> steady_cap resident avail m" using r cap(1) by auto
  moreover have "steady_cap resident avail m \<le> m_fill m" using r cap(2) recover_step(2) by metis
  moreover have "unat (steady_cap resident avail m) \<le> unat cap + 2 ^ 26" using r rec by auto
  ultimately show ?thesis using caps unfolding word_le_nat_alt by linarith
qed

text \<open>
  A reservation is balanced: when \<open>reserve_ram\<close> grants it, the reserved total is up by
  exactly the bytes; when it refuses, the total is what it was.  It grants only when the last reading
  covers the request and the hard floor, or when there is no managed signal; it takes at most six
  readings, and an eviction it makes leaves the budget above the minimum and the cache within it.
\<close>

lemma reserve_ram_balanced:
  assumes "cache_inv ebytes serves c" and "unat (reserved c) + unat b < 2 ^ 64"
    and "reserve_ram b read c = (ok, c')"
  shows "cache_inv ebytes serves c'
     \<and> reserved c' = (if ok then reserved c + b else reserved c)
     \<and> (ok \<longrightarrow> fill_target c = 0 \<or> read 0 = None
          \<or> (\<exists>i \<le> 5. \<exists>a. read i = Some a \<and> sat_add b (hard_floor c) \<le> a))
     \<and> (budget c' = budget c \<or> FLOOR_MIN \<le> budget c' \<and> within (budget c') c')"
proof -
  let ?c = "reserve_add b c"
  let ?need = "sat_add b (hard_floor c)"
  have inv: "cache_inv ebytes serves ?c" using assms(1) by (simp add: reserve_add_def)
  have f: "reserved ?c = reserved c + b" "budget ?c = budget c" "fill_target ?c = fill_target c"
    "hard_floor ?c = hard_floor c" by (simp_all add: reserve_add_def)
  show ?thesis
  proof (cases "fill_target c = 0 \<or> read 0 = None \<or> (\<exists>a. read 0 = Some a \<and> ?need \<le> a)")
    case True
    then have "reserve_ram b read c = (True, ?c)" by (auto simp: reserve_ram_def Let_def f)
    then have "ok \<and> c' = ?c" using assms(3) by simp
    then show ?thesis using True inv f by auto
  next
    case False
    then obtain avail where av: "read 0 = Some avail" "\<not> ?need \<le> avail" by auto
    obtain aa i c2 where p: "reserve_passes MAX_PASSES read 1 ?need (Some avail) ?c = (aa, i, c2)"
      by (metis prod.collapse)
    note po = reserve_passes_ok [OF inv p]
    have aa: "aa = Some a \<Longrightarrow> \<exists>j < i. read j = Some a" for a
      using reserve_passes_reading [OF p _ av(1)] by simp
    define last where "last = (case read i of Some a \<Rightarrow> Some a | None \<Rightarrow> aa)"
    have res: "ok = (case last of Some a \<Rightarrow> ?need \<le> a | None \<Rightarrow> True)"
      "c' = (if ok then c2 else release_ram b c2)"
      using assms(3) False av p by (auto simp: reserve_ram_def Let_def f last_def split: option.splits)
    have i5: "i \<le> 5" using po by (simp add: MAX_PASSES_def)
    have "last \<noteq> None" using reserve_passes_some [OF p] by (auto simp: last_def split: option.splits)
    then have ok: "\<exists>i \<le> 5. \<exists>a. read i = Some a \<and> ?need \<le> a" if ok
      using that res(1) aa i5 by (auto simp: last_def split: option.splits) (meson less_imp_le_nat order_trans)
    have rel: "sat_sub (reserved c + b) b = reserved c"
      using assms(2) by (simp add: word_unat_eq_iff unat_add_no_wrap)
    have c': "cache_inv ebytes serves c'" "reserved c' = (if ok then reserved c + b else reserved c)"
      "budget c' = budget c2" "within x c' = within x c2" for x
      using po res(2) f rel by (auto simp: release_ram_def within_def)
    have "budget c2 = budget c \<or> FLOOR_MIN \<le> budget c2 \<and> within (budget c2) c2" using po f(2) by auto
    then show ?thesis using c' ok by auto
  qed
qed

text \<open>The reading of a well-formed \<open>/proc/meminfo\<close> line.\<close>

lemma meminfo_line_read:
  assumes "kb < 2 ^ 64"
  shows "meminfo_lines key ((key @ 32 # show_dec kb @ 32 # unit) # ls) = Some (of_nat kb * 1024)"
proof -
  have "split_ws (32 # show_dec kb @ 32 # unit) = show_dec kb # split_ws unit"
    by (subst split_ws_skip, simp add: is_ws_def, subst split_ws_word)
       (auto simp: is_ws_def split_ws_skip dest: show_dec_not_ws)
  then show ?thesis using parse_show_dec [OF assms] by (simp add: strip_prefix_def)
qed

end
