(* ===== verification/RangeSearch.thy ===== *)
theory RangeSearch
  imports Prelude
begin

text \<open>
  Binary search of a codepoint in a table of ranges (\<open>uni_in\<close> of \<open>unicode_tables.rs\<close>), and its
  correctness on sorted tables without overlap.
\<close>

section \<open>Binary search\<close>

text \<open>
  \<open>uni_in\<close>: the window \<open>[lo, hi]\<close> is kept in \<open>isize\<close>, so that \<open>hi\<close> can fall to \<open>-1\<close>; \<open>lo\<close> only
  grows from 0.
\<close>

function uni_in_loop :: "(u32 \<times> u32) list \<Rightarrow> u32 \<Rightarrow> nat \<Rightarrow> int \<Rightarrow> bool" where
  "uni_in_loop table cp lo hi =
     (if int lo \<le> hi then
        let m = (lo + nat hi) div 2; (a, b) = table ! m in
        if cp < a then uni_in_loop table cp lo (int m - 1)
        else if b < cp then uni_in_loop table cp (m + 1) hi
        else True
      else False)"
  by pat_completeness auto
termination
  by (relation "measure (\<lambda>(table, cp, lo, hi). nat (hi + 1 - int lo))") auto

declare uni_in_loop.simps [simp del]

definition uni_in :: "(u32 \<times> u32) list \<Rightarrow> u32 \<Rightarrow> bool" where
  "uni_in table cp = uni_in_loop table cp 0 (int (length table) - 1)"

section \<open>Sorted, non-overlapping tables\<close>

fun ranges_ok :: "(u32 \<times> u32) list \<Rightarrow> bool" where
  "ranges_ok [] = True"
| "ranges_ok [(a, b)] = (a \<le> b)"
| "ranges_ok ((a, b) # (c, d) # t) = (a \<le> b \<and> b < c \<and> ranges_ok ((c, d) # t))"

fun in_ranges :: "(u32 \<times> u32) list \<Rightarrow> u32 \<Rightarrow> bool" where
  "in_ranges [] c = False"
| "in_ranges ((a, b) # t) c = (a \<le> c \<and> c \<le> b \<or> in_ranges t c)"

lemma ranges_ok_hd: "ranges_ok (r # t) \<Longrightarrow> i < length t \<Longrightarrow> snd r < fst (t ! i)"
proof (induction t arbitrary: r i)
  case (Cons s t)
  obtain a b c d where rs: "r = (a, b)" "s = (c, d)" by (cases r, cases s)
  with Cons.prems have ok: "b < c" "c \<le> d" "ranges_ok (s # t)" by (cases t; auto)+
  show ?case
  proof (cases i)
    case (Suc k)
    with Cons.prems(2) have "k < length t" by simp
    from Cons.IH [OF ok(3) this] rs ok Suc show ?thesis by simp
  qed (use rs ok in simp)
qed simp

lemma ranges_ok_tl: "ranges_ok (r # t) \<Longrightarrow> ranges_ok t"
  by (cases r, cases t) auto

lemma ranges_ok_nth_less:
  "ranges_ok t \<Longrightarrow> i < j \<Longrightarrow> j < length t \<Longrightarrow> snd (t ! i) < fst (t ! j)"
proof (induction t arbitrary: i j)
  case (Cons r t)
  then obtain k where k: "j = Suc k" by (cases j) auto
  show ?case
  proof (cases i)
    case 0
    with Cons.prems k show ?thesis by (simp add: ranges_ok_hd)
  next
    case (Suc l)
    with Cons.prems k Cons.IH [of l k] show ?thesis by (simp add: ranges_ok_tl)
  qed
qed simp

lemma ranges_ok_nth_le: "ranges_ok t \<Longrightarrow> i < length t \<Longrightarrow> fst (t ! i) \<le> snd (t ! i)"
proof (induction t arbitrary: i)
  case (Cons r t)
  have "fst r \<le> snd r" using Cons.prems(1) by (cases r, cases t) auto
  with Cons ranges_ok_tl show ?case by (cases i) auto
qed simp

lemma in_ranges_nth:
  "in_ranges t c \<longleftrightarrow> (\<exists>i<length t. fst (t ! i) \<le> c \<and> c \<le> snd (t ! i))"
proof (induction t)
  case (Cons r t)
  then show ?case by (cases r) (auto simp: less_Suc_eq_0_disj)
qed simp

text \<open>The search window always holds every index that can still match.\<close>

lemma uni_in_loop_window:
  assumes ok: "ranges_ok table"
  shows "hi < int (length table) \<Longrightarrow> uni_in_loop table cp lo hi \<longleftrightarrow>
    (\<exists>i. lo \<le> i \<and> int i \<le> hi \<and> fst (table ! i) \<le> cp \<and> cp \<le> snd (table ! i))"
proof (induction "nat (hi + 1 - int lo)" arbitrary: lo hi rule: less_induct)
  case less
  show ?case
  proof (cases "int lo \<le> hi")
    case True
    define m where "m = (lo + nat hi) div 2"
    obtain a b where ab: "table ! m = (a, b)" by (cases "table ! m")
    have m: "lo \<le> m" "int m \<le> hi" using True by (auto simp: m_def)
    with less.prems have len: "m < length table" by linarith
    have above: "b < fst (table ! i)" if "m < i" "int i \<le> hi" for i
      using ranges_ok_nth_less [OF ok that(1)] that(2) less.prems ab by simp
    have below: "snd (table ! i) < a" if "i < m" for i
      using ranges_ok_nth_less [OF ok that len] ab by simp
    have ale: "a \<le> b" using ranges_ok_nth_le [OF ok len] ab by simp
    have unf: "uni_in_loop table cp lo hi =
        (if cp < a then uni_in_loop table cp lo (int m - 1)
         else if b < cp then uni_in_loop table cp (m + 1) hi else True)"
      using True ab by (subst uni_in_loop.simps) (simp add: m_def [symmetric])
    consider "cp < a" | "\<not> cp < a" "b < cp" | "a \<le> cp" "cp \<le> b" by fastforce
    then show ?thesis
    proof cases
      case 1
      have "uni_in_loop table cp lo hi = uni_in_loop table cp lo (int m - 1)" using unf 1 by simp
      also have "\<dots> = (\<exists>i. lo \<le> i \<and> int i \<le> int m - 1 \<and> fst (table ! i) \<le> cp \<and> cp \<le> snd (table ! i))"
        by (rule less.hyps) (use m less.prems len in linarith)+
      also have "\<dots> = (\<exists>i. lo \<le> i \<and> int i \<le> hi \<and> fst (table ! i) \<le> cp \<and> cp \<le> snd (table ! i))"
      proof -
        have "int i \<le> int m - 1" if "int i \<le> hi" "fst (table ! i) \<le> cp" for i
        proof (rule ccontr)
          assume "\<not> int i \<le> int m - 1"
          then have "i = m \<or> m < i" by linarith
          then show False using above [of i] that ab 1 ale by force
        qed
        moreover have "int i \<le> hi" if "int i \<le> int m - 1" for i using that m by linarith
        ultimately show ?thesis by blast
      qed
      finally show ?thesis .
    next
      case 2
      have "uni_in_loop table cp lo hi = uni_in_loop table cp (m + 1) hi" using unf 2 by simp
      also have "\<dots> = (\<exists>i. m + 1 \<le> i \<and> int i \<le> hi \<and> fst (table ! i) \<le> cp \<and> cp \<le> snd (table ! i))"
        by (rule less.hyps) (use m less.prems True in linarith)+
      also have "\<dots> = (\<exists>i. lo \<le> i \<and> int i \<le> hi \<and> fst (table ! i) \<le> cp \<and> cp \<le> snd (table ! i))"
      proof -
        have "m + 1 \<le> i" if "cp \<le> snd (table ! i)" for i
        proof (rule ccontr)
          assume "\<not> m + 1 \<le> i"
          then have "i = m \<or> i < m" by linarith
          then show False using below [of i] that ab 2 ale by force
        qed
        moreover have "lo \<le> i" if "m + 1 \<le> i" for i using that m by linarith
        ultimately show ?thesis by blast
      qed
      finally show ?thesis .
    next
      case 3
      have "fst (table ! m) \<le> cp \<and> cp \<le> snd (table ! m)" using ab 3 by simp
      with unf 3 m show ?thesis by (auto simp: not_less)
    qed
  next
    case False
    then show ?thesis by (subst uni_in_loop.simps) auto
  qed
qed

lemma uni_in_ranges:
  assumes "ranges_ok table"
  shows "uni_in table cp \<longleftrightarrow> in_ranges table cp"
proof -
  have "uni_in table cp \<longleftrightarrow>
      (\<exists>i. int i \<le> int (length table) - 1 \<and> fst (table ! i) \<le> cp \<and> cp \<le> snd (table ! i))"
    unfolding uni_in_def by (subst uni_in_loop_window [OF assms]) auto
  also have "\<dots> \<longleftrightarrow> in_ranges table cp"
    unfolding in_ranges_nth by (simp add: zle_diff1_eq)
  finally show ?thesis .
qed

end
