(* ===== verification/Pretok.thy ===== *)
theory Pretok
  imports UnicodeTables
begin

text \<open>
  The two pre-tokenizer splits of \<open>colibri-tokenizer\<close>: the cl100k alternatives of
  \<open>split_cl100k\<close> and the Kimi-K3 alternatives of \<open>k3_piece_ends\<close>, both over the codepoints of a
  chunk.  Each is a hand-written scanner; \<open>cl100k_next\<close> and \<open>k3_next\<close> are the bodies of the two
  loops, from the start of a piece to its end.

  The reference is the regular expression quoted in the source, given the semantics of a
  backtracking engine: \<open>matches\<close> lists the ends of all matches of a pattern at a position, in the
  order in which the engine tries them.  Both scanners return the first of them.
\<close>

section \<open>Scanning\<close>

definition is_nl :: "u32 \<Rightarrow> bool" where
  "is_nl c \<longleftrightarrow> c = 0x0D \<or> c = 0x0A"

definition low :: "u32 \<Rightarrow> u32" where
  "low c = (if 0x41 \<le> c \<and> c \<le> 0x5A then c + 32 else c)"

text \<open>\<open>while k < n \<and> p(cp[k]) { k += 1 }\<close>\<close>

function scan_while :: "(u32 \<Rightarrow> bool) \<Rightarrow> u32 list \<Rightarrow> nat \<Rightarrow> nat" where
  "scan_while P cp k = (if k < length cp \<and> P (cp ! k) then scan_while P cp (k + 1) else k)"
  by pat_completeness auto
termination
  by (relation "measure (\<lambda>(P, cp, k). length cp - k)") auto

declare scan_while.simps [simp del]

function scan_num :: "u32 list \<Rightarrow> nat \<Rightarrow> nat \<Rightarrow> nat" where
  "scan_num cp j k =
     (if j < length cp \<and> is_n (cp ! j) \<and> k < 3 then scan_num cp (j + 1) (k + 1) else j)"
  by pat_completeness auto
termination
  by (relation "measure (\<lambda>(cp, j, k). length cp - j)") auto

declare scan_num.simps [simp del]

section \<open>The cl100k alternatives\<close>

text \<open>1) the contractions\<close>

definition cl_contraction :: "u32 list \<Rightarrow> nat \<Rightarrow> nat option" where
  "cl_contraction cp i =
     (if cp ! i = 0x27 \<and> i + 1 < length cp then
        let d = low (cp ! (i + 1)) in
        if i + 2 < length cp \<and>
           (let d2 = low (cp ! (i + 2)) in
            d = 0x72 \<and> d2 = 0x65 \<or> d = 0x76 \<and> d2 = 0x65 \<or> d = 0x6C \<and> d2 = 0x6C)
        then Some (i + 3)
        else if d = 0x73 \<or> d = 0x74 \<or> d = 0x6D \<or> d = 0x64 then Some (i + 2)
        else None
      else None)"

text \<open>2) an optional prefix and a run of letters\<close>

definition cl_letters :: "u32 list \<Rightarrow> nat \<Rightarrow> nat option" where
  "cl_letters cp i =
     (let c = cp ! i;
          j = (if \<not> is_l c \<and> \<not> is_nl c \<and> \<not> is_n c
               then (if i + 1 < length cp \<and> is_l (cp ! (i + 1)) then Some (i + 1) else None)
               else Some i)
      in case j of
           None \<Rightarrow> None
         | Some ju \<Rightarrow> if is_l (cp ! ju) then Some (scan_while is_l cp ju) else None)"

text \<open>3) up to three digits\<close>

definition number_alt :: "u32 list \<Rightarrow> nat \<Rightarrow> nat option" where
  "number_alt cp i = (if is_n (cp ! i) then Some (scan_num cp i 0) else None)"

text \<open>4) punctuation, with an optional space before it and newlines after it\<close>

definition is_punct :: "u32 \<Rightarrow> bool" where
  "is_punct c \<longleftrightarrow> \<not> is_s c \<and> \<not> is_l c \<and> \<not> is_n c"

definition punct_alt :: "u32 list \<Rightarrow> nat \<Rightarrow> nat option" where
  "punct_alt cp i =
     (let j = (if cp ! i = 0x20 \<and> i + 1 < length cp \<and> is_punct (cp ! (i + 1)) then i + 1 else i) in
      if j < length cp \<and> is_punct (cp ! j)
      then Some (scan_while is_nl cp (scan_while is_punct cp j)) else None)"

text \<open>5) whitespace up to its last newline; 6) and 7) other whitespace\<close>

definition last_nl :: "u32 list \<Rightarrow> nat \<Rightarrow> nat \<Rightarrow> nat option" where
  "last_nl cp i r = fold (\<lambda>j last. if is_nl (cp ! j) then Some j else last) [i..<r] None"

definition space_alt :: "u32 list \<Rightarrow> nat \<Rightarrow> nat option" where
  "space_alt cp i =
     (let r = scan_while is_s cp i in
      if i < r then
        (case last_nl cp i r of
           Some l \<Rightarrow> Some (l + 1)
         | None \<Rightarrow>
             let e = (if r < length cp then r - 1 else r) in
             Some (if e \<le> i then i + 1 else e))
      else None)"

text \<open>The alternatives in order; the last line is the code's safety net.\<close>

definition cl100k_next :: "u32 list \<Rightarrow> nat \<Rightarrow> nat" where
  "cl100k_next cp i =
     (case cl_contraction cp i of Some e \<Rightarrow> e | None \<Rightarrow>
      case cl_letters cp i of Some e \<Rightarrow> e | None \<Rightarrow>
      case number_alt cp i of Some e \<Rightarrow> e | None \<Rightarrow>
      case punct_alt cp i of Some e \<Rightarrow> e | None \<Rightarrow>
      case space_alt cp i of Some e \<Rightarrow> e | None \<Rightarrow> i + 1)"

section \<open>The Kimi-K3 alternatives\<close>

definition contraction_len :: "u32 list \<Rightarrow> nat \<Rightarrow> nat" where
  "contraction_len cp i =
     (if length cp \<le> i \<or> cp ! i \<noteq> 0x27 \<or> length cp \<le> i + 1 then 0
      else let d = low (cp ! (i + 1)) in
        if i + 2 < length cp \<and>
           (let d2 = low (cp ! (i + 2)) in
            (d, d2) = (0x72, 0x65) \<or> (d, d2) = (0x76, 0x65) \<or> (d, d2) = (0x6C, 0x6C))
        then 3
        else if d = 0x73 \<or> d = 0x74 \<or> d = 0x6D \<or> d = 0x64 then 2 else 0)"

text \<open>
  \<open>k3_alt2\<close>: the split point walks down from the end of the upper-ish run; \<open>b \<le> k\<close> throughout.
\<close>

function k3_walk_down :: "u32 list \<Rightarrow> nat \<Rightarrow> nat \<Rightarrow> nat option" where
  "k3_walk_down cp b k =
     (if k < length cp \<and> is_k3_lower (cp ! k) then Some (scan_while is_k3_lower cp k)
      else if k \<le> b then None
      else k3_walk_down cp b (k - 1))"
  by pat_completeness auto
termination
  by (relation "measure (\<lambda>(cp, b, k). k)") auto

declare k3_walk_down.simps [simp del]

definition k3_alt2 :: "u32 list \<Rightarrow> nat \<Rightarrow> nat option" where
  "k3_alt2 cp b = (if length cp \<le> b then None
     else k3_walk_down cp b (scan_while is_k3_upper cp b))"

definition k3_alt3 :: "u32 list \<Rightarrow> nat \<Rightarrow> nat option" where
  "k3_alt3 cp b =
     (let u_end = scan_while is_k3_upper cp b in
      if u_end = b then None else Some (scan_while is_k3_lower cp u_end))"

definition can_prefix :: "u32 \<Rightarrow> bool" where
  "can_prefix c \<longleftrightarrow> \<not> is_nl c \<and> \<not> is_l c \<and> \<not> is_n c"

fun first_some :: "('a \<Rightarrow> 'b option) \<Rightarrow> 'a list \<Rightarrow> 'b option" where
  "first_some f [] = None"
| "first_some f (x # xs) = (case f x of Some y \<Rightarrow> Some y | None \<Rightarrow> first_some f xs)"

text \<open>2) and 3): for each alternative, with the prefix and then bare\<close>

definition k3_letters :: "u32 list \<Rightarrow> nat \<Rightarrow> nat option" where
  "k3_letters cp i =
     first_some (\<lambda>(alt, use_prefix).
         if use_prefix \<and> \<not> can_prefix (cp ! i) then None
         else case alt cp (if use_prefix then i + 1 else i) of
             None \<Rightarrow> None
           | Some e \<Rightarrow> Some (e + contraction_len cp e))
       [(k3_alt2, True), (k3_alt2, False), (k3_alt3, True), (k3_alt3, False)]"

definition k3_han :: "u32 list \<Rightarrow> nat \<Rightarrow> nat option" where
  "k3_han cp i = (if is_han (cp ! i) then Some (scan_while is_han cp i) else None)"

text \<open>\<open>cp[i..r].iter().rposition(is_nl)\<close>\<close>

fun rposition :: "('a \<Rightarrow> bool) \<Rightarrow> 'a list \<Rightarrow> nat option" where
  "rposition P [] = None"
| "rposition P (x # xs) =
     (case rposition P xs of Some k \<Rightarrow> Some (k + 1) | None \<Rightarrow> if P x then Some 0 else None)"

definition k3_space :: "u32 list \<Rightarrow> nat \<Rightarrow> nat option" where
  "k3_space cp i =
     (let r = scan_while is_s cp i in
      if i < r then
        (case rposition is_nl (take (r - i) (drop i cp)) of
           Some k \<Rightarrow> Some (i + k + 1)
         | None \<Rightarrow>
             let e = (if r < length cp then r - 1 else r) in
             Some (if e \<le> i then i + 1 else e))
      else None)"

definition k3_next :: "u32 list \<Rightarrow> nat \<Rightarrow> nat" where
  "k3_next cp i =
     (case k3_han cp i of Some e \<Rightarrow> e | None \<Rightarrow>
      case k3_letters cp i of Some e \<Rightarrow> e | None \<Rightarrow>
      case number_alt cp i of Some e \<Rightarrow> e | None \<Rightarrow>
      case punct_alt cp i of Some e \<Rightarrow> e | None \<Rightarrow>
      case k3_space cp i of Some e \<Rightarrow> e | None \<Rightarrow> i + 1)"

section \<open>Progress\<close>

lemma scan_while_ge: "k \<le> scan_while P cp k"
  by (induction P cp k rule: scan_while.induct) (subst scan_while.simps, auto)

lemma scan_while_le: "k \<le> length cp \<Longrightarrow> scan_while P cp k \<le> length cp"
  by (induction P cp k rule: scan_while.induct) (subst scan_while.simps, auto)

lemma scan_while_step:
  "k < length cp \<Longrightarrow> P (cp ! k) \<Longrightarrow> scan_while P cp k = scan_while P cp (k + 1)"
  by (subst scan_while.simps) simp

lemma scan_while_stop: "\<not> (k < length cp \<and> P (cp ! k)) \<Longrightarrow> scan_while P cp k = k"
  by (subst scan_while.simps) auto

lemma scan_while_gt: "k < length cp \<Longrightarrow> P (cp ! k) \<Longrightarrow> k < scan_while P cp k"
  using scan_while_ge [of "k + 1" P cp] by (simp add: scan_while_step)

lemma scan_while_eq_iff: "scan_while P cp k = k \<longleftrightarrow> \<not> (k < length cp \<and> P (cp ! k))"
  using scan_while_gt scan_while_stop by (metis less_irrefl)

lemma scan_while_all: "k \<le> j \<Longrightarrow> j < scan_while P cp k \<Longrightarrow> j < length cp \<and> P (cp ! j)"
proof (induction P cp k rule: scan_while.induct)
  case (1 P cp k)
  show ?case
  proof (cases "k < length cp \<and> P (cp ! k)")
    case True
    with 1 show ?thesis by (cases "j = k") (simp_all add: scan_while_step)
  next
    case False
    with 1 show ?thesis by (simp add: scan_while_stop)
  qed
qed

lemma scan_while_end: "scan_while P cp k < length cp \<Longrightarrow> \<not> P (cp ! scan_while P cp k)"
proof (induction P cp k rule: scan_while.induct)
  case (1 P cp k)
  then show ?case by (cases "k < length cp \<and> P (cp ! k)") (simp_all add: scan_while_step scan_while_stop)
qed

lemma scan_num_ge: "j \<le> scan_num cp j k"
  by (induction cp j k rule: scan_num.induct) (subst scan_num.simps, auto)

lemma scan_num_le: "j \<le> length cp \<Longrightarrow> scan_num cp j k \<le> length cp"
  by (induction cp j k rule: scan_num.induct) (subst scan_num.simps, auto)

lemma scan_num_gt: "j < length cp \<Longrightarrow> is_n (cp ! j) \<Longrightarrow> j < scan_num cp j 0"
  using scan_num_ge [of "j + 1" cp 1] by (subst scan_num.simps) simp

lemma contraction_len_le: "e \<le> length cp \<Longrightarrow> e + contraction_len cp e \<le> length cp"
  by (auto simp: contraction_len_def Let_def)

lemma contraction_len_cl:
  "i < length cp \<Longrightarrow>
   cl_contraction cp i = (if contraction_len cp i = 0 then None else Some (i + contraction_len cp i))"
  by (auto simp: cl_contraction_def contraction_len_def Let_def)

lemma last_nl_append:
  "i \<le> r \<Longrightarrow> last_nl cp i (Suc r) = (if is_nl (cp ! r) then Some r else last_nl cp i r)"
  by (simp add: last_nl_def)

lemma rposition_snoc:
  "rposition P (xs @ [x]) = (if P x then Some (length xs) else rposition P xs)"
  by (induction xs) (auto split: option.splits)

text \<open>The two ways of finding the last newline of a run agree.\<close>

lemma last_nl_rposition:
  assumes "i \<le> r" and "r \<le> length cp"
  shows "last_nl cp i r = map_option (\<lambda>k. i + k) (rposition is_nl (take (r - i) (drop i cp)))"
  using assms
proof (induction r rule: dec_induct)
  case base
  then show ?case by (simp add: last_nl_def)
next
  case (step r)
  then have "take (Suc r - i) (drop i cp) = take (r - i) (drop i cp) @ [cp ! r]"
    by (simp add: Suc_diff_le take_Suc_conv_app_nth)
  with step show ?case by (simp add: last_nl_append rposition_snoc)
qed

lemma k3_space_eq: "i \<le> length cp \<Longrightarrow> k3_space cp i = space_alt cp i"
  using last_nl_rposition [of i "scan_while is_s cp i" cp] scan_while_ge [of i is_s cp]
    scan_while_le [of i cp is_s]
  by (auto simp: k3_space_def space_alt_def Let_def split: option.splits)

lemma last_nl_in: "i \<le> r \<Longrightarrow> last_nl cp i r = Some l \<Longrightarrow> i \<le> l \<and> l < r \<and> is_nl (cp ! l)"
proof (induction r rule: dec_induct)
  case base
  then show ?case by (simp add: last_nl_def)
qed (auto simp: last_nl_append split: if_splits)

lemma last_nl_None: "i \<le> r \<Longrightarrow> last_nl cp i r = None \<longleftrightarrow> (\<forall>j. i \<le> j \<and> j < r \<longrightarrow> \<not> is_nl (cp ! j))"
proof (induction r rule: dec_induct)
  case base
  then show ?case by (auto simp: last_nl_def)
qed (auto simp: last_nl_append less_Suc_eq)

lemma last_nl_last:
  "i \<le> r \<Longrightarrow> last_nl cp i r = Some l \<Longrightarrow> l < j \<Longrightarrow> j < r \<Longrightarrow> \<not> is_nl (cp ! j)"
proof (induction r rule: dec_induct)
  case base
  then show ?case by (simp add: last_nl_def)
qed (auto simp: last_nl_append less_Suc_eq split: if_splits)

lemma k3_walk_down_bound:
  assumes "b \<le> k" "k \<le> length cp" "k3_walk_down cp b k = Some e"
  shows "b < e \<and> e \<le> length cp"
  using assms
proof (induction cp b k rule: k3_walk_down.induct)
  case (1 cp b k)
  from 1(4) show ?case
    using 1(1) 1(2,3) scan_while_gt [of k cp is_k3_lower] scan_while_le [of k cp is_k3_lower]
    by (subst (asm) k3_walk_down.simps) (force split: if_splits)
qed

lemma k3_alt2_bound: "k3_alt2 cp b = Some e \<Longrightarrow> b < e \<and> e \<le> length cp"
  using k3_walk_down_bound [of b "scan_while is_k3_upper cp b" cp e] scan_while_ge [of b is_k3_upper cp]
    scan_while_le [of b cp is_k3_upper]
  by (simp add: k3_alt2_def split: if_splits)

lemma k3_alt3_bound: "k3_alt3 cp b = Some e \<Longrightarrow> b < e \<and> e \<le> length cp"
proof -
  assume "k3_alt3 cp b = Some e"
  then have e: "e = scan_while is_k3_lower cp (scan_while is_k3_upper cp b)"
    and ne: "scan_while is_k3_upper cp b \<noteq> b"
    by (auto simp: k3_alt3_def Let_def split: if_splits)
  from ne have b: "b < length cp" by (simp add: scan_while_eq_iff)
  have "b < scan_while is_k3_upper cp b" using ne scan_while_ge le_neq_implies_less by metis
  with b e show ?thesis
    using scan_while_ge [of "scan_while is_k3_upper cp b" is_k3_lower cp]
      scan_while_le [of "scan_while is_k3_upper cp b" cp is_k3_lower]
      scan_while_le [of b cp is_k3_upper]
    by linarith
qed

lemma contraction_bound:
  "b < e \<and> e \<le> length cp \<Longrightarrow> b < e + contraction_len cp e \<and> e + contraction_len cp e \<le> length cp"
  using contraction_len_le [of e cp] by linarith

text \<open>Each alternative that matches ends after its start and within the text.\<close>

lemma alt_bounds:
  assumes "i < length cp"
  shows "cl_contraction cp i = Some e \<Longrightarrow> i < e \<and> e \<le> length cp"
    and "cl_letters cp i = Some e \<Longrightarrow> i < e \<and> e \<le> length cp"
    and "number_alt cp i = Some e \<Longrightarrow> i < e \<and> e \<le> length cp"
    and "punct_alt cp i = Some e \<Longrightarrow> i < e \<and> e \<le> length cp"
    and "space_alt cp i = Some e \<Longrightarrow> i < e \<and> e \<le> length cp"
    and "k3_han cp i = Some e \<Longrightarrow> i < e \<and> e \<le> length cp"
    and "k3_letters cp i = Some e \<Longrightarrow> i < e \<and> e \<le> length cp"
proof -
  show "i < e \<and> e \<le> length cp" if "cl_contraction cp i = Some e"
    using that by (auto simp: cl_contraction_def Let_def split: if_splits)
  show "i < e \<and> e \<le> length cp" if "cl_letters cp i = Some e"
    using that assms scan_while_gt [of i cp is_l] scan_while_le [of i cp is_l]
      scan_while_gt [of "i + 1" cp is_l] scan_while_le [of "i + 1" cp is_l]
    by (auto simp: cl_letters_def Let_def split: if_splits)
  show "i < e \<and> e \<le> length cp" if "number_alt cp i = Some e"
    using that assms scan_num_gt [of i cp] scan_num_le [of i cp 0]
    by (auto simp: number_alt_def split: if_splits)
  show "i < e \<and> e \<le> length cp" if punct: "punct_alt cp i = Some e"
  proof -
    define j where "j = (if cp ! i = 0x20 \<and> i + 1 < length cp \<and> is_punct (cp ! (i + 1)) then i + 1 else i)"
    from punct have "(if j < length cp \<and> is_punct (cp ! j)
        then Some (scan_while is_nl cp (scan_while is_punct cp j)) else None) = Some e"
      by (simp only: punct_alt_def Let_def j_def)
    then have j: "j < length cp" "is_punct (cp ! j)"
      and e: "e = scan_while is_nl cp (scan_while is_punct cp j)"
      by (simp_all split: if_splits)
    have "i \<le> j" by (simp add: j_def)
    show ?thesis
      using \<open>i \<le> j\<close> j e scan_while_gt [of j cp is_punct] scan_while_le [of j cp is_punct]
        scan_while_ge [of "scan_while is_punct cp j" is_nl cp]
        scan_while_le [of "scan_while is_punct cp j" cp is_nl] by linarith
  qed
  show "i < e \<and> e \<le> length cp" if "space_alt cp i = Some e"
    using that assms scan_while_le [of i cp is_s] last_nl_in [of i "scan_while is_s cp i" cp]
    by (fastforce simp: space_alt_def Let_def split: if_splits option.splits)
  show "i < e \<and> e \<le> length cp" if "k3_han cp i = Some e"
    using that assms scan_while_gt [of i cp is_han] scan_while_le [of i cp is_han]
    by (auto simp: k3_han_def split: if_splits)
  have alt: "i < a + contraction_len cp a \<and> a + contraction_len cp a \<le> length cp"
    if "k3_alt2 cp b = Some a \<or> k3_alt3 cp b = Some a" "i \<le> b" for a b
    using that k3_alt2_bound k3_alt3_bound contraction_bound [of i a cp] by fastforce
  show "i < e \<and> e \<le> length cp" if "k3_letters cp i = Some e"
    using that alt [of i] alt [of "i + 1"]
    by (auto simp: k3_letters_def split: if_splits option.splits)
qed

lemma case_bound:
  "(\<And>e. x = Some e \<Longrightarrow> i < e \<and> e \<le> n) \<Longrightarrow> i < d \<and> d \<le> n \<Longrightarrow>
   i < (case x of Some e \<Rightarrow> e | None \<Rightarrow> d) \<and> (case x of Some e \<Rightarrow> e | None \<Rightarrow> d) \<le> (n :: nat)"
  by (cases x) auto

lemma cl100k_next_progress: "i < length cp \<Longrightarrow> i < cl100k_next cp i \<and> cl100k_next cp i \<le> length cp"
  unfolding cl100k_next_def by (intro case_bound; (erule (1) alt_bounds)?) simp

lemma k3_space_bound: "i < length cp \<Longrightarrow> k3_space cp i = Some e \<Longrightarrow> i < e \<and> e \<le> length cp"
  using alt_bounds(5) k3_space_eq [of i cp] by simp

lemma k3_next_progress: "i < length cp \<Longrightarrow> i < k3_next cp i \<and> k3_next cp i \<le> length cp"
  unfolding k3_next_def by (intro case_bound; (erule (1) alt_bounds k3_space_bound)?) simp

section \<open>The piece loops\<close>

text \<open>
  The loop of \<open>split_cl100k\<close> from position \<open>i\<close>, as the list of the ends of its pieces, and the
  loop of \<open>k3_piece_ends\<close>.
\<close>

function cl100k_ends :: "u32 list \<Rightarrow> nat \<Rightarrow> nat list" where
  "cl100k_ends cp i =
     (if i < length cp then cl100k_next cp i # cl100k_ends cp (cl100k_next cp i) else [])"
  by pat_completeness auto
termination
  by (relation "measure (\<lambda>(cp, i). length cp - i)") (auto dest: cl100k_next_progress)

function k3_ends_from :: "u32 list \<Rightarrow> nat \<Rightarrow> nat list" where
  "k3_ends_from cp i =
     (if i < length cp then k3_next cp i # k3_ends_from cp (k3_next cp i) else [])"
  by pat_completeness auto
termination
  by (relation "measure (\<lambda>(cp, i). length cp - i)") (auto dest: k3_next_progress)

declare cl100k_ends.simps [simp del] k3_ends_from.simps [simp del]

definition k3_piece_ends :: "u32 list \<Rightarrow> nat list" where
  "k3_piece_ends cp = k3_ends_from cp 0"

text \<open>
  What the tokenizer relies on from a split: the ends strictly increase, and the last one is the
  end of the text.  Everything a split promises follows from the progress of its body.
\<close>

locale piece_splitter =
  fixes next_end :: "u32 list \<Rightarrow> nat \<Rightarrow> nat" and ends :: "u32 list \<Rightarrow> nat \<Rightarrow> nat list"
  assumes progress: "i < length cp \<Longrightarrow> i < next_end cp i \<and> next_end cp i \<le> length cp"
    and ends_rec: "ends cp i = (if i < length cp then next_end cp i # ends cp (next_end cp i) else [])"
begin

lemma ends_increase: "i \<le> length cp \<Longrightarrow> sorted_wrt (<) (i # ends cp i) \<and> last (i # ends cp i) = length cp"
proof (induction "length cp - i" arbitrary: i rule: less_induct)
  case less
  show ?case
  proof (cases "i < length cp")
    case True
    let ?j = "next_end cp i"
    have j: "i < ?j" "?j \<le> length cp" using progress [OF True] by simp_all
    have ih: "sorted_wrt (<) (?j # ends cp ?j)" "last (?j # ends cp ?j) = length cp"
      using less.hyps [of ?j] j by simp_all
    moreover have "ends cp i = ?j # ends cp ?j" using True ends_rec [of cp i] by simp
    ultimately show ?thesis using j(1) by (auto intro: less_trans)
  next
    case False
    with less.prems ends_rec [of cp i] show ?thesis by simp
  qed
qed

lemma ends_nonempty: "i < length cp \<Longrightarrow> ends cp i \<noteq> []"
  by (simp add: ends_rec [of cp i])

lemma ends_bound: "i \<le> length cp \<Longrightarrow> e \<in> set (ends cp i) \<Longrightarrow> i < e \<and> e \<le> length cp"
proof (induction "length cp - i" arbitrary: i rule: less_induct)
  case less
  have "i < length cp" using less.prems ends_rec [of cp i] by (auto split: if_splits)
  with less.prems(2) ends_rec [of cp i] have "e = next_end cp i \<or> e \<in> set (ends cp (next_end cp i))"
    by auto
  with progress [OF \<open>i < length cp\<close>] less.hyps [of "next_end cp i"] show ?case by fastforce
qed

end

interpretation cl100k: piece_splitter cl100k_next cl100k_ends
proof unfold_locales
  show "i < cl100k_next cp i \<and> cl100k_next cp i \<le> length cp" if "i < length cp" for cp i
    using that by (rule cl100k_next_progress)
  show "cl100k_ends cp i =
      (if i < length cp then cl100k_next cp i # cl100k_ends cp (cl100k_next cp i) else [])" for cp i
    by (rule cl100k_ends.simps)
qed

interpretation k3: piece_splitter k3_next k3_ends_from
proof unfold_locales
  show "i < k3_next cp i \<and> k3_next cp i \<le> length cp" if "i < length cp" for cp i
    using that by (rule k3_next_progress)
  show "k3_ends_from cp i =
      (if i < length cp then k3_next cp i # k3_ends_from cp (k3_next cp i) else [])" for cp i
    by (rule k3_ends_from.simps)
qed

end
