(* ===== verification/PretokRegex.thy ===== *)
theory PretokRegex
  imports Pretok
begin

text \<open>
  The reference semantics of the two pre-tokenizer patterns, and the proof that the hand-written
  scanners of \<open>Pretok\<close> return what a backtracking regular-expression engine returns on every text
  that has no apostrophe followed by U+017F, the one character that folds to a letter of a contraction
  and that the scanners do not fold.

  The patterns are those quoted in the comments of \<open>split_cl100k\<close> and \<open>split_k3\<close>; the classes
  \<open>\p{L}\<close>, \<open>\p{N}\<close>, \<open>\s\<close>, \<open>\p{Han}\<close>, \<open>U\<close> and \<open>L\<close> are the code's tables.
\<close>

section \<open>Backtracking semantics\<close>

text \<open>
  \<open>Rep P lo hi\<close> is a greedy repetition of a character class, \<open>Ahead P\<close> a one-character lookahead
  that also succeeds at the end of the text.  \<open>matches r cp i\<close> lists the ends of the matches of \<open>r\<close>
  at \<open>i\<close> in the order a backtracking engine finds them.
\<close>

datatype rx = Eps | Rep "u32 \<Rightarrow> bool" nat "nat option" | Seq rx rx | Alt rx rx | Ahead "u32 \<Rightarrow> bool"

definition run_length :: "(u32 \<Rightarrow> bool) \<Rightarrow> u32 list \<Rightarrow> nat \<Rightarrow> nat" where
  "run_length P cp i = length (takeWhile P (drop i cp))"

fun matches :: "rx \<Rightarrow> u32 list \<Rightarrow> nat \<Rightarrow> nat list" where
  "matches Eps cp i = [i]"
| "matches (Rep P lo hi) cp i =
     (let m = (case hi of None \<Rightarrow> run_length P cp i | Some h \<Rightarrow> min h (run_length P cp i))
      in rev [i + lo..<Suc (i + m)])"
| "matches (Seq r s) cp i = concat (map (matches s cp) (matches r cp i))"
| "matches (Alt r s) cp i = matches r cp i @ matches s cp i"
| "matches (Ahead P) cp i = (if i < length cp \<and> \<not> P (cp ! i) then [] else [i])"

definition first_match :: "rx \<Rightarrow> u32 list \<Rightarrow> nat \<Rightarrow> nat option" where
  "first_match r cp i = (case matches r cp i of [] \<Rightarrow> None | e # es \<Rightarrow> Some e)"

section \<open>The patterns\<close>

definition Lit :: "u32 \<Rightarrow> rx" where
  "Lit x = Rep (\<lambda>c. c = x) 1 (Some 1)"

text \<open>
  A letter under \<open>(?i:)\<close>.  An engine compares simple case foldings; besides the capital letters, two
  characters fold to an ASCII letter: U+017F (long s) to \<open>s\<close> and U+212A (Kelvin sign) to \<open>k\<close>.
\<close>

definition simple_fold :: "u32 \<Rightarrow> u32" where
  "simple_fold c =
     (if 0x41 \<le> c \<and> c \<le> 0x5A then c + 0x20
      else if c = 0x17F then 0x73 else if c = 0x212A then 0x6B else c)"

definition Nocase :: "u32 \<Rightarrow> rx" where
  "Nocase x = Rep (\<lambda>c. simple_fold c = x) 1 (Some 1)"

definition contraction_rx :: rx where
  "contraction_rx = Seq (Lit 0x27)
     (Alt (Nocase 0x73) (Alt (Nocase 0x74) (Alt (Seq (Nocase 0x72) (Nocase 0x65))
     (Alt (Seq (Nocase 0x76) (Nocase 0x65)) (Alt (Nocase 0x6D)
     (Alt (Seq (Nocase 0x6C) (Nocase 0x6C)) (Nocase 0x64)))))))"

definition prefix_rx :: rx where
  "prefix_rx = Rep (\<lambda>c. \<not> is_nl c \<and> \<not> is_l c \<and> \<not> is_n c) 0 (Some 1)"

definition tail_rx :: rx where
  "tail_rx =
     Alt (Rep is_n 1 (Some 3))
    (Alt (Seq (Rep (\<lambda>c. c = 0x20) 0 (Some 1)) (Seq (Rep is_punct 1 None) (Rep is_nl 0 None)))
    (Alt (Seq (Rep is_s 0 None) (Rep is_nl 1 None))
    (Alt (Seq (Rep is_s 1 None) (Ahead is_s))
         (Rep is_s 1 None))))"

definition cl100k_rx :: rx where
  "cl100k_rx = Alt contraction_rx (Alt (Seq prefix_rx (Rep is_l 1 None)) tail_rx)"

definition k3_rx :: rx where
  "k3_rx =
     Alt (Rep is_han 1 None)
    (Alt (Seq prefix_rx (Seq (Rep is_k3_upper 0 None)
            (Seq (Rep is_k3_lower 1 None) (Alt contraction_rx Eps))))
    (Alt (Seq prefix_rx (Seq (Rep is_k3_upper 1 None)
            (Seq (Rep is_k3_lower 0 None) (Alt contraction_rx Eps))))
     tail_rx))"

section \<open>First matches\<close>

lemma first_match_Alt:
  "first_match (Alt r s) cp i = (case first_match r cp i of Some e \<Rightarrow> Some e | None \<Rightarrow> first_match s cp i)"
  by (auto simp: first_match_def split: list.split)

lemma first_some_append:
  "first_some f (xs @ ys) = (case first_some f xs of Some y \<Rightarrow> Some y | None \<Rightarrow> first_some f ys)"
  by (induction xs) (auto split: option.split)

lemma first_match_Seq:
  "first_match (Seq r s) cp i = first_some (first_match s cp) (matches r cp i)"
proof -
  have "(case concat (map (matches s cp) xs) of [] \<Rightarrow> None | e # es \<Rightarrow> Some e)
      = first_some (first_match s cp) xs" for xs
  proof (induction xs)
    case (Cons x xs)
    then show ?case by (cases "matches s cp x") (simp_all add: first_match_def)
  qed simp
  then show ?thesis by (simp add: first_match_def)
qed

lemma first_match_Eps [simp]: "first_match Eps cp i = Some i"
  by (simp add: first_match_def)

lemma first_match_Ahead:
  "first_match (Ahead P) cp i = (if i < length cp \<and> \<not> P (cp ! i) then None else Some i)"
  by (simp add: first_match_def)

lemma run_length_scan: "scan_while P cp i = i + run_length P cp i"
proof (induction P cp i rule: scan_while.induct)
  case (1 P cp k)
  show ?case
  proof (cases "k < length cp")
    case True
    then have "drop k cp = cp ! k # drop (k + 1) cp" by (simp add: Cons_nth_drop_Suc)
    with 1 True show ?thesis
      by (cases "P (cp ! k)") (simp_all add: scan_while_step scan_while_stop run_length_def)
  qed (simp add: scan_while_stop run_length_def)
qed

lemma run_length_0: "run_length P cp i = 0 \<longleftrightarrow> \<not> (i < length cp \<and> P (cp ! i))"
  using scan_while_eq_iff [of P cp i] by (simp add: run_length_scan)

lemma first_down:
  "first_some f (rev [a..<Suc k]) =
     (if a \<le> k then (case f k of Some y \<Rightarrow> Some y | None \<Rightarrow> first_some f (rev [a..<k])) else None)"
  by simp

lemma first_match_Rep:
  "first_match (Rep P lo hi) cp i =
     (let m = (case hi of None \<Rightarrow> run_length P cp i | Some h \<Rightarrow> min h (run_length P cp i))
      in if lo \<le> m then Some (i + m) else None)"
  by (simp add: first_match_def Let_def)

lemma first_match_plus:
  "first_match (Rep P 1 None) cp i =
     (if i < length cp \<and> P (cp ! i) then Some (scan_while P cp i) else None)"
  using run_length_0 [of P cp i] by (auto simp: first_match_Rep run_length_scan)

lemma first_match_star: "first_match (Rep P 0 None) cp i = Some (scan_while P cp i)"
  by (simp add: first_match_Rep run_length_scan)

text \<open>An optional class is tried with it first, and without it second.\<close>

lemma first_match_Opt:
  "first_match (Seq (Rep P 0 (Some 1)) s) cp i =
     (case (if i < length cp \<and> P (cp ! i) then first_match s cp (i + 1) else None) of
        Some e \<Rightarrow> Some e | None \<Rightarrow> first_match s cp i)"
proof (cases "i < length cp \<and> P (cp ! i)")
  case True
  then have "min 1 (run_length P cp i) = 1" using run_length_0 [of P cp i] by simp
  with True show ?thesis by (simp add: first_match_Seq del: One_nat_def) (simp split: option.split)
next
  case False
  then have "run_length P cp i = 0" using run_length_0 [of P cp i] by simp
  with False show ?thesis by (auto simp: first_match_Seq split: option.split)
qed

text \<open>A one-character class.\<close>

lemma first_match_one:
  "first_match (Rep P 1 (Some 1)) cp i = (if i < length cp \<and> P (cp ! i) then Some (i + 1) else None)"
  using run_length_0 [of P cp i] by (auto simp: first_match_Rep)

lemma first_match_one_Seq:
  "first_match (Seq (Rep P 1 (Some 1)) s) cp i =
     (if i < length cp \<and> P (cp ! i) then first_match s cp (i + 1) else None)"
proof (cases "i < length cp \<and> P (cp ! i)")
  case True
  then have "min 1 (run_length P cp i) = 1" using run_length_0 [of P cp i] by simp
  with True show ?thesis by (simp add: first_match_Seq split: option.split)
next
  case False
  then have "run_length P cp i = 0" using run_length_0 [of P cp i] by simp
  with False show ?thesis by (auto simp: first_match_Seq split: option.split)
qed

text \<open>A repetition followed by something that always matches takes the whole run.\<close>

lemma first_match_greedy:
  assumes "first_match s cp (scan_while P cp i) = Some e"
  shows "first_match (Seq (Rep P 0 None) s) cp i = Some e"
    and "i < length cp \<and> P (cp ! i) \<Longrightarrow> first_match (Seq (Rep P 1 None) s) cp i = Some e"
  using assms run_length_0 [of P cp i]
  by (simp_all add: first_match_Seq run_length_scan Let_def)

lemma first_match_plus_None:
  "\<not> (i < length cp \<and> P (cp ! i)) \<Longrightarrow> first_match (Seq (Rep P 1 None) s) cp i = None"
  using run_length_0 [of P cp i] by (simp add: first_match_Seq)

section \<open>The alternatives are their patterns\<close>

text \<open>No apostrophe is followed by a long s.\<close>

definition no_long_s :: "u32 list \<Rightarrow> bool" where
  "no_long_s cp = (\<forall>j < length cp - 1. cp ! j = 0x27 \<longrightarrow> cp ! (j + 1) \<noteq> 0x17F)"

lemma no_long_s_nth: "no_long_s cp \<Longrightarrow> j + 1 < length cp \<Longrightarrow> cp ! j = 0x27 \<Longrightarrow> cp ! (j + 1) \<noteq> 0x17F"
  by (simp add: no_long_s_def)

text \<open>On the letters a contraction can hold, the scanner's folding and the engine's differ on U+017F only.\<close>

lemma simple_fold_low:
  "x \<noteq> 0x73 \<Longrightarrow> x \<noteq> 0x6B \<Longrightarrow> x \<noteq> 0x17F \<Longrightarrow> x \<noteq> 0x212A \<Longrightarrow> simple_fold c = x \<longleftrightarrow> low c = x"
  "c \<noteq> 0x17F \<Longrightarrow> simple_fold c = 0x73 \<longleftrightarrow> low c = 0x73"
  by (auto simp: simple_fold_def low_def)

lemma first_match_contraction:
  assumes "no_long_s cp"
  shows "first_match contraction_rx cp i =
     (if contraction_len cp i = 0 then None else Some (i + contraction_len cp i))"
  using no_long_s_nth [OF assms, of i]
  unfolding contraction_rx_def Lit_def Nocase_def first_match_one_Seq first_match_Alt first_match_one
    contraction_len_def Let_def
  by (auto simp: simple_fold_low split: option.split)

lemma scan_num_run: "scan_num cp j k = j + min (3 - k) (run_length is_n cp j)"
proof (induction cp j k rule: scan_num.induct)
  case (1 cp j k)
  show ?case
  proof (cases "j < length cp \<and> is_n (cp ! j) \<and> k < 3")
    case True
    then have "drop j cp = cp ! j # drop (j + 1) cp" by (simp add: Cons_nth_drop_Suc)
    with True have "run_length is_n cp j = Suc (run_length is_n cp (j + 1))"
      by (simp add: run_length_def)
    moreover have "3 - k = Suc (3 - (k + 1))" using True by linarith
    ultimately show ?thesis using 1 True by (subst scan_num.simps) (simp only: if_True, simp)
  next
    case False
    with run_length_0 [of is_n cp j] show ?thesis by (subst scan_num.simps) auto
  qed
qed

lemma first_match_number: "i < length cp \<Longrightarrow> first_match (Rep is_n 1 (Some 3)) cp i = number_alt cp i"
  using run_length_0 [of is_n cp i] by (auto simp: first_match_Rep number_alt_def scan_num_run)

lemma first_match_letters:
  "i < length cp \<Longrightarrow> first_match (Seq prefix_rx (Rep is_l 1 None)) cp i = cl_letters cp i"
  unfolding prefix_rx_def first_match_Opt first_match_plus cl_letters_def Let_def
  by (auto split: option.split)

lemma first_match_punct_body:
  "first_match (Seq (Rep is_punct 1 None) (Rep is_nl 0 None)) cp j =
     (if j < length cp \<and> is_punct (cp ! j)
      then Some (scan_while is_nl cp (scan_while is_punct cp j)) else None)"
proof (cases "j < length cp \<and> is_punct (cp ! j)")
  case True
  with first_match_greedy(2) [where P = is_punct and i = j, OF first_match_star True]
  show ?thesis by (simp only: if_True simp_thms)
next
  case False
  with first_match_plus_None [where P = is_punct and i = j, OF False] show ?thesis by (simp only: if_False)
qed

lemma first_match_punct:
  "i < length cp \<Longrightarrow>
   first_match (Seq (Rep (\<lambda>c. c = 0x20) 0 (Some 1)) (Seq (Rep is_punct 1 None) (Rep is_nl 0 None))) cp i
     = punct_alt cp i"
  using space_class(1)
  unfolding first_match_Opt first_match_punct_body punct_alt_def Let_def
  by (auto simp: is_punct_def split: option.split)

lemma nl_is_s: "is_nl c \<Longrightarrow> is_s c"
  using newline_is_s by (auto simp: is_nl_def)

text \<open>Walking down a whitespace run reaches its last newline first.\<close>

lemma walk_to_last_nl:
  assumes "i \<le> r" and "\<forall>j. i \<le> j \<and> j \<le> r \<longrightarrow> j < length cp \<longrightarrow> is_nl (cp ! j) \<longrightarrow> j < r"
    and "r \<le> length cp"
  shows "first_some (first_match (Rep is_nl 1 None) cp) (rev [i..<Suc r])
    = map_option (\<lambda>l. l + 1) (last_nl cp i r)"
proof -
  have stop: "first_match (Rep is_nl 1 None) cp k = None" if "\<not> (k < length cp \<and> is_nl (cp ! k))" for k
    using that by (simp only: first_match_plus if_False)
  have "first_some (first_match (Rep is_nl 1 None) cp) (rev [i..<k])
      = map_option (\<lambda>l. l + 1) (last_nl cp i k)"
    if "i \<le> k" "k \<le> r" "\<not> (k < length cp \<and> is_nl (cp ! k))" for k
    using that
  proof (induction k rule: dec_induct)
    case base
    then show ?case by (simp add: last_nl_def)
  next
    case (step k)
    show ?case
    proof (cases "is_nl (cp ! k)")
      case True
      have "scan_while is_nl cp (Suc k) = Suc k" using step.prems by (intro scan_while_stop) simp
      moreover have "k < length cp" using step.prems assms(3) by linarith
      ultimately have "first_match (Rep is_nl 1 None) cp k = Some (k + 1)"
        using True by (simp only: first_match_plus) (simp add: scan_while_step)
      with True step show ?thesis by (simp add: last_nl_append)
    next
      case False
      with step stop [of k] show ?thesis by (simp add: last_nl_append)
    qed
  qed
  moreover have "\<not> (r < length cp \<and> is_nl (cp ! r))" using assms by auto
  ultimately show ?thesis using stop [of r] assms(1) by simp
qed

lemma first_match_space:
  assumes "i < length cp"
  shows "first_match (Alt (Seq (Rep is_s 0 None) (Rep is_nl 1 None))
      (Alt (Seq (Rep is_s 1 None) (Ahead is_s)) (Rep is_s 1 None))) cp i = space_alt cp i"
proof -
  define r where "r = scan_while is_s cp i"
  have r: "i \<le> r" "r \<le> length cp" "r = i + run_length is_s cp i"
    using scan_while_ge [of i is_s cp] scan_while_le [of i cp is_s] assms
    by (simp_all add: r_def run_length_scan)
  have end_r: "\<not> is_s (cp ! r)" if "r < length cp"
    using scan_while_end [of is_s cp i] that by (simp add: r_def)
  have ms0: "matches (Rep is_s 0 None) cp i = rev [i..<Suc r]"
    by (simp only: matches.simps option.case Let_def r(3) add_0_right)
  have last: "\<forall>j. i \<le> j \<and> j \<le> r \<longrightarrow> j < length cp \<longrightarrow> is_nl (cp ! j) \<longrightarrow> j < r"
    using end_r nl_is_s by (metis le_neq_implies_less)
  have 5: "first_match (Seq (Rep is_s 0 None) (Rep is_nl 1 None)) cp i
      = map_option (\<lambda>l. l + 1) (last_nl cp i r)"
    unfolding first_match_Seq ms0 by (rule walk_to_last_nl [OF r(1) last r(2)])
  have 7: "first_match (Rep is_s 1 None) cp i = (if i < r then Some r else None)"
    using scan_while_eq_iff [of is_s cp i] r(1) unfolding first_match_plus r_def by auto
  have ms: "matches (Rep is_s 1 None) cp i = rev [i + 1..<Suc r]"
    by (simp only: matches.simps option.case Let_def r(3))
  have 6: "first_match (Seq (Rep is_s 1 None) (Ahead is_s)) cp i =
      (if \<not> i < r then None else if r = length cp then Some r
       else if i + 1 < r then Some (r - 1) else None)"
  proof (cases "i < r")
    case True
    then obtain q where q: "r = Suc q" "i \<le> q" by (cases r) auto
    have end6: "first_match (Ahead is_s) cp r = (if r = length cp then Some r else None)"
      using end_r r(2) by (auto simp: first_match_Ahead)
    have "first_match (Seq (Rep is_s 1 None) (Ahead is_s)) cp i =
        (if r = length cp then Some r else if i < q then Some q else None)"
    proof (cases "i < q")
      case iq: True
      then have "is_s (cp ! q)" using scan_while_all [of i q is_s cp] q by (simp add: r_def)
      then have "first_match (Ahead is_s) cp q = Some q" by (simp add: first_match_Ahead)
      moreover have "rev [i + 1..<Suc r] = r # q # rev [i + 1..<q]" using q iq by simp
      ultimately show ?thesis unfolding first_match_Seq ms using end6 iq by simp
    next
      case False
      then have "rev [i + 1..<Suc r] = [r]" using q by simp
      then show ?thesis unfolding first_match_Seq ms using end6 False by simp
    qed
    with True q show ?thesis by simp
  next
    case False
    then show ?thesis unfolding first_match_Seq ms by simp
  qed
  have none: "last_nl cp i r = None" if "\<not> i < r" using that by (simp add: last_nl_def)
  show ?thesis
    unfolding first_match_Alt 5 6 7 space_alt_def r_def [symmetric] Let_def
    using r none by (auto split: option.split)
qed

lemma first_match_tail:
  assumes "i < length cp"
  shows "first_match tail_rx cp i =
    (case number_alt cp i of Some e \<Rightarrow> Some e | None \<Rightarrow>
     case punct_alt cp i of Some e \<Rightarrow> Some e | None \<Rightarrow> space_alt cp i)"
  unfolding tail_rx_def first_match_Alt [of "Rep is_n 1 (Some 3)"]
    first_match_Alt [of "Seq (Rep (\<lambda>c. c = 0x20) 0 (Some 1)) x" for x]
    first_match_number [OF assms] first_match_punct [OF assms] first_match_space [OF assms] ..

lemma k3_walk_down_first:
  "b \<le> k \<Longrightarrow> k3_walk_down cp b k = first_some (first_match (Rep is_k3_lower 1 None) cp) (rev [b..<Suc k])"
proof (induction k rule: less_induct)
  case (less k)
  show ?case
  proof (cases "k < length cp \<and> is_k3_lower (cp ! k)")
    case True
    with less.prems show ?thesis
      by (subst k3_walk_down.simps) (simp add: first_match_plus del: One_nat_def)
  next
    case False
    then have n: "first_match (Rep is_k3_lower 1 None) cp k = None" by (simp only: first_match_plus if_False)
    show ?thesis
    proof (cases "k \<le> b")
      case True
      with False less.prems n show ?thesis by (subst k3_walk_down.simps) auto
    next
      case g: False
      then have "k3_walk_down cp b (k - 1)
          = first_some (first_match (Rep is_k3_lower 1 None) cp) (rev [b..<Suc (k - 1)])"
        by (intro less.IH) auto
      moreover have "k3_walk_down cp b k = k3_walk_down cp b (k - 1)"
        using False g by (subst k3_walk_down.simps) (simp only: if_False)
      ultimately show ?thesis using g n by simp
    qed
  qed
qed

lemma first_match_suffix:
  "no_long_s cp \<Longrightarrow> first_match (Alt contraction_rx Eps) cp e = Some (e + contraction_len cp e)"
  by (simp add: first_match_Alt first_match_contraction)

lemma first_some_map_option:
  "first_some (\<lambda>x. map_option g (f x)) xs = map_option g (first_some f xs)"
  by (induction xs) (auto split: option.split)

lemma first_match_lower_suffix:
  assumes "no_long_s cp"
  shows "first_match (Seq (Rep is_k3_lower 1 None) (Alt contraction_rx Eps)) cp k =
     map_option (\<lambda>e. e + contraction_len cp e) (first_match (Rep is_k3_lower 1 None) cp k)"
proof (cases "k < length cp \<and> is_k3_lower (cp ! k)")
  case True
  with first_match_greedy(2) [where P = is_k3_lower and i = k, OF first_match_suffix [OF assms] True]
  show ?thesis by (simp only: first_match_plus if_True option.map simp_thms)
next
  case False
  with first_match_plus_None [where P = is_k3_lower and i = k, OF False]
  show ?thesis by (simp only: first_match_plus if_False option.map)
qed

definition k3_upper_lower :: rx where
  "k3_upper_lower = Seq (Rep is_k3_upper 0 None) (Seq (Rep is_k3_lower 1 None) (Alt contraction_rx Eps))"

definition k3_upper_run :: rx where
  "k3_upper_run = Seq (Rep is_k3_upper 1 None) (Seq (Rep is_k3_lower 0 None) (Alt contraction_rx Eps))"

lemma first_match_alt2:
  assumes "no_long_s cp"
  shows "first_match k3_upper_lower cp b = map_option (\<lambda>e. e + contraction_len cp e) (k3_alt2 cp b)"
proof -
  let ?u = "scan_while is_k3_upper cp b"
  have ms: "matches (Rep is_k3_upper 0 None) cp b = rev [b..<Suc ?u]"
    by (simp only: matches.simps option.case Let_def run_length_scan add_0_right)
  have "first_match k3_upper_lower cp b = map_option (\<lambda>e. e + contraction_len cp e)
      (first_some (first_match (Rep is_k3_lower 1 None) cp) (rev [b..<Suc ?u]))"
    unfolding k3_upper_lower_def first_match_Seq [of "Rep is_k3_upper 0 None"] ms
      first_match_lower_suffix [OF assms] first_some_map_option ..
  also have "\<dots> = map_option (\<lambda>e. e + contraction_len cp e) (k3_walk_down cp b ?u)"
    by (simp only: k3_walk_down_first [OF scan_while_ge])
  also have "k3_walk_down cp b ?u = k3_alt2 cp b"
    by (subst k3_walk_down.simps) (auto simp: k3_alt2_def scan_while_stop k3_walk_down.simps)
  finally show ?thesis .
qed

lemma first_match_alt3:
  assumes "no_long_s cp"
  shows "first_match k3_upper_run cp b = map_option (\<lambda>e. e + contraction_len cp e) (k3_alt3 cp b)"
proof (cases "b < length cp \<and> is_k3_upper (cp ! b)")
  case True
  let ?e = "scan_while is_k3_lower cp (scan_while is_k3_upper cp b)"
  have "first_match (Seq (Rep is_k3_lower 0 None) (Alt contraction_rx Eps)) cp
      (scan_while is_k3_upper cp b) = Some (?e + contraction_len cp ?e)"
    by (rule first_match_greedy(1) [OF first_match_suffix [OF assms]])
  from first_match_greedy(2) [where P = is_k3_upper and i = b, OF this True]
  show ?thesis using True scan_while_eq_iff [of is_k3_upper cp b]
    by (simp add: k3_upper_run_def k3_alt3_def Let_def)
next
  case False
  then have "k3_alt3 cp b = None" by (simp add: k3_alt3_def scan_while_stop)
  with first_match_plus_None [where P = is_k3_upper and i = b, OF False] show ?thesis
    by (simp only: k3_upper_run_def option.map)
qed

lemma first_match_k3_letters:
  assumes "i < length cp" and "no_long_s cp"
  shows "first_match (Alt (Seq prefix_rx k3_upper_lower) (Seq prefix_rx k3_upper_run)) cp i = k3_letters cp i"
  unfolding first_match_Alt prefix_rx_def first_match_Opt first_match_alt2 [OF assms(2)]
    first_match_alt3 [OF assms(2)] k3_letters_def
  using assms(1) by (auto simp: can_prefix_def split: option.split)

lemma k3_rx_alt:
  "first_match k3_rx cp i =
    (case first_match (Rep is_han 1 None) cp i of Some e \<Rightarrow> Some e | None \<Rightarrow>
     case first_match (Alt (Seq prefix_rx k3_upper_lower) (Seq prefix_rx k3_upper_run)) cp i of
       Some e \<Rightarrow> Some e | None \<Rightarrow> first_match tail_rx cp i)"
  unfolding k3_rx_def k3_upper_lower_def k3_upper_run_def first_match_Alt by (auto split: option.split)

text \<open>
  The hand-written cl100k scanner is the cl100k pattern: at every position of every text without an
  apostrophe before U+017F, the pattern matches, and the scanner ends the piece exactly where a backtracking engine ends the first
  match.  In particular the code's safety net is never reached.
\<close>

lemma cl100k_is_regex:
  assumes "i < length cp" and "no_long_s cp"
  shows "first_match cl100k_rx cp i = Some (cl100k_next cp i)"
proof -
  have total: "cl_letters cp i \<noteq> None \<or> number_alt cp i \<noteq> None \<or> punct_alt cp i \<noteq> None \<or>
      space_alt cp i \<noteq> None"
  proof (rule ccontr)
    assume a: "\<not> ?thesis"
    then have "\<not> is_l (cp ! i)" "\<not> is_n (cp ! i)"
      by (auto simp: cl_letters_def number_alt_def split: if_splits)
    moreover have "\<not> is_s (cp ! i)"
    proof
      assume "is_s (cp ! i)"
      then have "i < scan_while is_s cp i" using assms(1) by (rule scan_while_gt [rotated])
      with a show False by (auto simp: space_alt_def Let_def split: option.splits)
    qed
    ultimately have "is_punct (cp ! i)" by (simp add: is_punct_def)
    with a assms(1) show False by (auto simp: punct_alt_def Let_def split: if_splits)
  qed
  have "first_match cl100k_rx cp i =
    (case cl_contraction cp i of Some e \<Rightarrow> Some e | None \<Rightarrow>
     case cl_letters cp i of Some e \<Rightarrow> Some e | None \<Rightarrow> first_match tail_rx cp i)"
    unfolding cl100k_rx_def first_match_Alt first_match_letters [OF assms(1)]
      first_match_contraction [OF assms(2)] contraction_len_cl [OF assms(1)] ..
  then show ?thesis
    using total unfolding first_match_tail [OF assms(1)] cl100k_next_def
    by (cases "cl_contraction cp i"; cases "cl_letters cp i"; cases "number_alt cp i";
        cases "punct_alt cp i"; cases "space_alt cp i") simp_all
qed

text \<open>The classes of \<open>a\<close> and of the apostrophe.\<close>

lemma class_a: "is_l 0x61" "\<not> is_han 0x61"
  by (simp add: class_l_eval UNI_L_def, simp add: class_han_eval K3_HAN_def)

lemma class_upper_ascii: "\<not> is_k3_upper 0x61" "\<not> is_k3_upper 0x27"
  by (simp_all add: class_upper_eval K3_UPPER_def K3_UPPER_1_def K3_UPPER_2_def)

lemma class_lower_ascii: "is_k3_lower 0x61" "\<not> is_k3_lower 0x27"
  by (simp_all add: class_lower_eval K3_LOWER_def K3_LOWER_1_def K3_LOWER_2_def)

lemma long_s_diverges:
  "k3_next [0x61, 0x27, 0x17F] 0 = 1" "first_match k3_rx [0x61, 0x27, 0x17F] 0 = Some 3"
proof -
  let ?w = "[0x61, 0x27, 0x17F] :: u32 list"
  note c = class_a class_upper_ascii class_lower_ascii
  have sc: "scan_while is_k3_upper ?w 0 = 0" "scan_while is_k3_lower ?w 0 = 1"
    using c by (simp_all add: scan_while.simps)
  have a2: "k3_alt2 ?w 0 = Some 1" using c sc by (simp add: k3_alt2_def k3_walk_down.simps)
  have "contraction_len ?w 1 = 0" by (simp add: contraction_len_def low_def)
  with a2 c show "k3_next ?w 0 = 1"
    by (simp add: k3_next_def k3_han_def k3_letters_def can_prefix_def)
  have han: "first_match (Rep is_han 1 None) ?w 0 = None" using c by (simp only: first_match_plus) simp
  have low: "matches (Rep is_k3_lower 1 None) ?w 0 = [1]" and up: "matches (Rep is_k3_upper 0 None) ?w 0 = [0]"
    using c by (simp_all add: run_length_def)
  have suffix: "first_match (Alt contraction_rx Eps) ?w 1 = Some 3"
    unfolding contraction_rx_def Lit_def Nocase_def first_match_one_Seq first_match_Alt first_match_one
    by (simp add: simple_fold_def)
  have "first_match k3_upper_lower ?w 0 = Some 3"
    unfolding k3_upper_lower_def first_match_Seq [of "Rep is_k3_upper 0 None"] up first_some.simps
      first_match_Seq [of "Rep is_k3_lower 1 None"] low suffix by simp
  then have "first_match (Seq prefix_rx k3_upper_lower) ?w 0 = Some 3"
    using c unfolding prefix_rx_def first_match_Opt by simp
  with han show "first_match k3_rx ?w 0 = Some 3"
    unfolding k3_rx_alt first_match_Alt by simp
qed

text \<open>
  C22: the hand-written Kimi-K3 scanner is the Kimi-K3 pattern, backtracking included: at every
  position of every text without an apostrophe before U+017F it ends the piece where a backtracking
  engine, comparing contractions under Unicode simple case folding, ends the first match of the
  pattern; where the pattern matches nothing it takes a single codepoint.  The exception is real: on
  \<open>a'\<close> followed by U+017F the pattern's first piece is all three characters, the scanner's is \<open>a\<close>.
\<close>

theorem k3_is_regex:
  assumes "i < length cp" and "no_long_s cp"
  shows "k3_next cp i = (case first_match k3_rx cp i of Some e \<Rightarrow> e | None \<Rightarrow> i + 1) \<and>
    k3_next [0x61, 0x27, 0x17F] 0 = 1 \<and> first_match k3_rx [0x61, 0x27, 0x17F] 0 = Some 3"
proof -
  have han: "first_match (Rep is_han 1 None) cp i = k3_han cp i"
    using assms(1) unfolding first_match_plus k3_han_def by simp
  have "k3_next cp i = (case first_match k3_rx cp i of Some e \<Rightarrow> e | None \<Rightarrow> i + 1)"
    unfolding k3_rx_alt han first_match_k3_letters [OF assms] first_match_tail [OF assms(1)] k3_next_def
    using k3_space_eq [of i cp] assms(1)
    by (cases "k3_han cp i"; cases "k3_letters cp i"; cases "number_alt cp i";
        cases "punct_alt cp i"; cases "space_alt cp i") simp_all
  with long_s_diverges show ?thesis by blast
qed

theorem k3_is_regex_witness:
  "k3_next [0x67, 0x27, 0x53] 0 =
     (case first_match k3_rx [0x67, 0x27, 0x53] 0 of Some e \<Rightarrow> e | None \<Rightarrow> 0 + 1)"
  using k3_is_regex [of 0 "[0x67, 0x27, 0x53]"] by (simp add: no_long_s_def less_Suc_eq)

text \<open>
  The Kimi-K3 safety net is reachable, although the code says it should not happen: U+1123F is
  a letter of the cl100k table but of none of the K3 classes, so no alternative matches it and each
  such letter becomes a piece of its own, even in the middle of a word.
\<close>

lemma k3_safety_net_reached:
  "first_match k3_rx [0x1123F, 0x1123F] 0 = None \<and> k3_next [0x1123F, 0x1123F] 0 = 1 \<and>
   cl100k_next [0x1123F, 0x1123F] 0 = 2"
proof -
  let ?w = "[0x1123F, 0x1123F] :: u32 list"
  note c = class_1123F
  have nls: "no_long_s ?w" by (simp add: no_long_s_def)
  have lower: "\<not> is_k3_lower (?w ! k)" and upper: "\<not> is_k3_upper (?w ! k)" if "k < 2" for k
    using that c by (auto simp: less_2_cases_iff)
  have "scan_while is_k3_upper ?w 0 = 0" using c by (intro scan_while_stop) simp
  then have "k3_alt2 ?w 0 = None" "k3_alt3 ?w 0 = None"
    using c by (simp_all add: k3_alt2_def k3_alt3_def k3_walk_down.simps)
  then have "k3_letters ?w 0 = None" using c by (simp add: k3_letters_def can_prefix_def)
  moreover have "k3_han ?w 0 = None" "number_alt ?w 0 = None" using c by (simp_all add: k3_han_def number_alt_def)
  moreover have "punct_alt ?w 0 = None" using c by (simp add: punct_alt_def is_punct_def)
  moreover have s: "scan_while is_s ?w 0 = 0" using c by (intro scan_while_stop) simp
  then have "space_alt ?w 0 = None" "k3_space ?w 0 = None" by (simp_all add: space_alt_def k3_space_def)
  moreover have "first_match (Rep is_han 1 None) ?w 0 = None" using c by (simp only: first_match_plus) simp
  moreover have "scan_while is_l ?w 0 = 2" using c by (simp add: scan_while.simps)
  then have "cl_letters ?w 0 = Some 2" using c by (simp add: cl_letters_def)
  moreover have "cl_contraction ?w 0 = None" by (simp add: cl_contraction_def)
  ultimately show ?thesis
    unfolding k3_rx_alt
    using first_match_k3_letters [of 0 ?w] nls first_match_tail [of 0 ?w]
    by (simp add: k3_next_def cl100k_next_def)
qed

end
