(* ===== verification/Dtype.thy ===== *)
theory Dtype
  imports Complex_Main Prelude
begin

text \<open>
  The element types of \<open>colibri-core/src/dtype.rs\<close>: the \<open>DType\<close> enumeration with its names, sizes
  and codes, and the conversions between \<open>bf16\<close>, IEEE \<open>f16\<close> and \<open>f32\<close>, which the source does on
  bit patterns.  An \<open>f32\<close> is its 32 bits; \<open>to_bits\<close> and \<open>from_bits\<close> are the identity.

  The reference side reads a bit pattern as a number: \<open>fnum\<close> is a signed rational, an infinity or
  NaN, and \<open>f32_value\<close> and \<open>f16_value\<close> are the IEEE interpretation of the fields.  Widening a half
  never changes the number, and narrowing to \<open>bf16\<close> picks the nearest one, ties to even.
\<close>

section \<open>Element types\<close>

datatype dtype = Bf16 | F16 | F32 | U8 | F8E4M3 | F8E5M2 | I64

definition parse_dtype :: "byte_string \<Rightarrow> dtype option" where
  "parse_dtype s =
     (if s = lit ''BF16'' then Some Bf16
      else if s = lit ''F16'' then Some F16
      else if s = lit ''F32'' then Some F32
      else if s = lit ''U8'' \<or> s = lit ''I8'' \<or> s = lit ''F8_E8M0'' then Some U8
      else if s = lit ''F8_E4M3'' \<or> s = lit ''F8_E4M3FN'' then Some F8E4M3
      else if s = lit ''F8_E5M2'' then Some F8E5M2
      else if s = lit ''I64'' then Some I64
      else None)"

primrec safetensors_str :: "dtype \<Rightarrow> byte_string" where
  "safetensors_str Bf16 = lit ''BF16''"
| "safetensors_str F16 = lit ''F16''"
| "safetensors_str F32 = lit ''F32''"
| "safetensors_str U8 = lit ''U8''"
| "safetensors_str F8E4M3 = lit ''F8_E4M3''"
| "safetensors_str F8E5M2 = lit ''F8_E5M2''"
| "safetensors_str I64 = lit ''I64''"

primrec elem_size :: "dtype \<Rightarrow> nat" where
  "elem_size F32 = 4"
| "elem_size Bf16 = 2"
| "elem_size F16 = 2"
| "elem_size U8 = 1"
| "elem_size F8E4M3 = 1"
| "elem_size F8E5M2 = 1"
| "elem_size I64 = 8"

primrec dtype_code :: "dtype \<Rightarrow> int" where
  "dtype_code Bf16 = 0"
| "dtype_code F16 = 1"
| "dtype_code F32 = 2"
| "dtype_code U8 = 3"
| "dtype_code F8E4M3 = 4"
| "dtype_code F8E5M2 = 5"
| "dtype_code I64 = 6"

section \<open>Conversions on bit patterns\<close>

definition is_nan :: "f32 \<Rightarrow> bool" where
  "is_nan v \<longleftrightarrow> 0x7F800000 < v AND 0x7FFFFFFF"

definition bf16_to_f32 :: "u16 \<Rightarrow> f32" where
  "bf16_to_f32 h = push_bit 16 (ucast h)"

definition f32_to_bf16 :: "f32 \<Rightarrow> u16" where
  "f32_to_bf16 bits =
     (if is_nan bits then ucast (drop_bit 16 bits) OR 0x0040
      else ucast (drop_bit 16 (bits + 0x7fff + (drop_bit 16 bits AND 1))))"

text \<open>The normalising loop of \<open>f16_to_f32\<close>; with a zero mantissa it would not end.\<close>

partial_function (option) f16_norm :: "u32 \<Rightarrow> u32 \<Rightarrow> (u32 \<times> u32) option" where
  "f16_norm man expo =
     (if man AND 0x400 = 0 then f16_norm (push_bit 1 man) (expo - 1) else Some (man, expo))"

definition f16_to_f32 :: "u16 \<Rightarrow> f32 option" where
  "f16_to_f32 h =
     (let sign = push_bit 16 (ucast (h AND 0x8000));
          expo = ucast (drop_bit 10 h AND 0x1F);
          man = ucast (h AND 0x3FF)
      in if expo = 0
         then (if man = 0 then Some sign
               else do {
                 (man, expo) \<leftarrow> f16_norm man (127 - 15 + 1);
                 Some (sign OR push_bit 23 expo OR push_bit 13 (man AND 0x3FF)) })
         else if expo = 0x1F then Some (sign OR 0x7F800000 OR push_bit 13 man)
         else Some (sign OR push_bit 23 (expo - 15 + 127) OR push_bit 13 man))"

section \<open>The numbers the bits stand for\<close>

datatype fnum = Finite (negative: bool) rat | Infinite bool | Not_a_number

text \<open>A field layout with \<open>f\<close> fraction bits and bias \<open>b\<close>.\<close>

definition fields_value :: "nat \<Rightarrow> int \<Rightarrow> nat \<Rightarrow> nat \<Rightarrow> rat" where
  "fields_value f b e m =
     (if e = 0 then of_nat m * 2 powi (1 - b - int f)
      else of_nat (2 ^ f + m) * 2 powi (int e - b - int f))"

definition ieee_value :: "nat \<Rightarrow> nat \<Rightarrow> int \<Rightarrow> nat \<Rightarrow> fnum" where
  "ieee_value w f b n =
     (let s = (n div 2 ^ (w + f) = 1); e = n div 2 ^ f mod 2 ^ w; m = n mod 2 ^ f
      in if e = 2 ^ w - 1 then (if m = 0 then Infinite s else Not_a_number)
         else Finite s (fields_value f b e m))"

definition f32_value :: "f32 \<Rightarrow> fnum" where
  "f32_value v = ieee_value 8 23 127 (unat v)"

definition f16_value :: "u16 \<Rightarrow> fnum" where
  "f16_value h = ieee_value 5 10 15 (unat h)"

definition bf16_value :: "u16 \<Rightarrow> fnum" where
  "bf16_value h = ieee_value 8 7 127 (unat h)"

lemma ieee_value_fields:
  assumes "s < 2" and "e < 2 ^ w" and "m < 2 ^ f"
  shows "ieee_value w f b ((s * 2 ^ w + e) * 2 ^ f + m) =
    (if e = 2 ^ w - 1 then (if m = 0 then Infinite (s = 1) else Not_a_number)
     else Finite (s = 1) (fields_value f b e m))"
proof -
  let ?n = "(s * 2 ^ w + e) * 2 ^ f + m"
  have q: "?n div 2 ^ f = s * 2 ^ w + e" and m: "?n mod 2 ^ f = m"
    using assms(3) by simp_all
  have "?n div 2 ^ (w + f) = ?n div 2 ^ f div 2 ^ w"
    by (simp add: power_add div_mult2_eq mult.commute)
  then have s: "?n div 2 ^ (w + f) = s" using q assms(2) by simp
  have e: "?n div 2 ^ f mod 2 ^ w = e" using q assms(2) by simp
  show ?thesis unfolding ieee_value_def Let_def s e m by simp
qed

text \<open>Every pattern has its fields.\<close>

lemma fields_of_u16:
  obtains s e m where "s < 2" "e < 2 ^ 5" "m < 2 ^ 10" "unat (h::u16) = (s * 2 ^ 5 + e) * 2 ^ 10 + m"
proof -
  have h: "unat h < 65536" using unat_lt_pow [of h] by simp
  define q where "q = unat h div 2 ^ 10"
  have h2: "unat h = q * 2 ^ 10 + unat h mod 2 ^ 10" by (simp add: q_def)
  have q: "q < 64" using h by (simp add: q_def)
  show thesis
  proof (rule that [of "q div 2 ^ 5" "q mod 2 ^ 5" "unat h mod 2 ^ 10"])
    show "unat h = (q div 2 ^ 5 * 2 ^ 5 + q mod 2 ^ 5) * 2 ^ 10 + unat h mod 2 ^ 10"
      using h2 by (simp only: div_mult_mod_eq)
  qed (use q in simp_all)
qed

lemma dtype_round_trip: "parse_dtype (safetensors_str d) = Some d"
  by (cases d) (simp_all add: parse_dtype_def lit_def)

section \<open>Widening a half is exact\<close>

lemma f16_norm_step:
  assumes "unat man < 1024"
  shows "f16_norm man expo = f16_norm (push_bit 1 man) (expo - 1)"
proof -
  have "\<not> bit man 10" using assms not_bit_if_small [of man 10 10] by simp
  then have "man AND 2 ^ 10 = 0" by (simp only: and_exp_eq_0_iff_not_bit not_False_eq_True)
  then have "man AND 0x400 = 0" by simp
  then show ?thesis by (subst f16_norm.simps) simp
qed

lemma f16_norm_stop:
  assumes "1024 \<le> unat man" and "unat man < 2048"
  shows "f16_norm man expo = Some (man, expo)"
proof -
  have "unat man div 2 ^ 10 = 1" using assms by simp
  then have "bit (unat man) 10" by (simp only: bit_iff_odd) simp
  then have "bit man 10" by (simp add: bit_unsigned_iff)
  then have "man AND 2 ^ 10 \<noteq> 0" by (simp only: and_exp_eq_0_iff_not_bit not_True_eq_False not_False_eq_True)
  then have "man AND 0x400 \<noteq> 0" by simp
  then show ?thesis by (subst f16_norm.simps) simp
qed

lemma unat_push_bit:
  fixes a :: "'a::len word"
  assumes "unat a * 2 ^ k < 2 ^ LENGTH('a)"
  shows "unat (push_bit k a) = unat a * 2 ^ k"
  using unat_push_or [of a k 0] assms by simp

lemma f16_norm_run:
  assumes "k \<le> 10" and "2 ^ (10 - k) \<le> unat man" and "unat man < 2 ^ (11 - k)"
  shows "f16_norm man expo = Some (push_bit k man, expo - of_nat k)"
  using assms
proof (induction k arbitrary: man expo)
  case 0
  then show ?case by (simp add: f16_norm_stop)
next
  case (Suc k)
  have k: "(2::nat) ^ (10 - k) = 2 * 2 ^ (10 - Suc k)" "(2::nat) ^ (11 - k) = 2 * 2 ^ (11 - Suc k)"
    using Suc.prems(1) by (simp_all flip: power_Suc add: Suc_diff_Suc Suc_diff_le)
  have "(2::nat) ^ (11 - Suc k) \<le> 2 ^ 10" by (rule power_increasing) simp_all
  then have small: "unat man < 1024" using Suc.prems(3) by simp
  define twice where "twice = push_bit 1 man"
  have two: "unat twice = 2 * unat man"
    unfolding twice_def using small by (subst unat_push_bit) simp_all
  have "f16_norm man expo = f16_norm twice (expo - 1)"
    unfolding twice_def using small by (rule f16_norm_step)
  also have "\<dots> = Some (push_bit k twice, expo - 1 - of_nat k)"
    using Suc.prems by (intro Suc.IH) (simp_all add: two k)
  finally show ?case by (simp add: twice_def push_bit_push_bit algebra_simps)
qed

text \<open>The fields of an assembled \<open>f32\<close>.\<close>

lemma f32_value_pack:
  fixes sb eb mb :: u32
  assumes "unat sb < 2" and "unat eb < 256" and "unat mb < 1024"
  shows "f32_value (push_bit 31 sb OR push_bit 23 eb OR push_bit 13 mb) =
    (if unat eb = 255 then (if mb = 0 then Infinite (unat sb = 1) else Not_a_number)
     else Finite (unat sb = 1) (fields_value 23 127 (unat eb) (unat mb * 2 ^ 13)))"
proof -
  have m: "unat (push_bit 13 mb) = unat mb * 2 ^ 13"
    using assms by (subst unat_push_bit) simp_all
  have em: "unat (push_bit 23 eb OR push_bit 13 mb) = unat eb * 2 ^ 23 + unat mb * 2 ^ 13"
    using assms m by (subst unat_push_or) simp_all
  have "unat (push_bit 31 sb OR push_bit 23 eb OR push_bit 13 mb)
      = unat sb * 2 ^ 31 + (unat eb * 2 ^ 23 + unat mb * 2 ^ 13)"
    using assms em by (subst unat_push_or) simp_all
  also have "\<dots> = (unat sb * 2 ^ 8 + unat eb) * 2 ^ 23 + unat mb * 2 ^ 13" by simp
  finally have u: "unat (push_bit 31 sb OR push_bit 23 eb OR push_bit 13 mb)
    = (unat sb * 2 ^ 8 + unat eb) * 2 ^ 23 + unat mb * 2 ^ 13" .
  show ?thesis unfolding f32_value_def u
    by (subst ieee_value_fields) (use assms in \<open>simp_all add: unat_eq_0\<close>)
qed

lemma and_pow: "(a :: 'a::len word) AND 2 ^ k = (if bit a k then 2 ^ k else 0)"
  by (rule bit_eqI) (auto simp: bit_simps)

lemma f16_sign: "push_bit 16 (ucast ((h::u16) AND 0x8000) :: u32) = push_bit 31 (ucast (drop_bit 15 h))"
proof -
  have "unat (drop_bit 15 h) < 2" using unat_lt_pow [of h] by (simp add: unat_drop_bit)
  then have two: "unat h div 2 ^ 15 = 0 \<or> unat h div 2 ^ 15 = 1" by (simp add: unat_drop_bit) linarith
  have "bit h 15 \<longleftrightarrow> bit (unat h) 15" by (simp add: bit_unsigned_iff)
  also have "\<dots> \<longleftrightarrow> odd (unat h div 2 ^ 15)" by (rule bit_iff_odd)
  finally have "unat (drop_bit 15 h) = (if bit h 15 then 1 else 0)"
    using two unfolding unat_drop_bit by auto
  then have d: "drop_bit 15 h = (if bit h 15 then 1 else 0)" by (simp add: word_unat_eq_iff)
  have "h AND 0x8000 = (if bit h 15 then 0x8000 else 0)" using and_pow [of h 15] by simp
  then show ?thesis by (simp add: d)
qed

lemma unat_u16_u32 [unat_simps]: "unat (ucast (c :: u16) :: u32) = unat c"
  using unat_lt_pow [of c] by (simp add: unsigned_ucast_eq take_bit_nat_eq_self_iff)

text \<open>The significand and exponent after normalising a subnormal.\<close>

lemma f16_subnormal:
  assumes "0 < unat man" and "unat man < 1024"
  obtains k where "k \<le> 10" and "f16_norm man 113 = Some (push_bit k man, 113 - of_nat k)"
    and "unat (push_bit k man) = unat man * 2 ^ k" and "1024 \<le> unat man * 2 ^ k"
    and "unat man * 2 ^ k < 2048"
proof -
  obtain j where j: "2 ^ j \<le> unat man" "unat man < 2 ^ Suc j"
    using ex_power_ivl1 [of 2 "unat man"] assms by auto
  have "j < 10"
  proof (rule ccontr)
    assume "\<not> j < 10"
    then have "(2::nat) ^ 10 \<le> 2 ^ j" by (intro power_increasing) simp_all
    with j assms show False by simp
  qed
  define k where "k = 10 - j"
  have k: "k \<le> 10" "10 - k = j" "11 - k = Suc j" using \<open>j < 10\<close> by (simp_all add: k_def)
  have p: "(2::nat) ^ j * 2 ^ k = 1024" "(2::nat) ^ Suc j * 2 ^ k = 2048"
    using \<open>j < 10\<close> by (simp_all flip: power_add add: k_def)
  have "2 ^ j * 2 ^ k \<le> unat man * 2 ^ k" by (rule mult_right_mono) (use j in simp_all)
  moreover have "unat man * 2 ^ k < 2 ^ Suc j * 2 ^ k"
    by (rule mult_strict_right_mono) (use j in simp_all)
  ultimately have b: "1024 \<le> unat man * 2 ^ k" "unat man * 2 ^ k < 2048" unfolding p by simp_all
  show thesis
  proof (rule that [of k])
    show "f16_norm man 113 = Some (push_bit k man, 113 - of_nat k)"
      using k j by (intro f16_norm_run) simp_all
    show "unat (push_bit k man) = unat man * 2 ^ k" using b by (intro unat_push_bit) simp
  qed (use k b in simp_all)
qed

lemma fields_value_widen:
  assumes "0 < e"
  shows "fields_value 10 15 e m = fields_value 23 127 (e + 112) (m * 2 ^ 13)"
proof -
  have "(2::rat) powi (int e - 25) = 2 ^ 13 * 2 powi (int e - 38)"
    using power_int_add [of "2::rat" 13 "int e - 38"] by simp
  then show ?thesis using assms by (simp add: fields_value_def algebra_simps)
qed

lemma fields_value_subnormal:
  assumes "k \<le> 10" and "1024 \<le> m * 2 ^ k"
  shows "fields_value 10 15 0 m = fields_value 23 127 (113 - k) ((m * 2 ^ k - 1024) * 2 ^ 13)"
proof -
  have "(2 :: nat) ^ 23 + (m * 2 ^ k - 1024) * 2 ^ 13 = m * 2 ^ k * 2 ^ 13" using assms(2) by simp
  then have "fields_value 23 127 (113 - k) ((m * 2 ^ k - 1024) * 2 ^ 13)
    = of_nat (m * 2 ^ k * 2 ^ 13) * 2 powi (int (113 - k) - 150)"
    using assms(1) by (simp add: fields_value_def)
  also have "int (113 - k) - 150 = - 24 - int k - 13" using assms(1) by simp
  also have "of_nat (m * 2 ^ k * 2 ^ 13) * (2::rat) powi (- 24 - int k - 13) = of_nat m * 2 powi (- 24)"
    by (simp add: power_int_diff)
  finally show ?thesis by (simp add: fields_value_def)
qed

lemma f16_words:
  fixes h :: u16
  assumes "unat h = (s * 2 ^ 5 + e) * 2 ^ 10 + m" and "s < 2" and "e < 2 ^ 5" and "m < 2 ^ 10"
  shows "unat (ucast (drop_bit 15 h) :: u32) = s" "unat (ucast (drop_bit 10 h AND 0x1F) :: u32) = e"
    "unat (ucast (h AND 0x3FF) :: u32) = m"
proof -
  have "unat h div 2 ^ 15 = s" using assms by simp
  then show "unat (ucast (drop_bit 15 h) :: u32) = s" by (simp only: unat_u16_u32 unat_drop_bit)
  have masks: "(0x1F :: u16) = mask 5" "(0x3FF :: u16) = mask 10" by (simp_all add: mask_eq_exp_minus_1)
  define q where "q = s * 2 ^ 5 + e"
  have "unat h = q * 1024 + m" using assms(1) by (simp add: q_def)
  then have "unat h div 2 ^ 10 = q" "unat h mod 2 ^ 10 = m" using assms(4) by simp_all
  moreover have "q mod 2 ^ 5 = e" using assms(3) by (simp add: q_def)
  ultimately have "unat h div 2 ^ 10 mod 2 ^ 5 = e" "unat h mod 2 ^ 10 = m" by simp_all
  then show "unat (ucast (drop_bit 10 h AND 0x1F) :: u32) = e" "unat (ucast (h AND 0x3FF) :: u32) = m"
    by (simp_all only: unat_u16_u32 masks unat_and_mask unat_drop_bit)
qed

lemma unat_exp_shift:
  fixes a :: u32
  assumes "unat a < 32" and "0 < unat a"
  shows "unat (a - 15 + 127) = unat a + 112"
proof -
  have "a - 15 + 127 = a + 112" by simp
  then show ?thesis using assms by (simp add: unat_word_ariths)
qed

lemma unat_113_minus:
  assumes "k \<le> 10"
  shows "unat (113 - of_nat k :: u32) = 113 - k"
proof -
  have k: "unat (of_nat k :: u32) = k" using assms by (simp add: unat_of_nat)
  have "(of_nat k :: u32) \<le> 113" using assms by (simp add: word_le_nat_alt k)
  then show ?thesis by (simp add: unat_sub k)
qed

lemma f16_assemble_subnormal:
  fixes sb mb :: u32
  assumes k: "k \<le> 10" "f16_norm mb 113 = Some (push_bit k mb, 113 - of_nat k)"
    "unat (push_bit k mb) = unat mb * 2 ^ k" "1024 \<le> unat mb * 2 ^ k" "unat mb * 2 ^ k < 2048"
    and "unat sb < 2"
  shows "map_option f32_value (do { (man, expo) \<leftarrow> f16_norm mb 113;
      Some (push_bit 31 sb OR push_bit 23 expo OR push_bit 13 (man AND 0x3FF)) })
    = Some (Finite (unat sb = 1) (fields_value 10 15 0 (unat mb)))"
proof -
  define nb where "nb = push_bit k mb AND 0x3FF"
  have mask: "(0x3FF :: u32) = mask 10" by (simp add: mask_eq_exp_minus_1)
  have "unat nb = unat mb * 2 ^ k mod 2 ^ 10"
    unfolding nb_def mask unat_and_mask k(3) by (rule refl)
  also have "\<dots> = unat mb * 2 ^ k - 1024" using k by (simp add: mod_if)
  finally have nb: "unat nb = unat mb * 2 ^ k - 1024" .
  have "f32_value (push_bit 31 sb OR push_bit 23 (113 - of_nat k) OR push_bit 13 nb)
    = Finite (unat sb = 1) (fields_value 10 15 0 (unat mb))"
    using assms nb by (subst f32_value_pack)
      (simp_all add: unat_113_minus fields_value_subnormal [of k "unat mb"])
  then show ?thesis using k(2) by (simp add: nb_def)
qed

text \<open>
  C31: \<open>f16_to_f32\<close> returns for every one of the 65536 half-precision patterns (its normalising loop
  ends) and the \<open>f32\<close> it builds denotes exactly the number the half denotes: signed zeros,
  subnormals and normals keep sign and value, infinities stay infinities of the same sign, NaNs
  stay NaNs.
\<close>

theorem f16_to_f32_exact: "map_option f32_value (f16_to_f32 h) = Some (f16_value h)"
proof -
  obtain s e m where f: "s < 2" "e < 2 ^ 5" "m < 2 ^ 10" and h: "unat h = (s * 2 ^ 5 + e) * 2 ^ 10 + m"
    by (rule fields_of_u16 [of h])
  define sb eb mb :: u32
    where "sb = ucast (drop_bit 15 h)" and "eb = ucast (drop_bit 10 h AND 0x1F)" and "mb = ucast (h AND 0x3FF)"
  have w: "unat sb = s" "unat eb = e" "unat mb = m"
    unfolding sb_def eb_def mb_def by (rule f16_words [OF h f])+
  have val: "f16_value h = (if e = 31 then (if m = 0 then Infinite (s = 1) else Not_a_number)
      else Finite (s = 1) (fields_value 10 15 e m))"
    unfolding f16_value_def h by (subst ieee_value_fields) (use f in simp_all)
  have run: "f16_to_f32 h =
     (if eb = 0
      then (if mb = 0 then Some (push_bit 31 sb)
            else do { (man, expo) \<leftarrow> f16_norm mb (127 - 15 + 1);
                      Some (push_bit 31 sb OR push_bit 23 expo OR push_bit 13 (man AND 0x3FF)) })
      else if eb = 0x1F then Some (push_bit 31 sb OR 0x7F800000 OR push_bit 13 mb)
      else Some (push_bit 31 sb OR push_bit 23 (eb - 15 + 127) OR push_bit 13 mb))"
    unfolding f16_to_f32_def Let_def f16_sign sb_def eb_def mb_def by (rule refl)
  consider (zero) "e = 0" "m = 0" | (sub) "e = 0" "0 < m" | (special) "e = 31" | (normal) "0 < e" "e < 31"
    using f(2) by (cases "e = 0"; cases "m = 0"; cases "e = 31") auto
  then show ?thesis
  proof cases
    case zero
    then have "eb = 0" "mb = 0" using w by (simp_all add: word_unat_eq_iff)
    with zero show ?thesis
      using f32_value_pack [of sb 0 0] w f by (simp add: run val fields_value_def)
  next
    case sub
    then have z: "eb = 0" "mb \<noteq> 0" using w by (auto simp: word_unat_eq_iff)
    have "0 < unat mb" "unat mb < 1024" using sub w f by simp_all
    then obtain k where k: "k \<le> 10" "f16_norm mb 113 = Some (push_bit k mb, 113 - of_nat k)"
      "unat (push_bit k mb) = unat mb * 2 ^ k" "1024 \<le> unat mb * 2 ^ k" "unat mb * 2 ^ k < 2048"
      by (rule f16_subnormal)
    then show ?thesis using f16_assemble_subnormal [OF k] f w z sub by (simp add: run val)
  next
    case special
    then have "eb = 0x1F" using w by (simp add: word_unat_eq_iff)
    moreover have "(0x7F800000 :: u32) = push_bit 23 255" by (simp add: push_bit_eq_mult)
    ultimately show ?thesis
      using f32_value_pack [of sb 255 mb] w f special by (simp add: run val word_unat_eq_iff)
  next
    case normal
    then have "eb \<noteq> 0" "eb \<noteq> 0x1F" using w by auto
    moreover have "unat (eb - 15 + 127) = e + 112" using normal w by (subst unat_exp_shift) simp_all
    ultimately show ?thesis
      using f32_value_pack [of sb "eb - 15 + 127" mb] w f normal
      by (simp add: run val fields_value_widen [of e m])
  qed
qed

section \<open>Narrowing to bf16 rounds to nearest, ties to even\<close>

text \<open>
  The magnitude of an \<open>f32\<close> as a function of its low 31 bits, read as an index: consecutive
  indices are one unit in the last place apart, across exponent boundaries too.
\<close>

definition mag :: "nat \<Rightarrow> rat" where
  "mag a = fields_value 23 127 (a div 2 ^ 23) (a mod 2 ^ 23)"

definition ulp :: "nat \<Rightarrow> rat" where
  "ulp e = 2 powi (int (max 1 e) - 150)"

lemma ulp_pos: "0 < ulp e"
  by (simp add: ulp_def)

lemma mag_Suc: "mag (Suc a) = mag a + ulp (a div 2 ^ 23)"
proof -
  define e m where "e = a div 2 ^ 23" and "m = a mod 2 ^ 23"
  have a: "a = e * 2 ^ 23 + m" and m: "m < 2 ^ 23" by (simp_all add: e_def m_def)
  have M: "mag a = fields_value 23 127 e m" by (simp add: mag_def e_def m_def)
  have U: "mag a + ulp (a div 2 ^ 23) = fields_value 23 127 e m + ulp e" by (simp only: M e_def)
  have "mag (Suc a) = fields_value 23 127 e m + ulp e"
  proof (cases "Suc m < 2 ^ 23")
    case True
    then have "Suc a div 2 ^ 23 = e" "Suc a mod 2 ^ 23 = Suc m" unfolding a by simp_all
    then have "mag (Suc a) = fields_value 23 127 e (Suc m)" by (simp add: mag_def)
    then show ?thesis by (auto simp: fields_value_def ulp_def algebra_simps)
  next
    case False
    then have top: "m = 2 ^ 23 - 1" using m by simp
    then have n: "Suc a = Suc e * 2 ^ 23" unfolding a by simp
    have "mag (Suc a) = fields_value 23 127 (Suc e) 0" unfolding mag_def n by simp
    moreover have "(2::rat) powi (int (Suc e) - 150) = 2 * 2 powi (int e - 150)"
      using power_int_add [of "2::rat" 1 "int e - 150"] by simp
    ultimately show ?thesis
      by (cases "e = 0") (simp_all add: fields_value_def ulp_def top algebra_simps)
  qed
  then show ?thesis unfolding U .
qed

lemma mag_strict_mono: "strict_mono mag"
  by (simp add: strict_mono_Suc_iff mag_Suc ulp_pos)

lemma mag_segment:
  assumes "c \<le> 65536"
  shows "mag (k * 65536 + c) = mag (k * 65536) + of_nat c * ulp (k div 128)"
  using assms
proof (induction c)
  case (Suc c)
  have "(k * 65536 + c) div 2 ^ 23 = (k * 65536 + c) div 65536 div 128" by (simp add: div_mult2_eq [symmetric])
  also have "(k * 65536 + c) div 65536 = k" using Suc.prems by simp
  finally have "mag (Suc (k * 65536 + c)) = mag (k * 65536 + c) + ulp (k div 128)" by (simp add: mag_Suc)
  then show ?case using Suc by (simp add: algebra_simps)
qed simp

definition bf_round :: "nat \<Rightarrow> nat" where
  "bf_round a = (a + 0x7fff + a div 65536 mod 2) div 65536"

lemma bf_round_split:
  assumes "c < 65536"
  shows "bf_round (k * 65536 + c) = (if c < 32768 \<or> c = 32768 \<and> even k then k else Suc k)"
proof -
  have "(k * 65536 + c) div 65536 = k" using assms by simp
  then have "bf_round (k * 65536 + c) = (k * 65536 + (c + 0x7fff + k mod 2)) div 65536"
    by (simp add: bf_round_def)
  also have "\<dots> = k + (c + 0x7fff + k mod 2) div 65536" by simp
  also have "(c + 0x7fff + k mod 2) div 65536 = (if c < 32768 \<or> c = 32768 \<and> even k then 0 else 1)"
    using assms by (cases "even k") (auto simp: parity_cases odd_iff_mod_2_eq_one even_iff_mod_2_eq_zero div_if)
  finally show ?thesis by simp
qed

lemma bf_round_nearest:
  "\<bar>mag a - mag (bf_round a * 65536)\<bar> \<le> \<bar>mag a - mag (b * 65536)\<bar> \<and>
   (\<bar>mag a - mag (bf_round a * 65536)\<bar> = \<bar>mag a - mag (b * 65536)\<bar> \<longrightarrow>
      b = bf_round a \<or> even (bf_round a))"
proof -
  define k c where "k = a div 65536" and "c = a mod 65536"
  have a: "a = k * 65536 + c" and c: "c < 65536" by (simp_all add: k_def c_def)
  define u lo where "u = ulp (k div 128)" and "lo = mag (k * 65536)"
  have u: "0 < u" by (simp add: u_def ulp_pos)
  have x: "mag a = lo + of_nat c * u" unfolding a u_def lo_def using c by (intro mag_segment) simp
  have hi: "mag (Suc k * 65536) = lo + 65536 * u"
    using mag_segment [of 65536 k] by (simp add: u_def lo_def add.commute)
  have r: "bf_round a = (if c < 32768 \<or> c = 32768 \<and> even k then k else Suc k)"
    unfolding a by (rule bf_round_split [OF c])
  have below: "mag (b * 65536) \<le> lo" if "b \<le> k"
    using that strict_mono_less_eq [OF mag_strict_mono, of "b * 65536" "k * 65536"] by (simp add: lo_def)
  have strictly: "mag (b * 65536) < lo" if "b < k"
    using that strict_mono_less [OF mag_strict_mono, of "b * 65536" "k * 65536"] by (simp add: lo_def)
  have above: "lo + 65536 * u \<le> mag (b * 65536)" if "Suc k \<le> b"
    using that strict_mono_less_eq [OF mag_strict_mono, of "Suc k * 65536" "b * 65536"] by (simp only: hi) simp
  have strictly_above: "lo + 65536 * u < mag (b * 65536)" if "Suc k < b"
    using that strict_mono_less [OF mag_strict_mono, of "Suc k * 65536" "b * 65536"] by (simp only: hi) simp
  define d where "d = of_nat c * u"
  have d: "0 \<le> d" "d < 65536 * u" using u c by (simp_all add: d_def)
  have half: "d < 32768 * u" if "c < 32768" using that u by (simp add: d_def)
  have half': "32768 * u < d" if "32768 < c" using that u by (simp add: d_def)
  have tie: "d = 32768 * u" if "c = 32768" using that by (simp add: d_def)
  consider "b < k" | "b = k" | "b = Suc k" | "Suc k < b" by linarith
  note b_cases = this
  consider (down) "c < 32768" | (tie_even) "c = 32768" "even k" | (tie_odd) "c = 32768" "odd k" | (up) "32768 < c"
    by linarith
  then show ?thesis
    by (cases; rule b_cases) (use d half half' tie below strictly above strictly_above hi in
        \<open>auto simp: r x lo_def [symmetric] d_def [symmetric] abs_if\<close>)
qed

lemma fields_value_bf16: "fields_value 7 127 e m = fields_value 23 127 e (m * 65536)"
  by (simp add: fields_value_def power_int_diff algebra_simps)

lemma ieee_value_index:
  assumes "s < 2" and "a < 2 ^ (8 + f)"
  shows "ieee_value 8 f 127 (s * 2 ^ (8 + f) + a) =
    (if a div 2 ^ f = 255 then (if a mod 2 ^ f = 0 then Infinite (s = 1) else Not_a_number)
     else Finite (s = 1) (fields_value f 127 (a div 2 ^ f) (a mod 2 ^ f)))"
proof -
  have "a div 2 ^ f < 256" using assms(2) by (simp add: power_add less_mult_imp_div_less)
  moreover have "s * 2 ^ (8 + f) + a = (s * 2 ^ 8 + a div 2 ^ f) * 2 ^ f + a mod 2 ^ f"
    by (simp add: power_add algebra_simps)
  ultimately show ?thesis using assms(1) by (simp only: ieee_value_fields) (subst ieee_value_fields, simp_all)
qed

lemma f32_value_index:
  assumes "unat v = s * 2 ^ 31 + a" and "s < 2" and "a < 2 ^ 31"
  shows "f32_value v = (if a < 0x7F800000 then Finite (s = 1) (mag a)
    else if a = 0x7F800000 then Infinite (s = 1) else Not_a_number)"
proof -
  have d: "a div 2 ^ 23 = 255 \<longleftrightarrow> 0x7F800000 \<le> a" using assms(3) by simp linarith
  have "a div 2 ^ 23 = 255 \<Longrightarrow> (a mod 2 ^ 23 = 0 \<longleftrightarrow> a = 0x7F800000)"
    using div_mult_mod_eq [of a "2 ^ 23"] by auto
  with d show ?thesis
    using ieee_value_index [of s a 23] assms by (auto simp: f32_value_def mag_def)
qed

lemma bf16_value_index:
  assumes "unat h = s * 2 ^ 15 + b" and "s < 2" and "b < 2 ^ 15"
  shows "bf16_value h = (if b < 0x7F80 then Finite (s = 1) (mag (b * 65536))
    else if b = 0x7F80 then Infinite (s = 1) else Not_a_number)"
proof -
  have d: "b div 2 ^ 7 = 255 \<longleftrightarrow> 0x7F80 \<le> b" using assms(3) by simp linarith
  have "b div 2 ^ 7 = 255 \<Longrightarrow> (b mod 2 ^ 7 = 0 \<longleftrightarrow> b = 0x7F80)"
    using div_mult_mod_eq [of b "2 ^ 7"] by auto
  moreover have "b * 65536 div 2 ^ 23 = b div 2 ^ 7" "b * 65536 mod 2 ^ 23 = b mod 2 ^ 7 * 65536"
    using div_mult_mult1 [of 65536 b 128] mult_mod_left [of b 128 65536] by (simp_all add: mult.commute)
  ultimately show ?thesis
    using ieee_value_index [of s b 7] assms d by (auto simp: bf16_value_def mag_def fields_value_bf16)
qed

lemma is_nan_index:
  assumes "unat v = s * 2 ^ 31 + a" and "a < 2 ^ 31"
  shows "is_nan v \<longleftrightarrow> 0x7F800000 < a"
proof -
  have "(0x7FFFFFFF :: u32) = mask 31" by (simp add: mask_eq_exp_minus_1)
  then have "unat (v AND 0x7FFFFFFF) = a" using assms by (simp only: unat_and_mask) simp
  then show ?thesis by (simp add: is_nan_def word_less_nat_alt)
qed

lemma f32_to_bf16_index:
  assumes v: "unat v = s * 2 ^ 31 + a" and s: "s < 2" and a: "a \<le> 0x7F800000"
  shows "unat (f32_to_bf16 v) = s * 2 ^ 15 + bf_round a" and "bf_round a \<le> 0x7F80"
proof -
  define odd_bit where "odd_bit = drop_bit 16 v AND 1"
  have m: "mask 1 = (1 :: u32)" by simp
  have "unat odd_bit = unat v div 2 ^ 16 mod 2 ^ 1"
    using unat_and_mask [of "drop_bit 16 v" 1] unfolding m unat_drop_bit odd_bit_def .
  also have "unat v div 2 ^ 16 = s * 2 ^ 15 + a div 65536" unfolding v by simp
  also have "(s * 2 ^ 15 + a div 65536) mod 2 ^ 1 = (s * 2 ^ 15 + a div 65536) mod 2"
    by (simp only: power_one_right)
  also have "\<dots> = a div 65536 mod 2"
    using mod_mult_self2 [of "a div 65536" 2 "s * 2 ^ 14"] by (simp add: ac_simps)
  finally have o: "unat odd_bit = a div 65536 mod 2" .
  then have "unat odd_bit < 2" by simp
  then have sum: "unat (v + 0x7fff + odd_bit) = unat v + 0x7fff + unat odd_bit"
    using s a v by (simp add: unat_word_ariths)
  have "\<not> is_nan v" using is_nan_index [OF v] a by simp
  then have "unat (f32_to_bf16 v) = (unat v + 0x7fff + unat odd_bit) div 65536 mod 65536"
    unfolding f32_to_bf16_def odd_bit_def [symmetric]
    by (simp add: unsigned_ucast_eq take_bit_nat_def unat_drop_bit sum)
  also have "(unat v + 0x7fff + unat odd_bit) div 65536 = s * 2 ^ 15 + bf_round a"
    unfolding v o bf_round_def by simp
  finally have r: "unat (f32_to_bf16 v) = (s * 2 ^ 15 + bf_round a) mod 65536" .
  have "a + 0x7fff + a div 65536 mod 2 \<le> 0x7F800000 + 0x7fff + a div 65536 mod 2" using a by simp
  also have "\<dots> < 0x7F810000" by simp
  finally show le: "bf_round a \<le> 0x7F80" by (simp add: bf_round_def div_le_dividend less_mult_imp_div_less)
  show "unat (f32_to_bf16 v) = s * 2 ^ 15 + bf_round a" using r le s by simp
qed

lemma bf_round_overflow:
  assumes "a < 0x7F800000"
  shows "a < 0x7F7F8000 \<longleftrightarrow> bf_round a < 0x7F80"
proof -
  define k c where "k = a div 65536" and "c = a mod 65536"
  have a: "a = k * 65536 + c" and c: "c < 65536" by (simp_all add: k_def c_def)
  have k: "k < 0x7F80" using assms by (simp add: k_def)
  have "a < 0x7F7F8000 \<longleftrightarrow> k < 0x7F7F \<or> k = 0x7F7F \<and> c < 0x8000"
    unfolding a using c by auto
  also have "\<dots> \<longleftrightarrow> bf_round a < 0x7F80"
    unfolding a bf_round_split [OF c] using k by auto
  finally show ?thesis .
qed

lemma u32_index:
  obtains s a where "s < 2" "a < 2 ^ 31" "unat (v :: u32) = s * 2 ^ 31 + a"
proof (rule that [of "unat v div 2 ^ 31" "unat v mod 2 ^ 31"])
  show "unat v div 2 ^ 31 < 2" using unat_lt_pow [of v] by simp
qed simp_all

lemma u16_index:
  obtains s b where "s < 2" "b < 2 ^ 15" "unat (h :: u16) = s * 2 ^ 15 + b"
proof (rule that [of "unat h div 2 ^ 15" "unat h mod 2 ^ 15"])
  show "unat h div 2 ^ 15 < 2" using unat_lt_pow [of h] by simp
qed simp_all

text \<open>
  C30: Narrowing a finite \<open>f32\<close> to \<open>bf16\<close> gives the nearest \<open>bf16\<close> number of that sign, and of two
  equally near ones the one with an even pattern; it overflows to the infinity of that sign
  exactly when the magnitude is at least \<open>2\<^sup>128 - 2\<^sup>119\<close>, half a unit above the largest finite
  \<open>bf16\<close>.  The rounding addition never wraps into the sign.
\<close>

theorem f32_to_bf16_nearest_even:
  assumes "f32_value v = Finite s x"
  shows "if x < 2 ^ 128 - 2 ^ 119
    then \<exists>z. bf16_value (f32_to_bf16 v) = Finite s z \<and>
      (\<forall>h y. bf16_value h = Finite s y \<longrightarrow> \<bar>x - z\<bar> \<le> \<bar>x - y\<bar> \<and>
        (\<bar>x - z\<bar> = \<bar>x - y\<bar> \<longrightarrow> y = z \<or> even (unat (f32_to_bf16 v))))
    else bf16_value (f32_to_bf16 v) = Infinite s"
proof -
  obtain t a where t: "t < 2" "a < 2 ^ 31" and v: "unat v = t * 2 ^ 31 + a" by (rule u32_index)
  have fin: "a < 0x7F800000" and s: "s = (t = 1)" and x: "x = mag a"
    using assms f32_value_index [OF v t] by (simp_all split: if_splits)
  let ?r = "bf_round a"
  have r: "unat (f32_to_bf16 v) = t * 2 ^ 15 + ?r" "?r \<le> 0x7F80"
    using f32_to_bf16_index [OF v t(1)] fin by simp_all
  then have val: "bf16_value (f32_to_bf16 v) = (if ?r < 0x7F80 then Finite s (mag (?r * 65536)) else Infinite s)"
    using bf16_value_index [OF r(1) t(1)] by (simp add: s)
  have par: "even (unat (f32_to_bf16 v)) \<longleftrightarrow> even ?r" by (simp add: r)
  have lim: "mag 0x7F7F8000 = 2 ^ 128 - 2 ^ 119" by (simp add: mag_def fields_value_def)
  have "x < 2 ^ 128 - 2 ^ 119 \<longleftrightarrow> a < 0x7F7F8000"
    unfolding x lim [symmetric] by (rule strict_mono_less [OF mag_strict_mono])
  also have "\<dots> \<longleftrightarrow> ?r < 0x7F80" by (rule bf_round_overflow [OF fin])
  finally have over: "x < 2 ^ 128 - 2 ^ 119 \<longleftrightarrow> ?r < 0x7F80" .
  have near: "\<bar>x - mag (?r * 65536)\<bar> \<le> \<bar>x - y\<bar> \<and>
      (\<bar>x - mag (?r * 65536)\<bar> = \<bar>x - y\<bar> \<longrightarrow> y = mag (?r * 65536) \<or> even (unat (f32_to_bf16 v)))"
    if y: "bf16_value h = Finite s y" for h y
  proof -
    obtain t' b where b: "t' < 2" "b < 2 ^ 15" and h: "unat h = t' * 2 ^ 15 + b" by (rule u16_index)
    have "y = mag (b * 65536)" using y bf16_value_index [OF h b] by (simp split: if_splits)
    then show ?thesis using bf_round_nearest [of a b] unfolding x par by blast
  qed
  show ?thesis unfolding over using near val by (cases "?r < 0x7F80") auto
qed

theorem f32_to_bf16_nearest_even_witness:
  "\<exists>z. bf16_value (f32_to_bf16 0x3F808000) = Finite False z \<and> \<bar>257 / 256 - z\<bar> \<le> 1 / 256"
proof -
  have v: "f32_value 0x3F808000 = Finite False (257 / 256)"
    by (simp add: f32_value_def ieee_value_def fields_value_def)
  have h: "bf16_value 0x3F80 = Finite False 1"
    by (simp add: bf16_value_def ieee_value_def fields_value_def)
  show ?thesis using f32_to_bf16_nearest_even [OF v] h by fastforce
qed

lemma bf16_quiet_nan:
  fixes w :: u16
  assumes "unat w div 2 ^ 7 mod 2 ^ 8 = 255"
  shows "bf16_value (w OR 0x0040) = Not_a_number"
proof -
  have c: "(0x0040 :: u16) = 2 ^ 6" by simp
  have "drop_bit 7 (w OR 2 ^ 6) = drop_bit 7 w"
    by (rule bit_eqI) (auto simp: bit_simps)
  then have "unat (drop_bit 7 (w OR 2 ^ 6)) = unat (drop_bit 7 w)" by simp
  then have e: "unat (w OR 2 ^ 6) div 2 ^ 7 = unat w div 2 ^ 7" by (simp only: unat_drop_bit)
  have "bit (unat (w OR 2 ^ 6)) 6" by (simp add: bit_unsigned_iff bit_simps)
  then have "bit (take_bit 7 (unat (w OR 2 ^ 6))) 6" by (simp add: bit_take_bit_iff)
  then have "take_bit 7 (unat (w OR 2 ^ 6)) \<noteq> 0" by (intro notI) simp
  then have m: "unat (w OR 2 ^ 6) mod 2 ^ 7 \<noteq> 0" unfolding take_bit_eq_mod .
  show ?thesis unfolding bf16_value_def ieee_value_def Let_def c e using assms m by simp
qed

lemma unat_bf16_to_f32: "unat (bf16_to_f32 h) = unat h * 65536"
proof -
  have "unat h < 65536" using unat_lt_pow [of h] by simp
  then have "unat (ucast h :: u32) * 2 ^ 16 < 2 ^ LENGTH(32)" by (simp add: unat_u16_u32)
  then show ?thesis unfolding bf16_to_f32_def by (subst unat_push_bit) (simp_all add: unat_u16_u32)
qed

lemma bf_round_exact: "bf_round (b * 65536) = b"
  using bf_round_split [of 0 b] by simp

lemma f32_nan_high_half:
  assumes "is_nan v"
  shows "f32_to_bf16 v = ucast (drop_bit 16 v) OR 0x0040" and "bf16_value (f32_to_bf16 v) = Not_a_number"
proof -
  show r: "f32_to_bf16 v = ucast (drop_bit 16 v) OR 0x0040" by (simp add: f32_to_bf16_def assms)
  obtain s a where s: "s < 2" "a < 2 ^ 31" and v: "unat v = s * 2 ^ 31 + a" by (rule u32_index)
  have "0x7F800000 < a" using assms is_nan_index [OF v s(2)] by simp
  then have q: "a div 65536 div 128 = 255" using s by (simp add: div_mult2_eq [symmetric])
  have "unat (ucast (drop_bit 16 v) :: u16) = unat v div 65536 mod 65536"
    by (simp add: unsigned_ucast_eq take_bit_nat_def unat_drop_bit)
  also have "unat v div 65536 = s * 32768 + a div 65536" unfolding v by simp
  finally have "unat (ucast (drop_bit 16 v) :: u16) = s * 32768 + a div 65536" using s by simp
  then have "unat (ucast (drop_bit 16 v) :: u16) div 2 ^ 7 = s * 256 + 255" using q by simp
  then show "bf16_value (f32_to_bf16 v) = Not_a_number"
    unfolding r by (intro bf16_quiet_nan) simp
qed

text \<open>
  The \<open>bf16\<close> tier is lossless: widening a \<open>bf16\<close> denotes the same number, narrowing it back
  returns the very same 16 bits (a NaN comes back with its quiet bit set), and narrowing turns NaN
  into NaN, never into an infinity, and nothing else into NaN.
\<close>

lemma bf16_tier_lossless:
  "f32_value (bf16_to_f32 h) = bf16_value h \<and>
   f32_to_bf16 (bf16_to_f32 h) = (if bf16_value h = Not_a_number then h OR 0x0040 else h) \<and>
   (bf16_value (f32_to_bf16 v) = Not_a_number \<longleftrightarrow> f32_value v = Not_a_number)"
proof (intro conjI)
  obtain s b where s: "s < 2" "b < 2 ^ 15" and h: "unat h = s * 2 ^ 15 + b" by (rule u16_index)
  have w: "unat (bf16_to_f32 h) = s * 2 ^ 31 + b * 65536" unfolding unat_bf16_to_f32 h by simp
  have b31: "b * 65536 < 2 ^ 31" using s by simp
  show val: "f32_value (bf16_to_f32 h) = bf16_value h"
    using f32_value_index [OF w s(1) b31] bf16_value_index [OF h s] by auto
  have nan: "is_nan (bf16_to_f32 h) \<longleftrightarrow> bf16_value h = Not_a_number"
    using is_nan_index [OF w b31] bf16_value_index [OF h s] by auto
  have "ucast (drop_bit 16 (bf16_to_f32 h)) = h"
    using unat_lt_pow [of h]
    by (simp add: word_unat_eq_iff unsigned_ucast_eq take_bit_nat_def unat_drop_bit unat_bf16_to_f32)
  moreover have "f32_to_bf16 (bf16_to_f32 h) = h" if "\<not> is_nan (bf16_to_f32 h)"
    using that f32_to_bf16_index(1) [OF w s(1)] is_nan_index [OF w b31]
    by (simp add: word_unat_eq_iff bf_round_exact h)
  ultimately show "f32_to_bf16 (bf16_to_f32 h) = (if bf16_value h = Not_a_number then h OR 0x0040 else h)"
    using nan f32_nan_high_half(1) [of "bf16_to_f32 h"] by auto
  obtain t a where t: "t < 2" "a < 2 ^ 31" and v: "unat v = t * 2 ^ 31 + a" by (rule u32_index)
  show "bf16_value (f32_to_bf16 v) = Not_a_number \<longleftrightarrow> f32_value v = Not_a_number"
  proof (cases "is_nan v")
    case True
    then show ?thesis
      using f32_nan_high_half(2) is_nan_index [OF v t(2)] f32_value_index [OF v t] by simp
  next
    case False
    then have a: "a \<le> 0x7F800000" using is_nan_index [OF v t(2)] by simp
    note r = f32_to_bf16_index [OF v t(1) a]
    have "bf_round a < 2 ^ 15" using r(2) by simp
    then show ?thesis using bf16_value_index [OF r(1) t(1)] r(2) f32_value_index [OF v t] a by auto
  qed
qed

end
