(* ===== verification/Quant.thy ===== *)
theory Quant
  imports Dtype "HOL-Library.Signed_Division"
begin

text \<open>
  The tensor containers of \<open>colibri-core/src/quant.rs\<close>: the storage formats, the packed payload
  \<open>Bytes\<close> (owned, or a window of a shared buffer) and \<open>QTensor\<close> with its resident size.  The
  contents of a shared buffer are its bytes; who owns the allocation is the business of the buffer
  pool.
\<close>

section \<open>Formats\<close>

datatype qformat = QF32 | QInt8 | QBf16 | QInt2

definition from_code :: "int \<Rightarrow> qformat option" where
  "from_code fmt =
     (if fmt = 0 then Some QF32 else if fmt = 1 then Some QInt8 else if fmt = 2 then Some QBf16
      else if fmt = 3 then Some QInt2 else None)"

primrec format_bits :: "qformat \<Rightarrow> int" where
  "format_bits QF32 = 32"
| "format_bits QBf16 = 16"
| "format_bits QInt8 = 8"
| "format_bits QInt2 = 2"

primrec has_row_scale :: "qformat \<Rightarrow> bool" where
  "has_row_scale QF32 \<longleftrightarrow> False"
| "has_row_scale QBf16 \<longleftrightarrow> False"
| "has_row_scale QInt8 \<longleftrightarrow> True"
| "has_row_scale QInt2 \<longleftrightarrow> True"

section \<open>Payload bytes\<close>

datatype packed =
    Empty
  | Owned byte_string
  | Shared byte_string nat nat

text \<open>Slicing past the end of the shared buffer panics.\<close>

fun as_slice :: "packed \<Rightarrow> byte_string option" where
  "as_slice Empty = Some []"
| "as_slice (Owned v) = Some v"
| "as_slice (Shared buf off len) = get_range buf off (usz (off + len))"

definition packed_len :: "packed \<Rightarrow> nat option" where
  "packed_len b = map_option length (as_slice b)"

definition packed_is_empty :: "packed \<Rightarrow> bool option" where
  "packed_is_empty b = map_option (\<lambda>n. n = 0) (packed_len b)"

section \<open>Tensors\<close>

record qtensor =
  fmt_code :: int
  qf :: "f32 list"
  q8 :: "int list"
  q4 :: packed
  qscales :: "f32 list"
  qblock_scales :: packed
  qglobal :: f32
  qrows :: int
  qcols :: int
  gpu_eligible :: bool

definition qformat_of :: "qtensor \<Rightarrow> qformat option" where
  "qformat_of t = from_code (fmt_code t)"

definition qbytes :: "qtensor \<Rightarrow> int" where
  "qbytes t =
     (let o' = qrows t; i = qcols t; n = wrap64 (o' * i)
      in if fmt_code t = 0 then wrap64 (n * 4)
         else if fmt_code t = 1 then wrap64 (n + o' * 4)
         else if fmt_code t = 2 then wrap64 (n * 2)
         else if fmt_code t = 4 then wrap64 (n + o' * 4)
         else if fmt_code t = 5 then wrap64 (o' * ((i + 1) sdiv 2) + o' * ((i + 15) sdiv 16) + 4)
         else if fmt_code t = 6 then wrap64 (o' * ((i + 1) sdiv 2) + o' * ((i + 31) sdiv 32) + 4)
         else if fmt_code t = 3 then wrap64 (o' * ((i + 3) sdiv 4) + o' * 4)
         else 0)"

end
