(* ===== verification/Chunk.thy ===== *)
theory Chunk
  imports Quant Text
begin

text \<open>
  Sub-expert chunked fetch (\<open>colibri-engine/src/chunk.rs\<close>): an expert's three matrices are cut into
  bands of whole output rows, each a contiguous range of the packed buffer, and a source hands out
  the bytes of one band.

  The theory shows that the bands of a plan tile the buffer exactly and in order, that none is
  empty and none exceeds the target unless it is a single row, and that fetching every band of a
  plan from a resident expert and laying them end to end gives back the matrix byte for byte.
\<close>

section \<open>Planning\<close>

definition DEFAULT_CHUNK_BYTES :: nat where
  "DEFAULT_CHUNK_BYTES = 2 * 2 ^ 20"

datatype expert_matrix = Gate | Up | Down

record moe_expert =
  gate :: qtensor
  up :: qtensor
  down :: qtensor

record chunk_desc =
  cd_layer :: nat
  cd_eid :: nat
  cd_matrix :: expert_matrix
  o_start :: nat
  o_count :: nat
  byte_off :: nat
  byte_len :: nat

definition row_bytes :: "int \<Rightarrow> nat \<Rightarrow> nat" where
  "row_bytes fmt i =
     (if fmt = 0 then usz (i * 4)
      else if fmt = 1 \<or> fmt = 4 then i
      else if fmt = 3 then (i + 3) div 4
      else 0)"

text \<open>The loop that pushes one band after another, from row \<open>o0\<close> on.\<close>

function bands :: "nat \<Rightarrow> nat \<Rightarrow> expert_matrix \<Rightarrow> nat \<Rightarrow> nat \<Rightarrow> nat \<Rightarrow> nat \<Rightarrow> chunk_desc list" where
  "bands layer eid m rows rb band_rows o0 =
     (if o0 < rows \<and> 0 < band_rows
      then (let cnt = min band_rows (rows - o0)
            in \<lparr>cd_layer = layer, cd_eid = eid, cd_matrix = m, o_start = o0, o_count = cnt,
                byte_off = usz (o0 * rb), byte_len = usz (cnt * rb)\<rparr>
               # bands layer eid m rows rb band_rows (o0 + cnt))
      else [])"
  by pat_completeness auto
termination
  by (relation "measure (\<lambda>(_, _, _, rows, _, _, o0). rows - o0)") auto

declare bands.simps [simp del]

definition plan_matrix_chunks ::
    "nat \<Rightarrow> nat \<Rightarrow> expert_matrix \<Rightarrow> nat \<Rightarrow> nat \<Rightarrow> int \<Rightarrow> nat \<Rightarrow> chunk_desc list" where
  "plan_matrix_chunks layer eid m rows i fmt target_bytes =
     (let rb = row_bytes fmt i
      in if rb = 0 \<or> rows = 0 then []
         else bands layer eid m rows rb (max (target_bytes div rb) 1) 0)"

definition plan_tensor :: "nat \<Rightarrow> nat \<Rightarrow> expert_matrix \<Rightarrow> qtensor \<Rightarrow> nat \<Rightarrow> chunk_desc list" where
  "plan_tensor layer eid m t target_bytes =
     plan_matrix_chunks layer eid m (to_usize (qrows t)) (to_usize (qcols t)) (fmt_code t) target_bytes"

definition plan_expert_chunks :: "nat \<Rightarrow> nat \<Rightarrow> moe_expert \<Rightarrow> nat \<Rightarrow> chunk_desc list" where
  "plan_expert_chunks layer eid ex target_bytes =
     plan_tensor layer eid Gate (gate ex) target_bytes @ plan_tensor layer eid Up (up ex) target_bytes
       @ plan_tensor layer eid Down (down ex) target_bytes"

section \<open>Fetching\<close>

datatype fetch_error = Fmt_unsupported int | Chunk_out_of_range

primrec matrix_of :: "moe_expert \<Rightarrow> expert_matrix \<Rightarrow> qtensor" where
  "matrix_of ex Gate = gate ex"
| "matrix_of ex Up = up ex"
| "matrix_of ex Down = down ex"

text \<open>The outer option is the panic of slicing a view past its buffer.\<close>

definition matrix_weight_bytes :: "moe_expert \<Rightarrow> expert_matrix \<Rightarrow> (fetch_error + byte_string) option" where
  "matrix_weight_bytes ex m =
     (let t = matrix_of ex m
      in if fmt_code t = 3 \<or> fmt_code t = 4 then map_option Inr (as_slice (q4 t))
         else Some (Inl (Fmt_unsupported (fmt_code t))))"

text \<open>\<open>fetch_into\<close> of the local source: the new contents of the destination.\<close>

definition fetch_into :: "moe_expert \<Rightarrow> chunk_desc \<Rightarrow> byte_string \<Rightarrow> (fetch_error + byte_string) option" where
  "fetch_into ex d dst =
     (case matrix_weight_bytes ex (cd_matrix d) of
        None \<Rightarrow> None
      | Some (Inl e) \<Rightarrow> Some (Inl e)
      | Some (Inr src) \<Rightarrow>
          (let e = usz (byte_off d + byte_len d)
           in if length src < e \<or> length dst \<noteq> byte_len d then Some (Inl Chunk_out_of_range)
              else map_option Inr (get_range src (byte_off d) e)))"

text \<open>The settings; the environment variables are arguments.\<close>

definition chunk_enabled :: "str option \<Rightarrow> bool" where
  "chunk_enabled v \<longleftrightarrow> v = Some (str_of ''1'')"

definition chunk_bytes :: "str option \<Rightarrow> nat" where
  "chunk_bytes v =
     max (case Option.bind v (parse_uint (2 ^ 64) 10) of Some n \<Rightarrow> n | None \<Rightarrow> DEFAULT_CHUNK_BYTES) (64 * 2 ^ 10)"

section \<open>Bands tile the rows\<close>

fun tiles :: "nat \<Rightarrow> nat \<Rightarrow> chunk_desc list \<Rightarrow> bool" where
  "tiles a b [] \<longleftrightarrow> a = b"
| "tiles a b (d # ds) \<longleftrightarrow> o_start d = a \<and> 0 < o_count d \<and> tiles (a + o_count d) b ds"

definition band_ok :: "nat \<Rightarrow> expert_matrix \<Rightarrow> nat \<Rightarrow> nat \<Rightarrow> nat \<Rightarrow> chunk_desc \<Rightarrow> bool" where
  "band_ok rows m rb band_rows src_len d \<longleftrightarrow>
     cd_matrix d = m \<and> 0 < o_count d \<and> o_count d \<le> band_rows \<and> o_start d + o_count d \<le> rows \<and>
     byte_off d = o_start d * rb \<and> byte_len d = o_count d * rb \<and>
     byte_off d + byte_len d \<le> src_len"

lemma row_range_fits:
  fixes a :: nat
  assumes "a \<le> rows" and "rows * rb < 2 ^ 64"
  shows "usz (a * rb) = a * rb"
proof -
  have "a * rb \<le> rows * rb" using assms(1) by (rule mult_right_mono) simp
  with assms(2) show ?thesis by (intro usz_id) linarith
qed

lemma bands_tile:
  assumes "rows * rb < 2 ^ 64" and "0 < band_rows" and "o0 \<le> rows"
  shows "tiles o0 rows (bands layer eid m rows rb band_rows o0) \<and>
    (\<forall>d \<in> set (bands layer eid m rows rb band_rows o0). band_ok rows m rb band_rows (rows * rb) d)"
  using assms(3)
proof (induction "rows - o0" arbitrary: o0 rule: less_induct)
  case less
  show ?case
  proof (cases "o0 < rows")
    case True
    define cnt where "cnt = min band_rows (rows - o0)"
    have c: "0 < cnt" "cnt \<le> band_rows" "o0 + cnt \<le> rows" using True assms(2) by (auto simp: cnt_def)
    note ih = less.hyps [of "o0 + cnt"]
    have "o0 * rb + cnt * rb \<le> rows * rb"
      using mult_right_mono [OF c(3), of rb] by (simp add: add_mult_distrib)
    then have "band_ok rows m rb band_rows (rows * rb)
        \<lparr>cd_layer = layer, cd_eid = eid, cd_matrix = m, o_start = o0, o_count = cnt,
          byte_off = usz (o0 * rb), byte_len = usz (cnt * rb)\<rparr>"
      using c row_range_fits [OF _ assms(1), of o0] row_range_fits [OF _ assms(1), of cnt]
      by (simp add: band_ok_def)
    then show ?thesis
      using True assms c ih by (subst (1 2) bands.simps) (simp add: Let_def cnt_def [symmetric])
  next
    case False
    then show ?thesis using less.prems by (subst (1 2) bands.simps) simp
  qed
qed

text \<open>Laying tiled byte ranges end to end gives back the tail of the buffer.\<close>

lemma tiles_concat:
  assumes "tiles a rows ds" and "a \<le> rows" and "length src = rows * rb"
    and "\<forall>d \<in> set ds. band_ok rows m rb n (rows * rb) d"
  shows "concat (map (\<lambda>d. take (byte_len d) (drop (byte_off d) src)) ds) = drop (a * rb) src"
  using assms(1,2,4)
proof (induction ds arbitrary: a)
  case Nil
  then show ?case using assms(3) by simp
next
  case (Cons d ds)
  then have d: "o_start d = a" "byte_off d = a * rb" "byte_len d = o_count d * rb" "a + o_count d \<le> rows"
    by (auto simp: band_ok_def)
  have "concat (map (\<lambda>d. take (byte_len d) (drop (byte_off d) src)) ds) = drop ((a + o_count d) * rb) src"
    using Cons d by (intro Cons.IH) auto
  also have "\<dots> = drop (o_count d * rb) (drop (a * rb) src)" by (simp add: algebra_simps)
  finally show ?case
    using append_take_drop_id [of "o_count d * rb" "drop (a * rb) src"] by (simp add: d add.commute)
qed

section \<open>The contract of a chunk source\<close>

text \<open>
  A source holds one buffer per matrix; asked for a band inside it with a destination of the
  band's length, it fills the destination with exactly those bytes.  Whatever keeps this contract
  reassembles a planned matrix.
\<close>

locale chunk_source =
  fixes fetch :: "chunk_desc \<Rightarrow> byte_string \<Rightarrow> (fetch_error + byte_string) option"
    and stored :: "expert_matrix \<Rightarrow> byte_string option"
  assumes fetch_band: "stored (cd_matrix d) = Some src \<Longrightarrow> byte_off d + byte_len d \<le> length src \<Longrightarrow>
    length src < 2 ^ 64 \<Longrightarrow> length dst = byte_len d \<Longrightarrow>
    fetch d dst = Some (Inr (take (byte_len d) (drop (byte_off d) src)))"
begin

lemma fetched_plan:
  assumes "stored m = Some src" and "length src = rows * rb" and "rows * rb < 2 ^ 64" and "0 < rb"
  shows "tiles 0 rows (bands layer eid m rows rb (max (target div rb) 1) 0) \<and>
    (\<exists>bs. map (\<lambda>d. fetch d (replicate (byte_len d) 0)) (bands layer eid m rows rb (max (target div rb) 1) 0)
        = map (Some \<circ> Inr) bs \<and> concat bs = src)"
proof -
  define ds where "ds = bands layer eid m rows rb (max (target div rb) 1) 0"
  have t: "tiles 0 rows ds"
    and ok: "\<forall>d \<in> set ds. band_ok rows m rb (max (target div rb) 1) (rows * rb) d"
    using bands_tile [OF assms(3), of "max (target div rb) 1" 0] by (simp_all add: ds_def)
  define bs where "bs = map (\<lambda>d. take (byte_len d) (drop (byte_off d) src)) ds"
  have "map (\<lambda>d. fetch d (replicate (byte_len d) 0)) ds = map (Some \<circ> Inr) bs"
    unfolding bs_def map_map
  proof (rule map_cong [OF refl])
    fix d assume "d \<in> set ds"
    with ok assms have "stored (cd_matrix d) = Some src" "byte_off d + byte_len d \<le> length src"
      by (auto simp: band_ok_def)
    then show "fetch d (replicate (byte_len d) 0)
        = (Some \<circ> Inr \<circ> (\<lambda>d. take (byte_len d) (drop (byte_off d) src))) d"
      using assms by (simp add: fetch_band)
  qed
  moreover have "concat bs = src"
    using tiles_concat [OF t _ assms(2) ok] by (simp add: bs_def)
  ultimately show ?thesis using t by (auto simp: ds_def)
qed

end

definition resident :: "moe_expert \<Rightarrow> expert_matrix \<Rightarrow> byte_string option" where
  "resident ex m = (case matrix_weight_bytes ex m of Some (Inr src) \<Rightarrow> Some src | _ \<Rightarrow> None)"

interpretation local_source: chunk_source "fetch_into ex" "resident ex"
proof (unfold_locales, goal_cases)
  case (1 d src dst)
  then have "matrix_weight_bytes ex (cd_matrix d) = Some (Inr src)"
    by (simp add: resident_def split: option.splits sum.splits)
  then show ?case using 1 by (simp add: fetch_into_def Let_def usz_id get_range_def)
qed

lemma plan_matrix_bands:
  "0 < row_bytes fmt i \<Longrightarrow> plan_matrix_chunks layer eid m rows i fmt target =
    bands layer eid m rows (row_bytes fmt i) (max (target div row_bytes fmt i) 1) 0"
  by (auto simp: plan_matrix_chunks_def Let_def bands.simps)

text \<open>A planned band is within the target size unless it is a single row.\<close>

lemma planned_band_size:
  assumes "rows * row_bytes fmt i < 2 ^ 64"
    and "d \<in> set (plan_matrix_chunks layer eid m rows i fmt target)"
  shows "0 < byte_len d \<and> byte_off d + byte_len d \<le> rows * row_bytes fmt i \<and>
    (byte_len d \<le> target \<or> o_count d = 1)"
proof -
  let ?rb = "row_bytes fmt i"
  have rb: "0 < ?rb" using assms(2) by (auto simp: plan_matrix_chunks_def Let_def split: if_splits)
  then have ok: "band_ok rows m ?rb (max (target div ?rb) 1) (rows * ?rb) d"
    using assms bands_tile [OF assms(1), of "max (target div ?rb) 1" 0] by (simp add: plan_matrix_bands)
  have "o_count d * ?rb \<le> target" if "o_count d \<noteq> 1"
  proof -
    have "o_count d \<le> target div ?rb" using ok that by (auto simp: band_ok_def)
    then have "o_count d * ?rb \<le> target div ?rb * ?rb" by (rule mult_right_mono) simp
    also have "\<dots> \<le> target" by (rule div_times_less_eq_dividend)
    finally show ?thesis .
  qed
  then show ?thesis using ok rb by (auto simp: band_ok_def)
qed

text \<open>The resident size of a tensor is its rows at the chunker's row size, plus the row scales.\<close>

lemma qbytes_rows:
  assumes "0 \<le> qrows t" "qrows t < 2 ^ 31" "0 \<le> qcols t" "qcols t < 2 ^ 31"
    and "fmt_code t \<in> {1, 3, 4}"
  shows "qbytes t = qrows t * int (row_bytes (fmt_code t) (to_usize (qcols t))) + 4 * qrows t"
proof -
  have p: "qrows t * qcols t \<le> 2 ^ 31 * 2 ^ 31" using assms by (intro mult_mono) simp_all
  have q: "qrows t * ((qcols t + 3) div 4) \<le> 2 ^ 31 * 2 ^ 31" using assms by (intro mult_mono) simp_all
  have s: "(qcols t + 3) sdiv 4 = (qcols t + 3) div 4" using assms by (simp add: signed_divide_int_def)
  have p': "qrows t * qcols t \<le> 4611686018427387904" and r: "qrows t < 2147483648"
    and q': "qrows t * ((qcols t + 3) div 4) \<le> 4611686018427387904" using p q assms by simp_all
  have z: "0 \<le> qrows t * qcols t" "0 \<le> qrows t * ((qcols t + 3) div 4)" using assms by simp_all
  have w: "wrap64 (qrows t * qcols t) = qrows t * qcols t \<and>
    wrap64 (qrows t * qcols t + qrows t * 4) = qrows t * qcols t + qrows t * 4 \<and>
    wrap64 (qrows t * ((qcols t + 3) div 4) + qrows t * 4) = qrows t * ((qcols t + 3) div 4) + qrows t * 4"
    by (intro conjI wrap64_small; use p' q' z assms(1) r in linarith)
  show ?thesis using assms w
    by (auto simp: qbytes_def Let_def row_bytes_def s to_usize_nonneg zdiv_int)
qed

lemma bands_matrix: "d \<in> set (bands layer eid m rows rb n o0) \<Longrightarrow> cd_matrix d = m"
  by (induction layer eid m rows rb n o0 rule: bands.induct)
    (subst (asm) (2) bands.simps, auto simp: Let_def split: if_splits)

lemma filter_plan_tensor:
  "filter (\<lambda>d. cd_matrix d = m) (plan_tensor layer eid m' t target)
    = (if m' = m then plan_tensor layer eid m' t target else [])"
  by (auto simp: plan_tensor_def plan_matrix_chunks_def Let_def filter_id_conv filter_empty_conv
      dest: bands_matrix)

text \<open>
  C32: Fetching a planned expert chunk by chunk loses nothing: for every matrix the local source can
  serve (a q4-packed format whose buffer has its rows), each planned band of that matrix is fetched
  without error into a buffer of its length, and the bands laid end to end in plan order are the
  matrix's weight buffer, byte for byte, whatever the target size.
\<close>

theorem expert_chunks_reassemble:
  assumes "matrix_weight_bytes ex m = Some (Inr src)"
    and "0 < row_bytes (fmt_code (matrix_of ex m)) (to_usize (qcols (matrix_of ex m)))"
    and "length src = to_usize (qrows (matrix_of ex m)) *
      row_bytes (fmt_code (matrix_of ex m)) (to_usize (qcols (matrix_of ex m)))"
    and "length src < 2 ^ 64"
  shows "\<exists>bs. map (\<lambda>d. fetch_into ex d (replicate (byte_len d) 0))
      (filter (\<lambda>d. cd_matrix d = m) (plan_expert_chunks layer eid ex target)) = map (Some \<circ> Inr) bs \<and>
    concat bs = src"
proof -
  have "filter (\<lambda>d. cd_matrix d = m) (plan_expert_chunks layer eid ex target)
      = plan_tensor layer eid m (matrix_of ex m) target"
    by (cases m) (simp_all add: plan_expert_chunks_def filter_plan_tensor)
  moreover have "resident ex m = Some src" using assms(1) by (simp add: resident_def)
  ultimately show ?thesis
    using local_source.fetched_plan [of ex m src, OF _ assms(3)] assms
    by (simp add: plan_tensor_def plan_matrix_bands)
qed

definition tiny_tensor :: qtensor where
  "tiny_tensor = \<lparr>fmt_code = 4, qf = [], q8 = [], q4 = Owned [1, 2, 3, 4, 5, 6], qscales = [0, 0, 0],
     qblock_scales = Empty, qglobal = 0, qrows = 3, qcols = 2, gpu_eligible = False\<rparr>"

definition tiny_expert :: moe_expert where
  "tiny_expert = \<lparr>gate = tiny_tensor, up = tiny_tensor, down = tiny_tensor\<rparr>"

lemma expert_chunks_reassemble_witness:
  "\<exists>bs. map (\<lambda>d. fetch_into tiny_expert d (replicate (byte_len d) 0))
      (filter (\<lambda>d. cd_matrix d = Up) (plan_expert_chunks 0 5 tiny_expert 4)) = map (Some \<circ> Inr) bs \<and>
    concat bs = [1, 2, 3, 4, 5, 6]"
  by (rule expert_chunks_reassemble)
    (simp_all add: matrix_weight_bytes_def tiny_expert_def tiny_tensor_def row_bytes_def to_usize_def)

end
