(* ===== verification/Utf8.thy ===== *)
theory Utf8
  imports Prelude
begin

text \<open>
  Codepoints and their UTF-8 bytes: the tokenizer's \<open>u8_next\<close> and \<open>u8_put\<close>, the JSON parser's
  \<open>push_utf8\<close>, and the standard library's lossy conversion of a byte string.  The main facts: a
  codepoint that is written is read back, from any position of a longer string, the reader always
  advances, and whole characters can be cut off and joined.
\<close>

section \<open>Reading and writing one codepoint\<close>

text \<open>\<open>u8_next\<close>, called with \<open>i\<close> in bounds; bytes that start no sequence pass through.\<close>

definition u8_next :: "byte_string \<Rightarrow> nat \<Rightarrow> u32 \<times> nat" where
  "u8_next s i = (let c = s ! i in
     if c < 0x80 then (ucast c, 1)
     else if drop_bit 5 c = 0x6 \<and> i + 1 < length s then
       (push_bit 6 (ucast c AND 0x1F) OR (ucast (s ! (i + 1)) AND 0x3F), 2)
     else if drop_bit 4 c = 0xE \<and> i + 2 < length s then
       (push_bit 12 (ucast c AND 0x0F) OR push_bit 6 (ucast (s ! (i + 1)) AND 0x3F)
          OR (ucast (s ! (i + 2)) AND 0x3F), 3)
     else if drop_bit 3 c = 0x1E \<and> i + 3 < length s then
       (push_bit 18 (ucast c AND 0x07) OR push_bit 12 (ucast (s ! (i + 1)) AND 0x3F)
          OR push_bit 6 (ucast (s ! (i + 2)) AND 0x3F) OR (ucast (s ! (i + 3)) AND 0x3F), 4)
     else (ucast c, 1))"

definition u8_put :: "u32 \<Rightarrow> byte_string" where
  "u8_put cp =
     (if cp < 0x80 then [ucast cp]
      else if cp < 0x800 then
        [0xC0 OR ucast (drop_bit 6 cp), 0x80 OR ucast (cp AND 0x3F)]
      else if cp < 0x10000 then
        [0xE0 OR ucast (drop_bit 12 cp), 0x80 OR ucast (drop_bit 6 cp AND 0x3F),
         0x80 OR ucast (cp AND 0x3F)]
      else
        [0xF0 OR ucast (drop_bit 18 cp), 0x80 OR ucast (drop_bit 12 cp AND 0x3F),
         0x80 OR ucast (drop_bit 6 cp AND 0x3F), 0x80 OR ucast (cp AND 0x3F)])"

text \<open>\<open>push_utf8\<close> of the JSON parser appends to the output buffer.\<close>

definition push_utf8 :: "byte_string \<Rightarrow> u32 \<Rightarrow> byte_string" where
  "push_utf8 out cp =
     (if cp < 0x80 then out @ [ucast cp]
      else if cp < 0x800 then
        out @ [0xC0 OR ucast (drop_bit 6 cp)] @ [0x80 OR ucast (cp AND 0x3F)]
      else if cp < 0x10000 then
        out @ [0xE0 OR ucast (drop_bit 12 cp)] @ [0x80 OR ucast (drop_bit 6 cp AND 0x3F)]
          @ [0x80 OR ucast (cp AND 0x3F)]
      else
        out @ [0xF0 OR ucast (drop_bit 18 cp)] @ [0x80 OR ucast (drop_bit 12 cp AND 0x3F)]
          @ [0x80 OR ucast (drop_bit 6 cp AND 0x3F)] @ [0x80 OR ucast (cp AND 0x3F)])"

section \<open>Lossy conversion of the standard library\<close>

text \<open>
  \<open>String::from_utf8_lossy\<close>: the longest prefix of a well-formed sequence at the cursor is kept
  when complete and replaced by U+FFFD when cut short.  \<open>utf8_step\<close> returns whether the sequence
  at the head is complete, and how many bytes it takes.
\<close>

definition is_cont :: "u8 \<Rightarrow> bool" where
  "is_cont b \<longleftrightarrow> 0x80 \<le> b \<and> b \<le> 0xBF"

definition second_ok :: "u8 \<Rightarrow> u8 \<Rightarrow> bool" where
  "second_ok c d \<longleftrightarrow>
     (if c = 0xE0 then 0xA0 \<le> d \<and> d \<le> 0xBF
      else if c = 0xED then 0x80 \<le> d \<and> d \<le> 0x9F
      else if c = 0xF0 then 0x90 \<le> d \<and> d \<le> 0xBF
      else if c = 0xF4 then 0x80 \<le> d \<and> d \<le> 0x8F
      else is_cont d)"

definition utf8_width :: "u8 \<Rightarrow> nat" where
  "utf8_width c = (if c < 0x80 then 1 else if 0xC2 \<le> c \<and> c \<le> 0xDF then 2
     else if 0xE0 \<le> c \<and> c \<le> 0xEF then 3 else if 0xF0 \<le> c \<and> c \<le> 0xF4 then 4 else 0)"

definition utf8_step :: "u8 \<Rightarrow> byte_string \<Rightarrow> bool \<times> nat" where
  "utf8_step c rest =
     (let w = utf8_width c in
      if w = 0 then (False, 1)
      else if w = 1 then (True, 1)
      else if rest = [] \<or> \<not> second_ok c (rest ! 0) then (False, 1)
      else if w = 2 then (True, 2)
      else if length rest < 2 \<or> \<not> is_cont (rest ! 1) then (False, 2)
      else if w = 3 then (True, 3)
      else if length rest < 3 \<or> \<not> is_cont (rest ! 2) then (False, 3)
      else (True, 4))"

lemma utf8_step_pos: "utf8_step c rest = (ok, k) \<Longrightarrow> 1 \<le> k"
  by (auto simp: utf8_step_def Let_def split: if_splits)

function utf8_lossy :: "byte_string \<Rightarrow> byte_string" where
  "utf8_lossy [] = []"
| "utf8_lossy (c # rest) =
     (let (ok, k) = utf8_step c rest in
      (if ok then take k (c # rest) else [0xEF, 0xBF, 0xBD]) @ utf8_lossy (drop (k - 1) rest))"
  by pat_completeness auto
termination
  by (relation "measure length") auto

function utf8_valid :: "byte_string \<Rightarrow> bool" where
  "utf8_valid [] = True"
| "utf8_valid (c # rest) =
     (let (ok, k) = utf8_step c rest in ok \<and> utf8_valid (drop (k - 1) rest))"
  by pat_completeness auto
termination
  by (relation "measure length") auto

text \<open>\<open>String::from_utf8(b).unwrap_or_else(from_utf8_lossy)\<close>\<close>

definition string_of_utf8 :: "byte_string \<Rightarrow> byte_string" where
  "string_of_utf8 b = (if utf8_valid b then b else utf8_lossy b)"

lemma utf8_lossy_valid: "utf8_valid s \<Longrightarrow> utf8_lossy s = s"
proof (induction s rule: utf8_valid.induct)
  case (2 c rest)
  obtain ok k where st: "utf8_step c rest = (ok, k)" by force
  with 2 have ih: "utf8_lossy (drop (k - 1) rest) = drop (k - 1) rest" "ok" by auto
  from utf8_step_pos [OF st] have "take k (c # rest) = c # take (k - 1) rest"
    by (cases k) auto
  with st ih show ?case by simp
qed simp

section \<open>Arithmetic reading of the bit operations\<close>

lemma unat_and_low [unat_simps]:
  fixes a :: "'a::len word"
  shows "unat (a AND 0x3F) = unat a mod 64" "unat (a AND 0x1F) = unat a mod 32"
    "unat (a AND 0x0F) = unat a mod 16" "unat (a AND 0x07) = unat a mod 8"
proof -
  have m: "mask 6 = (0x3F :: 'a word)" "mask 5 = (0x1F :: 'a word)" "mask 4 = (0x0F :: 'a word)"
    "mask 3 = (0x07 :: 'a word)"
    by (simp_all add: mask_eq_exp_minus_1)
  show "unat (a AND 0x3F) = unat a mod 64" using unat_and_mask [of a 6] by (simp add: m)
  show "unat (a AND 0x1F) = unat a mod 32" using unat_and_mask [of a 5] by (simp add: m)
  show "unat (a AND 0x0F) = unat a mod 16" using unat_and_mask [of a 4] by (simp add: m)
  show "unat (a AND 0x07) = unat a mod 8" using unat_and_mask [of a 3] by (simp add: m)
qed

lemma unat_u8_u32 [unat_simps]: "unat (ucast (c :: u8) :: u32) = unat c"
  using unat_lt_pow [of c] by (simp add: unsigned_ucast_eq take_bit_nat_def)

lemma unat_u32_u8 [unat_simps]: "unat (ucast (c :: u32) :: u8) = unat c mod 256"
  by (simp add: unsigned_ucast_eq take_bit_nat_def)

lemma unat_lead:
  fixes b :: u8
  shows "unat b < 32 \<Longrightarrow> unat (0xC0 OR b) = 0xC0 + unat b"
    "unat b < 16 \<Longrightarrow> unat (0xE0 OR b) = 0xE0 + unat b"
    "unat b < 8 \<Longrightarrow> unat (0xF0 OR b) = 0xF0 + unat b"
    "unat b < 64 \<Longrightarrow> unat (0x80 OR b) = 0x80 + unat b"
  using unat_push_or [of 6 5 b] unat_push_or [of 7 5 b] unat_push_or [of 15 4 b]
    unat_push_or [of 2 6 b]
  by simp_all

section \<open>What is written is read back\<close>

lemma unat_or_push:
  fixes a b :: u32
  assumes "unat a < 2 ^ j" and "j + k \<le> 32" and "unat b < 2 ^ k"
  shows "unat (push_bit k a OR b) = unat a * 2 ^ k + unat b"
proof (rule unat_push_or [OF _ assms(3)])
  have "unat a * 2 ^ k + unat b < (unat a + 1) * 2 ^ k" using assms(3) by simp
  also have "\<dots> \<le> 2 ^ j * 2 ^ k" using assms(1) by (intro mult_right_mono) auto
  also have "\<dots> = 2 ^ (j + k)" by (simp add: power_add)
  also have "\<dots> \<le> 2 ^ LENGTH(32)" using assms(2) by (intro power_increasing) auto
  finally show "unat a * 2 ^ k + unat b < 2 ^ LENGTH(32)" .
qed

lemma u8_put_length: "1 \<le> length (u8_put cp)" "length (u8_put cp) \<le> 4"
  by (auto simp: u8_put_def)

lemma u8_next_pos: "1 \<le> snd (u8_next s i)"
  by (auto simp: u8_next_def Let_def)

lemma u8_next_bound: "i < length s \<Longrightarrow> i + snd (u8_next s i) \<le> length s"
  by (auto simp: u8_next_def Let_def)

lemma u8_next_append: "u8_next (xs @ s) (length xs + i) = u8_next s i"
proof -
  have n: "(xs @ s) ! (length xs + i + k) = s ! (i + k)" for k
    by (simp add: add.assoc nth_append_length_plus)
  have l: "length xs + i + k < length (xs @ s) \<longleftrightarrow> i + k < length s" for k
    by simp
  show ?thesis unfolding u8_next_def n l nth_append_length_plus ..
qed

lemma u8_next_one: "s ! i < 0x80 \<Longrightarrow> u8_next s i = (ucast (s ! i), 1)"
  by (simp add: u8_next_def Let_def)

text \<open>The value of each multi-byte form, from the payload bits of its bytes.\<close>

lemma lead_not_ascii: "unat (c :: u8) = 0x80 + x \<Longrightarrow> \<not> c < 0x80"
  by (simp add: word_less_nat_alt)

lemma lead_bits:
  fixes c :: u8
  shows "drop_bit 5 c = 0x6 \<longleftrightarrow> unat c div 32 = 6" "drop_bit 4 c = 0xE \<longleftrightarrow> unat c div 16 = 14"
    "drop_bit 3 c = 0x1E \<longleftrightarrow> unat c div 8 = 30"
  by (simp_all add: word_unat_eq_iff unat_drop_bit)

lemma payload_mod:
  "(y::nat) < 64 \<Longrightarrow> (0x80 + y) mod 64 = y" "y < 32 \<Longrightarrow> (0xC0 + y) mod 32 = y"
  "y < 16 \<Longrightarrow> (0xE0 + y) mod 16 = y" "y < 8 \<Longrightarrow> (0xF0 + y) mod 8 = y"
  using mod_mult_self1 [of y 2 64] mod_mult_self1 [of y 6 32] mod_mult_self1 [of y 14 16]
    mod_mult_self1 [of y 30 8]
  by (simp_all add: add.commute)

lemma eq_of_nat_if_unat: "unat w = n \<Longrightarrow> (w :: 'a::len word) = of_nat n"
  by auto

lemma u8_next_2:
  assumes "i + 1 < length s" and c: "unat (s ! i) = 0xC0 + x" "x < 32"
    and d: "unat (s ! (i + 1)) = 0x80 + y" "y < 64"
  shows "u8_next s i = (of_nat (x * 64 + y), 2)"
proof -
  have "unat (push_bit 6 (ucast (s ! i) AND 0x1F :: u32) OR (ucast (s ! (i + 1)) AND 0x3F))
      = x * 64 + y"
    using c d by (subst unat_or_push [of _ 5]) (simp_all add: unat_simps payload_mod)
  then have "push_bit 6 (ucast (s ! i) AND 0x1F :: u32) OR (ucast (s ! (i + 1)) AND 0x3F)
      = of_nat (x * 64 + y)"
    by (rule eq_of_nat_if_unat)
  moreover have "drop_bit 5 (s ! i) = 0x6" using c by (simp add: lead_bits)
  moreover have "\<not> s ! i < 0x80" using c by (simp add: word_less_nat_alt)
  ultimately show ?thesis using assms(1) unfolding u8_next_def Let_def by (simp only: if_True if_False simp_thms)
qed

lemma u8_next_3:
  assumes "i + 2 < length s" and c: "unat (s ! i) = 0xE0 + x" "x < 16"
    and d: "unat (s ! (i + 1)) = 0x80 + y" "y < 64" and e: "unat (s ! (i + 2)) = 0x80 + z" "z < 64"
  shows "u8_next s i = (of_nat (x * 4096 + y * 64 + z), 3)"
proof -
  let ?a = "ucast (s ! i) AND 0x0F :: u32" and ?b = "ucast (s ! (i + 1)) AND 0x3F :: u32"
    and ?c = "ucast (s ! (i + 2)) AND 0x3F :: u32"
  have 1: "unat (push_bit 6 ?b OR ?c) = y * 64 + z"
    using d e by (subst unat_or_push [of _ 6]) (simp_all add: unat_simps payload_mod)
  then have "unat (push_bit 12 ?a OR (push_bit 6 ?b OR ?c)) = x * 4096 + (y * 64 + z)"
    using c d e by (subst unat_or_push [of _ 4]) (simp_all only: 1, simp_all add: unat_simps payload_mod)
  then have "push_bit 12 ?a OR push_bit 6 ?b OR ?c = of_nat (x * 4096 + y * 64 + z)"
    by (simp only: eq_of_nat_if_unat or.assoc add.assoc)
  moreover have "drop_bit 4 (s ! i) = 0xE" "drop_bit 5 (s ! i) \<noteq> 0x6" using c by (simp_all add: lead_bits)
  moreover have "\<not> s ! i < 0x80" using c by (simp add: word_less_nat_alt)
  ultimately show ?thesis using assms(1) unfolding u8_next_def Let_def by (simp only: if_True if_False simp_thms)
qed

lemma u8_next_4:
  assumes "i + 3 < length s" and c: "unat (s ! i) = 0xF0 + x" "x < 8"
    and d: "unat (s ! (i + 1)) = 0x80 + y" "y < 64" and e: "unat (s ! (i + 2)) = 0x80 + z" "z < 64"
    and f: "unat (s ! (i + 3)) = 0x80 + v" "v < 64"
  shows "u8_next s i = (of_nat (x * 262144 + y * 4096 + z * 64 + v), 4)"
proof -
  let ?a = "ucast (s ! i) AND 0x07 :: u32" and ?b = "ucast (s ! (i + 1)) AND 0x3F :: u32"
    and ?c = "ucast (s ! (i + 2)) AND 0x3F :: u32" and ?d = "ucast (s ! (i + 3)) AND 0x3F :: u32"
  have 1: "unat (push_bit 6 ?c OR ?d) = z * 64 + v"
    using e f by (subst unat_or_push [of _ 6]) (simp_all add: unat_simps payload_mod)
  then have 2: "unat (push_bit 12 ?b OR (push_bit 6 ?c OR ?d)) = y * 4096 + (z * 64 + v)"
    using d e f by (subst unat_or_push [of _ 6]) (simp_all only: 1, simp_all add: unat_simps payload_mod)
  then have "unat (push_bit 18 ?a OR (push_bit 12 ?b OR (push_bit 6 ?c OR ?d)))
      = x * 262144 + (y * 4096 + (z * 64 + v))"
    using c d e f by (subst unat_or_push [of _ 3]) (simp_all only: 2, simp_all add: unat_simps payload_mod)
  then have "push_bit 18 ?a OR push_bit 12 ?b OR push_bit 6 ?c OR ?d
      = of_nat (x * 262144 + y * 4096 + z * 64 + v)"
    by (simp only: eq_of_nat_if_unat or.assoc add.assoc)
  moreover have "drop_bit 3 (s ! i) = 0x1E" "drop_bit 4 (s ! i) \<noteq> 0xE" "drop_bit 5 (s ! i) \<noteq> 0x6"
    using c by (simp_all add: lead_bits)
  moreover have "\<not> s ! i < 0x80" using c by (simp add: word_less_nat_alt)
  ultimately show ?thesis using assms(1) unfolding u8_next_def Let_def by (simp only: if_True if_False simp_thms)
qed

lemma u8_put_bytes:
  assumes "cp < 0x110000"
  shows "u8_put cp = (let n = unat cp in
      if n < 0x80 then [of_nat n]
      else if n < 0x800 then [of_nat (0xC0 + n div 64), of_nat (0x80 + n mod 64)]
      else if n < 0x10000 then
        [of_nat (0xE0 + n div 4096), of_nat (0x80 + n div 64 mod 64), of_nat (0x80 + n mod 64)]
      else [of_nat (0xF0 + n div 262144), of_nat (0x80 + n div 4096 mod 64),
        of_nat (0x80 + n div 64 mod 64), of_nat (0x80 + n mod 64)])"
proof -
  have low: "0x80 OR ucast (a AND 0x3F :: u32) = (of_nat (0x80 + unat a mod 64) :: u8)" for a
  proof -
    have "unat (0x80 OR ucast (a AND 0x3F :: u32) :: u8) = 0x80 + unat a mod 64"
      by (subst unat_lead(4)) (simp_all add: unat_simps)
    then show ?thesis by (rule eq_of_nat_if_unat)
  qed
  have lead: "0xC0 OR b = (of_nat (0xC0 + unat b) :: u8)" if "unat b < 32" for b
    using unat_lead(1) [OF that] by (rule eq_of_nat_if_unat)
  have lead3: "0xE0 OR b = (of_nat (0xE0 + unat b) :: u8)" if "unat b < 16" for b
    using unat_lead(2) [OF that] by (rule eq_of_nat_if_unat)
  have lead4: "0xF0 OR b = (of_nat (0xF0 + unat b) :: u8)" if "unat b < 8" for b
    using unat_lead(3) [OF that] by (rule eq_of_nat_if_unat)
  have shift: "unat (ucast (drop_bit k cp) :: u8) = unat cp div 2 ^ k" if "unat cp div 2 ^ k < 256" for k
    using that by (simp add: unat_simps)
  have bound: "unat cp < 0x110000" using assms by (simp add: word_less_nat_alt)
  consider "unat cp < 0x80" | "\<not> unat cp < 0x80" "unat cp < 0x800"
    | "\<not> unat cp < 0x800" "unat cp < 0x10000" | "\<not> unat cp < 0x10000" by linarith
  then show ?thesis
  proof cases
    case 1
    then have "cp < 0x80" by (simp add: word_less_nat_alt)
    moreover have "(ucast cp :: u8) = of_nat (unat cp)" by simp
    ultimately show ?thesis using 1 by (simp add: u8_put_def)
  next
    case 2
    then have "\<not> cp < 0x80" "cp < 0x800" by (simp_all add: word_less_nat_alt)
    moreover have "unat cp div 2 ^ 6 < 32" using 2 by auto
    ultimately show ?thesis
      using 2 unfolding u8_put_def low by (subst lead) (simp_all only: shift, simp_all add: shift Let_def)
  next
    case 3
    then have "\<not> cp < 0x80" "\<not> cp < 0x800" "cp < 0x10000" by (simp_all add: word_less_nat_alt)
    moreover have "unat cp div 2 ^ 12 < 16" using 3 by auto
    ultimately show ?thesis
      using 3 unfolding u8_put_def low
      by (subst lead3) (simp_all only: shift, simp_all add: shift unat_drop_bit Let_def)
  next
    case 4
    then have "\<not> cp < 0x80" "\<not> cp < 0x800" "\<not> cp < 0x10000" by (simp_all add: word_less_nat_alt)
    moreover have "unat cp div 2 ^ 18 < 8" using bound by auto
    ultimately show ?thesis
      using 4 unfolding u8_put_def low
      by (subst lead4) (simp_all only: shift, simp_all add: shift unat_drop_bit Let_def)
  qed
qed

lemma digits_base64:
  fixes n :: nat
  shows "n div 4096 * 4096 + n div 64 mod 64 * 64 + n mod 64 = n"
    "n div 262144 * 262144 + n div 4096 mod 64 * 4096 + n div 64 mod 64 * 64 + n mod 64 = n"
proof -
  have d: "n div 4096 = n div 64 div 64" "n div 262144 = n div 64 div 64 div 64"
    by (simp_all add: div_mult2_eq [symmetric])
  have "m div 64 * 64 + m mod 64 = m" for m :: nat by simp
  from this [of n] this [of "n div 64"] this [of "n div 64 div 64"]
  show "n div 4096 * 4096 + n div 64 mod 64 * 64 + n mod 64 = n"
    and "n div 262144 * 262144 + n div 4096 mod 64 * 4096 + n div 64 mod 64 * 64 + n mod 64 = n"
    unfolding d by linarith+
qed

lemma unat_of_nat_u8: "n < 256 \<Longrightarrow> unat (of_nat n :: u8) = n"
  by (simp add: unat_of_nat)

text \<open>
  A codepoint written anywhere in a byte string is read back at its position, and the reader
  advances by exactly the bytes written, whatever stands before and after it.
\<close>

lemma u8_next_put:
  assumes "cp < 0x110000"
  shows "u8_next (pre @ u8_put cp @ post) (length pre) = (cp, length (u8_put cp))"
proof -
  let ?s = "u8_put cp @ post" and ?n = "unat cp"
  have bound: "?n < 0x110000" using assms by (simp add: word_less_nat_alt)
  note put = u8_put_bytes [OF assms, unfolded Let_def]
  consider "?n < 0x80" | "\<not> ?n < 0x80" "?n < 0x800"
    | "\<not> ?n < 0x80" "\<not> ?n < 0x800" "?n < 0x10000"
    | "\<not> ?n < 0x80" "\<not> ?n < 0x800" "\<not> ?n < 0x10000" by linarith
  then have "u8_next ?s 0 = (cp, length (u8_put cp))"
  proof cases
    case 1
    then have "u8_put cp = [of_nat ?n]" using put by simp
    moreover have "unat (of_nat ?n :: u8) = ?n" using 1 by (intro unat_of_nat_u8) simp
    moreover from this have "(ucast (of_nat ?n :: u8) :: u32) = cp"
      by (simp add: word_unat_eq_iff unat_u8_u32)
    ultimately show ?thesis using 1 by (subst u8_next_one) (simp_all add: word_less_nat_alt)
  next
    case 2
    then have p: "u8_put cp = [of_nat (0xC0 + ?n div 64), of_nat (0x80 + ?n mod 64)]"
      using put by (simp only: if_True if_False simp_thms)
    have "u8_next ?s 0 = (of_nat (?n div 64 * 64 + ?n mod 64), 2)"
      using 2 by (intro u8_next_2) (auto simp: p unat_of_nat_u8 simp del: of_nat_add)
    with p show ?thesis by simp
  next
    case 3
    then have p: "u8_put cp = [of_nat (0xE0 + ?n div 4096), of_nat (0x80 + ?n div 64 mod 64),
        of_nat (0x80 + ?n mod 64)]"
      using put by (simp only: if_True if_False simp_thms)
    have "u8_next ?s 0 = (of_nat (?n div 4096 * 4096 + ?n div 64 mod 64 * 64 + ?n mod 64), 3)"
      using 3 by (intro u8_next_3) (auto simp: p unat_of_nat_u8 numeral_2_eq_2 simp del: of_nat_add)
    then show ?thesis using p by (simp only: digits_base64) simp
  next
    case 4
    then have p: "u8_put cp = [of_nat (0xF0 + ?n div 262144), of_nat (0x80 + ?n div 4096 mod 64),
        of_nat (0x80 + ?n div 64 mod 64), of_nat (0x80 + ?n mod 64)]"
      using put by (simp only: if_True if_False simp_thms)
    have "?n div 262144 < 8" using bound by linarith
    then have "u8_next ?s 0 = (of_nat (?n div 262144 * 262144 + ?n div 4096 mod 64 * 4096
        + ?n div 64 mod 64 * 64 + ?n mod 64), 4)"
      by (intro u8_next_4) (auto simp: p unat_of_nat_u8 numeral_2_eq_2 numeral_3_eq_3 simp del: of_nat_add)
    then show ?thesis using p by (simp only: digits_base64) simp
  qed
  then show ?thesis using u8_next_append [of pre ?s 0] by simp
qed

lemma push_utf8_put: "push_utf8 out cp = out @ u8_put cp"
  by (simp add: push_utf8_def u8_put_def)

lemma utf8_valid_ascii: "list_all (\<lambda>c. c < 0x80) s \<Longrightarrow> utf8_valid s"
  by (induction s) (simp_all add: utf8_step_def utf8_width_def)

lemma utf8_valid_Cons: "c < 0x80 \<Longrightarrow> utf8_valid (c # s) \<longleftrightarrow> utf8_valid s"
  by (simp add: utf8_step_def utf8_width_def)

lemma utf8_ascii_lit: "list_all (\<lambda>c. (of_char c :: nat) < 128) s \<Longrightarrow> utf8_valid (lit s)"
  by (intro utf8_valid_ascii) (simp add: lit_def list_all_iff word_less_nat_alt unat_of_nat)

section \<open>Whole characters\<close>

text \<open>A complete sequence at the head is read the same whatever follows it.\<close>

lemma utf8_step_append: "utf8_step c rest = (True, k) \<Longrightarrow> utf8_step c (rest @ ys) = (True, k)"
  by (auto simp: utf8_step_def Let_def nth_append split: if_splits)

lemma utf8_step_bound: "utf8_step c rest = (True, k) \<Longrightarrow> k \<le> Suc (length rest)"
  by (cases rest) (auto simp: utf8_step_def Let_def Suc_le_eq split: if_splits)

lemma utf8_step_take: "utf8_step c rest = (True, k) \<Longrightarrow> utf8_step c (take (k - 1) rest) = (True, k)"
  by (cases rest) (auto simp: utf8_step_def Let_def Suc_le_eq split: if_splits)

lemma utf8_valid_cut: "utf8_valid a \<Longrightarrow> utf8_valid (a @ b) \<longleftrightarrow> utf8_valid b"
proof (induction a rule: utf8_valid.induct)
  case (2 c rest)
  obtain k where st: "utf8_step c rest = (True, k)" "utf8_valid (drop (k - 1) rest)" using 2(2) by (auto split: prod.splits)
  note le = utf8_step_bound [OF st(1)]
  have "utf8_step c (rest @ b) = (True, k)" using st(1) by (rule utf8_step_append)
  moreover have "drop (k - 1) (rest @ b) = drop (k - 1) rest @ b" using le by simp
  ultimately show ?case using 2(1) [OF st(1) [symmetric] refl] st(2) by simp
qed simp

lemma utf8_valid_append: "utf8_valid a \<Longrightarrow> utf8_valid b \<Longrightarrow> utf8_valid (a @ b)"
  by (simp add: utf8_valid_cut)

lemma utf8_valid_lossy: "utf8_valid (utf8_lossy s)"
proof (induction s rule: utf8_lossy.induct)
  case (2 c rest)
  obtain ok k where st: "utf8_step c rest = (ok, k)" by fastforce
  have ih: "utf8_valid (utf8_lossy (drop (k - 1) rest))" using 2 [OF st [symmetric] refl] .
  show ?case
  proof (cases ok)
    case True
    obtain j where k: "k = Suc j" using utf8_step_pos [OF st] by (cases k) auto
    have "utf8_step c (take j rest) = (True, k)" using utf8_step_take [of c rest k] st True k by simp
    then have "utf8_valid (take k (c # rest))" by (simp add: k)
    then show ?thesis using st ih True by (simp add: utf8_valid_append)
  next
    case False
    have "utf8_valid [0xEF, 0xBF, 0xBD]" by code_simp
    then show ?thesis using st ih False utf8_valid_append [of "[0xEF, 0xBF, 0xBD]"] by simp
  qed
qed simp

text \<open>A character never starts with a continuation byte.\<close>

lemma valid_head: "utf8_valid (c # rest) \<Longrightarrow> \<not> is_cont c"
proof
  assume v: "utf8_valid (c # rest)" and "is_cont c"
  then have "utf8_width c = 0" by (auto simp: utf8_width_def is_cont_def word_le_nat_alt word_less_nat_alt)
  then show False using v by (simp add: utf8_step_def)
qed

end
