(* ===== verification/Float64.thy ===== *)
theory Float64
  imports Prelude
begin

text \<open>
  The binary64 operations of the standard library that the JSON layer uses: reading a decimal
  literal with correct rounding (\<open>str::parse::<f64>\<close>), the saturating cast \<open>as i64\<close>, and the casts
  between integer widths.  A float is its bit pattern.  The main fact: integers of magnitude below
  \<open>2 ^ 53\<close> survive the trip through a float.
\<close>

type_synonym f64 = u64

section \<open>Rounding a positive rational\<close>

text \<open>the number of binary digits\<close>

fun bit_len :: "nat \<Rightarrow> nat" where
  "bit_len n = (if n = 0 then 0 else Suc (bit_len (n div 2)))"

declare bit_len.simps [simp del]

text \<open>the exponent \<open>e\<close> with \<open>2 ^ e \<le> num / den < 2 ^ (e + 1)\<close>\<close>

definition scale_ge :: "nat \<Rightarrow> nat \<Rightarrow> int \<Rightarrow> bool" where
  "scale_ge num den e \<longleftrightarrow> den * 2 ^ nat e \<le> num * 2 ^ nat (- e)"

definition ilog2 :: "nat \<Rightarrow> nat \<Rightarrow> int" where
  "ilog2 num den = (let k = int (bit_len num) - int (bit_len den) in if scale_ge num den k then k else k - 1)"

text \<open>round half to even\<close>

definition div_even :: "nat \<Rightarrow> nat \<Rightarrow> nat" where
  "div_even n d = (let q = n div d; r = n mod d in
     if d < 2 * r \<or> 2 * r = d \<and> odd q then q + 1 else q)"

text \<open>the bits of the binary64 nearest to \<open>num / den\<close>; the subnormal range starts at \<open>2 ^ -1022\<close>\<close>

definition f64_bits :: "nat \<Rightarrow> nat \<Rightarrow> nat" where
  "f64_bits num den =
     (if num = 0 then 0
      else let e = max (ilog2 num den) (- 1022);
               q = e - 52;
               m = div_even (num * 2 ^ nat (- q)) (den * 2 ^ nat q);
               bits = (if m < 2 ^ 52 then m else nat (e + 1023) * 2 ^ 52 + (m - 2 ^ 52))
           in min bits (0x7FF * 2 ^ 52))"

definition f64_of_ratio :: "bool \<Rightarrow> nat \<Rightarrow> nat \<Rightarrow> f64" where
  "f64_of_ratio neg num den = of_nat ((if neg then 2 ^ 63 else 0) + f64_bits num den)"

section \<open>Decimal literals\<close>

definition is_digit :: "u8 \<Rightarrow> bool" where
  "is_digit c \<longleftrightarrow> 0x30 \<le> c \<and> c \<le> 0x39"

definition digits_value :: "byte_string \<Rightarrow> nat" where
  "digits_value ds = foldl (\<lambda>v c. v * 10 + (unat c - 0x30)) 0 ds"

definition take_sign :: "byte_string \<Rightarrow> bool \<times> byte_string" where
  "take_sign s = (case s of [] \<Rightarrow> (False, [])
     | c # r \<Rightarrow> if c = 0x2D then (True, r) else if c = 0x2B then (False, r) else (False, s))"

text \<open>the exponent part, \<open>None\<close> when it is malformed; absent is 0\<close>

definition parse_exp :: "byte_string \<Rightarrow> int option" where
  "parse_exp s = (case s of [] \<Rightarrow> Some 0
     | c # r \<Rightarrow>
         if c = 0x65 \<or> c = 0x45 then
           (let (neg, ds) = take_sign r in
            if ds \<noteq> [] \<and> list_all is_digit ds
            then Some (if neg then - int (digits_value ds) else int (digits_value ds)) else None)
         else None)"

definition f64_parse :: "byte_string \<Rightarrow> f64 option" where
  "f64_parse s =
     (let (neg, r) = take_sign s;
          ip = takeWhile is_digit r; r1 = dropWhile is_digit r;
          (fp, r2) = (case r1 of c # r' \<Rightarrow> if c = 0x2E then (takeWhile is_digit r', dropWhile is_digit r') else ([], r1)
                       | [] \<Rightarrow> ([], []))
      in if ip = [] \<and> fp = [] then None
         else case parse_exp r2 of
             None \<Rightarrow> None
           | Some x \<Rightarrow>
               let m = digits_value (ip @ fp); e = x - int (length fp) in
               Some (f64_of_ratio neg (m * 10 ^ nat e) (10 ^ nat (- e))))"

section \<open>Casts\<close>

text \<open>\<open>as i64\<close>: truncation toward zero, saturation, and 0 for NaN\<close>

definition f64_as_i64 :: "f64 \<Rightarrow> int" where
  "f64_as_i64 w =
     (let n = unat w;
          neg = 2 ^ 63 \<le> n;
          x = n mod 2 ^ 63 div 2 ^ 52;
          f = n mod 2 ^ 52;
          v = (if x = 0 then 0
               else if x < 1075 then (2 ^ 52 + f) div 2 ^ (1075 - x)
               else (2 ^ 52 + f) * 2 ^ (x - 1075))
      in if x = 0x7FF \<and> f \<noteq> 0 then 0
         else if x = 0x7FF then (if neg then - (2 ^ 63) else 2 ^ 63 - 1)
         else if neg then max (- int v) (- (2 ^ 63)) else min (int v) (2 ^ 63 - 1))"

text \<open>\<open>as i32\<close> on an \<open>i64\<close> keeps the low 32 bits\<close>

definition wrap32 :: "int \<Rightarrow> int" where
  "wrap32 v = (v + 2 ^ 31) mod 2 ^ 32 - 2 ^ 31"

lemma wrap32_id: "- (2 ^ 31) \<le> v \<Longrightarrow> v < 2 ^ 31 \<Longrightarrow> wrap32 v = v"
  by (simp add: wrap32_def)

lemma wrap32_range: "- (2 ^ 31) \<le> wrap32 v" "wrap32 v < 2 ^ 31"
  by (simp_all add: wrap32_def)

section \<open>Small integers are exact\<close>

lemma bit_len_bounds: "0 < n \<Longrightarrow> 2 ^ (bit_len n - 1) \<le> n \<and> n < 2 ^ bit_len n \<and> 0 < bit_len n"
proof (induction n rule: bit_len.induct)
  case (1 n)
  show ?case
  proof (cases "n div 2 = 0")
    case True
    then have "n = 1" using 1(2) by simp
    then show ?thesis by (simp add: bit_len.simps)
  next
    case False
    let ?b = "bit_len (n div 2)"
    from 1 False have ih: "2 ^ (?b - 1) \<le> n div 2" "n div 2 < 2 ^ ?b" "0 < ?b" by auto
    then obtain c where c: "?b = Suc c" by (cases ?b) auto
    have "bit_len n = Suc ?b" using 1(2) by (subst bit_len.simps) simp
    moreover have "2 ^ ?b \<le> n" "n < 2 ^ Suc ?b" using ih c by auto
    ultimately show ?thesis by simp
  qed
qed

lemma bit_len_1: "bit_len (Suc 0) = 1"
  by (simp add: bit_len.simps)

lemma ilog2_int:
  assumes "0 < n" shows "ilog2 n 1 = int (bit_len n) - 1"
proof -
  have k: "nat (int (bit_len n) - 1) = bit_len n - 1" "nat (- (int (bit_len n) - 1)) = 0"
    using bit_len_bounds [OF assms] by auto
  have "scale_ge n 1 (int (bit_len n) - 1)"
    unfolding scale_ge_def k using bit_len_bounds [OF assms] by simp
  then show ?thesis by (simp add: ilog2_def bit_len_1)
qed

lemma f64_bits_int:
  assumes "0 < n" "n < 2 ^ 53"
  shows "f64_bits n 1 = (bit_len n + 1022) * 2 ^ 52 + (n * 2 ^ (53 - bit_len n) - 2 ^ 52)"
    and "2 ^ 52 \<le> n * 2 ^ (53 - bit_len n)" and "n * 2 ^ (53 - bit_len n) < 2 ^ 53"
    and "bit_len n \<le> 53"
proof -
  let ?b = "bit_len n"
  have b: "2 ^ (?b - 1) \<le> n" "n < 2 ^ ?b" "0 < ?b" using bit_len_bounds [OF assms(1)] by auto
  show le: "?b \<le> 53"
  proof (rule ccontr)
    assume "\<not> ?b \<le> 53"
    then have "(2::nat) ^ 53 \<le> 2 ^ (?b - 1)" by (intro power_increasing) auto
    with b(1) assms(2) show False by linarith
  qed
  have "(2::nat) ^ 52 = 2 ^ (?b - 1) * 2 ^ (53 - ?b)" using le b(3) by (simp flip: power_add)
  also have "\<dots> \<le> n * 2 ^ (53 - ?b)" using b(1) by (rule mult_le_mono1)
  finally show lo: "2 ^ 52 \<le> n * 2 ^ (53 - ?b)" .
  have "n * 2 ^ (53 - ?b) < 2 ^ ?b * 2 ^ (53 - ?b)" using b(2) by simp
  also have "\<dots> = 2 ^ 53" using le by (simp flip: power_add)
  finally show hi: "n * 2 ^ (53 - ?b) < 2 ^ 53" .
  have e: "max (ilog2 n 1) (- 1022) = int ?b - 1" using ilog2_int [OF assms(1)] b(3) by simp
  have q: "nat (- (int ?b - 1 - 52)) = 53 - ?b" "nat (int ?b - 1 - 52) = 0" using le by auto
  have "f64_bits n 1 = min ((?b + 1022) * 2 ^ 52 + (n * 2 ^ (53 - ?b) - 2 ^ 52)) (0x7FF * 2 ^ 52)"
    using assms(1) lo b(3) unfolding f64_bits_def e Let_def q
    by (simp add: div_even_def nat_add_distrib add.commute del: power_numeral)
  also have "\<dots> = (?b + 1022) * 2 ^ 52 + (n * 2 ^ (53 - ?b) - 2 ^ 52)"
    using hi le by (simp add: min_def)
  finally show "f64_bits n 1 = (?b + 1022) * 2 ^ 52 + (n * 2 ^ (53 - ?b) - 2 ^ 52)" .
qed

lemma f64_int_exact:
  assumes "n < 2 ^ 53"
  shows "f64_as_i64 (f64_of_ratio neg n 1) = (if neg then - int n else int n)"
proof (cases "n = 0")
  case True
  then show ?thesis by (simp add: f64_of_ratio_def f64_bits_def f64_as_i64_def)
next
  case False
  let ?b = "bit_len n" and ?f = "n * 2 ^ (53 - bit_len n) - 2 ^ 52"
  from False have pos: "0 < n" by simp
  note facts = f64_bits_int [OF pos assms]
  define m where "m = n * 2 ^ (53 - bit_len n)"
  have m: "2 ^ 52 \<le> m" "m < 2 ^ 53" using facts(2,3) by (simp_all add: m_def)
  then have f: "m - 2 ^ 52 < 2 ^ 52" by simp
  have b: "0 < ?b" "?b \<le> 53" using bit_len_bounds [OF pos] facts(4) by simp_all
  define w where "w = f64_of_ratio neg n 1"
  let ?B = "(?b + 1022) * 2 ^ 52 + (m - 2 ^ 52)"
  have B: "?B < 2 ^ 63" using f b by simp
  have un: "unat w = (if neg then 2 ^ 63 else 0) + ?B"
  proof -
    have "(if neg then 2 ^ 63 else 0) + ?B < 2 ^ LENGTH(64)" using B by auto
    then show ?thesis
      unfolding w_def f64_of_ratio_def facts(1) m_def [symmetric] by (simp only: unat_of_nat mod_less)
  qed
  have mod63: "unat w mod 2 ^ 63 = ?B"
    unfolding un using B by (cases neg) (simp_all only: if_True if_False mod_add_self1 mod_less add_0)
  have "?B div 2 ^ 52 = ?b + 1022" using f by simp
  then have x: "unat w mod 2 ^ 63 div 2 ^ 52 = ?b + 1022" by (simp only: mod63)
  have "unat w mod 2 ^ 52 = (unat w mod 2 ^ 63) mod 2 ^ 52" by (simp add: mod_mod_cancel)
  also have "\<dots> = m - 2 ^ 52" unfolding mod63 using f by (simp only: mod_mult_self3 mod_less)
  finally have fr: "unat w mod 2 ^ 52 = m - 2 ^ 52" .
  have sg: "2 ^ 63 \<le> unat w \<longleftrightarrow> neg" unfolding un using B by auto
  have val: "(if ?b + 1022 < 1075 then (2 ^ 52 + (m - 2 ^ 52)) div 2 ^ (1075 - (?b + 1022))
      else (2 ^ 52 + (m - 2 ^ 52)) * 2 ^ (?b + 1022 - 1075)) = n"
    using m b by (auto simp: m_def)
  have n63: "int n \<le> 2 ^ 63 - 1" using assms by simp
  show ?thesis
    unfolding w_def [symmetric] f64_as_i64_def Let_def x fr sg
    using val b n63 by simp
qed

end
