(* ===== verification/Json.thy ===== *)
theory Json
  imports Utf8 Float64 Text
begin

text \<open>
  The JSON parser of \<open>colibri-json\<close>: the value type, the insertion-ordered object with its index,
  the accessors, and the lenient recursive-descent parser over the bytes of the text.  Strings are
  their UTF-8 bytes, numbers are the bits of an \<open>f64\<close>.

  The parser recurses on nested values; the model takes fuel, and twice the length of the text plus
  two is always enough.
\<close>

section \<open>Values\<close>

datatype 'v json_obj =
  JsonObj (jo_keys: "byte_string list") (jo_vals: "'v list") (jo_index: "byte_string \<rightharpoonup> nat")

datatype json =
    Null
  | Bool bool
  | Num f64
  | Str byte_string
  | Arr "json list"
  | Obj "json json_obj"

definition obj_new :: "'v json_obj" where
  "obj_new = JsonObj [] [] (\<lambda>_. None)"

definition obj_push :: "byte_string \<Rightarrow> 'v \<Rightarrow> 'v json_obj \<Rightarrow> 'v json_obj" where
  "obj_push key val ob =
     (case jo_index ob key of
        Some i \<Rightarrow> JsonObj (jo_keys ob) ((jo_vals ob)[i := val]) (jo_index ob)
      | None \<Rightarrow> JsonObj (jo_keys ob @ [key]) (jo_vals ob @ [val])
          ((jo_index ob)(key \<mapsto> length (jo_keys ob))))"

definition obj_get :: "'v json_obj \<Rightarrow> byte_string \<Rightarrow> 'v option" where
  "obj_get ob key = map_option (\<lambda>i. jo_vals ob ! i) (jo_index ob key)"

definition obj_len :: "'v json_obj \<Rightarrow> nat" where
  "obj_len ob = length (jo_keys ob)"

definition obj_is_empty :: "'v json_obj \<Rightarrow> bool" where
  "obj_is_empty ob \<longleftrightarrow> jo_keys ob = []"

definition obj_iter :: "'v json_obj \<Rightarrow> (byte_string \<times> 'v) list" where
  "obj_iter ob = zip (jo_keys ob) (jo_vals ob)"

definition json_get :: "json \<Rightarrow> byte_string \<Rightarrow> json option" where
  "json_get j key = (case j of Obj ob \<Rightarrow> obj_get ob key | _ \<Rightarrow> None)"

definition as_f64 :: "json \<Rightarrow> f64 option" where
  "as_f64 j = (case j of Num n \<Rightarrow> Some n | _ \<Rightarrow> None)"

definition as_i64 :: "json \<Rightarrow> int option" where
  "as_i64 j = (case j of Num n \<Rightarrow> Some (f64_as_i64 n) | _ \<Rightarrow> None)"

definition as_bool :: "json \<Rightarrow> bool option" where
  "as_bool j = (case j of Bool b \<Rightarrow> Some b | _ \<Rightarrow> None)"

definition as_str :: "json \<Rightarrow> byte_string option" where
  "as_str j = (case j of Str s \<Rightarrow> Some s | _ \<Rightarrow> None)"

definition as_array :: "json \<Rightarrow> json list option" where
  "as_array j = (case j of Arr a \<Rightarrow> Some a | _ \<Rightarrow> None)"

definition as_object :: "json \<Rightarrow> json json_obj option" where
  "as_object j = (case j of Obj ob \<Rightarrow> Some ob | _ \<Rightarrow> None)"

definition is_null :: "json \<Rightarrow> bool" where
  "is_null j \<longleftrightarrow> j = Null"

section \<open>Scanning\<close>

text \<open>\<open>cur\<close> and \<open>peek\<close>: 0 past the end\<close>

definition jcur :: "byte_string \<Rightarrow> nat \<Rightarrow> u8" where
  "jcur b i = get_or 0 b i"

definition peek :: "byte_string \<Rightarrow> nat \<Rightarrow> nat \<Rightarrow> u8" where
  "peek b i ahead = get_or 0 b (i + ahead)"

text \<open>\<open>u8::is_ascii_whitespace\<close>\<close>

definition is_ascii_ws :: "u8 \<Rightarrow> bool" where
  "is_ascii_ws c \<longleftrightarrow> c = 0x20 \<or> c = 0x09 \<or> c = 0x0A \<or> c = 0x0C \<or> c = 0x0D"

function jws :: "byte_string \<Rightarrow> nat \<Rightarrow> nat" where
  "jws b i = (if i < length b \<and> is_ascii_ws (b ! i) then jws b (i + 1) else i)"
  by pat_completeness auto
termination
  by (relation "measure (\<lambda>(b, i). length b - i)") auto

declare jws.simps [simp del]

definition hex_val :: "u8 \<Rightarrow> u32 option" where
  "hex_val c =
     (if 0x30 \<le> c \<and> c \<le> 0x39 then Some (ucast (c - 0x30))
      else if 0x61 \<le> c \<and> c \<le> 0x66 then Some (ucast (c - 0x61 + 10))
      else if 0x41 \<le> c \<and> c \<le> 0x46 then Some (ucast (c - 0x41 + 10))
      else None)"

fun hex4_loop :: "nat \<Rightarrow> byte_string \<Rightarrow> u32 \<Rightarrow> nat \<Rightarrow> u32 \<times> nat" where
  "hex4_loop 0 b v i = (v, i)"
| "hex4_loop (Suc n) b v i =
     (case hex_val (jcur b i) of Some d \<Rightarrow> hex4_loop n b (v * 16 + d) (i + 1) | None \<Rightarrow> (v, i))"

definition hex4 :: "byte_string \<Rightarrow> nat \<Rightarrow> u32 \<times> nat" where
  "hex4 b i = hex4_loop 4 b 0 i"

text \<open>after \<open>\u\<close>: a codepoint, combining a surrogate pair when one follows\<close>

definition unicode_escape :: "byte_string \<Rightarrow> nat \<Rightarrow> u32 \<times> nat" where
  "unicode_escape b i =
     (let (cp, i1) = hex4 b i in
      if 0xD800 \<le> cp \<and> cp \<le> 0xDBFF \<and> peek b i1 0 = 0x5C \<and> peek b i1 1 = 0x75 then
        let (lo, i2) = hex4 b (i1 + 2) in
        if 0xDC00 \<le> lo \<and> lo \<le> 0xDFFF
        then (0x10000 + push_bit 10 (cp - 0xD800) + (lo - 0xDC00), i2)
        else (cp, i1)
      else (cp, i1))"

lemma hex4_loop_ge: "i \<le> snd (hex4_loop n b v i)"
proof (induction n b v i rule: hex4_loop.induct)
  case (2 n b v i)
  show ?case
  proof (cases "hex_val (jcur b i)")
    case (Some d)
    with 2 [OF Some] show ?thesis by simp
  qed simp
qed simp

lemma unicode_escape_ge: "i \<le> snd (unicode_escape b i)"
proof -
  obtain cp i1 where 1: "hex4 b i = (cp, i1)" by force
  obtain lo i2 where 2: "hex4 b (i1 + 2) = (lo, i2)" by force
  have "i \<le> i1" "i1 + 2 \<le> i2"
    using hex4_loop_ge [of i 4 b 0] hex4_loop_ge [of "i1 + 2" 4 b 0] 1 2 by (simp_all add: hex4_def)
  then show ?thesis unfolding unicode_escape_def 1 2 Let_def prod.case by auto
qed

text \<open>the byte a one-letter escape stands for\<close>

definition simple_escape :: "u8 \<Rightarrow> u8" where
  "simple_escape e =
     (if e = 0x6E then 0x0A else if e = 0x74 then 0x09 else if e = 0x72 then 0x0D
      else if e = 0x62 then 0x08 else if e = 0x66 then 0x0C else e)"

function str_loop :: "byte_string \<Rightarrow> nat \<Rightarrow> byte_string \<Rightarrow> byte_string \<times> nat" where
  "str_loop b i out =
     (if i < length b \<and> b ! i \<noteq> 0x22 then
        if b ! i = 0x5C \<and> i + 1 < length b then
          if b ! (i + 1) = 0x75 then
            str_loop b (snd (unicode_escape b (i + 2))) (push_utf8 out (fst (unicode_escape b (i + 2))))
          else str_loop b (i + 2) (out @ [simple_escape (b ! (i + 1))])
        else str_loop b (i + 1) (out @ [b ! i])
      else (out, i))"
  by pat_completeness auto
termination
proof (relation "measure (\<lambda>(b, i, out). length b - i)", goal_cases)
  case (2 b i out)
  with unicode_escape_ge [of "i + 2" b] have "i < snd (unicode_escape b (i + 2))" "i < length b" by auto
  then show ?case by simp
qed auto

declare str_loop.simps [simp del]

definition parse_str_raw :: "byte_string \<Rightarrow> nat \<Rightarrow> byte_string \<times> nat" where
  "parse_str_raw b i =
     (let i0 = (if jcur b i = 0x22 then i + 1 else i);
          (out, i1) = str_loop b i0 [];
          i2 = (if jcur b i1 = 0x22 then i1 + 1 else i1)
      in (string_of_utf8 out, i2))"

function scan_bytes :: "(u8 \<Rightarrow> bool) \<Rightarrow> byte_string \<Rightarrow> nat \<Rightarrow> nat" where
  "scan_bytes P b e = (if e < length b \<and> P (b ! e) then scan_bytes P b (e + 1) else e)"
  by pat_completeness auto
termination
  by (relation "measure (\<lambda>(P, b, e). length b - e)") auto

declare scan_bytes.simps [simp del]

definition is_sign :: "u8 \<Rightarrow> bool" where
  "is_sign c \<longleftrightarrow> c = 0x2B \<or> c = 0x2D"

definition num_end :: "byte_string \<Rightarrow> nat \<Rightarrow> nat" where
  "num_end b i =
     (let e0 = (if i < length b \<and> is_sign (b ! i) then i + 1 else i);
          e1 = scan_bytes (\<lambda>c. is_digit c \<or> c = 0x2E) b e0
      in if e1 < length b \<and> (b ! e1 = 0x65 \<or> b ! e1 = 0x45) then
           let e2 = e1 + 1; e3 = (if e2 < length b \<and> is_sign (b ! e2) then e2 + 1 else e2)
           in scan_bytes is_digit b e3
         else e1)"

text \<open>An unreadable number is \<open>0.0\<close>.\<close>

definition parse_num :: "byte_string \<Rightarrow> nat \<Rightarrow> f64 \<times> nat" where
  "parse_num b i =
     (let e = num_end b i in
      (case f64_parse (take (e - i) (drop i b)) of Some v \<Rightarrow> v | None \<Rightarrow> 0, e))"

section \<open>The parser\<close>

fun parse_val :: "nat \<Rightarrow> byte_string \<Rightarrow> nat \<Rightarrow> (json \<times> nat) option"
  and parse_arr_loop :: "nat \<Rightarrow> byte_string \<Rightarrow> nat \<Rightarrow> json list \<Rightarrow> (json \<times> nat) option"
  and parse_obj_loop :: "nat \<Rightarrow> byte_string \<Rightarrow> nat \<Rightarrow> json json_obj \<Rightarrow> (json \<times> nat) option"
where
  "parse_val 0 b i = None"
| "parse_val (Suc n) b i =
     (let i = jws b i; c = jcur b i in
      if c = 0x22 then (let (s, i) = parse_str_raw b i in Some (Str s, i))
      else if c = 0x7B then
        (let i = jws b (i + 1) in
         if jcur b i = 0x7D then Some (Obj obj_new, i + 1) else parse_obj_loop n b i obj_new)
      else if c = 0x5B then
        (let i = jws b (i + 1) in
         if jcur b i = 0x5D then Some (Arr [], i + 1) else parse_arr_loop n b i [])
      else if c = 0x74 then Some (Bool True, i + 4)
      else if c = 0x66 then Some (Bool False, i + 5)
      else if c = 0x6E then Some (Null, i + 4)
      else (let (v, i) = parse_num b i in Some (Num v, i)))"
| "parse_arr_loop 0 b i arr = None"
| "parse_arr_loop (Suc n) b i arr =
     (case parse_val n b i of
        None \<Rightarrow> None
      | Some (v, i) \<Rightarrow>
          (let i = jws b i; arr = arr @ [v] in
           if jcur b i = 0x2C then parse_arr_loop n b (i + 1) arr
           else if jcur b i = 0x5D then Some (Arr arr, i + 1)
           else Some (Arr arr, i)))"
| "parse_obj_loop 0 b i ob = None"
| "parse_obj_loop (Suc n) b i ob =
     (let (key, i) = parse_str_raw b (jws b i);
          i = jws b i;
          i = (if jcur b i = 0x3A then i + 1 else i)
      in case parse_val n b i of
           None \<Rightarrow> None
         | Some (v, i) \<Rightarrow>
             (let i = jws b i; ob = obj_push key v ob in
              if jcur b i = 0x2C then parse_obj_loop n b (i + 1) ob
              else if jcur b i = 0x7D then Some (Obj ob, i + 1)
              else Some (Obj ob, i)))"

definition json_parse :: "byte_string \<Rightarrow> json option" where
  "json_parse text =
     (if text = [] then None else map_option fst (parse_val (2 * length text + 2) text 0))"

section \<open>Objects are insertion-ordered maps\<close>

definition obj_ok :: "'v json_obj \<Rightarrow> bool" where
  "obj_ok ob \<longleftrightarrow> distinct (jo_keys ob) \<and> length (jo_vals ob) = length (jo_keys ob) \<and>
     (\<forall>k i. jo_index ob k = Some i \<longleftrightarrow> i < length (jo_keys ob) \<and> jo_keys ob ! i = k)"

lemma obj_new_ok: "obj_ok obj_new"
  by (simp add: obj_ok_def obj_new_def)

lemma obj_index_None: "obj_ok ob \<Longrightarrow> jo_index ob k = None \<longleftrightarrow> k \<notin> set (jo_keys ob)"
  unfolding obj_ok_def by (metis in_set_conv_nth not_None_eq option.distinct(1))

lemma obj_push_cases:
  "jo_index ob k = None \<Longrightarrow> obj_push k v ob =
     JsonObj (jo_keys ob @ [k]) (jo_vals ob @ [v]) ((jo_index ob)(k \<mapsto> length (jo_keys ob)))"
  "jo_index ob k = Some i \<Longrightarrow> obj_push k v ob = JsonObj (jo_keys ob) ((jo_vals ob)[i := v]) (jo_index ob)"
  by (simp_all add: obj_push_def)

lemma obj_push_ok:
  assumes ok: "obj_ok ob" shows "obj_ok (obj_push k v ob)"
proof (cases "jo_index ob k")
  case None
  with ok have new: "k \<notin> set (jo_keys ob)" by (simp add: obj_index_None)
  have "((jo_index ob)(k \<mapsto> length (jo_keys ob))) k' = Some i \<longleftrightarrow>
      i < length (jo_keys ob @ [k]) \<and> (jo_keys ob @ [k]) ! i = k'" for k' i
    using ok None new by (auto simp: obj_ok_def nth_append less_Suc_eq)
  with ok new show ?thesis unfolding obj_push_cases(1) [OF None] obj_ok_def by simp
next
  case (Some i)
  with ok show ?thesis unfolding obj_push_cases(2) [OF Some] obj_ok_def by simp
qed

text \<open>The iteration order as an association list; a repeated key keeps its place.\<close>

fun alist_put :: "byte_string \<Rightarrow> 'v \<Rightarrow> (byte_string \<times> 'v) list \<Rightarrow> (byte_string \<times> 'v) list" where
  "alist_put k v [] = [(k, v)]"
| "alist_put k v ((k', v') # xs) = (if k' = k then (k, v) # xs else (k', v') # alist_put k v xs)"

lemma alist_put_new: "k \<notin> fst ` set xs \<Longrightarrow> alist_put k v xs = xs @ [(k, v)]"
  by (induction k v xs rule: alist_put.induct) auto

lemma alist_put_zip:
  "i < length ks \<Longrightarrow> ks ! i = k \<Longrightarrow> distinct ks \<Longrightarrow> length vs = length ks \<Longrightarrow>
   alist_put k v (zip ks vs) = zip ks (vs[i := v])"
proof (induction ks arbitrary: vs i)
  case (Cons a ks)
  then obtain w ws where vs: "vs = w # ws" by (cases vs) auto
  show ?case
  proof (cases i)
    case 0
    with Cons vs show ?thesis by simp
  next
    case (Suc j)
    with Cons.prems have "a \<noteq> k" by auto
    with Cons vs Suc show ?thesis by simp
  qed
qed simp

lemma obj_get_iter: "obj_ok ob \<Longrightarrow> obj_get ob k = map_of (obj_iter ob) k"
proof (cases "jo_index ob k")
  case None
  assume ok: "obj_ok ob"
  with None have "k \<notin> set (jo_keys ob)" by (simp add: obj_index_None)
  with ok show ?thesis
    unfolding obj_get_def None obj_iter_def obj_ok_def
    by (metis map_of_zip_is_None option.map(1))
next
  case (Some i)
  assume ok: "obj_ok ob"
  with Some have "i < length (jo_keys ob)" "jo_keys ob ! i = k" by (simp_all add: obj_ok_def)
  with ok map_of_zip_nth [of "jo_keys ob" "jo_vals ob" i] show ?thesis
    unfolding obj_get_def Some obj_iter_def by (auto simp: obj_ok_def)
qed

lemma obj_iter_push: "obj_ok ob \<Longrightarrow> obj_iter (obj_push k v ob) = alist_put k v (obj_iter ob)"
proof (cases "jo_index ob k")
  case None
  assume ok: "obj_ok ob"
  with None have "k \<notin> fst ` set (obj_iter ob)"
    by (auto simp: obj_index_None obj_iter_def dest: set_zip_leftD)
  with ok show ?thesis
    unfolding obj_push_cases(1) [OF None] obj_iter_def by (simp add: alist_put_new obj_ok_def)
next
  case (Some i)
  assume ok: "obj_ok ob"
  with Some have "i < length (jo_keys ob)" "jo_keys ob ! i = k" by (simp_all add: obj_ok_def)
  with ok alist_put_zip [of i "jo_keys ob" k "jo_vals ob" v] show ?thesis
    unfolding obj_push_cases(2) [OF Some] obj_iter_def by (simp add: obj_ok_def)
qed

lemma obj_get_push: "obj_ok ob \<Longrightarrow> obj_get (obj_push k v ob) k' = (if k' = k then Some v else obj_get ob k')"
proof -
  assume ok: "obj_ok ob"
  have "map_of (alist_put k v xs) k' = (if k' = k then Some v else map_of xs k')" for xs
    by (induction k v xs rule: alist_put.induct) auto
  with ok show ?thesis by (simp add: obj_get_iter obj_push_ok obj_iter_push)
qed

section \<open>The parser always returns\<close>

lemma jws_ge: "i \<le> jws b i"
  by (induction b i rule: jws.induct) (subst jws.simps, auto)

lemma scan_bytes_ge: "e \<le> scan_bytes P b e"
  by (induction P b e rule: scan_bytes.induct) (subst scan_bytes.simps, auto)

lemma str_loop_ge: "i \<le> snd (str_loop b i out)"
proof (induction b i out rule: str_loop.induct)
  case (1 b i out)
  then show ?case
    using unicode_escape_ge [of "i + 2" b] by (subst str_loop.simps) (auto intro: order_trans)
qed

lemma parse_str_raw_ge: "i \<le> snd (parse_str_raw b i)"
  using str_loop_ge [of i b "[]"] str_loop_ge [of "i + 1" b "[]"]
  by (auto simp: parse_str_raw_def Let_def split: prod.split)

lemma num_end_ge: "i \<le> num_end b i"
proof -
  define e0 where "e0 = (if i < length b \<and> is_sign (b ! i) then i + 1 else i)"
  define e1 where "e1 = scan_bytes (\<lambda>c. is_digit c \<or> c = 0x2E) b e0"
  define e3 where "e3 = (if e1 + 1 < length b \<and> is_sign (b ! (e1 + 1)) then e1 + 1 + 1 else e1 + 1)"
  have "i \<le> e0" "e0 \<le> e1" "e1 \<le> e3" "e3 \<le> scan_bytes is_digit b e3"
    by (auto simp: e0_def e1_def e3_def scan_bytes_ge)
  moreover have "num_end b i = (if e1 < length b \<and> (b ! e1 = 0x65 \<or> b ! e1 = 0x45)
      then scan_bytes is_digit b e3 else e1)"
    by (simp only: num_end_def Let_def e0_def e1_def e3_def)
  ultimately show ?thesis by auto
qed

lemma jcur_in: "jcur b i \<noteq> 0 \<Longrightarrow> i < length b"
  by (auto simp: jcur_def get_or_def split: if_splits)

lemma parse_total:
  "(2 * (length b - i) + 2 \<le> n \<longrightarrow> (\<exists>v i'. parse_val n b i = Some (v, i') \<and> i \<le> i')) \<and>
   (2 * (length b - i) + 3 \<le> n \<longrightarrow> (\<exists>v i'. parse_arr_loop n b i arr = Some (v, i') \<and> i \<le> i')) \<and>
   (2 * (length b - i) + 3 \<le> n \<longrightarrow> (\<exists>v i'. parse_obj_loop n b i ob = Some (v, i') \<and> i \<le> i'))"
proof (induction n arbitrary: i arr ob)
  case (Suc n)
  have V: "\<exists>v i'. parse_val n b i = Some (v, i') \<and> i \<le> i'" if "2 * (length b - i) + 2 \<le> n" for i
    using Suc that by blast
  have A: "\<exists>v i'. parse_arr_loop n b i arr = Some (v, i') \<and> i \<le> i'" if "2 * (length b - i) + 3 \<le> n" for i arr
    using Suc that by blast
  have OB: "\<exists>v i'. parse_obj_loop n b i ob = Some (v, i') \<and> i \<le> i'" if "2 * (length b - i) + 3 \<le> n" for i ob
    using Suc that by blast
  show ?case
  proof (intro conjI impI)
    assume n: "2 * (length b - i) + 2 \<le> Suc n"
    let ?j = "jws b i"
    have j: "i \<le> ?j" by (rule jws_ge)
    have nested: "2 * (length b - jws b (?j + 1)) + 3 \<le> n" "i \<le> jws b (?j + 1)" if "jcur b ?j \<noteq> 0"
      using jcur_in [OF that] n j jws_ge [of "?j + 1" b] by linarith+
    have a: "\<exists>v i'. parse_arr_loop n b (jws b (?j + 1)) [] = Some (v, i') \<and> i \<le> i'" if "jcur b ?j \<noteq> 0"
      using A nested [OF that] by (meson order_trans)
    have ob: "\<exists>v i'. parse_obj_loop n b (jws b (?j + 1)) obj_new = Some (v, i') \<and> i \<le> i'" if "jcur b ?j \<noteq> 0"
      using OB nested [OF that] by (meson order_trans)
    show "\<exists>v i'. parse_val (Suc n) b i = Some (v, i') \<and> i \<le> i'"
      using a ob j nested(2) parse_str_raw_ge [of ?j b] num_end_ge [of ?j b]
      by (auto simp: Let_def parse_num_def split: prod.split)
  next
    assume n: "2 * (length b - i) + 3 \<le> Suc n"
    then obtain v i' where v: "parse_val n b i = Some (v, i')" "i \<le> i'" using V by fastforce
    let ?j = "jws b i'"
    have j: "i' \<le> ?j" by (rule jws_ge)
    have "\<exists>w k. parse_arr_loop n b (?j + 1) (arr @ [v]) = Some (w, k) \<and> i \<le> k" if "jcur b ?j \<noteq> 0"
    proof -
      have "2 * (length b - (?j + 1)) + 3 \<le> n" using jcur_in [OF that] n v(2) j by linarith
      from A [OF this, of "arr @ [v]"] v(2) j show ?thesis by fastforce
    qed
    then show "\<exists>v i'. parse_arr_loop (Suc n) b i arr = Some (v, i') \<and> i \<le> i'"
      using v j by (auto simp: Let_def)
  next
    assume n: "2 * (length b - i) + 3 \<le> Suc n"
    obtain key k where k: "parse_str_raw b (jws b i) = (key, k)" by force
    define k' where "k' = (if jcur b (jws b k) = 0x3A then jws b k + 1 else jws b k)"
    have ik: "i \<le> k'"
      using jws_ge [of i b] jws_ge [of k b] parse_str_raw_ge [of "jws b i" b] k by (auto simp: k'_def)
    then have "2 * (length b - k') + 2 \<le> n" using n by linarith
    then obtain v i' where v: "parse_val n b k' = Some (v, i')" "k' \<le> i'" using V by blast
    let ?j = "jws b i'"
    have j: "i' \<le> ?j" by (rule jws_ge)
    have "\<exists>w m. parse_obj_loop n b (?j + 1) (obj_push key v ob) = Some (w, m) \<and> i \<le> m" if "jcur b ?j \<noteq> 0"
    proof -
      have "2 * (length b - (?j + 1)) + 3 \<le> n" using jcur_in [OF that] n v(2) j ik by linarith
      from OB[OF this, of "obj_push key v ob"] v(2) j ik show ?thesis by fastforce
    qed
    then show "\<exists>v i'. parse_obj_loop (Suc n) b i ob = Some (v, i') \<and> i \<le> i'"
      using v j ik k by (auto simp: Let_def k'_def [symmetric])
  qed
qed simp

lemma json_parse_total: "json_parse text = None \<longleftrightarrow> text = []"
proof -
  have "\<exists>v i'. parse_val (2 * length text + 2) text 0 = Some (v, i')"
    using parse_total [of "text" 0 "2 * length text + 2"] by auto
  then show ?thesis by (auto simp: json_parse_def simp del: parse_val.simps)
qed

end
