(* ===== verification/JsonPrint.thy ===== *)
theory JsonPrint
  imports Json
begin

text \<open>
  A reference printer for JSON trees and the proof that the parser of \<open>colibri-json\<close> inverts it:
  nested arrays and objects, strings of arbitrary valid UTF-8 with their escapes (written plainly or
  by the server's own \<open>jstr\<close>), and integers of magnitude below \<open>2 ^ 53\<close>.
\<close>

section \<open>Trees and their text\<close>

datatype jtree =
    TNull
  | TBool bool
  | TInt int
  | TStr byte_string
  | TArr "jtree list"
  | TObj "(byte_string \<times> jtree) list"
  | TLit byte_string

fun json_of :: "jtree \<Rightarrow> json" where
  "json_of TNull = Null"
| "json_of (TBool b) = Bool b"
| "json_of (TInt n) = Num (f64_of_ratio (n < 0) (nat \<bar>n\<bar>) 1)"
| "json_of (TStr s) = Str s"
| "json_of (TArr ts) = Arr (map json_of ts)"
| "json_of (TObj kts) = Obj (fold (\<lambda>(k, v). obj_push k v) (map (\<lambda>(k, t). (k, json_of t)) kts) obj_new)"
| "json_of (TLit s) = Str s"

definition esc :: "u8 \<Rightarrow> byte_string" where
  "esc c = (if c = 0x22 \<or> c = 0x5C then [0x5C, c] else [c])"

definition show_str :: "byte_string \<Rightarrow> byte_string" where
  "show_str s = 0x22 # concat (map esc s) @ [0x22]"

text \<open>
  The string literal that the server writes (\<open>jstr\<close> of \<open>coli/src/serve.rs\<close>).  Every character it
  escapes is ASCII and every other one is copied, so going byte by byte gives the same text.
\<close>

definition jstr_hex :: "u8 \<Rightarrow> u8" where
  "jstr_hex d = (if d < 10 then 0x30 + d else 0x57 + d)"

definition jstr_esc :: "u8 \<Rightarrow> byte_string" where
  "jstr_esc c =
     (if c = 0x22 then [0x5C, 0x22]
      else if c = 0x5C then [0x5C, 0x5C]
      else if c = 0x0A then [0x5C, 0x6E]
      else if c = 0x0D then [0x5C, 0x72]
      else if c = 0x09 then [0x5C, 0x74]
      else if c < 0x20 then [0x5C, 0x75, 0x30, 0x30, jstr_hex (drop_bit 4 c), jstr_hex (c AND 0xF)]
      else [c])"

definition jstr :: "byte_string \<Rightarrow> byte_string" where
  "jstr s = 0x22 # concat (map jstr_esc s) @ [0x22]"

definition show_digits :: "nat \<Rightarrow> byte_string" where
  "show_digits n = map of_nat (show_dec n)"

definition show_int :: "int \<Rightarrow> byte_string" where
  "show_int n = (if n < 0 then [0x2D] else []) @ show_digits (nat \<bar>n\<bar>)"

fun commas :: "byte_string list \<Rightarrow> byte_string" where
  "commas [] = []"
| "commas [x] = x"
| "commas (x # y # xs) = x @ 0x2C # commas (y # xs)"

fun show_json :: "jtree \<Rightarrow> byte_string" where
  "show_json TNull = [0x6E, 0x75, 0x6C, 0x6C]"
| "show_json (TBool b) = (if b then [0x74, 0x72, 0x75, 0x65] else [0x66, 0x61, 0x6C, 0x73, 0x65])"
| "show_json (TInt n) = show_int n"
| "show_json (TStr s) = show_str s"
| "show_json (TArr ts) = 0x5B # commas (map show_json ts) @ [0x5D]"
| "show_json (TObj kts) = 0x7B # commas (map (\<lambda>(k, t). show_str k @ 0x3A # show_json t) kts) @ [0x7D]"
| "show_json (TLit s) = jstr s"

text \<open>What the printer may print: exact integers and valid UTF-8.\<close>

fun jtree_ok :: "jtree \<Rightarrow> bool" where
  "jtree_ok (TInt n) = (\<bar>n\<bar> < 2 ^ 53)"
| "jtree_ok (TStr s) = utf8_valid s"
| "jtree_ok (TLit s) = utf8_valid s"
| "jtree_ok (TArr ts) = list_all jtree_ok ts"
| "jtree_ok (TObj kts) = list_all (\<lambda>(k, t). utf8_valid k \<and> jtree_ok t) kts"
| "jtree_ok _ = True"

section \<open>Strings\<close>

lemma jcur_at: "jcur (pre @ c # post) (length pre) = c"
  by (simp add: jcur_def get_or_def)

text \<open>Any way to write a byte that the string loop takes back, one byte at a time, is read back as a whole.\<close>

locale string_escape =
  fixes e :: "u8 \<Rightarrow> byte_string"
  assumes read_back: "str_loop (pre @ e c @ post) (length pre) out
    = str_loop (pre @ e c @ post) (length (pre @ e c)) (out @ [c])"
begin

lemma read_all:
  "str_loop (pre @ concat (map e s) @ 0x22 # post) (length pre) out
    = (out @ s, length pre + length (concat (map e s)))"
proof (induction s arbitrary: pre out)
  case Nil
  then show ?case by (subst str_loop.simps) simp
next
  case (Cons c s)
  have "str_loop (pre @ e c @ concat (map e s) @ 0x22 # post) (length pre) out
      = str_loop (pre @ e c @ concat (map e s) @ 0x22 # post) (length (pre @ e c)) (out @ [c])"
    by (rule read_back)
  then show ?case using Cons.IH [of "pre @ e c" "out @ [c]"] by simp
qed

lemma read_quoted:
  assumes "utf8_valid s"
  defines "q \<equiv> 0x22 # concat (map e s) @ [0x22]"
  shows "parse_str_raw (pre @ q @ post) (length pre) = (s, length pre + length q)"
proof -
  let ?b = "pre @ q @ post"
  have c: "jcur ?b (length pre) = 0x22" using jcur_at [of pre "0x22"] by (simp add: q_def)
  have l: "str_loop ?b (length pre + 1) [] = (s, length pre + 1 + length (concat (map e s)))"
    using read_all [of "pre @ [0x22]" s post "[]"] by (simp add: q_def)
  have "jcur ?b (length pre + 1 + length (concat (map e s))) = 0x22"
    using jcur_at [of "pre @ 0x22 # concat (map e s)" "0x22" post] by (simp add: q_def)
  with c l assms(1) show ?thesis
    unfolding parse_str_raw_def Let_def by (simp add: string_of_utf8_def q_def)
qed

end

interpretation plain_escape: string_escape esc
proof
  fix pre c post out
  show "str_loop (pre @ esc c @ post) (length pre) out = str_loop (pre @ esc c @ post) (length (pre @ esc c)) (out @ [c])"
    by (subst str_loop.simps) (auto simp: esc_def nth_append simple_escape_def)
qed

text \<open>The four digits of a control character.\<close>

lemma jstr_hex_val:
  assumes "c < 0x20"
  shows "hex_val (jstr_hex (drop_bit 4 c)) = Some (ucast (drop_bit 4 c))" "hex_val (jstr_hex (c AND 0xF)) = Some (ucast (c AND 0xF))"
    "ucast (drop_bit 4 c) * 16 + ucast (c AND 0xF) = (ucast c :: u32)"
proof -
  have "\<forall>c \<in> set (map of_nat [0..<32]). hex_val (jstr_hex (drop_bit 4 (c :: u8))) = Some (ucast (drop_bit 4 c)) \<and>
      hex_val (jstr_hex (c AND 0xF)) = Some (ucast (c AND 0xF)) \<and>
      ucast (drop_bit 4 c) * 16 + ucast (c AND 0xF) = (ucast c :: u32)"
    by code_simp
  moreover have "c \<in> set (map of_nat [0..<32])"
  proof -
    have "unat c < 32" using assms by (simp add: word_less_nat_alt)
    then have "c = of_nat (unat c)" "unat c \<in> set [0..<32]" by simp_all
    then show ?thesis by (metis image_eqI list.set_map)
  qed
  ultimately show "hex_val (jstr_hex (drop_bit 4 c)) = Some (ucast (drop_bit 4 c))"
    "hex_val (jstr_hex (c AND 0xF)) = Some (ucast (c AND 0xF))"
    "ucast (drop_bit 4 c) * 16 + ucast (c AND 0xF) = (ucast c :: u32)" by blast+
qed

lemma control_escape:
  fixes pre post
  assumes "c < 0x20"
  defines "b \<equiv> pre @ [0x5C, 0x75, 0x30, 0x30, jstr_hex (drop_bit 4 c), jstr_hex (c AND 0xF)] @ post"
  shows "unicode_escape b (length pre + 2) = (ucast c, length pre + 6)"
proof -
  have j: "jcur b (length pre + 2) = 0x30" "jcur b (length pre + 3) = 0x30"
    "jcur b (length pre + 4) = jstr_hex (drop_bit 4 c)" "jcur b (length pre + 5) = jstr_hex (c AND 0xF)"
    by (simp_all add: jcur_def get_or_def b_def nth_append)
  have z: "hex_val 0x30 = Some 0" by (simp add: hex_val_def)
  have "hex4 b (length pre + 2) = (ucast c, length pre + 6)"
    using jstr_hex_val [OF assms(1)] j z by (simp add: hex4_def eval_nat_numeral)
  moreover have "\<not> 0xD800 \<le> (ucast c :: u32)"
    using assms(1) by (simp add: word_less_nat_alt word_le_nat_alt unat_simps)
  ultimately show ?thesis unfolding unicode_escape_def by simp
qed

lemma push_small: "c < 0x20 \<Longrightarrow> push_utf8 out (ucast c) = out @ [c]"
  by (simp add: push_utf8_def word_less_nat_alt word_unat_eq_iff unat_simps)

interpretation server_escape: string_escape jstr_esc
proof
  fix pre c post out
  let ?b = "pre @ jstr_esc c @ post"
  show "str_loop ?b (length pre) out = str_loop ?b (length (pre @ jstr_esc c)) (out @ [c])"
  proof (cases "c < 0x20 \<and> c \<noteq> 0x0A \<and> c \<noteq> 0x0D \<and> c \<noteq> 0x09")
    case True
    then have e: "jstr_esc c = [0x5C, 0x75, 0x30, 0x30, jstr_hex (drop_bit 4 c), jstr_hex (c AND 0xF)]"
      by (auto simp: jstr_esc_def)
    have "unicode_escape ?b (length pre + 2) = (ucast c, length pre + 6)"
      using control_escape [of c pre post] True unfolding e by simp
    then have "str_loop ?b (length pre) out = str_loop ?b (length pre + 6) (out @ [c])"
      using True push_small [of c out] by (subst str_loop.simps) (simp add: e nth_append)
    moreover have "length (pre @ jstr_esc c) = length pre + 6" by (simp add: e)
    ultimately show ?thesis by (simp only:)
  next
    case False
    then show ?thesis
      by (subst str_loop.simps) (auto simp: jstr_esc_def nth_append simple_escape_def)
  qed
qed

lemma parse_str_show:
  "utf8_valid s \<Longrightarrow> parse_str_raw (pre @ show_str s @ post) (length pre) = (s, length pre + length (show_str s))"
  unfolding show_str_def by (rule plain_escape.read_quoted)

lemma parse_str_jstr:
  "utf8_valid s \<Longrightarrow> parse_str_raw (pre @ jstr s @ post) (length pre) = (s, length pre + length (jstr s))"
  unfolding jstr_def by (rule server_escape.read_quoted)

section \<open>Numbers\<close>

lemma show_digits_digit: "list_all is_digit (show_digits n)"
proof -
  have "is_digit (of_nat c)" if "48 \<le> c" "c \<le> 57" for c
  proof -
    have "unat (of_nat c :: u8) = c" using that by (simp add: unat_of_nat)
    with that show ?thesis by (simp add: is_digit_def word_le_nat_alt)
  qed
  then show ?thesis using show_dec_digits by (auto simp: show_digits_def list_all_iff)
qed

lemma digits_value_append: "digits_value (xs @ [c]) = digits_value xs * 10 + (unat c - 0x30)"
  by (simp add: digits_value_def)

lemma digits_value_show: "digits_value (show_digits n) = n"
proof (induction n rule: show_dec.induct)
  case (1 n)
  have d: "unat (of_nat (48 + k) :: u8) - 0x30 = k" if "k < 10" for k
    using that by (simp add: unat_of_nat del: of_nat_add)
  show ?case
  proof (cases "n < 10")
    case True
    then have "show_digits n = [] @ [of_nat (48 + n)]" by (simp add: show_digits_def show_dec.simps)
    with True d [of n] show ?thesis by (simp only: digits_value_append) (simp add: digits_value_def)
  next
    case False
    then have "show_digits n = show_digits (n div 10) @ [of_nat (48 + n mod 10)]"
      by (simp add: show_digits_def show_dec.simps [of n])
    with False 1 d [of "n mod 10"] show ?thesis by (simp only: digits_value_append) simp
  qed
qed

lemma show_digits_ne: "show_digits n \<noteq> []"
  by (simp add: show_digits_def)

lemma sign_not_digit: "\<not> is_digit 0x2D" "\<not> is_digit 0x2B"
  by (simp_all add: is_digit_def)

lemma take_sign_int: "take_sign (show_int n) = (n < 0, show_digits (nat \<bar>n\<bar>))"
proof (cases "n < 0")
  case False
  obtain c cs where cs: "show_digits (nat \<bar>n\<bar>) = c # cs"
    using show_digits_ne [of "nat \<bar>n\<bar>"] by (cases "show_digits (nat \<bar>n\<bar>)") auto
  then have "is_digit c" using show_digits_digit [of "nat \<bar>n\<bar>"] by simp
  then have "c \<noteq> 0x2D" "c \<noteq> 0x2B" using sign_not_digit by auto
  with False cs show ?thesis by (simp add: show_int_def take_sign_def)
qed (simp add: show_int_def take_sign_def)

lemma f64_parse_int: "f64_parse (show_int n) = Some (f64_of_ratio (n < 0) (nat \<bar>n\<bar>) 1)"
proof -
  let ?d = "show_digits (nat \<bar>n\<bar>)"
  have tw: "takeWhile is_digit ?d = ?d" "dropWhile is_digit ?d = []"
    using show_digits_digit [of "nat \<bar>n\<bar>"] by (simp_all add: list_all_iff takeWhile_eq_all_conv)
  show ?thesis
    unfolding f64_parse_def take_sign_int Let_def prod.case tw
    by (simp add: parse_exp_def show_digits_ne digits_value_show)
qed

lemma scan_bytes_run:
  assumes "list_all P xs" and "post = [] \<or> \<not> P (hd post)"
  shows "scan_bytes P (pre @ xs @ post) (length pre) = length pre + length xs"
  using assms(1)
proof (induction xs arbitrary: pre)
  case Nil
  with assms(2) show ?case by (subst scan_bytes.simps) (cases post; simp)
next
  case (Cons x xs)
  with Cons.IH [of "pre @ [x]"] show ?case by (subst scan_bytes.simps) simp
qed

text \<open>The bytes that may follow a value inside a document.\<close>

definition stops :: "byte_string \<Rightarrow> bool" where
  "stops post \<longleftrightarrow> post = [] \<or> hd post = 0x2C \<or> hd post = 0x5D \<or> hd post = 0x7D"

lemma num_end_int:
  assumes "stops post"
  shows "num_end (pre @ show_int n @ post) (length pre) = length pre + length (show_int n)"
proof -
  let ?d = "show_digits (nat \<bar>n\<bar>)" and ?P = "\<lambda>c. is_digit c \<or> c = 0x2E"
  let ?sg = "if n < 0 then [0x2D] else [] :: byte_string"
  let ?b = "(pre @ ?sg) @ ?d @ post"
  obtain c cs where cs: "?d = c # cs" using show_digits_ne [of "nat \<bar>n\<bar>"] by (cases ?d) auto
  have dg: "is_digit c" using show_digits_digit [of "nat \<bar>n\<bar>"] cs by simp
  have b: "pre @ show_int n @ post = ?b" by (simp add: show_int_def)
  have "(if length pre < length ?b \<and> is_sign (?b ! length pre) then length pre + 1 else length pre)
      = length (pre @ ?sg)"
    using cs dg sign_not_digit by (auto simp: is_sign_def nth_append)
  moreover have "list_all ?P ?d" using show_digits_digit [of "nat \<bar>n\<bar>"] by (simp add: list_all_iff)
  then have "scan_bytes ?P ?b (length (pre @ ?sg)) = length (pre @ ?sg) + length ?d"
    using assms by (intro scan_bytes_run) (auto simp: stops_def is_digit_def)
  moreover have "length (pre @ ?sg) + length ?d < length ?b \<Longrightarrow>
      ?b ! (length (pre @ ?sg) + length ?d) = hd post"
    by (cases post) (auto simp: nth_append)
  ultimately show ?thesis
    using assms unfolding num_end_def b Let_def by (auto simp: show_int_def stops_def)
qed

lemma parse_num_int:
  assumes "stops post"
  shows "parse_num (pre @ show_int n @ post) (length pre)
    = (f64_of_ratio (n < 0) (nat \<bar>n\<bar>) 1, length pre + length (show_int n))"
  unfolding parse_num_def Let_def num_end_int [OF assms] by (simp add: f64_parse_int)

section \<open>Values\<close>

lemma jws_stay: "pos < length b \<Longrightarrow> \<not> is_ascii_ws (b ! pos) \<Longrightarrow> jws b pos = pos"
  by (subst jws.simps) simp

lemma jws_at: "\<not> is_ascii_ws c \<Longrightarrow> jws (pre @ c # post) (length pre) = length pre"
  by (rule jws_stay) simp_all

lemma jws_stops: "stops post \<Longrightarrow> jws (pre @ post) (length pre) = length pre"
  by (subst jws.simps) (cases post; auto simp: stops_def is_ascii_ws_def)

text \<open>The first byte of a printed value is no whitespace and closes nothing.\<close>

definition starts :: "u8 \<Rightarrow> bool" where
  "starts c \<longleftrightarrow> \<not> is_ascii_ws c \<and> c \<noteq> 0x5D \<and> c \<noteq> 0x7D"

lemma digit_starts: "is_digit c \<Longrightarrow> starts c \<and> c \<noteq> 0x22 \<and> c \<noteq> 0x7B \<and> c \<noteq> 0x5B \<and> c \<noteq> 0x74 \<and> c \<noteq> 0x66 \<and> c \<noteq> 0x6E"
  by (auto simp: is_digit_def starts_def is_ascii_ws_def)

lemma show_int_head:
  obtains c cs where "show_int n = c # cs"
    and "starts c \<and> c \<noteq> 0x22 \<and> c \<noteq> 0x7B \<and> c \<noteq> 0x5B \<and> c \<noteq> 0x74 \<and> c \<noteq> 0x66 \<and> c \<noteq> 0x6E"
proof (cases "n < 0")
  case True
  then show ?thesis using that [of "0x2D"] by (simp add: show_int_def starts_def is_ascii_ws_def)
next
  case False
  obtain c cs where cs: "show_digits (nat \<bar>n\<bar>) = c # cs"
    using show_digits_ne [of "nat \<bar>n\<bar>"] by (cases "show_digits (nat \<bar>n\<bar>)") auto
  then have "is_digit c" using show_digits_digit [of "nat \<bar>n\<bar>"] by simp
  with digit_starts [of c] cs False that show ?thesis by (simp add: show_int_def)
qed

lemma show_json_head: obtains c cs where "show_json t = c # cs" and "starts c"
proof (cases t)
  case (TInt n)
  then show ?thesis using that show_int_head [of n] by (metis show_json.simps(3))
next
  case (TBool b)
  then show ?thesis
    using that [of "0x74" "[0x72, 0x75, 0x65]"] that [of "0x66" "[0x61, 0x6C, 0x73, 0x65]"]
    by (cases b) (simp_all add: starts_def is_ascii_ws_def)
qed (auto simp: starts_def is_ascii_ws_def show_str_def jstr_def split: if_splits intro: that)

text \<open>The parser reads a printed value, whatever follows it in a document.\<close>

definition reads :: "jtree \<Rightarrow> bool" where
  "reads t \<longleftrightarrow> (\<forall>n pre post. stops post \<longrightarrow> 2 * length (show_json t @ post) + 2 \<le> n \<longrightarrow>
     parse_val n (pre @ show_json t @ post) (length pre) = Some (json_of t, length pre + length (show_json t)))"

lemma readsD:
  "reads t \<Longrightarrow> stops post \<Longrightarrow> 2 * length (show_json t @ post) + 2 \<le> n \<Longrightarrow>
   parse_val n (pre @ show_json t @ post) (length pre) = Some (json_of t, length pre + length (show_json t))"
  by (simp add: reads_def)

lemma parse_arr_show:
  assumes "ts \<noteq> []" and "\<forall>t\<in>set ts. reads t"
    and "2 * length (commas (map show_json ts) @ 0x5D # post) + 3 \<le> n"
  shows "parse_arr_loop n (pre @ commas (map show_json ts) @ 0x5D # post) (length pre) arr
    = Some (Arr (arr @ map json_of ts), length pre + length (commas (map show_json ts)) + 1)"
  using assms
proof (induction ts arbitrary: pre arr n rule: list_nonempty_induct)
  case (single t)
  then obtain m where m: "n = Suc m" "2 * length (show_json t @ 0x5D # post) + 2 \<le> m" by (cases n) auto
  have st: "stops (0x5D # post)" by (simp add: stops_def)
  from readsD [OF _ st m(2), of pre] single have
    "parse_val m (pre @ show_json t @ 0x5D # post) (length pre) = Some (json_of t, length pre + length (show_json t))"
    by simp
  moreover have "jws (pre @ show_json t @ 0x5D # post) (length pre + length (show_json t))
      = length pre + length (show_json t)"
    using jws_at [of "0x5D" "pre @ show_json t" post] by (simp add: is_ascii_ws_def)
  moreover have "jcur (pre @ show_json t @ 0x5D # post) (length pre + length (show_json t)) = 0x5D"
    using jcur_at [of "pre @ show_json t" "0x5D" post] by simp
  ultimately show ?case using m(1) by simp
next
  case (cons t ts)
  then obtain u us where ts: "ts = u # us" by (cases ts) auto
  let ?rest = "commas (map show_json ts) @ 0x5D # post"
  have com: "commas (map show_json (t # ts)) = show_json t @ 0x2C # commas (map show_json ts)" by (simp add: ts)
  obtain m where m: "n = Suc m" "2 * length (show_json t @ 0x2C # ?rest) + 2 \<le> m" "2 * length ?rest + 3 \<le> m"
    using cons.prems(2) com by (cases n) auto
  have st: "stops (0x2C # ?rest)" by (simp add: stops_def)
  from readsD [OF _ st m(2), of pre] cons.prems have
    "parse_val m (pre @ show_json t @ 0x2C # ?rest) (length pre) = Some (json_of t, length pre + length (show_json t))"
    by simp
  moreover have "jws (pre @ show_json t @ 0x2C # ?rest) (length pre + length (show_json t))
      = length pre + length (show_json t)"
    using jws_at [of "0x2C" "pre @ show_json t" ?rest] by (simp add: is_ascii_ws_def)
  moreover have "jcur (pre @ show_json t @ 0x2C # ?rest) (length pre + length (show_json t)) = 0x2C"
    using jcur_at [of "pre @ show_json t" "0x2C" ?rest] by simp
  moreover have "parse_arr_loop m (pre @ show_json t @ 0x2C # ?rest) (length pre + length (show_json t) + 1) (arr @ [json_of t])
      = Some (Arr (arr @ json_of t # map json_of ts),
          length pre + length (show_json t) + 1 + length (commas (map show_json ts)) + 1)"
    using cons.IH [of m "pre @ show_json t @ [0x2C]" "arr @ [json_of t]"] cons.prems m(3) by simp
  ultimately show ?case unfolding m(1) com by simp
qed

abbreviation show_member :: "byte_string \<times> jtree \<Rightarrow> byte_string" where
  "show_member \<equiv> \<lambda>(k, t). show_str k @ 0x3A # show_json t"

abbreviation push_members :: "(byte_string \<times> jtree) list \<Rightarrow> json json_obj \<Rightarrow> json json_obj" where
  "push_members kts \<equiv> fold (\<lambda>(k, v). obj_push k v) (map (\<lambda>(k, t). (k, json_of t)) kts)"

text \<open>One member of an object: key, colon, value.\<close>

lemma parse_member:
  assumes "utf8_valid k" "reads t" "stops post" "2 * length (show_member (k, t) @ post) + 2 \<le> m"
  shows "parse_obj_loop (Suc m) (pre @ show_member (k, t) @ post) (length pre) ob =
    (let b = pre @ show_member (k, t) @ post; i = length pre + length (show_member (k, t));
         ob = obj_push k (json_of t) ob
     in if jcur b i = 0x2C then parse_obj_loop m b (i + 1) ob
        else if jcur b i = 0x7D then Some (Obj ob, i + 1) else Some (Obj ob, i))"
proof -
  define b where "b = pre @ show_member (k, t) @ post"
  let ?e = "length pre + length (show_str k)"
  define j where "j = length pre + length (show_member (k, t))"
  have b1: "b = pre @ show_str k @ 0x3A # show_json t @ post" by (simp add: b_def)
  have b2: "b = (pre @ show_str k @ [0x3A]) @ show_json t @ post" by (simp add: b_def)
  have b3: "b = (pre @ show_member (k, t)) @ post" by (simp add: b_def)
  have w1: "jws b (length pre) = length pre"
    using jws_at [of "0x22" pre "concat (map esc k) @ 0x22 # 0x3A # show_json t @ post"]
    by (simp add: b1 show_str_def is_ascii_ws_def)
  have key: "parse_str_raw b (length pre) = (k, ?e)"
    unfolding b1 by (rule parse_str_show [OF assms(1)])
  have w2: "jws b ?e = ?e" and c2: "jcur b ?e = 0x3A"
    using jws_at [of "0x3A" "pre @ show_str k" "show_json t @ post"]
      jcur_at [of "pre @ show_str k" "0x3A" "show_json t @ post"]
    by (simp_all add: b1 is_ascii_ws_def)
  have "2 * length (show_json t @ post) + 2 \<le> m" using assms(4) by simp
  from readsD [OF assms(2,3) this, of "pre @ show_str k @ [0x3A]"]
  have val: "parse_val m b (?e + 1) = Some (json_of t, j)"
    unfolding b2 [symmetric] by (simp add: j_def)
  have "length (pre @ show_member (k, t)) = j" by (simp add: j_def)
  then have w3: "jws b j = j" using jws_stops [OF assms(3), of "pre @ show_member (k, t)"] b3 by simp
  show ?thesis
    unfolding b_def [symmetric] j_def [symmetric] parse_obj_loop.simps(2) Let_def w1 key
    by (simp only: prod.case w2 c2 if_True simp_thms val option.case w3)
qed

lemma parse_obj_show:
  assumes "kts \<noteq> []" and "\<forall>(k, t)\<in>set kts. utf8_valid k \<and> reads t"
    and "2 * length (commas (map show_member kts) @ 0x7D # post) + 3 \<le> n"
  shows "parse_obj_loop n (pre @ commas (map show_member kts) @ 0x7D # post) (length pre) ob
    = Some (Obj (push_members kts ob), length pre + length (commas (map show_member kts)) + 1)"
  using assms
proof (induction kts arbitrary: pre ob n rule: list_nonempty_induct)
  case (single kt)
  obtain k t where kt: "kt = (k, t)" by force
  obtain m where m: "n = Suc m" "2 * length (show_member (k, t) @ 0x7D # post) + 2 \<le> m"
    using single.prems(2) kt by (cases n) auto
  have "parse_obj_loop (Suc m) (pre @ show_member (k, t) @ 0x7D # post) (length pre) ob =
      Some (Obj (obj_push k (json_of t) ob), length pre + length (show_member (k, t)) + 1)"
    using parse_member [of k t "0x7D # post" m pre ob] single.prems kt m(2)
      jcur_at [of "pre @ show_member (k, t)" "0x7D" post]
    by (simp add: stops_def Let_def del: parse_obj_loop.simps)
  then show ?case using m(1) kt by (simp del: parse_obj_loop.simps)
next
  case (cons kt kts)
  obtain k t where kt: "kt = (k, t)" by force
  let ?rest = "commas (map show_member kts) @ 0x7D # post"
  have com: "commas (map show_member (kt # kts)) = show_member (k, t) @ 0x2C # commas (map show_member kts)"
    using cons.hyps kt by (cases kts) auto
  obtain m where m: "n = Suc m" "2 * length (show_member (k, t) @ 0x2C # ?rest) + 2 \<le> m"
    "2 * length ?rest + 3 \<le> m"
    using cons.prems(2) com by (cases n) auto
  have "parse_obj_loop (Suc m) (pre @ show_member (k, t) @ 0x2C # ?rest) (length pre) ob =
      parse_obj_loop m (pre @ show_member (k, t) @ 0x2C # ?rest)
        (length pre + length (show_member (k, t)) + 1) (obj_push k (json_of t) ob)"
    using parse_member [of k t "0x2C # ?rest" m pre ob] cons.prems kt m(2)
      jcur_at [of "pre @ show_member (k, t)" "0x2C" ?rest]
    by (simp add: stops_def Let_def del: parse_obj_loop.simps)
  also have "\<dots> = Some (Obj (push_members kts (obj_push k (json_of t) ob)),
      length pre + length (show_member (k, t)) + 1 + length (commas (map show_member kts)) + 1)"
    using cons.IH [of m "pre @ show_member (k, t) @ [0x2C]" "obj_push k (json_of t) ob"] cons.prems m(3)
    by (simp del: parse_obj_loop.simps)
  finally show ?case unfolding m(1) com using kt by (simp del: parse_obj_loop.simps)
qed

lemma commas_head:
  assumes "ts \<noteq> []" and "f (hd ts) = c # cs"
  obtains ds where "commas (map f ts) = c # ds"
  using assms by (cases "(f, ts)" rule: prod.exhaust; cases ts; cases "tl ts") auto

lemma readsI:
  assumes "\<And>m pre post. stops post \<Longrightarrow> 2 * length (show_json t @ post) + 2 \<le> Suc m \<Longrightarrow>
    parse_val (Suc m) (pre @ show_json t @ post) (length pre) = Some (json_of t, length pre + length (show_json t))"
  shows "reads t"
  unfolding reads_def
proof (intro allI impI)
  fix n pre post assume "stops post" "2 * length (show_json t @ post) + 2 \<le> n"
  then show "parse_val n (pre @ show_json t @ post) (length pre) = Some (json_of t, length pre + length (show_json t))"
    using assms by (cases n) (auto simp del: parse_val.simps)
qed

text \<open>The cursor and the byte under it, at the start of a value.\<close>

lemma at_start:
  assumes "b = pre @ c # post" "\<not> is_ascii_ws c"
  shows "jws b (length pre) = length pre \<and> jcur b (length pre) = c"
  using assms jws_at [of c pre post] jcur_at [of pre c post] by simp

lemma reads_literals: "reads TNull" "reads (TBool b)"
proof -
  have at: "jws (pre @ c # post) (length pre) = length pre \<and> jcur (pre @ c # post) (length pre) = c"
    if "\<not> is_ascii_ws c" for pre c post
    using that by (intro at_start) simp_all
  show "reads TNull" by (rule readsI) (use at [of "0x6E"] in \<open>simp add: is_ascii_ws_def\<close>)
  show "reads (TBool b)"
    by (rule readsI) (use at [of "0x74"] at [of "0x66"] in \<open>cases b; simp add: is_ascii_ws_def\<close>)
qed

lemma reads_int: "reads (TInt n)"
proof (rule readsI)
  fix m pre post assume st: "stops post"
  obtain c cs where c: "show_int n = c # cs"
    and ne: "starts c \<and> c \<noteq> 0x22 \<and> c \<noteq> 0x7B \<and> c \<noteq> 0x5B \<and> c \<noteq> 0x74 \<and> c \<noteq> 0x66 \<and> c \<noteq> 0x6E"
    by (rule show_int_head)
  define b where "b = pre @ show_int n @ post"
  have "jws b (length pre) = length pre \<and> jcur b (length pre) = c"
    using ne by (intro at_start [of _ _ _ "cs @ post"]) (simp_all add: b_def c starts_def)
  with ne parse_num_int [OF st, of pre n] show
    "parse_val (Suc m) (pre @ show_json (TInt n) @ post) (length pre)
      = Some (json_of (TInt n), length pre + length (show_json (TInt n)))"
    by (simp add: b_def [symmetric])
qed

lemma reads_str:
  assumes "utf8_valid s" shows "reads (TStr s)"
proof (rule readsI)
  fix m pre post
  define b where "b = pre @ show_str s @ post"
  have "jws b (length pre) = length pre \<and> jcur b (length pre) = 0x22"
    by (intro at_start [of _ _ _ "concat (map esc s) @ 0x22 # post"]) (simp_all add: b_def show_str_def is_ascii_ws_def)
  with parse_str_show [OF assms, of pre post] show
    "parse_val (Suc m) (pre @ show_json (TStr s) @ post) (length pre)
      = Some (json_of (TStr s), length pre + length (show_json (TStr s)))"
    by (simp add: b_def [symmetric])
qed

lemma reads_lit:
  assumes "utf8_valid s" shows "reads (TLit s)"
proof (rule readsI)
  fix m pre post
  define b where "b = pre @ jstr s @ post"
  have "jws b (length pre) = length pre \<and> jcur b (length pre) = 0x22"
    by (intro at_start [of _ _ _ "concat (map jstr_esc s) @ 0x22 # post"]) (simp_all add: b_def jstr_def is_ascii_ws_def)
  with parse_str_jstr [OF assms, of pre post] show
    "parse_val (Suc m) (pre @ show_json (TLit s) @ post) (length pre)
      = Some (json_of (TLit s), length pre + length (show_json (TLit s)))"
    by (simp add: b_def [symmetric])
qed

text \<open>An opening bracket, followed at once by its closing one or by a first element.\<close>

lemma bracket_start:
  assumes "b = (pre @ [op]) @ commas (map f ts) @ cl # post" "\<not> is_ascii_ws op" "\<not> is_ascii_ws cl"
  shows "jws b (length pre) = length pre \<and> jcur b (length pre) = op"
    and "ts = [] \<Longrightarrow> jws b (length pre + 1) = length pre + 1 \<and> jcur b (length pre + 1) = cl"
    and "ts \<noteq> [] \<Longrightarrow> f (hd ts) = c # cs \<Longrightarrow> \<not> is_ascii_ws c \<Longrightarrow>
      jws b (length pre + 1) = length pre + 1 \<and> jcur b (length pre + 1) = c"
proof -
  show "jws b (length pre) = length pre \<and> jcur b (length pre) = op"
    using assms by (intro at_start [of _ _ _ "commas (map f ts) @ cl # post"]) simp_all
  show "jws b (length pre + 1) = length pre + 1 \<and> jcur b (length pre + 1) = cl" if "ts = []"
    using at_start [of b "pre @ [op]" cl post] assms that by simp
  show "jws b (length pre + 1) = length pre + 1 \<and> jcur b (length pre + 1) = c"
    if ne: "ts \<noteq> []" and hd: "f (hd ts) = c # cs" and ws: "\<not> is_ascii_ws c"
  proof -
    obtain ds where "commas (map f ts) = c # ds" by (rule commas_head [where f = f, OF ne hd])
    with assms at_start [of b "pre @ [op]" c "ds @ cl # post"] ws show ?thesis by simp
  qed
qed

lemma reads_arr:
  assumes ok: "\<forall>t\<in>set ts. reads t" shows "reads (TArr ts)"
proof (rule readsI)
  fix m pre post assume l: "2 * length (show_json (TArr ts) @ post) + 2 \<le> Suc m"
  define b where "b = (pre @ [0x5B]) @ commas (map show_json ts) @ 0x5D # post"
  have b: "pre @ show_json (TArr ts) @ post = b" by (simp add: b_def)
  note at = bracket_start [where op = "0x5B" and cl = "0x5D" and f = show_json, OF b_def]
  have "parse_val (Suc m) b (length pre) = Some (json_of (TArr ts), length pre + length (show_json (TArr ts)))"
  proof (cases "ts = []")
    case True
    with at(1,2) show ?thesis by (simp add: is_ascii_ws_def)
  next
    case False
    obtain c cs where c: "show_json (hd ts) = c # cs" "starts c" by (rule show_json_head)
    have "2 * length (commas (map show_json ts) @ 0x5D # post) + 3 \<le> m" using l by simp
    from parse_arr_show [OF False ok this, of "pre @ [0x5B]" "[]"]
    have "parse_arr_loop m b (length pre + 1) [] =
        Some (Arr (map json_of ts), length pre + 1 + length (commas (map show_json ts)) + 1)"
      by (simp add: b_def)
    with at(1) at(3) [OF _ _ False c(1)] c(2) show ?thesis by (simp add: is_ascii_ws_def starts_def)
  qed
  then show "parse_val (Suc m) (pre @ show_json (TArr ts) @ post) (length pre)
      = Some (json_of (TArr ts), length pre + length (show_json (TArr ts)))" by (simp only: b)
qed

lemma reads_obj:
  assumes ok: "\<forall>(k, t)\<in>set kts. utf8_valid k \<and> reads t" shows "reads (TObj kts)"
proof (rule readsI)
  fix m pre post assume l: "2 * length (show_json (TObj kts) @ post) + 2 \<le> Suc m"
  define b where "b = (pre @ [0x7B]) @ commas (map show_member kts) @ 0x7D # post"
  have b: "pre @ show_json (TObj kts) @ post = b" by (simp add: b_def)
  note at = bracket_start [where op = "0x7B" and cl = "0x7D" and f = show_member, OF b_def]
  have "parse_val (Suc m) b (length pre) = Some (json_of (TObj kts), length pre + length (show_json (TObj kts)))"
  proof (cases "kts = []")
    case True
    with at(1,2) show ?thesis by (simp add: is_ascii_ws_def)
  next
    case False
    have c: "show_member (hd kts) = 0x22 # tl (show_member (hd kts))"
      by (cases "hd kts") (simp add: show_str_def)
    have "2 * length (commas (map show_member kts) @ 0x7D # post) + 3 \<le> m" using l by simp
    from parse_obj_show [OF False ok this, of "pre @ [0x7B]" obj_new]
    have "parse_obj_loop m b (length pre + 1) obj_new =
        Some (Obj (push_members kts obj_new), length pre + 1 + length (commas (map show_member kts)) + 1)"
      by (simp add: b_def)
    with at(1) at(3) [OF _ _ False c] show ?thesis by (simp add: is_ascii_ws_def)
  qed
  then show "parse_val (Suc m) (pre @ show_json (TObj kts) @ post) (length pre)
      = Some (json_of (TObj kts), length pre + length (show_json (TObj kts)))" by (simp only: b)
qed

lemma reads_show: "jtree_ok t \<Longrightarrow> reads t"
proof (induction t)
  case (TArr ts)
  then show ?case by (intro reads_arr) (simp add: list_all_iff)
next
  case (TObj kts)
  then show ?case by (intro reads_obj) (fastforce simp: list_all_iff)
qed (simp_all add: reads_literals reads_int reads_str reads_lit)

lemma json_parse_show:
  assumes "jtree_ok t"
  shows "json_parse (show_json t) = Some (json_of t)"
proof -
  obtain c cs where c: "show_json t = c # cs" by (rule show_json_head)
  have "parse_val (2 * length (show_json t) + 2) (show_json t) 0 = Some (json_of t, length (show_json t))"
    using readsD [OF reads_show [OF assms], of "[]" _ "[]"] by (simp add: stops_def del: parse_val.simps)
  then show ?thesis by (simp add: json_parse_def c del: parse_val.simps)
qed

lemma as_i64_int: "\<bar>n\<bar> < 2 ^ 53 \<Longrightarrow> as_i64 (json_of (TInt n)) = Some n"
  using f64_int_exact [of "nat \<bar>n\<bar>" "n < 0"] by (auto simp: as_i64_def)

lemma obj_get_fold:
  assumes "obj_ok ob"
  shows "obj_get (fold (\<lambda>(k, v). obj_push k v) xs ob) k = (case map_of (rev xs) k of Some v \<Rightarrow> Some v | None \<Rightarrow> obj_get ob k)"
  using assms
proof (induction xs arbitrary: ob)
  case (Cons x xs)
  obtain a b where x: "x = (a, b)" by (cases x)
  have "obj_ok (obj_push a b ob)" using Cons.prems by (rule obj_push_ok)
  from Cons.IH [OF this] Cons.prems show ?case by (simp add: x map_add_def obj_get_push split: option.splits)
qed simp

lemma json_get_tree: "json_get (json_of (TObj kts)) k = map_option json_of (map_of (rev kts) k)"
proof -
  have "map_of (rev (map (\<lambda>(k, t). (k, json_of t)) kts)) k = map_option json_of (map_of (rev kts) k)"
    unfolding rev_map map_of_map by simp
  moreover have "obj_get (obj_new :: json json_obj) k = None" by (simp add: obj_get_def obj_new_def)
  ultimately show ?thesis by (simp add: json_get_def obj_get_fold obj_new_ok split: option.splits)
qed

text \<open>
  C25: the parser inverts the printer: for every tree of nested arrays, objects, valid UTF-8 strings,
  booleans and integers of magnitude below \<open>2 ^ 53\<close>, parsing its text gives the tree back, and an
  integer is read by \<open>as_i64\<close> exactly.
\<close>

theorem parse_show:
  assumes "jtree_ok t"
  shows "json_parse (show_json t) = Some (json_of t) \<and>
    (\<forall>n. t = TInt n \<longrightarrow> as_i64 (json_of t) = Some n)"
  using json_parse_show [OF assms] as_i64_int assms by auto

theorem parse_show_witness:
  "json_parse (show_json (TObj [([0x61], TArr [TInt (- 7), TStr [0x22, 0xC3, 0xA9]]), ([0x62], TNull)]))
    = Some (json_of (TObj [([0x61], TArr [TInt (- 7), TStr [0x22, 0xC3, 0xA9]]), ([0x62], TNull)]))"
  using parse_show [of "TObj [([0x61], TArr [TInt (- 7), TStr [0x22, 0xC3, 0xA9]]), ([0x62], TNull)]"]
  by (simp add: utf8_step_def utf8_width_def second_ok_def is_cont_def del: show_json.simps json_of.simps)

section \<open>The parser on a bounded stack\<close>

text \<open>
  The parser recurses for every nested value and checks no depth, so it lives on the stack of its
  thread.  \<open>val_on d\<close> is \<open>parse_val\<close> where \<open>d\<close> more activations of it fit: one more overflows, which
  aborts the process.  The second argument is the fuel of \<open>parse_val\<close>.
\<close>

datatype 'a on_stack = Overflows | Returns 'a

fun val_on :: "nat \<Rightarrow> nat \<Rightarrow> byte_string \<Rightarrow> nat \<Rightarrow> (json \<times> nat) on_stack option"
  and arr_on :: "nat \<Rightarrow> nat \<Rightarrow> byte_string \<Rightarrow> nat \<Rightarrow> json list \<Rightarrow> (json \<times> nat) on_stack option"
  and obj_on :: "nat \<Rightarrow> nat \<Rightarrow> byte_string \<Rightarrow> nat \<Rightarrow> json json_obj \<Rightarrow> (json \<times> nat) on_stack option"
where
  "val_on 0 n b i = Some Overflows"
| "val_on (Suc d) 0 b i = None"
| "val_on (Suc d) (Suc n) b i =
     (let i = jws b i; c = jcur b i in
      if c = 0x22 then (let (s, i) = parse_str_raw b i in Some (Returns (Str s, i)))
      else if c = 0x7B then
        (let i = jws b (i + 1) in
         if jcur b i = 0x7D then Some (Returns (Obj obj_new, i + 1)) else obj_on d n b i obj_new)
      else if c = 0x5B then
        (let i = jws b (i + 1) in
         if jcur b i = 0x5D then Some (Returns (Arr [], i + 1)) else arr_on d n b i [])
      else if c = 0x74 then Some (Returns (Bool True, i + 4))
      else if c = 0x66 then Some (Returns (Bool False, i + 5))
      else if c = 0x6E then Some (Returns (Null, i + 4))
      else (let (v, i) = parse_num b i in Some (Returns (Num v, i))))"
| "arr_on d 0 b i arr = None"
| "arr_on d (Suc n) b i arr =
     (case val_on d n b i of
        None \<Rightarrow> None
      | Some Overflows \<Rightarrow> Some Overflows
      | Some (Returns (v, i)) \<Rightarrow>
          (let i = jws b i; arr = arr @ [v] in
           if jcur b i = 0x2C then arr_on d n b (i + 1) arr
           else if jcur b i = 0x5D then Some (Returns (Arr arr, i + 1))
           else Some (Returns (Arr arr, i))))"
| "obj_on d 0 b i ob = None"
| "obj_on d (Suc n) b i ob =
     (let (key, i) = parse_str_raw b (jws b i);
          i = jws b i;
          i = (if jcur b i = 0x3A then i + 1 else i)
      in case val_on d n b i of
           None \<Rightarrow> None
         | Some Overflows \<Rightarrow> Some Overflows
         | Some (Returns (v, i)) \<Rightarrow>
             (let i = jws b i; ob = obj_push key v ob in
              if jcur b i = 0x2C then obj_on d n b (i + 1) ob
              else if jcur b i = 0x7D then Some (Returns (Obj ob, i + 1))
              else Some (Returns (Obj ob, i))))"

text \<open>\<open>Json::parse\<close> on a stack that holds \<open>d\<close> activations of \<open>parse_val\<close>\<close>

definition json_parse_on :: "nat \<Rightarrow> byte_string \<Rightarrow> json option on_stack option" where
  "json_parse_on d b =
     (if b = [] then Some (Returns None)
      else case val_on d (2 * length b + 2) b 0 of
          None \<Rightarrow> None
        | Some Overflows \<Rightarrow> Some Overflows
        | Some (Returns (v, i)) \<Rightarrow> Some (Returns (Some v)))"

definition openers :: "byte_string \<Rightarrow> nat" where
  "openers b = length (filter (\<lambda>c. c = 0x5B \<or> c = 0x7B) b)"

lemma openers_drop_mono: "i \<le> j \<Longrightarrow> openers (drop j b) \<le> openers (drop i b)"
  using append_take_drop_id [of "j - i" "drop i b"]
  by (metis drop_drop le_add2 le_add_diff_inverse2 openers_def filter_append length_append)

lemma openers_at:
  assumes "jcur b j = 0x5B \<or> jcur b j = 0x7B" "i \<le> j" "j < k"
  shows "Suc (openers (drop k b)) \<le> openers (drop i b)"
proof -
  have j: "j < length b" using assms(1) by (intro jcur_in) auto
  then have "b ! j = 0x5B \<or> b ! j = 0x7B" using assms(1) by (simp add: jcur_def get_or_def)
  then have "openers (drop j b) = Suc (openers (drop (Suc j) b))"
    using Cons_nth_drop_Suc [OF j] by (metis (mono_tags, lifting) filter.simps(2) length_Cons openers_def)
  moreover have "openers (drop k b) \<le> openers (drop (Suc j) b)" using assms(3) by (intro openers_drop_mono) simp
  moreover have "openers (drop j b) \<le> openers (drop i b)" using assms(2) by (rule openers_drop_mono)
  ultimately show ?thesis by linarith
qed

lemma parse_ge:
  "(\<forall>v k. parse_val n b i = Some (v, k) \<longrightarrow> i \<le> k) \<and>
   (\<forall>v k. parse_arr_loop n b i arr = Some (v, k) \<longrightarrow> i \<le> k) \<and>
   (\<forall>v k. parse_obj_loop n b i ob = Some (v, k) \<longrightarrow> i \<le> k)"
proof (induction n arbitrary: i arr ob)
  case (Suc n)
  have V: "i \<le> k" if "parse_val n b i = Some (v, k)" for i v k using Suc that by blast
  have A: "i \<le> k" if "parse_arr_loop n b i arr = Some (v, k)" for i arr v k using Suc that by blast
  have B: "i \<le> k" if "parse_obj_loop n b i ob = Some (v, k)" for i ob v k using Suc that by blast
  show ?case
  proof (intro conjI allI impI)
    fix v k assume a: "parse_val (Suc n) b i = Some (v, k)"
    let ?j = "jws b i"
    have j: "i \<le> ?j" "?j + 1 \<le> jws b (?j + 1)" by (rule jws_ge)+
    have "?j \<le> k" using a j(2) A [of "jws b (?j + 1)"] B [of "jws b (?j + 1)"]
        parse_str_raw_ge [of ?j b] num_end_ge [of ?j b]
      by (auto simp: Let_def parse_num_def split: prod.splits if_splits dest!: A B)
    with j show "i \<le> k" by linarith
  next
    fix v k assume a: "parse_arr_loop (Suc n) b i arr = Some (v, k)"
    then obtain w m where w: "parse_val n b i = Some (w, m)" by (auto split: option.splits)
    let ?j = "jws b m"
    have "m \<le> ?j" by (rule jws_ge)
    moreover have "?j \<le> k" using a w by (auto simp: Let_def split: if_splits dest!: A)
    ultimately show "i \<le> k" using V [OF w] by linarith
  next
    fix v k assume a: "parse_obj_loop (Suc n) b i ob = Some (v, k)"
    obtain key p where k: "parse_str_raw b (jws b i) = (key, p)" by force
    define p' where "p' = (if jcur b (jws b p) = 0x3A then jws b p + 1 else jws b p)"
    have ip: "i \<le> p'" using jws_ge [of i b] jws_ge [of p b] parse_str_raw_ge [of "jws b i" b] k by (auto simp: p'_def)
    from a k obtain w m where w: "parse_val n b p' = Some (w, m)"
      by (auto simp: p'_def Let_def split: option.splits)
    let ?j = "jws b m"
    have "m \<le> ?j" by (rule jws_ge)
    moreover have "?j \<le> k" using a k w by (auto simp: Let_def p'_def [symmetric] split: if_splits dest!: B)
    ultimately show "i \<le> k" using V [OF w] ip by linarith
  qed
qed simp


lemma on_enough:
  "(openers (drop i b) \<le> d \<longrightarrow> val_on (Suc d) n b i = map_option Returns (parse_val n b i)) \<and>
   (openers (drop i b) \<le> d \<longrightarrow> arr_on (Suc d) n b i arr = map_option Returns (parse_arr_loop n b i arr)) \<and>
   (openers (drop i b) \<le> d \<longrightarrow> obj_on (Suc d) n b i ob = map_option Returns (parse_obj_loop n b i ob))"
proof (induction n arbitrary: d i arr ob)
  case (Suc n)
  have V: "val_on (Suc d) n b i = map_option Returns (parse_val n b i)" if "openers (drop i b) \<le> d" for d i
    using Suc that by blast
  have A: "arr_on (Suc d) n b i arr = map_option Returns (parse_arr_loop n b i arr)"
    if "openers (drop i b) \<le> d" for d i arr using Suc that by blast
  have B: "obj_on (Suc d) n b i ob = map_option Returns (parse_obj_loop n b i ob)"
    if "openers (drop i b) \<le> d" for d i ob using Suc that by blast
  have later: "openers (drop (k + 1) b) \<le> d" if "openers (drop i b) \<le> d" "i \<le> k" for d i k
    using openers_drop_mono [of i "k + 1" b] that by simp
  show ?case
  proof (intro conjI impI)
    assume d: "openers (drop i b) \<le> d"
    let ?j = "jws b i" and ?k = "jws b (jws b i + 1)"
    have nested: "arr_on d n b ?k [] = map_option Returns (parse_arr_loop n b ?k [])"
      "obj_on d n b ?k obj_new = map_option Returns (parse_obj_loop n b ?k obj_new)"
      if c: "jcur b ?j = 0x5B \<or> jcur b ?j = 0x7B"
    proof -
      have "?j < ?k" using jws_ge [of "?j + 1" b] by simp
      from openers_at [OF c jws_ge this] d obtain d' where d': "d = Suc d'" "openers (drop ?k b) \<le> d'"
        by (cases d) auto
      show "arr_on d n b ?k [] = map_option Returns (parse_arr_loop n b ?k [])"
        "obj_on d n b ?k obj_new = map_option Returns (parse_obj_loop n b ?k obj_new)"
        unfolding d'(1) by (rule A [OF d'(2)], rule B [OF d'(2)])
    qed
    then show "val_on (Suc d) (Suc n) b i = map_option Returns (parse_val (Suc n) b i)"
      by (auto simp: Let_def split: prod.split)
  next
    assume d: "openers (drop i b) \<le> d"
    have step: "arr_on (Suc d) n b (jws b k + 1) arr' = map_option Returns (parse_arr_loop n b (jws b k + 1) arr')"
      if "parse_val n b i = Some (v, k)" for v k arr'
    proof -
      have "i \<le> jws b k" using parse_ge [of n b i] that jws_ge [of k b] by (meson order_trans)
      from A [OF later [OF d this]] show ?thesis .
    qed
    then show "arr_on (Suc d) (Suc n) b i arr = map_option Returns (parse_arr_loop (Suc n) b i arr)"
      using V [OF d] by (auto simp: Let_def split: option.split)
  next
    assume d: "openers (drop i b) \<le> d"
    obtain key p where k: "parse_str_raw b (jws b i) = (key, p)" by force
    define p' where "p' = (if jcur b (jws b p) = 0x3A then jws b p + 1 else jws b p)"
    have ip: "i \<le> p'"
      using jws_ge [of i b] jws_ge [of p b] parse_str_raw_ge [of "jws b i" b] k by (auto simp: p'_def)
    have dp: "openers (drop p' b) \<le> d" using openers_drop_mono [OF ip, of b] d by linarith
    have step: "obj_on (Suc d) n b (jws b k + 1) ob' = map_option Returns (parse_obj_loop n b (jws b k + 1) ob')"
      if "parse_val n b p' = Some (v, k)" for v k ob'
    proof -
      have "p' \<le> jws b k" using parse_ge [of n b p'] that jws_ge [of k b] by (meson order_trans)
      from B [OF later [OF dp this]] show ?thesis .
    qed
    then show "obj_on (Suc d) (Suc n) b i ob = map_option Returns (parse_obj_loop (Suc n) b i ob)"
      using V [OF dp] k by (auto simp: Let_def p'_def [symmetric] split: option.split)
  qed
qed simp

lemma brackets_overflow:
  "i + d \<le> k \<Longrightarrow> 2 * d \<le> n \<Longrightarrow> val_on d n (replicate k 0x5B) i = Some Overflows"
proof (induction d arbitrary: i n)
  case (Suc d)
  let ?b = "replicate k 0x5B :: byte_string"
  from Suc.prems obtain m where n: "n = Suc (Suc m)" "2 * d \<le> m" by (cases n; cases "n - 1") auto
  have ws: "jws ?b j = j" for j by (subst jws.simps) (auto simp: is_ascii_ws_def)
  have "jcur ?b i = 0x5B" "jcur ?b (i + 1) \<noteq> 0x5D" using Suc.prems(1) by (auto simp: jcur_def get_or_def)
  with Suc.IH [of "i + 1" m] Suc.prems(1) n show ?case by (simp add: ws Let_def)
qed simp

text \<open>
  C26: the parser returns a value on every non-empty input whose stack holds one activation of
  \<open>parse_val\<close> more than the input has opening brackets, and it is the value of the unbounded parser;
  only the empty text has none.  No finite stack is enough for every input: on \<open>d\<close> opening brackets a
  stack of \<open>d\<close> activations overflows, because the code checks no depth.
\<close>

theorem json_parse_on_stack:
  assumes "openers b < d"
  shows "json_parse_on d b = Some (Returns (json_parse b)) \<and> (json_parse b = None \<longleftrightarrow> b = []) \<and>
    json_parse_on d (replicate d 0x5B) = Some Overflows"
proof -
  obtain d' where d: "d = Suc d'" "openers b \<le> d'" using assms by (cases d) auto
  have v: "val_on d n b 0 = map_option Returns (parse_val n b 0)" for n
    using on_enough [of 0 b d' n] d by simp
  have "json_parse_on d b = Some (Returns (json_parse b))"
    using json_parse_total [of b] unfolding json_parse_on_def json_parse_def v
    by (auto split: option.splits prod.split)
  moreover have "json_parse_on d (replicate d 0x5B) = Some Overflows"
    using brackets_overflow [of 0 d d "2 * d + 2"] d(1) unfolding json_parse_on_def by (simp del: val_on.simps)
  ultimately show ?thesis using json_parse_total [of b] by blast
qed

theorem json_parse_on_stack_witness:
  "json_parse_on 3 [0x5B, 0x5B, 0x31] = Some (Returns (json_parse [0x5B, 0x5B, 0x31]))"
  using json_parse_on_stack [of "[0x5B, 0x5B, 0x31]" 3] by (simp add: openers_def)

text \<open>
  Objects built by \<open>push\<close> are insertion-ordered maps: the last write of a key wins and keeps its
  first place, and lookups through the index agree with the iteration order.
\<close>

lemma json_object_map:
  assumes "obj_ok ob"
  shows "obj_ok (obj_push k v ob) \<and>
    obj_get (obj_push k v ob) k' = (if k' = k then Some v else obj_get ob k') \<and>
    obj_iter (obj_push k v ob) = alist_put k v (obj_iter ob) \<and>
    obj_get ob k' = map_of (obj_iter ob) k'"
  using obj_push_ok [OF assms] obj_get_push [OF assms] obj_iter_push [OF assms] obj_get_iter [OF assms]
  by blast

end
