(* ===== verification/Safetensors.thy ===== *)
theory Safetensors
  imports Wire Dtype JsonPrint "HOL-Library.List_Lexorder"
begin

text \<open>
  The shard reader and writer of \<open>colibri-safetensors\<close>: indexing the headers of a snapshot
  directory (\<open>Shards::open\<close>), lookup, raw reads, and \<open>write_subset\<close>, which exports some tensors
  into fresh shard files.  A directory is the list of its regular files, names with contents; an
  offset is a \<open>u64\<close> that wraps as in the release build, and a size that came out of the header is
  cast as the code casts it.  An allocation below the address space always succeeds.

  The main result is that an exported snapshot reads back: opening the written files finds every
  exported name with the same type, shape and bytes.
\<close>

section \<open>Results\<close>

text \<open>\<open>Panicked\<close> is a panic of the reading thread (a slice or an allocation out of range).\<close>

datatype st_error =
    Unexpected_end
  | Unparseable_header
  | Header_not_object
  | Missing_field byte_string byte_string
  | Unsupported_dtype byte_string
  | Missing_tensor byte_string
  | Panicked

section \<open>The index\<close>

record st_tensor =
  st_name :: byte_string
  st_file :: nat
  st_off :: u64
  st_nbytes :: u64
  st_dtype :: dtype
  st_numel :: int
  st_shape :: "int list"

type_synonym dir = "(byte_string \<times> byte_string) list"

record shards =
  sh_tensors :: "st_tensor list"
  sh_files :: dir
  sh_index :: "byte_string \<rightharpoonup> nat"

definition field_i64 :: "json list \<Rightarrow> nat \<Rightarrow> int" where
  "field_i64 js i = (case Option.bind (idx js i) as_i64 of Some n \<Rightarrow> n | None \<Rightarrow> 0)"

definition tensor_entry :: "u64 \<Rightarrow> nat \<Rightarrow> byte_string \<Rightarrow> json \<Rightarrow> st_error + st_tensor" where
  "tensor_entry data_start file_idx name meta =
     and_then (ok_or (Missing_field name (lit ''dtype'')) (Option.bind (json_get meta (lit ''dtype'')) as_str))
       (\<lambda>dtype_str. and_then (ok_or (Unsupported_dtype dtype_str) (parse_dtype dtype_str))
       (\<lambda>dt. and_then (ok_or (Missing_field name (lit ''data_offsets''))
                (Option.bind (json_get meta (lit ''data_offsets'')) as_array))
       (\<lambda>offsets. and_then (ok_or (Missing_field name (lit ''shape''))
                (Option.bind (json_get meta (lit ''shape'')) as_array))
       (\<lambda>shape.
          let a0 = field_i64 offsets 0;
              b0 = field_i64 offsets 1;
              dims = map (\<lambda>d. case as_i64 d of Some n \<Rightarrow> n | None \<Rightarrow> 0) shape
          in Inr \<lparr>st_name = name, st_file = file_idx, st_off = data_start + of_int a0,
                  st_nbytes = of_int (b0 - a0), st_dtype = dt,
                  st_numel = foldl (\<lambda>acc d. wrap64 (acc * d)) 1 dims, st_shape = dims\<rparr>))))"

fun index_entries :: "u64 \<Rightarrow> nat \<Rightarrow> (byte_string \<times> json) list \<Rightarrow> shards \<Rightarrow> st_error + shards" where
  "index_entries data_start file_idx [] s = Inr s"
| "index_entries data_start file_idx ((name, meta) # es) s =
     (if name = lit ''__metadata__'' then index_entries data_start file_idx es s
      else and_then (tensor_entry data_start file_idx name meta)
        (\<lambda>t. index_entries data_start file_idx es
           (s\<lparr>sh_tensors := sh_tensors s @ [t], sh_index := (sh_index s)(name \<mapsto> length (sh_tensors s))\<rparr>)))"

definition index_file :: "byte_string \<times> byte_string \<Rightarrow> shards \<Rightarrow> st_error + shards" where
  "index_file f s =
     (let contents = snd f in
      if length contents < 8 then Inl Unexpected_end
      else let hlen = from_le (take 8 contents) :: u64 in
        if 2 ^ 63 \<le> unat hlen then Inl Panicked
        else if length contents - 8 < unat hlen then Inl Unexpected_end
        else let hdr = take (unat hlen) (drop 8 contents) in
          and_then (ok_or Unparseable_header (json_parse (utf8_lossy hdr)))
            (\<lambda>root. and_then (ok_or Header_not_object (as_object root))
            (\<lambda>ob. and_then (index_entries (8 + hlen) (length (sh_files s)) (obj_iter ob) s)
            (\<lambda>s. Inr (s\<lparr>sh_files := sh_files s @ [f]\<rparr>)))))"

fun index_files :: "dir \<Rightarrow> shards \<Rightarrow> st_error + shards" where
  "index_files [] s = Inr s"
| "index_files (f # fs) s = and_then (index_file f s) (index_files fs)"

text \<open>\<open>Path::extension\<close> of a file name.\<close>

definition extension :: "byte_string \<Rightarrow> byte_string option" where
  "extension name =
     (let ext = rev (takeWhile (\<lambda>c. c \<noteq> 0x2E) (rev name))
      in if name = lit ''..'' \<or> length ext = length name \<or> length name \<le> length ext + 1 then None
         else Some ext)"

definition no_shards :: shards where
  "no_shards = \<lparr>sh_tensors = [], sh_files = [], sh_index = (\<lambda>_. None)\<rparr>"

definition shards_open :: "dir \<Rightarrow> st_error + shards" where
  "shards_open d =
     index_files (sort_key fst (filter (\<lambda>f. extension (fst f) = Some (lit ''safetensors'')) d)) no_shards"

section \<open>Lookup and raw reads\<close>

definition sh_len :: "shards \<Rightarrow> nat" where
  "sh_len s = length (sh_tensors s)"

definition sh_is_empty :: "shards \<Rightarrow> bool" where
  "sh_is_empty s \<longleftrightarrow> sh_tensors s = []"

definition sh_find :: "shards \<Rightarrow> byte_string \<Rightarrow> st_tensor option" where
  "sh_find s name = Option.bind (sh_index s name) (idx (sh_tensors s))"

definition num_files :: "shards \<Rightarrow> nat" where
  "num_files s = length (sh_files s)"

definition sh_has :: "shards \<Rightarrow> byte_string \<Rightarrow> bool" where
  "sh_has s name \<longleftrightarrow> sh_index s name \<noteq> None"

definition sh_numel :: "shards \<Rightarrow> byte_string \<Rightarrow> int" where
  "sh_numel s name = (case sh_find s name of Some t \<Rightarrow> st_numel t | None \<Rightarrow> - 1)"

definition sh_nbytes :: "shards \<Rightarrow> byte_string \<Rightarrow> int" where
  "sh_nbytes s name = (case sh_find s name of Some t \<Rightarrow> sint (st_nbytes t) | None \<Rightarrow> - 1)"

definition sh_tensor :: "shards \<Rightarrow> byte_string \<Rightarrow> st_error + st_tensor" where
  "sh_tensor s name = ok_or (Missing_tensor name) (sh_find s name)"

text \<open>\<open>read_exact_at\<close>: an empty destination reads nothing and succeeds.\<close>

definition read_exact_at :: "byte_string \<Rightarrow> nat \<Rightarrow> nat \<Rightarrow> st_error + byte_string" where
  "read_exact_at f off n =
     (if n = 0 then Inr [] else if off + n \<le> length f then Inr (take n (drop off f)) else Inl Unexpected_end)"

definition pread_into :: "shards \<Rightarrow> nat \<Rightarrow> u64 \<Rightarrow> nat \<Rightarrow> st_error + byte_string" where
  "pread_into s file_idx off n =
     and_then (ok_or Panicked (idx (sh_files s) file_idx)) (\<lambda>f. read_exact_at (snd f) (unat off) n)"

text \<open>The destination is filled from its start; a shorter destination panics.\<close>

definition read_raw :: "shards \<Rightarrow> byte_string \<Rightarrow> byte_string \<Rightarrow> st_error + byte_string" where
  "read_raw s name out =
     and_then (sh_tensor s name) (\<lambda>t.
       let n = unat (st_nbytes t)
       in if length out < n then Inl Panicked
          else and_then (pread_into s (st_file t) (st_off t) n) (\<lambda>b. Inr (b @ drop n out)))"

section \<open>Exporting a subset\<close>

fun pack_more :: "u64 \<Rightarrow> u64 \<Rightarrow> st_tensor list \<Rightarrow> st_tensor list \<times> st_tensor list" where
  "pack_more max_bytes acc [] = ([], [])"
| "pack_more max_bytes acc (t # ts) =
     (if acc + st_nbytes t \<le> max_bytes
      then (let (g, r) = pack_more max_bytes (acc + st_nbytes t) ts in (t # g, r))
      else ([], t # ts))"

lemma pack_more_append: "fst (pack_more m acc ts) @ snd (pack_more m acc ts) = ts"
  by (induction m acc ts rule: pack_more.induct) (auto simp: split_beta)

lemma pack_more_length: "length (snd (pack_more m acc ts)) \<le> length ts"
  using pack_more_append [of m acc ts] by (metis le_add2 length_append)

function pack_groups :: "u64 \<Rightarrow> st_tensor list \<Rightarrow> st_tensor list list" where
  "pack_groups max_bytes [] = []"
| "pack_groups max_bytes (t # ts) =
     (let (g, r) = pack_more max_bytes (st_nbytes t) ts in (t # g) # pack_groups max_bytes r)"
  by pat_completeness auto
termination
proof (relation "measure (\<lambda>(_, ts). length ts)", goal_cases)
  case (2 max_bytes t ts p g r)
  then have "r = snd (pack_more max_bytes (st_nbytes t) ts)" by (metis snd_conv)
  then show ?case using pack_more_length [of max_bytes "st_nbytes t" ts] by simp
qed simp

text \<open>The names go into the header between quotes, without escaping.\<close>

definition in_quotes :: "byte_string \<Rightarrow> byte_string" where
  "in_quotes s = 0x22 # s @ [0x22]"

definition header_entry :: "u64 \<Rightarrow> st_tensor \<Rightarrow> byte_string" where
  "header_entry rel t =
     in_quotes (st_name t) @ lit '':{'' @ in_quotes (lit ''dtype'') @ lit '':'' @
     in_quotes (safetensors_str (st_dtype t)) @ lit '','' @ in_quotes (lit ''shape'') @ lit '':['' @
     commas (map show_int (st_shape t)) @ lit ''],'' @ in_quotes (lit ''data_offsets'') @ lit '':['' @
     show_digits (unat rel) @ lit '','' @ show_digits (unat (rel + st_nbytes t)) @ lit '']}''"

fun header_entries :: "u64 \<Rightarrow> st_tensor list \<Rightarrow> byte_string list" where
  "header_entries rel [] = []"
| "header_entries rel (t # ts) = header_entry rel t # header_entries (rel + st_nbytes t) ts"

definition group_header :: "st_tensor list \<Rightarrow> byte_string" where
  "group_header g = lit ''{'' @ commas (header_entries 0 g) @ lit ''}''"

definition out_name :: "nat \<Rightarrow> byte_string" where
  "out_name n = (let ds = show_digits n in
     lit ''out-'' @ replicate (5 - length ds) 0x30 @ ds @ lit ''.safetensors'')"

definition group_file :: "shards \<Rightarrow> nat \<Rightarrow> st_tensor list \<Rightarrow> st_error + byte_string \<times> byte_string" where
  "group_file s n g =
     and_then (try_map (\<lambda>t. read_raw s (st_name t) (replicate (unat (st_nbytes t)) 0)) g) (\<lambda>payload.
       let header = group_header g
       in Inr (out_name n, to_le 8 (of_nat (length header) :: u64) @ header @ concat payload))"

fun write_groups :: "shards \<Rightarrow> nat \<Rightarrow> st_tensor list list \<Rightarrow> st_error + dir" where
  "write_groups s n [] = Inr []"
| "write_groups s n (g # gs) =
     and_then (group_file s n g) (\<lambda>f. and_then (write_groups s (Suc n) gs) (\<lambda>fs. Inr (f # fs)))"

text \<open>
  The files \<open>write_subset\<close> leaves in a fresh directory; the count it returns is their number.
\<close>

definition write_subset :: "shards \<Rightarrow> byte_string list \<Rightarrow> u64 \<Rightarrow> st_error + dir" where
  "write_subset s names max_file_bytes =
     and_then (try_map (\<lambda>n. sh_tensor s n) names)
       (\<lambda>items. write_groups s 0 (pack_groups max_file_bytes items))"

section \<open>The header text\<close>

definition entry_tree :: "u64 \<Rightarrow> st_tensor \<Rightarrow> byte_string \<times> jtree" where
  "entry_tree rel t =
     (st_name t, TObj [(lit ''dtype'', TStr (safetensors_str (st_dtype t))),
        (lit ''shape'', TArr (map TInt (st_shape t))),
        (lit ''data_offsets'', TArr [TInt (uint rel), TInt (uint (rel + st_nbytes t))])])"

fun entry_trees :: "u64 \<Rightarrow> st_tensor list \<Rightarrow> (byte_string \<times> jtree) list" where
  "entry_trees rel [] = []"
| "entry_trees rel (t # ts) = entry_tree rel t # entry_trees (rel + st_nbytes t) ts"

text \<open>A name that needs no escaping, is a string, and is not the metadata key.\<close>

definition plain_name :: "byte_string \<Rightarrow> bool" where
  "plain_name s \<longleftrightarrow> utf8_valid s \<and> 0x22 \<notin> set s \<and> 0x5C \<notin> set s \<and> s \<noteq> lit ''__metadata__''"

lemma show_str_plain: "0x22 \<notin> set s \<Longrightarrow> 0x5C \<notin> set s \<Longrightarrow> show_str s = in_quotes s"
proof -
  assume a: "0x22 \<notin> set s" "0x5C \<notin> set s"
  then have "concat (map esc s) = s" by (induction s) (auto simp: esc_def)
  then show ?thesis by (simp add: show_str_def in_quotes_def)
qed

lemma show_str_fixed:
  "show_str (lit ''dtype'') = in_quotes (lit ''dtype'')" "show_str (lit ''shape'') = in_quotes (lit ''shape'')"
  "show_str (lit ''data_offsets'') = in_quotes (lit ''data_offsets'')"
  "show_str (safetensors_str d) = in_quotes (safetensors_str d)"
  by (simp_all add: show_str_plain lit_def) (cases d; simp add: show_str_plain lit_def)

lemma show_int_uint: "show_int (uint (w :: 'a::len word)) = show_digits (unat w)"
  by (simp add: show_int_def not_less)

lemma header_entry_json:
  assumes "plain_name (st_name t)"
  shows "header_entry rel t = (\<lambda>(k, v). show_str k @ 0x3A # show_json v) (entry_tree rel t)"
  using assms by (simp add: header_entry_def entry_tree_def show_str_fixed show_str_plain plain_name_def
      show_int_uint comp_def) (simp add: lit_def)

lemma group_header_json:
  assumes "\<forall>t \<in> set g. plain_name (st_name t)"
  shows "group_header g = show_json (TObj (entry_trees 0 g))"
proof -
  have "header_entries rel g = map (\<lambda>(k, v). show_str k @ 0x3A # show_json v) (entry_trees rel g)" for rel
    using assms by (induction g arbitrary: rel) (simp_all add: header_entry_json)
  then show ?thesis by (simp add: group_header_def lit_def)
qed

lemma entry_trees_keys: "map fst (entry_trees rel g) = map st_name g"
  by (induction rel g rule: entry_trees.induct) (simp_all add: entry_tree_def)

section \<open>UTF-8 text of the header\<close>

lemma show_digits_ascii: "utf8_valid (show_digits n)"
proof (rule utf8_valid_ascii)
  show "list_all (\<lambda>c. c < 0x80) (show_digits n)"
    using show_digits_digit [of n] by (auto simp: list_all_iff is_digit_def word_le_nat_alt word_less_nat_alt)
qed

lemma utf8_valid_commas: "list_all utf8_valid xs \<Longrightarrow> utf8_valid (commas xs)"
  by (induction xs rule: commas.induct)
    (auto intro!: utf8_valid_append simp: utf8_valid_Cons simp del: utf8_valid.simps(2))

lemma utf8_valid_quotes: "utf8_valid s \<Longrightarrow> utf8_valid (in_quotes s)"
  by (auto simp: in_quotes_def utf8_valid_Cons intro!: utf8_valid_append simp del: utf8_valid.simps(2))

lemma utf8_valid_lits:
  "utf8_valid (lit '':{'')" "utf8_valid (lit ''dtype'')" "utf8_valid (lit '':'')" "utf8_valid (lit '','')"
  "utf8_valid (lit ''shape'')" "utf8_valid (lit '':['')" "utf8_valid (lit ''],'')"
  "utf8_valid (lit ''data_offsets'')" "utf8_valid (lit '']}'')" "utf8_valid (lit ''{'')" "utf8_valid (lit ''}'')"
  "utf8_valid (safetensors_str d)"
  by (simp_all add: lit_def utf8_valid_Cons del: utf8_valid.simps(2))
    (cases d; simp add: lit_def utf8_valid_Cons del: utf8_valid.simps(2))

lemma show_int_ascii: "utf8_valid (show_int n)"
  by (auto simp: show_int_def utf8_valid_Cons show_digits_ascii simp del: utf8_valid.simps(2))

lemma utf8_valid_header:
  assumes "\<forall>t \<in> set g. utf8_valid (st_name t)"
  shows "utf8_valid (group_header g)"
proof -
  have "utf8_valid (header_entry rel t)" if "t \<in> set g" for rel t
    unfolding header_entry_def using that assms
    by (intro utf8_valid_append utf8_valid_quotes utf8_valid_lits utf8_valid_commas show_digits_ascii)
      (auto simp: list_all_iff show_int_ascii)
  then have "list_all utf8_valid (header_entries rel g)" for rel
    by (induction g arbitrary: rel) (auto simp: list_all_iff)
  then show ?thesis
    unfolding group_header_def by (intro utf8_valid_append utf8_valid_lits utf8_valid_commas)
qed

section \<open>Reading a header back\<close>

lemma obj_iter_pushes:
  assumes "obj_ok ob" and "distinct (map fst (obj_iter ob @ kvs))"
  shows "obj_ok (fold (\<lambda>(k, v). obj_push k v) kvs ob) \<and>
    obj_iter (fold (\<lambda>(k, v). obj_push k v) kvs ob) = obj_iter ob @ kvs"
  using assms
proof (induction kvs arbitrary: ob)
  case (Cons kv kvs)
  obtain k v where kv: "kv = (k, v)" by force
  have "obj_iter (obj_push k v ob) = obj_iter ob @ [(k, v)]"
    using Cons.prems by (simp add: kv obj_iter_push alist_put_new)
  then show ?case using Cons by (simp add: kv obj_push_ok)
qed simp

definition dims_product :: "int list \<Rightarrow> int" where
  "dims_product dims = foldl (\<lambda>acc d. wrap64 (acc * d)) 1 dims"

definition moved :: "u64 \<Rightarrow> nat \<Rightarrow> u64 \<Rightarrow> st_tensor \<Rightarrow> st_tensor" where
  "moved data_start file_idx rel t =
     t\<lparr>st_file := file_idx, st_off := data_start + rel, st_numel := dims_product (st_shape t)\<rparr>"

fun placed :: "u64 \<Rightarrow> nat \<Rightarrow> u64 \<Rightarrow> st_tensor list \<Rightarrow> st_tensor list" where
  "placed data_start file_idx rel [] = []"
| "placed data_start file_idx rel (t # ts) =
     moved data_start file_idx rel t # placed data_start file_idx (rel + st_nbytes t) ts"

definition dims_small :: "st_tensor \<Rightarrow> bool" where
  "dims_small t \<longleftrightarrow> (\<forall>d \<in> set (st_shape t). \<bar>d\<bar> < 2 ^ 53)"

abbreviation group_size :: "st_tensor list \<Rightarrow> nat" where
  "group_size g \<equiv> sum_list (map (\<lambda>t. unat (st_nbytes t)) g)"

lemma uint_small:
  fixes w :: u64
  assumes "unat w < 2 ^ 53"
  shows "\<bar>uint w\<bar> < 2 ^ 53"
proof -
  have "uint w = int (unat w)" by simp
  moreover have "int (unat w) < int (2 ^ 53)" using assms by (simp only: of_nat_less_iff)
  ultimately show ?thesis by simp
qed

lemma tensor_entry_tree:
  assumes "dims_small t" and "unat rel + unat (st_nbytes t) < 2 ^ 53"
  shows "tensor_entry data_start file_idx (st_name t) (json_of (snd (entry_tree rel t)))
    = Inr (moved data_start file_idx rel t)"
proof -
  have sum: "unat (rel + st_nbytes t) = unat rel + unat (st_nbytes t)"
    using assms(2) by (intro unat_add_no_wrap) simp
  have ints: "as_i64 (json_of (TInt (uint rel))) = Some (uint rel)"
    "as_i64 (json_of (TInt (uint (rel + st_nbytes t)))) = Some (uint (rel + st_nbytes t))"
    by (rule as_i64_int, rule uint_small, use assms(2) sum in linarith)+
  have dims: "map (\<lambda>d. case as_i64 d of Some n \<Rightarrow> n | None \<Rightarrow> 0) (map json_of (map TInt (st_shape t))) = st_shape t"
    using assms(1) as_i64_int by (auto simp: dims_small_def comp_def intro!: map_idI)
  have gets: "json_get (json_of (snd (entry_tree rel t))) (lit ''dtype'') = Some (Str (safetensors_str (st_dtype t)))"
    "json_get (json_of (snd (entry_tree rel t))) (lit ''shape'') = Some (Arr (map json_of (map TInt (st_shape t))))"
    "json_get (json_of (snd (entry_tree rel t))) (lit ''data_offsets'')
      = Some (Arr (map json_of [TInt (uint rel), TInt (uint (rel + st_nbytes t))]))"
    by (simp_all add: entry_tree_def json_get_def obj_get_push obj_push_ok obj_new_ok)
  have "of_int (uint (rel + st_nbytes t) - uint rel) = st_nbytes t" by simp
  then show ?thesis
    unfolding tensor_entry_def gets
    using ints dims
    by (simp add: as_str_def as_array_def dtype_round_trip field_i64_def idx_def moved_def dims_product_def
        Let_def del: json_of.simps)
qed

lemma entry_trees_ok:
  assumes "\<forall>t \<in> set g. plain_name (st_name t) \<and> dims_small t" and "unat rel + group_size g < 2 ^ 53"
  shows "jtree_ok (TObj (entry_trees rel g))"
  using assms
proof (induction g arbitrary: rel)
  case (Cons t g)
  have sum: "unat (rel + st_nbytes t) = unat rel + unat (st_nbytes t)"
    using Cons.prems(2) by (intro unat_add_no_wrap) simp
  have "\<bar>uint rel\<bar> < 2 ^ 53" "\<bar>uint (rel + st_nbytes t)\<bar> < 2 ^ 53"
    by (rule uint_small; use Cons.prems(2) sum in simp)+
  moreover have "unat (rel + st_nbytes t) + group_size g < 2 ^ 53" using Cons.prems(2) sum by simp
  ultimately show ?case
    using Cons.prems(1) Cons.IH [of "rel + st_nbytes t"]
    by (simp add: entry_tree_def plain_name_def dims_small_def list_all_iff utf8_valid_lits)
qed simp

text \<open>Indexing one tensor after another.\<close>

definition add_tensor :: "st_tensor \<Rightarrow> shards \<Rightarrow> shards" where
  "add_tensor t s =
     s\<lparr>sh_tensors := sh_tensors s @ [t], sh_index := (sh_index s)(st_name t \<mapsto> length (sh_tensors s))\<rparr>"

lemma moved_name [simp]: "st_name (moved ds fi rel t) = st_name t"
  by (simp add: moved_def)

lemma index_entries_trees:
  assumes "\<forall>t \<in> set g. plain_name (st_name t) \<and> dims_small t" and "unat rel + group_size g < 2 ^ 53"
  shows "index_entries ds fi (map (\<lambda>(k, v). (k, json_of v)) (entry_trees rel g)) s
    = Inr (fold add_tensor (placed ds fi rel g) s)"
  using assms
proof (induction g arbitrary: rel s)
  case (Cons t g)
  have small: "unat rel + unat (st_nbytes t) < 2 ^ 53" using Cons.prems(2) by simp
  then have sum: "unat (rel + st_nbytes t) = unat rel + unat (st_nbytes t)"
    by (intro unat_add_no_wrap) simp
  have e: "(\<lambda>(k, v). (k, json_of v)) (entry_tree rel t) = (st_name t, json_of (snd (entry_tree rel t)))"
    by (simp add: entry_tree_def)
  have "tensor_entry ds fi (st_name t) (json_of (snd (entry_tree rel t))) = Inr (moved ds fi rel t)"
    using Cons.prems small by (intro tensor_entry_tree) simp_all
  moreover have "st_name t \<noteq> lit ''__metadata__''" using Cons.prems(1) by (simp add: plain_name_def)
  moreover have "unat (rel + st_nbytes t) + group_size g < 2 ^ 53" using Cons.prems(2) sum by simp
  ultimately show ?case
    using Cons.prems(1) by (simp add: e Cons.IH add_tensor_def del: json_of.simps)
qed simp

definition hlen_of :: "st_tensor list \<Rightarrow> u64" where
  "hlen_of g = of_nat (length (group_header g))"

text \<open>A shard file written for a group of tensors, with its payload.\<close>

definition file_for :: "byte_string \<Rightarrow> st_tensor list \<Rightarrow> byte_string list \<Rightarrow> byte_string \<times> byte_string" where
  "file_for name g payload = (name, to_le 8 (hlen_of g) @ group_header g @ concat payload)"

lemma unat_hlen:
  assumes "length (group_header g) < 2 ^ 63"
  shows "unat (hlen_of g) = length (group_header g)"
  using assms by (simp add: hlen_of_def unat_of_nat)

lemma index_file_for:
  assumes "length (group_header g) < 2 ^ 63" and "\<forall>t \<in> set g. plain_name (st_name t) \<and> dims_small t"
    and "group_size g < 2 ^ 53" and "distinct (map st_name g)"
  shows "index_file (file_for name g payload) s =
    Inr ((fold add_tensor (placed (8 + hlen_of g) (length (sh_files s)) 0 g) s)
      \<lparr>sh_files := sh_files s @ [file_for name g payload]\<rparr>)"
proof -
  let ?tree = "TObj (entry_trees 0 g)"
  define contents where "contents = to_le 8 (hlen_of g) @ group_header g @ concat payload"
  have hlen: "from_le (take 8 contents) = hlen_of g"
    by (simp add: contents_def from_to_le_full)
  have hdr: "take (unat (hlen_of g)) (drop 8 contents) = group_header g"
    using assms(1) by (simp add: contents_def unat_hlen)
  have plain: "\<forall>t \<in> set g. plain_name (st_name t)" using assms(2) by simp
  have ok: "jtree_ok ?tree" using assms by (intro entry_trees_ok) simp_all
  have "utf8_lossy (group_header g) = show_json ?tree"
    using utf8_lossy_valid [OF utf8_valid_header, of g] plain
    by (simp add: plain_name_def group_header_json [OF plain, symmetric] del: show_json.simps)
  then have parse: "json_parse (utf8_lossy (group_header g)) = Some (json_of ?tree)"
    using json_parse_show [OF ok] by (simp only:)
  define kvs where "kvs = map (\<lambda>(k, v). (k, json_of v)) (entry_trees 0 g)"
  have "map fst kvs = map st_name g"
    using entry_trees_keys [of 0 g] by (simp add: kvs_def comp_def split_beta)
  then have iter: "obj_iter (fold (\<lambda>(k, v). obj_push k v) kvs obj_new) = kvs"
    using obj_iter_pushes [of obj_new kvs] assms(4) by (simp add: obj_new_ok) (simp add: obj_iter_def obj_new_def)
  have files: "sh_files (fold add_tensor ts s) = sh_files s" for ts
    by (induction ts arbitrary: s) (simp_all add: add_tensor_def)
  have long: "\<not> length contents < 8" "\<not> length contents - 8 < length (group_header g)"
    by (simp_all add: contents_def)
  show ?thesis
    unfolding index_file_def file_for_def snd_conv contents_def [symmetric] Let_def hlen hdr parse
    using assms long index_entries_trees [of g 0 "8 + hlen_of g"]
    by (simp add: unat_hlen as_object_def iter kvs_def [symmetric] files)
qed

section \<open>The index is consistent\<close>

definition index_wf :: "shards \<Rightarrow> bool" where
  "index_wf s \<longleftrightarrow> (\<forall>n i. sh_index s n = Some i \<longrightarrow> i < length (sh_tensors s) \<and>
     st_name (sh_tensors s ! i) = n \<and> st_numel (sh_tensors s ! i) = dims_product (st_shape (sh_tensors s ! i)))"

lemma index_wf_files [simp]: "index_wf (s\<lparr>sh_files := fs\<rparr>) \<longleftrightarrow> index_wf s"
  "sh_find (s\<lparr>sh_files := fs\<rparr>) n = sh_find s n"
  by (simp_all add: index_wf_def sh_find_def)

lemma index_wf_find: "index_wf s \<Longrightarrow> sh_find s n = Some t \<Longrightarrow>
    st_name t = n \<and> st_numel t = dims_product (st_shape t)"
  by (auto simp: index_wf_def sh_find_def idx_def split: if_splits option.splits bind_splits)

lemma add_tensor_wf:
  assumes "index_wf s" and "st_numel t = dims_product (st_shape t)"
  shows "index_wf (add_tensor t s)"
    and "sh_find (add_tensor t s) n = (if n = st_name t then Some t else sh_find s n)"
proof -
  show "index_wf (add_tensor t s)"
    using assms by (auto simp: index_wf_def add_tensor_def nth_append less_Suc_eq split: if_splits)
  show "sh_find (add_tensor t s) n = (if n = st_name t then Some t else sh_find s n)"
  proof (cases "sh_index s n")
    case (Some i)
    then have "i < length (sh_tensors s)" using assms(1) by (simp add: index_wf_def)
    then show ?thesis by (simp add: sh_find_def add_tensor_def idx_def Some nth_append)
  qed (simp add: sh_find_def add_tensor_def idx_def)
qed

lemma fold_add_tensor:
  assumes "index_wf s" and "\<forall>t \<in> set ts. st_numel t = dims_product (st_shape t)"
    and "distinct (map st_name ts)"
  shows "index_wf (fold add_tensor ts s) \<and> (\<forall>t \<in> set ts. sh_find (fold add_tensor ts s) (st_name t) = Some t) \<and>
    (\<forall>n. n \<notin> st_name ` set ts \<longrightarrow> sh_find (fold add_tensor ts s) n = sh_find s n)"
  using assms
proof (induction ts arbitrary: s)
  case (Cons t ts)
  note step = add_tensor_wf [OF Cons.prems(1), of t]
  have ih: "index_wf (fold add_tensor ts (add_tensor t s)) \<and>
    (\<forall>u \<in> set ts. sh_find (fold add_tensor ts (add_tensor t s)) (st_name u) = Some u) \<and>
    (\<forall>n. n \<notin> st_name ` set ts \<longrightarrow> sh_find (fold add_tensor ts (add_tensor t s)) n = sh_find (add_tensor t s) n)"
    using Cons.prems step by (intro Cons.IH) auto
  then show ?case using Cons.prems step by auto
qed simp

lemma placed_props:
  "map st_name (placed ds fi rel g) = map st_name g"
  "t \<in> set (placed ds fi rel g) \<Longrightarrow> st_numel t = dims_product (st_shape t)"
  by (induction ds fi rel g rule: placed.induct) (auto simp: moved_def)

lemma tensor_entry_props:
  "tensor_entry ds fi n meta = Inr t \<Longrightarrow> st_name t = n \<and> st_numel t = dims_product (st_shape t)"
  by (auto simp: tensor_entry_def and_then_Inr Let_def dims_product_def)

lemma index_entries_wf: "index_entries ds fi es s = Inr s' \<Longrightarrow> index_wf s \<Longrightarrow> index_wf s'"
proof (induction es arbitrary: s)
  case (Cons e es)
  obtain n meta where e: "e = (n, meta)" by force
  show ?case
  proof (cases "n = lit ''__metadata__''")
    case False
    then obtain t where t: "tensor_entry ds fi n meta = Inr t"
      and "index_entries ds fi es (s\<lparr>sh_tensors := sh_tensors s @ [t],
        sh_index := (sh_index s)(n \<mapsto> length (sh_tensors s))\<rparr>) = Inr s'"
      using Cons.prems(1) by (auto simp: e and_then_Inr)
    then have "index_entries ds fi es (add_tensor t s) = Inr s'"
      using tensor_entry_props [OF t] by (simp add: add_tensor_def)
    moreover have "index_wf (add_tensor t s)"
      using tensor_entry_props [OF t] Cons.prems(2) by (simp add: add_tensor_wf(1))
    ultimately show ?thesis by (rule Cons.IH)
  next
    case True
    then show ?thesis using Cons by (simp add: e)
  qed
qed simp

lemma index_file_wf:
  assumes "index_file f s = Inr s'" and "index_wf s"
  shows "index_wf s'"
proof -
  obtain ds fi es s1 where "index_entries ds fi es s = Inr s1" and s': "s' = s1\<lparr>sh_files := sh_files s1 @ [f]\<rparr>"
    using assms(1) by (auto simp: index_file_def Let_def and_then_Inr split: if_splits)
  then have "index_wf s1" using assms(2) by (blast intro: index_entries_wf)
  then show ?thesis by (simp add: s')
qed

lemma index_files_wf: "index_files fs s = Inr s' \<Longrightarrow> index_wf s \<Longrightarrow> index_wf s'"
  by (induction fs arbitrary: s) (auto simp: and_then_Inr dest: index_file_wf)

lemma shards_open_wf: "shards_open d = Inr s \<Longrightarrow> index_wf s"
  using index_files_wf [of _ no_shards] by (simp add: shards_open_def index_wf_def no_shards_def)

section \<open>Opening the written files\<close>

type_synonym written = "byte_string \<times> st_tensor list \<times> byte_string list"

definition written_file :: "written \<Rightarrow> byte_string \<times> byte_string" where
  "written_file w = (case w of (name, g, payload) \<Rightarrow> file_for name g payload)"

definition written_ok :: "written \<Rightarrow> bool" where
  "written_ok w \<longleftrightarrow> (case w of (name, g, payload) \<Rightarrow>
     length (group_header g) < 2 ^ 63 \<and> (\<forall>t \<in> set g. plain_name (st_name t) \<and> dims_small t) \<and>
     group_size g < 2 ^ 53)"

abbreviation names_of :: "written \<Rightarrow> byte_string list" where
  "names_of w \<equiv> map st_name (fst (snd w))"

lemma index_files_written:
  assumes "\<forall>w \<in> set ws. written_ok w" and "distinct (concat (map names_of ws))" and "index_wf s"
  shows "\<exists>s'. index_files (map written_file ws) s = Inr s' \<and>
    sh_files s' = sh_files s @ map written_file ws \<and>
    (\<forall>n. n \<notin> set (concat (map names_of ws)) \<longrightarrow> sh_find s' n = sh_find s n) \<and>
    (\<forall>k < length ws. \<forall>t \<in> set (placed (8 + hlen_of (fst (snd (ws ! k)))) (length (sh_files s) + k) 0 (fst (snd (ws ! k)))).
       sh_find s' (st_name t) = Some t)"
  using assms
proof (induction ws arbitrary: s)
  case (Cons w ws)
  obtain name g p where w: "w = (name, g, p)" by (cases w)
  let ?ts = "placed (8 + hlen_of g) (length (sh_files s)) 0 g"
  define s1 where "s1 = (fold add_tensor ?ts s)\<lparr>sh_files := sh_files s @ [written_file w]\<rparr>"
  have one: "index_file (written_file w) s = Inr s1"
    using Cons.prems(1,2) unfolding s1_def w written_file_def
    by (simp add: written_ok_def w index_file_for)
  have fold: "index_wf (fold add_tensor ?ts s) \<and> (\<forall>t \<in> set ?ts. sh_find (fold add_tensor ?ts s) (st_name t) = Some t) \<and>
    (\<forall>n. n \<notin> st_name ` set ?ts \<longrightarrow> sh_find (fold add_tensor ?ts s) n = sh_find s n)"
    using Cons.prems(2,3) placed_props by (intro fold_add_tensor) (auto simp: w)
  have names: "st_name ` set ?ts = set (names_of w)"
    using placed_props(1) [of "8 + hlen_of g" "length (sh_files s)" 0 g] by (metis list.set_map w fst_conv snd_conv)
  have "index_wf s1" using fold by (simp add: s1_def)
  then obtain s' where rest: "index_files (map written_file ws) s1 = Inr s'"
      "sh_files s' = sh_files s1 @ map written_file ws"
      "\<forall>n. n \<notin> set (concat (map names_of ws)) \<longrightarrow> sh_find s' n = sh_find s1 n"
      "\<forall>k < length ws. \<forall>t \<in> set (placed (8 + hlen_of (fst (snd (ws ! k)))) (length (sh_files s1) + k) 0 (fst (snd (ws ! k)))).
         sh_find s' (st_name t) = Some t"
    using Cons.IH [of s1] Cons.prems(1,2) by auto
  have len: "length (sh_files s1) = Suc (length (sh_files s))" by (simp add: s1_def)
  have head: "sh_find s' (st_name t) = Some t" if "t \<in> set ?ts" for t
  proof -
    have "st_name t \<in> set (names_of w)" using that names by blast
    then have "st_name t \<notin> set (concat (map names_of ws))" using Cons.prems(2) by auto
    then show ?thesis using rest(3) fold that by (simp add: s1_def)
  qed
  have outside: "sh_find s' n = sh_find s n" if "n \<notin> set (concat (map names_of (w # ws)))" for n
    using that rest(3) fold names by (simp add: s1_def)
  show ?case
  proof (intro exI conjI)
    show "index_files (map written_file (w # ws)) s = Inr s'" using one rest(1) by simp
    show "sh_files s' = sh_files s @ map written_file (w # ws)" using rest(2) by (simp add: s1_def)
    show "\<forall>n. n \<notin> set (concat (map names_of (w # ws))) \<longrightarrow> sh_find s' n = sh_find s n" using outside by blast
    show "\<forall>k < length (w # ws). \<forall>t \<in> set (placed (8 + hlen_of (fst (snd ((w # ws) ! k)))) (length (sh_files s) + k) 0
        (fst (snd ((w # ws) ! k)))). sh_find s' (st_name t) = Some t"
      using head rest(4) len by (auto simp: less_Suc_eq_0_disj w)
  qed
qed simp

lemma placed_append:
  "placed ds fi rel (g1 @ t # g2) = placed ds fi rel g1 @ moved ds fi (rel + sum_list (map st_nbytes g1)) t
     # placed ds fi (rel + sum_list (map st_nbytes g1) + st_nbytes t) g2"
  by (induction g1 arbitrary: rel) (simp_all add: add.assoc)

lemma unat_sum_nbytes:
  "group_size g < 2 ^ 53 \<Longrightarrow> unat (sum_list (map st_nbytes g)) = group_size g"
proof (induction g)
  case (Cons t g)
  then show ?case by (simp add: unat_add_no_wrap)
qed simp

lemma try_map_Inr: "try_map f xs = Inr ys \<longleftrightarrow> list_all2 (\<lambda>x y. f x = Inr y) xs ys"
proof (induction xs arbitrary: ys)
  case (Cons x xs)
  then show ?case by (cases ys) (auto simp: and_then_Inr)
qed auto

lemma concat_pack_groups: "concat (pack_groups m ts) = ts"
proof (induction m ts rule: pack_groups.induct)
  case (2 m t ts)
  obtain g r where gr: "pack_more m (st_nbytes t) ts = (g, r)" by force
  then have "concat (pack_groups m r) = r" using 2 by simp
  then show ?case using pack_more_append [of m "st_nbytes t" ts] by (simp add: gr)
qed simp

lemma length_read_raw: "read_raw s n out = Inr b \<Longrightarrow> length b = length out"
  by (auto simp: read_raw_def and_then_Inr Let_def pread_into_def read_exact_at_def split: if_splits)

definition tensor_payload :: "shards \<Rightarrow> st_tensor \<Rightarrow> byte_string \<Rightarrow> bool" where
  "tensor_payload s t b \<longleftrightarrow> read_raw s (st_name t) (replicate (unat (st_nbytes t)) 0) = Inr b"

lemma payload_length: "tensor_payload s t b \<Longrightarrow> length b = unat (st_nbytes t)"
  by (auto simp: tensor_payload_def dest: length_read_raw)

lemma payloads_length: "list_all2 (tensor_payload s) g p \<Longrightarrow> length (concat p) = group_size g"
  by (induction g p rule: list_all2_induct) (simp_all add: payload_length)

lemma write_groups_written:
  assumes "write_groups s n gs = Inr fs"
  shows "\<exists>ws. fs = map written_file ws \<and> map (\<lambda>w. fst (snd w)) ws = gs \<and>
    (\<forall>w \<in> set ws. list_all2 (tensor_payload s) (fst (snd w)) (snd (snd w)) \<and> (\<exists>i. fst w = out_name i))"
  using assms
proof (induction gs arbitrary: n fs)
  case (Cons g gs)
  then obtain f fs' where f: "group_file s n g = Inr f" and fs: "fs = f # fs'" "write_groups s (Suc n) gs = Inr fs'"
    by (auto simp: and_then_Inr)
  from Cons.IH [OF fs(2)] obtain ws where ws: "fs' = map written_file ws" "map (\<lambda>w. fst (snd w)) ws = gs"
    "\<forall>w \<in> set ws. list_all2 (tensor_payload s) (fst (snd w)) (snd (snd w)) \<and> (\<exists>i. fst w = out_name i)"
    by blast
  have pay: "tensor_payload s = (\<lambda>t b. read_raw s (st_name t) (replicate (unat (st_nbytes t)) 0) = Inr b)"
    by (simp add: fun_eq_iff tensor_payload_def)
  from f obtain p where p: "list_all2 (tensor_payload s) g p"
      and "f = (out_name n, to_le 8 (hlen_of g) @ group_header g @ concat p)"
    by (auto simp: group_file_def and_then_Inr try_map_Inr pay hlen_of_def Let_def)
  then have "f = written_file (out_name n, g, p)" by (simp add: written_file_def file_for_def)
  with p have "list_all2 (tensor_payload s) g p" "f = written_file (out_name n, g, p)" by simp_all
  then show ?case using ws fs(1) by (intro exI [of _ "(out_name n, g, p) # ws"]) auto
qed simp

lemma read_written:
  assumes "k < length (sh_files s)" and "sh_files s ! k = written_file (name, g1 @ t # g2, p1 @ b # p2)"
    and "length (group_header (g1 @ t # g2)) < 2 ^ 63" and "group_size (g1 @ t # g2) < 2 ^ 53"
    and "length (concat p1) = group_size g1" and "length b = unat (st_nbytes t)"
  shows "pread_into s k (8 + hlen_of (g1 @ t # g2) + sum_list (map st_nbytes g1)) (unat (st_nbytes t)) = Inr b"
proof -
  define hdr where "hdr = group_header (g1 @ t # g2)"
  define h where "h = hlen_of (g1 @ t # g2)"
  define r where "r = sum_list (map st_nbytes g1)"
  have h: "unat h = length hdr" "length hdr < 2 ^ 63"
    using assms(3) by (simp_all add: h_def hdr_def unat_hlen)
  have r: "unat r = length (concat p1)" "unat r < 2 ^ 53"
    using assms(4) unfolding assms(5) by (simp_all add: r_def unat_sum_nbytes)
  have "unat (8 + h) = 8 + unat h" using h by (simp add: unat_word_ariths)
  then have off: "unat (8 + h + r) = 8 + length hdr + length (concat p1)"
    using h r by (subst unat_add_no_wrap) simp_all
  define contents where "contents = to_le 8 h @ hdr @ concat (p1 @ b # p2)"
  have c: "snd (sh_files s ! k) = contents"
    unfolding assms(2) contents_def by (simp add: written_file_def file_for_def h_def hdr_def)
  have split: "contents = (to_le 8 h @ hdr @ concat p1) @ b @ concat p2" by (simp add: contents_def)
  have "length (to_le 8 h @ hdr @ concat p1) = unat (8 + h + r)" by (simp add: off)
  then have "take (length b) (drop (unat (8 + h + r)) contents) = b"
    "unat (8 + h + r) + length b \<le> length contents"
    unfolding split by simp_all
  then show ?thesis
    using assms(1,6) c by (auto simp: pread_into_def idx_def read_exact_at_def h_def r_def)
qed

lemma extension_out_name: "extension (out_name n) = Some (lit ''safetensors'')"
  by (simp add: extension_def out_name_def Let_def) (simp add: lit_def)

lemma insort_key_map: "map f (insort_key (\<lambda>x. k (f x)) x xs) = insort_key k (f x) (map f xs)"
  by (induction xs) simp_all

lemma sort_key_map: "map f (sort_key (\<lambda>x. k (f x)) xs) = sort_key k (map f xs)"
  by (induction xs) (simp_all add: sort_key_def insort_key_map)

text \<open>One exported tensor, found and read in the reopened snapshot.\<close>

definition same_tensor :: "shards \<Rightarrow> shards \<Rightarrow> byte_string \<Rightarrow> bool" where
  "same_tensor s s' n \<longleftrightarrow> (\<exists>t t'. sh_find s n = Some t \<and> sh_find s' n = Some t' \<and>
     st_dtype t' = st_dtype t \<and> st_shape t' = st_shape t \<and> st_numel t' = st_numel t \<and>
     st_nbytes t' = st_nbytes t \<and> (\<forall>out. read_raw s' n out = read_raw s n out))"

lemma written_same_tensor:
  assumes "index_wf s" and find: "sh_find s (st_name t) = Some t"
    and k: "k < length (sh_files s')" and f: "sh_files s' ! k = written_file (name, g1 @ t # g2, p)"
    and ok: "written_ok (name, g1 @ t # g2, p)" and p: "list_all2 (tensor_payload s) (g1 @ t # g2) p"
    and found: "\<forall>u \<in> set (placed (8 + hlen_of (g1 @ t # g2)) k 0 (g1 @ t # g2)). sh_find s' (st_name u) = Some u"
  shows "same_tensor s s' (st_name t)"
proof -
  let ?u = "moved (8 + hlen_of (g1 @ t # g2)) k (sum_list (map st_nbytes g1)) t"
  have "?u \<in> set (placed (8 + hlen_of (g1 @ t # g2)) k 0 (g1 @ t # g2))" by (simp add: placed_append)
  with found have u: "sh_find s' (st_name t) = Some ?u" by fastforce
  obtain p1 b p2 where pp: "p = p1 @ b # p2" "list_all2 (tensor_payload s) g1 p1" "tensor_payload s t b"
    using p by (auto simp: list_all2_append1 list_all2_Cons1)
  have read': "pread_into s' k (st_off ?u) (unat (st_nbytes t)) = Inr b"
    using read_written [OF k f [unfolded pp(1)], of] ok payloads_length [OF pp(2)] payload_length [OF pp(3)]
    by (simp add: written_ok_def moved_def)
  have read: "pread_into s (st_file t) (st_off t) (unat (st_nbytes t)) = Inr b"
    using pp(3) find by (auto simp: tensor_payload_def read_raw_def sh_tensor_def and_then_Inr Let_def)
  have "read_raw s' (st_name t) out = read_raw s (st_name t) out" for out
    using read read' u find by (simp add: read_raw_def sh_tensor_def moved_def Let_def)
  then show ?thesis
    using u find index_wf_find [OF assms(1) find] by (auto simp: same_tensor_def moved_def)
qed

lemma reopen_written:
  assumes "index_wf s" and ok: "\<forall>w \<in> set ws. written_ok w" and d: "distinct (concat (map names_of ws))"
    and pay: "\<forall>w \<in> set ws. list_all2 (tensor_payload s) (fst (snd w)) (snd (snd w)) \<and> (\<exists>i. fst w = out_name i)"
    and find: "\<forall>w \<in> set ws. \<forall>t \<in> set (fst (snd w)). sh_find s (st_name t) = Some t"
  shows "\<exists>s'. shards_open (map written_file ws) = Inr s' \<and>
    (\<forall>n \<in> set (concat (map names_of ws)). same_tensor s s' n)"
proof -
  define ws' where "ws' = sort_key (\<lambda>w. fst (written_file w)) ws"
  have set: "set ws' = set ws" and m: "mset ws' = mset ws" by (simp_all add: ws'_def)
  have "extension (fst (written_file w)) = Some (lit ''safetensors'')" if "w \<in> set ws" for w
    using pay that extension_out_name by (auto simp: written_file_def file_for_def split: prod.splits)
  then have all: "filter (\<lambda>f. extension (fst f) = Some (lit ''safetensors'')) (map written_file ws) = map written_file ws"
    by (simp add: filter_id_conv)
  have open': "shards_open (map written_file ws) = index_files (map written_file ws') no_shards"
    unfolding shards_open_def all ws'_def by (simp add: sort_key_map [of written_file fst])
  have "mset (concat (map names_of ws')) = mset (concat (map names_of ws))"
  proof -
    have "mset (concat (map names_of xs)) = \<Sum>\<^sub># (image_mset (\<lambda>w. mset (names_of w)) (mset xs))" for xs
      by (induction xs) simp_all
    then show ?thesis by (simp only: m)
  qed
  then have d': "distinct (concat (map names_of ws'))" using d mset_eq_imp_distinct_iff by blast
  have "index_wf no_shards" by (simp add: index_wf_def no_shards_def)
  from index_files_written [OF _ d' this] ok set obtain s' where s': "index_files (map written_file ws') no_shards = Inr s'"
    and files: "sh_files s' = map written_file ws'"
    and found: "\<And>k. k < length ws' \<Longrightarrow> \<forall>t \<in> set (placed (8 + hlen_of (fst (snd (ws' ! k)))) k 0 (fst (snd (ws' ! k)))).
       sh_find s' (st_name t) = Some t"
    by (auto simp: no_shards_def)
  have "same_tensor s s' n" if n: "n \<in> set (concat (map names_of ws))" for n
  proof -
    from n obtain w t where w: "w \<in> set ws'" and t: "t \<in> set (fst (snd w))" "n = st_name t" by (auto simp: set)
    from w obtain k where k: "k < length ws'" "ws' ! k = w" by (auto simp: in_set_conv_nth)
    from t(1) obtain g1 g2 where g: "fst (snd w) = g1 @ t # g2" by (auto dest: split_list)
    obtain name p where wp: "w = (name, g1 @ t # g2, p)" using g by (cases w) auto
    have "same_tensor s s' (st_name t)"
    proof (rule written_same_tensor [OF assms(1)])
      show "sh_find s (st_name t) = Some t" using find w t set by blast
      show "sh_files s' ! k = written_file (name, g1 @ t # g2, p)" using files k wp by simp
      show "written_ok (name, g1 @ t # g2, p)" using ok w wp set by auto
      show "list_all2 (tensor_payload s) (g1 @ t # g2) p" using pay w wp set by fastforce
      show "\<forall>u \<in> set (placed (8 + hlen_of (g1 @ t # g2)) k 0 (g1 @ t # g2)). sh_find s' (st_name u) = Some u"
        using found [OF k(1)] k(2) wp by simp
    qed (use files k in simp)
    then show ?thesis by (simp add: t(2))
  qed
  then show ?thesis using open' s' by auto
qed

lemma exported_items:
  assumes "index_wf s" and "list_all2 (\<lambda>n t. sh_tensor s n = Inr t) names items"
  shows "map st_name items = names" and "t \<in> set items \<Longrightarrow> sh_find s (st_name t) = Some t"
    and "group_size items = sum_list (map (\<lambda>n. unat (st_nbytes (the (sh_find s n)))) names)"
proof -
  have l: "list_all2 (\<lambda>n t. sh_find s n = Some t \<and> st_name t = n) names items"
    using assms(2) by (rule list_all2_mono) (auto simp: sh_tensor_def dest: index_wf_find [OF assms(1)])
  then show "map st_name items = names" by (induction names items rule: list_all2_induct) simp_all
  from l show "t \<in> set items \<Longrightarrow> sh_find s (st_name t) = Some t"
    by (induction names items rule: list_all2_induct) auto
  from l show "group_size items = sum_list (map (\<lambda>n. unat (st_nbytes (the (sh_find s n)))) names)"
    by (induction names items rule: list_all2_induct) simp_all
qed

lemma sum_list_concat_member:
  fixes f :: "'a \<Rightarrow> nat"
  shows "xs \<in> set xss \<Longrightarrow> sum_list (map f xs) \<le> sum_list (map f (concat xss))"
  by (induction xss) (auto simp: le_add1 trans_le_add2)

text \<open>
  C29: An exported snapshot reads back.  Whatever a snapshot directory \<open>write_subset\<close> exported (any
  number of files, any size cap), opening the files it wrote succeeds and finds every exported name
  with the same element type, shape, element count and size, and a raw read of it gives the same
  result, bytes included, as in the original snapshot.  The names are distinct strings without
  quotes or backslashes, shapes and total size are below \<open>2 ^ 53\<close> (the header's numbers pass through
  an \<open>f64\<close>) and each file is below \<open>2 ^ 63\<close> bytes.
\<close>

theorem export_round_trip:
  assumes opened: "shards_open d = Inr s" and written: "write_subset s names cap = Inr files"
    and dn: "distinct names" and plain: "\<forall>n \<in> set names. plain_name n"
    and dims: "\<forall>n \<in> set names. \<forall>t. sh_find s n = Some t \<longrightarrow> dims_small t"
    and size: "sum_list (map (\<lambda>n. unat (st_nbytes (the (sh_find s n)))) names) < 2 ^ 53"
    and len: "\<forall>f \<in> set files. length (snd f) < 2 ^ 63"
  shows "\<exists>s'. shards_open files = Inr s' \<and> (\<forall>n \<in> set names. same_tensor s s' n)"
proof -
  have wf: "index_wf s" using opened by (rule shards_open_wf)
  obtain items where items: "list_all2 (\<lambda>n t. sh_tensor s n = Inr t) names items"
    and wg: "write_groups s 0 (pack_groups cap items) = Inr files"
    using written by (auto simp: write_subset_def and_then_Inr try_map_Inr)
  note it = exported_items [OF wf items]
  obtain ws where ws: "files = map written_file ws" "map (\<lambda>w. fst (snd w)) ws = pack_groups cap items"
    "\<forall>w \<in> set ws. list_all2 (tensor_payload s) (fst (snd w)) (snd (snd w)) \<and> (\<exists>i. fst w = out_name i)"
    using write_groups_written [OF wg] by blast
  have items_ws: "concat (map (\<lambda>w. fst (snd w)) ws) = items" unfolding ws(2) by (rule concat_pack_groups)
  have names_ws: "concat (map names_of ws) = names"
    using it(1) unfolding items_ws [symmetric] by (simp add: map_concat comp_def)
  have mem: "t \<in> set items" if "w \<in> set ws" "t \<in> set (fst (snd w))" for w t
    using that items_ws by auto
  have "written_ok w" if w: "w \<in> set ws" for w
  proof -
    obtain name g p where wp: "w = (name, g, p)" by (cases w)
    have "length (snd (written_file w)) < 2 ^ 63" using len w ws(1) by simp
    then have "length (group_header g) < 2 ^ 63" by (simp add: wp written_file_def file_for_def)
    moreover have "group_size g \<le> group_size items"
      using sum_list_concat_member [of g "map (\<lambda>w. fst (snd w)) ws" "\<lambda>t. unat (st_nbytes t)"] w
      unfolding items_ws by (force simp: wp)
    moreover have "plain_name (st_name t) \<and> dims_small t" if "t \<in> set g" for t
    proof -
      have t: "t \<in> set items" using mem [OF w] that by (simp add: wp)
      then have "st_name t \<in> set names" using it(1) by auto
      then show ?thesis using plain dims it(2) [OF t] by blast
    qed
    ultimately show ?thesis using size it(3) by (simp add: written_ok_def wp)
  qed
  then show ?thesis
    using reopen_written [OF wf, of ws] dn names_ws ws it(2) mem by auto
qed

definition tiny_entry :: st_tensor where
  "tiny_entry = \<lparr>st_name = lit ''w'', st_file = 0, st_off = 0, st_nbytes = 2, st_dtype = U8, st_numel = 2,
     st_shape = [2]\<rparr>"

definition tiny_dir :: dir where
  "tiny_dir = [written_file (out_name 0, [tiny_entry], [[7, 8]])]"

definition tiny_shards :: shards where
  "tiny_shards = (add_tensor (moved (8 + hlen_of [tiny_entry]) 0 0 tiny_entry) no_shards)\<lparr>sh_files := tiny_dir\<rparr>"

lemma tiny_header: "length (group_header [tiny_entry]) = 53"
  by (simp add: group_header_def header_entry_def tiny_entry_def in_quotes_def lit_def show_int_def
      show_digits_def show_dec.simps)

lemma tiny_name: "plain_name (lit ''w'')"
  by (simp add: plain_name_def lit_def utf8_step_def utf8_width_def)

lemma tiny_open: "shards_open tiny_dir = Inr tiny_shards"
proof -
  have "index_file (written_file (out_name 0, [tiny_entry], [[7, 8]])) no_shards = Inr tiny_shards"
    unfolding written_file_def prod.case
    by (subst index_file_for)
      (use tiny_name in \<open>simp_all add: tiny_header, simp_all add: tiny_entry_def dims_small_def tiny_shards_def
        tiny_dir_def written_file_def no_shards_def\<close>)
  then show ?thesis
    by (simp add: shards_open_def tiny_dir_def written_file_def file_for_def extension_out_name)
qed

lemma tiny_find: "sh_find tiny_shards (lit ''w'') = Some (moved (8 + hlen_of [tiny_entry]) 0 0 tiny_entry)"
proof -
  have "index_wf no_shards" by (simp add: index_wf_def no_shards_def)
  from add_tensor_wf(2) [OF this] show ?thesis
    by (simp add: tiny_shards_def moved_def) (simp add: tiny_entry_def)
qed

lemma tiny_read: "read_raw tiny_shards (lit ''w'') [0, 0] = Inr [7, 8]"
proof -
  have g: "group_size [tiny_entry] < 2 ^ 53" "length [7, 8 :: u8] = unat (st_nbytes tiny_entry)"
    by (simp_all add: tiny_entry_def)
  have "pread_into tiny_shards 0 (8 + hlen_of [tiny_entry]) (unat (st_nbytes tiny_entry)) = Inr [7, 8]"
    using read_written [of 0 tiny_shards "out_name 0" "[]" tiny_entry "[]" "[]" "[7, 8]" "[]"] g
    by (simp add: tiny_header tiny_shards_def tiny_dir_def)
  then show ?thesis
    by (simp add: read_raw_def sh_tensor_def tiny_find moved_def) (simp add: tiny_entry_def)
qed

lemma tiny_write:
  "write_subset tiny_shards [lit ''w''] 100 =
    Inr [written_file (out_name 0, [moved (8 + hlen_of [tiny_entry]) 0 0 tiny_entry], [[7, 8]])]"
proof -
  define t where "t = moved (8 + hlen_of [tiny_entry]) 0 0 tiny_entry"
  have t: "st_name t = lit ''w''" "st_nbytes t = 2" by (simp_all add: t_def moved_def tiny_entry_def)
  have f: "sh_find tiny_shards (lit ''w'') = Some t" by (simp add: t_def tiny_find)
  have z: "replicate 2 (0 :: u8) = [0, 0]" by (simp add: numeral_2_eq_2)
  show ?thesis unfolding t_def [symmetric]
    by (simp add: write_subset_def sh_tensor_def f group_file_def t z tiny_read written_file_def
        file_for_def hlen_of_def Let_def)
qed

theorem export_round_trip_witness:
  "\<exists>files s'. write_subset tiny_shards [lit ''w''] 100 = Inr files \<and> shards_open files = Inr s' \<and>
    same_tensor tiny_shards s' (lit ''w'')"
proof -
  have "length (snd (written_file (out_name 0, [moved (8 + hlen_of [tiny_entry]) 0 0 tiny_entry], [[7, 8]]))) = 63"
    using tiny_header by (simp add: written_file_def file_for_def group_header_def header_entry_def moved_def)
  then have "\<exists>s'. shards_open [written_file (out_name 0, [moved (8 + hlen_of [tiny_entry]) 0 0 tiny_entry], [[7, 8]])]
      = Inr s' \<and> (\<forall>n \<in> set [lit ''w'']. same_tensor tiny_shards s' n)"
    by (intro export_round_trip [OF tiny_open tiny_write])
      (simp_all add: tiny_name tiny_find, simp_all add: moved_def tiny_entry_def dims_small_def)
  then show ?thesis using tiny_write by auto
qed

end
