(* ===== verification/SpanRead.thy ===== *)
theory SpanRead
  imports Safetensors Text
begin

text \<open>
  The expert read path of \<open>colibri-safetensors\<close> for one group of tensors: coalescing adjacent tensors
  into one span, the page-residency gate of the mapped path and the chunked read of
  \<open>read_raw_shared\<close>.  The batch of groups is in \<open>BatchRead\<close>.

  What the operating system answers is an argument: \<open>pages\<close> says which spans the residency gate
  passes.  The bytes of a mapped file are the bytes of the file.  The profiling counters are not
  modelled.
\<close>

section \<open>Coalescing\<close>

text \<open>An item is the input position of a name with the file, offset and size of its tensor.\<close>

type_synonym item = "nat \<times> nat \<times> u64 \<times> u64"

definition meta_of :: "shards \<Rightarrow> byte_string list \<Rightarrow> st_error + (nat \<times> u64 \<times> u64) list" where
  "meta_of s names = try_map (\<lambda>nm. and_then (sh_tensor s nm) (\<lambda>t. Inr (st_file t, st_off t, st_nbytes t))) names"

definition in_file_order :: "(nat \<times> u64 \<times> u64) list \<Rightarrow> item list" where
  "in_file_order meta = sort_key (\<lambda>(i, f, o', nb). (f, o')) (enumerate 0 meta)"

fun grow_span :: "nat \<Rightarrow> u64 \<Rightarrow> item list \<Rightarrow> item list \<times> item list \<times> u64" where
  "grow_span file span_end [] = ([], [], span_end)"
| "grow_span file span_end ((i, f, off, nb) # xs) =
     (if f = file \<and> off = span_end
      then (let (g, r, e) = grow_span file (off + nb) xs in ((i, f, off, nb) # g, r, e))
      else ([], (i, f, off, nb) # xs, span_end))"

lemma grow_span_append: "grow_span fl e xs = (g, r, e') \<Longrightarrow> xs = g @ r"
  by (induction fl e xs arbitrary: g r e' rule: grow_span.induct)
    (auto split: if_splits prod.splits)

text \<open>A coalesced span: its file, first offset, end offset and items.\<close>

function coalesce :: "item list \<Rightarrow> (nat \<times> u64 \<times> u64 \<times> item list) list" where
  "coalesce [] = []"
| "coalesce ((i, f, off, nb) # xs) =
     (let (g, r, e) = grow_span f (off + nb) xs in (f, off, e, (i, f, off, nb) # g) # coalesce r)"
  by pat_completeness auto
termination
proof (relation "measure length", goal_cases)
  case (2 i f off nb xs p g q r e)
  then have "xs = g @ r" by (metis grow_span_append)
  then show ?case by simp
qed simp

section \<open>The residency gate\<close>

text \<open>
  \<open>Mapping::resident\<close> on a mapping of \<open>map_len\<close> bytes: \<open>core p\<close> is the answer of \<open>mincore\<close> for page
  \<open>p\<close> of the file (false also when the call fails), \<open>k\<close> the sample size.
\<close>

definition sampled_pages :: "nat \<Rightarrow> nat \<Rightarrow> nat list" where
  "sampled_pages pages k = map (\<lambda>i. i * (pages - 1) div max (k - 1) 1) [0..<k]"

definition resident_span :: "(nat \<Rightarrow> bool) \<Rightarrow> nat \<Rightarrow> nat \<Rightarrow> nat \<Rightarrow> nat \<Rightarrow> bool" where
  "resident_span core k map_len off len =
     (if len = 0 \<or> map_len < min (off + len) (2 ^ 64 - 1) then False
      else let start = off div 4096 * 4096; pages = (off + len - start + 4095) div 4096
        in if 0 < k \<and> k < pages then list_all (\<lambda>p. core (start div 4096 + p)) (sampled_pages pages k)
           else list_all (\<lambda>p. core (start div 4096 + p)) [0..<pages])"

definition mincore_sample :: "str option \<Rightarrow> nat" where
  "mincore_sample v = (case Option.bind v (parse_uint (2 ^ 64) 10) of Some n \<Rightarrow> n | None \<Rightarrow> 8)"

definition parse_sub_kb :: "str option \<Rightarrow> nat" where
  "parse_sub_kb v =
     (case Option.bind v (\<lambda>s. parse_uint (2 ^ 64) 10 (trim s)) of
        None \<Rightarrow> 2 * 2 ^ 20
      | Some kb \<Rightarrow> (let b = min (kb * 1024) (2 ^ 64 - 1) div 512 * 512 in if 512 \<le> b then b else 2 * 2 ^ 20))"

text \<open>What the environment settles before a read: the mapped path, its sample size, the pages.\<close>

record read_env =
  mmap_on :: bool
  sample :: nat
  core_pages :: "nat \<Rightarrow> nat \<Rightarrow> bool"
  o_direct :: bool
  direct_fd :: "nat \<Rightarrow> bool"
  sub_bytes :: nat

definition mapped_view :: "read_env \<Rightarrow> shards \<Rightarrow> nat \<Rightarrow> u64 \<Rightarrow> nat \<Rightarrow> byte_string option" where
  "mapped_view env s file off len =
     (if \<not> mmap_on env then None
      else case idx (sh_files s) file of
        None \<Rightarrow> None
      | Some f \<Rightarrow>
          if snd f \<noteq> [] \<and> resident_span (core_pages env file) (sample env) (length (snd f)) (unat off) len
          then Some (take len (drop (unat off) (snd f))) else None)"

section \<open>Chunked reads\<close>

fun chunk_starts :: "nat \<Rightarrow> nat \<Rightarrow> nat \<Rightarrow> nat \<Rightarrow> (nat \<times> nat) list" where
  "chunk_starts 0 per len start = []"
| "chunk_starts (Suc fuel) per len start =
     (if start < len then (start, min per (len - start)) # chunk_starts fuel per len (start + min per (len - start))
      else [])"

text \<open>
  Every chunk is read by its own thread into its own part of the buffer; if any fails the call
  fails with one of the errors.
\<close>

definition pread_chunked :: "shards \<Rightarrow> nat \<Rightarrow> u64 \<Rightarrow> nat \<Rightarrow> nat \<Rightarrow> st_error + byte_string" where
  "pread_chunked s file off len nthreads =
     (let nt = max (min nthreads (len div 2 ^ 20)) 1
      in if nt \<le> 1 then pread_into s file off len
         else let per = (len + nt - 1) div nt
           in and_then (try_map (\<lambda>(start, clen). pread_into s file (off + of_nat start) clen)
                  (chunk_starts len per len 0))
                (\<lambda>bs. Inr (concat bs)))"

section \<open>Reading several tensors through shared buffers\<close>

text \<open>A view is a shared buffer with an offset and a length.\<close>

type_synonym view = "byte_string \<times> nat \<times> nat"

definition put_at :: "(nat \<times> 'a) list \<Rightarrow> 'a option list \<Rightarrow> 'a option list" where
  "put_at kvs r = fold (\<lambda>(i, v) r. r[i := v]) (map (\<lambda>(i, v). (i, Some v)) kvs) r"

definition span_len :: "u64 \<Rightarrow> u64 \<Rightarrow> nat" where
  "span_len off0 span_end = unat (span_end - off0)"

definition read_span :: "read_env \<Rightarrow> shards \<Rightarrow> nat \<Rightarrow> nat \<times> u64 \<times> u64 \<times> item list \<Rightarrow>
    st_error + (nat \<times> view) list" where
  "read_span env s nthreads sp = (case sp of (file, off0, span_end, items) \<Rightarrow>
     and_then (case mapped_view env s file off0 (span_len off0 span_end) of
         Some buf \<Rightarrow> Inr buf
       | None \<Rightarrow> pread_chunked s file off0 (span_len off0 span_end) nthreads)
       (\<lambda>buf. Inr (map (\<lambda>(i, f, off, nb). (i, buf, unat (off - off0), unat nb)) items)))"

definition unwrap_all :: "'a option list \<Rightarrow> st_error + 'a list" where
  "unwrap_all r = ok_or Panicked (those r)"

definition read_raw_shared :: "read_env \<Rightarrow> shards \<Rightarrow> byte_string list \<Rightarrow> nat \<Rightarrow> st_error + view list" where
  "read_raw_shared env s names nthreads =
     and_then (meta_of s names) (\<lambda>meta.
       and_then (try_map (read_span env s nthreads) (coalesce (in_file_order meta))) (\<lambda>vss.
         unwrap_all (put_at (concat vss) (replicate (length names) None))))"

section \<open>Chunked reads are plain reads\<close>

lemma pread_at:
  assumes "idx (sh_files s) fl = Some f" and "unat off + start < 2 ^ 64"
  shows "pread_into s fl (off + of_nat start) n = read_exact_at (snd f) (unat off + start) n"
proof -
  have "unat (of_nat start :: u64) = start" using assms(2) by (simp add: unat_of_nat)
  then have "unat (off + of_nat start) = unat off + start"
    using assms(2) by (subst unat_add_no_wrap) simp_all
  then show ?thesis using assms(1) by (simp add: pread_into_def)
qed

lemma chunks_read:
  assumes f: "idx (sh_files s) fl = Some f" and "unat off + len < 2 ^ 64" and "0 < per"
    and "len - start \<le> fuel" and "start \<le> len"
  shows "and_then (try_map (\<lambda>(start, clen). pread_into s fl (off + of_nat start) clen)
      (chunk_starts fuel per len start)) (\<lambda>bs. Inr (concat bs))
    = read_exact_at (snd f) (unat off + start) (len - start)"
  using assms(4,5)
proof (induction fuel arbitrary: start)
  case 0
  then show ?case by (simp add: read_exact_at_def)
next
  case (Suc fuel)
  show ?case
  proof (cases "start < len")
    case True
    define c where "c = min per (len - start)"
    have c: "0 < c" "start + c \<le> len" using True assms(3) by (auto simp: c_def)
    have ih: "and_then (try_map (\<lambda>(start, clen). pread_into s fl (off + of_nat start) clen)
        (chunk_starts fuel per len (start + c))) (\<lambda>bs. Inr (concat bs))
      = read_exact_at (snd f) (unat off + (start + c)) (len - (start + c))"
      using c Suc.prems by (intro Suc.IH) simp_all
    have first: "pread_into s fl (off + of_nat start) c = read_exact_at (snd f) (unat off + start) c"
      using assms(2) True by (intro pread_at [OF f]) simp
    have split: "take (len - start) (drop (unat off + start) (snd f)) =
        take c (drop (unat off + start) (snd f)) @ take (len - (start + c)) (drop (unat off + (start + c)) (snd f))"
      using take_add [of c "len - (start + c)" "drop (unat off + start) (snd f)"] c
      by (simp add: add.commute add.left_commute)
    show ?thesis
    proof (cases "try_map (\<lambda>(start, clen). pread_into s fl (off + of_nat start) clen)
        (chunk_starts fuel per len (start + c))")
      case (Inl e)
      then show ?thesis using ih True first c
        by (auto simp: c_def [symmetric] read_exact_at_def split: if_splits)
    next
      case (Inr bs)
      then show ?thesis using ih True first c split
        by (auto simp: c_def [symmetric] read_exact_at_def split: if_splits)
    qed
  next
    case False
    then show ?thesis using Suc.prems by (simp add: read_exact_at_def)
  qed
qed

lemma pread_chunked_plain:
  assumes "idx (sh_files s) fl = Some f" and "unat off + len < 2 ^ 64"
  shows "pread_chunked s fl off len nthreads = read_exact_at (snd f) (unat off) len"
proof -
  define nt where "nt = max (min nthreads (len div 2 ^ 20)) 1"
  have plain: "pread_into s fl off len = read_exact_at (snd f) (unat off) len"
    using assms(1) by (simp add: pread_into_def)
  have "0 < (len + nt - 1) div nt" if "\<not> nt \<le> 1"
  proof -
    have "nt \<le> len" using that by (auto simp: nt_def max_def min_def intro: order_trans [OF _ div_le_dividend])
    then show ?thesis using that by (simp add: div_greater_zero_iff)
  qed
  then show ?thesis
    unfolding pread_chunked_def nt_def [symmetric] Let_def
    using plain chunks_read [OF assms, of "(len + nt - 1) div nt" 0 len] by simp
qed

section \<open>Spans\<close>

fun chain :: "nat \<Rightarrow> u64 \<Rightarrow> item list \<Rightarrow> u64 \<Rightarrow> bool" where
  "chain fl a [] e \<longleftrightarrow> a = e"
| "chain fl a ((i, f, off, nb) # xs) e \<longleftrightarrow> f = fl \<and> off = a \<and> chain fl (off + nb) xs e"

lemma grow_span_chain: "grow_span fl a xs = (g, r, e) \<Longrightarrow> chain fl a g e"
  by (induction fl a xs arbitrary: g r e rule: grow_span.induct) (auto split: if_splits prod.splits)

lemma coalesce_spans:
  "concat (map (\<lambda>(f, a, e, g). g) (coalesce xs)) = xs \<and>
   (\<forall>(f, a, e, g) \<in> set (coalesce xs). chain f a g e \<and> g \<noteq> [])"
proof (induction xs rule: coalesce.induct)
  case (2 i f off nb xs)
  obtain g r e where g: "grow_span f (off + nb) xs = (g, r, e)" by (cases "grow_span f (off + nb) xs")
  have "concat (map (\<lambda>(f, a, e, g). g) (coalesce r)) = r \<and>
      (\<forall>(f, a, e, g) \<in> set (coalesce r). chain f a g e \<and> g \<noteq> [])"
    using 2 [OF refl] g by simp
  then show ?case using g grow_span_append [OF g] grow_span_chain [OF g] by simp
qed simp

text \<open>Items that fit 64 bits, chained, lie inside their span.\<close>

lemma chain_inside:
  assumes "chain fl a g e" and "\<forall>(i, f, off, nb) \<in> set g. unat off + unat nb < 2 ^ 64"
  shows "unat a \<le> unat e \<and> (\<forall>(i, f, off, nb) \<in> set g. f = fl \<and> unat a \<le> unat off \<and> unat off + unat nb \<le> unat e)"
  using assms
proof (induction fl a g e rule: chain.induct)
  case (2 fl a i f off nb xs e)
  then have sum: "unat (off + nb) = unat off + unat nb" by (intro unat_add_no_wrap) simp
  have "unat (off + nb) \<le> unat e \<and>
    (\<forall>(i, f, off', nb') \<in> set xs. f = fl \<and> unat (off + nb) \<le> unat off' \<and> unat off' + unat nb' \<le> unat e)"
    by (rule "2.IH") (use "2.prems" in auto)
  then show ?case using "2.prems" sum by fastforce
qed simp

section \<open>Views are the tensors\<close>

text \<open>A name that is indexed and lies inside its file.\<close>

definition readable :: "shards \<Rightarrow> byte_string \<Rightarrow> bool" where
  "readable s n \<longleftrightarrow> (case sh_find s n of None \<Rightarrow> False | Some t \<Rightarrow>
     (case idx (sh_files s) (st_file t) of None \<Rightarrow> False | Some f \<Rightarrow>
       unat (st_off t) + unat (st_nbytes t) \<le> length (snd f) \<and> length (snd f) < 2 ^ 63))"

definition tensor_bytes :: "shards \<Rightarrow> byte_string \<Rightarrow> byte_string" where
  "tensor_bytes s n = (let t = the (sh_find s n)
     in take (unat (st_nbytes t)) (drop (unat (st_off t)) (snd (sh_files s ! st_file t))))"

lemma readable_read_raw:
  assumes "readable s n"
  shows "read_raw s n (replicate (length (tensor_bytes s n)) 0) = Inr (tensor_bytes s n)"
  using assms
  by (auto simp: readable_def tensor_bytes_def read_raw_def sh_tensor_def pread_into_def read_exact_at_def
      idx_def Let_def split: option.splits if_splits)

definition item_ok :: "shards \<Rightarrow> byte_string list \<Rightarrow> item \<Rightarrow> bool" where
  "item_ok s names it = (case it of (i, fl, off, nb) \<Rightarrow>
     i < length names \<and> fl < length (sh_files s) \<and>
     unat off + unat nb \<le> length (snd (sh_files s ! fl)) \<and> length (snd (sh_files s ! fl)) < 2 ^ 63 \<and>
     take (unat nb) (drop (unat off) (snd (sh_files s ! fl))) = tensor_bytes s (names ! i))"

lemma items_of_names:
  assumes "\<forall>n \<in> set names. readable s n"
  shows "\<exists>meta. meta_of s names = Inr meta \<and> length meta = length names \<and>
    (\<forall>it \<in> set (in_file_order meta). item_ok s names it) \<and>
    distinct (map fst (in_file_order meta)) \<and> set (map fst (in_file_order meta)) = {..<length names}"
proof -
  define meta where "meta = map (\<lambda>n. let t = the (sh_find s n) in (st_file t, st_off t, st_nbytes t)) names"
  have "list_all2 (\<lambda>nm y. and_then (sh_tensor s nm) (\<lambda>t. Inr (st_file t, st_off t, st_nbytes t)) = Inr y) names meta"
    using assms unfolding meta_def list_all2_map2
    by (auto simp: list_all2_same readable_def sh_tensor_def Let_def split: option.splits)
  then have m: "meta_of s names = Inr meta" by (simp add: meta_of_def try_map_Inr)
  have perm: "mset (in_file_order meta) = mset (enumerate 0 meta)" by (simp add: in_file_order_def)
  then have set: "set (in_file_order meta) = set (enumerate 0 meta)" using mset_eq_setD by blast
  have "mset (map fst (in_file_order meta)) = mset (map fst (enumerate 0 meta))"
    unfolding mset_map perm by (rule refl)
  also have "map fst (enumerate 0 meta) = [0..<length names]" by (simp add: meta_def)
  finally have "mset (map fst (in_file_order meta)) = mset [0..<length names]" .
  then have "distinct (map fst (in_file_order meta)) \<and> set (map fst (in_file_order meta)) = {..<length names}"
    by (metis atLeast0LessThan atLeastLessThan_upt distinct_upt mset_eq_imp_distinct_iff mset_eq_setD)
  moreover have "item_ok s names it" if "it \<in> set (in_file_order meta)" for it
  proof -
    define i where "i = fst it"
    have "fst it < length meta \<and> meta ! fst it = snd it" using that by (simp add: set in_set_enumerate_eq)
    moreover have "length meta = length names" by (simp add: meta_def)
    ultimately have i: "i < length names" "it = (i, meta ! i)" unfolding i_def by (simp_all del: split_paired_all)
    then have "readable s (names ! i)" using assms by simp
    then show ?thesis using i
      by (auto simp: item_ok_def meta_def readable_def tensor_bytes_def idx_def Let_def split: option.splits if_splits)
  qed
  ultimately show ?thesis using m by (intro exI [of _ meta]) (simp add: meta_def)
qed

lemma fold_update_nth:
  assumes "distinct (map fst kvs)" and "(i, v) \<in> set kvs" and "i < length r"
  shows "fold (\<lambda>(i, v) r. r[i := v]) kvs r ! i = v"
  using assms
proof (induction kvs arbitrary: r)
  case (Cons kv kvs)
  obtain k w where kv: "kv = (k, w)" by force
  have other: "fold (\<lambda>(i, v) r. r[i := v]) kvs r' ! i = r' ! i" if "i \<notin> fst ` set kvs" for r'
    using that by (induction kvs arbitrary: r') auto
  show ?case
  proof (cases "(i, v) = kv")
    case True
    then show ?thesis using Cons.prems other [of "r[i := v]"] by auto
  next
    case False
    then show ?thesis using Cons by (auto simp: kv)
  qed
qed simp

lemma put_at_nth:
  assumes "distinct (map fst kvs)" and "(i, v) \<in> set kvs" and "i < length r"
  shows "put_at kvs r ! i = Some v"
proof -
  have "map fst (map (\<lambda>(i, v). (i, Some v)) kvs) = map fst kvs" by (simp add: comp_def split_beta)
  then have "distinct (map fst (map (\<lambda>(i, v). (i, Some v)) kvs))" using assms(1) by (simp only:)
  moreover have "(i, Some v) \<in> set (map (\<lambda>(i, v). (i, Some v)) kvs)" using assms(2) by force
  ultimately show ?thesis unfolding put_at_def using assms(3) by (rule fold_update_nth)
qed

lemma length_fold_update [simp]: "length (fold (\<lambda>(i, v) r. r[i := v]) kvs r) = length r"
  by (induction kvs arbitrary: r) auto

lemma length_put_at [simp]: "length (put_at kvs r) = length r"
  by (simp add: put_at_def)

text \<open>One span, read whole: each of its items is the slice the view names.\<close>

lemma mapped_view_bytes:
  assumes "mapped_view env s fl off len = Some buf"
    and "fl < length (sh_files s)" and "length (snd (sh_files s ! fl)) < 2 ^ 63"
  shows "buf = take len (drop (unat off) (snd (sh_files s ! fl)))"
  using assms by (auto simp: mapped_view_def idx_def split: if_splits)

definition view_ok :: "shards \<Rightarrow> byte_string list \<Rightarrow> nat \<times> view \<Rightarrow> bool" where
  "view_ok s names iv = (case iv of (i, buf, off, len) \<Rightarrow>
     take len (drop off buf) = tensor_bytes s (names ! i) \<and> len = length (tensor_bytes s (names ! i)) \<and>
     off + len \<le> length buf)"

lemma span_extent:
  assumes "chain fl off0 items e" and "items \<noteq> []" and "\<forall>it \<in> set items. item_ok s names it"
  shows "fl < length (sh_files s)" and "length (snd (sh_files s ! fl)) < 2 ^ 63"
    and "unat off0 + span_len off0 e \<le> length (snd (sh_files s ! fl))"
    and "(i, f, off, nb) \<in> set items \<Longrightarrow> unat (off - off0) + unat nb \<le> span_len off0 e \<and>
      unat off = unat off0 + unat (off - off0) \<and> f = fl"
proof -
  have fits: "\<forall>(i, f, off, nb) \<in> set items. unat off + unat nb < 2 ^ 64"
    using assms(3) by (fastforce simp: item_ok_def)
  note inside = chain_inside [OF assms(1) fits]
  obtain i0 f0 o0 n0 xs where it: "items = (i0, f0, o0, n0) # xs" using assms(2) by (cases items) auto
  then have "item_ok s names (i0, f0, o0, n0)" "f0 = fl" using assms(1,3) by simp_all
  then show fl: "fl < length (sh_files s)" and len: "length (snd (sh_files s ! fl)) < 2 ^ 63"
    by (simp_all add: item_ok_def)
  have sub: "unat (b - off0) = unat b - unat off0" if "unat off0 \<le> unat b" for b :: u64
    using that by (simp add: unat_sub word_le_nat_alt)
  have "unat e \<le> length (snd (sh_files s ! fl))"
  proof -
    obtain i1 f1 o1 n1 where l: "last items = (i1, f1, o1, n1)" by (cases "last items")
    then have mem: "(i1, f1, o1, n1) \<in> set items" using assms(2) by (metis last_in_set)
    have "e = o1 + n1" using assms(1,2) l
      by (induction fl off0 items e rule: chain.induct) (auto split: if_splits)
    moreover have "unat o1 + unat n1 < 2 ^ 64" using fits mem by auto
    ultimately have "unat e = unat o1 + unat n1" by (simp add: unat_add_no_wrap)
    moreover have "item_ok s names (i1, f1, o1, n1)" "f1 = fl" using assms(3) inside mem by auto
    ultimately show ?thesis by (simp add: item_ok_def)
  qed
  then show "unat off0 + span_len off0 e \<le> length (snd (sh_files s ! fl))"
    using inside sub [of e] by (simp add: span_len_def)
  show "unat (off - off0) + unat nb \<le> span_len off0 e \<and> unat off = unat off0 + unat (off - off0) \<and> f = fl"
    if "(i, f, off, nb) \<in> set items"
    using inside that sub [of e] sub [of off] by (auto simp: span_len_def)
qed

lemma slice_of_span:
  assumes "a + n \<le> l"
  shows "take n (drop a (take l (drop o' c))) = take n (drop (o' + a) c)"
  using assms by (simp add: drop_take min_def add.commute)

lemma view_in_span:
  assumes "chain fl off0 items e" and "\<forall>it \<in> set items. item_ok s names it" and "(i, f, off, nb) \<in> set items"
    and buf: "take (span_len off0 e) (drop pre buf) = take (span_len off0 e) (drop (unat off0) (snd (sh_files s ! fl)))"
    and "pre + span_len off0 e \<le> length buf"
  shows "view_ok s names (i, buf, pre + unat (off - off0), unat nb)"
proof -
  have "items \<noteq> []" using assms(3) by auto
  note ext = span_extent [OF assms(1) this assms(2)]
  define l where "l = span_len off0 e"
  have a: "unat (off - off0) + unat nb \<le> l" "unat off = unat off0 + unat (off - off0)" "f = fl"
    using ext(4) [OF assms(3)] by (simp_all add: l_def)
  have ok: "item_ok s names (i, f, off, nb)" using assms(2,3) by blast
  have "take (unat nb) (drop (pre + unat (off - off0)) buf)
      = take (unat nb) (drop (unat (off - off0)) (take l (drop pre buf)))"
    using a(1) by (simp add: slice_of_span)
  also have "\<dots> = take (unat nb) (drop (unat off) (snd (sh_files s ! fl)))"
    unfolding l_def buf unfolding l_def [symmetric] using a by (simp add: slice_of_span)
  also have "\<dots> = tensor_bytes s (names ! i)" using ok a(3) by (simp add: item_ok_def)
  finally have slice: "take (unat nb) (drop (pre + unat (off - off0)) buf) = tensor_bytes s (names ! i)" .
  have "length (tensor_bytes s (names ! i)) = unat nb"
    unfolding slice [symmetric] using assms(5) a(1) by (simp add: l_def)
  then show ?thesis using slice a(1) assms(5) by (simp add: view_ok_def l_def)
qed

lemma read_span_views:
  assumes ch: "chain fl off0 items e" and ne: "items \<noteq> []" and ok: "\<forall>it \<in> set items. item_ok s names it"
  shows "\<exists>vs. read_span env s nthreads (fl, off0, e, items) = Inr vs \<and> map fst vs = map fst items \<and>
    (\<forall>iv \<in> set vs. view_ok s names iv)"
proof -
  note ext = span_extent [OF ch ne ok]
  define c l where "c = snd (sh_files s ! fl)" and "l = span_len off0 e"
  define buf where "buf = take l (drop (unat off0) c)"
  have f: "idx (sh_files s) fl = Some (sh_files s ! fl)" using ext(1) by (simp add: idx_def)
  have "pread_chunked s fl off0 l nthreads = read_exact_at c (unat off0) l"
    using ext(2,3) by (subst pread_chunked_plain [OF f]) (simp_all add: c_def l_def)
  also have "\<dots> = Inr buf" using ext(3) by (auto simp: read_exact_at_def buf_def c_def l_def)
  finally have got: "(case mapped_view env s fl off0 l of Some buf \<Rightarrow> Inr buf
      | None \<Rightarrow> pread_chunked s fl off0 l nthreads) = Inr buf"
    using mapped_view_bytes [OF _ ext(1,2)] by (auto simp: buf_def c_def split: option.split)
  have len: "length buf = l" using ext(3) by (simp add: buf_def c_def l_def)
  define vs where "vs = map (\<lambda>(i, f, off, nb). (i, buf, unat (off - off0), unat nb)) items"
  have "view_ok s names iv" if iv: "iv \<in> set vs" for iv
  proof -
    from iv obtain i f off nb where it: "(i, f, off, nb) \<in> set items" "iv = (i, buf, 0 + unat (off - off0), unat nb)"
      by (auto simp: vs_def)
    show ?thesis unfolding it(2)
      by (rule view_in_span [OF ch ok it(1)]) (use ext(3) in \<open>simp_all add: buf_def c_def l_def\<close>)
  qed
  moreover have "read_span env s nthreads (fl, off0, e, items) = Inr vs"
    unfolding read_span_def prod.case l_def [symmetric] got by (simp add: vs_def)
  moreover have "map fst vs = map fst items" by (simp add: vs_def comp_def split_beta)
  ultimately show ?thesis by blast
qed

lemma try_map_ex:
  assumes "\<forall>x \<in> set xs. \<exists>y. f x = Inr y \<and> P x y"
  shows "\<exists>ys. try_map f xs = Inr ys \<and> list_all2 P xs ys"
  using assms
proof (induction xs)
  case (Cons x xs)
  then obtain y ys where "f x = Inr y" "P x y" "try_map f xs = Inr ys" "list_all2 P xs ys" by auto
  then show ?case by auto
qed simp

lemma unwrap_put_at:
  assumes "distinct (map fst kvs)" and "set (map fst kvs) = {..<n}"
  shows "\<exists>vs. unwrap_all (put_at kvs (replicate n None)) = Inr vs \<and> length vs = n \<and>
    (\<forall>i < n. (i, vs ! i) \<in> set kvs)"
proof -
  let ?r = "put_at kvs (replicate n None)"
  have at: "\<exists>v. (i, v) \<in> set kvs \<and> ?r ! i = Some v" if "i < n" for i
  proof -
    have "i \<in> fst ` set kvs" using that assms(2) by (simp only: list.set_map lessThan_iff)
    then obtain v where "(i, v) \<in> set kvs" by auto
    then show ?thesis using put_at_nth [OF assms(1)] that by auto
  qed
  have eq: "?r = map Some (map the ?r)" using at by (intro nth_equalityI) force+
  have "those (map Some xs) = Some xs" for xs :: "'a list" by (induction xs) simp_all
  with eq have "unwrap_all ?r = Inr (map the ?r)" by (metis ok_or_Inr unwrap_all_def)
  moreover have "\<forall>i < n. (i, map the ?r ! i) \<in> set kvs" using at by force
  ultimately show ?thesis by (intro exI [of _ "map the ?r"]) simp
qed

text \<open>
  \<open>read_raw_shared\<close> gives every requested tensor its own bytes, in the order of the request: when
  every name is indexed and lies inside its file the call succeeds, whatever the thread count, the
  page-residency answers and the order of the tensors on disk, and the slice of the shared buffer
  each view names is exactly what a raw read of that tensor returns, in bounds of the buffer.
\<close>

lemma shared_views_are_tensors:
  assumes "\<forall>n \<in> set names. readable s n"
  shows "\<exists>vs. read_raw_shared env s names nthreads = Inr vs \<and> length vs = length names \<and>
    (\<forall>i < length names. case vs ! i of (buf, off, len) \<Rightarrow> off + len \<le> length buf \<and>
       read_raw s (names ! i) (replicate len 0) = Inr (take len (drop off buf)))"
proof -
  obtain meta where meta: "meta_of s names = Inr meta" and ok: "\<forall>it \<in> set (in_file_order meta). item_ok s names it"
    and idx: "distinct (map fst (in_file_order meta))" "set (map fst (in_file_order meta)) = {..<length names}"
    using items_of_names [OF assms] by blast
  let ?spans = "coalesce (in_file_order meta)"
  note spans = coalesce_spans [of "in_file_order meta"]
  have mem: "set g \<subseteq> set (in_file_order meta)" if "(f, a, e, g) \<in> set ?spans" for f a e g
  proof -
    have "set g \<subseteq> set (concat (map (\<lambda>(f, a, e, g). g) ?spans))" using that by force
    then show ?thesis using spans by simp
  qed
  have "\<forall>sp \<in> set ?spans. \<exists>vs. read_span env s nthreads sp = Inr vs \<and>
      (map fst vs = map fst ((\<lambda>(f, a, e, g). g) sp) \<and> (\<forall>iv \<in> set vs. view_ok s names iv))"
  proof
    fix sp assume sp: "sp \<in> set ?spans"
    obtain f a e g where [simp]: "sp = (f, a, e, g)" by (cases sp)
    have "chain f a g e" "g \<noteq> []" "\<forall>it \<in> set g. item_ok s names it"
      using spans sp ok mem [of f a e g] by auto
    from read_span_views [OF this] show "\<exists>vs. read_span env s nthreads sp = Inr vs \<and>
      (map fst vs = map fst ((\<lambda>(f, a, e, g). g) sp) \<and> (\<forall>iv \<in> set vs. view_ok s names iv))" by simp
  qed
  from try_map_ex [OF this] obtain vss where vss: "try_map (read_span env s nthreads) ?spans = Inr vss"
    and l: "list_all2 (\<lambda>sp vs. map fst vs = map fst ((\<lambda>(f, a, e, g). g) sp) \<and> (\<forall>iv \<in> set vs. view_ok s names iv)) ?spans vss"
    by blast
  have keys: "map fst (concat vss) = map fst (concat (map (\<lambda>(f, a, e, g). g) ?spans))"
    and views: "\<forall>iv \<in> set (concat vss). view_ok s names iv"
    using l by (induction rule: list_all2_induct) auto
  from unwrap_put_at [of "concat vss" "length names"] keys idx spans
  obtain vs where vs: "unwrap_all (put_at (concat vss) (replicate (length names) None)) = Inr vs"
    "length vs = length names" "\<forall>i < length names. (i, vs ! i) \<in> set (concat vss)" by auto
  have "case vs ! i of (buf, off, len) \<Rightarrow> off + len \<le> length buf \<and>
      read_raw s (names ! i) (replicate len 0) = Inr (take len (drop off buf))" if "i < length names" for i
    using vs(3) that views readable_read_raw [of s "names ! i"] assms by (fastforce simp: view_ok_def)
  then show ?thesis using meta vss vs by (simp add: read_raw_shared_def)
qed

text \<open>A shard of one block with two adjacent tensors, read out of order.\<close>

definition demo_shards :: shards where
  "demo_shards = (let t = (\<lambda>nm off nb. \<lparr>st_name = nm, st_file = 0, st_off = off, st_nbytes = nb, st_dtype = U8,
       st_numel = 1, st_shape = [1]\<rparr>)
     in \<lparr>sh_tensors = [t (lit ''a'') 500 4, t (lit ''b'') 504 8], sh_files = [(lit ''m'', replicate 504 1 @ replicate 8 2)],
         sh_index = [lit ''a'' \<mapsto> 0, lit ''b'' \<mapsto> 1]\<rparr>)"

lemma demo_readable: "readable demo_shards (lit ''a'')" "readable demo_shards (lit ''b'')"
  by (simp_all add: readable_def demo_shards_def sh_find_def idx_def lit_def)

definition demo_env :: read_env where
  "demo_env = \<lparr>mmap_on = True, sample = 8, core_pages = (\<lambda>_ p. p = 1), o_direct = False,
     direct_fd = (\<lambda>_. False), sub_bytes = 512\<rparr>"

end
