(* ===== verification/BatchRead.thy ===== *)
theory BatchRead
  imports SpanRead
begin

text \<open>
  \<open>read_raw_shared_batched\<close>: many groups of tensors read at once.  Each group is coalesced into
  spans; a span is a view of the mapping, or a buffer of the pool filled by reads.  Under
  \<open>O_DIRECT\<close> a span is widened to 512-byte boundaries of the file and of memory.  The spans are
  tiled into jobs and worker threads take the jobs one by one; \<open>order\<close> is the order in which they
  happen to run, any permutation of the jobs.

  A buffer comes from the pool with an address and stale contents: \<open>alloc k n\<close> is the buffer of
  \<open>n\<close> bytes handed out for span \<open>k\<close>.
\<close>

section \<open>Spans and their layout\<close>

datatype sbuf = View byte_string | Heap nat byte_string

fun buf_bytes :: "sbuf \<Rightarrow> byte_string" where
  "buf_bytes (View b) = b"
| "buf_bytes (Heap a b) = b"

fun is_view :: "sbuf \<Rightarrow> bool" where
  "is_view (View b) = True"
| "is_view (Heap a b) = False"

record bspan =
  bs_file :: nat
  bs_read_off :: u64
  bs_read_len :: nat
  bs_skew :: nat
  bs_buf :: sbuf

definition next_multiple :: "nat \<Rightarrow> nat" where
  "next_multiple n = (n + 511) div 512 * 512"

definition layout_span :: "read_env \<Rightarrow> shards \<Rightarrow> (nat \<Rightarrow> nat \<Rightarrow> nat \<times> byte_string) \<Rightarrow> nat \<Rightarrow>
    nat \<times> u64 \<times> u64 \<times> item list \<Rightarrow> bspan \<times> (nat \<times> nat \<times> nat \<times> nat) list" where
  "layout_span env s alloc k sp = (case sp of (file, off0, span_end, items) \<Rightarrow>
     (case mapped_view env s file off0 (span_len off0 span_end) of
        Some bytes \<Rightarrow>
          (\<lparr>bs_file = file, bs_read_off = off0, bs_read_len = 0, bs_skew = 0, bs_buf = View bytes\<rparr>,
           map (\<lambda>(i, f, off, nb). (i, k, unat (off - off0), unat nb)) items)
      | None \<Rightarrow>
          let pad = (if o_direct env then unat (off0 AND 511) else 0);
              extra = (if o_direct env then 512 else 0);
              read_off = off0 - of_nat pad;
              read_len = (if o_direct env then next_multiple (pad + span_len off0 span_end)
                          else span_len off0 span_end);
              (addr, stale) = alloc k (read_len + extra);
              skew = (if o_direct env then nat ((- int addr) mod 512) else 0)
          in (\<lparr>bs_file = file, bs_read_off = read_off, bs_read_len = read_len, bs_skew = skew,
               bs_buf = Heap addr stale\<rparr>,
              map (\<lambda>(i, f, off, nb). (i, k, skew + pad + unat (off - off0), unat nb)) items)))"

fun layout_spans :: "read_env \<Rightarrow> shards \<Rightarrow> (nat \<Rightarrow> nat \<Rightarrow> nat \<times> byte_string) \<Rightarrow> nat \<Rightarrow>
    (nat \<times> u64 \<times> u64 \<times> item list) list \<Rightarrow> bspan list \<times> (nat \<times> nat \<times> nat \<times> nat) list" where
  "layout_spans env s alloc k [] = ([], [])"
| "layout_spans env s alloc k (sp # sps) =
     (let (b, ms) = layout_span env s alloc k sp; (bs, mss) = layout_spans env s alloc (Suc k) sps
      in (b # bs, ms @ mss))"

text \<open>The groups, numbering spans across groups; a name maps to (span, offset, length).\<close>

fun layout_groups :: "read_env \<Rightarrow> shards \<Rightarrow> (nat \<Rightarrow> nat \<Rightarrow> nat \<times> byte_string) \<Rightarrow> nat \<Rightarrow>
    byte_string list list \<Rightarrow> st_error + bspan list \<times> (nat \<times> nat \<times> nat) list list" where
  "layout_groups env s alloc k [] = Inr ([], [])"
| "layout_groups env s alloc k (g # gs) =
     and_then (meta_of s g) (\<lambda>meta.
       let (bs, ms) = layout_spans env s alloc k (coalesce (in_file_order meta));
           names_map = fold (\<lambda>(i, v) r. r[i := v]) ms (replicate (length g) (0, 0, 0))
       in and_then (layout_groups env s alloc (k + length bs) gs)
            (\<lambda>(bss, mss). Inr (bs @ bss, names_map # mss)))"

section \<open>Jobs\<close>

record job =
  j_file :: nat
  j_off :: u64
  j_span :: nat
  j_at :: nat
  j_len :: nat

definition span_jobs :: "nat \<Rightarrow> nat \<Rightarrow> bspan \<Rightarrow> job list" where
  "span_jobs sub k b =
     (if is_view (bs_buf b) then []
      else map (\<lambda>(start, clen). \<lparr>j_file = bs_file b, j_off = bs_read_off b + of_nat start, j_span = k,
              j_at = bs_skew b + start, j_len = clen\<rparr>)
            (chunk_starts (bs_read_len b) sub (bs_read_len b) 0))"

definition all_jobs :: "nat \<Rightarrow> bspan list \<Rightarrow> job list" where
  "all_jobs sub bs = concat (map (\<lambda>(k, b). span_jobs sub k b) (enumerate 0 bs))"

text \<open>
  \<open>pread_dispatch\<close>: a direct descriptor refuses an offset, length or address that is not a multiple
  of 512.
\<close>

definition pread_dispatch :: "read_env \<Rightarrow> shards \<Rightarrow> nat \<Rightarrow> u64 \<Rightarrow> nat \<Rightarrow> nat \<Rightarrow> st_error + byte_string" where
  "pread_dispatch env s file off addr len =
     (if o_direct env \<and> direct_fd env file \<and> \<not> (512 dvd unat off \<and> 512 dvd len \<and> 512 dvd addr)
      then Inl Unexpected_end
      else pread_into s file off len)"

fun buf_addr :: "sbuf \<Rightarrow> nat" where
  "buf_addr (Heap a b) = a"
| "buf_addr (View b) = 0"

fun write_buf :: "nat \<Rightarrow> byte_string \<Rightarrow> sbuf \<Rightarrow> sbuf" where
  "write_buf pos new (Heap a b) = Heap a (patch pos new b)"
| "write_buf pos new (View b) = View b"

definition run_job :: "read_env \<Rightarrow> shards \<Rightarrow> job \<Rightarrow> sbuf list \<times> st_error option \<Rightarrow> sbuf list \<times> st_error option" where
  "run_job env s j st = (case st of (bufs, err) \<Rightarrow>
     (case pread_dispatch env s (j_file j) (j_off j) (buf_addr (bufs ! j_span j) + j_at j) (j_len j) of
        Inl e \<Rightarrow> (bufs, Some e)
      | Inr b \<Rightarrow> (bufs[j_span j := write_buf (j_at j) b (bufs ! j_span j)], err)))"

definition drain :: "read_env \<Rightarrow> shards \<Rightarrow> job list \<Rightarrow> nat list \<Rightarrow> sbuf list \<Rightarrow> st_error + sbuf list" where
  "drain env s jobs order bufs =
     (case fold (\<lambda>i. run_job env s (jobs ! i)) order (bufs, None) of
        (bufs, Some e) \<Rightarrow> Inl e
      | (bufs, None) \<Rightarrow> Inr bufs)"

definition read_raw_shared_batched :: "read_env \<Rightarrow> shards \<Rightarrow> (nat \<Rightarrow> nat \<Rightarrow> nat \<times> byte_string) \<Rightarrow>
    (nat \<Rightarrow> nat list) \<Rightarrow> byte_string list list \<Rightarrow> st_error + view list list" where
  "read_raw_shared_batched env s alloc order groups =
     and_then (layout_groups env s alloc 0 groups) (\<lambda>(bs, maps).
       let jobs = all_jobs (sub_bytes env) bs
       in and_then (drain env s jobs (order (length jobs)) (map bs_buf bs)) (\<lambda>bufs.
            Inr (map (map (\<lambda>(k, off, len). (buf_bytes (bufs ! k), off, len))) maps)))"

section \<open>What a filled span holds\<close>

abbreviation file_bytes :: "shards \<Rightarrow> nat \<Rightarrow> byte_string" where
  "file_bytes s fl \<equiv> snd (sh_files s ! fl)"

definition span_good :: "read_env \<Rightarrow> shards \<Rightarrow> bspan \<Rightarrow> bool" where
  "span_good env s b \<longleftrightarrow> is_view (bs_buf b) \<or>
     (bs_file b < length (sh_files s) \<and> length (file_bytes s (bs_file b)) < 2 ^ 63 \<and>
      unat (bs_read_off b) + bs_read_len b \<le> length (file_bytes s (bs_file b)) \<and>
      bs_skew b + bs_read_len b \<le> length (buf_bytes (bs_buf b)) \<and>
      (o_direct env \<longrightarrow> 512 dvd unat (bs_read_off b) \<and> 512 dvd bs_read_len b \<and>
        512 dvd buf_addr (bs_buf b) + bs_skew b))"

definition filled :: "shards \<Rightarrow> bspan \<Rightarrow> byte_string \<Rightarrow> bool" where
  "filled s b d \<longleftrightarrow> (if is_view (bs_buf b) then d = buf_bytes (bs_buf b)
     else length d = length (buf_bytes (bs_buf b)) \<and>
       take (bs_read_len b) (drop (bs_skew b) d) =
       take (bs_read_len b) (drop (unat (bs_read_off b)) (file_bytes s (bs_file b))))"

text \<open>
  Under \<open>O_DIRECT\<close> the widened window must still be inside the file; files of whole blocks are
  enough.
\<close>

definition env_ok :: "read_env \<Rightarrow> shards \<Rightarrow> (nat \<Rightarrow> nat \<Rightarrow> nat \<times> byte_string) \<Rightarrow> bool" where
  "env_ok env s alloc \<longleftrightarrow> (\<forall>k n. length (snd (alloc k n)) = n) \<and> 0 < sub_bytes env \<and> 512 dvd sub_bytes env \<and>
     (o_direct env \<longrightarrow> (\<forall>f \<in> set (sh_files s). 512 dvd length (snd f)))"

lemma next_multiple_props:
  "512 dvd next_multiple n" "n \<le> next_multiple n" "512 dvd m \<Longrightarrow> n \<le> m \<Longrightarrow> next_multiple n \<le> m"
proof -
  show "512 dvd next_multiple n" by (simp add: next_multiple_def)
  show "n \<le> next_multiple n" unfolding next_multiple_def by linarith
  assume "512 dvd m" "n \<le> m"
  then obtain q where "m = 512 * q" by (auto simp: dvd_def)
  with \<open>n \<le> m\<close> have "(n + 511) div 512 \<le> q" by linarith
  then show "next_multiple n \<le> m" using \<open>m = 512 * q\<close> by (simp add: next_multiple_def)
qed

lemma pad_props:
  fixes off0 :: u64
  defines "pad \<equiv> unat (off0 AND 511)"
  shows "pad \<le> unat off0" "pad < 512" "512 dvd unat off0 - pad" "unat (off0 - of_nat pad) = unat off0 - pad"
proof -
  have "(511 :: u64) = mask 9" by (simp add: mask_eq_exp_minus_1)
  then have p: "pad = unat off0 mod 512" unfolding pad_def by (simp only: unat_and_mask) simp
  then show le: "pad \<le> unat off0" and "pad < 512" and "512 dvd unat off0 - pad"
    by (simp_all add: dvd_minus_mod)
  have "unat (of_nat pad :: u64) = pad" using p by (simp add: unat_of_nat mod_less_divisor)
  then show "unat (off0 - of_nat pad) = unat off0 - pad"
    using le by (simp add: unat_sub word_le_nat_alt)
qed

lemma skew_props:
  fixes addr :: nat
  defines "skew \<equiv> nat ((- int addr) mod 512)"
  shows "skew < 512" "512 dvd addr + skew"
proof -
  have s: "int skew = (- int addr) mod 512" by (simp add: skew_def)
  then show "skew < 512" by (simp add: skew_def nat_less_iff)
  have "(int addr + int skew) mod 512 = 0" unfolding s by (simp add: mod_simps)
  then have "512 dvd int (addr + skew)" by (simp add: dvd_eq_mod_eq_0)
  then show "512 dvd addr + skew" by presburger
qed

lemma window_slice:
  assumes "take n (drop a d) = take n (drop b c)" and "p + l \<le> n"
  shows "take l (drop (a + p) d) = take l (drop (b + p) c)"
proof -
  have "take l (drop p (take n (drop a d))) = take l (drop p (take n (drop b c)))" using assms(1) by simp
  then show ?thesis using assms(2) by (simp add: slice_of_span)
qed

text \<open>The layout of a span that is read into a buffer, with its numbers named.\<close>

definition read_layout :: "read_env \<Rightarrow> nat \<Rightarrow> nat \<Rightarrow> nat \<Rightarrow> u64 \<Rightarrow> nat \<Rightarrow> byte_string \<Rightarrow> nat \<Rightarrow> nat \<Rightarrow> bspan \<Rightarrow> bool" where
  "read_layout env fl l pad off0 addr stale rl skew b \<longleftrightarrow>
     pad = (if o_direct env then unat (off0 AND 511) else 0) \<and>
     rl = (if o_direct env then next_multiple (pad + l) else l) \<and>
     skew = (if o_direct env then nat ((- int addr) mod 512) else 0) \<and>
     length stale = rl + (if o_direct env then 512 else 0) \<and>
     b = \<lparr>bs_file = fl, bs_read_off = off0 - of_nat pad, bs_read_len = rl, bs_skew = skew,
          bs_buf = Heap addr stale\<rparr>"

lemma read_layout_good:
  assumes r: "read_layout env fl l pad off0 addr stale rl skew b" and env: "env_ok env s alloc"
    and fl: "fl < length (sh_files s)" "length (file_bytes s fl) < 2 ^ 63"
    and inside: "unat off0 + l \<le> length (file_bytes s fl)"
  shows "span_good env s b" and "pad \<le> unat off0" and "pad + l \<le> rl"
    and "unat (off0 - of_nat pad) = unat off0 - pad" and "skew + rl \<le> length stale"
proof -
  show p: "pad \<le> unat off0" "pad + l \<le> rl" "unat (off0 - of_nat pad) = unat off0 - pad" "skew + rl \<le> length stale"
    using r pad_props [of off0] next_multiple_props(2) [of "pad + l"] skew_props(1) [of addr]
    by (auto simp: read_layout_def)
  have room: "unat off0 - pad + rl \<le> length (file_bytes s fl)"
  proof (cases "o_direct env")
    case True
    have "512 dvd length (file_bytes s fl)" using env True fl(1) by (auto simp: env_ok_def)
    moreover have "512 dvd unat off0 - pad" using r pad_props(3) [of off0] True by (simp add: read_layout_def)
    ultimately have "512 dvd length (file_bytes s fl) - (unat off0 - pad)" by (rule dvd_diff_nat)
    then have "next_multiple (pad + l) \<le> length (file_bytes s fl) - (unat off0 - pad)"
      using inside p(1) by (intro next_multiple_props(3)) simp_all
    then show ?thesis using True r inside by (simp add: read_layout_def)
  next
    case False
    then show ?thesis using r inside by (simp add: read_layout_def)
  qed
  then show "span_good env s b"
    using r fl p(3,4) pad_props(3) [of off0] next_multiple_props(1) skew_props(2) [of addr]
    by (auto simp: read_layout_def span_good_def)
qed

lemma layout_read_case:
  assumes "mapped_view env s fl off0 (span_len off0 e) = None" and "env_ok env s alloc"
    and "layout_span env s alloc k (fl, off0, e, items) = (b, ms)"
  shows "\<exists>pad addr stale rl skew. read_layout env fl (span_len off0 e) pad off0 addr stale rl skew b \<and>
    ms = map (\<lambda>(i, f, off, nb). (i, k, skew + pad + unat (off - off0), unat nb)) items"
proof -
  define l where "l = span_len off0 e"
  define pad where "pad = (if o_direct env then unat (off0 AND 511) else 0)"
  define rl where "rl = (if o_direct env then next_multiple (pad + l) else l)"
  define extra :: nat where "extra = (if o_direct env then 512 else 0)"
  obtain addr stale where al: "alloc k (rl + extra) = (addr, stale)" by force
  then have len: "length stale = rl + extra" using assms(2) unfolding env_ok_def by (metis snd_conv)
  define skew where "skew = (if o_direct env then nat ((- int addr) mod 512) else 0)"
  have "layout_span env s alloc k (fl, off0, e, items) =
    (\<lparr>bs_file = fl, bs_read_off = off0 - of_nat pad, bs_read_len = rl, bs_skew = skew, bs_buf = Heap addr stale\<rparr>,
     map (\<lambda>(i, f, off, nb). (i, k, skew + pad + unat (off - off0), unat nb)) items)"
    unfolding layout_span_def prod.case assms(1) option.case Let_def l_def [symmetric] pad_def [symmetric]
      extra_def [symmetric] rl_def [symmetric] al skew_def [symmetric]
    using assms(1) by (simp add: l_def)
  with assms(3) have "b = \<lparr>bs_file = fl, bs_read_off = off0 - of_nat pad, bs_read_len = rl, bs_skew = skew,
      bs_buf = Heap addr stale\<rparr>"
    and "ms = map (\<lambda>(i, f, off, nb). (i, k, skew + pad + unat (off - off0), unat nb)) items" by simp_all
  moreover have "length stale = rl + (if o_direct env then 512 else 0)" using len by (simp only: extra_def)
  ultimately show ?thesis
    unfolding read_layout_def using pad_def rl_def skew_def l_def by blast
qed

lemma layout_span_views:
  assumes ch: "chain fl off0 items e" and ne: "items \<noteq> []" and ok: "\<forall>it \<in> set items. item_ok s names it"
    and env: "env_ok env s alloc" and lay: "layout_span env s alloc k (fl, off0, e, items) = (b, ms)"
  shows "map fst ms = map fst items \<and> span_good env s b \<and>
    (\<forall>d i k' off len. filled s b d \<longrightarrow> (i, k', off, len) \<in> set ms \<longrightarrow> k' = k \<and> view_ok s names (i, d, off, len))"
proof -
  note ext = span_extent [OF ch ne ok]
  define l where "l = span_len off0 e"
  show ?thesis
  proof (cases "mapped_view env s fl off0 l")
    case (Some bytes)
    have bytes: "bytes = take l (drop (unat off0) (file_bytes s fl))"
      using mapped_view_bytes [OF Some ext(1,2)] by simp
    have b: "b = \<lparr>bs_file = fl, bs_read_off = off0, bs_read_len = 0, bs_skew = 0, bs_buf = View bytes\<rparr>"
      and ms: "ms = map (\<lambda>(i, f, off, nb). (i, k, unat (off - off0), unat nb)) items"
      using lay Some by (simp_all add: layout_span_def l_def)
    have "view_ok s names (i, bytes, 0 + unat (o' - off0), unat nb)" if "(i, f, o', nb) \<in> set items" for i f o' nb
      by (rule view_in_span [OF ch ok that]) (use ext(3) bytes in \<open>simp_all add: l_def\<close>)
    then show ?thesis by (auto simp: b ms span_good_def filled_def comp_def split_beta)
  next
    case None
    then obtain pad addr stale rl skew where r: "read_layout env fl l pad off0 addr stale rl skew b"
      and ms: "ms = map (\<lambda>(i, f, off, nb). (i, k, skew + pad + unat (off - off0), unat nb)) items"
      using layout_read_case [OF _ env lay] unfolding l_def by blast
    note g = read_layout_good [OF r env ext(1,2) ext(3) [folded l_def]]
    have "view_ok s names (i, d, skew + pad + unat (o' - off0), unat nb)"
      if "filled s b d" "(i, f, o', nb) \<in> set items" for i f o' nb d
    proof (rule view_in_span [OF ch ok that(2)])
      have f: "length d = length stale" "take rl (drop skew d) = take rl (drop (unat off0 - pad) (file_bytes s fl))"
        using that(1) r g(4) by (simp_all add: filled_def read_layout_def)
      from window_slice [OF f(2) g(3)] g(2)
      show "take (span_len off0 e) (drop (skew + pad) d) = take (span_len off0 e) (drop (unat off0) (file_bytes s fl))"
        by (simp add: l_def)
      show "skew + pad + span_len off0 e \<le> length d" using f(1) g(3,5) by (simp add: l_def)
    qed
    then show ?thesis using g(1) by (auto simp: ms comp_def split_beta)
  qed
qed

lemma layout_spans_views:
  assumes "\<forall>(f, a, e, g) \<in> set sps. chain f a g e \<and> g \<noteq> [] \<and> (\<forall>it \<in> set g. item_ok s names it)"
    and "env_ok env s alloc" and "layout_spans env s alloc k sps = (bs, ms)"
  shows "map fst ms = map fst (concat (map (\<lambda>(f, a, e, g). g) sps)) \<and> (\<forall>b \<in> set bs. span_good env s b) \<and>
    (\<forall>D. (\<forall>j < length bs. filled s (bs ! j) (D (k + j))) \<longrightarrow> (\<forall>(i, k', off, len) \<in> set ms.
       k' < k + length bs \<and> view_ok s names (i, D k', off, len)))"
  using assms(1,3)
proof (induction sps arbitrary: k bs ms)
  case (Cons sp sps)
  obtain f a e g where sp: "sp = (f, a, e, g)" by (cases sp)
  obtain b m where one: "layout_span env s alloc k sp = (b, m)" by force
  obtain bs' ms' where rest: "layout_spans env s alloc (Suc k) sps = (bs', ms')" by force
  have eq: "bs = b # bs'" "ms = m @ ms'" using Cons.prems(2) one rest by simp_all
  have "chain f a g e" "g \<noteq> []" "\<forall>it \<in> set g. item_ok s names it" using Cons.prems(1) sp by simp_all
  note head = layout_span_views [OF this assms(2) one [unfolded sp]]
  have tail: "map fst ms' = map fst (concat (map (\<lambda>(f, a, e, g). g) sps)) \<and> (\<forall>b \<in> set bs'. span_good env s b) \<and>
    (\<forall>D. (\<forall>j < length bs'. filled s (bs' ! j) (D (Suc k + j))) \<longrightarrow> (\<forall>(i, k', off, len) \<in> set ms'.
       k' < Suc k + length bs' \<and> view_ok s names (i, D k', off, len)))"
    using Cons.prems(1) rest by (intro Cons.IH) simp_all
  have "\<forall>(i, k', off, len) \<in> set ms. k' < k + length bs \<and> view_ok s names (i, D k', off, len)"
    if D: "\<forall>j < length bs. filled s (bs ! j) (D (k + j))" for D
  proof -
    have b: "filled s b (D k)" using D [rule_format, of 0] by (simp add: eq)
    have "filled s (bs' ! j) (D (Suc k + j))" if "j < length bs'" for j
      using D [rule_format, of "Suc j"] that by (simp add: eq)
    with tail have t: "\<forall>(i, k', off, len) \<in> set ms'. k' < Suc k + length bs' \<and> view_ok s names (i, D k', off, len)"
      by simp
    have h: "\<forall>(i, k', off, len) \<in> set m. k' = k \<and> view_ok s names (i, D k', off, len)"
    proof (clarify)
      fix i k' off len assume "(i, k', off, len) \<in> set m"
      then have "k' = k" "view_ok s names (i, D k, off, len)" using head b by blast+
      then show "k' = k \<and> view_ok s names (i, D k', off, len)" by simp
    qed
    show ?thesis using h t by (auto simp: eq)
  qed
  then show ?case using head tail by (simp add: eq sp)
qed simp

definition views_for :: "shards \<Rightarrow> (nat \<Rightarrow> byte_string) \<Rightarrow> byte_string list \<Rightarrow> (nat \<times> nat \<times> nat) list \<Rightarrow> nat \<Rightarrow> bool" where
  "views_for s D names m n \<longleftrightarrow> length m = length names \<and>
     (\<forall>i < length names. case m ! i of (k, off, len) \<Rightarrow> k < n \<and> view_ok s names (i, D k, off, len))"

lemma layout_groups_views:
  assumes "\<forall>g \<in> set groups. \<forall>n \<in> set g. readable s n" and "env_ok env s alloc"
  shows "\<exists>bs maps. layout_groups env s alloc k groups = Inr (bs, maps) \<and> (\<forall>b \<in> set bs. span_good env s b) \<and>
    (\<forall>D. (\<forall>j < length bs. filled s (bs ! j) (D (k + j))) \<longrightarrow>
       list_all2 (\<lambda>g m. views_for s D g m (k + length bs)) groups maps)"
  using assms(1)
proof (induction groups arbitrary: k)
  case (Cons g groups)
  obtain meta where meta: "meta_of s g = Inr meta" and ok: "\<forall>it \<in> set (in_file_order meta). item_ok s g it"
    and ix: "distinct (map fst (in_file_order meta))" "set (map fst (in_file_order meta)) = {..<length g}"
    using items_of_names [of g s] Cons.prems by auto
  let ?sps = "coalesce (in_file_order meta)"
  obtain bs ms where lay: "layout_spans env s alloc k ?sps = (bs, ms)" by force
  note spans = coalesce_spans [of "in_file_order meta"]
  have "\<forall>(f, a, e, h) \<in> set ?sps. chain f a h e \<and> h \<noteq> [] \<and> (\<forall>it \<in> set h. item_ok s g it)"
  proof (clarify, intro conjI ballI)
    fix f a e h it assume sp: "(f, a, e, h) \<in> set ?sps"
    then show "chain f a h e" "h \<noteq> []" using spans by auto
    assume "it \<in> set h"
    then have "it \<in> set (concat (map (\<lambda>(f, a, e, g). g) ?sps))" using sp by force
    then show "item_ok s g it" using spans ok by simp
  qed
  note head = layout_spans_views [OF this assms(2) lay]
  obtain bss mss where rest: "layout_groups env s alloc (k + length bs) groups = Inr (bss, mss)"
    "\<forall>b \<in> set bss. span_good env s b"
    "\<And>D. (\<forall>j < length bss. filled s (bss ! j) (D (k + length bs + j))) \<Longrightarrow>
       list_all2 (\<lambda>g m. views_for s D g m (k + length bs + length bss)) groups mss"
    using Cons.IH [of "k + length bs"] Cons.prems by auto
  define nm where "nm = fold (\<lambda>(i, v) r. r[i := v]) ms (replicate (length g) (0, 0, 0))"
  have keys: "map fst ms = map fst (in_file_order meta)" using head spans by simp
  have lay': "layout_groups env s alloc k (g # groups) = Inr (bs @ bss, nm # mss)"
    using meta lay rest(1) by (simp add: nm_def)
  have "views_for s D g nm (k + length bs + length bss)" if D: "\<forall>j < length bs. filled s (bs ! j) (D (k + j))" for D
    unfolding views_for_def
  proof (intro conjI allI impI)
    show "length nm = length g" by (simp add: nm_def)
    fix i assume i: "i < length g"
    have "i \<in> fst ` set ms" using i ix(2) keys by (metis lessThan_iff list.set_map)
    then obtain v where v: "(i, v) \<in> set ms" by auto
    then have "nm ! i = v" unfolding nm_def using ix(1) keys i by (intro fold_update_nth) simp_all
    moreover obtain k' off len where [simp]: "v = (k', off, len)" by (cases v)
    moreover have "k' < k + length bs \<and> view_ok s g (i, D k', off, len)" using head D v by auto
    ultimately show "case nm ! i of (k', off, len) \<Rightarrow> k' < k + length bs + length bss \<and> view_ok s g (i, D k', off, len)"
      by simp
  qed
  moreover have "list_all2 (\<lambda>g m. views_for s D g m (k + length bs + length bss)) groups mss"
    if "\<forall>j < length (bs @ bss). filled s ((bs @ bss) ! j) (D (k + j))" for D
  proof (rule rest(3), intro allI impI)
    fix j assume "j < length bss"
    then show "filled s (bss ! j) (D (k + length bs + j))"
      using that [rule_format, of "length bs + j"] by (simp add: nth_append add.assoc)
  qed
  moreover have "filled s (bs ! j) (D (k + j))"
    if "\<forall>j < length (bs @ bss). filled s ((bs @ bss) ! j) (D (k + j))" "j < length bs" for D j
    using that(1) [rule_format, of j] that(2) by (simp add: nth_append)
  ultimately have "list_all2 (\<lambda>g m. views_for s D g m (k + length (bs @ bss))) (g # groups) (nm # mss)"
    if "\<forall>j < length (bs @ bss). filled s ((bs @ bss) ! j) (D (k + j))" for D
    using that by (simp add: add.assoc)
  moreover have "\<forall>b \<in> set (bs @ bss). span_good env s b" using head rest(2) by auto
  ultimately show ?case using lay' by blast
qed simp

section \<open>Draining the jobs in any order\<close>

lemma chunk_starts_range:
  assumes "(a, c) \<in> set (chunk_starts fuel per len start)" and "0 < per"
  shows "start \<le> a \<and> 0 < c \<and> a + c \<le> len \<and> (512 dvd per \<longrightarrow> 512 dvd len \<longrightarrow> 512 dvd start \<longrightarrow> 512 dvd a \<and> 512 dvd c)"
  using assms
proof (induction fuel arbitrary: start)
  case (Suc fuel)
  then have s: "start < len" by (auto split: if_splits)
  define n where "n = min per (len - start)"
  have n: "0 < n" "start + n \<le> len" "512 dvd per \<Longrightarrow> 512 dvd len \<Longrightarrow> 512 dvd start \<Longrightarrow> 512 dvd n"
    using s Suc.prems(2) by (auto simp: n_def min_def)
  have "(a, c) = (start, n) \<or> (a, c) \<in> set (chunk_starts fuel per len (start + n))"
    using Suc.prems(1) s by (simp add: n_def)
  then show ?case
  proof
    assume "(a, c) \<in> set (chunk_starts fuel per len (start + n))"
    from Suc.IH [OF this Suc.prems(2)] n show ?thesis by auto
  qed (use n in auto)
qed simp

lemma chunk_starts_cover:
  assumes "start \<le> p" and "p < len" and "len - start \<le> fuel" and "0 < per"
  shows "\<exists>(a, c) \<in> set (chunk_starts fuel per len start). a \<le> p \<and> p < a + c"
  using assms
proof (induction fuel arbitrary: start)
  case (Suc fuel)
  define n where "n = min per (len - start)"
  have n: "0 < n" "start < len" using Suc.prems by (auto simp: n_def)
  have eq: "chunk_starts (Suc fuel) per len start = (start, n) # chunk_starts fuel per len (start + n)"
    using n by (simp add: n_def)
  show ?case
  proof (cases "p < start + n")
    case True
    then show ?thesis unfolding eq using Suc.prems(1) by simp
  next
    case False
    then have "\<exists>(a, c) \<in> set (chunk_starts fuel per len (start + n)). a \<le> p \<and> p < a + c"
      using Suc.prems n by (intro Suc.IH) simp_all
    then show ?thesis unfolding eq by auto
  qed
qed simp

text \<open>
  A job of span \<open>k\<close>, started at \<open>a\<close>, and what a buffer must hold at position \<open>p\<close> of the span.
\<close>

definition is_job :: "nat \<Rightarrow> bspan list \<Rightarrow> job \<Rightarrow> nat \<Rightarrow> nat \<Rightarrow> nat \<Rightarrow> bool" where
  "is_job sub bs j k a c \<longleftrightarrow> k < length bs \<and> \<not> is_view (bs_buf (bs ! k)) \<and>
     (a, c) \<in> set (chunk_starts (bs_read_len (bs ! k)) sub (bs_read_len (bs ! k)) 0) \<and>
     j = \<lparr>j_file = bs_file (bs ! k), j_off = bs_read_off (bs ! k) + of_nat a, j_span = k,
          j_at = bs_skew (bs ! k) + a, j_len = c\<rparr>"

lemma all_jobs_iff: "j \<in> set (all_jobs sub bs) \<longleftrightarrow> (\<exists>k a c. is_job sub bs j k a c)"
proof -
  have e: "set (enumerate 0 bs) = (\<lambda>k. (k, bs ! k)) ` {..<length bs}"
    by (auto simp: in_set_enumerate_eq image_iff)
  have "j \<in> set (all_jobs sub bs) \<longleftrightarrow> (\<exists>k < length bs. j \<in> set (span_jobs sub k (bs ! k)))"
    by (simp add: all_jobs_def e Bex_def)
  also have "\<dots> \<longleftrightarrow> (\<exists>k a c. is_job sub bs j k a c)"
    unfolding span_jobs_def is_job_def by (auto split: if_splits)
  finally show ?thesis .
qed

lemma job_reads:
  assumes "is_job (sub_bytes env) bs j k a c" and "span_good env s (bs ! k)" and "env_ok env s alloc"
    and "buf_addr buf = buf_addr (bs_buf (bs ! k))"
  shows "pread_dispatch env s (j_file j) (j_off j) (buf_addr buf + j_at j) (j_len j)
    = Inr (take c (drop (unat (bs_read_off (bs ! k)) + a) (file_bytes s (bs_file (bs ! k)))))"
    and "a + c \<le> bs_read_len (bs ! k)" and "0 < c"
proof -
  define b where "b = bs ! k"
  have sub: "0 < sub_bytes env" "512 dvd sub_bytes env" using assms(3) by (simp_all add: env_ok_def)
  have j: "\<not> is_view (bs_buf b)" "j_file j = bs_file b" "j_off j = bs_read_off b + of_nat a"
      "j_at j = bs_skew b + a" "j_len j = c"
    and ac: "(a, c) \<in> set (chunk_starts (bs_read_len b) (sub_bytes env) (bs_read_len b) 0)"
    using assms(1) by (simp_all add: is_job_def b_def)
  note r = chunk_starts_range [OF ac sub(1)]
  show "a + c \<le> bs_read_len (bs ! k)" "0 < c" using r by (simp_all add: b_def)
  have g: "bs_file b < length (sh_files s)" "length (file_bytes s (bs_file b)) < 2 ^ 63"
      "unat (bs_read_off b) + bs_read_len b \<le> length (file_bytes s (bs_file b))"
    and al: "o_direct env \<Longrightarrow> 512 dvd unat (bs_read_off b) \<and> 512 dvd bs_read_len b \<and> 512 dvd buf_addr (bs_buf b) + bs_skew b"
    using assms(2) j(1) by (auto simp: span_good_def b_def)
  have f: "idx (sh_files s) (bs_file b) = Some (sh_files s ! bs_file b)" using g(1) by (simp add: idx_def)
  have small: "unat (bs_read_off b) + a < 2 ^ 64" using g r by simp
  then have "unat (of_nat a :: u64) = a" by (simp add: unat_of_nat)
  then have off: "unat (bs_read_off b + of_nat a) = unat (bs_read_off b) + a"
    using small by (subst unat_add_no_wrap) simp_all
  have "512 dvd unat (j_off j) \<and> 512 dvd j_len j \<and> 512 dvd buf_addr buf + j_at j" if "o_direct env"
  proof -
    have "512 dvd a" "512 dvd c" using r al [OF that] sub(2) by auto
    then show ?thesis using al [OF that] assms(4) unfolding j off b_def [symmetric]
      by (metis add.assoc dvd_add)
  qed
  then have "pread_dispatch env s (j_file j) (j_off j) (buf_addr buf + j_at j) (j_len j)
      = pread_into s (bs_file b) (bs_read_off b + of_nat a) c"
    by (auto simp: pread_dispatch_def j)
  also have "\<dots> = read_exact_at (file_bytes s (bs_file b)) (unat (bs_read_off b) + a) c"
    by (rule pread_at [OF f small])
  also have "\<dots> = Inr (take c (drop (unat (bs_read_off b) + a) (file_bytes s (bs_file b))))"
    using g(3) r by (auto simp: read_exact_at_def)
  finally show "pread_dispatch env s (j_file j) (j_off j) (buf_addr buf + j_at j) (j_len j)
    = Inr (take c (drop (unat (bs_read_off (bs ! k)) + a) (file_bytes s (bs_file (bs ! k)))))" by (simp add: b_def)
qed

text \<open>The state of the buffers after some jobs.\<close>

definition span_drained :: "shards \<Rightarrow> nat \<Rightarrow> bspan list \<Rightarrow> job set \<Rightarrow> nat \<Rightarrow> sbuf \<Rightarrow> bool" where
  "span_drained s sub bs J k buf \<longleftrightarrow>
     (if is_view (bs_buf (bs ! k)) then buf = bs_buf (bs ! k)
      else \<exists>d. buf = Heap (buf_addr (bs_buf (bs ! k))) d \<and> length d = length (buf_bytes (bs_buf (bs ! k))) \<and>
        (\<forall>j a c p. j \<in> J \<longrightarrow> is_job sub bs j k a c \<longrightarrow> a \<le> p \<longrightarrow> p < a + c \<longrightarrow>
           d ! (bs_skew (bs ! k) + p) = file_bytes s (bs_file (bs ! k)) ! (unat (bs_read_off (bs ! k)) + p)))"

definition drained :: "shards \<Rightarrow> nat \<Rightarrow> bspan list \<Rightarrow> job set \<Rightarrow> sbuf list \<Rightarrow> bool" where
  "drained s sub bs J bufs \<longleftrightarrow> length bufs = length bs \<and> (\<forall>k < length bs. span_drained s sub bs J k (bufs ! k))"

lemma span_drained_other:
  assumes "span_drained s sub bs J k buf" and "j_span j \<noteq> k"
  shows "span_drained s sub bs (insert j J) k buf"
proof -
  have "\<not> is_job sub bs j k a c" for a c using assms(2) by (auto simp: is_job_def)
  then show ?thesis using assms(1) unfolding span_drained_def by (auto split: if_splits)
qed

lemma run_job_drained:
  assumes "drained s (sub_bytes env) bs J bufs" and "j \<in> set (all_jobs (sub_bytes env) bs)"
    and "\<forall>b \<in> set bs. span_good env s b" and "env_ok env s alloc"
  shows "\<exists>bufs'. run_job env s j (bufs, err) = (bufs', err) \<and> drained s (sub_bytes env) bs (insert j J) bufs'"
proof -
  obtain k a c where jk: "is_job (sub_bytes env) bs j k a c" using assms(2) by (auto simp: all_jobs_iff)
  then have k: "k < length bs" "\<not> is_view (bs_buf (bs ! k))" "j_span j = k" "j_at j = bs_skew (bs ! k) + a"
    by (simp_all add: is_job_def)
  define b where "b = bs ! k"
  define C where "C = file_bytes s (bs_file b)"
  have good: "span_good env s b" using assms(3) k(1) by (simp add: b_def)
  obtain d where d: "bufs ! k = Heap (buf_addr (bs_buf b)) d" "length d = length (buf_bytes (bs_buf b))"
    and dj: "\<And>j' a c p. j' \<in> J \<Longrightarrow> is_job (sub_bytes env) bs j' k a c \<Longrightarrow> a \<le> p \<Longrightarrow> p < a + c \<Longrightarrow>
      d ! (bs_skew b + p) = C ! (unat (bs_read_off b) + p)"
    using assms(1) k unfolding drained_def span_drained_def b_def C_def by (metis (no_types, lifting))
  note read = job_reads [OF jk good [unfolded b_def] assms(4), of "bufs ! k"]
  define new where "new = take c (drop (unat (bs_read_off b) + a) C)"
  have win: "unat (bs_read_off b) + bs_read_len b \<le> length C" "bs_skew b + bs_read_len b \<le> length d"
    using good k(2) d(2) by (auto simp: span_good_def b_def C_def)
  have ac: "a + c \<le> bs_read_len b" using read(2) d(1) by (simp add: b_def)
  have new: "length new = c" "\<And>q. q < c \<Longrightarrow> new ! q = C ! (unat (bs_read_off b) + a + q)"
    using ac win(1) by (simp_all add: new_def)
  define bufs' where "bufs' = bufs[k := Heap (buf_addr (bs_buf b)) (patch (bs_skew b + a) new d)]"
  have run: "run_job env s j (bufs, err) = (bufs', err)"
    using read(1) d(1) k(3,4) by (simp add: run_job_def bufs'_def new_def C_def b_def)
  have fits: "bs_skew b + a + length new \<le> length d" using ac win(2) new(1) by simp
  have right: "patch (bs_skew b + a) new d ! (bs_skew b + p) = C ! (unat (bs_read_off b) + p)"
    if "j' \<in> insert j J" "is_job (sub_bytes env) bs j' k a' c'" "a' \<le> p" "p < a' + c'" for j' a' c' p
  proof -
    have "p < bs_read_len b"
      using that(4) chunk_starts_range [of a' c' "bs_read_len b" "sub_bytes env" "bs_read_len b" 0] that(2) assms(4)
      by (auto simp: is_job_def b_def env_ok_def)
    then have q: "bs_skew b + p < length d" using win(2) by simp
    show ?thesis
    proof (cases "a \<le> p \<and> p < a + c")
      case True
      then have "p - a < c" "a + (p - a) = p" by linarith+
      then have "new ! (p - a) = C ! (unat (bs_read_off b) + p)" using new(2) [of "p - a"] by (simp add: add.assoc)
      then show ?thesis using nth_patch [OF fits q] new(1) True by simp
    next
      case False
      have "j' = j \<Longrightarrow> a' = a \<and> c' = c"
        using that(2) jk by (simp add: is_job_def)
      then have "j' \<in> J" using that False by auto
      then show ?thesis using nth_patch [OF fits q] new(1) dj that False by simp
    qed
  qed
  have "span_drained s (sub_bytes env) bs (insert j J) k (Heap (buf_addr (bs_buf b)) (patch (bs_skew b + a) new d))"
  proof -
    have "\<forall>j' a' c' p. j' \<in> insert j J \<longrightarrow> is_job (sub_bytes env) bs j' k a' c' \<longrightarrow> a' \<le> p \<longrightarrow> p < a' + c' \<longrightarrow>
        patch (bs_skew b + a) new d ! (bs_skew b + p) = C ! (unat (bs_read_off b) + p)"
      using right by blast
    then show ?thesis unfolding span_drained_def b_def [symmetric] C_def [symmetric]
      using k(2) d(2) length_patch [OF fits] by (simp add: b_def [symmetric])
  qed
  then have "span_drained s (sub_bytes env) bs (insert j J) i (bufs' ! i)" if "i < length bs" for i
    using assms(1) k(1,3) that span_drained_other [of s "sub_bytes env" bs J i "bufs ! i" j]
    unfolding drained_def bufs'_def by (cases "i = k") simp_all
  then have "drained s (sub_bytes env) bs (insert j J) bufs'"
    using assms(1) by (simp add: drained_def bufs'_def)
  then show ?thesis using run by blast
qed

lemma drain_jobs:
  assumes "drained s (sub_bytes env) bs J bufs" and "set order \<subseteq> {..<length jobs}"
    and jobs: "jobs = all_jobs (sub_bytes env) bs"
    and "\<forall>b \<in> set bs. span_good env s b" and "env_ok env s alloc"
  shows "\<exists>bufs'. fold (\<lambda>i. run_job env s (jobs ! i)) order (bufs, None) = (bufs', None) \<and>
    drained s (sub_bytes env) bs (J \<union> (!) jobs ` set order) bufs'"
  using assms(1,2)
proof (induction order arbitrary: J bufs)
  case (Cons i order)
  then have "jobs ! i \<in> set (all_jobs (sub_bytes env) bs)" by (simp add: jobs)
  from run_job_drained [OF Cons.prems(1) this assms(4,5), of None] obtain bufs' where
    step: "run_job env s (jobs ! i) (bufs, None) = (bufs', None)"
    "drained s (sub_bytes env) bs (insert (jobs ! i) J) bufs'" by blast
  from Cons.IH [OF step(2)] Cons.prems(2) step(1) show ?case by auto
qed simp

lemma drained_filled:
  assumes "drained s (sub_bytes env) bs (set (all_jobs (sub_bytes env) bs)) bufs" and "k < length bs"
    and good: "span_good env s (bs ! k)" and env: "env_ok env s alloc"
  shows "filled s (bs ! k) (buf_bytes (bufs ! k))"
proof (cases "is_view (bs_buf (bs ! k))")
  case True
  then show ?thesis using assms(1,2) by (simp add: drained_def span_drained_def filled_def)
next
  case False
  define b where "b = bs ! k"
  define C where "C = file_bytes s (bs_file b)"
  obtain d where d: "bufs ! k = Heap (buf_addr (bs_buf b)) d" "length d = length (buf_bytes (bs_buf b))"
    and dj: "\<And>j a c p. j \<in> set (all_jobs (sub_bytes env) bs) \<Longrightarrow> is_job (sub_bytes env) bs j k a c \<Longrightarrow>
      a \<le> p \<Longrightarrow> p < a + c \<Longrightarrow> d ! (bs_skew b + p) = C ! (unat (bs_read_off b) + p)"
    using assms(1,2) False unfolding drained_def span_drained_def b_def C_def by (metis (no_types, lifting))
  have win: "unat (bs_read_off b) + bs_read_len b \<le> length C" "bs_skew b + bs_read_len b \<le> length d"
    using good False d(2) by (auto simp: span_good_def b_def C_def)
  have "d ! (bs_skew b + p) = C ! (unat (bs_read_off b) + p)" if p: "p < bs_read_len b" for p
  proof -
    have "0 < sub_bytes env" using env by (simp add: env_ok_def)
    from chunk_starts_cover [OF _ p _ this, of 0 "bs_read_len b"] obtain a c
      where ac: "(a, c) \<in> set (chunk_starts (bs_read_len b) (sub_bytes env) (bs_read_len b) 0)" "a \<le> p" "p < a + c"
      by auto
    define j where "j = \<lparr>j_file = bs_file b, j_off = bs_read_off b + of_nat a, j_span = k,
      j_at = bs_skew b + a, j_len = c\<rparr>"
    have j: "is_job (sub_bytes env) bs j k a c"
      using assms(2) False ac(1) by (simp add: is_job_def j_def b_def)
    then have "j \<in> set (all_jobs (sub_bytes env) bs)" by (auto simp: all_jobs_iff)
    from dj [OF this j ac(2,3)] show ?thesis .
  qed
  then have "take (bs_read_len b) (drop (bs_skew b) d) = take (bs_read_len b) (drop (unat (bs_read_off b)) C)"
    using win by (intro nth_equalityI) simp_all
  then show ?thesis using False d by (simp add: filled_def b_def C_def)
qed

lemma drain_fills:
  assumes "\<forall>b \<in> set bs. span_good env s b" and "env_ok env s alloc"
    and "set order = {..<length (all_jobs (sub_bytes env) bs)}"
  shows "\<exists>bufs. drain env s (all_jobs (sub_bytes env) bs) order (map bs_buf bs) = Inr bufs \<and>
    (\<forall>k < length bs. filled s (bs ! k) (buf_bytes (bufs ! k)))"
proof -
  let ?jobs = "all_jobs (sub_bytes env) bs"
  have heap: "\<exists>d. buf = Heap (buf_addr buf) d \<and> length d = length (buf_bytes buf)" if "\<not> is_view buf" for buf
    using that by (cases buf) simp_all
  have "drained s (sub_bytes env) bs {} (map bs_buf bs)"
    using heap by (simp add: drained_def span_drained_def)
  from drain_jobs [OF this _ refl assms(1,2), of order] assms(3) obtain bufs where
    run: "fold (\<lambda>i. run_job env s (?jobs ! i)) order (map bs_buf bs, None) = (bufs, None)"
    "drained s (sub_bytes env) bs ({} \<union> (!) ?jobs ` set order) bufs" by blast
  have "(!) ?jobs ` set order = set ?jobs" unfolding assms(3) by (auto simp: set_conv_nth)
  with run(2) have "drained s (sub_bytes env) bs (set ?jobs) bufs" by simp
  then have "\<forall>k < length bs. filled s (bs ! k) (buf_bytes (bufs ! k))"
    using drained_filled [OF _ _ _ assms(2)] assms(1) by simp
  then show ?thesis using run(1) by (simp add: drain_def)
qed

section \<open>The batched read\<close>

text \<open>
  C33: \<open>read_raw_shared_batched\<close> returns every requested tensor's own bytes whatever the workers do:
  for every order in which the threads take the jobs (each job once), any buffer addresses and
  stale contents the pool hands out, any page-residency answers and \<open>O_DIRECT\<close> on or off, the call
  succeeds and the view of each name is exactly what a raw read of that tensor returns, in bounds.
  Under \<open>O_DIRECT\<close> this needs files whose size is a multiple of the 512-byte block.
\<close>

theorem batched_views_are_tensors:
  assumes "\<forall>g \<in> set groups. \<forall>n \<in> set g. readable s n" and "env_ok env s alloc"
    and "\<And>n. mset (order n) = mset [0..<n]"
  shows "\<exists>vss. read_raw_shared_batched env s alloc order groups = Inr vss \<and>
    list_all2 (\<lambda>g vs. length vs = length g \<and>
      (\<forall>i < length g. case vs ! i of (buf, off, len) \<Rightarrow> off + len \<le> length buf \<and>
         read_raw s (g ! i) (replicate len 0) = Inr (take len (drop off buf)))) groups vss"
proof -
  obtain bs maps where lay: "layout_groups env s alloc 0 groups = Inr (bs, maps)" "\<forall>b \<in> set bs. span_good env s b"
    and views: "\<And>D. (\<forall>j < length bs. filled s (bs ! j) (D j)) \<Longrightarrow>
      list_all2 (\<lambda>g m. views_for s D g m (length bs)) groups maps"
    using layout_groups_views [OF assms(1,2), of 0] by auto
  let ?jobs = "all_jobs (sub_bytes env) bs"
  have "set (order (length ?jobs)) = {..<length ?jobs}"
    using mset_eq_setD [OF assms(3) [of "length ?jobs"]] by (simp add: atLeast0LessThan)
  from drain_fills [OF lay(2) assms(2) this] obtain bufs where
    run: "drain env s ?jobs (order (length ?jobs)) (map bs_buf bs) = Inr bufs"
    and full: "\<forall>k < length bs. filled s (bs ! k) (buf_bytes (bufs ! k))" by blast
  define view where "view = (\<lambda>(k, off :: nat, len :: nat). (buf_bytes (bufs ! k), off, len))"
  have "list_all2 (\<lambda>g m. views_for s (\<lambda>k. buf_bytes (bufs ! k)) g m (length bs)) groups maps"
    by (rule views) (rule full)
  then have "list_all2 (\<lambda>g vs. length vs = length g \<and>
      (\<forall>i < length g. case vs ! i of (buf, off, len) \<Rightarrow> off + len \<le> length buf \<and>
         read_raw s (g ! i) (replicate len 0) = Inr (take len (drop off buf)))) groups (map (map view) maps)"
    unfolding list_all2_map2
  proof (rule list.rel_mono_strong)
    fix g m assume g: "g \<in> set groups" and v: "views_for s (\<lambda>k. buf_bytes (bufs ! k)) g m (length bs)"
    have "case map view m ! i of (buf, off, len) \<Rightarrow> off + len \<le> length buf \<and>
        read_raw s (g ! i) (replicate len 0) = Inr (take len (drop off buf))" if "i < length g" for i
      using v that readable_read_raw [of s "g ! i"] assms(1) g
      by (auto simp: views_for_def view_ok_def view_def split: prod.split)
    then show "length (map view m) = length g \<and> (\<forall>i < length g. case map view m ! i of (buf, off, len) \<Rightarrow>
        off + len \<le> length buf \<and> read_raw s (g ! i) (replicate len 0) = Inr (take len (drop off buf)))"
      using v by (simp add: views_for_def)
  qed
  then show ?thesis using lay(1) run by (simp add: read_raw_shared_batched_def view_def)
qed

definition direct_env :: read_env where
  "direct_env = \<lparr>mmap_on = False, sample = 8, core_pages = (\<lambda>_ _. True), o_direct = True,
     direct_fd = (\<lambda>_. True), sub_bytes = 512\<rparr>"

theorem batched_views_are_tensors_witness:
  "\<exists>vss. read_raw_shared_batched direct_env demo_shards (\<lambda>k n. (1000 + k, replicate n 9)) (\<lambda>n. rev [0..<n])
      [[lit ''b'', lit ''a'']] = Inr vss \<and>
    list_all2 (\<lambda>g vs. length vs = length g \<and>
      (\<forall>i < length g. case vs ! i of (buf, off, len) \<Rightarrow> off + len \<le> length buf \<and>
         read_raw demo_shards (g ! i) (replicate len 0) = Inr (take len (drop off buf)))) [[lit ''b'', lit ''a'']] vss"
proof (rule batched_views_are_tensors)
  show "\<forall>g \<in> set [[lit ''b'', lit ''a'']]. \<forall>n \<in> set g. readable demo_shards n" using demo_readable by simp
  show "env_ok direct_env demo_shards (\<lambda>k n. (1000 + k, replicate n 9))"
    by (simp add: env_ok_def direct_env_def demo_shards_def)
qed simp

section \<open>Reads past the end under \<open>O_DIRECT\<close>\<close>

lemma failed_job_fails:
  assumes "j \<in> set order" and "\<And>addr. \<exists>e. pread_dispatch env s (j_file (jobs ! j)) (j_off (jobs ! j)) addr (j_len (jobs ! j)) = Inl e"
  shows "\<exists>bufs' e. fold (\<lambda>i. run_job env s (jobs ! i)) order (bufs, err) = (bufs', Some e)"
proof -
  have kept: "\<exists>b e. fold (\<lambda>i. run_job env s (jobs ! i)) os (bufs, Some e0) = (b, Some e)" for os bufs e0
  proof (induction os arbitrary: bufs e0)
    case (Cons i os)
    then show ?case by (simp add: run_job_def split: sum.split)
  qed simp
  show ?thesis using assms(1)
  proof (induction order arbitrary: bufs err)
    case (Cons i order)
    show ?case
    proof (cases "i = j")
      case True
      obtain e where "run_job env s (jobs ! j) (bufs, err) = (bufs, Some e)"
        using assms(2) [of "buf_addr (bufs ! j_span (jobs ! j)) + j_at (jobs ! j)"] by (auto simp: run_job_def)
      then show ?thesis using kept True by simp
    next
      case False
      obtain b' err' where "run_job env s (jobs ! i) (bufs, err) = (b', err')" by force
      then show ?thesis using Cons False by simp
    qed
  qed simp
qed

text \<open>
  C34: \<open>O_DIRECT\<close> cannot read a tensor at the end of a file whose size is not a multiple of the block:
  the span is rounded up past the end of the file and the last job of the batch hits the end, on
  the direct descriptor and on the buffered fallback alike, so the whole call fails although the
  tensor is inside its file and a plain read returns it.
\<close>

theorem direct_tail_read_fails:
  assumes "readable s n" and "sh_find s n = Some t" and "0 < st_nbytes t"
    and "unat (st_off t) + unat (st_nbytes t) = length (snd (sh_files s ! st_file t))"
    and "\<not> 512 dvd length (snd (sh_files s ! st_file t))"
    and "o_direct env" and "\<not> mmap_on env" and "0 < sub_bytes env"
    and "\<And>n. mset (order n) = mset [0..<n]"
  shows "\<exists>e. read_raw_shared_batched env s alloc order [[n]] = Inl e"
proof -
  define C where "C = snd (sh_files s ! st_file t)"
  have f: "idx (sh_files s) (st_file t) = Some (sh_files s ! st_file t)" and len: "length C < 2 ^ 63"
    using assms(1,2) by (auto simp: readable_def idx_def C_def split: option.splits if_splits)
  have sum: "unat (st_off t + st_nbytes t) = length C"
    using assms(4) len by (simp add: C_def unat_add_no_wrap)
  define l where "l = span_len (st_off t) (st_off t + st_nbytes t)"
  have l: "l = unat (st_nbytes t)" by (simp add: l_def span_len_def)
  define pad where "pad = unat (st_off t AND 511)"
  define rl where "rl = next_multiple (pad + l)"
  obtain addr stale where al: "alloc 0 (rl + 512) = (addr, stale)" by force
  define b where "b = \<lparr>bs_file = st_file t, bs_read_off = st_off t - of_nat pad, bs_read_len = rl,
    bs_skew = nat ((- int addr) mod 512), bs_buf = Heap addr stale\<rparr>"
  have ofp: "(of_nat pad :: u64) = st_off t AND 511" by (simp add: pad_def)
  have lay: "\<exists>maps. layout_groups env s alloc 0 [[n]] = Inr ([b], maps)"
    using assms(2,6,7) al ofp
    by (simp add: meta_of_def sh_tensor_def in_file_order_def layout_span_def mapped_view_def Let_def
        b_def l_def [symmetric] pad_def [symmetric] rl_def [symmetric])
  note p = pad_props [of "st_off t", folded pad_def]
  have past: "length C < unat (bs_read_off b) + rl"
  proof -
    have "unat (bs_read_off b) + (pad + l) = length C" using p(1,4) assms(4) l by (simp add: b_def C_def)
    moreover have "512 dvd unat (bs_read_off b)" "512 dvd rl" using p(3,4) next_multiple_props(1) by (simp_all add: b_def rl_def)
    moreover have "pad + l \<le> rl" using next_multiple_props(2) by (simp add: rl_def)
    ultimately show ?thesis using assms(5) by (metis C_def add_le_cancel_left dvd_add le_neq_implies_less)
  qed
  have "0 < rl" using past sum p(1,4) assms(4) by (simp add: b_def C_def)
  with chunk_starts_cover [of 0 "rl - 1" rl rl "sub_bytes env"] assms(8) obtain a c
    where ac: "(a, c) \<in> set (chunk_starts rl (sub_bytes env) rl 0)" "a \<le> rl - 1" "rl - 1 < a + c" by auto
  note r = chunk_starts_range [OF ac(1) assms(8)]
  define j where "j = \<lparr>j_file = st_file t, j_off = bs_read_off b + of_nat a, j_span = 0, j_at = bs_skew b + a, j_len = c\<rparr>"
  have "is_job (sub_bytes env) [b] j 0 a c" using ac(1) by (simp add: is_job_def j_def b_def)
  then have "j \<in> set (all_jobs (sub_bytes env) [b])" by (auto simp: all_jobs_iff)
  then obtain i where i: "i < length (all_jobs (sub_bytes env) [b])" "all_jobs (sub_bytes env) [b] ! i = j"
    by (auto simp: in_set_conv_nth)
  have fails: "\<exists>e. pread_dispatch env s (j_file j) (j_off j) addr' (j_len j) = Inl e" for addr'
  proof -
    have "unat (bs_read_off b) + a < 2 ^ 64"
    proof -
      have "a \<le> pad + l + 511" using r ac by (simp add: rl_def next_multiple_def)
      then show ?thesis using len p(1,4) assms(4) l by (simp add: b_def C_def)
    qed
    from pread_at [OF f this, of c] have "pread_into s (j_file j) (j_off j) (j_len j) = Inl Unexpected_end"
      using past r ac by (simp add: j_def read_exact_at_def C_def [symmetric])
    then show ?thesis by (simp add: pread_dispatch_def)
  qed
  define order' where "order' = order (length (all_jobs (sub_bytes env) [b]))"
  have "i \<in> set order'" using i(1) mset_eq_setD [OF assms(9)] by (simp add: order'_def atLeast0LessThan)
  from failed_job_fails [OF this, of env s "all_jobs (sub_bytes env) [b]" "map bs_buf [b]" None] fails i(2)
  obtain bufs e where "fold (\<lambda>i. run_job env s (all_jobs (sub_bytes env) [b] ! i)) order' (map bs_buf [b], None) = (bufs, Some e)"
    by auto
  then have "drain env s (all_jobs (sub_bytes env) [b]) order' (map bs_buf [b]) = Inl e" by (simp add: drain_def)
  then show ?thesis using lay by (auto simp: read_raw_shared_batched_def order'_def)
qed

definition ragged_shards :: shards where
  "ragged_shards = demo_shards\<lparr>sh_files := [(lit ''m'', replicate 504 1 @ replicate 8 2 @ [3])],
     sh_tensors := map (\<lambda>t. t\<lparr>st_nbytes := 9\<rparr>) (sh_tensors demo_shards)\<rparr>"

theorem direct_tail_read_fails_witness:
  "\<exists>e. read_raw_shared_batched direct_env ragged_shards (\<lambda>k n. (1000 + k, replicate n 9)) (\<lambda>n. [0..<n]) [[lit ''b'']] = Inl e"
proof (rule direct_tail_read_fails)
  show "sh_find ragged_shards (lit ''b'') = Some ((sh_tensors ragged_shards) ! 1)"
    by (simp add: ragged_shards_def demo_shards_def sh_find_def idx_def)
qed (simp_all add: readable_def ragged_shards_def demo_shards_def sh_find_def idx_def direct_env_def lit_def dvd_eq_mod_eq_0)

end
