(* ===== verification/Discovery.thy ===== *)
theory Discovery
  imports Text "HOL-Library.List_Lexorder"
begin

text \<open>
  Peer discovery on the fabric, \<open>colibri-cluster/src/discovery.rs\<close>: addresses and subnets, the
  tables of the operating system, the beacon, the listener and the merge of the neighbour table.

  Files, tool output and datagrams are their texts; what the system answers is an argument of
  \<open>discover\<close>.  Sockets, threads, sleeping and the printed report are not modelled: the datagrams
  that reach the listener during the window are a list in their order of arrival.
\<close>

section \<open>Addresses\<close>

type_synonym ipv4 = u32

text \<open>\<open>Ipv4Addr::from_str\<close>: four decimal octets of one to three digits without leading zeros.\<close>

definition parse_octet :: "str \<Rightarrow> nat option" where
  "parse_octet s =
     (if s = [] \<or> 3 < length s \<or> 1 < length s \<and> hd s = 48 then None else digits_val 256 10 0 s)"

definition parse_ipv4 :: "str \<Rightarrow> ipv4 option" where
  "parse_ipv4 s =
     (case map parse_octet (split_on 46 s) of
        [Some a, Some b, Some c, Some d] \<Rightarrow> Some (of_nat (((a * 256 + b) * 256 + c) * 256 + d))
      | _ \<Rightarrow> None)"

definition parse_cidr :: "str \<Rightarrow> (ipv4 \<times> nat) option" where
  "parse_cidr s = do {
     (ip, pfx) \<leftarrow> split_once 47 s;
     a \<leftarrow> parse_ipv4 ip;
     p \<leftarrow> parse_uint 256 10 pfx;
     Some (a, p) }"

definition broadcast_addr :: "ipv4 \<Rightarrow> nat \<Rightarrow> ipv4" where
  "broadcast_addr ip prefix =
     (if prefix = 0 then -1
      else let msk = (if 32 \<le> prefix then -1 else NOT (drop_bit prefix (-1))) in ip OR NOT msk)"

fun join :: "str \<Rightarrow> str list \<Rightarrow> str" where
  "join sep [] = []"
| "join sep [w] = w"
| "join sep (w # ws) = w @ sep @ join sep ws"

definition oui_of :: "str \<Rightarrow> str" where
  "oui_of mac = ascii_lower (join [58] (take 3 (split_on 58 mac)))"

section \<open>Links\<close>

record connectx_link =
  rdma_dev :: str
  netdev :: str
  link_mac :: str
  link_ipv4 :: "ipv4 option"
  link_prefix :: nat
  link_active :: bool

text \<open>An entry of \<open>/sys/class/infiniband\<close>: its name, netdev, state, physical state and MAC address.\<close>

record sys_dev =
  dev_name :: str
  dev_netdev :: "str option"
  dev_state :: str
  dev_phys :: str
  dev_mac :: str

text \<open>\<open>t.iter().position(x).and_then(|i| t.get(i + 1))\<close>\<close>

fun after :: "str \<Rightarrow> str list \<Rightarrow> str option" where
  "after x [] = None"
| "after x (w # ws) = (if w = x then (case ws of [] \<Rightarrow> None | y # _ \<Rightarrow> Some y) else after x ws)"

definition ip_line :: "str \<Rightarrow> (str \<rightharpoonup> ipv4 \<times> nat \<times> ipv4 option) \<Rightarrow> (str \<rightharpoonup> ipv4 \<times> nat \<times> ipv4 option)" where
  "ip_line line m =
     (let t = split_ws line in
      case t of
        _ # iface # _ \<Rightarrow>
          (case Option.bind (after (str_of ''inet'') t) parse_cidr of
             Some (ip, pfx) \<Rightarrow> m(iface \<mapsto> (ip, pfx, Option.bind (after (str_of ''brd'') t) parse_ipv4))
           | None \<Rightarrow> m)
      | _ \<Rightarrow> m)"

definition read_ip_addrs :: "str option \<Rightarrow> (str \<rightharpoonup> ipv4 \<times> nat \<times> ipv4 option)" where
  "read_ip_addrs out = (case out of None \<Rightarrow> Map.empty | Some t \<Rightarrow> fold ip_line (lines_of t) Map.empty)"

definition link_of :: "(str \<rightharpoonup> ipv4 \<times> nat \<times> ipv4 option) \<Rightarrow> sys_dev \<Rightarrow> connectx_link option" where
  "link_of ipmap d =
     (case dev_netdev d of
        None \<Rightarrow> None
      | Some nd \<Rightarrow>
          let active = (contains (str_of ''ACTIVE'') (trim (dev_state d)) \<and>
                contains (str_of ''linkup'') (ascii_lower (trim (dev_phys d))));
              (ip, pfx) = (case ipmap nd of Some (ip, pfx, _) \<Rightarrow> (Some ip, pfx) | None \<Rightarrow> (None, 0))
          in Some \<lparr>rdma_dev = dev_name d, netdev = nd, link_mac = trim (dev_mac d), link_ipv4 = ip,
                   link_prefix = pfx, link_active = active\<rparr>)"

definition connectx_links :: "str option \<Rightarrow> sys_dev list option \<Rightarrow> connectx_link list" where
  "connectx_links ip_out devs =
     (case devs of None \<Rightarrow> []
      | Some ds \<Rightarrow> sort_key netdev (List.map_filter (link_of (read_ip_addrs ip_out)) ds))"

section \<open>The neighbour table\<close>

definition arp_line :: "str \<Rightarrow> (ipv4 \<times> str \<times> str) option" where
  "arp_line line =
     (case split_ws line of
        f0 # f1 # f2 # f3 # f4 # f5 # _ \<Rightarrow>
          if f2 = str_of ''0x0'' \<or> f3 = str_of ''00:00:00:00:00:00'' then None
          else map_option (\<lambda>ip. (ip, ascii_lower f3, f5)) (parse_ipv4 f0)
      | _ \<Rightarrow> None)"

definition read_arp :: "str option \<Rightarrow> (ipv4 \<times> str \<times> str) list" where
  "read_arp text = (case text of None \<Rightarrow> [] | Some t \<Rightarrow> List.map_filter arp_line (drop 1 (lines_of t)))"

section \<open>The sweep\<close>

definition MAX_SWEEP_HOSTS :: u32 where
  "MAX_SWEEP_HOSTS = 512"

text \<open>The shift amount \<open>32 - prefix\<close>, which wraps and is taken modulo 32.\<close>

definition host_bits :: "nat \<Rightarrow> nat" where
  "host_bits prefix = nat ((32 - int prefix) mod 32)"

definition link_targets :: "connectx_link \<Rightarrow> ipv4 list" where
  "link_targets l =
     (case link_ipv4 l of
        None \<Rightarrow> []
      | Some ip \<Rightarrow>
          if link_prefix l < 8 then []
          else let hosts = push_bit (host_bits (link_prefix l)) 1 :: u32
            in if MAX_SWEEP_HOSTS < sat_sub hosts 2 then []
               else let base = ip AND push_bit (host_bits (link_prefix l)) (-1)
                 in filter (\<lambda>addr. addr \<noteq> ip) (map (\<lambda>h. base OR of_nat h) [1..<unat (sat_sub hosts 1)]))"

definition sweep_subnets :: "connectx_link list \<Rightarrow> ipv4 list" where
  "sweep_subnets links = concat (map link_targets (filter link_active links))"

section \<open>The beacon\<close>

definition BEACON_MAGIC :: str where
  "BEACON_MAGIC = str_of ''COLISPRK1''"

definition beacon_msg :: "u64 \<Rightarrow> u32 \<Rightarrow> u16 \<Rightarrow> str \<Rightarrow> str" where
  "beacon_msg nonce rank serve_port host =
     BEACON_MAGIC @ [124] @ show_hex16 nonce @ [124] @ show_dec (unat rank) @ [124] @ show_dec (unat serve_port) @ [124] @
     map (\<lambda>c. if c = 124 then 95 else c) host"

definition parse_beacon :: "str \<Rightarrow> (u64 \<times> u32 \<times> u16 \<times> str) option" where
  "parse_beacon s =
     (case splitn 5 124 (trim s) of
        [] \<Rightarrow> None
      | m # fs \<Rightarrow>
          if m \<noteq> BEACON_MAGIC then None
          else (case fs of
             [n, r, p, h] \<Rightarrow> do {
               nonce \<leftarrow> parse_uint (2 ^ 64) 16 n;
               rank \<leftarrow> parse_uint (2 ^ 32) 10 r;
               port \<leftarrow> parse_uint (2 ^ 16) 10 p;
               Some (of_nat nonce, of_nat rank, of_nat port, h) }
           | _ \<Rightarrow> None))"

section \<open>Peers\<close>

datatype peer_kind = Coli | Fabric_neighbor

record peer =
  peer_ip :: ipv4
  peer_mac :: "str option"
  peer_host :: "str option"
  peer_rank :: "u32 option"
  peer_port :: "u16 option"
  peer_via :: str
  peer_kind :: peer_kind
  nic_match :: bool

definition new_peer :: "ipv4 \<Rightarrow> str \<Rightarrow> peer" where
  "new_peer ip via = \<lparr>peer_ip = ip, peer_mac = None, peer_host = None, peer_rank = None, peer_port = None,
     peer_via = via, peer_kind = Fabric_neighbor, nic_match = False\<rparr>"

text \<open>A datagram is its text and its source, if that is an IPv4 address.\<close>

definition listen_step :: "u64 \<Rightarrow> ipv4 list \<Rightarrow> str \<times> ipv4 option \<Rightarrow> (ipv4 \<times> peer) list \<Rightarrow> (ipv4 \<times> peer) list" where
  "listen_step nonce local_ips dg m =
     (case parse_beacon (fst dg) of
        None \<Rightarrow> m
      | Some (bn, brank, bport, bhost) \<Rightarrow>
          if bn = nonce then m
          else case snd dg of
            None \<Rightarrow> m
          | Some ip \<Rightarrow>
              if ip \<in> set local_ips then m
              else entry_mod ip (new_peer ip []) (\<lambda>e. e\<lparr>peer_kind := Coli, peer_host := Some bhost,
                     peer_rank := Some brank, peer_port := Some bport\<rparr>) m)"

definition subnets_of :: "connectx_link list \<Rightarrow> (u32 \<times> u32 \<times> str) list" where
  "subnets_of links = List.map_filter (\<lambda>l. map_option (\<lambda>ip.
     let msk = (if link_prefix l = 0 then 0 else push_bit (host_bits (link_prefix l)) (-1))
     in (ip AND msk, msk, netdev l)) (link_ipv4 l)) (filter link_active links)"

definition arp_step :: "(u32 \<times> u32 \<times> str) list \<Rightarrow> str list \<Rightarrow> ipv4 list \<Rightarrow> ipv4 \<times> str \<times> str \<Rightarrow>
    (ipv4 \<times> peer) list \<Rightarrow> (ipv4 \<times> peer) list" where
  "arp_step subnets local_ouis local_ips en m = (case en of (ip, mac, dev) \<Rightarrow>
     if ip \<in> set local_ips then m
     else case find (\<lambda>(net, msk, d). ip AND msk = net) subnets of
       None \<Rightarrow> m
     | Some (net, msk, via) \<Rightarrow>
         entry_mod ip (new_peer ip via) (\<lambda>e. e\<lparr>
           peer_mac := (case peer_mac e of None \<Rightarrow> Some mac | Some x \<Rightarrow> Some x),
           peer_via := (if peer_via e = [] then via else peer_via e),
           nic_match := oui_of mac \<in> set local_ouis\<rparr>) m)"

record sys_env =
  ip_tool :: "str option"
  sys_devs :: "sys_dev list option"
  arp_table :: "str option"
  host_file :: "str option"
  host_env :: "str option"
  nonce_of :: u64
  listening :: bool
  datagrams :: "(str \<times> ipv4 option) list"

definition hostname :: "sys_env \<Rightarrow> str" where
  "hostname env =
     (case host_file env of
        Some s \<Rightarrow> if trim s \<noteq> [] then trim s else (case host_env env of Some h \<Rightarrow> h | None \<Rightarrow> str_of ''?'')
      | None \<Rightarrow> (case host_env env of Some h \<Rightarrow> h | None \<Rightarrow> str_of ''?''))"

record discovery =
  disc_host :: str
  disc_links :: "connectx_link list"
  disc_peers :: "peer list"

definition active_links :: "discovery \<Rightarrow> connectx_link list" where
  "active_links d = filter (\<lambda>l. link_active l \<and> link_ipv4 l \<noteq> None) (disc_links d)"

definition coli_peers :: "discovery \<Rightarrow> peer list" where
  "coli_peers d = filter (\<lambda>p. peer_kind p = Coli) (disc_peers d)"

definition local_ips_of :: "connectx_link list \<Rightarrow> ipv4 list" where
  "local_ips_of links = List.map_filter link_ipv4 links"

definition discover :: "sys_env \<Rightarrow> discovery" where
  "discover env =
     (let links = connectx_links (ip_tool env) (sys_devs env);
          local_ouis = filter (\<lambda>o'. o' \<noteq> []) (map (\<lambda>l. oui_of (link_mac l)) links);
          local_ips = local_ips_of links;
          heard = (if listening env then fold (listen_step (nonce_of env) local_ips) (datagrams env) [] else []);
          merged = fold (arp_step (subnets_of links) local_ouis local_ips) (read_arp (arp_table env)) heard
      in \<lparr>disc_host = hostname env, disc_links = links,
          disc_peers = sort_key (\<lambda>p. unat (peer_ip p)) (map snd merged)\<rparr>)"

text \<open>What a node sends on every active link: the beacon, to the broadcast address.\<close>

definition beacons :: "u64 \<Rightarrow> u32 \<Rightarrow> u16 \<Rightarrow> str \<Rightarrow> connectx_link list \<Rightarrow> (ipv4 \<times> str) list" where
  "beacons nonce rank serve_port host links = List.map_filter (\<lambda>l. map_option (\<lambda>ip.
     (broadcast_addr ip (link_prefix l), beacon_msg nonce rank serve_port host)) (link_ipv4 l)) (filter link_active links)"

section \<open>The beacon round trip\<close>

lemma splitn_step:
  assumes "d \<notin> set w"
  shows "splitn (Suc (Suc n)) d (w @ d # rest) = w # splitn (Suc n) d rest"
proof -
  have "takeWhile (\<lambda>c. c \<noteq> d) (w @ d # rest) = w" "dropWhile (\<lambda>c. c \<noteq> d) (w @ d # rest) = d # rest"
    using assms by (induction w) auto
  then show ?thesis by simp
qed

lemma trim_end_cons: "\<not> is_ws c \<Longrightarrow> rev (dropWhile is_ws (rev (xs @ c # s))) = xs @ c # trim_end s"
proof -
  assume c: "\<not> is_ws c"
  have "dropWhile is_ws (rev s @ c # rev xs) = dropWhile is_ws (rev s) @ c # rev xs"
    using c by (induction "rev s" arbitrary: s) (auto simp: dropWhile_append)
  then show ?thesis by (simp add: trim_end_def)
qed

lemma hex_digit_plain: "d < 16 \<Longrightarrow> hex_digit d \<noteq> 124"
  by (simp add: hex_digit_def)

text \<open>
  A beacon is understood by every node that hears it: for every nonce, rank, port and host name
  (whatever it contains) the parsed message gives the same nonce, rank and port, and the host name
  with its bars replaced and its trailing white space cut, so an ordinary host name comes back
  unchanged.
\<close>

lemma beacon_round_trip:
  "parse_beacon (beacon_msg nonce rank port host) =
     Some (nonce, rank, port, trim_end (map (\<lambda>c. if c = 124 then 95 else c) host))"
proof -
  define H where "H = map (\<lambda>c. if c = 124 then 95 else c) host"
  let ?pre = "BEACON_MAGIC @ [124] @ show_hex16 nonce @ [124] @ show_dec (unat rank) @ [124] @ show_dec (unat port)"
  have bar: "\<not> is_ws 124" by (simp add: is_ws_def)
  have "dropWhile is_ws (?pre @ 124 # H) = ?pre @ 124 # H"
    by (simp add: BEACON_MAGIC_def str_of_def is_ws_def)
  then have trim: "trim (beacon_msg nonce rank port host) = ?pre @ 124 # trim_end H"
    using trim_end_cons [OF bar, of ?pre H] by (simp add: trim_def beacon_msg_def H_def)
  have clean: "124 \<notin> set BEACON_MAGIC" "124 \<notin> set (show_hex16 nonce)" "124 \<notin> set (show_dec n)" for n
    using hex_digit_plain show_dec_digits [of 124 n] by (auto simp: BEACON_MAGIC_def str_of_def show_hex16_def)
  have "splitn 5 124 (?pre @ 124 # trim_end H) =
      [BEACON_MAGIC, show_hex16 nonce, show_dec (unat rank), show_dec (unat port), trim_end H]"
    using clean by (simp add: eval_nat_numeral splitn_step del: splitn.simps(3))
  moreover have "unat rank < 2 ^ 32" "unat port < 2 ^ 16"
    using unat_lt_pow [of rank] unat_lt_pow [of port] by simp_all
  ultimately show ?thesis
    unfolding parse_beacon_def trim
    by (simp add: parse_show_hex16 [simplified] parse_show_dec H_def)
qed

section \<open>The sweep\<close>

lemma host_bits_eq: "1 \<le> p \<Longrightarrow> p \<le> 32 \<Longrightarrow> host_bits p = 32 - p"
  unfolding host_bits_def by (subst mod_pos_pos_trivial) auto

lemma host_bits_less: "host_bits p < 32"
  by (simp add: host_bits_def nat_less_iff)

lemma unat_hosts: "k < 32 \<Longrightarrow> unat (push_bit k 1 :: u32) = 2 ^ k"
proof -
  assume k: "k < 32"
  then have "(2::nat) ^ k < 2 ^ 32" by (intro power_strict_increasing) simp_all
  moreover have "(push_bit k 1 :: u32) = of_nat (2 ^ k)" by (simp add: push_bit_of_1)
  ultimately show ?thesis by (simp only: unat_of_nat) simp
qed

lemma base_drop: "(ip :: u32) AND push_bit k (-1) = push_bit k (drop_bit k ip)"
  by (rule bit_eqI) (auto simp: bit_simps)

lemma unat_target:
  fixes ip :: u32
  assumes "h < 2 ^ k" and "k < 32"
  shows "unat (ip AND push_bit k (-1) OR of_nat h) = unat ip div 2 ^ k * 2 ^ k + h"
proof -
  have "(2::nat) ^ k < 2 ^ 32" using assms(2) by (intro power_strict_increasing) simp_all
  then have h: "unat (of_nat h :: u32) = h" using assms(1) by (simp add: unat_of_nat)
  have "unat ip div 2 ^ k * 2 ^ k + h < 2 ^ 32"
  proof -
    have "(2::nat) ^ 32 = 2 ^ (32 - k) * 2 ^ k" using assms(2) by (simp flip: power_add)
    moreover have "unat ip < 2 ^ 32" using unat_lt_pow [of ip] by simp
    ultimately have "unat ip div 2 ^ k < 2 ^ (32 - k)" by (simp add: less_mult_imp_div_less)
    then have "(unat ip div 2 ^ k + 1) * 2 ^ k \<le> 2 ^ (32 - k) * 2 ^ k" by (intro mult_le_mono1) simp
    then show ?thesis using assms(1) \<open>2 ^ 32 = 2 ^ (32 - k) * 2 ^ k\<close> by simp
  qed
  then show ?thesis unfolding base_drop
    using unat_push_or [of "drop_bit k ip" k "of_nat h"] h assms(1) by (simp add: unat_drop_bit)
qed

lemma link_targets_eq:
  assumes "link_ipv4 l = Some ip" and "8 \<le> link_prefix l" and "k = host_bits (link_prefix l)" and "2 ^ k - 2 \<le> (512 :: nat)"
  shows "link_targets l = filter (\<lambda>a. a \<noteq> ip) (map (\<lambda>h. ip AND push_bit k (-1) OR of_nat h) [1..<2 ^ k - 1])"
proof -
  have k: "k < 32" using assms(3) host_bits_less by simp
  have "unat (sat_sub (push_bit k 1) 2 :: u32) = 2 ^ k - 2" "unat (sat_sub (push_bit k 1) 1 :: u32) = 2 ^ k - 1"
    using unat_hosts [OF k] by simp_all
  moreover from this(1) have "\<not> MAX_SWEEP_HOSTS < sat_sub (push_bit k 1) 2"
    using assms(4) by (simp add: word_less_nat_alt MAX_SWEEP_HOSTS_def)
  ultimately show ?thesis using assms(1,2) by (simp add: link_targets_def assms(3) [symmetric] Let_def)
qed

lemma link_targets_none:
  assumes "\<not> 2 ^ host_bits (link_prefix l) - 2 \<le> (512 :: nat)"
  shows "link_targets l = []"
proof -
  define k where "k = host_bits (link_prefix l)"
  have "unat (sat_sub (push_bit k 1) 2 :: u32) = 2 ^ k - 2" using unat_hosts [of k] host_bits_less by (simp add: k_def)
  then have "MAX_SWEEP_HOSTS < sat_sub (push_bit k 1) 2"
    using assms by (simp add: word_less_nat_alt MAX_SWEEP_HOSTS_def k_def)
  then show ?thesis by (simp add: link_targets_def k_def Let_def split: option.split)
qed

text \<open>
  The sweep of a link with a prefix from 8 to 32 sends to exactly the other hosts of its subnet:
  when the subnet has at most 512 of them, an address is probed if and only if it has the link's
  network bits, is not the link's own address and is neither the network nor the broadcast address,
  each once; a larger subnet is not probed at all.  (A subnet of two addresses, prefix 31, has no
  such host.)
\<close>

lemma sweep_exactly_subnet:
  assumes "link_ipv4 l = Some ip" and "8 \<le> link_prefix l" and "link_prefix l \<le> 32" and "k = 32 - link_prefix l"
  shows "distinct (link_targets l) \<and> length (link_targets l) \<le> 512 \<and>
    set (link_targets l) = (if 2 ^ k - 2 \<le> (512 :: nat) then {a. unat a div 2 ^ k = unat ip div 2 ^ k \<and> a \<noteq> ip \<and>
       unat a mod 2 ^ k \<noteq> 0 \<and> unat a mod 2 ^ k \<noteq> 2 ^ k - 1} else {})"
proof (cases "2 ^ k - 2 \<le> (512 :: nat)")
  case True
  have k: "k = host_bits (link_prefix l)" "k < 32" using assms host_bits_eq by simp_all
  define tgt where "tgt = (\<lambda>h. ip AND push_bit k (-1) OR of_nat h :: u32)"
  have t: "link_targets l = filter (\<lambda>a. a \<noteq> ip) (map tgt [1..<2 ^ k - 1])"
    using link_targets_eq [OF assms(1,2) k(1) True] by (simp add: tgt_def)
  have u: "unat (tgt h) = unat ip div 2 ^ k * 2 ^ k + h" if "h < 2 ^ k" for h
    using unat_target [OF that k(2)] by (simp add: tgt_def)
  have "inj_on tgt {..<2 ^ k}" by (rule inj_onI) (metis add_left_cancel lessThan_iff u)
  then have "inj_on tgt (set [1..<2 ^ k - 1])" by (rule inj_on_subset) auto
  then have d: "distinct (link_targets l)" by (simp add: t distinct_map)
  have "length (link_targets l) \<le> length [1..<2 ^ k - 1]" unfolding t by (metis length_filter_le length_map)
  then have len: "length (link_targets l) \<le> 512" using True by simp
  have "a \<in> tgt ` {1..<2 ^ k - 1} \<longleftrightarrow>
      unat a div 2 ^ k = unat ip div 2 ^ k \<and> unat a mod 2 ^ k \<noteq> 0 \<and> unat a mod 2 ^ k \<noteq> 2 ^ k - 1" for a
  proof
    assume "a \<in> tgt ` {1..<2 ^ k - 1}"
    then obtain h where "1 \<le> h" "h < 2 ^ k - 1" "a = tgt h" by auto
    then show "unat a div 2 ^ k = unat ip div 2 ^ k \<and> unat a mod 2 ^ k \<noteq> 0 \<and> unat a mod 2 ^ k \<noteq> 2 ^ k - 1"
      by (simp add: u)
  next
    assume *: "unat a div 2 ^ k = unat ip div 2 ^ k \<and> unat a mod 2 ^ k \<noteq> 0 \<and> unat a mod 2 ^ k \<noteq> 2 ^ k - 1"
    define h where "h = unat a mod 2 ^ k"
    have h: "h < 2 ^ k" by (simp add: h_def)
    moreover have "h \<noteq> 0" "h \<noteq> 2 ^ k - 1" using * by (simp_all add: h_def)
    ultimately have "h \<in> {1..<2 ^ k - 1}" by auto
    have "unat a = unat a div 2 ^ k * 2 ^ k + h" by (simp only: h_def div_mult_mod_eq)
    then have "tgt h = a" using u [OF h] * by (simp add: word_unat_eq_iff)
    then show "a \<in> tgt ` {1..<2 ^ k - 1}" using \<open>h \<in> {1..<2 ^ k - 1}\<close> by blast
  qed
  then have "set (link_targets l) = {a. unat a div 2 ^ k = unat ip div 2 ^ k \<and> a \<noteq> ip \<and>
      unat a mod 2 ^ k \<noteq> 0 \<and> unat a mod 2 ^ k \<noteq> 2 ^ k - 1}"
    unfolding t by auto
  then show ?thesis using d len True by simp
next
  case False
  then have "link_targets l = []" using link_targets_none [of l] assms host_bits_eq by simp
  then show ?thesis using False by simp
qed

definition demo_link :: connectx_link where
  "demo_link = \<lparr>rdma_dev = [], netdev = str_of ''enp1'', link_mac = [], link_ipv4 = Some 0xC0A8640B, link_prefix = 24,
     link_active = True\<rparr>"

section \<open>Who is reported\<close>

text \<open>An address announced itself: a beacon with another nonce came from it, and it is not ours.\<close>

definition heard_from :: "u64 \<Rightarrow> ipv4 list \<Rightarrow> (str \<times> ipv4 option) list \<Rightarrow> ipv4 set" where
  "heard_from nonce local_ips dgs = {ip. ip \<notin> set local_ips \<and>
     (\<exists>msg b. (msg, Some ip) \<in> set dgs \<and> parse_beacon msg = Some b \<and> fst b \<noteq> nonce)}"

definition on_fabric :: "connectx_link list \<Rightarrow> ipv4 \<Rightarrow> bool" where
  "on_fabric links ip \<longleftrightarrow> (\<exists>(net, msk, d) \<in> set (subnets_of links). ip AND msk = net)"

definition peers_inv :: "ipv4 list \<Rightarrow> (ipv4 \<Rightarrow> bool) \<Rightarrow> ipv4 set \<Rightarrow> (ipv4 \<times> peer) list \<Rightarrow> bool" where
  "peers_inv local_ips fab A m \<longleftrightarrow> distinct (map fst m) \<and> A \<subseteq> fst ` set m \<and>
     (\<forall>(ip, p) \<in> set m. peer_ip p = ip \<and> ip \<notin> set local_ips \<and> (peer_kind p = Coli \<longleftrightarrow> ip \<in> A) \<and> (ip \<in> A \<or> fab ip))"

lemma set_entry_mod:
  assumes "kv \<in> set (entry_mod k d f m)" and "distinct (map fst m)"
  shows "kv \<in> set m \<and> fst kv \<noteq> k \<or> kv = (k, f d) \<and> k \<notin> fst ` set m \<or> (\<exists>v. (k, v) \<in> set m \<and> kv = (k, f v))"
  using assms by (induction k d f m rule: entry_mod.induct) (auto split: if_splits simp: image_iff)

lemma peers_inv_entry:
  assumes "peers_inv local_ips fab A m" and "ip \<notin> set local_ips"
    and "peer_ip d = ip" and "\<And>p. peer_ip (f p) = peer_ip p"
    and "ip \<notin> fst ` set m \<Longrightarrow> peer_kind (f d) = Coli \<longleftrightarrow> ip \<in> A'" and "\<And>p. (ip, p) \<in> set m \<Longrightarrow> peer_kind (f p) = Coli \<longleftrightarrow> ip \<in> A'"
    and "A' = A \<or> A' = insert ip A" and "ip \<in> A' \<or> fab ip"
  shows "peers_inv local_ips fab A' (entry_mod ip d f m)"
proof -
  have "distinct (map fst m)" "A \<subseteq> fst ` set m" using assms(1) by (auto simp: peers_inv_def)
  then have "distinct (map fst (entry_mod ip d f m))" "A' \<subseteq> fst ` set (entry_mod ip d f m)" using assms(7) by auto
  moreover have "peer_ip p = i \<and> i \<notin> set local_ips \<and> (peer_kind p = Coli \<longleftrightarrow> i \<in> A') \<and> (i \<in> A' \<or> fab i)"
    if mem: "(i, p) \<in> set (entry_mod ip d f m)" for i p
  proof -
    consider "(i, p) \<in> set m" "i \<noteq> ip" | "i = ip" "p = f d" "ip \<notin> fst ` set m" | v where "(ip, v) \<in> set m" "i = ip" "p = f v"
      using set_entry_mod [OF mem \<open>distinct (map fst m)\<close>] by auto
    then show ?thesis
    proof cases
      case 1
      then show ?thesis using assms(1,7) by (auto simp: peers_inv_def)
    next
      case 2
      then show ?thesis using assms by simp
    next
      case 3
      then have "peer_ip v = ip" using assms(1) by (auto simp: peers_inv_def)
      then show ?thesis using 3 assms by simp
    qed
  qed
  ultimately show ?thesis unfolding peers_inv_def by blast
qed

lemma listen_fold_inv:
  "peers_inv local_ips fab (heard_from nonce local_ips dgs) (fold (listen_step nonce local_ips) dgs [])"
proof (induction dgs rule: rev_induct)
  case Nil
  then show ?case by (simp add: peers_inv_def heard_from_def)
next
  case (snoc dg dgs)
  obtain msg src where dg: "dg = (msg, src)" by force
  let ?A = "heard_from nonce local_ips dgs" and ?m = "fold (listen_step nonce local_ips) dgs []"
  show ?case
  proof (cases "\<exists>b ip. parse_beacon msg = Some b \<and> fst b \<noteq> nonce \<and> src = Some ip \<and> ip \<notin> set local_ips")
    case True
    then obtain bn br bp bh ip where b: "parse_beacon msg = Some (bn, br, bp, bh)" "bn \<noteq> nonce" "src = Some ip" "ip \<notin> set local_ips"
      by auto
    have A: "heard_from nonce local_ips (dgs @ [dg]) = insert ip ?A" using b by (auto simp: heard_from_def dg)
    define f where "f = (\<lambda>e :: peer. e\<lparr>peer_kind := Coli, peer_host := Some bh, peer_rank := Some br, peer_port := Some bp\<rparr>)"
    have "peers_inv local_ips fab (insert ip ?A) (entry_mod ip (new_peer ip []) f ?m)"
      by (rule peers_inv_entry [OF snoc.IH b(4)]) (simp_all add: new_peer_def f_def)
    moreover have "listen_step nonce local_ips dg m = entry_mod ip (new_peer ip []) f m" for m
      using b by (simp add: listen_step_def dg f_def)
    ultimately show ?thesis unfolding A by simp
  next
    case False
    then have "heard_from nonce local_ips (dgs @ [dg]) = ?A" by (auto simp: heard_from_def dg)
    moreover have "listen_step nonce local_ips dg ?m = ?m"
      using False by (auto simp: listen_step_def dg split: option.split)
    ultimately show ?thesis using snoc.IH by simp
  qed
qed

lemma arp_step_inv:
  assumes "peers_inv local_ips (on_fabric links) A m"
  shows "peers_inv local_ips (on_fabric links) A (arp_step (subnets_of links) ouis local_ips en m)"
proof -
  obtain ip mac dev where en: "en = (ip, mac, dev)" by (cases en)
  show ?thesis
  proof (cases "ip \<in> set local_ips \<or> find (\<lambda>(net, msk, d). ip AND msk = net) (subnets_of links) = None")
    case True
    then have "arp_step (subnets_of links) ouis local_ips en m = m" by (auto simp: arp_step_def en)
    then show ?thesis using assms by simp
  next
    case False
    then obtain net msk via where fd: "find (\<lambda>(net, msk, d). ip AND msk = net) (subnets_of links) = Some (net, msk, via)"
      and nl: "ip \<notin> set local_ips" by (metis not_Some_eq prod_cases3)
    have "on_fabric links ip" using fd by (auto simp: on_fabric_def find_Some_iff in_set_conv_nth Bex_def)
    define f where "f = (\<lambda>e :: peer. e\<lparr>peer_mac := (case peer_mac e of None \<Rightarrow> Some mac | Some x \<Rightarrow> Some x),
      peer_via := (if peer_via e = [] then via else peer_via e), nic_match := oui_of mac \<in> set ouis\<rparr>)"
    have fresh: "ip \<notin> A" if "ip \<notin> fst ` set m" using that assms by (auto simp: peers_inv_def)
    have "peers_inv local_ips (on_fabric links) A (entry_mod ip (new_peer ip via) f m)"
    proof (rule peers_inv_entry [OF assms nl])
      show "peer_kind (f p) = Coli \<longleftrightarrow> ip \<in> A" if "(ip, p) \<in> set m" for p
        using that assms by (auto simp: f_def peers_inv_def)
    qed (use fresh \<open>on_fabric links ip\<close> in \<open>simp_all add: f_def new_peer_def\<close>)
    then show ?thesis using fd nl by (simp add: arp_step_def en f_def)
  qed
qed

lemma arp_fold_inv:
  assumes "peers_inv local_ips (on_fabric links) A m"
  shows "peers_inv local_ips (on_fabric links) A (fold (arp_step (subnets_of links) ouis local_ips) es m)"
  using assms by (induction es arbitrary: m) (simp_all add: arp_step_inv)

text \<open>
  The scan reports exactly the nodes it should: peers come in strictly increasing order of
  address, none of them is one of the node's own addresses, the ones reported as running the engine
  are exactly the foreign addresses from which a beacon with another nonce was heard (so a node
  never reports itself, and no announcement is lost), and every other peer lies on the subnet of an
  active link.
\<close>

lemma discover_reports_exactly:
  fixes env :: sys_env
  shows "let d = discover env; L = local_ips_of (disc_links (discover env)) in
    sorted_wrt (<) (map (\<lambda>p. unat (peer_ip p)) (disc_peers d)) \<and>
    peer_ip ` set (disc_peers d) \<inter> set L = {} \<and>
    peer_ip ` set (coli_peers d) = heard_from (nonce_of env) L (if listening env then datagrams env else []) \<and>
    list_all (\<lambda>p. peer_kind p = Coli \<or> on_fabric (disc_links d) (peer_ip p)) (disc_peers d)"
proof -
  define d L where "d = discover env" and "L = local_ips_of (disc_links d)"
  let ?links = "connectx_links (ip_tool env) (sys_devs env)"
  let ?dgs = "if listening env then datagrams env else []"
  let ?A = "heard_from (nonce_of env) L ?dgs"
  define ouis where "ouis = filter (\<lambda>o'. o' \<noteq> []) (map (\<lambda>l. oui_of (link_mac l)) ?links)"
  define heard where "heard = fold (listen_step (nonce_of env) L) ?dgs []"
  define m where "m = fold (arp_step (subnets_of ?links) ouis L) (read_arp (arp_table env)) heard"
  have links: "disc_links d = ?links" "L = local_ips_of ?links" by (simp_all add: d_def L_def discover_def Let_def)
  have peers: "disc_peers d = sort_key (\<lambda>p. unat (peer_ip p)) (map snd m)"
    by (simp add: d_def discover_def Let_def m_def heard_def ouis_def links(2))
  have inv: "peers_inv L (on_fabric ?links) (heard_from (nonce_of env) L ?dgs) m"
    unfolding m_def heard_def by (intro arp_fold_inv listen_fold_inv)
  have keys: "map fst m = map peer_ip (map snd m)" using inv by (auto simp: peers_inv_def)
  have "distinct (map peer_ip (map snd m))" using inv keys by (simp add: peers_inv_def)
  then have "distinct (map unat (map peer_ip (map snd m)))" by (subst distinct_map) (auto simp: inj_on_def word_unat_eq_iff)
  then have "distinct (map (\<lambda>p. unat (peer_ip p)) (map snd m))" by (simp add: comp_def)
  moreover have "mset (map (\<lambda>p. unat (peer_ip p)) (disc_peers d)) = mset (map (\<lambda>p. unat (peer_ip p)) (map snd m))"
    by (simp only: peers mset_map mset_sort)
  ultimately have "distinct (map (\<lambda>p. unat (peer_ip p)) (disc_peers d))" using mset_eq_imp_distinct_iff by blast
  then have sorted: "sorted_wrt (<) (map (\<lambda>p. unat (peer_ip p)) (disc_peers d))" by (simp add: strict_sorted_iff peers)
  have set: "set (disc_peers d) = snd ` set m" by (simp add: peers)
  have each: "peer_ip p = ip \<and> ip \<notin> set L \<and> (peer_kind p = Coli \<longleftrightarrow> ip \<in> ?A) \<and> (ip \<in> ?A \<or> on_fabric ?links ip)"
    if "(ip, p) \<in> set m" for ip p using inv that unfolding peers_inv_def by blast
  note sorted
  moreover have "peer_ip ` set (coli_peers d) = ?A"
  proof (intro equalityI subsetI)
    fix ip assume "ip \<in> peer_ip ` set (coli_peers d)"
    then obtain k p where "(k, p) \<in> set m" "peer_kind p = Coli" "ip = peer_ip p" by (auto simp: coli_peers_def set)
    then show "ip \<in> ?A" using each by blast
  next
    fix ip assume ip: "ip \<in> ?A"
    have "?A \<subseteq> fst ` set m" using inv by (simp add: peers_inv_def)
    with ip obtain p where p: "(ip, p) \<in> set m" by auto
    then have "p \<in> set (coli_peers d)" "peer_ip p = ip" using each ip by (force simp: coli_peers_def set)+
    then show "ip \<in> peer_ip ` set (coli_peers d)" by blast
  qed
  moreover have "peer_ip ` snd ` set m \<inter> set L = {}" using each by auto
  moreover have "\<forall>p \<in> snd ` set m. peer_kind p = Coli \<or> on_fabric ?links (peer_ip p)"
  proof
    fix p assume "p \<in> snd ` set m"
    then obtain ip where "(ip, p) \<in> set m" by auto
    from each [OF this] show "peer_kind p = Coli \<or> on_fabric ?links (peer_ip p)" by auto
  qed
  ultimately show ?thesis unfolding Let_def d_def [symmetric] list_all_iff links(1) links(2) [symmetric] set by (intro conjI)
qed

end
