(* ===== verification/KvCache.thy ===== *)
theory KvCache
  imports Dtype
begin

text \<open>
  The key-value cache of \<open>colibri-engine/src/model.rs\<close>: raw latent and rotary rows addressed by
  absolute position, the ring that keeps only a sliding window of them and can grow, the full-KV
  rows of the GQA path and the append-only compressed rows.  A slice out of range is a panic, the
  value \<open>None\<close>; sizes are natural numbers because every buffer they describe exists in memory.

  The recurrent state of the Mamba and KDA layers, whose contents only the numeric kernels touch,
  and the device shadow are not modelled.

  The main result is that the ring is a correct window: it refines an abstract map that remembers
  the last row written at each position of the window and forgets a position when the window moves
  past it.
\<close>

section \<open>State\<close>

record kv_cache =
  max_t :: nat
  kv_lora :: nat
  qk_rope :: nat
  latent :: "f32 list list"
  k_rot :: "f32 list list"
  kv_dim :: nat
  k_full :: "f32 list list"
  v_full :: "f32 list list"
  comp_bufs :: "f32 list list"
  comp_len :: "nat list"
  comp_dim :: nat
  icomp_bufs :: "f32 list list"
  icomp_len :: "nat list"
  icomp_dim :: nat
  ring :: nat
  ring_hi :: nat
  kv_start :: "nat list"

definition KV_UNSET :: nat where
  "KV_UNSET = 2 ^ 64 - 1"

definition lazy_zeros :: "nat \<Rightarrow> nat \<Rightarrow> f32 list list" where
  "lazy_zeros n_rows len = map (\<lambda>_. replicate len 0) [0..<n_rows]"

definition ring_slot :: "nat \<Rightarrow> nat \<Rightarrow> nat" where
  "ring_slot pos width = (if width = 0 then pos else pos mod width)"

definition kv_new :: "nat \<Rightarrow> nat \<Rightarrow> nat \<Rightarrow> nat \<Rightarrow> kv_cache" where
  "kv_new n_rows kvl qkr mt = \<lparr>max_t = mt, kv_lora = kvl, qk_rope = qkr, latent = lazy_zeros n_rows (mt * kvl),
     k_rot = lazy_zeros n_rows (mt * qkr), kv_dim = 0, k_full = replicate n_rows [], v_full = replicate n_rows [],
     comp_bufs = [], comp_len = [], comp_dim = 0, icomp_bufs = [], icomp_len = [], icomp_dim = 0, ring = 0, ring_hi = 0,
     kv_start = replicate n_rows 0\<rparr>"

definition kv_start_at :: "nat \<Rightarrow> nat \<Rightarrow> kv_cache \<Rightarrow> kv_cache option" where
  "kv_start_at layer pos kv = do {
     s \<leftarrow> idx (kv_start kv) layer;
     Some (if pos < s then kv\<lparr>kv_start := (kv_start kv)[layer := pos]\<rparr> else kv) }"

definition slot :: "kv_cache \<Rightarrow> nat \<Rightarrow> nat" where
  "slot kv pos = ring_slot pos (ring kv)"

section \<open>Rows\<close>

text \<open>Row \<open>i\<close> of width \<open>w\<close> of a flat buffer, and overwriting it.\<close>

definition get_row :: "nat \<Rightarrow> 'a list \<Rightarrow> nat \<Rightarrow> 'a list option" where
  "get_row w buf i = get_range buf (i * w) ((i + 1) * w)"

definition set_row :: "nat \<Rightarrow> 'a list \<Rightarrow> nat \<Rightarrow> 'a list \<Rightarrow> 'a list option" where
  "set_row w buf i row = (if (i + 1) * w \<le> length buf \<and> length row = w then Some (patch (i * w) row buf) else None)"

section \<open>The ring\<close>

fun carry_rows :: "nat \<Rightarrow> nat \<Rightarrow> nat \<Rightarrow> f32 list \<Rightarrow> nat list \<Rightarrow> f32 list \<Rightarrow> f32 list option" where
  "carry_rows w old rows src [] dst = Some dst"
| "carry_rows w old rows src (p # ps) dst =
     (if 0 < w then do {
        row \<leftarrow> get_row w src (ring_slot p old);
        dst \<leftarrow> set_row w dst (ring_slot p rows) row;
        carry_rows w old rows src ps dst }
      else carry_rows w old rows src ps dst)"

definition carry_layers :: "nat \<Rightarrow> nat \<Rightarrow> nat \<Rightarrow> nat list \<Rightarrow> f32 list list \<Rightarrow> f32 list list option" where
  "carry_layers w old rows ps bufs = those (map (\<lambda>src. carry_rows w old rows src ps (replicate (rows * w) 0)) bufs)"

definition ring_ensure :: "nat \<Rightarrow> kv_cache \<Rightarrow> kv_cache option" where
  "ring_ensure rows kv =
     (if rows = 0 \<or> rows \<le> ring kv then Some kv
      else let n_rows = length (latent kv) in
        if ring kv = 0
        then Some (kv\<lparr>latent := lazy_zeros n_rows (rows * kv_lora kv), k_rot := lazy_zeros n_rows (rows * qk_rope kv),
               ring := rows\<rparr>)
        else do {
          lat \<leftarrow> carry_layers (kv_lora kv) (ring kv) rows [ring_hi kv - ring kv..<ring_hi kv] (latent kv);
          rot \<leftarrow> carry_layers (qk_rope kv) (ring kv) rows [ring_hi kv - ring kv..<ring_hi kv] (k_rot kv);
          Some (kv\<lparr>latent := lat, k_rot := rot, ring := rows\<rparr>) })"

definition ring_touch :: "nat \<Rightarrow> kv_cache \<Rightarrow> kv_cache" where
  "ring_touch pos kv = (if ring kv \<noteq> 0 \<and> ring_hi kv < pos + 1 then kv\<lparr>ring_hi := pos + 1\<rparr> else kv)"

definition extend_rows :: "kv_cache \<Rightarrow> f32 list \<Rightarrow> nat \<Rightarrow> nat \<Rightarrow> nat \<Rightarrow> f32 list \<Rightarrow> f32 list option" where
  "extend_rows kv buf w start stop out =
     (if ring kv = 0 then map_option (\<lambda>s. out @ s) (get_range buf (start * w) (stop * w))
      else if stop < start \<or> ring kv < stop - start then None
      else let lo = slot kv start; n = stop - start; head = min n (ring kv - lo)
        in do {
          a \<leftarrow> get_range buf (lo * w) ((lo + head) * w);
          b \<leftarrow> (if head < n then get_range buf 0 ((n - head) * w) else Some []);
          Some (out @ a @ b) })"

definition extend_latent_rows :: "kv_cache \<Rightarrow> nat \<Rightarrow> nat \<Rightarrow> nat \<Rightarrow> f32 list \<Rightarrow> f32 list option" where
  "extend_latent_rows kv layer start stop out = do {
     buf \<leftarrow> idx (latent kv) layer; extend_rows kv buf (kv_lora kv) start stop out }"

definition extend_krot_rows :: "kv_cache \<Rightarrow> nat \<Rightarrow> nat \<Rightarrow> nat \<Rightarrow> f32 list \<Rightarrow> f32 list option" where
  "extend_krot_rows kv layer start stop out = do {
     buf \<leftarrow> idx (k_rot kv) layer; extend_rows kv buf (qk_rope kv) start stop out }"

definition latent_row :: "kv_cache \<Rightarrow> nat \<Rightarrow> nat \<Rightarrow> f32 list option" where
  "latent_row kv layer pos = do { buf \<leftarrow> idx (latent kv) layer; get_row (kv_lora kv) buf (slot kv pos) }"

definition krot_row :: "kv_cache \<Rightarrow> nat \<Rightarrow> nat \<Rightarrow> f32 list option" where
  "krot_row kv layer pos = do { buf \<leftarrow> idx (k_rot kv) layer; get_row (qk_rope kv) buf (slot kv pos) }"

text \<open>The caller of \<open>latent_row_mut\<close> overwrites the row it is handed.\<close>

definition latent_row_mut :: "nat \<Rightarrow> nat \<Rightarrow> f32 list \<Rightarrow> kv_cache \<Rightarrow> kv_cache option" where
  "latent_row_mut layer pos row kv =
     (let kv = ring_touch pos kv in do {
        buf \<leftarrow> idx (latent kv) layer;
        buf' \<leftarrow> set_row (kv_lora kv) buf (slot kv pos) row;
        Some (kv\<lparr>latent := (latent kv)[layer := buf']\<rparr>) })"

definition krot_row_mut :: "nat \<Rightarrow> nat \<Rightarrow> f32 list \<Rightarrow> kv_cache \<Rightarrow> kv_cache option" where
  "krot_row_mut layer pos row kv =
     (let kv = ring_touch pos kv in do {
        buf \<leftarrow> idx (k_rot kv) layer;
        buf' \<leftarrow> set_row (qk_rope kv) buf (slot kv pos) row;
        Some (kv\<lparr>k_rot := (k_rot kv)[layer := buf']\<rparr>) })"

definition latent_rows :: "kv_cache \<Rightarrow> nat \<Rightarrow> nat \<Rightarrow> nat \<Rightarrow> f32 list option" where
  "latent_rows kv layer start stop =
     (if ring kv \<noteq> 0 then None
      else do { buf \<leftarrow> idx (latent kv) layer; get_range buf (start * kv_lora kv) (stop * kv_lora kv) })"

definition krot_rows :: "kv_cache \<Rightarrow> nat \<Rightarrow> nat \<Rightarrow> nat \<Rightarrow> f32 list option" where
  "krot_rows kv layer start stop =
     (if ring kv \<noteq> 0 then None
      else do { buf \<leftarrow> idx (k_rot kv) layer; get_range buf (start * qk_rope kv) (stop * qk_rope kv) })"

section \<open>Compressed rows\<close>

definition comp_init :: "nat \<Rightarrow> int list \<Rightarrow> nat \<Rightarrow> nat \<Rightarrow> kv_cache \<Rightarrow> kv_cache" where
  "comp_init n_layers ratios head_dim max_blocks kv =
     kv\<lparr>comp_bufs := map (\<lambda>i. if 0 < get_or 0 ratios i then replicate (max_blocks * head_dim) 0 else []) [0..<n_layers],
        comp_len := replicate n_layers 0, comp_dim := head_dim\<rparr>"

definition comp_push :: "nat \<Rightarrow> f32 list \<Rightarrow> kv_cache \<Rightarrow> kv_cache option" where
  "comp_push layer row kv = do {
     n \<leftarrow> idx (comp_len kv) layer;
     buf \<leftarrow> idx (comp_bufs kv) layer;
     if (n + 1) * comp_dim kv \<le> length buf then do {
       buf' \<leftarrow> set_row (comp_dim kv) buf n row;
       Some (kv\<lparr>comp_bufs := (comp_bufs kv)[layer := buf'], comp_len := (comp_len kv)[layer := n + 1]\<rparr>) }
     else Some kv }"

definition comp_rows :: "kv_cache \<Rightarrow> nat \<Rightarrow> f32 list option" where
  "comp_rows kv layer =
     (case idx (comp_bufs kv) layer of
        Some v \<Rightarrow> do { n \<leftarrow> idx (comp_len kv) layer; get_range v 0 (n * comp_dim kv) }
      | None \<Rightarrow> Some [])"

definition icomp_init :: "nat \<Rightarrow> int list \<Rightarrow> int \<Rightarrow> nat \<Rightarrow> nat \<Rightarrow> kv_cache \<Rightarrow> kv_cache" where
  "icomp_init n_layers ratios want head_dim max_blocks kv =
     kv\<lparr>icomp_bufs := map (\<lambda>i. if get_or 0 ratios i = want then replicate (max_blocks * head_dim) 0 else []) [0..<n_layers],
        icomp_len := replicate n_layers 0, icomp_dim := head_dim\<rparr>"

definition icomp_push :: "nat \<Rightarrow> f32 list \<Rightarrow> kv_cache \<Rightarrow> kv_cache option" where
  "icomp_push layer row kv = do {
     n \<leftarrow> idx (icomp_len kv) layer;
     buf \<leftarrow> idx (icomp_bufs kv) layer;
     if (n + 1) * icomp_dim kv \<le> length buf then do {
       buf' \<leftarrow> set_row (icomp_dim kv) buf n row;
       Some (kv\<lparr>icomp_bufs := (icomp_bufs kv)[layer := buf'], icomp_len := (icomp_len kv)[layer := n + 1]\<rparr>) }
     else Some kv }"

definition icomp_rows :: "kv_cache \<Rightarrow> nat \<Rightarrow> f32 list option" where
  "icomp_rows kv layer =
     (case idx (icomp_bufs kv) layer of
        Some v \<Rightarrow> do { n \<leftarrow> idx (icomp_len kv) layer; get_range v 0 (n * icomp_dim kv) }
      | None \<Rightarrow> Some [])"

section \<open>Full rows\<close>

definition k_full_row_mut :: "nat \<Rightarrow> nat \<Rightarrow> f32 list \<Rightarrow> kv_cache \<Rightarrow> kv_cache option" where
  "k_full_row_mut layer pos row kv = do {
     buf \<leftarrow> idx (k_full kv) layer;
     buf' \<leftarrow> set_row (kv_dim kv) buf pos row;
     Some (kv\<lparr>k_full := (k_full kv)[layer := buf']\<rparr>) }"

definition v_full_row_mut :: "nat \<Rightarrow> nat \<Rightarrow> f32 list \<Rightarrow> kv_cache \<Rightarrow> kv_cache option" where
  "v_full_row_mut layer pos row kv = do {
     buf \<leftarrow> idx (v_full kv) layer;
     buf' \<leftarrow> set_row (kv_dim kv) buf pos row;
     Some (kv\<lparr>v_full := (v_full kv)[layer := buf']\<rparr>) }"

definition k_full_rows :: "kv_cache \<Rightarrow> nat \<Rightarrow> nat \<Rightarrow> nat \<Rightarrow> f32 list option" where
  "k_full_rows kv layer start stop = do {
     buf \<leftarrow> idx (k_full kv) layer; get_range buf (start * kv_dim kv) (stop * kv_dim kv) }"

definition v_full_rows :: "kv_cache \<Rightarrow> nat \<Rightarrow> nat \<Rightarrow> nat \<Rightarrow> f32 list option" where
  "v_full_rows kv layer start stop = do {
     buf \<leftarrow> idx (v_full kv) layer; get_range buf (start * kv_dim kv) (stop * kv_dim kv) }"

section \<open>Rows of a flat buffer\<close>

lemma get_row_Some: "(i + 1) * w \<le> length buf \<Longrightarrow> get_row w buf i = Some (take w (drop (i * w) buf))"
  by (simp add: get_row_def get_range_def)

lemma set_row_Some:
  "(i + 1) * w \<le> length buf \<Longrightarrow> length row = w \<Longrightarrow> set_row w buf i row = Some (patch (i * w) row buf)"
  by (simp add: set_row_def)

lemma row_patch:
  assumes "(i + 1) * w \<le> length buf" and "length row = w" and "(j + 1) * w \<le> length buf"
  shows "take w (drop (j * w) (patch (i * w) row buf)) = (if i = j then row else take w (drop (j * w) buf))"
proof -
  have fits: "i * w + length row \<le> length buf" using assms(1,2) by simp
  have len: "length (patch (i * w) row buf) = length buf" using fits by (rule length_patch)
  show ?thesis
  proof (rule nth_equalityI)
    show "length (take w (drop (j * w) (patch (i * w) row buf))) = length (if i = j then row else take w (drop (j * w) buf))"
      using assms len by simp
    fix q assume "q < length (take w (drop (j * w) (patch (i * w) row buf)))"
    then have q: "q < w" by simp
    have at: "j * w + q < length buf" using assms(3) q by simp
    have "i * w \<le> j * w + q \<and> j * w + q < i * w + w \<longleftrightarrow> i = j"
    proof
      assume *: "i * w \<le> j * w + q \<and> j * w + q < i * w + w"
      then have "(j * w + q) div w = i" by (intro div_nat_eqI) (simp_all add: mult.commute)
      then show "i = j" using q by simp
    qed (use q in simp)
    then show "take w (drop (j * w) (patch (i * w) row buf)) ! q = (if i = j then row else take w (drop (j * w) buf)) ! q"
      using nth_patch [OF fits at] q assms len at by auto
  qed
qed

lemma rows_concat:
  assumes "s \<le> e" and "e * w \<le> length buf"
  shows "take ((e - s) * w) (drop (s * w) buf) = concat (map (\<lambda>i. take w (drop (i * w) buf)) [s..<e])"
  using assms
proof (induction e)
  case (Suc e)
  show ?case
  proof (cases "s = Suc e")
    case False
    then have "s \<le> e" using Suc.prems(1) by simp
    then have n: "(Suc e - s) * w = (e - s) * w + w" "s * w + (e - s) * w = e * w"
      by (simp_all add: Suc_diff_le flip: add_mult_distrib)
    have "take ((Suc e - s) * w) (drop (s * w) buf) =
        take ((e - s) * w) (drop (s * w) buf) @ take w (drop (e * w) buf)"
      unfolding n(1) take_add by (simp add: n(2) add.commute)
    then show ?thesis using Suc \<open>s \<le> e\<close> by simp
  qed simp
qed simp

section \<open>The abstract window\<close>

text \<open>
  What the ring promises: a window of the last \<open>win_size\<close> positions below \<open>win_hi\<close>, holding the last
  row written at each position (per layer, latent and rotary).  Growing the window keeps what it
  holds; moving it forward forgets the positions it leaves behind.
\<close>

type_synonym rows_map = "nat \<Rightarrow> nat \<rightharpoonup> f32 list"

record window =
  win_size :: nat
  win_hi :: nat
  win_lat :: rows_map
  win_rot :: rows_map

datatype kv_op = Ensure nat | Put_latent nat nat "f32 list" | Put_krot nat nat "f32 list"

definition forget_below :: "nat \<Rightarrow> rows_map \<Rightarrow> rows_map" where
  "forget_below lo M = (\<lambda>l p. if p < lo then None else M l p)"

definition put_row :: "nat \<Rightarrow> nat \<Rightarrow> f32 list \<Rightarrow> rows_map \<Rightarrow> rows_map" where
  "put_row l p row M = M(l := (M l)(p \<mapsto> row))"

fun win_apply :: "kv_op \<Rightarrow> window \<Rightarrow> window" where
  "win_apply (Ensure rows) a = a\<lparr>win_size := max rows (win_size a)\<rparr>"
| "win_apply (Put_latent l p row) a =
     (let hi = max (win_hi a) (p + 1); lo = hi - win_size a
      in a\<lparr>win_hi := hi, win_lat := forget_below lo (put_row l p row (win_lat a)), win_rot := forget_below lo (win_rot a)\<rparr>)"
| "win_apply (Put_krot l p row) a =
     (let hi = max (win_hi a) (p + 1); lo = hi - win_size a
      in a\<lparr>win_hi := hi, win_lat := forget_below lo (win_lat a), win_rot := forget_below lo (put_row l p row (win_rot a))\<rparr>)"

fun kv_apply :: "kv_op \<Rightarrow> kv_cache \<Rightarrow> kv_cache option" where
  "kv_apply (Ensure rows) kv = ring_ensure rows kv"
| "kv_apply (Put_latent l p row) kv = latent_row_mut l p row kv"
| "kv_apply (Put_krot l p row) kv = krot_row_mut l p row kv"

fun run_kv :: "kv_op list \<Rightarrow> kv_cache \<Rightarrow> kv_cache option" where
  "run_kv [] kv = Some kv"
| "run_kv (x # xs) kv = Option.bind (kv_apply x kv) (run_kv xs)"

definition empty_window :: window where
  "empty_window = \<lparr>win_size = 0, win_hi = 0, win_lat = (\<lambda>_ _. None), win_rot = (\<lambda>_ _. None)\<rparr>"

text \<open>The ring is sized first, rows have their width, and nothing is written behind the window.\<close>

fun op_ok :: "nat \<Rightarrow> nat \<Rightarrow> nat \<Rightarrow> window \<Rightarrow> kv_op \<Rightarrow> bool" where
  "op_ok n kvl qkr a (Ensure rows) \<longleftrightarrow> True"
| "op_ok n kvl qkr a (Put_latent l p row) \<longleftrightarrow>
     0 < win_size a \<and> l < n \<and> length row = kvl \<and> win_hi a \<le> p + win_size a"
| "op_ok n kvl qkr a (Put_krot l p row) \<longleftrightarrow>
     0 < win_size a \<and> l < n \<and> length row = qkr \<and> win_hi a \<le> p + win_size a"

fun ops_ok :: "nat \<Rightarrow> nat \<Rightarrow> nat \<Rightarrow> window \<Rightarrow> kv_op list \<Rightarrow> bool" where
  "ops_ok n kvl qkr a [] \<longleftrightarrow> True"
| "ops_ok n kvl qkr a (x # xs) \<longleftrightarrow> op_ok n kvl qkr a x \<and> ops_ok n kvl qkr (win_apply x a) xs"

section \<open>The ring implements the window\<close>

definition window_holds :: "nat \<Rightarrow> nat \<Rightarrow> nat \<Rightarrow> f32 list list \<Rightarrow> rows_map \<Rightarrow> bool" where
  "window_holds w sz hi bufs M \<longleftrightarrow> (\<forall>buf \<in> set bufs. length buf = sz * w) \<and>
     (\<forall>l p row. M l p = Some row \<longrightarrow> l < length bufs \<and> hi \<le> p + sz \<and> p < hi \<and> length row = w \<and>
        take w (drop (p mod sz * w) (bufs ! l)) = row)"

lemma window_inj:
  assumes "(hi::nat) \<le> p + n" "p < hi" "hi \<le> q + n" "q < hi" "p mod n = q mod n"
  shows "p = q"
proof -
  have "a = b" if "a \<le> b" "b < a + n" "a mod n = b mod n" for a b :: nat
  proof -
    have "n dvd b - a" using that by (simp add: mod_eq_dvd_iff_nat [of a b n, symmetric] eq_commute)
    then show ?thesis using that by (auto dest: dvd_imp_le)
  qed
  from this [of p q] this [of q p] show ?thesis using assms by (cases "p \<le> q") auto
qed

lemma slot_room: "0 < (sz::nat) \<Longrightarrow> (p mod sz + 1) * w \<le> sz * w"
  by (intro mult_le_mono1) (simp add: Suc_leI)

lemma window_holds_forget:
  assumes "window_holds w sz hi bufs M" and "hi \<le> hi'"
  shows "window_holds w sz hi' bufs (forget_below (hi' - sz) M)"
  using assms unfolding window_holds_def forget_below_def by (fastforce split: if_splits)

lemma window_holds_put:
  assumes h: "window_holds w sz hi bufs M" and "0 < sz" and "l < length bufs" and "length row = w"
    and "hi \<le> p + sz" and hi': "hi' = max hi (p + 1)"
  shows "window_holds w sz hi' (bufs[l := patch (p mod sz * w) row (bufs ! l)]) (forget_below (hi' - sz) (put_row l p row M))"
proof -
  have bl: "length (bufs ! l) = sz * w" using h assms(3) by (simp add: window_holds_def)
  note room = slot_room [OF assms(2), of _ w]
  have len: "length (patch (p mod sz * w) row (bufs ! l)) = sz * w"
    using room [of p] bl assms(4) by (subst length_patch) simp_all
  have "i < length bufs \<and> hi' \<le> q + sz \<and> q < hi' \<and> length r = w \<and>
      take w (drop (q mod sz * w) (bufs[l := patch (p mod sz * w) row (bufs ! l)] ! i)) = r"
    if "forget_below (hi' - sz) (put_row l p row M) i q = Some r" for i q r
  proof (cases "i = l \<and> q = p")
    case True
    then have "r = row" using that by (auto simp: forget_below_def put_row_def split: if_splits)
    then show ?thesis using True that row_patch [of "p mod sz" w "bufs ! l" row "p mod sz"] room [of p] bl assms
      by (auto simp: forget_below_def split: if_splits)
  next
    case False
    then have m: "M i q = Some r" "hi' - sz \<le> q"
      using that by (auto simp: forget_below_def put_row_def split: if_splits)
    then have old: "i < length bufs" "hi \<le> q + sz" "q < hi" "length r = w" "take w (drop (q mod sz * w) (bufs ! i)) = r"
      using h by (auto simp: window_holds_def)
    have "q mod sz \<noteq> p mod sz" if "i = l"
    proof -
      have "hi' \<le> q + sz" "q < hi'" "hi' \<le> p + sz" "p < hi'" "q \<noteq> p" using False that m(2) old(3) assms(2,5) hi' by auto
      then show ?thesis using window_inj by blast
    qed
    then show ?thesis using old m(2) hi' row_patch [of "p mod sz" w "bufs ! l" row "q mod sz"] room [of p] room [of q] bl assms(4)
      by (cases "i = l") auto
  qed
  then show ?thesis using h len unfolding window_holds_def by (auto dest!: set_update_subset_insert [THEN subsetD])
qed

lemma carry_rows_rows:
  assumes "0 < w" and "0 < old" and "0 < rows" and "length src = old * w" and "length dst = rows * w"
    and "distinct (map (\<lambda>p. p mod rows) ps)"
  shows "\<exists>dst'. carry_rows w old rows src ps dst = Some dst' \<and> length dst' = rows * w \<and>
    (\<forall>p \<in> set ps. take w (drop (p mod rows * w) dst') = take w (drop (p mod old * w) src)) \<and>
    (\<forall>q < rows. q \<notin> (\<lambda>p. p mod rows) ` set ps \<longrightarrow> take w (drop (q * w) dst') = take w (drop (q * w) dst))"
  using assms(5,6)
proof (induction ps arbitrary: dst)
  case (Cons p ps)
  define row where "row = take w (drop (p mod old * w) src)"
  define dst1 where "dst1 = patch (p mod rows * w) row dst"
  have rs: "(p mod old + 1) * w \<le> length src" using slot_room [OF assms(2)] assms(4) by simp
  have rd: "(p mod rows + 1) * w \<le> length dst" using slot_room [OF assms(3)] Cons.prems(1) by simp
  have row: "length row = w" using rs by (simp add: row_def)
  have l1: "length dst1 = rows * w" unfolding dst1_def using rd row Cons.prems(1) by (subst length_patch) simp_all
  have d1: "take w (drop (q * w) dst1) = (if p mod rows = q then row else take w (drop (q * w) dst))" if "q < rows" for q
  proof -
    have "(q + 1) * w \<le> rows * w" using that by (intro mult_le_mono1) simp
    then show ?thesis unfolding dst1_def using row_patch [OF rd row] Cons.prems(1) by simp
  qed
  from Cons.IH [OF l1] Cons.prems(2) obtain dst' where ih: "carry_rows w old rows src ps dst1 = Some dst'" "length dst' = rows * w"
    "\<forall>p \<in> set ps. take w (drop (p mod rows * w) dst') = take w (drop (p mod old * w) src)"
    "\<forall>q < rows. q \<notin> (\<lambda>p. p mod rows) ` set ps \<longrightarrow> take w (drop (q * w) dst') = take w (drop (q * w) dst1)" by auto
  have "carry_rows w old rows src (p # ps) dst = Some dst'"
    using ih(1) assms(1-3) get_row_Some [OF rs] set_row_Some [OF rd row] by (simp add: ring_slot_def row_def dst1_def)
  moreover have "take w (drop (p mod rows * w) dst') = row"
    using ih(4) [rule_format, of "p mod rows"] Cons.prems(2) assms(3) d1 [of "p mod rows"] by (auto simp: image_iff)
  ultimately show ?case using ih d1 by (intro exI [of _ dst']) (auto simp: row_def)
qed simp

lemma carry_rows_zero: "carry_rows 0 old rows src ps dst = Some dst"
  by (induction ps arbitrary: dst) simp_all

lemma carry_one:
  assumes "0 < old" and "old < rows" and "length src = old * w"
  shows "\<exists>dst'. carry_rows w old rows src [hi - old..<hi] (replicate (rows * w) 0) = Some dst' \<and> length dst' = rows * w \<and>
    (\<forall>p. hi \<le> p + old \<longrightarrow> p < hi \<longrightarrow> take w (drop (p mod rows * w) dst') = take w (drop (p mod old * w) src))"
proof (cases "w = 0")
  case True
  then show ?thesis using carry_rows_zero by simp
next
  case False
  have "inj_on (\<lambda>p. p mod rows) {hi - old..<hi}"
  proof (rule inj_onI)
    fix p q assume *: "p \<in> {hi - old..<hi}" "q \<in> {hi - old..<hi}" "p mod rows = q mod rows"
    show "p = q" by (rule window_inj [of hi p rows q]) (use * assms(2) in auto)
  qed
  then have "distinct (map (\<lambda>p. p mod rows) [hi - old..<hi])" by (simp add: distinct_map)
  from carry_rows_rows [OF _ assms(1) _ assms(3) _ this, of "replicate (rows * w) 0"] False assms(2) obtain dst' where
    d: "carry_rows w old rows src [hi - old..<hi] (replicate (rows * w) 0) = Some dst'" "length dst' = rows * w"
    "\<forall>p \<in> {hi - old..<hi}. take w (drop (p mod rows * w) dst') = take w (drop (p mod old * w) src)" by auto
  have "take w (drop (p mod rows * w) dst') = take w (drop (p mod old * w) src)" if "hi \<le> p + old" "p < hi" for p
    using d(3) that by simp
  then show ?thesis using d(1,2) by blast
qed

lemma those_ex:
  assumes "\<forall>x \<in> set xs. \<exists>y. f x = Some y \<and> P x y"
  shows "\<exists>ys. those (map f xs) = Some ys \<and> list_all2 P xs ys"
  using assms
proof (induction xs)
  case (Cons x xs)
  then obtain y ys where "f x = Some y" "P x y" "those (map f xs) = Some ys" "list_all2 P xs ys" by auto
  then show ?case by simp
qed simp

lemma window_holds_carry:
  assumes h: "window_holds w old hi bufs M" and "0 < old" and "old < rows"
  shows "\<exists>bufs'. carry_layers w old rows [hi - old..<hi] bufs = Some bufs' \<and> length bufs' = length bufs \<and> window_holds w rows hi bufs' M"
proof -
  have "\<forall>src \<in> set bufs. \<exists>dst. carry_rows w old rows src [hi - old..<hi] (replicate (rows * w) 0) = Some dst \<and>
      (length dst = rows * w \<and> (\<forall>p. hi \<le> p + old \<longrightarrow> p < hi \<longrightarrow>
        take w (drop (p mod rows * w) dst) = take w (drop (p mod old * w) src)))"
    using carry_one [OF assms(2,3)] h by (simp add: window_holds_def)
  from those_ex [OF this] obtain bufs' where c: "carry_layers w old rows [hi - old..<hi] bufs = Some bufs'"
    and l: "list_all2 (\<lambda>src dst. length dst = rows * w \<and> (\<forall>p. hi \<le> p + old \<longrightarrow> p < hi \<longrightarrow>
        take w (drop (p mod rows * w) dst) = take w (drop (p mod old * w) src))) bufs bufs'"
    by (auto simp: carry_layers_def)
  have n: "length bufs' = length bufs" using l by (simp add: list_all2_lengthD)
  have "i < length bufs' \<and> hi \<le> p + rows \<and> p < hi \<and> length row = w \<and> take w (drop (p mod rows * w) (bufs' ! i)) = row"
    if "M i p = Some row" for i p row
  proof -
    have "i < length bufs" "hi \<le> p + old" "p < hi" "length row = w" "take w (drop (p mod old * w) (bufs ! i)) = row"
      using h that by (auto simp: window_holds_def)
    then show ?thesis using l n assms(3) by (auto simp: list_all2_conv_all_nth)
  qed
  moreover have "\<forall>buf \<in> set bufs'. length buf = rows * w" using l by (auto simp: list_all2_conv_all_nth in_set_conv_nth)
  ultimately show ?thesis using c n by (auto simp: window_holds_def)
qed

definition implements :: "nat \<Rightarrow> kv_cache \<Rightarrow> window \<Rightarrow> bool" where
  "implements n kv a \<longleftrightarrow> ring kv = win_size a \<and> ring_hi kv = win_hi a \<and> length (latent kv) = n \<and> length (k_rot kv) = n \<and>
     (if win_size a = 0 then win_hi a = 0 \<and> win_lat a = (\<lambda>_ _. None) \<and> win_rot a = (\<lambda>_ _. None)
      else window_holds (kv_lora kv) (win_size a) (win_hi a) (latent kv) (win_lat a) \<and>
        window_holds (qk_rope kv) (win_size a) (win_hi a) (k_rot kv) (win_rot a))"

lemma ring_touch_simps [simp]:
  "ring (ring_touch p kv) = ring kv" "kv_lora (ring_touch p kv) = kv_lora kv" "qk_rope (ring_touch p kv) = qk_rope kv"
  "latent (ring_touch p kv) = latent kv" "k_rot (ring_touch p kv) = k_rot kv"
  "ring kv \<noteq> 0 \<Longrightarrow> ring_hi (ring_touch p kv) = max (ring_hi kv) (p + 1)"
  by (simp_all add: ring_touch_def)

lemma lazy_zeros_simps [simp]: "length (lazy_zeros n len) = n" "buf \<in> set (lazy_zeros n len) \<Longrightarrow> length buf = len"
  by (auto simp: lazy_zeros_def)

lemma window_holds_fresh: "window_holds w rows hi (lazy_zeros n (rows * w)) (\<lambda>_ _. None)"
  by (simp add: window_holds_def)

lemma ensure_refines:
  assumes "implements n kv a"
  shows "\<exists>kv'. ring_ensure rows kv = Some kv' \<and> implements n kv' (win_apply (Ensure rows) a) \<and>
    kv_lora kv' = kv_lora kv \<and> qk_rope kv' = qk_rope kv"
proof -
  consider "rows \<le> win_size a" | "win_size a < rows" "win_size a = 0" | "win_size a < rows" "0 < win_size a" by linarith
  then show ?thesis
  proof cases
    case 1
    then show ?thesis using assms by (simp add: ring_ensure_def implements_def max_def)
  next
    case 2
    then show ?thesis using assms by (simp add: ring_ensure_def implements_def window_holds_fresh Let_def)
  next
    case 3
    then have h: "window_holds (kv_lora kv) (win_size a) (win_hi a) (latent kv) (win_lat a)"
      "window_holds (qk_rope kv) (win_size a) (win_hi a) (k_rot kv) (win_rot a)"
      using assms by (simp_all add: implements_def)
    from window_holds_carry [OF h(1) 3(2,1)] window_holds_carry [OF h(2) 3(2,1)] obtain lat rot where
      "carry_layers (kv_lora kv) (win_size a) rows [win_hi a - win_size a..<win_hi a] (latent kv) = Some lat"
      "length lat = length (latent kv)" "window_holds (kv_lora kv) rows (win_hi a) lat (win_lat a)"
      "carry_layers (qk_rope kv) (win_size a) rows [win_hi a - win_size a..<win_hi a] (k_rot kv) = Some rot"
      "length rot = length (k_rot kv)" "window_holds (qk_rope kv) rows (win_hi a) rot (win_rot a)" by blast
    then show ?thesis using 3 assms by (simp add: ring_ensure_def implements_def Let_def)
  qed
qed

lemma set_row_slot:
  assumes "window_holds w sz hi bufs M" and "0 < sz" and "l < length bufs" and "length row = w"
  shows "set_row w (bufs ! l) (p mod sz) row = Some (patch (p mod sz * w) row (bufs ! l))"
  using assms slot_room [OF assms(2), of p w] by (intro set_row_Some) (simp_all add: window_holds_def)

lemma latent_put_refines:
  assumes im: "implements n kv a" and ok: "op_ok n (kv_lora kv) (qk_rope kv) a (Put_latent l p row)"
  shows "\<exists>kv'. latent_row_mut l p row kv = Some kv' \<and> implements n kv' (win_apply (Put_latent l p row) a) \<and>
    kv_lora kv' = kv_lora kv \<and> qk_rope kv' = qk_rope kv"
proof -
  have s: "0 < win_size a" "l < length (latent kv)" "length row = kv_lora kv" "win_hi a \<le> p + win_size a"
    using im ok by (simp_all add: implements_def)
  then have h: "window_holds (kv_lora kv) (win_size a) (win_hi a) (latent kv) (win_lat a)"
    "window_holds (qk_rope kv) (win_size a) (win_hi a) (k_rot kv) (win_rot a)" and r: "ring kv = win_size a" "ring_hi kv = win_hi a"
    using im by (simp_all add: implements_def)
  have "latent_row_mut l p row kv = Some ((ring_touch p kv)\<lparr>latent := (latent kv)[l := patch (p mod win_size a * kv_lora kv) row (latent kv ! l)]\<rparr>)"
    using s r set_row_slot [OF h(1) s(1-3)] by (simp add: latent_row_mut_def Let_def slot_def ring_slot_def)
  then show ?thesis
    using im s r window_holds_put [OF h(1) s refl] window_holds_forget [OF h(2), of "max (win_hi a) (p + 1)"]
    by (simp add: implements_def Let_def)
qed

lemma krot_put_refines:
  assumes im: "implements n kv a" and ok: "op_ok n (kv_lora kv) (qk_rope kv) a (Put_krot l p row)"
  shows "\<exists>kv'. krot_row_mut l p row kv = Some kv' \<and> implements n kv' (win_apply (Put_krot l p row) a) \<and>
    kv_lora kv' = kv_lora kv \<and> qk_rope kv' = qk_rope kv"
proof -
  have s: "0 < win_size a" "l < length (k_rot kv)" "length row = qk_rope kv" "win_hi a \<le> p + win_size a"
    using im ok by (simp_all add: implements_def)
  then have h: "window_holds (kv_lora kv) (win_size a) (win_hi a) (latent kv) (win_lat a)"
    "window_holds (qk_rope kv) (win_size a) (win_hi a) (k_rot kv) (win_rot a)" and r: "ring kv = win_size a" "ring_hi kv = win_hi a"
    using im by (simp_all add: implements_def)
  have "krot_row_mut l p row kv = Some ((ring_touch p kv)\<lparr>k_rot := (k_rot kv)[l := patch (p mod win_size a * qk_rope kv) row (k_rot kv ! l)]\<rparr>)"
    using s r set_row_slot [OF h(2) s(1-3)] by (simp add: krot_row_mut_def Let_def slot_def ring_slot_def)
  then show ?thesis
    using im s r window_holds_put [OF h(2) s refl] window_holds_forget [OF h(1), of "max (win_hi a) (p + 1)"]
    by (simp add: implements_def Let_def)
qed

lemma run_refines:
  assumes "implements n kv a" and "ops_ok n (kv_lora kv) (qk_rope kv) a ops"
  shows "\<exists>kv'. run_kv ops kv = Some kv' \<and> implements n kv' (fold win_apply ops a) \<and>
    kv_lora kv' = kv_lora kv \<and> qk_rope kv' = qk_rope kv"
  using assms
proof (induction ops arbitrary: kv a)
  case (Cons x ops)
  have "\<exists>kv1. kv_apply x kv = Some kv1 \<and> implements n kv1 (win_apply x a) \<and> kv_lora kv1 = kv_lora kv \<and> qk_rope kv1 = qk_rope kv"
    using Cons.prems ensure_refines latent_put_refines krot_put_refines by (cases x) simp_all
  then obtain kv1 where "kv_apply x kv = Some kv1" "implements n kv1 (win_apply x a)" "kv_lora kv1 = kv_lora kv" "qk_rope kv1 = qk_rope kv"
    by blast
  then show ?case using Cons.IH [of kv1 "win_apply x a"] Cons.prems(2) by simp
qed simp

section \<open>Reading spans\<close>

lemma wrap_positions:
  assumes "0 < n" and "s \<le> e" and "e - s \<le> n"
  defines "lo \<equiv> s mod n" and "hh \<equiv> min (e - s) (n - s mod n)"
  shows "map (\<lambda>p. p mod n) [s..<e] = [lo..<lo + hh] @ [0..<e - s - hh]"
proof (rule nth_equalityI)
  show "length (map (\<lambda>p. p mod n) [s..<e]) = length ([lo..<lo + hh] @ [0..<e - s - hh])" by (simp add: hh_def)
  fix i assume "i < length (map (\<lambda>p. p mod n) [s..<e])"
  then have i: "i < e - s" by simp
  have m: "(s + i) mod n = (lo + i) mod n" by (simp add: lo_def mod_add_left_eq)
  have lo: "lo < n" using assms(1) by (simp add: lo_def)
  show "map (\<lambda>p. p mod n) [s..<e] ! i = ([lo..<lo + hh] @ [0..<e - s - hh]) ! i"
  proof (cases "i < hh")
    case True
    then have "i < n - lo" by (simp add: hh_def lo_def)
    then have "lo + i < n" by simp
    then show ?thesis using True i m by (simp add: nth_append)
  next
    case False
    then have "hh = n - lo" using i by (auto simp: hh_def lo_def)
    then have "n \<le> lo + i" "lo + i < 2 * n" using False i lo assms(3) by linarith+
    then have "(lo + i) mod n = lo + i - n" by (simp add: mod_if)
    then show ?thesis using False i m \<open>hh = n - lo\<close> lo by (simp add: nth_append)
  qed
qed

lemma extend_rows_window:
  assumes "0 < ring kv" and "length buf = ring kv * w" and "s \<le> e" and "e - s \<le> ring kv"
  shows "extend_rows kv buf w s e out = Some (out @ concat (map (\<lambda>p. take w (drop (p mod ring kv * w) buf)) [s..<e]))"
proof -
  define n lo hh where "n = ring kv" and "lo = s mod n" and "hh = min (e - s) (n - lo)"
  have lo: "lo < n" using assms(1) by (simp add: lo_def n_def)
  then have hh: "lo + hh \<le> n" by (simp add: hh_def)
  have "(lo + hh) * w \<le> n * w" "(e - s - hh) * w \<le> n * w"
    using hh assms(4) by (intro mult_le_mono1; simp add: n_def)+
  then have fits: "(lo + hh) * w \<le> length buf" "(e - s - hh) * w \<le> length buf" using assms(2) by (simp_all add: n_def)
  have a: "get_range buf (lo * w) ((lo + hh) * w) = Some (concat (map (\<lambda>i. take w (drop (i * w) buf)) [lo..<lo + hh]))"
    using rows_concat [of lo "lo + hh" w buf] fits(1) by (simp add: get_range_def flip: diff_mult_distrib)
  have b: "(if hh < e - s then get_range buf 0 ((e - s - hh) * w) else Some []) =
      Some (concat (map (\<lambda>i. take w (drop (i * w) buf)) [0..<e - s - hh]))"
    using rows_concat [of 0 "e - s - hh" w buf] fits(2) by (simp add: get_range_def)
  have "extend_rows kv buf w s e out = Some (out @ concat (map (\<lambda>i. take w (drop (i * w) buf)) [lo..<lo + hh]) @
      concat (map (\<lambda>i. take w (drop (i * w) buf)) [0..<e - s - hh]))"
  proof -
    have "extend_rows kv buf w s e out = do {
        a \<leftarrow> get_range buf (lo * w) ((lo + hh) * w);
        b \<leftarrow> (if hh < e - s then get_range buf 0 ((e - s - hh) * w) else Some []);
        Some (out @ a @ b) }"
    proof -
      have "ring kv \<noteq> 0" "\<not> (e < s \<or> ring kv < e - s)" using assms by auto
      then show ?thesis by (simp only: extend_rows_def slot_def ring_slot_def hh_def lo_def n_def Let_def if_False)
    qed
    then show ?thesis unfolding a b by simp
  qed
  also have "concat (map (\<lambda>i. take w (drop (i * w) buf)) [lo..<lo + hh]) @
      concat (map (\<lambda>i. take w (drop (i * w) buf)) [0..<e - s - hh])
    = concat (map (\<lambda>i. take w (drop (i * w) buf)) (map (\<lambda>p. p mod n) [s..<e]))"
    using wrap_positions [of n s e] assms by (simp add: n_def lo_def hh_def)
  finally show ?thesis unfolding n_def map_map o_def .
qed

lemma read_window:
  assumes "window_holds w sz hi bufs M" and "0 < ring kv" and "ring kv = sz" and "l < length bufs" and "s \<le> e"
    and "\<And>p. s \<le> p \<Longrightarrow> p < e \<Longrightarrow> M l p \<noteq> None"
  shows "extend_rows kv (bufs ! l) w s e out = Some (out @ concat (map (\<lambda>p. the (M l p)) [s..<e]))"
proof -
  have row: "hi \<le> p + sz \<and> p < hi \<and> take w (drop (p mod sz * w) (bufs ! l)) = the (M l p)" if "s \<le> p" "p < e" for p
    using assms(1) assms(6) [OF that] by (auto simp: window_holds_def)
  have "e - s \<le> sz"
  proof (cases "s = e")
    case False
    then have "s < e" using assms(5) by simp
    then have "hi \<le> s + sz" "e - 1 < hi" using row [of s] row [of "e - 1"] by simp_all
    then show ?thesis using \<open>s < e\<close> by linarith
  qed simp
  moreover have "length (bufs ! l) = sz * w" using assms(1,4) by (simp add: window_holds_def)
  ultimately have "extend_rows kv (bufs ! l) w s e out =
      Some (out @ concat (map (\<lambda>p. take w (drop (p mod sz * w) (bufs ! l))) [s..<e]))"
    using extend_rows_window assms(2,3,5) by simp
  also have "map (\<lambda>p. take w (drop (p mod sz * w) (bufs ! l))) [s..<e] = map (\<lambda>p. the (M l p)) [s..<e]"
    using row by simp
  finally show ?thesis .
qed

text \<open>
  C37: The ring is a correct sliding window.  Start from a fresh cache, size and grow the ring and
  write latent and rotary rows of any layers at any positions not behind the window: no operation
  panics, and reading back any span whose positions the abstract window still holds, across the
  wrap and across every resize, returns exactly the last rows written at those positions, in order.
\<close>

theorem ring_refines_window:
  assumes "ops_ok n kvl qkr empty_window ops" and "a = fold win_apply ops empty_window" and "0 < win_size a"
  shows "\<exists>kv. run_kv ops (kv_new n kvl qkr mt) = Some kv \<and>
    (\<forall>l s e out. l < n \<longrightarrow> s \<le> e \<longrightarrow>
       ((\<forall>p. s \<le> p \<longrightarrow> p < e \<longrightarrow> win_lat a l p \<noteq> None) \<longrightarrow>
          extend_latent_rows kv l s e out = Some (out @ concat (map (\<lambda>p. the (win_lat a l p)) [s..<e]))) \<and>
       ((\<forall>p. s \<le> p \<longrightarrow> p < e \<longrightarrow> win_rot a l p \<noteq> None) \<longrightarrow>
          extend_krot_rows kv l s e out = Some (out @ concat (map (\<lambda>p. the (win_rot a l p)) [s..<e]))))"
proof -
  have "implements n (kv_new n kvl qkr mt) empty_window"
    by (simp add: implements_def kv_new_def empty_window_def)
  from run_refines [OF this] assms(1,2) obtain kv where run: "run_kv ops (kv_new n kvl qkr mt) = Some kv" "implements n kv a"
    by (auto simp: kv_new_def)
  then have h: "window_holds (kv_lora kv) (win_size a) (win_hi a) (latent kv) (win_lat a)"
    "window_holds (qk_rope kv) (win_size a) (win_hi a) (k_rot kv) (win_rot a)"
    and r: "ring kv = win_size a" "0 < ring kv" "length (latent kv) = n" "length (k_rot kv) = n"
    using assms(3) by (simp_all add: implements_def)
  have "extend_latent_rows kv l s e out = Some (out @ concat (map (\<lambda>p. the (win_lat a l p)) [s..<e]))"
    if "l < n" "s \<le> e" "\<forall>p. s \<le> p \<longrightarrow> p < e \<longrightarrow> win_lat a l p \<noteq> None" for l s e out
    using read_window [OF h(1) r(2,1), of l s e out] that r by (simp add: extend_latent_rows_def)
  moreover have "extend_krot_rows kv l s e out = Some (out @ concat (map (\<lambda>p. the (win_rot a l p)) [s..<e]))"
    if "l < n" "s \<le> e" "\<forall>p. s \<le> p \<longrightarrow> p < e \<longrightarrow> win_rot a l p \<noteq> None" for l s e out
    using read_window [OF h(2) r(2,1), of l s e out] that r by (simp add: extend_krot_rows_def)
  ultimately show ?thesis using run(1) by blast
qed

definition demo_ops :: "kv_op list" where
  "demo_ops = [Ensure 2, Put_latent 0 0 [1], Put_latent 0 1 [2], Put_latent 0 2 [3], Ensure 3, Put_latent 0 3 [4]]"

theorem ring_refines_window_witness:
  "\<exists>kv. run_kv demo_ops (kv_new 1 1 0 8) = Some kv \<and> extend_latent_rows kv 0 1 4 [] = Some [2, 3, 4]"
proof -
  have ok: "ops_ok 1 1 0 empty_window demo_ops" by (simp add: demo_ops_def empty_window_def Let_def)
  have w: "0 < win_size (fold win_apply demo_ops empty_window)" by (simp add: demo_ops_def empty_window_def Let_def)
  have lat: "win_lat (fold win_apply demo_ops empty_window) 0 1 = Some [2]"
    "win_lat (fold win_apply demo_ops empty_window) 0 2 = Some [3]" "win_lat (fold win_apply demo_ops empty_window) 0 3 = Some [4]"
    by (simp_all add: demo_ops_def empty_window_def forget_below_def put_row_def Let_def)
  have held: "win_lat (fold win_apply demo_ops empty_window) 0 p \<noteq> None" if "1 \<le> p" "p < 4" for p
  proof -
    have "p = 1 \<or> p = 2 \<or> p = 3" using that by linarith
    then show ?thesis using lat by auto
  qed
  have span: "[1..<4] = [1, 2, 3 :: nat]" by (simp add: upt_rec)
  from ring_refines_window [OF ok refl w, of 8] obtain kv where kv: "run_kv demo_ops (kv_new 1 1 0 8) = Some kv"
    "\<And>s e out. s \<le> e \<Longrightarrow> (\<forall>p. s \<le> p \<longrightarrow> p < e \<longrightarrow> win_lat (fold win_apply demo_ops empty_window) 0 p \<noteq> None) \<Longrightarrow>
      extend_latent_rows kv 0 s e out = Some (out @ concat (map (\<lambda>p. the (win_lat (fold win_apply demo_ops empty_window) 0 p)) [s..<e]))"
    by auto
  have "extend_latent_rows kv 0 1 4 [] = Some [2, 3, 4]" using kv(2) [of 1 4 "[]"] held lat unfolding span by simp
  then show ?thesis using kv(1) by blast
qed

section \<open>Compressed rows append\<close>

text \<open>Pushing a row of the right width appends it to what \<open>comp_rows\<close> returns, or leaves it when full.\<close>

lemma comp_push_appends:
  assumes "layer < length (comp_bufs kv)" and "length (comp_len kv) = length (comp_bufs kv)" and "length row = comp_dim kv"
    and "comp_len kv ! layer * comp_dim kv \<le> length (comp_bufs kv ! layer)"
  shows "\<exists>kv' rows. comp_push layer row kv = Some kv' \<and> comp_rows kv layer = Some rows \<and>
    comp_rows kv' layer = Some (if (comp_len kv ! layer + 1) * comp_dim kv \<le> length (comp_bufs kv ! layer) then rows @ row else rows)"
proof -
  define n d buf where "n = comp_len kv ! layer" and "d = comp_dim kv" and "buf = comp_bufs kv ! layer"
  have rows: "comp_rows kv layer = Some (take (n * d) buf)"
    using assms by (simp add: comp_rows_def get_range_def n_def d_def buf_def)
  show ?thesis
  proof (cases "(n + 1) * d \<le> length buf")
    case True
    then have "take ((n + 1) * d) (patch (n * d) row buf) = take (n * d) buf @ row"
      using assms(3) by (simp add: patch_def d_def)
    moreover have "length (patch (n * d) row buf) = length buf"
      using True assms(3) by (intro length_patch) (simp add: d_def)
    ultimately have "comp_rows (kv\<lparr>comp_bufs := (comp_bufs kv)[layer := patch (n * d) row buf], comp_len := (comp_len kv)[layer := n + 1]\<rparr>) layer
        = Some (take (n * d) buf @ row)"
      using True assms(1,2) by (simp add: comp_rows_def get_range_def d_def)
    then show ?thesis using True assms rows set_row_Some [of n d buf row]
      by (simp add: comp_push_def n_def d_def buf_def)
  next
    case False
    then show ?thesis using assms rows by (simp add: comp_push_def n_def d_def buf_def)
  qed
qed

end
