(* ===== verification/Preload.thy ===== *)
theory Preload
  imports Safetensors Chunk
begin

text \<open>
  Parallel expert preloading, \<open>colibri-engine/src/preload.rs\<close>: every routed expert is written as a
  blob into one of several shard files round-robin, a JSON manifest records where, and loading reads
  the shards back, one thread per shard, into a resident store.

  The shard files are their contents; reading the experts in the first place is a parameter, the
  expert provider.  \<open>preload_parallel\<close>, which loads straight from a snapshot through the tensor
  loader, is not modelled.

  The main result is end to end: repacking, saving and parsing the manifest, and loading the shards
  gives a store that serves exactly the experts of the provider.
\<close>

section \<open>The manifest\<close>

record expert_loc =
  el_layer :: nat
  el_eid :: nat
  el_file :: nat
  el_offset :: nat

record manifest =
  m_files :: nat
  m_hidden :: nat
  m_inter :: nat
  m_layers :: "(nat \<times> int \<times> nat) list"
  m_experts :: "expert_loc list"

definition layer_meta :: "manifest \<Rightarrow> nat \<rightharpoonup> int \<times> nat" where
  "layer_meta m = fold (\<lambda>(l, f, b) meta. meta(l \<mapsto> (f, b))) (m_layers m) Map.empty"

definition total_bytes :: "manifest \<Rightarrow> nat" where
  "total_bytes m = usz (sum_list (map (\<lambda>e. case layer_meta m (el_layer e) of Some (_, b) \<Rightarrow> b | None \<Rightarrow> 0) (m_experts m)))"

text \<open>The text of the manifest.\<close>

definition bracket :: "byte_string list \<Rightarrow> byte_string" where
  "bracket xs = lit ''['' @ commas xs @ lit '']''"

definition layer_text :: "nat \<times> int \<times> nat \<Rightarrow> byte_string" where
  "layer_text x = (case x of (l, f, b) \<Rightarrow> bracket [show_digits l, show_int f, show_digits b])"

definition loc_text :: "expert_loc \<Rightarrow> byte_string" where
  "loc_text e = bracket [show_digits (el_layer e), show_digits (el_eid e), show_digits (el_file e), show_digits (el_offset e)]"

definition manifest_save :: "manifest \<Rightarrow> byte_string" where
  "manifest_save m =
     lit ''{'' @ in_quotes (lit ''num_files'') @ lit '':'' @ show_digits (m_files m) @ lit '','' @
     in_quotes (lit ''hidden'') @ lit '':'' @ show_digits (m_hidden m) @ lit '','' @
     in_quotes (lit ''moe_inter'') @ lit '':'' @ show_digits (m_inter m) @ lit '','' @
     in_quotes (lit ''layers'') @ lit '':'' @ bracket (map layer_text (m_layers m)) @ lit '','' @
     in_quotes (lit ''experts'') @ lit '':'' @ bracket (map loc_text (m_experts m)) @ lit ''}''"

datatype preload_error = Empty_manifest | Preload_panic | Io | Provider | Not_preloaded

text \<open>\<open>e[k].as_i64().unwrap_or(0)\<close>: indexing past the end panics.\<close>

definition arr_i64 :: "json list \<Rightarrow> nat \<Rightarrow> preload_error + int" where
  "arr_i64 e k = and_then (ok_or Preload_panic (idx e k)) (\<lambda>j. Inr (case as_i64 j of Some n \<Rightarrow> n | None \<Rightarrow> 0))"

definition layer_entry :: "json list \<Rightarrow> preload_error + (nat \<times> int \<times> nat)" where
  "layer_entry e = and_then (arr_i64 e 0) (\<lambda>l. and_then (arr_i64 e 1) (\<lambda>f. and_then (arr_i64 e 2) (\<lambda>b.
     Inr (to_usize l, wrap32 f, to_usize b))))"

definition loc_entry :: "json list \<Rightarrow> preload_error + expert_loc" where
  "loc_entry e = and_then (arr_i64 e 0) (\<lambda>l. and_then (arr_i64 e 1) (\<lambda>x. and_then (arr_i64 e 2) (\<lambda>f.
     and_then (arr_i64 e 3) (\<lambda>o'. Inr \<lparr>el_layer = to_usize l, el_eid = to_usize x, el_file = to_usize f, el_offset = to_usize o'\<rparr>))))"

definition entries_of :: "(json list \<Rightarrow> preload_error + 'a) \<Rightarrow> json option \<Rightarrow> preload_error + 'a list" where
  "entries_of f j = (case Option.bind j as_array of None \<Rightarrow> Inr [] | Some a \<Rightarrow> try_map f (List.map_filter as_array a))"

definition num_field :: "json \<Rightarrow> byte_string \<Rightarrow> int" where
  "num_field j k = (case Option.bind (json_get j k) as_i64 of Some n \<Rightarrow> n | None \<Rightarrow> 0)"

definition manifest_load :: "byte_string \<Rightarrow> preload_error + manifest" where
  "manifest_load text =
     and_then (ok_or Empty_manifest (json_parse text)) (\<lambda>j.
       and_then (entries_of layer_entry (json_get j (lit ''layers''))) (\<lambda>layers.
         and_then (entries_of loc_entry (json_get j (lit ''experts''))) (\<lambda>experts.
           Inr \<lparr>m_files = to_usize (num_field j (lit ''num_files'')), m_hidden = to_usize (num_field j (lit ''hidden'')),
                m_inter = to_usize (num_field j (lit ''moe_inter'')), m_layers = layers, m_experts = experts\<rparr>)))"

section \<open>Blobs\<close>

record blob_layout =
  gate_q :: nat
  gate_s :: nat
  up_q :: nat
  up_s :: nat
  down_q :: nat
  down_s :: nat

definition layout :: "nat \<Rightarrow> nat \<Rightarrow> int \<Rightarrow> blob_layout option" where
  "layout hidden moe fmt =
     (if fmt = 1 then Some \<lparr>gate_q = moe * hidden, gate_s = moe * 4, up_q = moe * hidden, up_s = moe * 4,
        down_q = hidden * moe, down_s = hidden * 4\<rparr>
      else None)"

definition blob_bytes :: "nat \<Rightarrow> nat \<Rightarrow> int \<Rightarrow> nat option" where
  "blob_bytes hidden moe fmt = map_option (\<lambda>l. gate_q l + gate_s l + up_q l + up_s l + down_q l + down_s l) (layout hidden moe fmt)"

definition push_q :: "qtensor \<Rightarrow> byte_string option" where
  "push_q t = (if fmt_code t = 1 then Some (map of_int (q8 t)) else None)"

definition push_tensor :: "qtensor \<Rightarrow> byte_string option" where
  "push_tensor t = map_option (\<lambda>q. q @ put_f32s (qscales t)) (push_q t)"

definition expert_blob :: "moe_expert \<Rightarrow> byte_string option" where
  "expert_blob ex = do { g \<leftarrow> push_tensor (gate ex); u \<leftarrow> push_tensor (up ex); d \<leftarrow> push_tensor (down ex); Some (g @ u @ d) }"

definition default_tensor :: qtensor where
  "default_tensor = \<lparr>fmt_code = 0, qf = [], q8 = [], q4 = Empty, qscales = [], qblock_scales = Empty, qglobal = 0,
     qrows = 0, qcols = 0, gpu_eligible = False\<rparr>"

definition read_qt :: "byte_string \<Rightarrow> nat \<Rightarrow> nat \<Rightarrow> nat \<Rightarrow> nat \<Rightarrow> nat \<Rightarrow> int \<Rightarrow> (qtensor \<times> nat) option" where
  "read_qt blob off qlen slen o' i fmt = do {
     q \<leftarrow> get_range blob off (off + qlen);
     sb \<leftarrow> get_range blob (off + qlen) (off + qlen + slen);
     if fmt = 1
     then Some (default_tensor\<lparr>fmt_code := fmt, qrows := wrap32 (int o'), qcols := wrap32 (int i),
                  qscales := map from_le (chunks4 sb), q8 := map sint q\<rparr>, off + qlen + slen)
     else None }"

definition expert_from_blob :: "byte_string \<Rightarrow> nat \<Rightarrow> nat \<Rightarrow> int \<Rightarrow> moe_expert option" where
  "expert_from_blob blob hidden moe fmt = do {
     l \<leftarrow> layout hidden moe fmt;
     (g, off) \<leftarrow> read_qt blob 0 (gate_q l) (gate_s l) moe hidden fmt;
     (u, off) \<leftarrow> read_qt blob off (up_q l) (up_s l) moe hidden fmt;
     (d, off) \<leftarrow> read_qt blob off (down_q l) (down_s l) hidden moe fmt;
     Some \<lparr>gate = g, up = u, down = d\<rparr> }"

definition mark_gpu_eligible :: "moe_expert \<Rightarrow> moe_expert" where
  "mark_gpu_eligible ex =
     (let cacheable = (\<lambda>t. \<not> (fmt_code t = 0 \<or> fmt_code t = 1))
      in ex\<lparr>gate := (gate ex)\<lparr>gpu_eligible := cacheable (gate ex)\<rparr>, up := (up ex)\<lparr>gpu_eligible := cacheable (up ex)\<rparr>,
            down := (down ex)\<lparr>gpu_eligible := cacheable (down ex)\<rparr>\<rparr>)"

section \<open>Repacking\<close>

definition routed_experts :: "int \<Rightarrow> int \<Rightarrow> int \<Rightarrow> (nat \<times> nat) list" where
  "routed_experts first_dense n_layers n_exp =
     concat (map (\<lambda>layer. map (\<lambda>eid. (layer, eid)) [0..<to_usize n_exp]) [to_usize first_dense..<to_usize n_layers])"

record repack_state =
  rp_files :: "byte_string list"
  rp_offsets :: "nat list"
  rp_locs :: "expert_loc list"
  rp_meta :: "(nat \<times> int \<times> nat) list"

text \<open>\<open>layer_meta.entry(layer).or_insert(v)\<close>\<close>

definition meta_insert :: "nat \<Rightarrow> int \<times> nat \<Rightarrow> (nat \<times> int \<times> nat) list \<Rightarrow> (nat \<times> int \<times> nat) list" where
  "meta_insert layer v meta = (if layer \<in> fst ` set meta then meta else (layer, v) # meta)"

definition repack_one :: "(nat \<Rightarrow> nat \<Rightarrow> preload_error + moe_expert) \<Rightarrow> nat \<Rightarrow> nat \<times> nat \<times> nat \<Rightarrow> repack_state \<Rightarrow>
    preload_error + repack_state" where
  "repack_one provider files x st = (case x of (ix, layer, eid) \<Rightarrow>
     and_then (provider layer eid) (\<lambda>ex. and_then (ok_or Preload_panic (expert_blob ex)) (\<lambda>blob.
       let f = ix mod files in
       Inr (st\<lparr>rp_files := (rp_files st)[f := rp_files st ! f @ blob],
              rp_offsets := (rp_offsets st)[f := rp_offsets st ! f + length blob],
              rp_locs := rp_locs st @ [\<lparr>el_layer = layer, el_eid = eid, el_file = f, el_offset = rp_offsets st ! f\<rparr>],
              rp_meta := meta_insert layer (fmt_code (gate ex), length blob) (rp_meta st)\<rparr>))))"

fun repack_all :: "(nat \<Rightarrow> nat \<Rightarrow> preload_error + moe_expert) \<Rightarrow> nat \<Rightarrow> (nat \<times> nat \<times> nat) list \<Rightarrow> repack_state \<Rightarrow>
    preload_error + repack_state" where
  "repack_all provider files [] st = Inr st"
| "repack_all provider files (x # xs) st = and_then (repack_one provider files x st) (repack_all provider files xs)"

text \<open>The manifest and the shard files; the iteration order of the layer map is forgotten by the sort.\<close>

definition repack :: "(nat \<Rightarrow> nat \<Rightarrow> preload_error + moe_expert) \<Rightarrow> int \<Rightarrow> int \<Rightarrow> int \<Rightarrow> int \<Rightarrow> int \<Rightarrow> nat \<Rightarrow>
    preload_error + manifest \<times> byte_string \<times> byte_string list" where
  "repack provider hidden moe first_dense n_layers n_exp files =
     (if files < 1 then Inl Preload_panic
      else and_then (repack_all provider files (enumerate 0 (routed_experts first_dense n_layers n_exp))
             \<lparr>rp_files = replicate files [], rp_offsets = replicate files 0, rp_locs = [], rp_meta = []\<rparr>)
        (\<lambda>st. let m = \<lparr>m_files = files, m_hidden = to_usize hidden, m_inter = to_usize moe,
                       m_layers = sort_key fst (rp_meta st), m_experts = rp_locs st\<rparr>
              in Inr (m, manifest_save m, rp_files st)))"

section \<open>Loading the shards\<close>

text \<open>A hash map as an association list, the latest insertion first.\<close>

type_synonym store = "((nat \<times> nat) \<times> moe_expert) list"

fun load_locs :: "manifest \<Rightarrow> byte_string \<Rightarrow> nat \<Rightarrow> nat \<Rightarrow> expert_loc list \<Rightarrow> store \<Rightarrow> preload_error + store" where
  "load_locs m file budget used [] acc = Inr acc"
| "load_locs m file budget used (loc # locs) acc =
     (case layer_meta m (el_layer loc) of
        None \<Rightarrow> Inl Preload_panic
      | Some (fmt, ebytes) \<Rightarrow>
          if budget < used + ebytes \<and> acc \<noteq> [] then Inr acc
          else (case read_exact_at file (el_offset loc) ebytes of
             Inl e \<Rightarrow> Inl Io
           | Inr buf \<Rightarrow> (case expert_from_blob buf (m_hidden m) (m_inter m) fmt of
               None \<Rightarrow> Inl Preload_panic
             | Some ex \<Rightarrow> load_locs m file budget (used + ebytes) locs
                 (((el_layer loc, el_eid loc), mark_gpu_eligible ex) # acc))))"

definition shard_locs :: "manifest \<Rightarrow> nat \<Rightarrow> expert_loc list" where
  "shard_locs m f = sort_key el_offset (filter (\<lambda>e. el_file e = f) (m_experts m))"

definition load_shard :: "manifest \<Rightarrow> byte_string list \<Rightarrow> nat \<Rightarrow> nat \<Rightarrow> preload_error + store" where
  "load_shard m files budget f =
     (case idx files f of None \<Rightarrow> Inl Io | Some c \<Rightarrow> load_locs m c budget 0 (shard_locs m f) [])"

text \<open>A panic of any thread is a panic of the join; otherwise the first error in shard order.\<close>

definition store_load :: "manifest \<Rightarrow> byte_string list \<Rightarrow> nat \<Rightarrow> preload_error + store" where
  "store_load m files budget =
     (if \<exists>e \<in> set (m_experts m). m_files m \<le> el_file e then Inl Preload_panic
      else let results = map (load_shard m files budget) [0..<m_files m]
        in if Inl Preload_panic \<in> set results then Inl Preload_panic
           else and_then (try_map id results) (\<lambda>stores. Inr (concat (rev stores))))"

definition store_expert :: "store \<Rightarrow> nat \<Rightarrow> nat \<Rightarrow> preload_error + moe_expert" where
  "store_expert s layer eid = ok_or Not_preloaded (map_of s (layer, eid))"

section \<open>Blobs round trip\<close>

text \<open>An int8 tensor as the loader makes it: everything but the weights, scales and shape at its default.\<close>

definition plain_int8 :: "nat \<Rightarrow> nat \<Rightarrow> qtensor \<Rightarrow> bool" where
  "plain_int8 o' i t \<longleftrightarrow> length (q8 t) = o' * i \<and> length (qscales t) = o' \<and> (\<forall>x \<in> set (q8 t). -128 \<le> x \<and> x < 128) \<and>
     o' < 2 ^ 31 \<and> i < 2 ^ 31 \<and>
     t = default_tensor\<lparr>fmt_code := 1, qrows := int o', qcols := int i, q8 := q8 t, qscales := qscales t\<rparr>"

definition plain_expert :: "nat \<Rightarrow> nat \<Rightarrow> moe_expert \<Rightarrow> bool" where
  "plain_expert hidden moe ex \<longleftrightarrow> plain_int8 moe hidden (gate ex) \<and> plain_int8 moe hidden (up ex) \<and> plain_int8 hidden moe (down ex)"

lemma wrap32_small: "n < 2 ^ 31 \<Longrightarrow> wrap32 (int n) = int n"
  by (simp add: wrap32_def mod_pos_pos_trivial)

lemma plain_int8_fields:
  assumes "plain_int8 o' i t"
  shows "fmt_code t = 1" "\<not> gpu_eligible t"
proof -
  have eq: "t = default_tensor\<lparr>fmt_code := 1, qrows := int o', qcols := int i, q8 := q8 t, qscales := qscales t\<rparr>"
    using assms by (simp add: plain_int8_def)
  from arg_cong [OF eq, of fmt_code] arg_cong [OF eq, of gpu_eligible] show "fmt_code t = 1" "\<not> gpu_eligible t"
    by (simp_all add: default_tensor_def)
qed

lemma sint_byte:
  assumes "-128 \<le> x" and "x < 128"
  shows "sint (of_int x :: u8) = x"
  using assms by (simp add: signed_of_int signed_take_bit_int_eq_self)

lemma push_tensor_plain:
  assumes "plain_int8 o' i t"
  shows "push_tensor t = Some (map of_int (q8 t) @ put_f32s (qscales t))"
    and "length (map of_int (q8 t) @ put_f32s (qscales t) :: byte_string) = o' * i + o' * 4"
  using assms plain_int8_fields [OF assms]
  by (simp_all add: push_tensor_def push_q_def plain_int8_def put_f32s_eq)

lemma read_qt_pushed:
  assumes p: "plain_int8 o' i t" and blob: "blob = pre @ (map of_int (q8 t) @ put_f32s (qscales t)) @ post" and "off = length pre"
  shows "read_qt blob off (o' * i) (o' * 4) o' i 1 = Some (t, off + o' * i + o' * 4)"
proof -
  have len: "length (q8 t) = o' * i" "length (qscales t) = o'" using p by (simp_all add: plain_int8_def)
  have q: "get_range blob off (off + o' * i) = Some (map of_int (q8 t))"
    using len assms(3) by (simp add: get_range_def blob)
  have s: "get_range blob (off + o' * i) (off + o' * i + o' * 4) = Some (put_f32s (qscales t))"
    using len assms(3) by (simp add: get_range_def blob put_f32s_eq)
  have "map sint (map of_int (q8 t) :: byte_string) = q8 t"
    using p sint_byte by (auto simp: plain_int8_def intro!: map_idI)
  moreover have "map from_le (chunks4 (put_f32s (qscales t))) = qscales t" by (simp add: put_f32s_eq chunks4_put)
  moreover have "wrap32 (int o') = int o'" "wrap32 (int i) = int i" using p wrap32_small by (auto simp: plain_int8_def)
  moreover have "t = default_tensor\<lparr>fmt_code := 1, qrows := int o', qcols := int i, q8 := q8 t, qscales := qscales t\<rparr>"
    using p by (simp add: plain_int8_def)
  ultimately show ?thesis unfolding read_qt_def q s by (simp add: default_tensor_def)
qed

abbreviation blob_size :: "nat \<Rightarrow> nat \<Rightarrow> nat" where
  "blob_size hidden moe \<equiv> 2 * (moe * hidden + moe * 4) + (hidden * moe + hidden * 4)"

lemma expert_blob_plain:
  assumes "plain_expert hidden moe ex"
  shows "\<exists>b. expert_blob ex = Some b \<and> length b = blob_size hidden moe \<and> expert_from_blob b hidden moe 1 = Some ex"
proof -
  have p: "plain_int8 moe hidden (gate ex)" "plain_int8 moe hidden (up ex)" "plain_int8 hidden moe (down ex)"
    using assms by (simp_all add: plain_expert_def)
  define g u d where "g = map of_int (q8 (gate ex)) @ put_f32s (qscales (gate ex))"
    and "u = map of_int (q8 (up ex)) @ put_f32s (qscales (up ex))"
    and "d = map of_int (q8 (down ex)) @ put_f32s (qscales (down ex))"
  have l: "length g = moe * hidden + moe * 4" "length u = moe * hidden + moe * 4" "length d = hidden * moe + hidden * 4"
    using push_tensor_plain(2) [OF p(1)] push_tensor_plain(2) [OF p(2)] push_tensor_plain(2) [OF p(3)]
    by (simp_all add: g_def u_def d_def)
  have b: "expert_blob ex = Some (g @ u @ d)"
    using push_tensor_plain(1) [OF p(1)] push_tensor_plain(1) [OF p(2)] push_tensor_plain(1) [OF p(3)]
    by (simp add: expert_blob_def g_def u_def d_def)
  have rg: "read_qt (g @ u @ d) 0 (moe * hidden) (moe * 4) moe hidden 1 = Some (gate ex, moe * hidden + moe * 4)"
    using read_qt_pushed [of moe hidden "gate ex" "g @ u @ d" "[]" "u @ d" 0] p by (simp add: g_def)
  have ru: "read_qt (g @ u @ d) (moe * hidden + moe * 4) (moe * hidden) (moe * 4) moe hidden 1
      = Some (up ex, moe * hidden + moe * 4 + moe * hidden + moe * 4)"
    using read_qt_pushed [of moe hidden "up ex" "g @ u @ d" g d "moe * hidden + moe * 4"] p l by (simp add: u_def)
  have rd: "\<exists>n. read_qt (g @ u @ d) (moe * hidden + moe * 4 + moe * hidden + moe * 4) (hidden * moe) (hidden * 4) hidden moe 1
      = Some (down ex, n)"
    using read_qt_pushed [of hidden moe "down ex" "g @ u @ d" "g @ u" "[]" "moe * hidden + moe * 4 + moe * hidden + moe * 4"] p l
    by (simp add: d_def)
  have "expert_from_blob (g @ u @ d) hidden moe 1 = Some ex"
    using rg ru rd by (auto simp: expert_from_blob_def layout_def)
  then show ?thesis using b l by simp
qed

lemma gpu_same: "\<not> gpu_eligible t \<Longrightarrow> t\<lparr>gpu_eligible := False\<rparr> = t"
  by (cases t) simp

lemma mark_plain: "plain_expert hidden moe ex \<Longrightarrow> mark_gpu_eligible ex = ex"
  using plain_int8_fields [of moe hidden "gate ex"] plain_int8_fields [of moe hidden "up ex"]
    plain_int8_fields [of hidden moe "down ex"]
  by (simp add: mark_gpu_eligible_def plain_expert_def gpu_same)

section \<open>The manifest round trip\<close>

abbreviation tnat :: "nat \<Rightarrow> jtree" where
  "tnat n \<equiv> TInt (int n)"

definition layer_tree :: "nat \<times> int \<times> nat \<Rightarrow> jtree" where
  "layer_tree x = (case x of (l, f, b) \<Rightarrow> TArr [tnat l, TInt f, tnat b])"

definition loc_tree :: "expert_loc \<Rightarrow> jtree" where
  "loc_tree e = TArr [tnat (el_layer e), tnat (el_eid e), tnat (el_file e), tnat (el_offset e)]"

definition manifest_tree :: "manifest \<Rightarrow> jtree" where
  "manifest_tree m = TObj [(lit ''num_files'', tnat (m_files m)), (lit ''hidden'', tnat (m_hidden m)),
     (lit ''moe_inter'', tnat (m_inter m)), (lit ''layers'', TArr (map layer_tree (m_layers m))),
     (lit ''experts'', TArr (map loc_tree (m_experts m)))]"

definition manifest_small :: "manifest \<Rightarrow> bool" where
  "manifest_small m \<longleftrightarrow> m_files m < 2 ^ 53 \<and> m_hidden m < 2 ^ 53 \<and> m_inter m < 2 ^ 53 \<and>
     (\<forall>(l, f, b) \<in> set (m_layers m). l < 2 ^ 53 \<and> - (2 ^ 31) \<le> f \<and> f < 2 ^ 31 \<and> b < 2 ^ 53) \<and>
     (\<forall>e \<in> set (m_experts m). el_layer e < 2 ^ 53 \<and> el_eid e < 2 ^ 53 \<and> el_file e < 2 ^ 53 \<and> el_offset e < 2 ^ 53)"

lemma show_nat: "show_digits n = show_json (tnat n)"
  by (simp add: show_int_def)

lemma keys_plain:
  "show_str (lit ''num_files'') = in_quotes (lit ''num_files'')" "show_str (lit ''hidden'') = in_quotes (lit ''hidden'')"
  "show_str (lit ''moe_inter'') = in_quotes (lit ''moe_inter'')" "show_str (lit ''layers'') = in_quotes (lit ''layers'')"
  "show_str (lit ''experts'') = in_quotes (lit ''experts'')"
  by (simp_all add: show_str_def esc_def lit_def in_quotes_def)

lemma bracket_show: "bracket (map show_json ts) = show_json (TArr ts)"
  by (simp add: bracket_def lit_def)

lemma layer_text_tree: "layer_text x = show_json (layer_tree x)"
proof (cases x)
  case (fields l f b)
  show ?thesis using bracket_show [of "[tnat l, TInt f, tnat b]"] by (simp add: fields layer_text_def layer_tree_def show_int_def)
qed

lemma loc_text_tree: "loc_text e = show_json (loc_tree e)"
  using bracket_show [of "[tnat (el_layer e), tnat (el_eid e), tnat (el_file e), tnat (el_offset e)]"]
  by (simp add: loc_text_def loc_tree_def show_int_def)

lemma manifest_save_tree: "manifest_save m = show_json (manifest_tree m)"
proof -
  have l: "bracket (map layer_text (m_layers m)) = show_json (TArr (map layer_tree (m_layers m)))"
    using bracket_show [of "map layer_tree (m_layers m)"] by (simp add: layer_text_tree [abs_def] comp_def)
  have e: "bracket (map loc_text (m_experts m)) = show_json (TArr (map loc_tree (m_experts m)))"
    using bracket_show [of "map loc_tree (m_experts m)"] by (simp add: loc_text_tree [abs_def] comp_def)
  show ?thesis unfolding manifest_save_def l e
    by (simp add: manifest_tree_def keys_plain show_int_def) (simp add: lit_def)
qed

lemma utf8_lit: "utf8_valid (lit ''num_files'')" "utf8_valid (lit ''hidden'')" "utf8_valid (lit ''moe_inter'')"
  "utf8_valid (lit ''layers'')" "utf8_valid (lit ''experts'')"
  by (simp_all add: lit_def utf8_step_def utf8_width_def)

lemma manifest_tree_ok:
  assumes "manifest_small m"
  shows "jtree_ok (manifest_tree m)"
proof -
  have "jtree_ok (layer_tree x)" if "x \<in> set (m_layers m)" for x
    using assms that by (cases x) (fastforce simp: manifest_small_def layer_tree_def)
  moreover have "jtree_ok (loc_tree e)" if "e \<in> set (m_experts m)" for e
    using assms that by (simp add: manifest_small_def loc_tree_def)
  ultimately show ?thesis using assms utf8_lit by (simp add: manifest_tree_def manifest_small_def list_all_iff)
qed

lemma as_nat: "n < 2 ^ 53 \<Longrightarrow> as_i64 (json_of (tnat n)) = Some (int n)"
  by (rule as_i64_int) simp

lemma usize_small: "n < 2 ^ 53 \<Longrightarrow> to_usize (int n) = n"
  by (simp add: to_usize_nonneg)

lemma layer_entry_tree:
  assumes "l < 2 ^ 53" "- (2 ^ 31) \<le> f" "f < 2 ^ 31" "b < 2 ^ 53"
  shows "layer_entry (map json_of [tnat l, TInt f, tnat b]) = Inr (l, f, b)"
proof -
  have "as_i64 (json_of (TInt f)) = Some f" using assms by (intro as_i64_int) simp
  then show ?thesis using assms as_nat [of l] as_nat [of b] wrap32_id
    by (simp add: layer_entry_def arr_i64_def usize_small idx_def del: json_of.simps)
qed

lemma loc_entry_tree:
  assumes "el_layer e < 2 ^ 53" "el_eid e < 2 ^ 53" "el_file e < 2 ^ 53" "el_offset e < 2 ^ 53"
  shows "loc_entry (map json_of [tnat (el_layer e), tnat (el_eid e), tnat (el_file e), tnat (el_offset e)]) = Inr e"
  using assms as_nat [of "el_layer e"] as_nat [of "el_eid e"] as_nat [of "el_file e"] as_nat [of "el_offset e"]
  by (simp add: loc_entry_def arr_i64_def usize_small idx_def del: json_of.simps)

lemma map_filter_arrays: "List.map_filter as_array (map (\<lambda>x. Arr (f x)) xs) = map f xs"
  by (induction xs) (simp_all add: List.map_filter_simps as_array_def)

lemma entries_of_trees:
  assumes "\<And>x. x \<in> set xs \<Longrightarrow> f (map json_of (ts x)) = Inr x"
  shows "entries_of f (Some (json_of (TArr (map (\<lambda>x. TArr (ts x)) xs)))) = Inr xs"
proof -
  have "List.map_filter as_array (map (\<lambda>x. Arr (map json_of (ts x))) xs) = map (\<lambda>x. map json_of (ts x)) xs"
    by (rule map_filter_arrays)
  moreover have "try_map f (map (\<lambda>x. map json_of (ts x)) xs) = Inr xs"
    using assms by (induction xs) simp_all
  ultimately show ?thesis by (simp add: entries_of_def as_array_def comp_def)
qed

lemma manifest_round_trip:
  assumes "manifest_small m"
  shows "manifest_load (manifest_save m) = Inr m"
proof -
  let ?j = "json_of (manifest_tree m)"
  have parse: "json_parse (manifest_save m) = Some ?j"
    unfolding manifest_save_tree by (rule json_parse_show [OF manifest_tree_ok [OF assms]])
  have gets: "json_get ?j (lit ''num_files'') = Some (json_of (tnat (m_files m)))"
    "json_get ?j (lit ''hidden'') = Some (json_of (tnat (m_hidden m)))"
    "json_get ?j (lit ''moe_inter'') = Some (json_of (tnat (m_inter m)))"
    "json_get ?j (lit ''layers'') = Some (json_of (TArr (map layer_tree (m_layers m))))"
    "json_get ?j (lit ''experts'') = Some (json_of (TArr (map loc_tree (m_experts m))))"
    unfolding manifest_tree_def json_of.simps(6)
    by (simp_all add: json_get_def obj_get_push obj_push_ok obj_new_ok del: json_of.simps)
  have layers: "entries_of layer_entry (Some (json_of (TArr (map layer_tree (m_layers m))))) = Inr (m_layers m)"
  proof -
    have tree: "layer_tree = (\<lambda>x. TArr ((\<lambda>(l, f, b). [tnat l, TInt f, tnat b]) x))" by (auto simp: layer_tree_def)
    have each: "layer_entry (map json_of ((\<lambda>(l, f, b). [tnat l, TInt f, tnat b]) x)) = Inr x" if "x \<in> set (m_layers m)" for x
    proof (cases x)
      case (fields l f b)
      then show ?thesis using layer_entry_tree [of l f b] assms that by (auto simp: manifest_small_def)
    qed
    show ?thesis unfolding tree by (rule entries_of_trees) (rule each)
  qed
  have experts: "entries_of loc_entry (Some (json_of (TArr (map loc_tree (m_experts m))))) = Inr (m_experts m)"
    unfolding loc_tree_def using assms loc_entry_tree
    by (intro entries_of_trees) (simp add: manifest_small_def del: json_of.simps)
  have "num_field ?j (lit ''num_files'') = int (m_files m)" "num_field ?j (lit ''hidden'') = int (m_hidden m)"
    "num_field ?j (lit ''moe_inter'') = int (m_inter m)"
    using assms as_nat by (simp_all add: num_field_def gets manifest_small_def del: json_of.simps)
  then show ?thesis using assms
    by (simp add: manifest_load_def parse gets layers experts usize_small manifest_small_def del: json_of.simps)
qed

section \<open>What repacking writes\<close>

text \<open>A location is good when the file holds the blob of the provider's expert there.\<close>

definition stored :: "(nat \<Rightarrow> nat \<Rightarrow> preload_error + moe_expert) \<Rightarrow> nat \<Rightarrow> nat \<Rightarrow> byte_string list \<Rightarrow> expert_loc \<Rightarrow> bool" where
  "stored provider h m fs loc \<longleftrightarrow> el_file loc < length fs \<and>
     el_offset loc + blob_size h m \<le> length (fs ! el_file loc) \<and>
     (\<exists>ex. provider (el_layer loc) (el_eid loc) = Inr ex \<and> plain_expert h m ex \<and>
        expert_blob ex = Some (take (blob_size h m) (drop (el_offset loc) (fs ! el_file loc))))"

definition repack_inv :: "(nat \<Rightarrow> nat \<Rightarrow> preload_error + moe_expert) \<Rightarrow> nat \<Rightarrow> nat \<Rightarrow> nat \<Rightarrow> repack_state \<Rightarrow> bool" where
  "repack_inv provider h m n st \<longleftrightarrow> length (rp_files st) = n \<and> rp_offsets st = map length (rp_files st) \<and>
     (\<forall>loc \<in> set (rp_locs st). stored provider h m (rp_files st) loc) \<and>
     (\<forall>f < n. length (rp_files st ! f) = blob_size h m * length (filter (\<lambda>e. el_file e = f) (rp_locs st))) \<and>
     distinct (map fst (rp_meta st)) \<and> (\<forall>x \<in> set (rp_meta st). snd x = (1, blob_size h m)) \<and>
     fst ` set (rp_meta st) = el_layer ` set (rp_locs st)"

lemma stored_append:
  assumes "stored provider h m fs loc" and "f < length fs"
  shows "stored provider h m (fs[f := fs ! f @ b]) loc"
proof (cases "el_file loc = f")
  case True
  then show ?thesis using assms by (simp add: stored_def)
qed (use assms in \<open>simp add: stored_def\<close>)

lemma repack_one_inv:
  assumes inv: "repack_inv provider h m n st" and "0 < n" and p: "provider layer eid = Inr ex" "plain_expert h m ex"
  shows "\<exists>st'. repack_one provider n (ix, layer, eid) st = Inr st' \<and> repack_inv provider h m n st' \<and>
    map (\<lambda>e. (el_layer e, el_eid e)) (rp_locs st') = map (\<lambda>e. (el_layer e, el_eid e)) (rp_locs st) @ [(layer, eid)]"
proof -
  obtain b where b: "expert_blob ex = Some b" "length b = blob_size h m" using expert_blob_plain [OF p(2)] by blast
  have fmt: "fmt_code (gate ex) = 1" using p(2) plain_int8_fields(1) by (auto simp: plain_expert_def)
  define f where "f = ix mod n"
  have f: "f < n" using assms(2) by (simp add: f_def)
  define fs where "fs = rp_files st"
  have fs: "length fs = n" "rp_offsets st = map length fs" using inv by (simp_all add: repack_inv_def fs_def)
  define loc where "loc = \<lparr>el_layer = layer, el_eid = eid, el_file = f, el_offset = length (fs ! f)\<rparr>"
  define st' where "st' = st\<lparr>rp_files := fs[f := fs ! f @ b], rp_offsets := (rp_offsets st)[f := length (fs ! f) + length b],
    rp_locs := rp_locs st @ [loc], rp_meta := meta_insert layer (1, length b) (rp_meta st)\<rparr>"
  have step: "repack_one provider n (ix, layer, eid) st = Inr st'"
    using p(1) b(1) fmt f fs
    by (simp add: repack_one_def st'_def loc_def f_def [symmetric] fs_def [symmetric] Let_def)
  have new: "stored provider h m (fs[f := fs ! f @ b]) loc"
    using p b f fs by (auto simp: stored_def loc_def)
  have old: "stored provider h m (fs[f := fs ! f @ b]) e" if "e \<in> set (rp_locs st)" for e
    using inv that f fs by (intro stored_append) (auto simp: repack_inv_def fs_def)
  have "repack_inv provider h m n st'"
    unfolding repack_inv_def
  proof (intro conjI ballI allI impI)
    show "rp_offsets st' = map length (rp_files st')" using fs f by (simp add: st'_def map_update)
    show "stored provider h m (rp_files st') e" if "e \<in> set (rp_locs st')" for e using that new old by (auto simp: st'_def)
    show "length (rp_files st' ! g) = blob_size h m * length (filter (\<lambda>e. el_file e = g) (rp_locs st'))" if "g < n" for g
      using inv that f fs b(2) by (auto simp: st'_def repack_inv_def fs_def loc_def nth_list_update algebra_simps)
    show "fst ` set (rp_meta st') = el_layer ` set (rp_locs st')"
      using inv by (auto simp: st'_def repack_inv_def meta_insert_def loc_def)
    show "distinct (map fst (rp_meta st'))" using inv by (auto simp: st'_def repack_inv_def meta_insert_def)
    show "snd x = (1, blob_size h m)" if "x \<in> set (rp_meta st')" for x
      using inv that b(2) by (auto simp: st'_def repack_inv_def meta_insert_def split: if_splits)
  qed (use fs in \<open>simp add: st'_def\<close>)
  then show ?thesis using step by (simp add: st'_def loc_def)
qed

lemma repack_all_inv:
  assumes "repack_inv provider h m n st" and "0 < n"
    and "\<forall>(ix, l, e) \<in> set xs. \<exists>ex. provider l e = Inr ex \<and> plain_expert h m ex"
  shows "\<exists>st'. repack_all provider n xs st = Inr st' \<and> repack_inv provider h m n st' \<and>
    map (\<lambda>e. (el_layer e, el_eid e)) (rp_locs st') = map (\<lambda>e. (el_layer e, el_eid e)) (rp_locs st) @ map snd xs"
  using assms(1,3)
proof (induction xs arbitrary: st)
  case (Cons x xs)
  obtain ix l e where x: "x = (ix, l, e)" by (cases x)
  obtain ex where "provider l e = Inr ex" "plain_expert h m ex" using Cons.prems(2) x by auto
  from repack_one_inv [OF Cons.prems(1) assms(2) this] obtain st1 where
    s1: "repack_one provider n x st = Inr st1" "repack_inv provider h m n st1"
    "map (\<lambda>e. (el_layer e, el_eid e)) (rp_locs st1) = map (\<lambda>e. (el_layer e, el_eid e)) (rp_locs st) @ [(l, e)]"
    unfolding x by blast
  from Cons.IH [OF s1(2)] Cons.prems(2) s1 show ?case by (auto simp: x)
qed simp

section \<open>Loading what was written\<close>

lemma read_inside: "off + n \<le> length f \<Longrightarrow> read_exact_at f off n = Inr (take n (drop off f))"
  by (simp add: read_exact_at_def)

lemma load_locs_all:
  assumes "\<forall>loc \<in> set locs. stored provider h m fs loc \<and> el_file loc = f" and "\<forall>loc \<in> set locs. layer_meta man (el_layer loc) = Some (1, blob_size h m)"
    and "m_hidden man = h" and "m_inter man = m" and "used + blob_size h m * length locs \<le> budget"
  shows "\<exists>es. load_locs man (fs ! f) budget used locs acc = Inr (es @ acc) \<and> fst ` set es = (\<lambda>e. (el_layer e, el_eid e)) ` set locs \<and>
    (\<forall>(k, ex) \<in> set es. provider (fst k) (snd k) = Inr ex)"
  using assms(1,2,5)
proof (induction locs arbitrary: used acc)
  case (Cons loc locs)
  let ?b = "blob_size h m"
  obtain ex where ex: "provider (el_layer loc) (el_eid loc) = Inr ex" "plain_expert h m ex"
    "expert_blob ex = Some (take ?b (drop (el_offset loc) (fs ! f)))" "el_offset loc + ?b \<le> length (fs ! f)"
    using Cons.prems(1) by (auto simp: stored_def)
  have blob: "expert_from_blob (take ?b (drop (el_offset loc) (fs ! f))) h m 1 = Some ex"
    using expert_blob_plain [OF ex(2)] ex(3) by auto
  have fits: "used + ?b + ?b * length locs \<le> budget" using Cons.prems(3) by (simp add: algebra_simps)
  from Cons.IH [OF _ _ fits, of "((el_layer loc, el_eid loc), ex) # acc"] Cons.prems(1,2) obtain es where
    ih: "load_locs man (fs ! f) budget (used + ?b) locs (((el_layer loc, el_eid loc), ex) # acc)
      = Inr (es @ ((el_layer loc, el_eid loc), ex) # acc)"
    "fst ` set es = (\<lambda>e. (el_layer e, el_eid e)) ` set locs" "\<forall>(k, ex) \<in> set es. provider (fst k) (snd k) = Inr ex" by auto
  have "load_locs man (fs ! f) budget used (loc # locs) acc = Inr ((es @ [((el_layer loc, el_eid loc), ex)]) @ acc)"
    using ih(1) Cons.prems(2) fits read_inside [OF ex(4)] blob mark_plain [OF ex(2)] assms(3,4) by simp
  then show ?case using ih(2,3) ex(1) by (intro exI [of _ "es @ [((el_layer loc, el_eid loc), ex)]"]) auto
qed simp

lemma fold_meta:
  assumes "distinct (map fst xs)"
  shows "fold (\<lambda>(l, f, b) meta. meta(l \<mapsto> (f, b))) xs M = M ++ map_of xs"
  using assms
proof (induction xs arbitrary: M)
  case (Cons x xs)
  then have "fst x \<notin> dom (map_of xs)" by (simp add: dom_map_of_conv_image_fst)
  then show ?case using Cons
    by (cases x) (auto simp: map_add_upd_left fun_upd_def map_add_def fun_eq_iff split: option.splits)
qed simp

lemma map_of_consistent:
  assumes "\<forall>(k, v) \<in> set es. g k = Inr v" and "k \<in> fst ` set es"
  shows "\<exists>v. map_of es k = Some v \<and> g k = Inr v"
proof -
  have "map_of es k \<noteq> None" using assms(2) by (simp add: map_of_eq_None_iff)
  then obtain v where "map_of es k = Some v" by blast
  moreover from this have "(k, v) \<in> set es" by (rule map_of_SomeD)
  ultimately show ?thesis using assms(1) by blast
qed

lemma routed_iff:
  "(l, e) \<in> set (routed_experts fd nl ne) \<longleftrightarrow> to_usize fd \<le> l \<and> l < to_usize nl \<and> e < to_usize ne"
  unfolding routed_experts_def set_concat set_map set_upt by force

lemma meta_of_layers:
  assumes "distinct (map fst meta)" and "\<forall>x \<in> set meta. snd x = v" and "l \<in> fst ` set meta"
    and "m_layers man = sort_key fst meta"
  shows "layer_meta man l = Some v"
proof -
  have perm: "mset (sort_key fst meta) = mset meta" by simp
  then have "distinct (map fst (sort_key fst meta))" using assms(1) by (metis mset_eq_imp_distinct_iff mset_map)
  then have "layer_meta man l = map_of (sort_key fst meta) l" using fold_meta [of "sort_key fst meta" Map.empty] assms(4) by (simp only: layer_meta_def empty_map_add)
  moreover have "map_of (sort_key fst meta) l \<noteq> None" using assms(3) by (simp add: map_of_eq_None_iff)
  ultimately obtain u where "layer_meta man l = Some u" "map_of (sort_key fst meta) l = Some u" by auto
  moreover from this(2) have "(l, u) \<in> set meta" using map_of_SomeD by fastforce
  ultimately show ?thesis using assms(2) by fastforce
qed

lemma load_all_shards:
  assumes "\<forall>loc \<in> set (m_experts man). stored provider h w fs loc"
    and "\<forall>loc \<in> set (m_experts man). layer_meta man (el_layer loc) = Some (1, blob_size h w)"
    and "m_hidden man = h" "m_inter man = w" "m_files man = length fs"
    and "blob_size h w * length (m_experts man) \<le> budget"
  shows "\<exists>s. store_load man fs budget = Inr s \<and> fst ` set s = (\<lambda>e. (el_layer e, el_eid e)) ` set (m_experts man) \<and>
    (\<forall>(k, ex) \<in> set s. provider (fst k) (snd k) = Inr ex)"
proof -
  define served where "served f es \<longleftrightarrow> load_shard man fs budget f = Inr es \<and>
      fst ` set es = (\<lambda>e. (el_layer e, el_eid e)) ` {e \<in> set (m_experts man). el_file e = f} \<and>
      (\<forall>(k, ex) \<in> set es. provider (fst k) (snd k) = Inr ex)" for f es
  have "\<exists>es. served f es" if "f < length fs" for f
  proof -
    have mem: "set (shard_locs man f) = {e \<in> set (m_experts man). el_file e = f}" by (auto simp: shard_locs_def)
    have "length (shard_locs man f) \<le> length (m_experts man)" by (simp add: shard_locs_def)
    then have "blob_size h w * length (shard_locs man f) \<le> blob_size h w * length (m_experts man)" by (rule mult_le_mono2)
    then have fits: "0 + blob_size h w * length (shard_locs man f) \<le> budget" using assms(6) by (simp only: add_0)
    have st: "\<forall>loc \<in> set (shard_locs man f). stored provider h w fs loc \<and> el_file loc = f" using assms(1) mem by blast
    have me: "\<forall>loc \<in> set (shard_locs man f). layer_meta man (el_layer loc) = Some (1, blob_size h w)" using assms(2) mem by blast
    have "load_shard man fs budget f = load_locs man (fs ! f) budget 0 (shard_locs man f) []"
      using that by (simp add: load_shard_def idx_def)
    with load_locs_all [OF st me assms(3,4) fits, of "[]"] show ?thesis by (simp only: mem append_Nil2 served_def)
  qed
  then obtain S where serve: "f < length fs \<Longrightarrow> served f (S f)" for f by metis
  have S: "load_shard man fs budget f = Inr (S f)"
      "fst ` set (S f) = (\<lambda>e. (el_layer e, el_eid e)) ` {e \<in> set (m_experts man). el_file e = f}"
      "\<forall>(k, ex) \<in> set (S f). provider (fst k) (snd k) = Inr ex" if "f < length fs" for f
    using serve [OF that] unfolding served_def by blast+
  have res: "map (load_shard man fs budget) [0..<m_files man] = map (\<lambda>f. Inr (S f)) [0..<length fs]"
    unfolding assms(5) by (intro map_cong refl) (simp add: S)
  have tried: "try_map id (map (\<lambda>f. Inr (S f)) xs) = (Inr (map S xs) :: preload_error + _)" for xs by (induction xs) simp_all
  have nofail: "Inl Preload_panic \<notin> set (map (\<lambda>f. Inr (S f)) [0..<length fs])" by auto
  have files: "\<not> (\<exists>e \<in> set (m_experts man). m_files man \<le> el_file e)" using assms(1,5) by (auto simp: stored_def)
  define s where "s = concat (rev (map S [0..<length fs]))"
  have "store_load man fs budget = Inr s"
    unfolding store_load_def res Let_def using files nofail tried [of "[0..<length fs]"] by (simp add: s_def)
  moreover have "set s = (\<Union>f < length fs. set (S f))" by (auto simp: s_def atLeast0LessThan)
  moreover have "fst ` (\<Union>f < length fs. set (S f)) = (\<lambda>e. (el_layer e, el_eid e)) ` set (m_experts man)"
  proof -
    have "fst ` (\<Union>f < length fs. set (S f)) = (\<Union>f < length fs. fst ` set (S f))" by blast
    also have "\<dots> = (\<Union>f < length fs. (\<lambda>e. (el_layer e, el_eid e)) ` {e \<in> set (m_experts man). el_file e = f})" using S(2) by (intro SUP_cong refl) simp
    also have "\<dots> = (\<lambda>e. (el_layer e, el_eid e)) ` set (m_experts man)" using assms(1) by (auto simp: stored_def)
    finally show ?thesis .
  qed
  moreover have "\<forall>(k, ex) \<in> (\<Union>f < length fs. set (S f)). provider (fst k) (snd k) = Inr ex" using S(3) by blast
  ultimately show ?thesis by (intro exI [of _ s]) (simp only: simp_thms)
qed

text \<open>
  C38: Repacking is lossless end to end.  When every routed expert is a plain int8 expert of the
  model's shape (and sizes stay below \<open>2 ^ 53\<close>, where JSON numbers are exact), repacking into any
  number of shards succeeds, the saved manifest parses back to the same manifest, and loading the
  shards in parallel with a budget that covers them gives a store that returns for every routed
  expert exactly what the original provider returns.
\<close>

theorem repack_load_serves:
  fixes hidden moe first_dense n_layers n_exp :: int
  assumes ranges: "0 \<le> hidden" "hidden < 2 ^ 31" "0 \<le> moe" "moe < 2 ^ 31" "0 \<le> first_dense" "first_dense < 2 ^ 31"
      "0 \<le> n_layers" "n_layers < 2 ^ 31" "0 \<le> n_exp" "n_exp < 2 ^ 31"
    and n: "1 \<le> files" "files < 2 ^ 53"
    and experts: "\<forall>(l, e) \<in> set (routed_experts first_dense n_layers n_exp).
      \<exists>ex. provider l e = Inr ex \<and> plain_expert (nat hidden) (nat moe) ex"
    and total: "blob_size (nat hidden) (nat moe) * length (routed_experts first_dense n_layers n_exp) < 2 ^ 53"
      "blob_size (nat hidden) (nat moe) * length (routed_experts first_dense n_layers n_exp) \<le> budget"
  shows "\<exists>m text shards s. repack provider hidden moe first_dense n_layers n_exp files = Inr (m, text, shards) \<and>
    manifest_load text = Inr m \<and> store_load m shards budget = Inr s \<and>
    (\<forall>(l, e) \<in> set (routed_experts first_dense n_layers n_exp). store_expert s l e = provider l e)"
proof -
  define h w R B where "h = nat hidden" and "w = nat moe" and "R = routed_experts first_dense n_layers n_exp" and "B = blob_size h w"
  have usz: "to_usize x = nat x" if "0 \<le> x" "x < 2 ^ 31" for x using that by (simp add: to_usize_nonneg)
  let ?st0 = "\<lparr>rp_files = replicate files [], rp_offsets = replicate files 0, rp_locs = [], rp_meta = []\<rparr>"
  have "repack_inv provider h w files ?st0" by (simp add: repack_inv_def)
  moreover have "\<forall>(ix, l, e) \<in> set (enumerate 0 R). \<exists>ex. provider l e = Inr ex \<and> plain_expert h w ex"
  proof clarify
    fix ix l e assume "(ix, l, e) \<in> set (enumerate 0 R)"
    then have "(l, e) \<in> set R" by (metis enumerate_eq_zip set_zip_rightD)
    then show "\<exists>ex. provider l e = Inr ex \<and> plain_expert h w ex" using experts by (auto simp: R_def h_def w_def)
  qed
  ultimately obtain st where st: "repack_all provider files (enumerate 0 R) ?st0 = Inr st" "repack_inv provider h w files st"
    "map (\<lambda>e. (el_layer e, el_eid e)) (rp_locs st) = R"
    using repack_all_inv [of provider h w files ?st0 "enumerate 0 R"] n by auto
  define fs where "fs = rp_files st"
  define m where "m = \<lparr>m_files = files, m_hidden = h, m_inter = w, m_layers = sort_key fst (rp_meta st), m_experts = rp_locs st\<rparr>"
  have rep: "repack provider hidden moe first_dense n_layers n_exp files = Inr (m, manifest_save m, fs)"
    using n st(1) usz ranges by (simp add: repack_def R_def [symmetric] m_def fs_def h_def w_def Let_def)
  have inv: "length fs = files" "\<forall>loc \<in> set (rp_locs st). stored provider h w fs loc"
    "\<forall>f < files. length (fs ! f) = B * length (filter (\<lambda>e. el_file e = f) (rp_locs st))"
    "distinct (map fst (rp_meta st))" "\<forall>x \<in> set (rp_meta st). snd x = (1, B)" "fst ` set (rp_meta st) = el_layer ` set (rp_locs st)"
    using st(2) by (simp_all add: repack_inv_def fs_def B_def)
  have locs: "length (rp_locs st) = length R" "(\<lambda>e. (el_layer e, el_eid e)) ` set (rp_locs st) = set R"
    using st(3) by (metis length_map, metis list.set_map)
  have meta: "\<forall>loc \<in> set (m_experts m). layer_meta m (el_layer loc) = Some (1, blob_size h w)"
    using meta_of_layers [OF inv(4,5)] inv(6) by (auto simp: m_def B_def)
  have "manifest_small m"
  proof -
    have loc: "el_layer e < 2 ^ 53 \<and> el_eid e < 2 ^ 53 \<and> el_file e < 2 ^ 53 \<and> el_offset e < 2 ^ 53 \<and> B < 2 ^ 53"
      if e: "e \<in> set (rp_locs st)" for e
    proof -
      have "(el_layer e, el_eid e) \<in> set R" using e locs(2) by blast
      then have "el_layer e < nat n_layers" "el_eid e < nat n_exp" using usz ranges by (simp_all add: R_def routed_iff)
      moreover have "nat n_layers < 2 ^ 53" "nat n_exp < 2 ^ 53" using ranges by simp_all
      ultimately have "el_layer e < 2 ^ 53" "el_eid e < 2 ^ 53" by linarith+
      moreover have "el_file e < files" "el_offset e + B \<le> length (fs ! el_file e)" using inv(1,2) e by (auto simp: stored_def B_def)
      moreover have "length (fs ! el_file e) \<le> B * length R"
        using inv(3) \<open>el_file e < files\<close> locs(1) by (metis length_filter_le mult_le_mono2)
      moreover have "B * length R < 2 ^ 53" using total(1) by (simp only: B_def h_def w_def R_def)
      ultimately show ?thesis using n(2) by linarith
    qed
    have layer: "fst x < 2 ^ 53 \<and> snd x = (1, B) \<and> B < 2 ^ 53" if "x \<in> set (rp_meta st)" for x
    proof -
      have "fst x \<in> el_layer ` set (rp_locs st)" using inv(6) that by blast
      then show ?thesis using loc inv(5) that by auto
    qed
    have "l < 2 ^ 53 \<and> - (2 ^ 31) \<le> f \<and> f < 2 ^ 31 \<and> b < 2 ^ 53" if "(l, f, b) \<in> set (m_layers m)" for l f b
      using layer [of "(l, f, b)"] that by (simp add: m_def)
    moreover have "h < 2 ^ 53" "w < 2 ^ 53" using ranges by (simp_all add: h_def w_def)
    ultimately show ?thesis using loc n(2) unfolding manifest_small_def by (auto simp: m_def)
  qed
  note round = manifest_round_trip [OF this]
  have "blob_size h w * length (m_experts m) \<le> budget" using total(2) locs(1) by (simp add: m_def h_def w_def R_def)
  then obtain s where s: "store_load m fs budget = Inr s" "fst ` set s = (\<lambda>e. (el_layer e, el_eid e)) ` set (m_experts m)"
    "\<forall>(k, ex) \<in> set s. provider (fst k) (snd k) = Inr ex"
    using load_all_shards [of m provider h w fs budget] inv(1,2) meta by (auto simp: m_def)
  have "store_expert s l e = provider l e" if "(l, e) \<in> set R" for l e
  proof -
    have "(l, e) \<in> fst ` set s" using that s(2) locs(2) by (simp add: m_def)
    from map_of_consistent [OF s(3) this] show ?thesis by (auto simp: store_expert_def)
  qed
  then show ?thesis using rep round s(1) by (auto simp: R_def)
qed

definition unit_tensor :: qtensor where
  "unit_tensor = default_tensor\<lparr>fmt_code := 1, qrows := 1, qcols := 1, q8 := [-3], qscales := [0x3F800000]\<rparr>"

text \<open>One expert per layer, two sparse layers, in two shard files.\<close>

theorem repack_load_serves_witness:
  "\<exists>m text shards s. repack (\<lambda>l e. Inr \<lparr>gate = unit_tensor, up = unit_tensor, down = unit_tensor\<rparr>) 1 1 1 3 1 2 = Inr (m, text, shards) \<and>
    manifest_load text = Inr m \<and> store_load m shards 60 = Inr s \<and>
    (\<forall>(l, e) \<in> set (routed_experts 1 3 1). store_expert s l e = Inr \<lparr>gate = unit_tensor, up = unit_tensor, down = unit_tensor\<rparr>)"
proof -
  have "plain_int8 1 1 unit_tensor" by (simp add: plain_int8_def unit_tensor_def default_tensor_def)
  then have p: "plain_expert (nat 1) (nat 1) \<lparr>gate = unit_tensor, up = unit_tensor, down = unit_tensor\<rparr>" by (simp add: plain_expert_def)
  have r: "routed_experts 1 3 1 = [(1, 0), (2, 0)]" by code_simp
  show ?thesis
    by (rule repack_load_serves [where hidden = 1 and moe = 1 and first_dense = 1 and n_layers = 3 and n_exp = 1 and files = 2 and budget = 60])
      (use p in \<open>simp_all add: r\<close>)
qed


end
