(* ===== verification/BufPool.thy ===== *)
theory BufPool
  imports Quant Text
begin

text \<open>
  The shared-buffer pool of \<open>colibri-core/src/quant.rs\<close>: recycling of read buffers, page-locking of
  fresh allocations under a budget, the pre-allocated arena, \<open>SharedBuf::with_len\<close> with its bounded
  wait for an arena slot, and \<open>Drop\<close>.

  The pool is process-global and every thread allocates from it.  Each \<open>SharedBuf\<close> value is a
  handle with a phase; every critical section and every access to a global atomic of \<open>with_len\<close> and
  \<open>drop\<close> is one step, and events of different handles interleave freely.  The allocator and the
  driver's register call are parameters of the configuration.  Byte counters are natural numbers:
  they are sums of live allocations, which fit the address space.  \<open>arena_init\<close> is a call with a handle
  of its own, and each allocation, page-lock access and push of its loop is a step that events of other
  handles may come between.  The code holds the pool's mutex across that loop; the model does not, so it
  has more interleavings than the program.
\<close>

section \<open>State\<close>

text \<open>An allocation is its base address and its capacity.\<close>

type_synonym alloc = "nat \<times> nat"

datatype phase =
    Waiting nat nat
  | Fresh nat
  | Pin alloc byte_string
  | Register alloc byte_string
  | Count alloc byte_string
  | Held alloc byte_string
  | Viewed byte_string
  | Unpin alloc
  | Uncount alloc
  | Filling nat nat nat phase
  | Claimed nat nat nat
  | Gone

record bpool =
  bp_bufs :: "(alloc \<times> byte_string) list"
  bp_bytes :: nat
  bp_arena :: "(nat \<times> nat) option"
  bp_hooks :: bool
  bp_pinned :: "nat set"
  pin_bytes :: nat
  pin_budget :: nat
  pin_ok :: nat
  pin_fail :: nat
  pin_capped :: nat
  pool_hits :: nat
  pool_misses :: nat
  pool_pushes :: nat
  pool_drops :: nat
  pool_drop_bytes :: nat
  arena_waits :: nat
  arena_starved :: nat
  bp_handles :: "phase list"

record pool_cfg =
  max_bufs :: nat
  max_bytes :: nat
  pin_env :: "nat option"
  malloc :: "alloc list \<Rightarrow> nat \<Rightarrow> nat"
  reg_hook :: "nat \<Rightarrow> alloc \<Rightarrow> bool"

definition POOL_MIN_BYTES :: nat where
  "POOL_MIN_BYTES = 2 ^ 20"

definition pool_max :: "str option \<Rightarrow> nat" where
  "pool_max v = (case Option.bind v (parse_uint (2 ^ 64) 10) of Some n \<Rightarrow> n | None \<Rightarrow> 2 ^ 64 - 1)"

definition pool_max_bytes :: "str option \<Rightarrow> nat" where
  "pool_max_bytes v =
     usz ((case Option.bind v (parse_uint (2 ^ 64) 10) of Some n \<Rightarrow> n | None \<Rightarrow> 2048) * 2 ^ 20)"

definition pin_env_of :: "str option \<Rightarrow> nat option" where
  "pin_env_of v = map_option (\<lambda>m. usz (m * 2 ^ 20)) (Option.bind v (parse_uint (2 ^ 64) 10))"

definition pin_max_bytes :: "pool_cfg \<Rightarrow> bpool \<Rightarrow> nat" where
  "pin_max_bytes cfg s = (case pin_env cfg of Some n \<Rightarrow> n | None \<Rightarrow> pin_budget s)"

definition pool_init :: bpool where
  "pool_init = \<lparr>bp_bufs = [], bp_bytes = 0, bp_arena = None, bp_hooks = False, bp_pinned = {}, pin_bytes = 0,
     pin_budget = 0, pin_ok = 0, pin_fail = 0, pin_capped = 0, pool_hits = 0, pool_misses = 0, pool_pushes = 0,
     pool_drops = 0, pool_drop_bytes = 0, arena_waits = 0, arena_starved = 0, bp_handles = []\<rparr>"

text \<open>The allocations a phase owns; a vector of capacity zero has no allocation.\<close>

fun phase_allocs :: "phase \<Rightarrow> alloc list" where
  "phase_allocs (Pin a d) = (if snd a = 0 then [] else [a])"
| "phase_allocs (Register a d) = [a]"
| "phase_allocs (Count a d) = [a]"
| "phase_allocs (Held a d) = (if snd a = 0 then [] else [a])"
| "phase_allocs (Unpin a) = [a]"
| "phase_allocs (Uncount a) = [a]"
| "phase_allocs (Filling slot k n v) = phase_allocs v"
| "phase_allocs _ = []"

definition allocs :: "bpool \<Rightarrow> alloc list" where
  "allocs s = map fst (bp_bufs s) @ concat (map phase_allocs (bp_handles s))"

section \<open>Page-locking\<close>

definition set_host_pin_hooks :: "bpool \<Rightarrow> bpool" where
  "set_host_pin_hooks s = s\<lparr>bp_hooks := True\<rparr>"

definition set_pin_budget :: "nat \<Rightarrow> bpool \<Rightarrow> bpool" where
  "set_pin_budget n s = s\<lparr>pin_budget := n\<rparr>"

definition pin_check :: "pool_cfg \<Rightarrow> alloc \<Rightarrow> bpool \<Rightarrow> bool \<times> bpool" where
  "pin_check cfg a s =
     (if \<not> bp_hooks s \<or> snd a < POOL_MIN_BYTES then (False, s)
      else if pin_max_bytes cfg s < pin_bytes s + snd a then (False, s\<lparr>pin_capped := pin_capped s + 1\<rparr>)
      else (True, s))"

definition pin_register :: "pool_cfg \<Rightarrow> alloc \<Rightarrow> bpool \<Rightarrow> bool \<times> bpool" where
  "pin_register cfg a s =
     (if reg_hook cfg (pin_ok s + pin_fail s) a then (True, s\<lparr>bp_pinned := insert (fst a) (bp_pinned s)\<rparr>)
      else (False, s\<lparr>pin_fail := pin_fail s + 1\<rparr>))"

definition pin_count :: "alloc \<Rightarrow> bpool \<Rightarrow> bpool" where
  "pin_count a s = s\<lparr>pin_ok := pin_ok s + 1, pin_bytes := pin_bytes s + snd a\<rparr>"

definition unpin_take :: "alloc \<Rightarrow> bpool \<Rightarrow> bool \<times> bpool" where
  "unpin_take a s =
     (if bp_hooks s \<and> fst a \<in> bp_pinned s then (True, s\<lparr>bp_pinned := bp_pinned s - {fst a}\<rparr>) else (False, s))"

definition unpin_count :: "alloc \<Rightarrow> bpool \<Rightarrow> bpool" where
  "unpin_count a s = s\<lparr>pin_bytes := pin_bytes s - snd a\<rparr>"

section \<open>The pool\<close>

fun position :: "('a \<Rightarrow> bool) \<Rightarrow> 'a list \<Rightarrow> nat option" where
  "position P [] = None"
| "position P (x # xs) = (if P x then Some 0 else map_option Suc (position P xs))"

definition swap_remove :: "nat \<Rightarrow> 'a list \<Rightarrow> 'a list" where
  "swap_remove i xs = (if i + 1 = length xs then butlast xs else (butlast xs)[i := last xs])"

definition fit :: "nat \<Rightarrow> byte_string \<Rightarrow> byte_string" where
  "fit len d = take len d @ replicate (len - length d) 0"

definition take_slot :: "nat \<Rightarrow> bpool \<Rightarrow> ((alloc \<times> byte_string) \<times> bpool) option" where
  "take_slot len s =
     (case position (\<lambda>v. len \<le> snd (fst v)) (bp_bufs s) of
        None \<Rightarrow> None
      | Some i \<Rightarrow> (let v = bp_bufs s ! i
          in Some (v, s\<lparr>bp_bufs := swap_remove i (bp_bufs s), bp_bytes := bp_bytes s - snd (fst v),
                       pool_hits := pool_hits s + 1\<rparr>)))"

definition arena_covers :: "nat \<Rightarrow> bpool \<Rightarrow> bool" where
  "arena_covers len s = (case bp_arena s of None \<Rightarrow> False | Some (slot, n) \<Rightarrow> len \<le> slot)"

definition new_handle :: "phase \<Rightarrow> bpool \<Rightarrow> bpool" where
  "new_handle ph s = s\<lparr>bp_handles := bp_handles s @ [ph]\<rparr>"

definition set_phase :: "nat \<Rightarrow> phase \<Rightarrow> bpool \<Rightarrow> bpool" where
  "set_phase h ph s = s\<lparr>bp_handles := (bp_handles s)[h := ph]\<rparr>"

definition with_len :: "nat \<Rightarrow> bpool \<Rightarrow> bpool" where
  "with_len len s =
     (if POOL_MIN_BYTES \<le> len then
        (case take_slot len s of
           Some ((a, d), s) \<Rightarrow> new_handle (Held a (fit len d)) s
         | None \<Rightarrow>
             if arena_covers len s
             then new_handle (Waiting len 0) (s\<lparr>pool_misses := pool_misses s + 1, arena_waits := arena_waits s + 1\<rparr>)
             else new_handle (Fresh len) (s\<lparr>pool_misses := pool_misses s + 1\<rparr>))
      else new_handle (Fresh len) s)"

definition wait_step :: "nat \<Rightarrow> nat \<Rightarrow> nat \<Rightarrow> bpool \<Rightarrow> bpool" where
  "wait_step h len spins s =
     (case take_slot len s of
        Some ((a, d), s) \<Rightarrow> set_phase h (Held a (fit len d)) s
      | None \<Rightarrow>
          if 10000 < spins + 1 then set_phase h (Fresh len) (s\<lparr>arena_starved := arena_starved s + 1\<rparr>)
          else set_phase h (Waiting len (spins + 1)) s)"

definition free_buf :: "nat \<Rightarrow> alloc \<Rightarrow> bpool \<Rightarrow> bpool" where
  "free_buf h a s =
     set_phase h Gone (s\<lparr>pool_drops := pool_drops s + 1, pool_drop_bytes := pool_drop_bytes s + snd a\<rparr>)"

text \<open>
  The steps of a new vector: the allocation, then \<open>pin_alloc\<close> with its check of the ceiling, the
  driver's call and the counting as separate accesses.
\<close>

fun vec_step :: "pool_cfg \<Rightarrow> phase \<Rightarrow> bpool \<Rightarrow> phase \<times> bpool" where
  "vec_step cfg (Fresh len) s = (Pin (malloc cfg (allocs s) len, len) (replicate len 0), s)"
| "vec_step cfg (Pin a d) s = (let (go, s) = pin_check cfg a s in (if go then Register a d else Held a d, s))"
| "vec_step cfg (Register a d) s = (let (done, s) = pin_register cfg a s in (if done then Count a d else Held a d, s))"
| "vec_step cfg (Count a d) s = (Held a d, pin_count a s)"
| "vec_step cfg ph s = (ph, s)"

text \<open>
  \<open>arena_init\<close>: \<open>Filling slot k n v\<close> is its loop with \<open>k\<close> of \<open>n\<close> slots to go and \<open>v\<close> the phase of
  the vector of the current iteration; \<open>Claimed slot n bytes\<close> is after the loop, where \<open>bytes\<close> is what
  the call returns.
\<close>

definition arena_init :: "nat \<Rightarrow> nat \<Rightarrow> bpool \<Rightarrow> bpool" where
  "arena_init slot slots s =
     (if slot = 0 \<or> slots = 0 then new_handle Gone s else new_handle (Filling slot slots slots (Fresh slot)) s)"

definition arena_step :: "pool_cfg \<Rightarrow> nat \<Rightarrow> nat \<Rightarrow> nat \<Rightarrow> nat \<Rightarrow> phase \<Rightarrow> bpool \<Rightarrow> bpool" where
  "arena_step cfg h slot k n v s =
     (case v of
        Held a d \<Rightarrow> set_phase h (Filling slot (k - 1) n (if k = 1 then Gone else Fresh slot))
          (s\<lparr>bp_bytes := bp_bytes s + snd a, bp_bufs := bp_bufs s @ [(a, d)]\<rparr>)
      | Gone \<Rightarrow> set_phase h (Claimed slot n (bp_bytes s)) s
      | _ \<Rightarrow> (let (v, s) = vec_step cfg v s in set_phase h (Filling slot k n v) s))"

text \<open>The next step of the call in progress on handle \<open>h\<close>.\<close>

definition pool_tick :: "pool_cfg \<Rightarrow> nat \<Rightarrow> bpool \<Rightarrow> bpool" where
  "pool_tick cfg h s =
     (if h < length (bp_handles s) then
        (case bp_handles s ! h of
           Waiting len spins \<Rightarrow> wait_step h len spins s
         | Unpin a \<Rightarrow> (let (found, s) = unpin_take a s in if found then set_phase h (Uncount a) s else free_buf h a s)
         | Uncount a \<Rightarrow> free_buf h a (unpin_count a s)
         | Filling slot k n v \<Rightarrow> arena_step cfg h slot k n v s
         | Claimed slot n bytes \<Rightarrow> set_phase h Gone (s\<lparr>bp_arena := Some (slot, n)\<rparr>)
         | ph \<Rightarrow> (let (ph, s) = vec_step cfg ph s in set_phase h ph s))
      else s)"

definition drop_buf :: "pool_cfg \<Rightarrow> nat \<Rightarrow> bpool \<Rightarrow> bpool" where
  "drop_buf cfg h s =
     (case idx (bp_handles s) h of
        Some (Held a d) \<Rightarrow>
          if POOL_MIN_BYTES \<le> snd a then
            if bp_arena s \<noteq> None \<or> length (bp_bufs s) < max_bufs cfg \<and> bp_bytes s + snd a \<le> max_bytes cfg
            then set_phase h Gone (s\<lparr>bp_bytes := bp_bytes s + snd a, bp_bufs := bp_bufs s @ [(a, d)],
                   pool_pushes := pool_pushes s + 1\<rparr>)
            else set_phase h (Unpin a) s
          else set_phase h Gone s
      | Some (Viewed b) \<Rightarrow> set_phase h Gone s
      | _ \<Rightarrow> s)"

text \<open>\<open>as_mut_slice\<close> overwrites a held buffer in place; on a view it panics.\<close>

definition write_held :: "nat \<Rightarrow> byte_string \<Rightarrow> bpool \<Rightarrow> bpool option" where
  "write_held h new s =
     (case idx (bp_handles s) h of
        Some (Held a d) \<Rightarrow> if length new = length d then Some (set_phase h (Held a new) s) else Some s
      | Some (Viewed b) \<Rightarrow> None
      | _ \<Rightarrow> Some s)"

definition arena_cfg :: "bpool \<Rightarrow> (nat \<times> nat) option" where
  "arena_cfg s = bp_arena s"

definition pool_live_bytes :: "bpool \<Rightarrow> nat" where
  "pool_live_bytes s = bp_bytes s"

text \<open>What can happen to the pool, by any thread.\<close>

datatype pool_event =
    With_len nat
  | From_view byte_string
  | Tick nat
  | Write nat byte_string
  | Drop nat
  | Install_hooks
  | Set_budget nat
  | Arena nat nat

primrec pool_event_step :: "pool_cfg \<Rightarrow> pool_event \<Rightarrow> bpool \<Rightarrow> bpool" where
  "pool_event_step cfg (With_len n) s = with_len n s"
| "pool_event_step cfg (From_view b) s = new_handle (Viewed b) s"
| "pool_event_step cfg (Tick h) s = pool_tick cfg h s"
| "pool_event_step cfg (Write h b) s = (case write_held h b s of Some s' \<Rightarrow> s' | None \<Rightarrow> s)"
| "pool_event_step cfg (Drop h) s = drop_buf cfg h s"
| "pool_event_step cfg Install_hooks s = set_host_pin_hooks s"
| "pool_event_step cfg (Set_budget n) s = set_pin_budget n s"
| "pool_event_step cfg (Arena slot n) s = arena_init slot n s"

definition run_pool :: "pool_cfg \<Rightarrow> pool_event list \<Rightarrow> bpool \<Rightarrow> bpool" where
  "run_pool cfg evs s = fold (pool_event_step cfg) evs s"

section \<open>The invariant\<close>

text \<open>
  Allocations are tracked as multisets, so that the order of the pool and of the handles does not
  matter: \<open>B\<close> are the pooled vectors, \<open>H\<close> the phases of the handles and \<open>P\<close> the page-locked
  addresses.
\<close>

definition nodup :: "'a multiset \<Rightarrow> bool" where
  "nodup M \<longleftrightarrow> (\<forall>x. count M x \<le> 1)"

lemma nodup_simps [simp]:
  "nodup {#}" "nodup (add_mset x M) \<longleftrightarrow> x \<notin># M \<and> nodup M"
proof -
  show "nodup (add_mset x M) \<longleftrightarrow> x \<notin># M \<and> nodup M"
  proof
    assume *: "nodup (add_mset x M)"
    have "count M y \<le> 1" for y using * [unfolded nodup_def, rule_format, of y] by (simp split: if_splits)
    moreover have "count M x = 0" using * [unfolded nodup_def, rule_format, of x] by simp
    ultimately show "x \<notin># M \<and> nodup M" by (simp add: nodup_def count_eq_zero_iff)
  qed (simp add: nodup_def count_eq_zero_iff [symmetric])
qed (simp add: nodup_def)

lemma nodup_mset [simp]: "nodup (mset xs) \<longleftrightarrow> distinct xs"
  by (induction xs) simp_all

definition phase_addrs :: "phase \<Rightarrow> nat multiset" where
  "phase_addrs ph = mset (map fst (phase_allocs ph))"

definition heap_addrs :: "(alloc \<times> byte_string) multiset \<Rightarrow> phase multiset \<Rightarrow> nat multiset" where
  "heap_addrs B H = image_mset (\<lambda>v. fst (fst v)) B + \<Sum>\<^sub># (image_mset phase_addrs H)"

text \<open>The same multiset with the capacities, and ranges that do not overlap.\<close>

definition apart :: "alloc \<Rightarrow> alloc \<Rightarrow> bool" where
  "apart a b \<longleftrightarrow> fst a + snd a \<le> fst b \<or> fst b + snd b \<le> fst a"

definition phase_ranges :: "phase \<Rightarrow> alloc multiset" where
  "phase_ranges ph = mset (phase_allocs ph)"

definition heap_ranges :: "(alloc \<times> byte_string) multiset \<Rightarrow> phase multiset \<Rightarrow> alloc multiset" where
  "heap_ranges B H = image_mset fst B + \<Sum>\<^sub># (image_mset phase_ranges H)"

definition disjoint :: "alloc multiset \<Rightarrow> bool" where
  "disjoint M \<longleftrightarrow> (\<forall>a \<in># M. \<forall>b \<in># M - {#a#}. apart a b)"

lemma apart_sym: "apart a b \<longleftrightarrow> apart b a"
  by (auto simp: apart_def)

lemma disjoint_simps [simp]:
  "disjoint {#}" "disjoint (add_mset a M) \<longleftrightarrow> (\<forall>b \<in># M. apart a b) \<and> disjoint M"
proof -
  have other: "add_mset a M - {#x#} = add_mset a (M - {#x#})" if "x \<in># M" for x
    using that by (simp add: add_mset_diff_bothsides)
  show "disjoint (add_mset a M) \<longleftrightarrow> (\<forall>b \<in># M. apart a b) \<and> disjoint M"
    unfolding disjoint_def using other apart_sym by auto
qed (simp add: disjoint_def)

lemma disjoint_mset: "disjoint (mset as) \<longleftrightarrow> sorted_wrt apart as"
  by (induction as) auto

lemma heap_ranges_simps [simp]:
  "heap_ranges {#} {#} = {#}"
  "heap_ranges (add_mset v B) H = add_mset (fst v) (heap_ranges B H)"
  "heap_ranges B (add_mset ph H) = phase_ranges ph + heap_ranges B H"
  by (simp_all add: heap_ranges_def ac_simps)

lemma phase_ranges_simps [simp]:
  "phase_ranges (Waiting n k) = {#}" "phase_ranges (Fresh n) = {#}" "phase_ranges (Viewed b) = {#}" "phase_ranges Gone = {#}"
  "phase_ranges (Pin a d) = (if snd a = 0 then {#} else {#a#})"
  "phase_ranges (Held a d) = (if snd a = 0 then {#} else {#a#})"
  "phase_ranges (Register a d) = {#a#}" "phase_ranges (Count a d) = {#a#}"
  "phase_ranges (Unpin a) = {#a#}" "phase_ranges (Uncount a) = {#a#}"
  "phase_ranges (Filling slot k n v) = phase_ranges v" "phase_ranges (Claimed slot n c) = {#}"
  by (simp_all add: phase_ranges_def)

lemma heap_addrs_simps [simp]:
  "heap_addrs {#} {#} = {#}"
  "heap_addrs (add_mset v B) H = add_mset (fst (fst v)) (heap_addrs B H)"
  "heap_addrs B (add_mset ph H) = phase_addrs ph + heap_addrs B H"
  by (simp_all add: heap_addrs_def ac_simps)

lemma phase_addrs_simps [simp]:
  "phase_addrs (Waiting n k) = {#}" "phase_addrs (Fresh n) = {#}" "phase_addrs (Viewed b) = {#}" "phase_addrs Gone = {#}"
  "phase_addrs (Pin a d) = (if snd a = 0 then {#} else {#fst a#})"
  "phase_addrs (Held a d) = (if snd a = 0 then {#} else {#fst a#})"
  "phase_addrs (Register a d) = {#fst a#}" "phase_addrs (Count a d) = {#fst a#}"
  "phase_addrs (Unpin a) = {#fst a#}" "phase_addrs (Uncount a) = {#fst a#}"
  "phase_addrs (Filling slot k n v) = phase_addrs v" "phase_addrs (Claimed slot n c) = {#}"
  by (simp_all add: phase_addrs_def)

definition locked :: "nat set \<Rightarrow> alloc \<Rightarrow> nat" where
  "locked P a = (if fst a \<in> P then snd a else 0)"

text \<open>The page-locked bytes a phase accounts for, and what each phase knows.\<close>

fun phase_pin :: "nat set \<Rightarrow> phase \<Rightarrow> nat" where
  "phase_pin P (Held a d) = locked P a"
| "phase_pin P (Unpin a) = locked P a"
| "phase_pin P (Uncount a) = snd a"
| "phase_pin P (Filling slot k n v) = phase_pin P v"
| "phase_pin P _ = 0"

text \<open>The vector of an arena slot has the slot's size.\<close>

fun slot_ok :: "nat \<Rightarrow> phase \<Rightarrow> bool" where
  "slot_ok slot (Fresh len) \<longleftrightarrow> len = slot"
| "slot_ok slot (Pin a d) \<longleftrightarrow> snd a = slot"
| "slot_ok slot (Register a d) \<longleftrightarrow> snd a = slot"
| "slot_ok slot (Count a d) \<longleftrightarrow> snd a = slot"
| "slot_ok slot (Held a d) \<longleftrightarrow> snd a = slot"
| "slot_ok slot ph \<longleftrightarrow> ph = Gone"

fun phase_ok :: "nat set \<Rightarrow> phase \<Rightarrow> bool" where
  "phase_ok P (Pin a d) \<longleftrightarrow> (0 < snd a \<longrightarrow> fst a \<notin> P) \<and> length d = snd a"
| "phase_ok P (Register a d) \<longleftrightarrow> fst a \<notin> P \<and> POOL_MIN_BYTES \<le> snd a \<and> length d = snd a"
| "phase_ok P (Count a d) \<longleftrightarrow> fst a \<in> P \<and> POOL_MIN_BYTES \<le> snd a \<and> length d = snd a"
| "phase_ok P (Held a d) \<longleftrightarrow> length d \<le> snd a \<and> (0 < snd a \<longrightarrow> snd a < POOL_MIN_BYTES \<longrightarrow> fst a \<notin> P)"
| "phase_ok P (Unpin a) \<longleftrightarrow> POOL_MIN_BYTES \<le> snd a"
| "phase_ok P (Uncount a) \<longleftrightarrow> fst a \<notin> P \<and> POOL_MIN_BYTES \<le> snd a"
| "phase_ok P (Filling slot k n v) \<longleftrightarrow> 0 < slot \<and> slot_ok slot v \<and> phase_ok P v"
| "phase_ok P _ \<longleftrightarrow> True"

definition core :: "(alloc \<times> byte_string) multiset \<Rightarrow> phase multiset \<Rightarrow> nat \<Rightarrow> nat set \<Rightarrow> nat \<Rightarrow> bool" where
  "core B H bytes P pb \<longleftrightarrow> nodup (heap_addrs B H) \<and> disjoint (heap_ranges B H) \<and> bytes = (\<Sum>v \<in># B. snd (fst v)) \<and>
     (\<forall>v \<in># B. length (snd v) \<le> snd (fst v) \<and> 0 < snd (fst v)) \<and> P \<subseteq> set_mset (heap_addrs B H) \<and>
     (\<forall>ph \<in># H. phase_ok P ph) \<and> pb = (\<Sum>v \<in># B. locked P (fst v)) + (\<Sum>ph \<in># H. phase_pin P ph)"

text \<open>Locking or unlocking an address concerns only its owner.\<close>

lemma phase_frame:
  assumes "x \<notin># phase_addrs ph" and "\<And>y. y \<noteq> x \<Longrightarrow> y \<in> P' \<longleftrightarrow> y \<in> P"
  shows "phase_pin P' ph = phase_pin P ph" and "phase_ok P' ph = phase_ok P ph"
  using assms by (induction ph) (force simp: locked_def POOL_MIN_BYTES_def split: if_splits)+

lemma heap_frame:
  assumes "x \<notin># heap_addrs B H" and "\<And>y. y \<noteq> x \<Longrightarrow> y \<in> P' \<longleftrightarrow> y \<in> P"
  shows "(\<Sum>v \<in># B. locked P' (fst v)) = (\<Sum>v \<in># B. locked P (fst v))"
    and "(\<Sum>ph \<in># H. phase_pin P' ph) = (\<Sum>ph \<in># H. phase_pin P ph)"
    and "(\<forall>ph \<in># H. phase_ok P' ph) \<longleftrightarrow> (\<forall>ph \<in># H. phase_ok P ph)"
proof -
  have b: "fst (fst v) \<noteq> x" if "v \<in># B" for v using assms(1) that by (auto simp: heap_addrs_def)
  show "(\<Sum>v \<in># B. locked P' (fst v)) = (\<Sum>v \<in># B. locked P (fst v))"
    using b assms(2) by (intro arg_cong [where f = sum_mset] image_mset_cong) (auto simp: locked_def)
  have h: "x \<notin># phase_addrs ph" if "ph \<in># H" for ph using assms(1) that by (auto simp: heap_addrs_def)
  show "(\<Sum>ph \<in># H. phase_pin P' ph) = (\<Sum>ph \<in># H. phase_pin P ph)"
    using phase_frame(1) [OF h assms(2)] by (intro arg_cong [where f = sum_mset] image_mset_cong) auto
  show "(\<forall>ph \<in># H. phase_ok P' ph) \<longleftrightarrow> (\<forall>ph \<in># H. phase_ok P ph)"
    using phase_frame(2) [OF h assms(2)] by auto
qed

lemma POOL_MIN_pos [simp]: "POOL_MIN_BYTES \<noteq> 0"
  by (simp add: POOL_MIN_BYTES_def)

lemma core_lock:
  assumes "core B (add_mset (Register a d) H) bytes P pb"
  shows "core B (add_mset (Count a d) H) bytes (insert (fst a) P) pb"
proof -
  have "fst a \<notin># heap_addrs B H" using assms by (simp add: core_def)
  note fr = heap_frame [OF this, of "insert (fst a) P" P]
  show ?thesis using assms fr by (auto simp: core_def)
qed

lemma core_unlock:
  assumes "core B (add_mset (Unpin a) H) bytes P pb" and "fst a \<in> P"
  shows "core B (add_mset (Uncount a) H) bytes (P - {fst a}) pb"
proof -
  have "fst a \<notin># heap_addrs B H" using assms by (simp add: core_def)
  note fr = heap_frame [OF this, of "P - {fst a}" P]
  show ?thesis using assms fr by (auto simp: core_def locked_def)
qed

lemma core_steps:
  "core B (add_mset (Waiting n k) H) bytes P pb \<longleftrightarrow> core B H bytes P pb"
  "core B (add_mset (Fresh n) H) bytes P pb \<longleftrightarrow> core B H bytes P pb"
  "core B (add_mset (Viewed b) H) bytes P pb \<longleftrightarrow> core B H bytes P pb"
  "core B (add_mset Gone H) bytes P pb \<longleftrightarrow> core B H bytes P pb"
  "core B (add_mset (Claimed slot m c) H) bytes P pb \<longleftrightarrow> core B H bytes P pb"
  "core B (add_mset (Filling slot j m v) H) bytes P pb \<longleftrightarrow>
     0 < slot \<and> slot_ok slot v \<and> core B (add_mset v H) bytes P pb"
  by (auto simp: core_def)

lemma core_pin_held:
  assumes "core B (add_mset (Pin a d) H) bytes P pb"
  shows "core B (add_mset (Held a d) H) bytes P pb"
  using assms by (auto simp: core_def locked_def)

lemma core_pin_register:
  assumes "core B (add_mset (Pin a d) H) bytes P pb" and "POOL_MIN_BYTES \<le> snd a"
  shows "core B (add_mset (Register a d) H) bytes P pb"
  using assms by (auto simp: core_def locked_def split: if_splits)

lemma core_register_held:
  assumes "core B (add_mset (Register a d) H) bytes P pb"
  shows "core B (add_mset (Held a d) H) bytes P pb"
  using assms by (auto simp: core_def locked_def split: if_splits)

lemma core_count:
  assumes "core B (add_mset (Count a d) H) bytes P pb"
  shows "core B (add_mset (Held a d) H) bytes P (pb + snd a)"
  using assms by (auto simp: core_def locked_def split: if_splits)

lemma core_uncount:
  assumes "core B (add_mset (Uncount a) H) bytes P pb"
  shows "core B H bytes P (pb - snd a)" and "snd a \<le> pb"
  using assms by (auto simp: core_def locked_def split: if_splits)

lemma core_free:
  assumes "core B (add_mset (Unpin a) H) bytes P pb" and "fst a \<notin> P"
  shows "core B H bytes P pb"
  using assms by (auto simp: core_def locked_def)

lemma core_new:
  assumes "core B H bytes P pb" and "0 < snd a \<Longrightarrow> fst a \<notin># heap_addrs B H" and "length d = snd a"
    and "0 < snd a \<Longrightarrow> \<forall>b \<in># heap_ranges B H. apart a b"
  shows "core B (add_mset (Pin a d) H) bytes P pb"
  using assms by (auto simp: core_def)

lemma core_take:
  assumes "core (add_mset (a, d) B) H bytes P pb" and "POOL_MIN_BYTES \<le> len" and "len \<le> snd a"
  shows "core B (add_mset (Held a (fit len d)) H) (bytes - snd a) P pb"
  using assms by (auto simp: core_def fit_def split: if_splits)

lemma core_push:
  assumes "core B (add_mset (Held a d) H) bytes P pb" and "0 < snd a"
  shows "core (add_mset (a, d) B) H (bytes + snd a) P pb"
  using assms by (auto simp: core_def)

lemma core_drop_small:
  assumes "core B (add_mset (Held a d) H) bytes P pb" and "snd a < POOL_MIN_BYTES"
  shows "core B H bytes P pb"
  using assms by (cases "snd a = 0") (auto simp: core_def locked_def)

lemma core_reject:
  assumes "core B (add_mset (Held a d) H) bytes P pb" and "POOL_MIN_BYTES \<le> snd a"
  shows "core B (add_mset (Unpin a) H) bytes P pb"
  using assms by (auto simp: core_def split: if_splits)

lemma core_write:
  assumes "core B (add_mset (Held a d) H) bytes P pb" and "length d' = length d"
  shows "core B (add_mset (Held a d') H) bytes P pb"
  using assms by (auto simp: core_def)

section \<open>Every event keeps the invariant\<close>

definition pool_inv :: "bpool \<Rightarrow> bool" where
  "pool_inv s \<longleftrightarrow> core (mset (bp_bufs s)) (mset (bp_handles s)) (bp_bytes s) (bp_pinned s) (pin_bytes s) \<and>
     (\<not> bp_hooks s \<longrightarrow> bp_pinned s = {})"

text \<open>A new allocation does not overlap any that is live.\<close>

definition malloc_ok :: "pool_cfg \<Rightarrow> bool" where
  "malloc_ok cfg \<longleftrightarrow> (\<forall>used n. 0 < n \<longrightarrow> (\<forall>a\<in>set used. apart (malloc cfg used n, n) a))"

lemma heap_addrs_allocs: "heap_addrs (mset (bp_bufs s)) (mset (bp_handles s)) = mset (map fst (allocs s))"
proof -
  have "\<Sum>\<^sub># (image_mset phase_addrs (mset hs)) = mset (map fst (concat (map phase_allocs hs)))" for hs
    by (induction hs) (simp_all add: phase_addrs_def)
  moreover have "image_mset (\<lambda>v. fst (fst v)) (mset bs) = mset (map fst (map fst bs))" for bs :: "(alloc \<times> byte_string) list"
    by (induction bs) simp_all
  ultimately show ?thesis by (simp add: heap_addrs_def allocs_def)
qed

lemma heap_ranges_allocs: "heap_ranges (mset (bp_bufs s)) (mset (bp_handles s)) = mset (allocs s)"
proof -
  have "\<Sum>\<^sub># (image_mset phase_ranges (mset hs)) = mset (concat (map phase_allocs hs))" for hs
    by (induction hs) (simp_all add: phase_ranges_def)
  then show ?thesis by (simp add: heap_ranges_def allocs_def)
qed

text \<open>Every live allocation has bytes, so disjoint ranges have different addresses.\<close>

lemma phase_allocs_pos: "phase_ok P ph \<Longrightarrow> a \<in> set (phase_allocs ph) \<Longrightarrow> 0 < snd a"
  by (induction ph) (auto simp: POOL_MIN_BYTES_def split: if_splits)

lemma core_pos:
  assumes "core (mset (bp_bufs s)) (mset (bp_handles s)) bytes P pb" and "a \<in> set (allocs s)"
  shows "0 < snd a"
proof -
  have B: "0 < snd (fst v)" if "v \<in> set (bp_bufs s)" for v using assms(1) that by (simp add: core_def)
  have H: "phase_ok P ph" if "ph \<in> set (bp_handles s)" for ph using assms(1) that by (simp add: core_def)
  from assms(2) consider v where "v \<in> set (bp_bufs s)" "a = fst v" |
    ph where "ph \<in> set (bp_handles s)" "a \<in> set (phase_allocs ph)"
    unfolding allocs_def by auto
  then show ?thesis using B H phase_allocs_pos by cases blast+
qed

lemma malloc_new:
  assumes "malloc_ok cfg" and "core (mset (bp_bufs s)) (mset (bp_handles s)) bytes P pb" and "0 < n"
  shows "malloc cfg (allocs s) n \<notin># heap_addrs (mset (bp_bufs s)) (mset (bp_handles s))"
    and "\<forall>b \<in># heap_ranges (mset (bp_bufs s)) (mset (bp_handles s)). apart (malloc cfg (allocs s) n, n) b"
proof -
  have new: "apart (malloc cfg (allocs s) n, n) b" if "b \<in> set (allocs s)" for b
    using assms(1,3) that by (simp add: malloc_ok_def)
  then show "\<forall>b \<in># heap_ranges (mset (bp_bufs s)) (mset (bp_handles s)). apart (malloc cfg (allocs s) n, n) b"
    unfolding heap_ranges_allocs by simp
  show "malloc cfg (allocs s) n \<notin># heap_addrs (mset (bp_bufs s)) (mset (bp_handles s))"
    unfolding heap_addrs_allocs using new core_pos [OF assms(2)] assms(3) by (fastforce simp: apart_def)
qed

lemma position_Some: "position P xs = Some i \<Longrightarrow> i < length xs \<and> P (xs ! i)"
  by (induction xs arbitrary: i) (auto split: if_splits)

lemma mset_swap_remove: "i < length xs \<Longrightarrow> add_mset (xs ! i) (mset (swap_remove i xs)) = mset xs"
proof (cases xs rule: rev_cases)
  case (snoc ys y)
  assume "i < length xs"
  then show ?thesis
    by (auto simp: snoc swap_remove_def nth_append mset_update less_Suc_eq)
qed simp

lemma take_slot_Some:
  assumes "take_slot len s = Some ((a, d), s')"
  shows "\<exists>bufs. s' = s\<lparr>bp_bufs := bufs, bp_bytes := bp_bytes s - snd a, pool_hits := pool_hits s + 1\<rparr> \<and>
    mset (bp_bufs s) = add_mset (a, d) (mset bufs) \<and> len \<le> snd a"
proof -
  obtain i where i: "position (\<lambda>v. len \<le> snd (fst v)) (bp_bufs s) = Some i"
    using assms by (auto simp: take_slot_def split: option.splits)
  have v: "bp_bufs s ! i = (a, d)" and s': "s' = s\<lparr>bp_bufs := swap_remove i (bp_bufs s), bp_bytes := bp_bytes s - snd a,
      pool_hits := pool_hits s + 1\<rparr>"
    using assms by (auto simp: take_slot_def i Let_def)
  show ?thesis unfolding s' using position_Some [OF i] mset_swap_remove [of i "bp_bufs s"] v by auto
qed

text \<open>The handle a step works on, and the other handles.\<close>

lemma mset_at: "h < length xs \<Longrightarrow> mset xs = add_mset (xs ! h) (mset xs - {#xs ! h#})"
  by simp

lemma inv_set_phase:
  assumes "h < length (bp_handles s)"
    and "core (mset (bp_bufs s')) (add_mset ph (mset (bp_handles s) - {#bp_handles s ! h#})) (bp_bytes s')
      (bp_pinned s') (pin_bytes s')"
    and "bp_handles s' = bp_handles s" and "\<not> bp_hooks s' \<longrightarrow> bp_pinned s' = {}"
  shows "pool_inv (set_phase h ph s')"
  using assms by (simp add: pool_inv_def set_phase_def mset_update)

lemma inv_at:
  assumes "pool_inv s" and "h < length (bp_handles s)"
  shows "core (mset (bp_bufs s)) (add_mset (bp_handles s ! h) (mset (bp_handles s) - {#bp_handles s ! h#})) (bp_bytes s)
      (bp_pinned s) (pin_bytes s)"
  using assms by (simp add: pool_inv_def)

lemma inv_new_handle:
  assumes "core (mset (bp_bufs s)) (add_mset ph (mset (bp_handles s))) (bp_bytes s) (bp_pinned s) (pin_bytes s)"
    and "\<not> bp_hooks s \<longrightarrow> bp_pinned s = {}"
  shows "pool_inv (new_handle ph s)"
  using assms by (simp add: pool_inv_def new_handle_def)

lemma take_slot_core:
  assumes "take_slot len s = Some ((a, d), s')" and "POOL_MIN_BYTES \<le> len"
    and "core (mset (bp_bufs s)) H (bp_bytes s) (bp_pinned s) (pin_bytes s)"
  shows "core (mset (bp_bufs s')) (add_mset (Held a (fit len d)) H) (bp_bytes s') (bp_pinned s') (pin_bytes s') \<and>
    bp_handles s' = bp_handles s \<and> bp_hooks s' = bp_hooks s \<and> bp_pinned s' = bp_pinned s"
  using take_slot_Some [OF assms(1)] assms(2,3) core_take [of a d _ H "bp_bytes s" "bp_pinned s" "pin_bytes s" len]
  by auto

lemma pool_invD:
  assumes "pool_inv s"
  shows "core (mset (bp_bufs s)) (mset (bp_handles s)) (bp_bytes s) (bp_pinned s) (pin_bytes s)"
    and "\<not> bp_hooks s \<longrightarrow> bp_pinned s = {}"
  using assms by (simp_all add: pool_inv_def)

lemma with_len_inv:
  assumes "pool_inv s"
  shows "pool_inv (with_len len s)"
proof -
  note c = pool_invD [OF assms]
  have fresh: "pool_inv (new_handle (Fresh len) s)"
    "pool_inv (new_handle (Fresh len) (s\<lparr>pool_misses := pool_misses s + 1\<rparr>))"
    "pool_inv (new_handle (Waiting len 0) (s\<lparr>pool_misses := pool_misses s + 1, arena_waits := arena_waits s + 1\<rparr>))"
    using c by (auto intro!: inv_new_handle simp: core_steps)
  have "pool_inv (new_handle (Held a (fit len d)) s')"
    if "take_slot len s = Some ((a, d), s')" "POOL_MIN_BYTES \<le> len" for a d s'
    using take_slot_core [OF that c(1)] c(2) by (intro inv_new_handle) auto
  with fresh show ?thesis by (auto simp: with_len_def split: option.split)
qed

text \<open>A handle only waits for expert-sized buffers, and registers only when the hooks are there.\<close>

fun call_ok :: "bool \<Rightarrow> phase \<Rightarrow> bool" where
  "call_ok hooks (Waiting len spins) \<longleftrightarrow> POOL_MIN_BYTES \<le> len \<and> spins \<le> 10000"
| "call_ok hooks (Register a d) \<longleftrightarrow> hooks"
| "call_ok hooks (Filling slot k n v) \<longleftrightarrow> call_ok hooks v"
| "call_ok hooks _ \<longleftrightarrow> True"

definition calls_ok :: "bpool \<Rightarrow> bool" where
  "calls_ok s \<longleftrightarrow> list_all (call_ok (bp_hooks s)) (bp_handles s)"

lemma wait_step_inv:
  assumes "pool_inv s" and "h < length (bp_handles s)" and "bp_handles s ! h = Waiting len spins"
    and "POOL_MIN_BYTES \<le> len"
  shows "pool_inv (wait_step h len spins s)"
proof -
  note c = inv_at [OF assms(1,2), unfolded assms(3) core_steps] pool_invD(2) [OF assms(1)]
  have wait: "pool_inv (set_phase h (Fresh len) (s\<lparr>arena_starved := arena_starved s + 1\<rparr>))"
    "pool_inv (set_phase h (Waiting len (spins + 1)) s)"
    by (rule inv_set_phase [OF assms(2)]; use c assms(3) in \<open>simp add: core_steps\<close>)+
  have "pool_inv (set_phase h (Held a (fit len d)) s')" if "take_slot len s = Some ((a, d), s')" for a d s'
    using take_slot_core [OF that assms(4) c(1)] c(2) assms(3) by (intro inv_set_phase [OF assms(2)]) auto
  with wait show ?thesis by (auto simp: wait_step_def split: option.split)
qed

text \<open>The phases whose next step is one of \<open>vec_step\<close>.\<close>

fun vec_phase :: "phase \<Rightarrow> bool" where
  "vec_phase (Waiting n k) = False"
| "vec_phase (Unpin a) = False"
| "vec_phase (Uncount a) = False"
| "vec_phase (Filling slot k n v) = False"
| "vec_phase (Claimed slot n b) = False"
| "vec_phase ph = True"

lemma tick_vec:
  assumes "h < length (bp_handles s)" and "vec_step cfg (bp_handles s ! h) s = (ph', s')" and "vec_phase (bp_handles s ! h)"
  shows "pool_tick cfg h s = set_phase h ph' s'"
proof -
  have "pool_tick cfg h s = (case vec_step cfg (bp_handles s ! h) s of (p, t) \<Rightarrow> set_phase h p t)"
    using assms(1,3) by (cases "bp_handles s ! h") (simp_all add: pool_tick_def)
  then show ?thesis by (simp add: assms(2))
qed

lemma arena_vec:
  assumes "vec_step cfg v s = (v', s')" and "\<forall>a d. v \<noteq> Held a d" and "v \<noteq> Gone"
  shows "arena_step cfg h slot k n v s = set_phase h (Filling slot k n v') s'"
proof -
  have "arena_step cfg h slot k n v s = (case vec_step cfg v s of (p, t) \<Rightarrow> set_phase h (Filling slot k n p) t)"
    using assms(2,3) by (cases v) (simp_all add: arena_step_def)
  then show ?thesis by (simp add: assms(1))
qed

lemma vec_step_core:
  assumes "core (mset (bp_bufs s)) (add_mset ph H) (bp_bytes s) (bp_pinned s) (pin_bytes s)"
    and "\<not> bp_hooks s \<longrightarrow> bp_pinned s = {}" and "malloc_ok cfg" and "call_ok (bp_hooks s) ph"
    and "heap_ranges (mset (bp_bufs s)) (mset (bp_handles s)) = heap_ranges (mset (bp_bufs s)) (add_mset ph H)"
    and "heap_addrs (mset (bp_bufs s)) (mset (bp_handles s)) = heap_addrs (mset (bp_bufs s)) (add_mset ph H)"
    and "core (mset (bp_bufs s)) (mset (bp_handles s)) (bp_bytes s) (bp_pinned s) (pin_bytes s)"
    and "vec_step cfg ph s = (ph', s')"
  shows "core (mset (bp_bufs s')) (add_mset ph' H) (bp_bytes s') (bp_pinned s') (pin_bytes s') \<and>
    (\<not> bp_hooks s' \<longrightarrow> bp_pinned s' = {})"
proof (cases ph)
  case (Fresh len)
  have "core (mset (bp_bufs s)) (add_mset (Pin (malloc cfg (allocs s) len, len) (replicate len 0)) H)
      (bp_bytes s) (bp_pinned s) (pin_bytes s)"
    using assms(1,5,6) malloc_new [OF assms(3,7), of len] Fresh by (intro core_new) (simp_all add: core_steps)
  then show ?thesis using assms(2,8) Fresh by auto
next
  case (Pin a d)
  note c = assms(1) [unfolded Pin]
  show ?thesis using Pin assms(2,8) core_pin_held [OF c] core_pin_register [OF c]
    by (auto simp: pin_check_def split: if_splits)
next
  case (Register a d)
  note c = assms(1) [unfolded Register]
  show ?thesis using Register assms(2,4,8) core_register_held [OF c] core_lock [OF c]
    by (auto simp: pin_register_def split: if_splits)
next
  case (Count a d)
  then show ?thesis using assms(2,8) core_count [OF assms(1) [unfolded Count]] by (auto simp: pin_count_def)
qed (use assms in auto)

lemma vec_step_frame:
  assumes "vec_step cfg ph s = (ph', s')"
  shows "bp_bufs s' = bp_bufs s" "bp_handles s' = bp_handles s" "bp_hooks s' = bp_hooks s" "bp_arena s' = bp_arena s"
    "bp_bytes s' = bp_bytes s"
    and "call_ok (bp_hooks s) ph \<Longrightarrow> call_ok (bp_hooks s) ph'" and "slot_ok n ph \<Longrightarrow> slot_ok n ph'"
  using assms
  by (cases ph; auto simp: pin_check_def pin_register_def pin_count_def split: if_splits)+

lemma arena_step_inv:
  assumes inv: "pool_inv s" and "call_ok (bp_hooks s) v" and "malloc_ok cfg"
    and h: "h < length (bp_handles s)" and at: "bp_handles s ! h = Filling slot k n v"
  shows "pool_inv (arena_step cfg h slot k n v s)"
proof -
  let ?H = "mset (bp_handles s) - {#bp_handles s ! h#}"
  have c: "0 < slot" "slot_ok slot v" "core (mset (bp_bufs s)) (add_mset v ?H) (bp_bytes s) (bp_pinned s) (pin_bytes s)"
    using inv_at [OF inv h] unfolding at core_steps by simp_all
  note hooks = pool_invD(2) [OF inv] and set = inv_set_phase [OF h]
  have heap: "heap_ranges (mset (bp_bufs s)) (mset (bp_handles s)) = heap_ranges (mset (bp_bufs s)) (add_mset v ?H)"
    "heap_addrs (mset (bp_bufs s)) (mset (bp_handles s)) = heap_addrs (mset (bp_bufs s)) (add_mset v ?H)"
    by (subst mset_at [OF h], simp only: heap_ranges_simps heap_addrs_simps at phase_ranges_simps phase_addrs_simps)+
  show ?thesis
  proof (cases "(\<exists>a d. v = Held a d) \<or> v = Gone")
    case False
    obtain v' s' where st: "vec_step cfg v s = (v', s')" by force
    note fr = vec_step_frame [OF st]
    from vec_step_core [OF c(3) hooks assms(3,2) heap pool_invD(1) [OF inv] st] c(1,2) fr(7)
    have "pool_inv (set_phase h (Filling slot k n v') s')"
      using fr(2) at by (intro set) (simp_all add: core_steps)
    moreover have "arena_step cfg h slot k n v s = set_phase h (Filling slot k n v') s'"
      using False by (intro arena_vec [OF st]) blast+
    ultimately show ?thesis by simp
  next
    case True
    then show ?thesis
    proof (elim disjE exE)
      fix a d assume v: "v = Held a d"
      have "0 < snd a" using c(1,2) v by simp
      note p = core_push [OF c(3) [unfolded v] this]
      show ?thesis using c(1) p hooks at by (auto simp: arena_step_def v core_steps intro!: set)
    next
      assume v: "v = Gone"
      show ?thesis using c hooks at by (auto simp: arena_step_def v core_steps intro!: set)
    qed
  qed
qed

lemma pool_tick_inv:
  assumes inv: "pool_inv s" and "calls_ok s" and "malloc_ok cfg"
  shows "pool_inv (pool_tick cfg h s)"
proof (cases "h < length (bp_handles s)")
  case h: True
  let ?ph = "bp_handles s ! h"
  note c = inv_at [OF inv h] and hooks = pool_invD(2) [OF inv]
  note set = inv_set_phase [OF h]
  have ok: "call_ok (bp_hooks s) ?ph" using assms(2) h by (simp add: calls_ok_def list_all_length)
  obtain ph' s' where st: "vec_step cfg ?ph s = (ph', s')" by force
  have "heap_ranges (mset (bp_bufs s)) (mset (bp_handles s)) = heap_ranges (mset (bp_bufs s)) (add_mset ?ph (mset (bp_handles s) - {#?ph#}))"
    "heap_addrs (mset (bp_bufs s)) (mset (bp_handles s)) = heap_addrs (mset (bp_bufs s)) (add_mset ?ph (mset (bp_handles s) - {#?ph#}))"
    by (subst mset_at [OF h], rule refl)+
  from vec_step_core [OF c hooks assms(3) ok this pool_invD(1) [OF inv] st]
  have vec: "pool_inv (set_phase h ph' s')" using vec_step_frame(2) [OF st] by (intro set) simp_all
  show ?thesis
  proof (cases ?ph)
    case (Waiting len spins)
    then show ?thesis using wait_step_inv [OF inv h] h ok by (simp add: pool_tick_def)
  next
    case (Unpin a)
    note c = c [unfolded Unpin]
    show ?thesis using h hooks core_unlock [OF c] core_free [OF c]
      by (auto simp: pool_tick_def Unpin unpin_take_def free_buf_def core_steps intro!: set)
  next
    case (Uncount a)
    then show ?thesis using h hooks core_uncount [OF c [unfolded Uncount]]
      by (auto simp: pool_tick_def unpin_count_def free_buf_def core_steps intro!: set)
  next
    case (Filling slot k n v)
    then show ?thesis using arena_step_inv [OF inv _ assms(3) h Filling] ok h by (simp add: pool_tick_def)
  next
    case (Claimed slot n b)
    then show ?thesis using c h hooks by (auto simp: pool_tick_def core_steps intro!: set)
  qed (use vec tick_vec [OF h st] in simp_all)
qed (use inv in \<open>simp add: pool_tick_def\<close>)

lemma drop_buf_inv:
  assumes inv: "pool_inv s"
  shows "pool_inv (drop_buf cfg h s)"
proof (cases "idx (bp_handles s) h")
  case (Some ph)
  then have h: "h < length (bp_handles s)" "bp_handles s ! h = ph" by (simp_all add: idx_eq_Some)
  note c = inv_at [OF inv h(1), unfolded h(2)] and hooks = pool_invD(2) [OF inv] and set = inv_set_phase [OF h(1), unfolded h(2)]
  show ?thesis
  proof (cases ph)
    case (Held a d)
    note c = c [unfolded Held]
    have "0 < snd a" if "POOL_MIN_BYTES \<le> snd a" using that POOL_MIN_pos by linarith
    then show ?thesis using Some Held hooks core_push [OF c] core_drop_small [OF c] core_reject [OF c]
      by (auto simp: drop_buf_def core_steps intro!: set)
  next
    case (Viewed b)
    then show ?thesis using Some hooks c by (auto simp: drop_buf_def core_steps intro!: set)
  qed (use Some inv in \<open>simp_all add: drop_buf_def\<close>)
qed (use inv in \<open>simp add: drop_buf_def\<close>)

lemma write_held_inv:
  assumes inv: "pool_inv s" and "write_held h b s = Some s'"
  shows "pool_inv s'"
proof (cases "idx (bp_handles s) h")
  case (Some ph)
  then have h: "h < length (bp_handles s)" "bp_handles s ! h = ph" by (simp_all add: idx_eq_Some)
  note c = inv_at [OF inv h(1), unfolded h(2)] and set = inv_set_phase [OF h(1), unfolded h(2)]
  show ?thesis
  proof (cases ph)
    case (Held a d)
    then show ?thesis using assms Some pool_invD(2) [OF inv] core_write [OF c [unfolded Held]]
      by (auto simp: write_held_def split: if_splits intro!: set)
  qed (use assms Some in \<open>auto simp: write_held_def\<close>)
qed (use assms in \<open>simp add: write_held_def\<close>)

lemma arena_init_inv: "pool_inv s \<Longrightarrow> pool_inv (arena_init slot n s)"
  by (auto simp: arena_init_def core_steps dest: pool_invD intro!: inv_new_handle)

text \<open>The shape of every event on the handles: one handle changes, or one is added.\<close>

lemma call_ok_hooks: "call_ok b ph \<Longrightarrow> call_ok True ph"
  by (induction ph) simp_all

lemma calls_ok_set_phase:
  assumes "calls_ok s" and "bp_handles s' = bp_handles s" and "bp_hooks s' = bp_hooks s" and "call_ok (bp_hooks s) ph"
  shows "calls_ok (set_phase h ph s')"
  using assms set_update_subset_insert [of "bp_handles s" h ph] by (auto simp: calls_ok_def set_phase_def list_all_iff)

lemma take_slot_frame:
  "take_slot len s = Some (v, s') \<Longrightarrow> bp_handles s' = bp_handles s \<and> bp_hooks s' = bp_hooks s \<and> bp_arena s' = bp_arena s"
  by (auto simp: take_slot_def Let_def split: option.splits)

lemma calls_ok_arena:
  assumes "calls_ok s" and "call_ok (bp_hooks s) v"
  shows "calls_ok (arena_step cfg h slot k n v s)"
proof -
  obtain v' s' where st: "vec_step cfg v s = (v', s')" by force
  note fr = vec_step_frame [OF st]
  have "calls_ok (set_phase h (Filling slot k n v') s')"
    using fr(6) [OF assms(2)] by (intro calls_ok_set_phase [OF assms(1) fr(2,3)]) simp
  with arena_vec [OF st] have vec: "calls_ok (arena_step cfg h slot k n v s)" if "\<forall>a d. v \<noteq> Held a d" "v \<noteq> Gone"
    using that by metis
  have "calls_ok (arena_step cfg h slot k n (Held a d) s)" "calls_ok (arena_step cfg h slot k n Gone s)" for a d
    by (auto simp: arena_step_def intro!: calls_ok_set_phase [OF assms(1)])
  with vec show ?thesis by blast
qed

lemma calls_ok_tick:
  assumes "calls_ok s"
  shows "calls_ok (pool_tick cfg h s)"
proof (cases "h < length (bp_handles s)")
  case True
  then have ok: "call_ok (bp_hooks s) (bp_handles s ! h)" using assms by (simp add: calls_ok_def list_all_length)
  obtain ph' s' where st: "vec_step cfg (bp_handles s ! h) s = (ph', s')" by force
  note fr = vec_step_frame [OF st]
  have vec: "calls_ok (set_phase h ph' s')" by (rule calls_ok_set_phase [OF assms fr(2,3) fr(6) [OF ok]])
  show ?thesis
  proof (cases "bp_handles s ! h")
    case (Filling slot k n v)
    then show ?thesis using True ok calls_ok_arena [OF assms] by (simp add: pool_tick_def)
  next
    case (Waiting len k)
    then show ?thesis using True ok assms
      by (auto simp: pool_tick_def wait_step_def split: option.split dest: take_slot_frame intro!: calls_ok_set_phase [OF assms])
  qed (use vec tick_vec [OF True st] True in \<open>auto simp: pool_tick_def unpin_take_def unpin_count_def free_buf_def
      intro!: calls_ok_set_phase [OF assms]\<close>)
qed (use assms in \<open>simp add: pool_tick_def\<close>)

lemma calls_ok_step:
  assumes "calls_ok s"
  shows "calls_ok (pool_event_step cfg e s)"
proof (cases e)
  case (With_len n)
  then show ?thesis using assms(1)
    by (auto simp: with_len_def calls_ok_def new_handle_def split: option.split dest: take_slot_frame)
next
  case (Write h b)
  then show ?thesis using assms(1)
    by (auto simp: write_held_def split: option.split phase.split intro!: calls_ok_set_phase [OF assms(1)])
next
  case (Drop h)
  then show ?thesis using assms(1)
    by (auto simp: drop_buf_def split: option.split phase.split intro!: calls_ok_set_phase [OF assms(1)])
next
  case (Arena slot n)
  then show ?thesis using assms(1)
    by (auto simp: arena_init_def calls_ok_def new_handle_def)
qed (use assms(1) calls_ok_tick call_ok_hooks in
  \<open>auto simp: calls_ok_def new_handle_def set_host_pin_hooks_def set_pin_budget_def list_all_iff\<close>)

lemma pool_step_inv:
  assumes "pool_inv s" and "calls_ok s" and "malloc_ok cfg"
  shows "pool_inv (pool_event_step cfg e s)"
proof (cases e)
  case (From_view b)
  then show ?thesis using pool_invD [OF assms(1)] by (auto intro!: inv_new_handle simp: core_steps)
next
  case (Write h b)
  then show ?thesis using assms(1) write_held_inv [OF assms(1), of h b] by (simp split: option.split)
qed (use assms in \<open>simp_all add: with_len_inv pool_tick_inv drop_buf_inv arena_init_inv,
  simp_all add: pool_inv_def set_host_pin_hooks_def set_pin_budget_def\<close>)

lemma run_pool_inv:
  assumes "malloc_ok cfg"
  shows "pool_inv (run_pool cfg evs pool_init) \<and> calls_ok (run_pool cfg evs pool_init)"
proof -
  have "pool_inv s \<and> calls_ok s \<Longrightarrow> pool_inv (run_pool cfg evs s) \<and> calls_ok (run_pool cfg evs s)" for s
    by (induction evs arbitrary: s) (simp_all add: run_pool_def pool_step_inv calls_ok_step assms)
  moreover have "pool_inv pool_init \<and> calls_ok pool_init"
    by (simp add: pool_inv_def pool_init_def core_def calls_ok_def)
  ultimately show ?thesis by blast
qed

section \<open>Memory safety and accounting\<close>

fun settled :: "phase \<Rightarrow> bool" where
  "settled (Held a d) = True"
| "settled (Viewed b) = True"
| "settled Gone = True"
| "settled _ = False"

lemma phase_pin_settled:
  "settled ph \<Longrightarrow> phase_pin P ph = sum_list (map (locked P) (phase_allocs ph))"
  by (cases ph) (simp_all add: locked_def)

lemma pin_sum_settled:
  "list_all settled hs \<Longrightarrow> (\<Sum>ph \<in># mset hs. phase_pin P ph) = sum_list (map (locked P) (concat (map phase_allocs hs)))"
  by (induction hs) (simp_all add: phase_pin_settled)

text \<open>
  C35: The buffer pool is memory-safe and its books are right under every interleaving of allocations,
  writes, drops, page-lock set-up and the steps of arena creation by any number of threads: the memory
  ranges of any two live buffers (held, pooled, or being set up or freed) do not overlap, every
  page-locked address is the base of an allocation that is still live (a registration never outlives
  its memory), the pool's byte count is the sum of the pooled capacities, and whenever no call is in
  progress the page-locked byte count is the sum of the locked capacities.  The allocator only has to
  return ranges that do not overlap live ones.
\<close>

theorem pool_memory_safe:
  assumes "malloc_ok cfg" and "s = run_pool cfg evs pool_init"
  shows "sorted_wrt apart (allocs s) \<and> (\<forall>a\<in>set (allocs s). 0 < snd a) \<and> bp_pinned s \<subseteq> fst ` set (allocs s) \<and>
    pool_live_bytes s = sum_list (map (\<lambda>v. snd (fst v)) (bp_bufs s)) \<and>
    (list_all settled (bp_handles s) \<longrightarrow> pin_bytes s = sum_list (map (locked (bp_pinned s)) (allocs s)))"
proof -
  have c: "core (mset (bp_bufs s)) (mset (bp_handles s)) (bp_bytes s) (bp_pinned s) (pin_bytes s)"
    using run_pool_inv [OF assms(1), of evs] assms(2) by (simp add: pool_inv_def)
  have "sorted_wrt apart (allocs s)" "bp_pinned s \<subseteq> fst ` set (allocs s)"
    using c unfolding core_def heap_ranges_allocs heap_addrs_allocs disjoint_mset set_mset_mset list.set_map by blast+
  moreover have "\<forall>a\<in>set (allocs s). 0 < snd a" using core_pos [OF c] by blast
  moreover have "bp_bytes s = sum_list (map (\<lambda>v. snd (fst v)) (bp_bufs s))"
    using c unfolding core_def sum_mset_sum_list [symmetric] mset_map by simp
  moreover have "pin_bytes s = sum_list (map (locked (bp_pinned s)) (allocs s))" if "list_all settled (bp_handles s)"
  proof -
    have "(\<Sum>v \<in># mset (bp_bufs s). locked P (fst v)) = sum_list (map (locked P) (map fst (bp_bufs s)))" for P
      unfolding sum_mset_sum_list [symmetric] mset_map image_mset.compositionality comp_def by (rule refl)
    then show ?thesis using c pin_sum_settled [OF that] by (simp add: core_def allocs_def)
  qed
  ultimately show ?thesis by (simp add: pool_live_bytes_def)
qed

section \<open>\<open>with_len\<close> returns\<close>

text \<open>Handle phases on the way to a buffer of \<open>len\<close> bytes, and how many own steps are left.\<close>

fun serves :: "nat \<Rightarrow> phase \<Rightarrow> bool" where
  "serves len (Waiting n k) \<longleftrightarrow> n = len \<and> k \<le> 10000"
| "serves len (Fresh n) \<longleftrightarrow> n = len"
| "serves len (Pin a d) \<longleftrightarrow> length d = len \<and> len \<le> snd a"
| "serves len (Register a d) \<longleftrightarrow> length d = len \<and> len \<le> snd a"
| "serves len (Count a d) \<longleftrightarrow> length d = len \<and> len \<le> snd a"
| "serves len (Held a d) \<longleftrightarrow> length d = len \<and> len \<le> snd a"
| "serves len _ \<longleftrightarrow> False"

fun steps_left :: "phase \<Rightarrow> nat" where
  "steps_left (Waiting n k) = 10005 - k"
| "steps_left (Fresh n) = 4"
| "steps_left (Pin a d) = 3"
| "steps_left (Register a d) = 2"
| "steps_left (Count a d) = 1"
| "steps_left _ = 0"

lemma length_fit [simp]: "length (fit len d) = len"
  by (simp add: fit_def)

definition on_way :: "nat \<Rightarrow> nat \<Rightarrow> nat \<Rightarrow> bpool \<Rightarrow> bool" where
  "on_way len h n s \<longleftrightarrow> h < length (bp_handles s) \<and> serves len (bp_handles s ! h) \<and> steps_left (bp_handles s ! h) \<le> n"

lemma on_way_set_phase:
  "bp_handles s' = bp_handles s \<Longrightarrow> h < length (bp_handles s) \<Longrightarrow>
   on_way len h n (set_phase h ph s') \<longleftrightarrow> serves len ph \<and> steps_left ph \<le> n"
  by (auto simp: on_way_def set_phase_def)

lemma with_len_on_way: "on_way len (length (bp_handles s)) 10005 (with_len len s)"
  by (auto simp: with_len_def on_way_def new_handle_def nth_append split: option.split
      dest: take_slot_frame take_slot_Some)

lemma pool_tick_on_way:
  assumes "on_way len h (Suc n) s"
  shows "on_way len h n (pool_tick cfg h s)"
proof -
  have h: "h < length (bp_handles s)" using assms by (simp add: on_way_def)
  note set = on_way_set_phase [OF _ h]
  have "on_way len h n (wait_step h len k s)" if "k \<le> 10000" "10005 - k \<le> Suc n" for k
    using that by (auto simp: wait_step_def set split: option.split dest: take_slot_frame take_slot_Some)
  then show ?thesis using assms h
    by (cases "bp_handles s ! h") (auto simp: pool_tick_def on_way_def [of _ _ "Suc n"] pin_check_def pin_register_def
        pin_count_def Let_def set)
qed

text \<open>A step of another handle leaves handle \<open>h\<close> alone.\<close>

lemma other_tick_frame:
  assumes "i \<noteq> h"
  shows "length (bp_handles (pool_tick cfg i s)) = length (bp_handles s)"
    and "bp_handles (pool_tick cfg i s) ! h = bp_handles s ! h"
proof -
  obtain ph' s' where st: "vec_step cfg (bp_handles s ! i) s = (ph', s')" by force
  have arena: "bp_handles (arena_step cfg i slot k n v s) = (bp_handles s)[i := bp_handles (arena_step cfg i slot k n v s) ! i]"
    if "i < length (bp_handles s)" for slot k n v
  proof -
    obtain v' t where st: "vec_step cfg v s = (v', t)" by force
    have "bp_handles (arena_step cfg i slot k n v s) = (bp_handles s)[i := Filling slot k n v']"
      if "\<forall>a d. v \<noteq> Held a d" "v \<noteq> Gone"
      using arena_vec [OF st that] vec_step_frame(2) [OF st] by (simp add: set_phase_def)
    moreover have "\<exists>ph. bp_handles (arena_step cfg i slot k n w s) = (bp_handles s)[i := ph]" if "w = Held a d \<or> w = Gone" for w a d
      using that by (auto simp: arena_step_def set_phase_def)
    ultimately obtain ph where "bp_handles (arena_step cfg i slot k n v s) = (bp_handles s)[i := ph]" by metis
    with that show ?thesis by simp
  qed
  have "length (bp_handles (pool_tick cfg i s)) = length (bp_handles s) \<and>
      bp_handles (pool_tick cfg i s) ! h = bp_handles s ! h"
  proof (cases "i < length (bp_handles s)")
    case True
    show ?thesis
    proof (cases "bp_handles s ! i")
      case (Filling slot k n v)
      with True have t: "pool_tick cfg i s = arena_step cfg i slot k n v s" by (simp add: pool_tick_def)
      show ?thesis unfolding t by (subst (1 2) arena [OF True]) (simp add: assms)
    qed (use tick_vec [OF True st] True assms vec_step_frame(2) [OF st] in \<open>auto simp: pool_tick_def set_phase_def
        wait_step_def unpin_take_def unpin_count_def free_buf_def split: option.split dest: take_slot_frame\<close>)
  qed (simp add: pool_tick_def)
  then show "length (bp_handles (pool_tick cfg i s)) = length (bp_handles s)"
    "bp_handles (pool_tick cfg i s) ! h = bp_handles s ! h" by simp_all
qed

lemma other_on_way:
  assumes "on_way len h n s" and "e \<noteq> Drop h" and "e \<noteq> Tick h"
  shows "on_way len h n (pool_event_step cfg e s)"
proof -
  have h: "h < length (bp_handles s)" using assms(1) by (simp add: on_way_def)
  have keep: "on_way len h n (set_phase i ph s')" if "bp_handles s' = bp_handles s" "i \<noteq> h" for i ph s'
    using assms(1) that by (simp add: on_way_def set_phase_def)
  have new: "on_way len h n (new_handle ph s')" if "bp_handles s' = bp_handles s" for ph s'
    using assms(1) that by (simp add: on_way_def new_handle_def nth_append)
  have same: "on_way len h n s'" if "bp_handles s' = bp_handles s" for s'
    using assms(1) that by (simp add: on_way_def)
  show ?thesis
  proof (cases e)
    case (With_len m)
    then show ?thesis by (auto simp: with_len_def new split: option.split dest: take_slot_frame)
  next
    case (Tick i)
    then have "i \<noteq> h" using assms(3) by blast
    from other_tick_frame [OF this, of cfg s] show ?thesis using assms(1) Tick by (simp add: on_way_def)
  next
    case (Write i b)
    show ?thesis
    proof (cases "i = h")
      case True
      then show ?thesis using assms(1) Write h
        by (auto simp: on_way_def write_held_def set_phase_def split: option.split phase.split)
    next
      case False
      then show ?thesis using Write by (auto simp: write_held_def keep same split: option.split phase.split)
    qed
  next
    case (Drop i)
    then show ?thesis using assms(2) by (auto simp: drop_buf_def keep same split: option.split phase.split)
  next
    case (Arena slot m)
    then show ?thesis by (simp add: arena_init_def new)
  qed (auto simp: set_host_pin_hooks_def set_pin_budget_def new intro!: same)
qed

lemma run_on_way:
  assumes "on_way len h n s" and "Drop h \<notin> set evs"
  shows "on_way len h (n - count_list evs (Tick h)) (run_pool cfg evs s)"
  using assms
proof (induction evs arbitrary: s n)
  case (Cons e evs)
  define s' where "s' = pool_event_step cfg e s"
  have "on_way len h (n - (if e = Tick h then 1 else 0)) s'"
  proof (cases "e = Tick h")
    case True
    have "on_way len h (Suc (n - 1)) s" using Cons.prems(1) by (auto simp: on_way_def)
    then show ?thesis using True pool_tick_on_way by (simp add: s'_def)
  next
    case False
    then show ?thesis using other_on_way [OF Cons.prems(1) _ False] Cons.prems(2) by (auto simp: s'_def)
  qed
  from Cons.IH [OF this] Cons.prems(2) show ?case
    by (simp add: run_pool_def s'_def split: if_splits)
qed (simp add: run_pool_def)

text \<open>
  C36: \<open>SharedBuf::with_len\<close> always returns, with exactly the requested bytes: from any reachable pool
  state, whatever the other threads do meanwhile (even if they never return a slot of the arena),
  after at most 10005 own steps of the call its handle holds a live buffer of \<open>len\<close> bytes whose
  capacity covers them.
\<close>

theorem with_len_returns:
  assumes "malloc_ok cfg" and "s = run_pool cfg evs pool_init" and "h = length (bp_handles s)"
    and "10005 \<le> count_list evs' (Tick h)" and "Drop h \<notin> set evs'"
  shows "\<exists>a d. bp_handles (run_pool cfg evs' (with_len len s)) ! h = Held a d \<and> length d = len \<and> len \<le> snd a"
proof -
  have "on_way len h 10005 (with_len len s)" unfolding assms(3) by (rule with_len_on_way)
  from run_on_way [OF this assms(5)] assms(4)
  have "on_way len h 0 (run_pool cfg evs' (with_len len s))" by simp
  then show ?thesis
    by (cases "bp_handles (run_pool cfg evs' (with_len len s)) ! h") (auto simp: on_way_def)
qed

definition bump_cfg :: pool_cfg where
  "bump_cfg = \<lparr>max_bufs = 64, max_bytes = 2 ^ 31, pin_env = None, malloc = (\<lambda>used n. sum_list (map (\<lambda>a. fst a + snd a) used)),
     reg_hook = (\<lambda>_ _. True)\<rparr>"

lemma bump_end: "a \<in> set (as :: alloc list) \<Longrightarrow> fst a + snd a \<le> sum_list (map (\<lambda>a. fst a + snd a) as)"
  by (induction as) auto

lemma bump_malloc_ok: "malloc_ok bump_cfg"
  by (auto simp: malloc_ok_def bump_cfg_def apart_def dest!: bump_end)

lemmas run_defs = run_pool_def arena_init_def arena_step_def Let_def pool_init_def pin_check_def pin_register_def
  pin_count_def pin_max_bytes_def set_host_pin_hooks_def set_pin_budget_def with_len_def take_slot_def
  new_handle_def set_phase_def pool_tick_def drop_buf_def arena_covers_def allocs_def

text \<open>An arena of one slot, made by its thread alone, with no device to page-lock for.\<close>

lemma one_slot_arena:
  assumes "slot \<noteq> 0"
  shows "run_pool bump_cfg [Arena slot 1, Tick 0, Tick 0, Tick 0, Tick 0, Tick 0] pool_init =
    pool_init\<lparr>bp_bufs := [((0, slot), replicate slot 0)], bp_bytes := slot, bp_arena := Some (slot, 1), bp_handles := [Gone]\<rparr>"
  using assms by (simp add: run_defs bump_cfg_def)

text \<open>An arena of two page-locked slots.\<close>

lemma two_slot_arena:
  assumes "POOL_MIN_BYTES \<le> slot"
  shows "run_pool bump_cfg ([Install_hooks, Set_budget (2 * slot), Arena slot 2] @ [Tick 0, Tick 0, Tick 0, Tick 0, Tick 0, Tick 0,
      Tick 0, Tick 0, Tick 0, Tick 0, Tick 0, Tick 0]) pool_init =
    pool_init\<lparr>bp_bufs := [((0, slot), replicate slot 0), ((slot, slot), replicate slot 0)], bp_bytes := 2 * slot,
      bp_hooks := True, bp_pinned := {0, slot}, pin_bytes := 2 * slot, pin_budget := 2 * slot, pin_ok := 2,
      bp_arena := Some (slot, 2), bp_handles := [Gone]\<rparr>"
proof -
  have "slot \<noteq> 0" using assms by (cases "slot = 0") simp_all
  then show ?thesis using assms by (simp add: run_defs bump_cfg_def) auto
qed

theorem with_len_returns_witness:
  "\<exists>a d. bp_handles (run_pool bump_cfg (replicate 10005 (Tick 2)) (with_len (2 ^ 21)
      (run_pool bump_cfg ([Arena (2 ^ 21) 1, Tick 0, Tick 0, Tick 0, Tick 0, Tick 0] @ [With_len (2 ^ 21)]) pool_init))) ! 2 = Held a d \<and>
    length d = 2 ^ 21 \<and> 2 ^ 21 \<le> snd a"
proof (rule with_len_returns [OF bump_malloc_ok refl])
  have "run_pool bump_cfg ([Arena (2 ^ 21) 1, Tick 0, Tick 0, Tick 0, Tick 0, Tick 0] @ [With_len (2 ^ 21)]) pool_init
      = with_len (2 ^ 21) (run_pool bump_cfg [Arena (2 ^ 21) 1, Tick 0, Tick 0, Tick 0, Tick 0, Tick 0] pool_init)"
    by (simp add: run_pool_def)
  also have "run_pool bump_cfg [Arena (2 ^ 21) 1, Tick 0, Tick 0, Tick 0, Tick 0, Tick 0] pool_init =
      pool_init\<lparr>bp_bufs := [((0, 2 ^ 21), replicate (2 ^ 21) 0)], bp_bytes := 2 ^ 21, bp_arena := Some (2 ^ 21, 1), bp_handles := [Gone]\<rparr>"
    by (rule one_slot_arena) simp
  finally have "bp_handles (run_pool bump_cfg ([Arena (2 ^ 21) 1, Tick 0, Tick 0, Tick 0, Tick 0, Tick 0] @ [With_len (2 ^ 21)]) pool_init)
      = [Gone, Held (0, 2 ^ 21) (fit (2 ^ 21) (replicate (2 ^ 21) 0))]"
    by (simp add: with_len_def take_slot_def new_handle_def POOL_MIN_BYTES_def Let_def pool_init_def swap_remove_def)
  then show "2 = length (bp_handles (run_pool bump_cfg ([Arena (2 ^ 21) 1, Tick 0, Tick 0, Tick 0, Tick 0, Tick 0] @ [With_len (2 ^ 21)]) pool_init))"
    by (simp only: list.size)
  have "count_list (replicate n e) e = n" for n and e :: pool_event by (induction n) simp_all
  then show "10005 \<le> count_list (replicate 10005 (Tick 2)) (Tick 2)" by (simp only:)
qed (simp add: set_replicate_conv_if)

theorem pool_memory_safe_witness:
  "let s = run_pool bump_cfg ([Install_hooks, Set_budget (2 * 2 ^ 21), Arena (2 ^ 21) 2] @ [Tick 0, Tick 0, Tick 0, Tick 0, Tick 0, Tick 0,
      Tick 0, Tick 0, Tick 0, Tick 0, Tick 0, Tick 0]) pool_init
   in sorted_wrt apart (allocs s) \<and> length (allocs s) = 2 \<and> pin_bytes s = 2 * 2 ^ 21"
proof -
  have m: "POOL_MIN_BYTES \<le> 2 ^ 21" by (simp add: POOL_MIN_BYTES_def)
  have "sorted_wrt apart (allocs (run_pool bump_cfg ([Install_hooks, Set_budget (2 * 2 ^ 21), Arena (2 ^ 21) 2] @
      [Tick 0, Tick 0, Tick 0, Tick 0, Tick 0, Tick 0,
      Tick 0, Tick 0, Tick 0, Tick 0, Tick 0, Tick 0]) pool_init))"
    using pool_memory_safe [OF bump_malloc_ok refl] by blast
  then show ?thesis unfolding two_slot_arena [OF m] Let_def by (simp add: allocs_def pool_init_def)
qed

section \<open>What the pool retains\<close>

lemma swap_remove_length: "i < length xs \<Longrightarrow> length (swap_remove i xs) = length xs - 1"
  by (simp add: swap_remove_def)

text \<open>no arena is being made\<close>

fun quiet :: "phase \<Rightarrow> bool" where
  "quiet (Filling slot k n v) = False"
| "quiet (Claimed slot n b) = False"
| "quiet ph = True"

definition bounded :: "pool_cfg \<Rightarrow> bpool \<Rightarrow> bool" where
  "bounded cfg s \<longleftrightarrow> bp_arena s = None \<and> length (bp_bufs s) \<le> max_bufs cfg \<and> bp_bytes s \<le> max_bytes cfg \<and>
     list_all quiet (bp_handles s)"

lemma bounded_frame:
  "bounded cfg s \<Longrightarrow> bp_arena s' = bp_arena s \<Longrightarrow> bp_bufs s' = bp_bufs s \<Longrightarrow> bp_bytes s' = bp_bytes s \<Longrightarrow>
   bp_handles s' = bp_handles s \<Longrightarrow> bounded cfg s'"
  by (simp add: bounded_def)

lemma bounded_set_phase:
  "bounded cfg s \<Longrightarrow> quiet ph \<Longrightarrow> bounded cfg (set_phase h ph s)"
  "bounded cfg s \<Longrightarrow> quiet ph \<Longrightarrow> bounded cfg (new_handle ph s)"
  using set_update_subset_insert [of "bp_handles s" h ph]
  by (auto simp: bounded_def set_phase_def new_handle_def list_all_iff)

lemma bounded_take: "bounded cfg s \<Longrightarrow> take_slot len s = Some (v, s') \<Longrightarrow> bounded cfg s'"
  using swap_remove_length [of _ "bp_bufs s"]
  by (auto simp: bounded_def take_slot_def Let_def dest!: position_Some split: option.splits)

lemma quiet_vec: "quiet ph \<Longrightarrow> vec_step cfg ph s = (ph', s') \<Longrightarrow> quiet ph'"
  by (cases ph) (auto simp: pin_check_def pin_register_def split: if_splits)

lemma bounded_tick:
  assumes "bounded cfg s"
  shows "bounded cfg (pool_tick cfg h s)"
proof (cases "h < length (bp_handles s)")
  case True
  then have q: "quiet (bp_handles s ! h)" using assms by (simp add: bounded_def list_all_length)
  obtain ph' s' where st: "vec_step cfg (bp_handles s ! h) s = (ph', s')" by force
  note fr = vec_step_frame [OF st]
  have "bounded cfg s'" using assms by (rule bounded_frame) (simp_all add: fr)
  then have vec: "bounded cfg (set_phase h ph' s')" using bounded_set_phase(1) quiet_vec [OF q st] by blast
  show ?thesis using vec tick_vec [OF True st] assms q True
    by (cases "bp_handles s ! h") (auto simp: pool_tick_def wait_step_def unpin_take_def unpin_count_def free_buf_def Let_def
        split: option.split dest: bounded_take intro!: bounded_set_phase intro: bounded_frame)
qed (use assms in \<open>simp add: pool_tick_def\<close>)

lemma bounded_step:
  assumes "bounded cfg s" and "\<forall>slot n. e \<noteq> Arena slot n"
  shows "bounded cfg (pool_event_step cfg e s)"
proof (cases e)
  case (With_len n)
  then show ?thesis using assms(1)
    by (auto simp: with_len_def split: option.split dest: bounded_take intro!: bounded_set_phase intro: bounded_frame)
next
  case (Drop h)
  have push: "bounded cfg (s\<lparr>bp_bytes := bp_bytes s + snd a, bp_bufs := bp_bufs s @ [(a, d)], pool_pushes := pool_pushes s + 1\<rparr>)"
    if "length (bp_bufs s) < max_bufs cfg" "bp_bytes s + snd a \<le> max_bytes cfg" for a d
    using assms(1) that by (simp add: bounded_def)
  have "bp_arena s = None" using assms(1) by (simp add: bounded_def)
  then show ?thesis using assms(1) Drop push
    by (auto simp: drop_buf_def split: option.split phase.split intro!: bounded_set_phase)
next
  case (Write h b)
  then show ?thesis using assms(1)
    by (auto simp: write_held_def split: option.split phase.split intro!: bounded_set_phase)
qed (use assms bounded_tick in \<open>auto simp: set_host_pin_hooks_def set_pin_budget_def intro: bounded_frame bounded_set_phase\<close>)

text \<open>
  The organic pool is bounded in what it retains: as long as no arena is created, whatever
  buffers are allocated and dropped in whatever order, the pool never holds more entries than
  \<open>COLI_BUF_POOL\<close> nor more bytes than \<open>COLI_BUF_POOL_MB\<close>, and those bytes are the capacities it
  really holds.
\<close>

lemma pool_retention_bounded:
  assumes "malloc_ok cfg" and "\<forall>slot n. Arena slot n \<notin> set evs" and "s = run_pool cfg evs pool_init"
  shows "length (bp_bufs s) \<le> max_bufs cfg \<and> sum_list (map (\<lambda>v. snd (fst v)) (bp_bufs s)) \<le> max_bytes cfg"
proof -
  have "bounded cfg (run_pool cfg evs s0)" if "bounded cfg s0" for s0
    using that assms(2)
  proof (induction evs arbitrary: s0)
    case (Cons e evs)
    then have "bounded cfg (pool_event_step cfg e s0)" by (intro bounded_step) auto
    then show ?case using Cons.IH Cons.prems(2) by (simp add: run_pool_def)
  qed (simp add: run_pool_def)
  then have b: "bounded cfg s" unfolding assms(3) by (simp add: bounded_def pool_init_def)
  have "core (mset (bp_bufs s)) (mset (bp_handles s)) (bp_bytes s) (bp_pinned s) (pin_bytes s)"
    using run_pool_inv [OF assms(1), of evs] assms(3) by (simp add: pool_inv_def)
  then have "bp_bytes s = sum_list (map (\<lambda>v. snd (fst v)) (bp_bufs s))"
    unfolding core_def sum_mset_sum_list [symmetric] mset_map by simp
  then show ?thesis using b by (simp add: bounded_def)
qed

section \<open>Two bounds that do not hold\<close>

text \<open>
  The arena's footprint is not fixed: a request larger than the slot is allocated outside the arena
  and, in arena mode, its return is always accepted, so the pool grows beyond the bytes claimed.
\<close>

lemma arena_grows:
  assumes "POOL_MIN_BYTES \<le> slot"
  shows "pool_live_bytes (run_pool bump_cfg [Arena slot 1, Tick 0, Tick 0, Tick 0, Tick 0, Tick 0] pool_init) = slot \<and>
    pool_live_bytes (run_pool bump_cfg [With_len (slot + 1), Tick 1, Tick 1, Drop 1]
      (run_pool bump_cfg [Arena slot 1, Tick 0, Tick 0, Tick 0, Tick 0, Tick 0] pool_init)) = slot + (slot + 1)"
proof -
  have "slot \<noteq> 0" using assms by (cases "slot = 0") simp_all
  then show ?thesis using assms unfolding one_slot_arena [OF \<open>slot \<noteq> 0\<close>]
    by (simp add: run_defs bump_cfg_def pool_live_bytes_def)
qed

text \<open>
  The page-lock ceiling is checked and charged in separate atomic accesses: two allocations that
  check before either is charged both lock, and the ceiling is exceeded.
\<close>

lemma pin_ceiling_race:
  "pin_bytes (run_pool bump_cfg ([Install_hooks, Set_budget POOL_MIN_BYTES, With_len POOL_MIN_BYTES, With_len POOL_MIN_BYTES] @
      [Tick 0, Tick 1, Tick 0, Tick 1, Tick 0, Tick 1, Tick 0, Tick 1]) pool_init) = 2 * POOL_MIN_BYTES"
  by (simp add: run_defs bump_cfg_def)

end
