(* ===== verification/Http.thy ===== *)
theory Http
  imports JsonPrint Text
begin

text \<open>
  The hand-written HTTP layer of the server (\<open>coli/src/serve.rs\<close>): \<open>read_request\<close>, \<open>send_json\<close>,
  \<open>write_sse\<close> and the model's display name.

  A connection delivers some bytes and then either ends or goes silent until the 30 second read
  timeout; the flag \<open>stalls\<close> tells which.  A read error, the timeout included, ends the request, the
  inner \<open>None\<close> of \<open>read_request\<close>; the outer \<open>None\<close> is a panic, which ends the server, because it
  serves every connection on its only thread.

  The main result: a request is read back as it was sent, whatever other headers it carries.
\<close>

section \<open>Characters and lines\<close>

text \<open>The characters of a UTF-8 string.\<close>

function chars_of :: "byte_string \<Rightarrow> str" where
  "chars_of b = (if b = [] then [] else let (cp, k) = u8_next b 0 in unat cp # chars_of (drop k b))"
  by pat_completeness auto
termination
proof (relation "measure length")
  fix b :: byte_string and ck cp k assume "b \<noteq> []" "ck = u8_next b 0" "(cp, k) = ck"
  then have "1 \<le> k" "b \<noteq> []" using u8_next_pos [of b 0] by (metis snd_conv) (rule \<open>b \<noteq> []\<close>)
  then show "(drop k b, b) \<in> measure length" by simp
qed simp

declare chars_of.simps [simp del]

text \<open>\<open>BufRead::read_line\<close>: the line with its newline, and what follows; the empty line at the end of the stream.\<close>

definition read_line :: "bool \<Rightarrow> byte_string \<Rightarrow> (byte_string \<times> byte_string) option" where
  "read_line stalls s =
     (let l = takeWhile (\<lambda>c. c \<noteq> 0x0A) s; rest = dropWhile (\<lambda>c. c \<noteq> 0x0A) s
      in if rest \<noteq> [] then if utf8_valid (l @ [0x0A]) then Some (l @ [0x0A], tl rest) else None
         else if stalls then None
         else if utf8_valid l then Some (l, []) else None)"

lemma read_line_shorter:
  assumes "read_line stalls s = Some (l, rest)" "l \<noteq> []"
  shows "length rest < length s"
proof -
  let ?P = "\<lambda>c. c \<noteq> (0x0A :: u8)"
  have "length (takeWhile ?P s) + length (dropWhile ?P s) = length s" by (metis length_append takeWhile_dropWhile_id)
  then show ?thesis using assms
    by (cases "dropWhile ?P s") (auto simp: read_line_def Let_def split: if_splits)
qed

section \<open>Requests\<close>

record http_request =
  rq_method :: str
  rq_path :: str
  rq_body :: byte_string

definition eq_ignore_ascii_case :: "str \<Rightarrow> str \<Rightarrow> bool" where
  "eq_ignore_ascii_case a b \<longleftrightarrow> ascii_lower a = ascii_lower b"

text \<open>What one header line says about the length of the body; any other header leaves it.\<close>

definition header_length :: "str \<Rightarrow> nat \<Rightarrow> nat" where
  "header_length t n = (case split_once 58 t of
     Some (k, v) \<Rightarrow> if eq_ignore_ascii_case (trim k) (str_of ''content-length'')
                    then (case parse_uint (2 ^ 64) 10 (trim v) of Some m \<Rightarrow> m | None \<Rightarrow> 0) else n
   | None \<Rightarrow> n)"

function read_headers :: "bool \<Rightarrow> byte_string \<Rightarrow> nat \<Rightarrow> (nat \<times> byte_string) option" where
  "read_headers stalls s n = (case read_line stalls s of
     None \<Rightarrow> None
   | Some (h, rest) \<Rightarrow>
       if h = [] then Some (n, rest)
       else let t = trim_end (chars_of h)
         in if t = [] then Some (n, rest) else read_headers stalls rest (header_length t n))"
  by pat_completeness auto
termination
  by (relation "measure (\<lambda>(st, s, n). length s)") (auto dest: read_line_shorter)

declare read_headers.simps [simp del]

text \<open>A body longer than \<open>isize::MAX\<close> panics when its buffer is allocated.\<close>

definition read_request :: "bool \<Rightarrow> byte_string \<Rightarrow> http_request option option" where
  "read_request stalls s = (case read_line stalls s of
     None \<Rightarrow> Some None
   | Some (l, rest) \<Rightarrow>
       if l = [] then Some None
       else (case split_ws (chars_of l) of
         m # p # _ \<Rightarrow> (case read_headers stalls rest 0 of
             None \<Rightarrow> Some None
           | Some (n, rest) \<Rightarrow>
               if 2 ^ 63 \<le> n then None
               else if 0 < n \<and> length rest < n then Some None
               else Some (Some \<lparr>rq_method = m, rq_path = p, rq_body = utf8_lossy (take n rest)\<rparr>))
       | _ \<Rightarrow> Some None))"

section \<open>Responses\<close>

definition reason_of :: "nat \<Rightarrow> string" where
  "reason_of status = (if status = 200 then ''OK'' else if status = 204 then ''No Content''
     else if status = 400 then ''Bad Request'' else if status = 404 then ''Not Found''
     else if status = 500 then ''Internal Server Error'' else ''OK'')"

abbreviation crlf :: byte_string where
  "crlf \<equiv> [0x0D, 0x0A]"

definition send_json :: "nat \<Rightarrow> byte_string \<Rightarrow> byte_string" where
  "send_json status body =
     lit ''HTTP/1.1 '' @ show_digits status @ lit '' '' @ lit (reason_of status) @ crlf @
     lit ''Content-Type: application/json'' @ crlf @
     lit ''Content-Length: '' @ show_digits (length body) @ crlf @
     lit ''Access-Control-Allow-Origin: *'' @ crlf @
     lit ''Access-Control-Allow-Headers: *'' @ crlf @
     lit ''Connection: close'' @ crlf @ crlf @ body"

definition sse_event :: "byte_string \<Rightarrow> byte_string" where
  "sse_event payload = lit ''data: '' @ payload @ [0x0A, 0x0A]"

section \<open>The name of the served model\<close>

definition trim_slashes :: "str \<Rightarrow> str" where
  "trim_slashes s = rev (dropWhile (\<lambda>c. c = 47) (rev s))"

text \<open>\<open>find\<close> and \<open>replace\<close> with a literal pattern; \<open>replace\<close> goes on after the text it replaced.\<close>

definition starts_with :: "str \<Rightarrow> str \<Rightarrow> bool" where
  "starts_with pat s \<longleftrightarrow> take (length pat) s = pat"

fun find_str :: "str \<Rightarrow> str \<Rightarrow> nat option" where
  "find_str pat [] = (if pat = [] then Some 0 else None)"
| "find_str pat (c # cs) = (if starts_with pat (c # cs) then Some 0 else map_option Suc (find_str pat cs))"

fun replace_dashes :: "str \<Rightarrow> str" where
  "replace_dashes (c # d # cs) = (if c = 45 \<and> d = 45 then 47 # replace_dashes cs else c # replace_dashes (d # cs))"
| "replace_dashes cs = cs"

definition model_id_from :: "str \<Rightarrow> str" where
  "model_id_from snap =
     (let trimmed = trim_slashes snap;
          leaf = last (split_on 47 trimmed)
      in case find_str (str_of ''models--'') trimmed of
           Some pos \<Rightarrow>
             let name = replace_dashes (hd (split_on 47 (drop (pos + 8) trimmed)))
             in if name \<noteq> [] then name else leaf
         | None \<Rightarrow> leaf)"

lemma model_id_examples:
  "model_id_from (str_of ''/root/.cache/huggingface/hub/models--nvidia--GLM-5.2-NVFP4/snapshots/abc123'') = str_of ''nvidia/GLM-5.2-NVFP4''"
  "model_id_from (str_of ''/data/glm52-nvfp4/'') = str_of ''glm52-nvfp4''"
  "model_id_from (str_of ''/model'') = str_of ''model''"
  by code_simp+

section \<open>Requests round trip\<close>

definition printable :: "u8 \<Rightarrow> bool" where
  "printable c \<longleftrightarrow> 0x20 \<le> c \<and> c < 0x7F"

definition plain :: "u8 \<Rightarrow> bool" where
  "plain c \<longleftrightarrow> 0x20 < c \<and> c < 0x7F"

lemma chars_of_ascii: "list_all (\<lambda>c. c < 0x80) b \<Longrightarrow> chars_of b = map unat b"
proof (induction b)
  case (Cons c b)
  then show ?case by (subst chars_of.simps) (simp add: u8_next_one unat_simps)
qed (simp add: chars_of.simps)

lemma plain_ascii: "plain c \<Longrightarrow> c < 0x80"
  by (simp add: plain_def word_less_nat_alt)

lemma plain_not_ws: "plain c \<Longrightarrow> \<not> is_ws (unat c)"
  by (auto simp: plain_def is_ws_def word_less_nat_alt)

lemma trim_end_crlf [simp]: "trim_end (xs @ [13, 10]) = trim_end xs"
  by (simp add: trim_end_def is_ws_def)

lemma trim_end_solid: "xs = [] \<or> \<not> is_ws (last xs) \<Longrightarrow> trim_end xs = xs"
  by (cases xs rule: rev_cases) (simp_all add: trim_end_def)

lemma trim_solid: "xs \<noteq> [] \<Longrightarrow> \<not> is_ws (hd xs) \<Longrightarrow> \<not> is_ws (last xs) \<Longrightarrow> trim xs = xs"
  by (cases xs rule: rev_cases) (auto simp: trim_def neq_Nil_conv hd_append split: if_splits)

lemma read_line_ascii:
  assumes "list_all (\<lambda>c. c < 0x80) l" "0x0A \<notin> set l"
  shows "read_line stalls (l @ 0x0A # rest) = Some (l @ [0x0A], rest)"
proof -
  have "takeWhile (\<lambda>c. c \<noteq> 0x0A) (l @ 0x0A # rest) = l" "dropWhile (\<lambda>c. c \<noteq> 0x0A) (l @ 0x0A # rest) = 0x0A # rest"
    using assms(2) by (auto simp: takeWhile_append dropWhile_append)
  moreover have "utf8_valid (l @ [0x0A])" using assms(1) by (intro utf8_valid_ascii) simp
  ultimately show ?thesis by (simp add: read_line_def)
qed

text \<open>A header that the server skips: visible ASCII and blanks, not blank altogether, not naming the body's length.\<close>

definition plain_header :: "byte_string \<Rightarrow> bool" where
  "plain_header h \<longleftrightarrow> list_all printable h \<and> trim_end (map unat h) \<noteq> [] \<and>
     (case split_once 58 (trim_end (map unat h)) of
        Some (k, v) \<Rightarrow> \<not> eq_ignore_ascii_case (trim k) (str_of ''content-length'') | None \<Rightarrow> True)"

definition render_request :: "byte_string \<Rightarrow> byte_string \<Rightarrow> byte_string list \<Rightarrow> byte_string \<Rightarrow> byte_string" where
  "render_request m p hs body =
     m @ lit '' '' @ p @ lit '' HTTP/1.1'' @ crlf @ concat (map (\<lambda>h. h @ crlf) hs) @
     lit ''Content-Length: '' @ show_digits (length body) @ crlf @ crlf @ body"

lemma printable_ascii:
  assumes "list_all printable h"
  shows "list_all (\<lambda>c. c < 0x80) h" "0x0A \<notin> set h"
  using assms by (auto simp: list_all_iff printable_def word_less_nat_alt word_le_nat_alt)

lemma plain_printable: "list_all plain w \<Longrightarrow> list_all printable w"
  by (auto simp: list_all_iff plain_def printable_def)

lemma crlf_line:
  assumes "list_all printable h"
  shows "read_line stalls (h @ crlf @ rest) = Some (h @ crlf, rest)" "chars_of (h @ crlf) = map unat h @ [13, 10]"
proof -
  have "list_all (\<lambda>c. c < 0x80) (h @ [0x0D])" "0x0A \<notin> set (h @ [0x0D])" using printable_ascii [OF assms] by simp_all
  from read_line_ascii [OF this, of stalls rest] show "read_line stalls (h @ crlf @ rest) = Some (h @ crlf, rest)" by simp
  show "chars_of (h @ crlf) = map unat h @ [13, 10]" using printable_ascii [OF assms] by (simp add: chars_of_ascii)
qed

lemma read_headers_line:
  assumes "list_all printable h" "trim_end (map unat h) \<noteq> []"
  shows "read_headers stalls (h @ crlf @ rest) n = read_headers stalls rest (header_length (trim_end (map unat h)) n)"
  by (subst read_headers.simps) (simp add: crlf_line [OF assms(1), simplified] assms(2) Let_def)

lemma read_headers_plain:
  "list_all plain_header hs \<Longrightarrow> read_headers stalls (concat (map (\<lambda>h. h @ crlf) hs) @ rest) n = read_headers stalls rest n"
proof (induction hs)
  case (Cons h hs)
  then have "header_length (trim_end (map unat h)) n = n" by (auto simp: plain_header_def header_length_def split: option.splits)
  then show ?case using Cons read_headers_line [of h stalls "concat (map (\<lambda>h. h @ crlf) hs) @ rest" n] by (simp add: plain_header_def)
qed simp

lemma unat_digits: "map unat (show_digits n) = show_dec n"
proof -
  have "unat (of_nat c :: u8) = c" if "c \<in> set (show_dec n)" for c using show_dec_digits [OF that] by (simp add: unat_of_nat)
  then show ?thesis by (simp add: show_digits_def map_idI)
qed

lemma digits_solid: "c \<in> set (show_dec n) \<Longrightarrow> \<not> is_ws c"
  using show_dec_digits [of c n] by (auto simp: is_ws_def)

lemma length_header:
  assumes "n < 2 ^ 64"
  defines "h \<equiv> lit ''Content-Length: '' @ show_digits n"
  shows "list_all printable h" "trim_end (map unat h) \<noteq> []" "header_length (trim_end (map unat h)) k = n"
proof -
  have dig: "printable d" if "d \<in> set (show_digits n)" for d
  proof -
    have "unat d \<in> set (show_dec n)" using that unat_digits [of n] by (metis image_eqI list.set_map)
    from show_dec_digits [OF this] show ?thesis by (simp add: printable_def word_le_nat_alt word_less_nat_alt)
  qed
  have "list_all printable (lit ''Content-Length: '')" by code_simp
  then show "list_all printable h" using dig by (auto simp: h_def list_all_iff)
  have ne: "show_dec n \<noteq> []" by (subst show_dec.simps) simp
  have u: "map unat h = str_of ''Content-Length: '' @ show_dec n"
    by (simp add: h_def unat_digits) code_simp
  have "\<not> is_ws (last (map unat h))" using ne digits_solid [OF last_in_set [OF ne]] by (simp add: u)
  then have t: "trim_end (map unat h) = str_of ''Content-Length: '' @ show_dec n"
    unfolding u by (intro trim_end_solid) simp
  then show "trim_end (map unat h) \<noteq> []" by (simp add: str_of_def)
  have "split_once 58 (str_of ''Content-Length: '' @ show_dec n) = Some (str_of ''Content-Length'', 32 # show_dec n)"
    by (simp add: split_once_def str_of_def)
  moreover have "eq_ignore_ascii_case (trim (str_of ''Content-Length'')) (str_of ''content-length'')" by code_simp
  moreover have "trim (32 # show_dec n) = show_dec n"
  proof -
    have "trim (32 # show_dec n) = trim (show_dec n)" by (simp add: trim_def is_ws_def)
    then show ?thesis using trim_solid [OF ne] digits_solid hd_in_set [OF ne] last_in_set [OF ne] by metis
  qed
  ultimately show "header_length (trim_end (map unat h)) k = n"
    using parse_show_dec [OF assms(1)] by (simp add: t header_length_def)
qed

lemma read_headers_rendered:
  assumes "list_all plain_header hs" "n < 2 ^ 64"
  shows "read_headers stalls (concat (map (\<lambda>h. h @ crlf) hs) @ lit ''Content-Length: '' @ show_digits n @ crlf @ crlf @ rest) 0 = Some (n, rest)"
proof -
  have end_of: "read_headers stalls (crlf @ rest) k = Some (k, rest)" for k
    using crlf_line(1) [of "[]" stalls rest] crlf_line(2) [of "[]"] by (subst read_headers.simps) (simp add: trim_end_def is_ws_def)
  let ?h = "lit ''Content-Length: '' @ show_digits n"
  have "read_headers stalls (?h @ crlf @ crlf @ rest) 0 = read_headers stalls (crlf @ rest) n"
    using read_headers_line [of ?h stalls "crlf @ rest" 0] length_header [OF assms(2)] by simp
  with read_headers_plain [OF assms(1)] end_of show ?thesis by simp
qed

lemma request_line:
  assumes "m \<noteq> []" "list_all plain m" "p \<noteq> []" "list_all plain p"
  defines "l \<equiv> m @ lit '' '' @ p @ lit '' HTTP/1.1'' @ crlf"
  shows "read_line stalls (m @ lit '' '' @ p @ lit '' HTTP/1.1'' @ crlf @ rest) = Some (l, rest)"
    "l \<noteq> []" "split_ws (chars_of l) = map unat m # map unat p # split_ws (str_of ''HTTP/1.1'' @ [13, 10])"
proof -
  let ?l = "m @ lit '' '' @ p @ lit '' HTTP/1.1''"
  have "list_all printable (lit '' '')" "list_all printable (lit '' HTTP/1.1'')" by code_simp+
  then have pr: "list_all printable ?l" using assms(2,4) [THEN plain_printable] by simp
  from crlf_line(1) [OF this, of stalls rest]
  show "read_line stalls (m @ lit '' '' @ p @ lit '' HTTP/1.1'' @ crlf @ rest) = Some (l, rest)" by (simp add: l_def)
  show "l \<noteq> []" by (simp add: l_def)
  have solid: "\<forall>c\<in>set (map unat w). \<not> is_ws c" if "list_all plain w" for w
    using that plain_not_ws by (auto simp: list_all_iff)
  have u: "map unat ?l @ [13, 10] = map unat m @ 32 # map unat p @ 32 # (str_of ''HTTP/1.1'' @ [13, 10])"
    by (simp add: lit_def str_of_def unat_of_nat)
  have w: "is_ws 32" by (simp add: is_ws_def)
  have "split_ws (map unat ?l @ [13, 10]) = map unat m # map unat p # split_ws (str_of ''HTTP/1.1'' @ [13, 10])"
    unfolding u using assms(1-4) solid w
    by (simp add: split_ws_word [of "map unat m"] split_ws_word [of "map unat p"] split_ws_skip)
  then show "split_ws (chars_of l) = map unat m # map unat p # split_ws (str_of ''HTTP/1.1'' @ [13, 10])"
    using crlf_line(2) [OF pr] by (simp add: l_def)
qed

text \<open>
  A request is read back as it was sent: the method, the path, and the body, whatever bytes it is
  made of (up to the lossy reading of what is not UTF-8), with any other headers before the one that
  gives the length, and whatever the client sends after it.
\<close>

lemma read_whole_request:
  assumes "m \<noteq> []" "list_all plain m" "p \<noteq> []" "list_all plain p"
    and "list_all plain_header hs" and "length body < 2 ^ 63"
  shows "read_request stalls (render_request m p hs body @ later)
    = Some (Some \<lparr>rq_method = map unat m, rq_path = map unat p, rq_body = utf8_lossy body\<rparr>)"
proof -
  have "length body < 2 ^ 64" using assms(6) by simp
  note read_headers_rendered [OF assms(5) this, of stalls "body @ later"]
  moreover have "render_request m p hs body @ later = m @ lit '' '' @ p @ lit '' HTTP/1.1'' @ crlf @
      concat (map (\<lambda>h. h @ crlf) hs) @ lit ''Content-Length: '' @ show_digits (length body) @ crlf @ crlf @ body @ later"
    by (simp add: render_request_def)
  ultimately show ?thesis
    using request_line [OF assms(1-4)] assms(6) by (simp add: read_request_def)
qed

text \<open>
  The length is trusted before anything is read: a request of one line and one header ends the
  server, from a client that has sent no body at all.
\<close>

lemma huge_length_panics:
  assumes "m \<noteq> []" "list_all plain m" "p \<noteq> []" "list_all plain p" and "2 ^ 63 \<le> n" "n < 2 ^ 64"
  shows "read_request stalls (m @ lit '' '' @ p @ lit '' HTTP/1.1'' @ crlf @ lit ''Content-Length: '' @ show_digits n @ crlf @ crlf) = None"
  using request_line [OF assms(1-4)] read_headers_rendered [of "[]" n stalls "[]"] assms(5,6)
  by (simp add: read_request_def)

text \<open>The status line of the two refusals for lack of memory says OK.\<close>

lemma refusal_reason: "reason_of 503 = ''OK''" "reason_of 507 = ''OK''"
  by (simp_all add: reason_of_def)

end
