(* ===== verification/Bpe.thy ===== *)
theory Bpe
  imports Utf8
begin

text \<open>
  Byte-pair encoding of one piece (\<open>bpe_piece\<close> of \<open>colibri-tokenizer\<close>): the ByteLevel byte map,
  the initial symbols, and the loop that fuses the adjacent pair of lowest rank, on the two index
  arrays \<open>soff\<close> and \<open>slen\<close> of the code.  The loop refines byte-pair encoding on a list of strings,
  and the symbols always concatenate to the piece.

  A token id is an \<open>i32\<close>, modelled as an \<^typ>\<open>int\<close>; a hash map is a partial function.
\<close>

type_synonym i32 = int

definition i32_max :: int where "i32_max = 2 ^ 31 - 1"

section \<open>The byte map\<close>

definition isdir :: "nat \<Rightarrow> bool" where
  "isdir b \<longleftrightarrow> 33 \<le> b \<and> b \<le> 126 \<or> 161 \<le> b \<and> b \<le> 172 \<or> 174 \<le> b \<and> b \<le> 255"

fun bytemap_step :: "nat \<Rightarrow> byte_string list \<times> int list \<times> u32 \<Rightarrow> byte_string list \<times> int list \<times> u32" where
  "bytemap_step b (byte2str, cp2byte, n) =
     (let (cp, n') = (if isdir b then (of_nat b, n) else (256 + n, n + 1)) in
      (byte2str @ [u8_put cp],
       if cp < 1024 then cp2byte[unat cp := int b] else cp2byte, n'))"

definition build_bytemap :: "byte_string list \<times> int list" where
  "build_bytemap = (let (byte2str, cp2byte, n) =
     fold bytemap_step [0..<256] ([], replicate 1024 (- 1), 0) in (byte2str, cp2byte))"

section \<open>Merging\<close>

definition merge_key :: "byte_string \<Rightarrow> byte_string \<Rightarrow> byte_string" where
  "merge_key l r = l @ [0] @ r"

text \<open>\<open>&s[o..o + l]\<close>\<close>

definition sub :: "byte_string \<Rightarrow> nat \<Rightarrow> nat \<Rightarrow> byte_string" where
  "sub s off l = take l (drop off s)"

text \<open>\<open>Vec::remove\<close>\<close>

definition vec_remove :: "nat \<Rightarrow> 'a list \<Rightarrow> 'a list" where
  "vec_remove i xs = take i xs @ drop (Suc i) xs"

text \<open>the initial symbols: the codepoints of the byte-level string\<close>

function symbols_from :: "byte_string \<Rightarrow> nat \<Rightarrow> (nat \<times> nat) list" where
  "symbols_from s i =
     (if i < length s then let k = snd (u8_next s i) in (i, k) # symbols_from s (i + k) else [])"
  by pat_completeness auto
termination
proof (relation "measure (\<lambda>(s, i). length s - i)")
  fix s :: byte_string and i k assume "i < length s" "k = snd (u8_next s i)"
  then show "((s, i + k), s, i) \<in> measure (\<lambda>(s, i). length s - i)" using u8_next_pos [of s i] by simp
qed simp

declare symbols_from.simps [simp del]

text \<open>the scan for the adjacent pair of lowest rank\<close>

definition best_merge ::
  "(byte_string \<rightharpoonup> i32) \<Rightarrow> byte_string \<Rightarrow> nat list \<Rightarrow> nat list \<Rightarrow> int \<times> int" where
  "best_merge merges s soff slen =
     fold (\<lambda>i (best, bp).
         case merges (merge_key (sub s (soff ! i) (slen ! i)) (sub s (soff ! (i + 1)) (slen ! (i + 1)))) of
           Some rk \<Rightarrow> if rk < best then (rk, int i) else (best, bp)
         | None \<Rightarrow> (best, bp))
       [0..<length soff - 1] (i32_max, - 1)"

lemma best_merge_range:
  assumes "best_merge merges s soff slen = (best, bp)"
  shows "bp < 0 \<or> nat bp + 1 < length soff"
proof -
  let ?f = "\<lambda>i (best, bp).
         case merges (merge_key (sub s (soff ! i) (slen ! i)) (sub s (soff ! (i + 1)) (slen ! (i + 1)))) of
           Some rk \<Rightarrow> if rk < best then (rk, int i) else (best, bp)
         | None \<Rightarrow> (best, bp)"
  have "snd (fold ?f xs st) < 0 \<or> nat (snd (fold ?f xs st)) < m"
    if "\<forall>x\<in>set xs. x < m" "snd st < 0 \<or> nat (snd st) < m" for xs m st
    using that
  proof (induction xs arbitrary: st)
    case (Cons x xs)
    obtain b p where "st = (b, p)" by force
    with Cons show ?case by (auto split: option.split)
  qed simp
  from this [of "[0..<length soff - 1]" "length soff - 1" "(i32_max, - 1)"] assms
  show ?thesis by (auto simp: best_merge_def)
qed

function merge_loop ::
  "(byte_string \<rightharpoonup> i32) \<Rightarrow> byte_string \<Rightarrow> nat list \<Rightarrow> nat list \<Rightarrow> nat list \<times> nat list" where
  "merge_loop merges s soff slen =
     (let (best, bp) = best_merge merges s soff slen in
      if bp < 0 then (soff, slen)
      else let b = nat bp;
               slen' = slen[b := soff ! (b + 1) + slen ! (b + 1) - soff ! b]
           in merge_loop merges s (vec_remove (b + 1) soff) (vec_remove (b + 1) slen'))"
  by pat_completeness auto
termination
proof (relation "measure (\<lambda>(merges, s, soff, slen). length soff)", goal_cases)
  case (2 merges s soff slen x best bp b slen')
  then show ?case
    using best_merge_range [of merges s soff slen best bp] by (auto simp: vec_remove_def)
qed simp

declare merge_loop.simps [simp del]

record special =
  sp_bytes :: byte_string
  sp_id :: i32

datatype pre_tok = Cl100k | KimiK3

record tokenizer =
  tk_vocab :: "byte_string \<rightharpoonup> i32"
  tk_merges :: "byte_string \<rightharpoonup> i32"
  tk_id2str :: "byte_string option list"
  tk_id_added :: "bool list"
  tk_specials :: "special list"
  tk_byte2str :: "byte_string list"
  tk_cp2byte :: "int list"
  tk_pretok :: pre_tok

text \<open>\<open>bpe_piece\<close> on the span \<open>p[a..b)\<close>, appending to \<open>out\<close>\<close>

definition byte_level :: "tokenizer \<Rightarrow> byte_string \<Rightarrow> byte_string" where
  "byte_level t bs = concat (map (\<lambda>b. tk_byte2str t ! unat b) bs)"

definition bpe_piece :: "tokenizer \<Rightarrow> byte_string \<Rightarrow> nat \<Rightarrow> nat \<Rightarrow> i32 list \<Rightarrow> i32 list" where
  "bpe_piece t p a b out =
     (let s = byte_level t (sub p a (b - a)) in
      case tk_vocab t s of
        Some i \<Rightarrow> out @ [i]
      | None \<Rightarrow>
          let syms = symbols_from s 0;
              (soff, slen) = merge_loop (tk_merges t) s (map fst syms) (map snd syms)
          in fold (\<lambda>i out. case tk_vocab t (sub s (soff ! i) (slen ! i)) of
                 Some v \<Rightarrow> out @ [v] | None \<Rightarrow> out) [0..<length soff] out)"

section \<open>The byte map is a bijection\<close>

definition nondir :: "nat \<Rightarrow> nat" where
  "nondir m = length (filter (\<lambda>c. \<not> isdir c) [0..<m])"

text \<open>the codepoint that stands for a byte\<close>

definition byte_cp :: "nat \<Rightarrow> nat" where
  "byte_cp b = (if isdir b then b else 256 + nondir b)"

lemma nondir_Suc: "nondir (Suc m) = (if isdir m then nondir m else Suc (nondir m))"
  by (simp add: nondir_def)

lemma nondir_mono: "a \<le> b \<Longrightarrow> nondir a \<le> nondir b"
  by (induction b rule: dec_induct) (auto simp: nondir_Suc)

lemma nondir_le: "nondir m \<le> m"
  by (induction m) (auto simp: nondir_Suc, simp add: nondir_def)

lemma byte_cp_bound: "b < 256 \<Longrightarrow> byte_cp b < 512"
  using nondir_le [of b] by (auto simp: byte_cp_def)

lemma byte_cp_less_ne:
  assumes "j < k" "k < 256" shows "byte_cp j \<noteq> byte_cp k"
proof -
  have "nondir j < nondir k" if "\<not> isdir j"
    using nondir_mono [of "Suc j" k] assms that by (simp add: nondir_Suc)
  then show ?thesis using assms by (auto simp: byte_cp_def)
qed

lemma byte_cp_inj: "j < 256 \<Longrightarrow> k < 256 \<Longrightarrow> byte_cp j = byte_cp k \<Longrightarrow> j = k"
  using byte_cp_less_ne by (metis linorder_neqE_nat)

lemma bytemap_fold:
  assumes "m \<le> 256"
  shows "\<exists>cps. fold bytemap_step [0..<m] ([], replicate 1024 (- 1), 0) =
      (map (\<lambda>k. u8_put (of_nat (byte_cp k))) [0..<m], cps, of_nat (nondir m)) \<and>
    length cps = 1024 \<and> (\<forall>k<m. cps ! byte_cp k = int k)"
  using assms
proof (induction m)
  case 0
  then show ?case by (simp add: nondir_def)
next
  case (Suc m)
  then obtain cps where ih: "fold bytemap_step [0..<m] ([], replicate 1024 (- 1), 0) =
      (map (\<lambda>k. u8_put (of_nat (byte_cp k))) [0..<m], cps, of_nat (nondir m))"
    and cps: "length cps = 1024" "\<forall>k<m. cps ! byte_cp k = int k" by auto
  have b: "byte_cp m < 512" using Suc.prems by (intro byte_cp_bound) simp
  have cp: "(if isdir m then (of_nat m, of_nat (nondir m)) else (256 + of_nat (nondir m), of_nat (nondir m) + 1))
      = (of_nat (byte_cp m) :: u32, of_nat (nondir (Suc m)) :: u32)"
    by (simp add: byte_cp_def nondir_Suc)
  have u: "unat (of_nat (byte_cp m) :: u32) = byte_cp m" using b by (simp add: unat_of_nat)
  then have "(of_nat (byte_cp m) :: u32) < 1024" using b by (simp add: word_less_nat_alt)
  with ih cp u have "fold bytemap_step [0..<Suc m] ([], replicate 1024 (- 1), 0) =
      (map (\<lambda>k. u8_put (of_nat (byte_cp k))) [0..<Suc m], cps[byte_cp m := int m], of_nat (nondir (Suc m)))"
    by simp
  moreover have "(cps[byte_cp m := int m]) ! byte_cp k = int k" if "k < Suc m" for k
  proof (cases "k = m")
    case True
    with cps b show ?thesis by simp
  next
    case False
    with that have "byte_cp k \<noteq> byte_cp m" using byte_cp_less_ne [of k m] Suc.prems by simp
    with cps False that show ?thesis by simp
  qed
  ultimately show ?case using cps by (intro exI [of _ "cps[byte_cp m := int m]"]) simp
qed

lemma build_bytemap_facts:
  "fst build_bytemap = map (\<lambda>k. u8_put (of_nat (byte_cp k))) [0..<256]"
  "\<forall>k<256. snd build_bytemap ! byte_cp k = int k"
  using bytemap_fold [of 256] unfolding build_bytemap_def by auto

text \<open>A tokenizer whose byte map is the one \<open>from_json\<close> installs.\<close>

definition bytemap_ok :: "tokenizer \<Rightarrow> bool" where
  "bytemap_ok t \<longleftrightarrow> tk_byte2str t = fst build_bytemap \<and> tk_cp2byte t = snd build_bytemap"

text \<open>the byte-level form of one byte\<close>

definition byte_str :: "u8 \<Rightarrow> byte_string" where
  "byte_str b = u8_put (of_nat (byte_cp (unat b)))"

lemma unat_u8_less: "unat (b :: u8) < 256"
  using unat_lt_pow [of b] by simp

lemma byte_level_ok: "bytemap_ok t \<Longrightarrow> byte_level t bs = concat (map byte_str bs)"
proof -
  assume "bytemap_ok t"
  then have "tk_byte2str t = map (\<lambda>k. u8_put (of_nat (byte_cp k))) [0..<256]"
    by (simp only: bytemap_ok_def build_bytemap_facts)
  then have "tk_byte2str t ! unat b = byte_str b" for b
    using unat_u8_less [of b] by (simp add: byte_str_def)
  then show ?thesis by (simp add: byte_level_def)
qed

lemma byte_cp_u32: "unat (of_nat (byte_cp (unat (b :: u8))) :: u32) = byte_cp (unat b)"
  using byte_cp_bound [OF unat_u8_less, of b] by (simp add: unat_of_nat)

text \<open>A byte's form is read as one codepoint, which leads back to the byte.\<close>

lemma byte_str_next:
  "u8_next (pre @ byte_str b @ post) (length pre) = (of_nat (byte_cp (unat b)), length (byte_str b))"
proof -
  have "(of_nat (byte_cp (unat b)) :: u32) < 0x110000"
    using byte_cp_u32 [of b] byte_cp_bound [OF unat_u8_less, of b] by (simp add: word_less_nat_alt)
  then show ?thesis unfolding byte_str_def by (rule u8_next_put)
qed

lemma cp2byte_ok:
  assumes "bytemap_ok t"
  shows "of_nat (byte_cp (unat b)) < (1024 :: u32)"
    and "tk_cp2byte t ! unat (of_nat (byte_cp (unat b)) :: u32) = int (unat (b :: u8))"
proof -
  have "\<forall>k<256. tk_cp2byte t ! byte_cp k = int k"
    using assms build_bytemap_facts(2) by (simp only: bytemap_ok_def)
  with unat_u8_less [of b] show "tk_cp2byte t ! unat (of_nat (byte_cp (unat b)) :: u32) = int (unat b)"
    by (simp only: byte_cp_u32)
  show "of_nat (byte_cp (unat b)) < (1024 :: u32)"
    using byte_cp_u32 [of b] byte_cp_bound [OF unat_u8_less, of b] by (simp add: word_less_nat_alt)
qed

lemma byte_str_length: "0 < length (byte_str b)"
  using u8_put_length(1) [of "of_nat (byte_cp (unat b))"] unfolding byte_str_def by linarith

section \<open>Index arrays and lists of strings\<close>

text \<open>The offsets and lengths of consecutive strings from position \<open>i\<close>.\<close>

fun symbol_slots :: "nat \<Rightarrow> byte_string list \<Rightarrow> (nat \<times> nat) list" where
  "symbol_slots i [] = []"
| "symbol_slots i (x # xs) = (i, length x) # symbol_slots (i + length x) xs"

lemma length_symbol_slots [simp]: "length (symbol_slots i xs) = length xs"
  by (induction xs arbitrary: i) auto

lemma symbol_slots_append: "symbol_slots i (xs @ ys) = symbol_slots i xs @ symbol_slots (i + length (concat xs)) ys"
  by (induction xs arbitrary: i) (auto simp: add.assoc)

lemma symbol_slots_nth:
  "k < length xs \<Longrightarrow> symbol_slots i xs ! k = (i + length (concat (take k xs)), length (xs ! k))"
proof (induction xs arbitrary: i k)
  case (Cons x xs)
  then show ?case by (cases k) (auto simp: add.assoc)
qed simp

lemma sub_symbol_slots:
  assumes "k < length xs"
  shows "sub (concat xs) (fst (symbol_slots 0 xs ! k)) (snd (symbol_slots 0 xs ! k)) = xs ! k"
proof -
  have "concat xs = concat (take k xs) @ xs ! k @ concat (drop (Suc k) xs)"
    using id_take_nth_drop [OF assms] by (metis concat.simps(2) concat_append)
  then show ?thesis using assms by (simp add: symbol_slots_nth sub_def)
qed

text \<open>Fusing two neighbours on the arrays is concatenating them in the list.\<close>

definition fuse :: "nat \<Rightarrow> byte_string list \<Rightarrow> byte_string list" where
  "fuse k xs = take k xs @ [xs ! k @ xs ! (k + 1)] @ drop (k + 2) xs"

lemma split_at_pair:
  assumes "k + 1 < length xs"
  obtains A x y B where "xs = A @ x # y # B" and "length A = k"
proof
  show "xs = take k xs @ xs ! k # xs ! (k + 1) # drop (k + 2) xs"
    using assms by (simp add: Cons_nth_drop_Suc)
  show "length (take k xs) = k" using assms by simp
qed

lemma fuse_split: "fuse (length A) (A @ x # y # B) = A @ (x @ y) # B"
  by (simp add: fuse_def nth_append)

lemma concat_fuse: "k + 1 < length xs \<Longrightarrow> concat (fuse k xs) = concat xs"
  by (elim split_at_pair) (auto simp: fuse_split)

lemma length_fuse: "k + 1 < length xs \<Longrightarrow> length (fuse k xs) < length xs"
  by (elim split_at_pair) (auto simp: fuse_split)

lemma fuse_symbol_slots:
  assumes "k + 1 < length xs"
  defines "soff \<equiv> map fst (symbol_slots 0 xs)" and "slen \<equiv> map snd (symbol_slots 0 xs)"
  shows "vec_remove (k + 1) soff = map fst (symbol_slots 0 (fuse k xs))"
    and "vec_remove (k + 1) (slen[k := soff ! (k + 1) + slen ! (k + 1) - soff ! k])
      = map snd (symbol_slots 0 (fuse k xs))"
proof -
  obtain A x y B where xs: "xs = A @ x # y # B" "length A = k" by (rule split_at_pair [OF assms(1)])
  let ?o = "length (concat A)"
  have lay: "symbol_slots 0 xs = symbol_slots 0 A @ (?o, length x) # (?o + length x, length y)
      # symbol_slots (?o + length x + length y) B"
    by (simp add: xs symbol_slots_append)
  have fused: "symbol_slots 0 (fuse k xs) = symbol_slots 0 A @ (?o, length x + length y)
      # symbol_slots (?o + length x + length y) B"
    using xs by (auto simp: fuse_split symbol_slots_append add.assoc)
  show "vec_remove (k + 1) soff = map fst (symbol_slots 0 (fuse k xs))"
    unfolding soff_def lay fused using xs(2) by (simp add: vec_remove_def)
  have "soff ! (k + 1) + slen ! (k + 1) - soff ! k = length x + length y"
    unfolding soff_def slen_def lay using xs(2) by (simp add: nth_append)
  then show "vec_remove (k + 1) (slen[k := soff ! (k + 1) + slen ! (k + 1) - soff ! k])
      = map snd (symbol_slots 0 (fuse k xs))"
    unfolding slen_def lay fused using xs(2) by (simp add: vec_remove_def list_update_append)
qed

section \<open>Reference byte-pair encoding\<close>

text \<open>
  The adjacent pairs that have a rank, with their positions; the pair to fuse is the leftmost of
  lowest rank.
\<close>

definition ranked_pairs :: "(byte_string \<rightharpoonup> i32) \<Rightarrow> byte_string list \<Rightarrow> nat list \<Rightarrow> (nat \<times> i32) list" where
  "ranked_pairs merges xs is =
     concat (map (\<lambda>i. case merges (merge_key (xs ! i) (xs ! (i + 1))) of
         Some rk \<Rightarrow> if rk < i32_max then [(i, rk)] else [] | None \<Rightarrow> []) is)"

definition best_pair :: "(byte_string \<rightharpoonup> i32) \<Rightarrow> byte_string list \<Rightarrow> nat option" where
  "best_pair merges xs = map_option fst (first_min snd (ranked_pairs merges xs [0..<length xs - 1]))"

lemma ranked_pairs_in: "(i, rk) \<in> set (ranked_pairs merges xs is) \<Longrightarrow> i \<in> set is"
  by (auto simp: ranked_pairs_def split: option.splits if_splits)

lemma best_pair_bound: "best_pair merges xs = Some i \<Longrightarrow> i + 1 < length xs"
proof -
  assume "best_pair merges xs = Some i"
  then obtain rk where m: "first_min snd (ranked_pairs merges xs [0..<length xs - 1]) = Some (i, rk)"
    by (auto simp: best_pair_def)
  then have "(i, rk) \<in> set (ranked_pairs merges xs [0..<length xs - 1])" by (rule first_min_Some)
  then show ?thesis by (auto dest: ranked_pairs_in)
qed

function bpe_ref :: "(byte_string \<rightharpoonup> i32) \<Rightarrow> byte_string list \<Rightarrow> byte_string list" where
  "bpe_ref merges xs =
     (case best_pair merges xs of None \<Rightarrow> xs | Some i \<Rightarrow> bpe_ref merges (fuse i xs))"
  by pat_completeness auto
termination
  by (relation "measure (\<lambda>(merges, xs). length xs)") (auto dest!: best_pair_bound length_fuse)

declare bpe_ref.simps [simp del]

lemma concat_bpe_ref: "concat (bpe_ref merges xs) = concat xs"
proof (induction merges xs rule: bpe_ref.induct)
  case (1 merges xs)
  then show ?case
    by (subst bpe_ref.simps) (auto simp: concat_fuse dest: best_pair_bound split: option.split)
qed

lemma bpe_ref_normal: "best_pair merges (bpe_ref merges xs) = None"
proof (induction merges xs rule: bpe_ref.induct)
  case (1 merges xs)
  then show ?case by (cases "best_pair merges xs") (simp_all add: bpe_ref.simps [of merges xs])
qed

section \<open>The loop refines the reference\<close>

fun scan_step ::
  "(byte_string \<rightharpoonup> i32) \<Rightarrow> byte_string list \<Rightarrow> nat \<Rightarrow> int \<times> int \<Rightarrow> int \<times> int" where
  "scan_step merges xs i (best, bp) = (case merges (merge_key (xs ! i) (xs ! (i + 1))) of
     Some rk \<Rightarrow> if rk < best then (rk, int i) else (best, bp) | None \<Rightarrow> (best, bp))"

lemma scan_from_candidate:
  assumes "rk0 < i32_max"
  shows "fold (scan_step merges xs) is (rk0, int i0) =
    (let (i, rk) = first_min_from snd (i0, rk0) (ranked_pairs merges xs is) in (rk, int i))"
  using assms
proof (induction "is" arbitrary: i0 rk0)
  case Nil
  then show ?case by (simp add: ranked_pairs_def)
next
  case (Cons i "is")
  then show ?case
    by (cases "merges (merge_key (xs ! i) (xs ! (i + 1)))") (auto simp: ranked_pairs_def)
qed

lemma scan_from_sentinel:
  "fold (scan_step merges xs) is (i32_max, - 1) =
    (case first_min snd (ranked_pairs merges xs is) of
       None \<Rightarrow> (i32_max, - 1) | Some (i, rk) \<Rightarrow> (rk, int i))"
proof (induction "is")
  case Nil
  then show ?case by (simp add: ranked_pairs_def)
next
  case (Cons i "is")
  show ?case
  proof (cases "merges (merge_key (xs ! i) (xs ! (i + 1)))")
    case None
    with Cons show ?thesis by (simp add: ranked_pairs_def)
  next
    case (Some rk)
    show ?thesis
    proof (cases "rk < i32_max")
      case True
      then have "ranked_pairs merges xs (i # is) = (i, rk) # ranked_pairs merges xs is"
        using Some by (simp add: ranked_pairs_def)
      with Some True scan_from_candidate [OF True, of merges xs "is" i] show ?thesis
        by (simp add: case_prod_beta)
    next
      case False
      with Some Cons show ?thesis by (simp add: ranked_pairs_def)
    qed
  qed
qed

lemma best_merge_symbol_slots:
  "best_merge merges (concat xs) (map fst (symbol_slots 0 xs)) (map snd (symbol_slots 0 xs)) =
    fold (scan_step merges xs) [0..<length xs - 1] (i32_max, - 1)"
  unfolding best_merge_def
  by (rule fold_cong) (auto simp: sub_symbol_slots fun_eq_iff)

lemma merge_loop_refines:
  "merge_loop merges (concat xs) (map fst (symbol_slots 0 xs)) (map snd (symbol_slots 0 xs)) =
    (map fst (symbol_slots 0 (bpe_ref merges xs)), map snd (symbol_slots 0 (bpe_ref merges xs)))"
proof (induction merges xs rule: bpe_ref.induct)
  case (1 merges xs)
  let ?soff = "map fst (symbol_slots 0 xs)" and ?slen = "map snd (symbol_slots 0 xs)"
  have scan: "best_merge merges (concat xs) ?soff ?slen =
      (case first_min snd (ranked_pairs merges xs [0..<length xs - 1]) of
         None \<Rightarrow> (i32_max, - 1) | Some (i, rk) \<Rightarrow> (rk, int i))"
    by (simp only: best_merge_symbol_slots scan_from_sentinel)
  show ?case
  proof (cases "first_min snd (ranked_pairs merges xs [0..<length xs - 1])")
    case None
    then have "bpe_ref merges xs = xs" by (simp add: bpe_ref.simps best_pair_def)
    with None scan show ?thesis by (subst merge_loop.simps) simp
  next
    case (Some m)
    obtain i rk where m: "m = (i, rk)" by force
    have bp: "best_pair merges xs = Some i" using Some m by (simp add: best_pair_def)
    then have i: "i + 1 < length xs" by (rule best_pair_bound)
    have "merge_loop merges (concat xs) ?soff ?slen =
        merge_loop merges (concat (fuse i xs)) (map fst (symbol_slots 0 (fuse i xs))) (map snd (symbol_slots 0 (fuse i xs)))"
      using scan Some m fuse_symbol_slots [OF i] concat_fuse [OF i]
      by (subst merge_loop.simps) simp
    also have "\<dots> = (map fst (symbol_slots 0 (bpe_ref merges xs)), map snd (symbol_slots 0 (bpe_ref merges xs)))"
      using 1 [OF bp] bp by (simp add: bpe_ref.simps [of merges xs])
    finally show ?thesis .
  qed
qed

lemma symbols_symbol_slots:
  "symbols_from (pre @ concat (map byte_str bs)) (length pre) = symbol_slots (length pre) (map byte_str bs)"
proof (induction bs arbitrary: pre)
  case Nil
  then show ?case by (simp add: symbols_from.simps)
next
  case (Cons b bs)
  let ?s = "pre @ byte_str b @ concat (map byte_str bs)"
  have "snd (u8_next ?s (length pre)) = length (byte_str b)" by (simp only: byte_str_next snd_conv)
  moreover have "length pre < length ?s" using byte_str_length [of b] by simp
  ultimately have "symbols_from ?s (length pre) =
      (length pre, length (byte_str b)) # symbols_from ?s (length pre + length (byte_str b))"
    by (subst symbols_from.simps) (simp only: if_True Let_def)
  also have "symbols_from ?s (length pre + length (byte_str b)) =
      symbol_slots (length pre + length (byte_str b)) (map byte_str bs)"
    using Cons.IH [of "pre @ byte_str b"] by simp
  finally show ?case by simp
qed

text \<open>What \<open>bpe_piece\<close> emits for a byte string, by the reference.\<close>

definition bpe_tokens :: "tokenizer \<Rightarrow> byte_string \<Rightarrow> i32 list" where
  "bpe_tokens t bs =
     (case tk_vocab t (concat (map byte_str bs)) of
        Some i \<Rightarrow> [i]
      | None \<Rightarrow> List.map_filter (tk_vocab t) (bpe_ref (tk_merges t) (map byte_str bs)))"

lemma fold_emit:
  "fold (\<lambda>y out. case vocab y of Some v \<Rightarrow> out @ [v] | None \<Rightarrow> out) ys out = out @ List.map_filter vocab ys"
  by (induction ys arbitrary: out) (auto simp: List.map_filter_def split: option.split)

lemma fold_nth: "fold (\<lambda>i. f (xs ! i)) [0..<length xs] = fold f xs"
  by (metis fold_map map_nth comp_apply fun_eq_iff)

lemma emit_symbol_slots:
  "fold (\<lambda>i out. case vocab (sub (concat ys) (map fst (symbol_slots 0 ys) ! i) (map snd (symbol_slots 0 ys) ! i)) of
      Some v \<Rightarrow> out @ [v] | None \<Rightarrow> out) [0..<length (map fst (symbol_slots 0 ys))] out
    = out @ List.map_filter vocab ys"
proof -
  have "fold (\<lambda>i out. case vocab (sub (concat ys) (map fst (symbol_slots 0 ys) ! i) (map snd (symbol_slots 0 ys) ! i)) of
      Some v \<Rightarrow> out @ [v] | None \<Rightarrow> out) [0..<length (map fst (symbol_slots 0 ys))] out
    = fold (\<lambda>i out. case vocab (ys ! i) of Some v \<Rightarrow> out @ [v] | None \<Rightarrow> out) [0..<length ys] out"
    by (rule fold_cong) (auto simp: sub_symbol_slots fun_eq_iff)
  also have "\<dots> = fold (\<lambda>y out. case vocab y of Some v \<Rightarrow> out @ [v] | None \<Rightarrow> out) ys out"
    by (simp only: fold_nth [of "\<lambda>y out. case vocab y of Some v \<Rightarrow> out @ [v] | None \<Rightarrow> out"])
  finally show ?thesis by (simp only: fold_emit)
qed

lemma bpe_piece_tokens:
  assumes "bytemap_ok t"
  shows "bpe_piece t p a b out = out @ bpe_tokens t (sub p a (b - a))"
proof -
  let ?bs = "sub p a (b - a)"
  let ?xs = "map byte_str ?bs"
  let ?ys = "bpe_ref (tk_merges t) ?xs"
  have s: "byte_level t ?bs = concat ?xs" by (rule byte_level_ok [OF assms])
  show ?thesis
  proof (cases "tk_vocab t (concat ?xs)")
    case None
    have "symbols_from (concat ?xs) 0 = symbol_slots 0 ?xs"
      using symbols_symbol_slots [of "[]" ?bs] by simp
    then have m: "merge_loop (tk_merges t) (concat ?xs) (map fst (symbols_from (concat ?xs) 0))
        (map snd (symbols_from (concat ?xs) 0)) = (map fst (symbol_slots 0 ?ys), map snd (symbol_slots 0 ?ys))"
      by (simp only: merge_loop_refines)
    show ?thesis
      unfolding bpe_piece_def s Let_def m None option.case prod.case bpe_tokens_def
      using emit_symbol_slots [of "tk_vocab t" ?ys out] by (simp only: concat_bpe_ref)
  qed (simp add: bpe_piece_def s bpe_tokens_def Let_def)
qed

text \<open>
  C23: \<open>bpe_piece\<close>, with its two index arrays over the byte-level string, is byte-pair encoding on
  the list of the piece's characters: a piece that is a token as a whole is emitted as that token;
  otherwise the leftmost adjacent pair of lowest merge rank is fused until no pair has a rank, and
  the ids of the remaining symbols are emitted in order.  The symbols always concatenate to the
  byte-level form of the piece.
\<close>

theorem bpe_piece_refines:
  assumes "bytemap_ok t"
  shows "bpe_piece t p a b out = out @ bpe_tokens t (sub p a (b - a)) \<and>
    concat (bpe_ref (tk_merges t) (map byte_str bs)) = byte_level t bs \<and>
    best_pair (tk_merges t) (bpe_ref (tk_merges t) (map byte_str bs)) = None"
  using bpe_piece_tokens [OF assms] byte_level_ok [OF assms, of bs]
  by (simp add: concat_bpe_ref bpe_ref_normal)

text \<open>The tokenizer of the crate's test \<open>bpe_merge_path\<close>: \<open>aab\<close> is encoded as \<open>a\<close>, \<open>ab\<close>.\<close>

definition ab_tokenizer :: tokenizer where
  "ab_tokenizer = \<lparr>tk_vocab = [[0x61] \<mapsto> 0, [0x62] \<mapsto> 1, [0x61, 0x62] \<mapsto> 2],
     tk_merges = [[0x61, 0, 0x62] \<mapsto> 0],
     tk_id2str = [Some [0x61], Some [0x62], Some [0x61, 0x62]], tk_id_added = [False, False, False],
     tk_specials = [], tk_byte2str = fst build_bytemap, tk_cp2byte = snd build_bytemap,
     tk_pretok = Cl100k\<rparr>"

lemma ab_bytemap: "bytemap_ok ab_tokenizer"
  by (simp add: ab_tokenizer_def bytemap_ok_def)

lemma byte_str_direct: "33 \<le> b \<Longrightarrow> b \<le> 126 \<Longrightarrow> byte_str b = [b]"
proof -
  assume "33 \<le> b" "b \<le> 126"
  then have b: "33 \<le> unat b" "unat b \<le> 126" by (simp_all add: word_le_nat_alt)
  then have "byte_cp (unat b) = unat b" by (simp add: byte_cp_def isdir_def)
  moreover have "unat (of_nat (unat b) :: u32) < 0x80" using b by (simp add: unat_u8_u32)
  moreover have "(ucast (ucast b :: u32) :: u8) = b"
    using unat_u8_less [of b] by (simp add: word_unat_eq_iff unat_u32_u8 unat_u8_u32)
  ultimately show ?thesis by (simp add: byte_str_def u8_put_def word_less_nat_alt)
qed

lemma ab_bpe_ref:
  "bpe_ref (tk_merges ab_tokenizer) [[0x61], [0x61], [0x62]] = [[0x61], [0x61, 0x62]]"
proof -
  let ?m = "tk_merges ab_tokenizer"
  have "best_pair ?m [[0x61], [0x61], [0x62]] = Some 1" "best_pair ?m [[0x61], [0x61, 0x62]] = None"
    by (simp_all add: best_pair_def ranked_pairs_def merge_key_def ab_tokenizer_def i32_max_def upt_rec)
  then show ?thesis by (simp add: bpe_ref.simps fuse_def)
qed

theorem bpe_piece_refines_witness:
  "bpe_piece ab_tokenizer [0x61, 0x61, 0x62] 0 3 [] = [0, 2]"
proof -
  have "byte_str 0x61 = [0x61]" "byte_str 0x62 = [0x62]" by (simp_all add: byte_str_direct)
  then have "bpe_tokens ab_tokenizer [0x61, 0x61, 0x62] =
      (case tk_vocab ab_tokenizer [0x61, 0x61, 0x62] of Some i \<Rightarrow> [i]
       | None \<Rightarrow> List.map_filter (tk_vocab ab_tokenizer) [[0x61], [0x61, 0x62]])"
    unfolding bpe_tokens_def by (simp only: list.map concat.simps append.simps append_Nil2 ab_bpe_ref)
  then have "bpe_tokens ab_tokenizer [0x61, 0x61, 0x62] = [0, 2]"
    by (simp add: ab_tokenizer_def List.map_filter_def)
  then show ?thesis
    using bpe_piece_refines [OF ab_bytemap, of "[0x61, 0x61, 0x62]" 0 3 "[]"] by (simp add: sub_def)
qed

end
