(* ===== verification/Tokenizer.thy ===== *)
theory Tokenizer
  imports Pretok Bpe
begin

text \<open>
  The tokenizer's operations (\<open>encode\<close>, \<open>decode_bytes\<close>, \<open>decode\<close>, \<open>id_of\<close>, \<open>pretok_chunk\<close>, the
  two splits, \<open>k3_pretokenize\<close>) over the record of \<open>Bpe\<close>.  The main results: the pieces of a chunk
  partition its bytes, whatever bytes they are, and encoding followed by decoding is the identity on
  every byte string that the vocabulary covers.
\<close>

section \<open>Operations\<close>

text \<open>the codepoints of \<open>p[i..b)\<close> with their offsets\<close>

function codepoints_from :: "byte_string \<Rightarrow> nat \<Rightarrow> nat \<Rightarrow> (nat \<times> u32) list" where
  "codepoints_from p b i =
     (if i < b then let (c, k) = u8_next p i in (i, c) # codepoints_from p b (i + k) else [])"
  by pat_completeness auto
termination
proof (relation "measure (\<lambda>(p, b, i). b - i)", goal_cases)
  case (2 p b i x c k)
  then have "k = snd (u8_next p i)" by (metis snd_conv)
  with u8_next_pos [of p i] 2(1) show ?case by simp
qed simp

declare codepoints_from.simps [simp del]

text \<open>\<open>split_cl100k\<close>, from position \<open>i\<close>\<close>

function split_cl100k ::
  "tokenizer \<Rightarrow> byte_string \<Rightarrow> u32 list \<Rightarrow> nat list \<Rightarrow> nat \<Rightarrow> i32 list \<Rightarrow> i32 list" where
  "split_cl100k t p cp off i out =
     (if i < length cp then
        let e = cl100k_next cp i in split_cl100k t p cp off e (bpe_piece t p (off ! i) (off ! e) out)
      else out)"
  by pat_completeness auto
termination
  by (relation "measure (\<lambda>(t, p, cp, off, i, out). length cp - i)") (auto dest: cl100k_next_progress)

declare split_cl100k.simps [simp del]

definition split_k3 :: "tokenizer \<Rightarrow> byte_string \<Rightarrow> u32 list \<Rightarrow> nat list \<Rightarrow> i32 list \<Rightarrow> i32 list" where
  "split_k3 t p cp off out =
     snd (fold (\<lambda>e (start, out). (e, bpe_piece t p (off ! start) (off ! e) out))
       (k3_piece_ends cp) (0, out))"

definition pretok_chunk :: "tokenizer \<Rightarrow> byte_string \<Rightarrow> nat \<Rightarrow> nat \<Rightarrow> i32 list \<Rightarrow> i32 list" where
  "pretok_chunk t p a b out =
     (if b \<le> a then out
      else let cs = codepoints_from p b a; cp = map snd cs; off = map fst cs @ [b] in
        case tk_pretok t of
          Cl100k \<Rightarrow> split_cl100k t p cp off 0 out
        | KimiK3 \<Rightarrow> split_k3 t p cp off out)"

definition k3_pretokenize :: "byte_string \<Rightarrow> byte_string list" where
  "k3_pretokenize p =
     (let cs = codepoints_from p (length p) 0; cp = map snd cs; off = map fst cs @ [length p] in
      snd (fold (\<lambda>e (start, out). (e, out @ [sub p (off ! start) (off ! e - off ! start)]))
        (k3_piece_ends cp) (0, [])))"

text \<open>the earliest added token at or after \<open>i\<close>; the list is sorted, so the longest wins\<close>

definition special_at :: "tokenizer \<Rightarrow> byte_string \<Rightarrow> nat \<Rightarrow> special option" where
  "special_at t p j = List.find (\<lambda>sp. let sl = length (sp_bytes sp) in
     0 < sl \<and> j + sl \<le> length p \<and> sub p j sl = sp_bytes sp) (tk_specials t)"

definition find_special :: "tokenizer \<Rightarrow> byte_string \<Rightarrow> nat \<Rightarrow> (nat \<times> nat \<times> i32) option" where
  "find_special t p i =
     first_some (\<lambda>j. case special_at t p j of
         Some sp \<Rightarrow> Some (j, length (sp_bytes sp), sp_id sp) | None \<Rightarrow> None) [i..<length p]"

lemma first_some_Some: "first_some f xs = Some y \<Longrightarrow> \<exists>x\<in>set xs. f x = Some y"
  by (induction xs) (auto split: option.splits)

lemma special_at_Some:
  assumes "special_at t p j = Some sp"
  shows "sp \<in> set (tk_specials t)" "0 < length (sp_bytes sp)" "j + length (sp_bytes sp) \<le> length p"
    "sub p j (length (sp_bytes sp)) = sp_bytes sp"
  using assms unfolding special_at_def find_Some_iff by (auto simp: Let_def)

lemma find_special_Some:
  assumes "find_special t p i = Some (pos, sl, v)"
  shows "\<exists>sp\<in>set (tk_specials t). sl = length (sp_bytes sp) \<and> v = sp_id sp \<and> sub p pos sl = sp_bytes sp
    \<and> i \<le> pos \<and> 0 < sl \<and> pos + sl \<le> length p"
  using first_some_Some [OF assms [unfolded find_special_def]] special_at_Some
  by (fastforce split: option.splits)

lemma find_special_bound:
  "find_special t p i = Some (pos, sl, v) \<Longrightarrow> i \<le> pos \<and> 0 < sl \<and> pos + sl \<le> length p"
  using find_special_Some by blast

function encode_from :: "tokenizer \<Rightarrow> byte_string \<Rightarrow> nat \<Rightarrow> i32 list \<Rightarrow> i32 list" where
  "encode_from t p i out =
     (if i < length p then
        let hit = find_special t p i;
            chunk_end = (case hit of Some (pos, sl, v) \<Rightarrow> pos | None \<Rightarrow> length p);
            out' = (if i < chunk_end then pretok_chunk t p i chunk_end out else out)
        in case hit of
             Some (pos, sl, v) \<Rightarrow> encode_from t p (pos + sl) (out' @ [v])
           | None \<Rightarrow> out'
      else out)"
  by pat_completeness auto
termination
proof (relation "measure (\<lambda>(t, p, i, out). length p - i)", goal_cases)
  case (2 t p i out hit chunk_end out' x pos y sl v)
  then have "find_special t p i = Some (pos, sl, v)" by simp
  from find_special_bound [OF this] have "i < pos + sl" "pos + sl \<le> length p" by linarith+
  then show ?case by simp
qed simp

declare encode_from.simps [simp del]

definition encode :: "tokenizer \<Rightarrow> byte_string \<Rightarrow> i32 list" where
  "encode t p = encode_from t p 0 []"

text \<open>the inner loop of \<open>decode_bytes\<close>\<close>

function decode_str :: "tokenizer \<Rightarrow> byte_string \<Rightarrow> nat \<Rightarrow> byte_string \<Rightarrow> byte_string" where
  "decode_str t s j out =
     (if j < length s then
        let (cp, k) = u8_next s j in
        decode_str t s (j + k)
          (if cp < 1024 \<and> 0 \<le> tk_cp2byte t ! unat cp then out @ [of_int (tk_cp2byte t ! unat cp)] else out)
      else out)"
  by pat_completeness auto
termination
proof (relation "measure (\<lambda>(t, s, j, out). length s - j)", goal_cases)
  case (2 t s j out x cp k)
  then have "k = snd (u8_next s j)" by (metis snd_conv)
  with u8_next_pos [of s j] 2(1) show ?case by simp
qed simp

declare decode_str.simps [simp del]

definition decode_id :: "tokenizer \<Rightarrow> i32 \<Rightarrow> byte_string \<Rightarrow> byte_string" where
  "decode_id t v out =
     (if v < 0 \<or> length (tk_id2str t) \<le> nat v then out
      else case tk_id2str t ! nat v of
          None \<Rightarrow> out
        | Some s \<Rightarrow> if tk_id_added t ! nat v then out @ s else decode_str t s 0 out)"

definition decode_bytes :: "tokenizer \<Rightarrow> i32 list \<Rightarrow> byte_string" where
  "decode_bytes t ids = fold (decode_id t) ids []"

definition decode :: "tokenizer \<Rightarrow> i32 list \<Rightarrow> byte_string" where
  "decode t ids = utf8_lossy (decode_bytes t ids)"

definition id_of :: "tokenizer \<Rightarrow> byte_string \<Rightarrow> i32 option" where
  "id_of t content = map_option sp_id (List.find (\<lambda>s. sp_bytes s = content) (tk_specials t))"

definition n_ids :: "tokenizer \<Rightarrow> nat" where
  "n_ids t = length (tk_id2str t)"

section \<open>The pieces of a chunk\<close>

text \<open>The byte strings between consecutive ends, through the offset table.\<close>

fun pieces :: "byte_string \<Rightarrow> nat list \<Rightarrow> nat \<Rightarrow> nat list \<Rightarrow> byte_string list" where
  "pieces p off i [] = []"
| "pieces p off i (e # es) = sub p (off ! i) (off ! e - off ! i) # pieces p off e es"

lemma sub_append: "a \<le> b \<Longrightarrow> b \<le> c \<Longrightarrow> sub p a (b - a) @ sub p b (c - b) = sub p a (c - a)"
  using take_add [of "b - a" "c - b" "drop a p"] by (simp add: sub_def)

lemma concat_pieces:
  assumes "sorted off" "sorted_wrt (<) (i # es)" "last (i # es) < length off"
  shows "concat (pieces p off i es) = sub p (off ! i) (off ! last (i # es) - off ! i)"
  using assms(2,3)
proof (induction es arbitrary: i)
  case Nil
  then show ?case by (simp add: sub_def)
next
  case (Cons e es)
  let ?l = "last (e # es)"
  have el: "e \<le> ?l" using Cons.prems(1) last_in_set [of "e # es"] by (auto simp: less_imp_le)
  have "off ! i \<le> off ! e" "off ! e \<le> off ! ?l"
    using sorted_nth_mono [OF assms(1), of i e] sorted_nth_mono [OF assms(1), of e ?l]
      Cons.prems el by auto
  then show ?case using Cons by (simp add: sub_append)
qed

lemma codepoints_offsets:
  "a \<le> b \<Longrightarrow> sorted_wrt (<) (map fst (codepoints_from p b a) @ [b]) \<and>
    (\<forall>x\<in>set (map fst (codepoints_from p b a)). a \<le> x) \<and>
    (a < b \<longrightarrow> (map fst (codepoints_from p b a) @ [b]) ! 0 = a)"
proof (induction p b a rule: codepoints_from.induct)
  case (1 p b i)
  show ?case
  proof (cases "i < b")
    case True
    obtain c k where ck: "u8_next p i = (c, k)" by force
    then have k: "1 \<le> k" using u8_next_pos [of p i] by simp
    have cs: "codepoints_from p b i = (i, c) # codepoints_from p b (i + k)"
      using True ck by (subst codepoints_from.simps) simp
    show ?thesis
    proof (cases "i + k \<le> b")
      case le: True
      from 1(1) [OF True refl ck [symmetric] le] cs k True show ?thesis by fastforce
    next
      case False
      then have "codepoints_from p b (i + k) = []" by (simp add: codepoints_from.simps)
      with cs True show ?thesis by simp
    qed
  next
    case False
    with 1 show ?thesis by (simp add: codepoints_from.simps)
  qed
qed

lemma sorted_wrt_less_sorted: "sorted_wrt (<) xs \<Longrightarrow> sorted (xs :: nat list)"
  by (simp add: strict_sorted_iff)

definition ends_of :: "pre_tok \<Rightarrow> u32 list \<Rightarrow> nat list" where
  "ends_of pt cp = (case pt of Cl100k \<Rightarrow> cl100k_ends cp 0 | KimiK3 \<Rightarrow> k3_piece_ends cp)"

definition chunk_pieces :: "pre_tok \<Rightarrow> byte_string \<Rightarrow> nat \<Rightarrow> nat \<Rightarrow> byte_string list" where
  "chunk_pieces pt p a b =
     (let cs = codepoints_from p b a in pieces p (map fst cs @ [b]) 0 (ends_of pt (map snd cs)))"

lemma ends_of_increase: "sorted_wrt (<) (0 # ends_of pt cp) \<and> last (0 # ends_of pt cp) = length cp"
  using cl100k.ends_increase [of 0 cp] k3.ends_increase [of 0 cp]
  by (auto simp: ends_of_def k3_piece_ends_def split: pre_tok.split)

lemma concat_chunk_pieces:
  assumes "a < b" shows "concat (chunk_pieces pt p a b) = sub p a (b - a)"
proof -
  let ?cs = "codepoints_from p b a"
  let ?off = "map fst ?cs @ [b]"
  have off: "sorted_wrt (<) ?off" "?off ! 0 = a" using codepoints_offsets [of a b p] assms by auto
  have ends: "sorted_wrt (<) (0 # ends_of pt (map snd ?cs))"
    "last (0 # ends_of pt (map snd ?cs)) = length ?cs"
    using ends_of_increase [of pt "map snd ?cs"] by auto
  have "?off ! length ?cs = b" by (simp add: nth_append)
  with concat_pieces [OF sorted_wrt_less_sorted [OF off(1)] ends(1)] ends(2) off(2) show ?thesis
    by (simp add: chunk_pieces_def Let_def)
qed

lemma pieces_nonempty:
  assumes "sorted_wrt (<) off" "sorted_wrt (<) (i # es)" "\<forall>e\<in>set es. e < length off" "last off \<le> length p"
  shows "[] \<notin> set (pieces p off i es)"
  using assms(2,3)
proof (induction es arbitrary: i)
  case (Cons e es)
  then have lt: "off ! i < off ! e" using sorted_wrt_nth_less [OF assms(1), of i e] by simp
  have "off \<noteq> []" "e \<le> length off - 1" using Cons.prems by auto
  then have "off ! e \<le> last off"
    using sorted_nth_mono [OF sorted_wrt_less_sorted [OF assms(1)], of e "length off - 1"]
    by (simp add: last_conv_nth)
  with lt assms(4) have "sub p (off ! i) (off ! e - off ! i) \<noteq> []" by (simp add: sub_def)
  with Cons show ?case by auto
qed simp

section \<open>Encoding by pieces\<close>

lemma split_cl100k_pieces:
  assumes "bytemap_ok t"
  shows "split_cl100k t p cp off i out = out @ concat (map (bpe_tokens t) (pieces p off i (cl100k_ends cp i)))"
  using assms
proof (induction t p cp off i out rule: split_cl100k.induct)
  case (1 t p cp off i out)
  show ?case
  proof (cases "i < length cp")
    case True
    with 1(1) [OF True refl 1(2)] bpe_piece_tokens [OF 1(2)] show ?thesis
      by (simp add: split_cl100k.simps [of t p cp off i] cl100k_ends.simps [of cp i] Let_def)
  qed (simp add: split_cl100k.simps cl100k_ends.simps)
qed

lemma fold_pieces:
  assumes "\<And>a b out. f a b out = out @ g (sub p a (b - a))"
  shows "snd (fold (\<lambda>e (start, out). (e, f (off ! start) (off ! e) out)) es (i, out))
    = out @ concat (map g (pieces p off i es))"
  by (induction es arbitrary: i out) (simp_all add: assms)

lemma pretok_chunk_pieces:
  assumes "bytemap_ok t" "a < b"
  shows "pretok_chunk t p a b out = out @ concat (map (bpe_tokens t) (chunk_pieces (tk_pretok t) p a b))"
proof (cases "tk_pretok t")
  case Cl100k
  then show ?thesis using assms(2) split_cl100k_pieces [OF assms(1)]
    by (simp add: pretok_chunk_def chunk_pieces_def ends_of_def Let_def)
next
  case KimiK3
  then show ?thesis using assms(2) fold_pieces [where f = "bpe_piece t p", OF bpe_piece_tokens [OF assms(1)]]
    by (simp add: pretok_chunk_def chunk_pieces_def ends_of_def split_k3_def Let_def)
qed

section \<open>Decoding\<close>

lemma decode_str_units:
  assumes "bytemap_ok t"
  shows "decode_str t (pre @ concat (map byte_str bs)) (length pre) out = out @ bs"
proof (induction bs arbitrary: pre out)
  case Nil
  then show ?case by (simp add: decode_str.simps)
next
  case (Cons b bs)
  let ?s = "pre @ byte_str b @ concat (map byte_str bs)" and ?cp = "of_nat (byte_cp (unat b)) :: u32"
  have "of_int (tk_cp2byte t ! unat ?cp) = b" "?cp < 1024" "0 \<le> tk_cp2byte t ! unat ?cp"
    using cp2byte_ok [OF assms, of b] by simp_all
  moreover have "length pre < length ?s" using byte_str_length [of b] by simp
  ultimately have "decode_str t ?s (length pre) out = decode_str t ?s (length pre + length (byte_str b)) (out @ [b])"
    using byte_str_next [of pre b "concat (map byte_str bs)"] by (subst decode_str.simps) simp
  also have "\<dots> = out @ b # bs" using Cons.IH [of "pre @ byte_str b" "out @ [b]"] by simp
  finally show ?case by simp
qed

text \<open>
  What the ids have to satisfy for decoding to invert encoding: the vocabulary is closed under its
  merges, and an id leads back to the string it stands for.
\<close>

definition vocab_ok :: "tokenizer \<Rightarrow> bool" where
  "vocab_ok t \<longleftrightarrow> bytemap_ok t \<and>
     (\<forall>l r. l \<in> dom (tk_vocab t) \<longrightarrow> r \<in> dom (tk_vocab t) \<longrightarrow>
        tk_merges t (merge_key l r) \<noteq> None \<longrightarrow> l @ r \<in> dom (tk_vocab t)) \<and>
     (\<forall>s v. tk_vocab t s = Some v \<longrightarrow>
        0 \<le> v \<and> nat v < n_ids t \<and> tk_id2str t ! nat v = Some s \<and> \<not> tk_id_added t ! nat v) \<and>
     (\<forall>sp\<in>set (tk_specials t).
        0 \<le> sp_id sp \<and> nat (sp_id sp) < n_ids t \<and>
        tk_id2str t ! nat (sp_id sp) = Some (sp_bytes sp) \<and> tk_id_added t ! nat (sp_id sp))"

lemma decode_id_vocab:
  assumes "vocab_ok t" "tk_vocab t (concat (map byte_str bs)) = Some v"
  shows "decode_id t v out = out @ bs"
proof -
  from assms have "0 \<le> v" "nat v < n_ids t" "tk_id2str t ! nat v = Some (concat (map byte_str bs))"
    "\<not> tk_id_added t ! nat v" "bytemap_ok t"
    unfolding vocab_ok_def by blast+
  with decode_str_units [of t "[]" bs out] show ?thesis
    by (simp add: decode_id_def n_ids_def)
qed

lemma decode_id_special:
  assumes "vocab_ok t" "sp \<in> set (tk_specials t)"
  shows "decode_id t (sp_id sp) out = out @ sp_bytes sp"
proof -
  from assms have "0 \<le> sp_id sp" "nat (sp_id sp) < n_ids t"
    "tk_id2str t ! nat (sp_id sp) = Some (sp_bytes sp)" "tk_id_added t ! nat (sp_id sp)"
    unfolding vocab_ok_def by blast+
  then show ?thesis by (simp add: decode_id_def n_ids_def)
qed

text \<open>Symbols are byte-level forms of byte strings, and stay in the vocabulary.\<close>

definition symbols_of :: "tokenizer \<Rightarrow> byte_string list \<Rightarrow> byte_string list \<Rightarrow> bool" where
  "symbols_of t xs bss \<longleftrightarrow>
     xs = map (\<lambda>bs. concat (map byte_str bs)) bss \<and> set xs \<subseteq> dom (tk_vocab t)"

lemma best_pair_rank:
  assumes "best_pair merges xs = Some i" shows "merges (merge_key (xs ! i) (xs ! (i + 1))) \<noteq> None"
proof -
  from assms obtain rk where "first_min snd (ranked_pairs merges xs [0..<length xs - 1]) = Some (i, rk)"
    by (auto simp: best_pair_def)
  then have "(i, rk) \<in> set (ranked_pairs merges xs [0..<length xs - 1])" by (rule first_min_Some)
  then show ?thesis by (auto simp: ranked_pairs_def split: option.splits if_splits) (metis)
qed

lemma symbols_bpe_ref:
  assumes "vocab_ok t"
  shows "symbols_of t xs bss \<Longrightarrow>
    \<exists>css. symbols_of t (bpe_ref (tk_merges t) xs) css \<and> concat css = concat bss"
proof (induction "tk_merges t" xs arbitrary: bss rule: bpe_ref.induct)
  case (1 xs)
  show ?case
  proof (cases "best_pair (tk_merges t) xs")
    case None
    with 1(2) show ?thesis by (auto simp: bpe_ref.simps)
  next
    case (Some i)
    then have i: "i + 1 < length xs" by (rule best_pair_bound)
    let ?css = "fuse i bss"
    have xs: "xs = map (\<lambda>bs. concat (map byte_str bs)) bss" "set xs \<subseteq> dom (tk_vocab t)"
      using 1(2) unfolding symbols_of_def by blast+
    have "fuse i xs = map (\<lambda>bs. concat (map byte_str bs)) ?css"
      using i by (simp add: xs(1) fuse_def take_map drop_map)
    moreover have "xs ! i @ xs ! (i + 1) \<in> dom (tk_vocab t)"
      using assms best_pair_rank [OF Some] xs(2) i unfolding vocab_ok_def
      by (meson nth_mem subsetD add_lessD1)
    then have "set (fuse i xs) \<subseteq> dom (tk_vocab t)"
      using xs(2) by (auto simp: fuse_def dest: in_set_takeD in_set_dropD)
    ultimately have "symbols_of t (fuse i xs) ?css" by (simp add: symbols_of_def)
    from 1(1) [OF Some this] have "\<exists>css. symbols_of t (bpe_ref (tk_merges t) (fuse i xs)) css \<and> concat css = concat ?css" .
    moreover have "concat ?css = concat bss" using i xs(1) by (intro concat_fuse) simp
    ultimately show ?thesis using Some by (simp add: bpe_ref.simps [of "tk_merges t" xs])
  qed
qed

lemma decode_symbols:
  assumes "vocab_ok t" "symbols_of t xs bss"
  shows "fold (decode_id t) (List.map_filter (tk_vocab t) xs) out = out @ concat bss"
  using assms(2)
proof (induction bss arbitrary: xs out)
  case Nil
  then show ?case by (simp add: symbols_of_def List.map_filter_def)
next
  case (Cons bs bss)
  let ?x = "concat (map byte_str bs)"
  obtain ys where xs: "xs = ?x # ys" and ys: "symbols_of t ys bss" "?x \<in> dom (tk_vocab t)"
    using Cons.prems by (auto simp: symbols_of_def)
  then obtain v where v: "tk_vocab t ?x = Some v" by auto
  with xs ys Cons.IH [OF ys(1)] decode_id_vocab [OF assms(1) v] show ?case
    by (simp add: List.map_filter_def)
qed

definition covers :: "tokenizer \<Rightarrow> byte_string \<Rightarrow> bool" where
  "covers t bs \<longleftrightarrow> (\<forall>b\<in>set bs. byte_str b \<in> dom (tk_vocab t))"

lemma decode_bpe_tokens:
  assumes "vocab_ok t" "covers t bs"
  shows "fold (decode_id t) (bpe_tokens t bs) out = out @ bs"
proof (cases "tk_vocab t (concat (map byte_str bs))")
  case None
  have "symbols_of t (map byte_str bs) (map (\<lambda>b. [b]) bs)"
    using assms(2) by (auto simp: symbols_of_def covers_def)
  from symbols_bpe_ref [OF assms(1) this] obtain css where
    "symbols_of t (bpe_ref (tk_merges t) (map byte_str bs)) css" "concat css = concat (map (\<lambda>b. [b]) bs)" by blast
  with None decode_symbols [OF assms(1)] show ?thesis by (simp add: bpe_tokens_def)
next
  case (Some v)
  with decode_id_vocab [OF assms(1) Some] show ?thesis by (simp add: bpe_tokens_def)
qed

lemma set_sub: "set (sub p a l) \<subseteq> set p"
  unfolding sub_def by (meson set_drop_subset set_take_subset subset_trans)

lemma decode_pieces:
  assumes "vocab_ok t" "covers t (concat pcs)"
  shows "fold (decode_id t) (concat (map (bpe_tokens t) pcs)) out = out @ concat pcs"
  using assms(2)
proof (induction pcs arbitrary: out)
  case (Cons bs pcs)
  then have "covers t bs" "covers t (concat pcs)" by (auto simp: covers_def)
  with Cons.IH decode_bpe_tokens [OF assms(1)] show ?case by simp
qed simp

lemma decode_chunk:
  assumes "vocab_ok t" "covers t p" "a \<le> b"
  shows "fold (decode_id t) (if a < b then pretok_chunk t p a b out else out) acc
    = fold (decode_id t) out acc @ sub p a (b - a)"
proof (cases "a < b")
  case True
  have "bytemap_ok t" using assms(1) by (simp add: vocab_ok_def)
  moreover have "covers t (concat (chunk_pieces (tk_pretok t) p a b))"
    using assms(2) set_sub [of p a "b - a"] unfolding concat_chunk_pieces [OF True] covers_def by blast
  ultimately show ?thesis using True decode_pieces [OF assms(1)] concat_chunk_pieces [OF True]
    by (simp add: pretok_chunk_pieces)
qed (use assms(3) in \<open>simp add: sub_def\<close>)

lemma sub_to_end: "sub p i (length p - i) = drop i p"
  by (simp add: sub_def)

lemma decode_encode_from:
  assumes "vocab_ok t" "covers t p"
  shows "i \<le> length p \<Longrightarrow>
    fold (decode_id t) (encode_from t p i out) [] = fold (decode_id t) out [] @ drop i p"
proof (induction "length p - i" arbitrary: i out rule: less_induct)
  case less
  show ?case
  proof (cases "i < length p")
    case True
    show ?thesis
    proof (cases "find_special t p i")
      case None
      then have "encode_from t p i out = (if i < length p then pretok_chunk t p i (length p) out else out)"
        by (simp add: encode_from.simps [of t p i out])
      with decode_chunk [OF assms less.prems] show ?thesis by (simp only: sub_to_end)
    next
      case (Some hit)
      obtain pos sl v where hit: "hit = (pos, sl, v)" by (cases hit)
      let ?out = "if i < pos then pretok_chunk t p i pos out else out"
      from find_special_Some [OF Some [unfolded hit]] obtain sp where
        sp: "sp \<in> set (tk_specials t)" "v = sp_id sp" "sub p pos sl = sp_bytes sp"
        and b: "i \<le> pos" "0 < sl" "pos + sl \<le> length p" by blast
      have enc: "encode_from t p i out = encode_from t p (pos + sl) (?out @ [v])"
        using True Some hit by (simp add: encode_from.simps [of t p i out] Let_def)
      have "fold (decode_id t) (?out @ [v]) [] = fold (decode_id t) out [] @ sub p i (pos - i) @ sub p pos sl"
        using decode_chunk [OF assms b(1), of out "[]"] decode_id_special [OF assms(1) sp(1)] sp(2,3) by simp
      moreover have "fold (decode_id t) (encode_from t p (pos + sl) (?out @ [v])) []
          = fold (decode_id t) (?out @ [v]) [] @ drop (pos + sl) p"
        using b by (intro less.hyps) auto
      moreover have "sub p i (pos - i) @ sub p pos sl @ drop (pos + sl) p = drop i p"
        using b sub_append [of i pos "pos + sl" p] append_take_drop_id [of "pos + sl - i" "drop i p"]
        by (simp add: sub_def) (metis append.assoc)
      ultimately show ?thesis unfolding enc by simp
    qed
  next
    case False
    with less.prems show ?thesis by (simp add: encode_from.simps)
  qed
qed

text \<open>
  Encoding followed by decoding is the identity, for both pre-tokenizers and for every byte
  string (valid UTF-8 or not), when each byte of the text has a token, the vocabulary is closed
  under its merges, and ids lead back to their strings.
\<close>

lemma decode_encode:
  assumes "vocab_ok t" and "covers t p"
  shows "decode_bytes t (encode t p) = p"
  using decode_encode_from [OF assms, of 0 "[]"] by (simp add: decode_bytes_def encode_def)

lemma ab_vocab_ok: "vocab_ok ab_tokenizer"
proof -
  have d: "dom (tk_vocab ab_tokenizer) = {[0x61], [0x62], [0x61, 0x62]}"
    by (auto simp: ab_tokenizer_def)
  have v: "(s, v) \<in> {([0x61], 0), ([0x62], 1), ([0x61, 0x62], 2)}" if "tk_vocab ab_tokenizer s = Some v" for s v
    using that by (auto simp: ab_tokenizer_def split: if_splits)
  have "l @ r \<in> dom (tk_vocab ab_tokenizer)"
    if "l \<in> dom (tk_vocab ab_tokenizer)" "r \<in> dom (tk_vocab ab_tokenizer)"
      "tk_merges ab_tokenizer (merge_key l r) \<noteq> None" for l r
    using that unfolding d by (auto simp: ab_tokenizer_def merge_key_def split: if_splits)
  moreover have "0 \<le> v \<and> nat v < n_ids ab_tokenizer \<and> tk_id2str ab_tokenizer ! nat v = Some s \<and>
      \<not> tk_id_added ab_tokenizer ! nat v" if "tk_vocab ab_tokenizer s = Some v" for s v
    using v [OF that] by (auto simp: ab_tokenizer_def n_ids_def)
  ultimately show ?thesis
    using ab_bytemap unfolding vocab_ok_def by (simp add: ab_tokenizer_def)
qed

section \<open>The cuts of a chunk\<close>

lemma fold_cuts:
  "snd (fold (\<lambda>e (start, out). (e, f (off ! start) (off ! e) out)) es (i, out))
    = fold (\<lambda>(x, y). f x y) (zip (map ((!) off) (i # es)) (map ((!) off) es)) out"
  by (induction es arbitrary: i out) simp_all

lemma pieces_cuts:
  "pieces p off i es = map (\<lambda>(x, y). sub p x (y - x)) (zip (map ((!) off) (i # es)) (map ((!) off) es))"
  by (induction es arbitrary: i) simp_all

lemma split_cl100k_cuts:
  "split_cl100k t p cp off i out = fold (\<lambda>(x, y). bpe_piece t p x y)
     (zip (map ((!) off) (i # cl100k_ends cp i)) (map ((!) off) (cl100k_ends cp i))) out"
proof (induction t p cp off i out rule: split_cl100k.induct)
  case (1 t p cp off i out)
  show ?case
  proof (cases "i < length cp")
    case True
    with 1 [OF True refl] show ?thesis
      by (simp add: split_cl100k.simps [of t p cp off i] cl100k_ends.simps [of cp i] Let_def)
  qed (simp add: split_cl100k.simps cl100k_ends.simps)
qed

definition chunk_cuts :: "pre_tok \<Rightarrow> byte_string \<Rightarrow> nat \<Rightarrow> nat \<Rightarrow> nat list" where
  "chunk_cuts pt p a b =
     (let cs = codepoints_from p b a in map ((!) (map fst cs @ [b])) (0 # ends_of pt (map snd cs)))"

lemma ends_of_le: "e \<in> set (ends_of pt cp) \<Longrightarrow> e \<le> length cp"
  using cl100k.ends_bound [of 0 cp e] k3.ends_bound [of 0 cp e]
  by (auto simp: ends_of_def k3_piece_ends_def split: pre_tok.splits)

lemma sorted_wrt_nth_map:
  assumes "sorted_wrt (<) (off :: nat list)" "sorted_wrt (<) es" "\<forall>e\<in>set es. e < length off"
  shows "sorted_wrt (<) (map ((!) off) es)"
  using assms(2,3) sorted_wrt_nth_less [OF assms(1)] by (induction es) auto

lemma chunk_cuts_shape:
  assumes "a < b"
  shows "sorted_wrt (<) (chunk_cuts pt p a b)" "hd (chunk_cuts pt p a b) = a" "last (chunk_cuts pt p a b) = b"
    "set (chunk_cuts pt p a b) \<subseteq> insert b (fst ` set (codepoints_from p b a))"
proof -
  let ?cs = "codepoints_from p b a"
  let ?off = "map fst ?cs @ [b]" and ?es = "0 # ends_of pt (map snd ?cs)"
  have off: "sorted_wrt (<) ?off" "?off ! 0 = a" using codepoints_offsets [of a b p] assms by simp_all
  have es: "sorted_wrt (<) ?es" "last ?es = length ?cs" using ends_of_increase [of pt "map snd ?cs"] by simp_all
  have lt: "e < length ?off" if "e \<in> set ?es" for e using that ends_of_le [of e pt "map snd ?cs"] by auto
  show "sorted_wrt (<) (chunk_cuts pt p a b)"
    using sorted_wrt_nth_map [OF off(1) es(1)] lt unfolding chunk_cuts_def Let_def by blast
  show "hd (chunk_cuts pt p a b) = a" using off(2) by (simp add: chunk_cuts_def Let_def)
  have "last (chunk_cuts pt p a b) = ?off ! last ?es" unfolding chunk_cuts_def Let_def by (rule last_map) simp
  also have "\<dots> = b" unfolding es(2) by (simp add: nth_append)
  finally show "last (chunk_cuts pt p a b) = b" .
  have "set (chunk_cuts pt p a b) \<subseteq> set ?off"
    using lt nth_mem [of _ ?off] unfolding chunk_cuts_def Let_def set_map by blast
  then show "set (chunk_cuts pt p a b) \<subseteq> insert b (fst ` set ?cs)" by simp
qed

lemma pretok_chunk_cuts:
  assumes "a < b"
  shows "pretok_chunk t p a b out =
    fold (\<lambda>(x, y). bpe_piece t p x y) (zip (chunk_cuts (tk_pretok t) p a b) (tl (chunk_cuts (tk_pretok t) p a b))) out"
  using assms split_cl100k_cuts fold_cuts [where f = "bpe_piece t p"]
  by (cases "tk_pretok t") (simp_all add: pretok_chunk_def chunk_cuts_def ends_of_def split_k3_def Let_def)

lemma k3_pretokenize_cuts:
  "k3_pretokenize p = map (\<lambda>(x, y). sub p x (y - x))
     (zip (chunk_cuts KimiK3 p 0 (length p)) (tl (chunk_cuts KimiK3 p 0 (length p))))"
proof -
  let ?cs = "codepoints_from p (length p) 0"
  have "k3_pretokenize p = pieces p (map fst ?cs @ [length p]) 0 (k3_piece_ends (map snd ?cs))"
    using fold_pieces [where f = "\<lambda>a b out. out @ [sub p a (b - a)]" and g = "\<lambda>x. [x]", OF refl]
    by (simp add: k3_pretokenize_def Let_def concat_map_singleton)
  then show ?thesis by (simp add: pieces_cuts chunk_cuts_def ends_of_def Let_def)
qed

lemma cut_pieces_nonempty:
  assumes "sorted_wrt (<) os" "\<forall>x\<in>set os. x \<le> length p"
  shows "[] \<notin> set (map (\<lambda>(x, y). sub p x (y - x)) (zip os (tl os)))"
  using assms
proof (induction os)
  case (Cons x os)
  then show ?case by (cases os) (auto simp: sub_def)
qed simp

lemma cut_pieces_concat:
  assumes "sorted_wrt (<) os" "os \<noteq> []"
  shows "concat (map (\<lambda>(x, y). sub p x (y - x)) (zip os (tl os))) = sub p (hd os) (last os - hd os)"
  using assms
proof (induction os)
  case (Cons x os)
  show ?case
  proof (cases os)
    case (Cons y ys)
    then have "x \<le> y" "y \<le> last os" using Cons.prems last_in_set [of os] by (auto simp: less_imp_le)
    with Cons.IH Cons.prems Cons show ?thesis by (simp add: sub_append)
  qed (simp add: sub_def)
qed simp

text \<open>
  C24: a non-empty chunk \<open>a..b\<close> of any bytes is cut at strictly increasing offsets, the first one \<open>a\<close>,
  the last one \<open>b\<close>, each the start of a codepoint of the chunk or \<open>b\<close>, and \<open>pretok_chunk\<close> is exactly the
  byte-pair encoding of the consecutive ranges in order, under either split: no byte is dropped,
  duplicated or reordered, and no range is empty.  For a Kimi-K3 tokenizer and a whole text, the ranges
  are the pieces that \<open>k3_pretokenize\<close> returns; those are never empty and concatenate to the text.
\<close>

theorem pieces_partition:
  assumes "a < b" and "b \<le> length p"
  shows "(\<exists>os. sorted_wrt (<) os \<and> os \<noteq> [] \<and> hd os = a \<and> last os = b \<and>
      set os \<subseteq> insert b (fst ` set (codepoints_from p b a)) \<and>
      concat (map (\<lambda>(x, y). sub p x (y - x)) (zip os (tl os))) = sub p a (b - a) \<and>
      (\<forall>out. pretok_chunk t p a b out = fold (\<lambda>(x, y). bpe_piece t p x y) (zip os (tl os)) out) \<and>
      (tk_pretok t = KimiK3 \<and> a = 0 \<and> b = length p \<longrightarrow>
         k3_pretokenize p = map (\<lambda>(x, y). sub p x (y - x)) (zip os (tl os)))) \<and>
    concat (k3_pretokenize p) = p \<and> [] \<notin> set (k3_pretokenize p)"
proof -
  let ?os = "chunk_cuts (tk_pretok t) p a b" and ?k = "chunk_cuts KimiK3 p 0 (length p)"
  have p: "0 < length p" using assms by linarith
  have ne: "os \<noteq> []" if "os = chunk_cuts pt p x y" for os pt x y using that by (simp add: chunk_cuts_def Let_def)
  note s = chunk_cuts_shape [OF assms(1), of "tk_pretok t" p] and k = chunk_cuts_shape [OF p, of KimiK3 p]
  have "\<forall>x\<in>set ?k. x \<le> length p"
    using k(4) codepoints_offsets [of 0 "length p" p] by (fastforce simp: sorted_wrt_append)
  then have nonempty: "[] \<notin> set (k3_pretokenize p)"
    unfolding k3_pretokenize_cuts by (rule cut_pieces_nonempty [OF k(1)])
  have whole: "concat (k3_pretokenize p) = p"
    unfolding k3_pretokenize_cuts cut_pieces_concat [OF k(1) ne [OF refl]] k(2,3) by (simp add: sub_def)
  have bytes: "concat (map (\<lambda>(x, y). sub p x (y - x)) (zip ?os (tl ?os))) = sub p a (b - a)"
    unfolding cut_pieces_concat [OF s(1) ne [OF refl]] s(2,3) ..
  have same: "tk_pretok t = KimiK3 \<and> a = 0 \<and> b = length p \<longrightarrow>
      k3_pretokenize p = map (\<lambda>(x, y). sub p x (y - x)) (zip ?os (tl ?os))"
    unfolding k3_pretokenize_cuts by simp
  show ?thesis
    by (intro conjI exI [of _ ?os] allI s ne [OF refl] bytes pretok_chunk_cuts [OF assms(1)] same whole nonempty)
qed

theorem pieces_partition_witness:
  "concat (k3_pretokenize [0x61, 0xC3, 0xA9, 0x20]) = [0x61, 0xC3, 0xA9, 0x20]"
  using pieces_partition [of 1 4 "[0x61, 0xC3, 0xA9, 0x20]"] by simp

end
