(* ===== verification/Generate.thy ===== *)
theory Generate
  imports Float64 Dtype
begin

text \<open>
  Token generation: greedy choice (\<open>argmax\<close> of \<open>colibri-engine/src/sampling.rs\<close>), the draft chain of
  the multi-token head (\<open>draft\<close> of \<open>mtp.rs\<close>) and the decode loop with speculation
  (\<open>generate_stream_drafting\<close>, \<open>generate_stream\<close> and \<open>generate_greedy\<close> of \<open>forward.rs\<close>).

  The numeric parts, the forward pass, the head and the output projection, are the fields of an
  \<open>engine\<close>: what they do to the cache and which rows they return.  What the loop relies on is stated
  as \<open>engine_ok\<close>: row \<open>i\<close> of a forward pass yields a token that the model may choose after the first
  \<open>i + 1\<close> tokens of the batch, rows of the attention cache beyond the accepted prefix are dead, and a
  snapshot of the recurrent state brings it back.  That a wide batch yields the same choice as a
  narrow one is not assumed: the documentation says that about one token in sixteen differs.

  The main result is that every emitted token is the model's own choice, whatever the head proposes.
  Timing and the printed statistics lines are left out.
\<close>

section \<open>Greedy choice\<close>

text \<open>\<open>v > bv\<close> on bit patterns: false for a NaN, otherwise the order of signed magnitudes.\<close>

definition f32_key :: "f32 \<Rightarrow> int" where
  "f32_key v = (if 0x80000000 \<le> v then - uint (v - 0x80000000) else uint v)"

definition f32_gt :: "f32 \<Rightarrow> f32 \<Rightarrow> bool" where
  "f32_gt v w \<longleftrightarrow> \<not> is_nan v \<and> \<not> is_nan w \<and> f32_key w < f32_key v"

fun argmax_from :: "nat \<Rightarrow> f32 list \<Rightarrow> nat \<Rightarrow> f32 \<Rightarrow> nat" where
  "argmax_from i [] best bv = best"
| "argmax_from i (v # vs) best bv = (if f32_gt v bv then argmax_from (i + 1) vs i v else argmax_from (i + 1) vs best bv)"

definition argmax :: "f32 list \<Rightarrow> nat" where
  "argmax logits = argmax_from 0 logits 0 0xFF800000"

text \<open>\<open>argmax(..) as i32\<close>\<close>

definition argmax_i32 :: "f32 list \<Rightarrow> int" where
  "argmax_i32 logits = wrap32 (int (argmax logits))"

text \<open>Without NaNs the greedy choice is the lowest index of a largest logit.\<close>

lemma neg_inf_least:
  assumes "\<not> is_nan v"
  shows "f32_key 0xFF800000 \<le> f32_key v"
proof -
  have c: "f32_key 0xFF800000 = - 2139095040" by code_simp
  have "v AND 0x7FFFFFFF \<le> 0x7F800000" using assms by (simp add: is_nan_def not_less)
  moreover have "(0x7FFFFFFF :: f32) = mask 31" by (simp add: mask_eq_exp_minus_1)
  ultimately have m: "unat v mod 2 ^ 31 \<le> 0x7F800000" by (simp add: unat_and_mask word_le_nat_alt del: power_numeral)
  show ?thesis
  proof (cases "0x80000000 \<le> v")
    case True
    then have "unat (v - 0x80000000) = unat v - 2 ^ 31" by (simp add: unat_sub)
    moreover have "unat v mod 2 ^ 31 = unat v - 2 ^ 31"
    proof -
      have lo: "2 ^ 31 \<le> unat v" "unat v < 2 ^ 32" using True unsigned_less [of v] by (simp_all add: word_le_nat_alt)
      then have hi: "unat v - 2 ^ 31 < 2 ^ 31" by simp
      show ?thesis by (rule trans [OF le_mod_geq [OF lo(1)] mod_less [OF hi]])
    qed
    ultimately have "unat (v - 0x80000000) \<le> 0x7F800000" using m by simp
    moreover have "uint (v - 0x80000000) = int (unat (v - 0x80000000))" by (rule uint_nat)
    ultimately have "uint (v - 0x80000000) \<le> 0x7F800000" by linarith
    then show ?thesis using True c by (simp add: f32_key_def)
  next
    case False
    have "- 2139095040 \<le> uint v" by (rule order_trans [OF _ uint_ge_0]) simp
    then show ?thesis using False c by (simp add: f32_key_def)
  qed
qed

lemma argmax_from_max:
  assumes "list_all (\<lambda>v. \<not> is_nan v) (ps @ vs)" "\<not> is_nan bv" "best < length ps" "f32_key bv = f32_key (ps ! best)"
    "\<forall>j < length ps. f32_key (ps ! j) \<le> f32_key bv" "\<forall>j < best. f32_key (ps ! j) < f32_key bv"
  shows "let r = argmax_from (length ps) vs best bv; xs = ps @ vs in
    r < length xs \<and> (\<forall>j < length xs. f32_key (xs ! j) \<le> f32_key (xs ! r)) \<and> (\<forall>j < r. f32_key (xs ! j) < f32_key (xs ! r))"
  using assms
proof (induction vs arbitrary: ps best bv)
  case Nil
  then show ?case by (simp add: nth_append)
next
  case (Cons v vs)
  have nan: "\<not> is_nan v" "list_all (\<lambda>v. \<not> is_nan v) ((ps @ [v]) @ vs)" using Cons.prems(1) by simp_all
  show ?case
  proof (cases "f32_gt v bv")
    case True
    then have lt: "f32_key bv < f32_key v" by (simp add: f32_gt_def)
    have below: "\<forall>j < length ps. f32_key (ps ! j) < f32_key v" using Cons.prems(5) lt by fastforce
    have "\<forall>j < length (ps @ [v]). f32_key ((ps @ [v]) ! j) \<le> f32_key v" using below by (auto simp: nth_append less_Suc_eq)
    moreover have "\<forall>j < length ps. f32_key ((ps @ [v]) ! j) < f32_key v" using below by (simp add: nth_append)
    ultimately show ?thesis using Cons.IH [OF nan(2,1), of "length ps"] True by simp
  next
    case False
    then have "f32_key v \<le> f32_key bv" using nan(1) Cons.prems(2) by (simp add: f32_gt_def)
    then have "\<forall>j < length (ps @ [v]). f32_key ((ps @ [v]) ! j) \<le> f32_key bv" using Cons.prems(5) by (auto simp: nth_append less_Suc_eq)
    moreover have "\<forall>j < best. f32_key ((ps @ [v]) ! j) < f32_key bv" using Cons.prems(3,6) by (simp add: nth_append)
    ultimately show ?thesis using Cons.IH [OF nan(2) Cons.prems(2), of best] False Cons.prems(3,4) by (simp add: nth_append)
  qed
qed

lemma argmax_lowest_maximum:
  assumes "list_all (\<lambda>v. \<not> is_nan v) xs" "xs \<noteq> []"
  shows "argmax xs < length xs \<and> (\<forall>j < length xs. f32_key (xs ! j) \<le> f32_key (xs ! argmax xs)) \<and>
    (\<forall>j < argmax xs. f32_key (xs ! j) < f32_key (xs ! argmax xs))"
proof -
  obtain v vs where xs: "xs = v # vs" using assms(2) by (cases xs) auto
  have v: "\<not> is_nan v" "list_all (\<lambda>v. \<not> is_nan v) ([v] @ vs)" using assms(1) xs by simp_all
  define bv where "bv = (if f32_gt v 0xFF800000 then v else 0xFF800000)"
  have inf: "\<not> is_nan 0xFF800000" by code_simp
  then have "f32_key bv = f32_key v" "\<not> is_nan bv" using v(1) neg_inf_least [OF v(1)] by (auto simp: bv_def f32_gt_def)
  moreover have "argmax xs = argmax_from (length [v]) vs 0 bv" by (simp add: argmax_def xs bv_def)
  ultimately show ?thesis using argmax_from_max [OF v(2), of bv 0] xs by (simp add: Let_def)
qed

section \<open>The engine\<close>

record ('kv, 'h, 'm, 'e) engine =
  fwd :: "'kv \<Rightarrow> int list \<Rightarrow> nat \<Rightarrow> 'e + ('kv \<times> 'h list)"
  row_logits :: "'h \<Rightarrow> f32 list"
  start_head :: "'kv \<Rightarrow> nat \<Rightarrow> 'kv"
  head_step :: "'kv \<Rightarrow> int \<Rightarrow> 'h \<Rightarrow> bool \<Rightarrow> nat \<Rightarrow> 'e + ('kv \<times> 'h)"
  head_logits :: "'h \<Rightarrow> f32 list"
  head_absorb :: "'kv \<Rightarrow> int list \<Rightarrow> 'h list \<Rightarrow> nat \<Rightarrow> 'e + 'kv"
  take_snap :: "'kv \<Rightarrow> 'm"
  put_snap :: "'m \<Rightarrow> 'kv \<Rightarrow> 'kv"
  has_mamba :: bool
  has_mtp :: bool
  max_t :: nat
  eng_stops :: "int list"

section \<open>Drafting\<close>

fun draft_loop :: "('kv, 'h, 'm, 'e) engine \<Rightarrow> nat \<Rightarrow> nat \<Rightarrow> 'kv \<Rightarrow> int \<Rightarrow> 'h \<Rightarrow> bool \<Rightarrow> int list \<Rightarrow> 'e + ('kv \<times> int list)" where
  "draft_loop E 0 pos kv tok h raw out = Inr (kv, out)"
| "draft_loop E (Suc left) pos kv tok h raw out =
     (if max_t E \<le> pos + 2 then Inr (kv, out)
      else and_then (head_step E kv tok h raw pos) (\<lambda>(kv, hx).
        let t2 = argmax_i32 (head_logits E hx) in draft_loop E left (pos + 1) kv t2 hx False (out @ [t2])))"

definition draft :: "('kv, 'h, 'm, 'e) engine \<Rightarrow> 'kv \<Rightarrow> int \<Rightarrow> nat \<Rightarrow> nat \<Rightarrow> 'h \<Rightarrow> 'e + ('kv \<times> int list)" where
  "draft E kv next_tok kv_idx g_max last_hidden =
     (if \<not> has_mtp E \<or> kv_idx = 0 \<or> g_max = 0 then Inr (kv, [])
      else let p = kv_idx - 1 in draft_loop E g_max p (start_head E kv p) next_tok last_hidden True [])"

section \<open>The decode loop\<close>

record ('kv, 'h, 'c) decoder =
  d_kv :: 'kv
  d_logit :: "f32 list"
  d_pos :: nat
  d_hlast :: 'h
  d_budget :: nat
  d_proposed :: nat
  d_accepted :: nat
  d_forwards :: nat
  d_emitted :: nat
  d_client :: 'c

text \<open>The longest prefix of the drafts that the model itself would have produced; the flag says that generation is over.\<close>

fun accept_drafts :: "int list \<Rightarrow> ('c \<Rightarrow> int \<Rightarrow> bool \<times> 'c) \<Rightarrow> nat \<Rightarrow> f32 list list \<Rightarrow> int list \<Rightarrow> nat \<Rightarrow> nat \<Rightarrow> 'c \<Rightarrow>
    nat \<times> nat \<times> bool \<times> 'c" where
  "accept_drafts stop_ids on_token n_new los [] k emitted c = (k, emitted, False, c)"
| "accept_drafts stop_ids on_token n_new los (d # ds) k emitted c =
     (if n_new \<le> emitted then (k, emitted, False, c)
      else if argmax_i32 (los ! k) \<noteq> d then (k, emitted, False, c)
      else let (keep, c) = on_token c d
        in if d \<in> set stop_ids \<or> \<not> keep then (k + 1, emitted + 1, True, c)
           else accept_drafts stop_ids on_token n_new los ds (k + 1) (emitted + 1) c)"

definition auto_off :: "('kv, 'h, 'c) decoder \<Rightarrow> ('kv, 'h, 'c) decoder" where
  "auto_off d = (if 0 < d_budget d \<and> 24 \<le> d_proposed d \<and> d_accepted d * 10 < d_proposed d then d\<lparr>d_budget := 0\<rparr> else d)"

text \<open>How many drafts are verified: no more than the caller is owed and the cache has room for.\<close>

definition verify_len :: "nat \<Rightarrow> nat \<Rightarrow> nat \<Rightarrow> nat \<Rightarrow> nat" where
  "verify_len drafts owed pos room =
     (let g = min drafts owed in if room < pos + g + 2 then min (room - (pos + 2)) g else g)"

text \<open>Verification of one batch, from the forward pass to the new decoder state; the flag says to go on.\<close>

definition verify_batch :: "('kv, 'h, 'm, 'e) engine \<Rightarrow> ('c \<Rightarrow> int \<Rightarrow> bool \<times> 'c) \<Rightarrow> nat \<Rightarrow> bool \<Rightarrow> int \<Rightarrow> int list \<Rightarrow>
    ('kv, 'h, 'c) decoder \<Rightarrow> ('e + bool) \<times> ('kv, 'h, 'c) decoder" where
  "verify_batch E on_token n_new track next_tok drafts d =
     (let pos = d_pos d;
          g = verify_len (length drafts) (n_new - d_emitted d) pos (max_t E);
          batch = next_tok # take g drafts;
          snap = take_snap E (d_kv d)
      in case fwd E (d_kv d) batch pos of
           Inl e \<Rightarrow> (Inl e, d)
         | Inr (kv, h_all) \<Rightarrow>
             let los = map (row_logits E) h_all;
                 (k, emitted, fin, c) = accept_drafts (eng_stops E) on_token n_new los (take g drafts) 0 (d_emitted d) (d_client d);
                 d = d\<lparr>d_kv := kv, d_forwards := d_forwards d + 1, d_emitted := emitted, d_client := c,
                       d_accepted := d_accepted d + k\<rparr>
             in case (if track \<and> k < g \<and> \<not> fin
                      then and_then (fwd E (put_snap E snap kv) (take (1 + k) batch) pos) (\<lambda>(kv, _). Inr kv)
                      else Inr kv) of
                  Inl e \<Rightarrow> (Inl e, d)
                | Inr kv \<Rightarrow>
                    (case (if 1 \<le> k then head_absorb E kv (take k drafts) h_all pos else Inr kv) of
                       Inl e \<Rightarrow> (Inl e, d)
                     | Inr kv \<Rightarrow> (Inr (\<not> fin),
                         d\<lparr>d_kv := kv, d_hlast := h_all ! k, d_logit := los ! k, d_pos := pos + 1 + k\<rparr>)))"

definition decode_body :: "('kv, 'h, 'm, 'e) engine \<Rightarrow> ('c \<Rightarrow> int \<Rightarrow> bool \<times> 'c) \<Rightarrow> nat \<Rightarrow> bool \<Rightarrow>
    ('kv, 'h, 'c) decoder \<Rightarrow> ('e + bool) \<times> ('kv, 'h, 'c) decoder" where
  "decode_body E on_token n_new track d =
     (let next_tok = argmax_i32 (d_logit d);
          (keep, c) = on_token (d_client d) next_tok;
          d = d\<lparr>d_client := c, d_emitted := d_emitted d + 1\<rparr>
      in if next_tok \<in> set (eng_stops E) \<or> \<not> keep \<or> n_new \<le> d_emitted d then (Inr False, d)
         else let d = auto_off d
           in case (if 0 < d_budget d then draft E (d_kv d) next_tok (d_pos d) (d_budget d) (d_hlast d) else Inr (d_kv d, [])) of
                Inl e \<Rightarrow> (Inl e, d)
              | Inr (kv, drafts) \<Rightarrow>
                  verify_batch E on_token n_new track next_tok drafts
                    (d\<lparr>d_kv := kv, d_proposed := d_proposed d + length drafts\<rparr>))"

lemma accept_drafts_emitted: "emitted \<le> fst (snd (accept_drafts st on n los ds k emitted c))"
proof (induction ds arbitrary: k emitted c)
  case (Cons x ds)
  have "emitted \<le> fst (snd (accept_drafts st on n los ds (Suc k) (Suc emitted) c'))" for c'
    using Cons [of "Suc emitted" "Suc k" c'] by linarith
  then show ?case by (auto split: prod.splits)
qed simp

lemma verify_batch_emitted: "d_emitted d \<le> d_emitted (snd (verify_batch E on n track t ds d))"
proof -
  have "d_emitted d \<le> em" if "accept_drafts st on n los xs 0 (d_emitted d) c = (k, em, f, c')" for st los xs c k em f c'
    using accept_drafts_emitted [of "d_emitted d" st on n los xs 0 c] that by simp
  then show ?thesis by (auto simp: verify_batch_def Let_def split: sum.splits prod.splits)
qed

lemma auto_off_simps [simp]:
  "d_emitted (auto_off d) = d_emitted d" "d_kv (auto_off d) = d_kv d" "d_pos (auto_off d) = d_pos d"
  "d_logit (auto_off d) = d_logit d" "d_client (auto_off d) = d_client d" "d_hlast (auto_off d) = d_hlast d"
  "d_proposed (auto_off d) = d_proposed d" "d_accepted (auto_off d) = d_accepted d" "d_forwards (auto_off d) = d_forwards d"
  by (simp_all add: auto_off_def)

lemma decode_body_emitted:
  assumes "decode_body E on n track d = (r, d')"
  shows "d_emitted d < d_emitted d'"
proof -
  have "Suc (d_emitted d) \<le> d_emitted (snd (verify_batch E on n track t ds d2))" if "d_emitted d2 = Suc (d_emitted d)" for t ds d2
    using verify_batch_emitted [of d2 E on n track t ds] that by simp
  then have "Suc (d_emitted d) \<le> d_emitted (snd (decode_body E on n track d))"
    unfolding decode_body_def Let_def by (auto split: sum.splits prod.splits if_splits)
  then show ?thesis using assms by simp
qed

function decode_loop :: "('kv, 'h, 'm, 'e) engine \<Rightarrow> ('c \<Rightarrow> int \<Rightarrow> bool \<times> 'c) \<Rightarrow> nat \<Rightarrow> bool \<Rightarrow>
    ('kv, 'h, 'c) decoder \<Rightarrow> ('e + unit) \<times> ('kv, 'h, 'c) decoder" where
  "decode_loop E on_token n_new track d =
     (if d_emitted d < n_new
      then case decode_body E on_token n_new track d of
             (Inl e, d) \<Rightarrow> (Inl e, d)
           | (Inr go, d) \<Rightarrow> if go then decode_loop E on_token n_new track d else (Inr (), d)
      else (Inr (), d))"
  by pat_completeness auto
termination
  by (relation "measure (\<lambda>(E, on, n, track, d). n - d_emitted d)") (auto dest!: decode_body_emitted [OF sym])

declare decode_loop.simps [simp del]

datatype 'e gen_error = Assertion | Engine 'e

record decode_stats =
  st_emitted :: nat
  st_forwards :: nat
  st_proposed :: nat
  st_accepted :: nat

definition stats_of :: "('kv, 'h, 'c) decoder \<Rightarrow> decode_stats" where
  "stats_of d = \<lparr>st_emitted = d_emitted d, st_forwards = d_forwards d, st_proposed = d_proposed d, st_accepted = d_accepted d\<rparr>"

text \<open>\<open>rollback\<close> is the switch \<open>COLI_MTP_ROLLBACK\<close>, on by default; the second component is the client afterwards.\<close>

definition generate_stream_drafting :: "('kv, 'h, 'm, 'e) engine \<Rightarrow> bool \<Rightarrow> 'kv \<Rightarrow> int list \<Rightarrow> nat \<Rightarrow> nat \<Rightarrow>
    ('c \<Rightarrow> int \<Rightarrow> bool \<times> 'c) \<Rightarrow> 'c \<Rightarrow> ('e gen_error + decode_stats) \<times> 'c" where
  "generate_stream_drafting E rollback kv prompt n_new budget on_token c =
     (if prompt = [] \<or> max_t E < length prompt + n_new then (Inl Assertion, c)
      else case fwd E kv prompt 0 of
             Inl e \<Rightarrow> (Inl (Engine e), c)
           | Inr (kv, hidden) \<Rightarrow>
               let s = length prompt; h = hidden ! (s - 1);
                   (r, d) = decode_loop E on_token n_new (has_mamba E \<and> rollback)
                     \<lparr>d_kv = kv, d_logit = row_logits E h, d_pos = s, d_hlast = h,
                      d_budget = (if has_mtp E then budget else 0), d_proposed = 0, d_accepted = 0, d_forwards = 0,
                      d_emitted = 0, d_client = c\<rparr>
               in (case r of Inl e \<Rightarrow> Inl (Engine e) | Inr _ \<Rightarrow> Inr (stats_of d), d_client d))"

definition generate_stream :: "('kv, 'h, 'm, 'e) engine \<Rightarrow> bool \<Rightarrow> nat \<Rightarrow> 'kv \<Rightarrow> int list \<Rightarrow> nat \<Rightarrow>
    ('c \<Rightarrow> int \<Rightarrow> bool \<times> 'c) \<Rightarrow> 'c \<Rightarrow> ('e gen_error + unit) \<times> 'c" where
  "generate_stream E rollback draft_budget kv prompt n_new on_token c =
     (let budget = (if has_mtp E then draft_budget else 0);
          (r, c) = generate_stream_drafting E rollback kv prompt n_new budget on_token c
      in (and_then r (\<lambda>_. Inr ()), c))"

definition generate_greedy :: "('kv, 'h, 'm, 'e) engine \<Rightarrow> bool \<Rightarrow> nat \<Rightarrow> 'kv \<Rightarrow> int list \<Rightarrow> nat \<Rightarrow> 'e gen_error + int list" where
  "generate_greedy E rollback draft_budget kv prompt n_new =
     (let (r, out) = generate_stream E rollback draft_budget kv prompt n_new (\<lambda>out t. (True, out @ [t])) prompt
      in and_then r (\<lambda>_. Inr out))"

section \<open>What a run may emit\<close>

text \<open>
  \<open>may ts t\<close>: \<open>t\<close> is a token that the model chooses after \<open>ts\<close>.  It is a relation, because the rows of
  a pass over several tokens and the row of a pass over one are computed along different paths whose
  rounding can tip the choice.  A chosen continuation ends at its first stop token or at the limit.
\<close>

fun legal :: "(int list \<Rightarrow> int \<Rightarrow> bool) \<Rightarrow> int list \<Rightarrow> int list \<Rightarrow> int list \<Rightarrow> bool" where
  "legal may st ts [] = True"
| "legal may st ts (t # us) = (may ts t \<and> (t \<in> set st \<longrightarrow> us = []) \<and> legal may st (ts @ [t]) us)"

abbreviation stopped :: "int list \<Rightarrow> int list \<Rightarrow> bool" where
  "stopped st us \<equiv> us \<noteq> [] \<and> last us \<in> set st"

definition chosen :: "(int list \<Rightarrow> int \<Rightarrow> bool) \<Rightarrow> int list \<Rightarrow> nat \<Rightarrow> int list \<Rightarrow> int list \<Rightarrow> bool" where
  "chosen may st n ts us \<longleftrightarrow> legal may st ts us \<and> length us \<le> n \<and> (length us < n \<longrightarrow> stopped st us)"

lemma legal_append: "legal may st ts us \<Longrightarrow> \<not> stopped st us \<Longrightarrow> legal may st (ts @ us) vs \<Longrightarrow> legal may st ts (us @ vs)"
proof (induction us arbitrary: ts)
  case (Cons t us)
  have "t \<notin> set st"
  proof
    assume "t \<in> set st"
    moreover from this have "us = []" using Cons.prems(1) by simp
    ultimately show False using Cons.prems(2) by simp
  qed
  moreover have "\<not> stopped st us" using Cons.prems(2) by auto
  ultimately show ?case using Cons by simp
qed simp

lemma legal_take: "legal may st ts us \<Longrightarrow> legal may st ts (take k us)"
proof (induction us arbitrary: ts k)
  case (Cons t us)
  then show ?case by (cases k) auto
qed simp

text \<open>A stop token can only be the last one.\<close>

lemma legal_init: "legal may st ts us \<Longrightarrow> t \<in> set (butlast us) \<Longrightarrow> t \<notin> set st"
proof (induction us arbitrary: ts)
  case (Cons u us)
  then show ?case by (cases "us = []") auto
qed simp

text \<open>When the model's choice is a function, there is one chosen continuation: plain greedy decoding.\<close>

fun greedy_tokens :: "(int list \<Rightarrow> int) \<Rightarrow> int list \<Rightarrow> nat \<Rightarrow> int list \<Rightarrow> int list" where
  "greedy_tokens nxt st 0 ts = []"
| "greedy_tokens nxt st (Suc n) ts =
     (let t = nxt ts in t # (if t \<in> set st then [] else greedy_tokens nxt st n (ts @ [t])))"

lemma chosen_greedy:
  assumes "\<And>ts t. may ts t \<Longrightarrow> t = nxt ts"
  shows "chosen may st n ts us \<Longrightarrow> us = greedy_tokens nxt st n ts"
proof (induction n arbitrary: ts us)
  case (Suc n)
  have "us \<noteq> []" using Suc.prems by (auto simp: chosen_def)
  then obtain t vs where us: "us = t # vs" by (cases us) auto
  have l: "may ts t" "t \<in> set st \<longrightarrow> vs = []" "legal may st (ts @ [t]) vs" "length vs \<le> n"
    "length vs < n \<longrightarrow> stopped st us" using Suc.prems by (simp_all add: chosen_def us)
  have t: "nxt ts = t" using assms [OF l(1)] by simp
  show ?case
  proof (cases "t \<in> set st")
    case False
    then have "chosen may st n (ts @ [t]) vs" using l(3-5) by (auto simp: chosen_def us split: if_splits)
    then show ?thesis using Suc.IH [of "ts @ [t]" vs] False by (simp add: us t Let_def)
  qed (use l(2) in \<open>simp add: us t Let_def\<close>)
qed (simp add: chosen_def)

text \<open>What a client makes of a list of tokens, and whether it wanted all of them.\<close>

fun feed :: "('c \<Rightarrow> int \<Rightarrow> bool \<times> 'c) \<Rightarrow> 'c \<Rightarrow> int list \<Rightarrow> 'c" where
  "feed on c [] = c"
| "feed on c (t # ts) = (case on c t of (keep, c) \<Rightarrow> if keep then feed on c ts else c)"

fun wants :: "('c \<Rightarrow> int \<Rightarrow> bool \<times> 'c) \<Rightarrow> 'c \<Rightarrow> int list \<Rightarrow> bool" where
  "wants on c [] = True"
| "wants on c (t # ts) = (case on c t of (keep, c) \<Rightarrow> keep \<and> wants on c ts)"

abbreviation collect :: "int list \<Rightarrow> int \<Rightarrow> bool \<times> int list" where
  "collect \<equiv> \<lambda>out t. (True, out @ [t])"

lemma feed_append: "feed on c (us @ vs) = (if wants on c us then feed on (feed on c us) vs else feed on c us)"
  by (induction us arbitrary: c) (auto split: prod.splits)

lemma wants_append: "wants on c (us @ vs) \<longleftrightarrow> wants on c us \<and> wants on (feed on c us) vs"
  by (induction us arbitrary: c) (auto split: prod.splits)

lemma feed_collect [simp]: "feed collect out ts = out @ ts"
  by (induction ts arbitrary: out) simp_all

lemma wants_collect [simp]: "wants collect out ts"
  by (induction ts arbitrary: out) simp_all

section \<open>What the numeric parts promise\<close>

text \<open>
  \<open>holds kv ts\<close>: the cache represents the sequence \<open>ts\<close>.  A pass over a batch returns a row for each of
  its tokens, and the token read off row \<open>i\<close> is one that the model may choose after the first \<open>i + 1\<close>
  tokens of the batch.  After the prompt, batches of at most \<open>w + 1\<close> tokens are asked for.
\<close>

definition forward_ok :: "('kv, 'h, 'm, 'e) engine \<Rightarrow> ('kv \<Rightarrow> int list \<Rightarrow> bool) \<Rightarrow> (int list \<Rightarrow> int \<Rightarrow> bool) \<Rightarrow> nat \<Rightarrow> bool" where
  "forward_ok E holds may w \<longleftrightarrow> (\<forall>kv ts batch. holds kv ts \<longrightarrow> batch \<noteq> [] \<longrightarrow> length ts + length batch \<le> max_t E \<longrightarrow>
     ts = [] \<or> length batch \<le> Suc w \<longrightarrow>
     (\<exists>kv' hs. fwd E kv batch (length ts) = Inr (kv', hs) \<and> length hs = length batch \<and> holds kv' (ts @ batch) \<and>
       (\<forall>i < length batch. may (ts @ take (Suc i) batch) (argmax_i32 (row_logits E (hs ! i))))))"

definition rejected_rows_dead :: "('kv, 'h, 'm, 'e) engine \<Rightarrow> ('kv \<Rightarrow> int list \<Rightarrow> bool) \<Rightarrow> bool" where
  "rejected_rows_dead E holds \<longleftrightarrow> (\<not> has_mamba E \<longrightarrow> (\<forall>kv ts us. holds kv (ts @ us) \<longrightarrow> holds kv ts))"

definition snapshot_restores :: "('kv, 'h, 'm, 'e) engine \<Rightarrow> ('kv \<Rightarrow> int list \<Rightarrow> bool) \<Rightarrow> bool" where
  "snapshot_restores E holds \<longleftrightarrow> (\<forall>kv ts us kv'. holds kv ts \<longrightarrow> holds kv' (ts @ us) \<longrightarrow> holds (put_snap E (take_snap E kv) kv') ts)"

definition head_harmless :: "('kv, 'h, 'm, 'e) engine \<Rightarrow> ('kv \<Rightarrow> int list \<Rightarrow> bool) \<Rightarrow> bool" where
  "head_harmless E holds \<longleftrightarrow> (\<forall>kv ts p. holds kv ts \<longrightarrow> holds (start_head E kv p) ts) \<and>
     (\<forall>kv ts tok h raw p. holds kv ts \<longrightarrow> (\<exists>kv' h'. head_step E kv tok h raw p = Inr (kv', h') \<and> holds kv' ts)) \<and>
     (\<forall>kv ts ds hs p. holds kv ts \<longrightarrow> (\<exists>kv'. head_absorb E kv ds hs p = Inr kv' \<and> holds kv' ts))"

definition engine_ok :: "('kv, 'h, 'm, 'e) engine \<Rightarrow> ('kv \<Rightarrow> int list \<Rightarrow> bool) \<Rightarrow> (int list \<Rightarrow> int \<Rightarrow> bool) \<Rightarrow> nat \<Rightarrow> bool" where
  "engine_ok E holds may w \<longleftrightarrow> forward_ok E holds may w \<and> rejected_rows_dead E holds \<and> snapshot_restores E holds \<and> head_harmless E holds"

section \<open>Every emitted token is the model's\<close>

lemma draft_loop_holds:
  assumes "head_harmless E holds" and "holds kv ts"
  shows "\<exists>kv' ds. draft_loop E g pos kv tok h raw out = Inr (kv', ds) \<and> holds kv' ts \<and> length ds \<le> length out + g"
  using assms(2)
proof (induction g arbitrary: pos kv tok h raw out)
  case (Suc g)
  obtain kv1 h1 where s: "head_step E kv tok h raw pos = Inr (kv1, h1)" "holds kv1 ts"
    using assms(1) Suc.prems unfolding head_harmless_def by blast
  let ?t2 = "argmax_i32 (head_logits E h1)"
  obtain kv2 ds where r: "draft_loop E g (pos + 1) kv1 ?t2 h1 False (out @ [?t2]) = Inr (kv2, ds)" "holds kv2 ts" "length ds \<le> length (out @ [?t2]) + g"
    using Suc.IH [OF s(2)] by blast
  show ?case
  proof (cases "max_t E \<le> pos + 2")
    case False
    then have "draft_loop E (Suc g) pos kv tok h raw out = Inr (kv2, ds)" using s(1) r(1) by (simp add: Let_def)
    then show ?thesis using r(2,3) by simp
  qed (use Suc.prems in simp)
qed simp

lemma draft_holds:
  assumes "head_harmless E holds" and "holds kv ts"
  shows "\<exists>kv' ds. draft E kv tok i g h = Inr (kv', ds) \<and> holds kv' ts \<and> length ds \<le> g"
proof -
  have "holds (start_head E kv (i - 1)) ts" using assms unfolding head_harmless_def by blast
  from draft_loop_holds [OF assms(1) this, of g "i - 1" tok h True "[]"] show ?thesis using assms(2) by (auto simp: draft_def Let_def)
qed

lemma verify_len_bounds: "verify_len a b pos room \<le> a" "verify_len a b pos room \<le> b"
  by (auto simp: verify_len_def Let_def min_def)

text \<open>What verification accepts, seen by a client that only collects.\<close>

lemma accept_collect:
  assumes rows: "\<And>i. i \<le> length ds0 \<Longrightarrow> may (ts @ take i ds0) (argmax_i32 (los ! i))"
    and "ds = drop k ds0" "k \<le> length ds0" "em \<le> n"
  shows "\<exists>vs. (\<forall>out. accept_drafts st collect n los ds k em out = (k + length vs, em + length vs, stopped st vs, out @ vs)) \<and>
    vs = take (length vs) ds \<and> em + length vs \<le> n \<and> legal may st (ts @ take k ds0) vs"
  using assms(2-)
proof (induction ds arbitrary: k em)
  case (Cons d ds)
  show ?case
  proof (cases "n \<le> em \<or> argmax_i32 (los ! k) \<noteq> d")
    case True
    then show ?thesis using Cons.prems(3) by (intro exI [of _ "[]"]) auto
  next
    case False
    have k: "k < length ds0" "d = ds0 ! k" "ds = drop (Suc k) ds0"
      using Cons.prems(1,2) by (metis drop_all leI list.distinct(1), metis Cons_nth_drop_Suc drop_all leI list.distinct(1) list.inject,
        metis Cons.prems(1) drop_Suc list.sel(3) tl_drop)
    then have m: "may (ts @ take k ds0) d" using rows [of k] False by simp
    have tk: "ts @ take (Suc k) ds0 = (ts @ take k ds0) @ [d]" using k by (simp add: take_Suc_conv_app_nth)
    show ?thesis
    proof (cases "d \<in> set st")
      case True
      then show ?thesis using False m by (intro exI [of _ "[d]"]) simp
    next
      case stop: False
      from Cons.IH [OF k(3), of "Suc em"] k(1) False obtain vs where vs:
        "\<And>out. accept_drafts st collect n los ds (Suc k) (Suc em) out = (Suc k + length vs, Suc em + length vs, stopped st vs, out @ vs)"
        "vs = take (length vs) ds" "Suc em + length vs \<le> n" "legal may st (ts @ take (Suc k) ds0) vs" by auto
      have "stopped st (d # vs) = stopped st vs" using stop by auto
      moreover have "accept_drafts st collect n los (d # ds) k em out = (k + length (d # vs), em + length (d # vs), stopped st vs, out @ d # vs)" for out
        using False stop vs(1) [of "out @ [d]"] by simp
      moreover have "legal may st (ts @ take k ds0) (d # vs)" using m stop vs(4) by (simp add: tk)
      ultimately show ?thesis using vs(2,3) by (intro exI [of _ "d # vs"]) simp
    qed
  qed
qed auto

lemma accept_extends:
  "\<exists>vs f. accept_drafts st collect n los ds k em out = (k + length vs, em + length vs, f, out @ vs)"
proof (induction ds arbitrary: k em out)
  case (Cons d ds)
  obtain vs f where "accept_drafts st collect n los ds (Suc k) (Suc em) (out @ [d])
      = (Suc k + length vs, Suc em + length vs, f, (out @ [d]) @ vs)" using Cons.IH by blast
  then have "accept_drafts st collect n los (d # ds) k em out = (k, em, False, out) \<or>
    accept_drafts st collect n los (d # ds) k em out = (k + 1, em + 1, True, out @ [d]) \<or>
    accept_drafts st collect n los (d # ds) k em out = (k + length (d # vs), em + length (d # vs), f, out @ d # vs)" by auto
  then consider "accept_drafts st collect n los (d # ds) k em out = (k, em, False, out)"
    | "accept_drafts st collect n los (d # ds) k em out = (k + 1, em + 1, True, out @ [d])"
    | "accept_drafts st collect n los (d # ds) k em out = (k + length (d # vs), em + length (d # vs), f, out @ d # vs)" by blast
  then show ?case
  proof cases
    case 1
    then show ?thesis by (intro exI [of _ "[]"] exI [of _ False]) simp
  next
    case 2
    then show ?thesis by (intro exI [of _ "[d]"] exI [of _ True]) simp
  next
    case 3
    then show ?thesis by blast
  qed
qed auto

text \<open>Any other client hears the same tokens until it has had enough.\<close>

lemma accept_any:
  assumes "accept_drafts st collect n los ds k em out = (k + length vs, em + length vs, fin, out @ vs)"
  shows "if wants on c vs then accept_drafts st on n los ds k em c = (k + length vs, em + length vs, fin, feed on c vs)
    else \<exists>j \<le> length vs. accept_drafts st on n los ds k em c = (k + j, em + j, True, feed on c vs)"
  using assms
proof (induction ds arbitrary: k em out vs c)
  case (Cons d ds)
  show ?case
  proof (cases "n \<le> em \<or> argmax_i32 (los ! k) \<noteq> d")
    case True
    then have "vs = []" "\<not> fin" using Cons.prems by (cases "n \<le> em"; simp)+
    then show ?thesis using True by auto
  next
    case False
    obtain keep c1 where on: "on c d = (keep, c1)" by fastforce
    show ?thesis
    proof (cases "d \<in> set st")
      case True
      then have "length vs = 1" "fin" "vs = [d]" using Cons.prems False by auto
      then show ?thesis using True False on by (auto intro: exI [of _ 1])
    next
      case stop: False
      then have a: "accept_drafts st collect n los ds (Suc k) (Suc em) (out @ [d]) = (k + length vs, em + length vs, fin, out @ vs)"
        using Cons.prems False by simp
      have "\<exists>us. accept_drafts st collect n los ds (Suc k) (Suc em) (out @ [d]) = (Suc k + length us, Suc em + length us, fin, (out @ [d]) @ us)"
        using a accept_extends [of st n los ds "Suc k" "Suc em" "out @ [d]"] by auto
      then obtain us where us: "accept_drafts st collect n los ds (Suc k) (Suc em) (out @ [d]) = (Suc k + length us, Suc em + length us, fin, (out @ [d]) @ us)" ..
      then have vs: "vs = d # us" using a by simp
      show ?thesis
      proof (cases keep)
        case True
        then show ?thesis using Cons.IH [OF us, of c1] False stop on by (auto simp: vs intro: exI [of _ "Suc _"])
      next
        case nk: False
        then show ?thesis using False on by (auto simp: vs intro!: exI [of _ 1])
      qed
    qed
  qed
qed (auto simp: )

lemma absorb_holds:
  assumes "head_harmless E holds" "holds kv ts" "head_absorb E kv ds hs p = Inr kv'"
  shows "holds kv' ts"
proof -
  obtain kv2 where "head_absorb E kv ds hs p = Inr kv2" "holds kv2 ts" using assms(1,2) unfolding head_harmless_def by blast
  then show ?thesis using assms(3) by simp
qed

definition in_step :: "('kv, 'h, 'm, 'e) engine \<Rightarrow> ('kv \<Rightarrow> int list \<Rightarrow> bool) \<Rightarrow> (int list \<Rightarrow> int \<Rightarrow> bool) \<Rightarrow> ('kv, 'h, 'c) decoder \<Rightarrow> int list \<Rightarrow> bool" where
  "in_step E holds may d ts \<longleftrightarrow> holds (d_kv d) ts \<and> d_pos d = length ts \<and> may ts (argmax_i32 (d_logit d))"

lemma forward_okD:
  assumes "forward_ok E holds may w" "holds kv ts" "batch \<noteq> []" "length ts + length batch \<le> max_t E" "ts = [] \<or> length batch \<le> Suc w"
  obtains kv' hs where "fwd E kv batch (length ts) = Inr (kv', hs)" "length hs = length batch" "holds kv' (ts @ batch)"
    "\<And>i. i < length batch \<Longrightarrow> may (ts @ take (Suc i) batch) (argmax_i32 (row_logits E (hs ! i)))"
  using assms unfolding forward_ok_def by blast

text \<open>The cache after a verified batch represents the accepted prefix: kept, truncated or replayed.\<close>

lemma settle_cache:
  assumes ok: "engine_ok E holds may w" and track: "track \<longleftrightarrow> has_mamba E"
    and kv: "holds kv ts" and kv': "holds kv' (ts @ batch)" and k: "k < length batch"
    and room: "length ts + length batch \<le> max_t E" and g: "Suc g = length batch" "length batch \<le> Suc w"
  shows "\<exists>kv2. (if track \<and> k < g \<and> \<not> fin
      then and_then (fwd E (put_snap E (take_snap E kv) kv') (take (1 + k) batch) (length ts)) (\<lambda>(kv, _). Inr kv)
      else Inr kv') = Inr kv2 \<and> (\<exists>us. holds kv2 us) \<and> (\<not> fin \<longrightarrow> holds kv2 (ts @ take (Suc k) batch))"
proof (cases "track \<and> k < g \<and> \<not> fin")
  case True
  have "holds (put_snap E (take_snap E kv) kv') ts" using ok kv kv' unfolding engine_ok_def snapshot_restores_def by blast
  moreover have "forward_ok E holds may w" using ok by (simp add: engine_ok_def)
  moreover have "take (1 + k) batch \<noteq> []" "length ts + length (take (1 + k) batch) \<le> max_t E"
    "ts = [] \<or> length (take (1 + k) batch) \<le> Suc w" using k room g by auto
  ultimately obtain kv2 hs where "fwd E (put_snap E (take_snap E kv) kv') (take (1 + k) batch) (length ts) = Inr (kv2, hs)"
    "holds kv2 (ts @ take (1 + k) batch)" using forward_okD by metis
  then show ?thesis using True by auto
next
  case False
  have "holds kv' (ts @ take (Suc k) batch)" if "\<not> fin"
  proof (cases "k < g")
    case True
    then have "\<not> has_mamba E" using False that track by simp
    moreover have "rejected_rows_dead E holds" using ok by (simp add: engine_ok_def)
    moreover have "holds kv' ((ts @ take (Suc k) batch) @ drop (Suc k) batch)" using kv' by simp
    ultimately show ?thesis unfolding rejected_rows_dead_def by blast
  qed (use kv' k g in simp)
  then show ?thesis using False kv' by auto
qed

text \<open>
  A decoder without its client, and a step of the loop that lets every client hear the tokens \<open>us\<close>: a
  client that wants them all leads to the state \<open>d0\<close> with the result \<open>r\<close>, any other ends the run.
\<close>

definition with_client :: "'b \<Rightarrow> ('kv, 'h, 'c) decoder \<Rightarrow> ('kv, 'h, 'b) decoder" where
  "with_client c d = \<lparr>d_kv = d_kv d, d_logit = d_logit d, d_pos = d_pos d, d_hlast = d_hlast d, d_budget = d_budget d,
     d_proposed = d_proposed d, d_accepted = d_accepted d, d_forwards = d_forwards d, d_emitted = d_emitted d, d_client = c\<rparr>"

lemma with_client_simps [simp]:
  "d_kv (with_client c d) = d_kv d" "d_logit (with_client c d) = d_logit d" "d_pos (with_client c d) = d_pos d"
  "d_hlast (with_client c d) = d_hlast d" "d_budget (with_client c d) = d_budget d" "d_proposed (with_client c d) = d_proposed d"
  "d_accepted (with_client c d) = d_accepted d" "d_forwards (with_client c d) = d_forwards d"
  "d_emitted (with_client c d) = d_emitted d" "d_client (with_client c d) = c"
  by (simp_all add: with_client_def)

lemma with_client_update:
  "(with_client c d)\<lparr>d_client := c', d_emitted := n\<rparr> = with_client c' (d\<lparr>d_emitted := n\<rparr>)"
  "(with_client c d)\<lparr>d_kv := kv, d_proposed := n\<rparr> = with_client c (d\<lparr>d_kv := kv, d_proposed := n\<rparr>)"
  "auto_off (with_client c d) = with_client c (auto_off d)"
  by (simp_all add: with_client_def auto_off_def)

definition follows :: "(('kv, 'h, 'c) decoder \<Rightarrow> ('e + 'r) \<times> ('kv, 'h, 'c) decoder) \<Rightarrow> 'r \<Rightarrow> 'r \<Rightarrow> ('c \<Rightarrow> int \<Rightarrow> bool \<times> 'c) \<Rightarrow>
    nat \<Rightarrow> int list \<Rightarrow> ('kv, 'h, unit) decoder \<Rightarrow> ('kv, 'h, unit) decoder \<Rightarrow> bool" where
  "follows f r stop on n us d d0 \<longleftrightarrow> (\<forall>c.
     if wants on c us then f (with_client c d) = (Inr r, with_client (feed on c us) d0)
     else (\<exists>d'. f (with_client c d) = (Inr stop, d') \<and> d_client d' = feed on c us \<and> d_emitted d' \<le> n))"

text \<open>One verified batch, once the results of its parts are known.\<close>

lemma verify_batch_parts:
  fixes d :: "('kv, 'h, unit) decoder" and E :: "('kv, 'h, 'm, 'e) engine" and n :: nat and ds :: "int list"
  defines "g \<equiv> verify_len (length ds) (n - d_emitted d) (d_pos d) (max_t E)"
  assumes "fwd E (d_kv d) (t # take g ds) (d_pos d) = Inr (kv1, hs)"
    and "accept_drafts (eng_stops E) on n (map (row_logits E) hs) (take g ds) 0 (d_emitted d) c = (k, em, fin, c')"
    and "(if track \<and> k < g \<and> \<not> fin
      then and_then (fwd E (put_snap E (take_snap E (d_kv d)) kv1) (take (1 + k) (t # take g ds)) (d_pos d)) (\<lambda>(kv, _). Inr kv)
      else Inr kv1) = Inr kv2"
    and "(if 1 \<le> k then head_absorb E kv2 (take k ds) hs (d_pos d) else Inr kv2) = Inr kv3"
  shows "verify_batch E on n track t ds (with_client c d) = (Inr (\<not> fin), with_client c' (d\<lparr>d_kv := kv3, d_forwards := d_forwards d + 1,
      d_emitted := em, d_accepted := d_accepted d + k, d_hlast := hs ! k, d_logit := map (row_logits E) hs ! k, d_pos := d_pos d + 1 + k\<rparr>))"
  unfolding verify_batch_def Let_def with_client_simps g_def [symmetric] assms(2) sum.case prod.case assms(3)
  using assms(4,5) by (simp add: with_client_def)

lemma verify_batch_follows:
  fixes on :: "'c \<Rightarrow> int \<Rightarrow> bool \<times> 'c" and d :: "('kv, 'h, unit) decoder"
  assumes ok: "engine_ok E holds may w" and track: "track \<longleftrightarrow> has_mamba E" and w: "length ds \<le> w"
    and st: "holds (d_kv d) ts" "d_pos d = length ts" "may ts t"
    and em: "d_emitted d \<le> n" "length ts + 1 + (n - d_emitted d) \<le> max_t E"
  shows "\<exists>vs fin d0. legal may (eng_stops E) (ts @ [t]) vs \<and> (fin \<longleftrightarrow> stopped (eng_stops E) vs) \<and>
    d_emitted d0 = d_emitted d + length vs \<and> d_emitted d0 \<le> n \<and> d_budget d0 = d_budget d \<and>
    (\<not> fin \<longrightarrow> in_step E holds may d0 (ts @ t # vs)) \<and>
    follows (verify_batch E collect n track t ds) (\<not> fin) False collect n vs d d0 \<and>
    follows (verify_batch E on n track t ds) (\<not> fin) False on n vs d d0"
proof -
  define g where "g = verify_len (length ds) (n - d_emitted d) (d_pos d) (max_t E)"
  define batch where "batch = t # take g ds"
  have g: "g \<le> length ds" "g \<le> n - d_emitted d" unfolding g_def by (rule verify_len_bounds)+
  have len: "length batch = Suc g" "batch \<noteq> []" using g(1) by (simp_all add: batch_def)
  have room: "length ts + length batch \<le> max_t E" using len(1) g(2) em(2) by linarith
  have wide: "length batch \<le> Suc w" using len(1) g(1) w by linarith
  have fo: "forward_ok E holds may w" and hh: "head_harmless E holds" using ok by (simp_all add: engine_ok_def)
  obtain kv1 hs where f: "fwd E (d_kv d) batch (length ts) = Inr (kv1, hs)" "length hs = length batch" "holds kv1 (ts @ batch)"
    "\<And>i. i < length batch \<Longrightarrow> may (ts @ take (Suc i) batch) (argmax_i32 (row_logits E (hs ! i)))"
    using forward_okD [OF fo st(1) len(2) room] wide by metis
  define los where "los = map (row_logits E) hs"
  have rows: "may ((ts @ [t]) @ take i (take g ds)) (argmax_i32 (los ! i))" if "i \<le> length (take g ds)" for i
    using f(2) f(4) [of i] that len(1) g(1) by (simp add: los_def batch_def)
  have "take g ds = drop 0 (take g ds)" "0 \<le> length (take g ds)" by simp_all
  note ac = accept_collect [where may = may and st = "eng_stops E", OF rows this em(1)]
  obtain vs where vs: "\<And>out. accept_drafts (eng_stops E) collect n los (take g ds) 0 (d_emitted d) out
      = (length vs, d_emitted d + length vs, stopped (eng_stops E) vs, out @ vs)"
    "vs = take (length vs) (take g ds)" "d_emitted d + length vs \<le> n" "legal may (eng_stops E) (ts @ [t]) vs"
    using ac by (metis add_0 append.right_neutral take0)
  define fin where "fin = stopped (eng_stops E) vs"
  have kl: "length vs \<le> g" using arg_cong [OF vs(2), of length] g(1) by simp
  have us: "ts @ take (Suc (length vs)) batch = ts @ t # vs" using vs(2) by (simp add: batch_def)
  have parts: "\<exists>kv2 kv3. (if track \<and> k < g \<and> \<not> fn
      then and_then (fwd E (put_snap E (take_snap E (d_kv d)) kv1) (take (1 + k) batch) (length ts)) (\<lambda>(kv, _). Inr kv)
      else Inr kv1) = Inr kv2 \<and> (if 1 \<le> k then head_absorb E kv2 (take k ds) hs (length ts) else Inr kv2) = Inr kv3 \<and>
      (\<not> fn \<longrightarrow> holds kv3 (ts @ take (Suc k) batch))" if "k \<le> g" for k fn
  proof -
    have kb: "k < length batch" using that len(1) by simp
    obtain kv2 us0 where s: "(if track \<and> k < g \<and> \<not> fn
      then and_then (fwd E (put_snap E (take_snap E (d_kv d)) kv1) (take (1 + k) batch) (length ts)) (\<lambda>(kv, _). Inr kv)
      else Inr kv1) = Inr kv2" "holds kv2 us0" "\<not> fn \<Longrightarrow> holds kv2 (ts @ take (Suc k) batch)"
      using settle_cache [OF ok track st(1) f(3) kb room len(1) [symmetric] wide, of fn] by blast
    obtain kv3 where "head_absorb E kv2 (take k ds) hs (length ts) = Inr kv3" using hh s(2) unfolding head_harmless_def by blast
    moreover from this have "holds kv3 (ts @ take (Suc k) batch)" if "\<not> fn" using absorb_holds [OF hh s(3) [OF that]] by blast
    ultimately show ?thesis using s by (cases "1 \<le> k") auto
  qed
  obtain kv2 kv3 where p: "(if track \<and> length vs < g \<and> \<not> fin
      then and_then (fwd E (put_snap E (take_snap E (d_kv d)) kv1) (take (1 + length vs) batch) (length ts)) (\<lambda>(kv, _). Inr kv)
      else Inr kv1) = Inr kv2" "(if 1 \<le> length vs then head_absorb E kv2 (take (length vs) ds) hs (length ts) else Inr kv2) = Inr kv3"
    "\<not> fin \<Longrightarrow> holds kv3 (ts @ t # vs)" using parts [OF kl, of fin] us by auto
  define d0 where "d0 = d\<lparr>d_kv := kv3, d_forwards := d_forwards d + 1, d_emitted := d_emitted d + length vs,
      d_accepted := d_accepted d + length vs, d_hlast := hs ! length vs, d_logit := los ! length vs, d_pos := length ts + 1 + length vs\<rparr>"
  note body = verify_batch_parts [of E d t ds n kv1 hs, folded g_def batch_def los_def, unfolded st(2), OF f(1)]
  have keep: "verify_batch E on' n track t ds (with_client c d) = (Inr (\<not> fin), with_client c' d0)"
    if "accept_drafts (eng_stops E) on' n los (take g ds) 0 (d_emitted d) c = (length vs, d_emitted d + length vs, fin, c')" for on' :: "'z \<Rightarrow> int \<Rightarrow> bool \<times> 'z" and c c'
    unfolding d0_def by (rule body [OF that p(1,2)])
  have "follows (verify_batch E collect n track t ds) (\<not> fin) False collect n vs d d0"
    unfolding follows_def using keep [OF vs(1) [folded fin_def]] by simp
  moreover have "follows (verify_batch E on n track t ds) (\<not> fin) False on n vs d d0"
    unfolding follows_def
  proof
    fix c
    note any = accept_any [where k = 0, unfolded add_0, OF vs(1) [folded fin_def], of on c]
    show "if wants on c vs then verify_batch E on n track t ds (with_client c d) = (Inr (\<not> fin), with_client (feed on c vs) d0)
     else (\<exists>d'. verify_batch E on n track t ds (with_client c d) = (Inr False, d') \<and> d_client d' = feed on c vs \<and> d_emitted d' \<le> n)"
    proof (cases "wants on c vs")
      case True
      then show ?thesis using keep any by simp
    next
      case False
      then obtain j where j: "j \<le> length vs" "accept_drafts (eng_stops E) on n los (take g ds) 0 (d_emitted d) c
        = (j, d_emitted d + j, True, feed on c vs)" using any by auto
      have "j \<le> g" using j(1) kl by simp
      then obtain kv3' where a: "(if 1 \<le> j then head_absorb E kv1 (take j ds) hs (length ts) else Inr kv1) = Inr kv3'"
        using parts [of j True] by auto
      have "verify_batch E on n track t ds (with_client c d) = (Inr (\<not> True), with_client (feed on c vs) (d\<lparr>d_kv := kv3',
          d_forwards := d_forwards d + 1, d_emitted := d_emitted d + j, d_accepted := d_accepted d + j, d_hlast := hs ! j,
          d_logit := los ! j, d_pos := length ts + 1 + j\<rparr>))"
        by (rule body [OF j(2) _ a]) simp
      then show ?thesis using False j(1) vs(3) by simp
    qed
  qed
  moreover have "in_step E holds may d0 (ts @ t # vs)" if "\<not> fin"
    using p(3) [OF that] rows [of "length vs"] kl g(1) vs(2) st(2) by (simp add: in_step_def d0_def)
  ultimately show ?thesis using vs(3,4) by (intro exI [of _ vs] exI [of _ fin] exI [of _ d0]) (simp add: fin_def d0_def)
qed

lemma decode_body_follows:
  fixes on :: "'c \<Rightarrow> int \<Rightarrow> bool \<times> 'c" and d :: "('kv, 'h, unit) decoder"
  assumes ok: "engine_ok E holds may w" and track: "track \<longleftrightarrow> has_mamba E" and w: "d_budget d \<le> w"
    and st: "in_step E holds may d ts" and em: "d_emitted d < n" "length ts + (n - d_emitted d) \<le> max_t E"
  shows "\<exists>us fin d0. us \<noteq> [] \<and> legal may (eng_stops E) ts us \<and> (fin \<longrightarrow> stopped (eng_stops E) us \<or> d_emitted d0 = n) \<and>
    d_emitted d0 = d_emitted d + length us \<and> d_emitted d0 \<le> n \<and> d_budget d0 \<le> w \<and>
    (\<not> fin \<longrightarrow> in_step E holds may d0 (ts @ us) \<and> \<not> stopped (eng_stops E) us) \<and>
    follows (decode_body E collect n track) (\<not> fin) False collect n us d d0 \<and>
    follows (decode_body E on n track) (\<not> fin) False on n us d d0"
proof -
  define t where "t = argmax_i32 (d_logit d)"
  have t: "may ts t" "holds (d_kv d) ts" "d_pos d = length ts" using st by (simp_all add: t_def in_step_def)
  define d1 where "d1 = d\<lparr>d_emitted := d_emitted d + 1\<rparr>"
  have body: "decode_body E on' n track (with_client c d) = (case on' c t of (keep, c) \<Rightarrow>
      if t \<in> set (eng_stops E) \<or> \<not> keep \<or> n \<le> d_emitted d1 then (Inr False, with_client c d1)
      else case (if 0 < d_budget (auto_off d1) then draft E (d_kv d) t (length ts) (d_budget (auto_off d1)) (d_hlast d) else Inr (d_kv d, [])) of
        Inl e \<Rightarrow> (Inl e, with_client c (auto_off d1))
      | Inr (kv, ds) \<Rightarrow> verify_batch E on' n track t ds (with_client c ((auto_off d1)\<lparr>d_kv := kv, d_proposed := d_proposed d + length ds\<rparr>)))"
    for on' :: "'z \<Rightarrow> int \<Rightarrow> bool \<times> 'z" and c
    by (simp add: decode_body_def Let_def t_def [symmetric] d1_def t(3) with_client_update split: prod.split sum.split)
  show ?thesis
  proof (cases "t \<in> set (eng_stops E) \<or> n \<le> d_emitted d1")
    case True
    have one: "follows (decode_body E on' n track) False False on' n [t] d d1" for on' :: "'z \<Rightarrow> int \<Rightarrow> bool \<times> 'z"
      unfolding follows_def body using True em(1) by (auto simp: d1_def split: prod.splits)
    show ?thesis using one [of collect] one [of on] True t(1) em(1) w
      by (intro exI [of _ "[t]"] exI [of _ True] exI [of _ d1]) (auto simp: d1_def)
  next
    case go: False
    define d2 where "d2 = auto_off d1"
    have d2: "d_budget d2 \<le> w" "d_emitted d2 = d_emitted d + 1" using w by (simp_all add: d2_def d1_def auto_off_def)
    have "head_harmless E holds" using ok by (simp add: engine_ok_def)
    from draft_holds [OF this t(2), of t "length ts" "d_budget d2" "d_hlast d"] obtain kv ds where
      dr: "(if 0 < d_budget d2 then draft E (d_kv d) t (length ts) (d_budget d2) (d_hlast d) else Inr (d_kv d, [])) = Inr (kv, ds)"
      "holds kv ts" "length ds \<le> d_budget d2"
      using t(2) by (cases "0 < d_budget d2") auto
    define d3 where "d3 = d2\<lparr>d_kv := kv, d_proposed := d_proposed d + length ds\<rparr>"
    have d3: "holds (d_kv d3) ts" "d_pos d3 = length ts" "d_emitted d3 = Suc (d_emitted d)" "d_budget d3 \<le> w"
      using dr(2) t(3) d2 by (simp_all add: d3_def d2_def d1_def)
    have lw: "length ds \<le> w" using dr(3) d2(1) by linarith
    have em3: "d_emitted d3 \<le> n" "length ts + 1 + (n - d_emitted d3) \<le> max_t E" using d3(3) em by linarith+
    obtain vs fin d0 where v: "legal may (eng_stops E) (ts @ [t]) vs" "fin \<longleftrightarrow> stopped (eng_stops E) vs"
      "d_emitted d0 = d_emitted d3 + length vs" "d_emitted d0 \<le> n" "d_budget d0 = d_budget d3"
      "\<not> fin \<Longrightarrow> in_step E holds may d0 (ts @ t # vs)"
      "follows (verify_batch E collect n track t ds) (\<not> fin) False collect n vs d3 d0"
      "follows (verify_batch E on n track t ds) (\<not> fin) False on n vs d3 d0"
      using verify_batch_follows [OF ok track lw d3(1,2) t(1) em3, of on] by blast
    have step: "decode_body E on' n track (with_client c d) = (case on' c t of (keep, c) \<Rightarrow>
        if keep then verify_batch E on' n track t ds (with_client c d3) else (Inr False, with_client c d1))" for on' :: "'z \<Rightarrow> int \<Rightarrow> bool \<times> 'z" and c
      unfolding body d2_def [symmetric] dr(1) using go by (auto simp: d3_def split: prod.splits)
    have "follows (decode_body E on' n track) (\<not> fin) False on' n (t # vs) d d0"
      if "follows (verify_batch E on' n track t ds) (\<not> fin) False on' n vs d3 d0" for on' :: "'z \<Rightarrow> int \<Rightarrow> bool \<times> 'z"
      using that em(1) unfolding follows_def step by (auto simp: d1_def split: prod.splits if_splits)
    note both = this [OF v(7)] this [OF v(8)]
    have "stopped (eng_stops E) (t # vs) \<longleftrightarrow> stopped (eng_stops E) vs" using go by auto
    then show ?thesis using both v(1-6) t(1) go d3(3,4) by (intro exI [of _ "t # vs"] exI [of _ fin] exI [of _ d0]) auto
  qed
qed

lemma decode_loop_follows:
  fixes on :: "'c \<Rightarrow> int \<Rightarrow> bool \<times> 'c" and d :: "('kv, 'h, unit) decoder"
  assumes ok: "engine_ok E holds may w" and track: "track \<longleftrightarrow> has_mamba E"
    and "d_budget d \<le> w" "in_step E holds may d ts" "d_emitted d \<le> n" "length ts + (n - d_emitted d) \<le> max_t E"
  shows "\<exists>us d0. chosen may (eng_stops E) (n - d_emitted d) ts us \<and> d_emitted d0 = d_emitted d + length us \<and>
    follows (decode_loop E collect n track) () () collect n us d d0 \<and> follows (decode_loop E on n track) () () on n us d d0"
  using assms(3-)
proof (induction "n - d_emitted d" arbitrary: d ts rule: less_induct)
  case less
  show ?case
  proof (cases "d_emitted d < n")
    case False
    then have none: "follows (decode_loop E on' n track) () () on' n [] d d" for on' :: "'z \<Rightarrow> int \<Rightarrow> bool \<times> 'z"
      by (simp add: follows_def decode_loop.simps)
    show ?thesis using False none [of collect] none [of on] by (intro exI [of _ "[]"] exI [of _ d]) (simp add: chosen_def)
  next
    case True
    obtain us fin d1 where b: "us \<noteq> []" "legal may (eng_stops E) ts us" "fin \<Longrightarrow> stopped (eng_stops E) us \<or> d_emitted d1 = n"
      "d_emitted d1 = d_emitted d + length us" "d_emitted d1 \<le> n" "d_budget d1 \<le> w"
      "\<not> fin \<Longrightarrow> in_step E holds may d1 (ts @ us) \<and> \<not> stopped (eng_stops E) us"
      "follows (decode_body E collect n track) (\<not> fin) False collect n us d d1"
      "follows (decode_body E on n track) (\<not> fin) False on n us d d1"
      using decode_body_follows [OF ok track less.prems(1,2) True less.prems(4), of on] by blast
    show ?thesis
    proof (cases fin)
      case True
      have last: "follows (decode_loop E on' n track) () () on' n us d d1"
        if "follows (decode_body E on' n track) (\<not> fin) False on' n us d d1" for on' :: "'z \<Rightarrow> int \<Rightarrow> bool \<times> 'z"
        unfolding follows_def
      proof
        fix c
        show "if wants on' c us then decode_loop E on' n track (with_client c d) = (Inr (), with_client (feed on' c us) d1)
          else (\<exists>d'. decode_loop E on' n track (with_client c d) = (Inr (), d') \<and> d_client d' = feed on' c us \<and> d_emitted d' \<le> n)"
          using that [unfolded follows_def, rule_format, of c] True \<open>d_emitted d < n\<close>
          by (cases "wants on' c us") (auto simp: decode_loop.simps [of E on' n track "with_client c d"])
      qed
      have "chosen may (eng_stops E) (n - d_emitted d) ts us" using b(2-5) True by (auto simp: chosen_def)
      then show ?thesis using b(4) last [OF b(8)] last [OF b(9)] by blast
    next
      case False
      have lt: "n - d_emitted d1 < n - d_emitted d" using b(1,4) True by (cases us) auto
      have "length (ts @ us) + (n - d_emitted d1) \<le> max_t E" using b(4,5) less.prems(4) by simp
      then obtain vs d0 where v: "chosen may (eng_stops E) (n - d_emitted d1) (ts @ us) vs" "d_emitted d0 = d_emitted d1 + length vs"
        "follows (decode_loop E collect n track) () () collect n vs d1 d0" "follows (decode_loop E on n track) () () on n vs d1 d0"
        using less.hyps [OF lt b(6) conjunct1 [OF b(7) [OF False]] b(5)] by blast
      have "follows (decode_loop E on' n track) () () on' n (us @ vs) d d0"
        if "follows (decode_body E on' n track) (\<not> fin) False on' n us d d1" "follows (decode_loop E on' n track) () () on' n vs d1 d0"
        for on' :: "'z \<Rightarrow> int \<Rightarrow> bool \<times> 'z"
        unfolding follows_def
      proof
        fix c
        note l = decode_loop.simps [of E on' n track "with_client c d"]
        note f1 = that(1) [unfolded follows_def, rule_format, of c] and f2 = that(2) [unfolded follows_def, rule_format, of "feed on' c us"]
        show "if wants on' c (us @ vs) then decode_loop E on' n track (with_client c d) = (Inr (), with_client (feed on' c (us @ vs)) d0)
          else (\<exists>d'. decode_loop E on' n track (with_client c d) = (Inr (), d') \<and> d_client d' = feed on' c (us @ vs) \<and> d_emitted d' \<le> n)"
          using f1 f2 False \<open>d_emitted d < n\<close> by (cases "wants on' c us") (auto simp: l feed_append wants_append)
      qed
      note both = this [OF b(8) v(3)] this [OF b(9) v(4)]
      have "chosen may (eng_stops E) (n - d_emitted d) ts (us @ vs)"
        using v(1) legal_append [OF b(2)] b(4,5,7) False by (auto simp: chosen_def)
      then show ?thesis using both b(4) v(2) by (intro exI [of _ "us @ vs"] exI [of _ d0]) simp
    qed
  qed
qed

text \<open>
  For every client at once: the tokens are those that a client which only collects is given, and they
  are chosen by the model.
\<close>

lemma drafting_emits:
  fixes on :: "'c \<Rightarrow> int \<Rightarrow> bool \<times> 'c"
  assumes "engine_ok E holds may (if has_mtp E then budget else 0)" and "holds kv []" and "prompt \<noteq> []" and "length prompt + n \<le> max_t E"
    and "rollback \<or> \<not> has_mamba E"
  shows "\<exists>us. chosen may (eng_stops E) n prompt us \<and>
    (\<forall>out. \<exists>stats. generate_stream_drafting E rollback kv prompt n budget collect out = (Inr stats, out @ us) \<and> st_emitted stats = length us) \<and>
    (\<forall>c. \<exists>stats. generate_stream_drafting E rollback kv prompt n budget on c = (Inr stats, feed on c us) \<and> st_emitted stats \<le> n \<and>
      (wants on c us \<longrightarrow> st_emitted stats = length us))"
proof -
  let ?s = "length prompt" and ?w = "if has_mtp E then budget else 0"
  have fo: "forward_ok E holds may ?w" using assms(1) by (simp add: engine_ok_def)
  have "length [] + length prompt \<le> max_t E" using assms(4) by simp
  from forward_okD [OF fo assms(2,3) this] obtain kv1 hs where f: "fwd E kv prompt 0 = Inr (kv1, hs)" "length hs = ?s" "holds kv1 prompt"
    "\<And>i. i < ?s \<Longrightarrow> may (take (Suc i) prompt) (argmax_i32 (row_logits E (hs ! i)))" by auto
  define d where "d = \<lparr>d_kv = kv1, d_logit = row_logits E (hs ! (?s - 1)), d_pos = ?s, d_hlast = hs ! (?s - 1),
    d_budget = ?w, d_proposed = 0, d_accepted = 0, d_forwards = 0, d_emitted = 0, d_client = ()\<rparr>"
  have "in_step E holds may d prompt" using f(3) f(4) [of "?s - 1"] assms(3) by (simp add: in_step_def d_def)
  moreover have "(has_mamba E \<and> rollback) \<longleftrightarrow> has_mamba E" using assms(5) by blast
  moreover have "d_emitted d \<le> n" "?s + (n - d_emitted d) \<le> max_t E" "d_budget d \<le> ?w" using assms(4) by (simp_all add: d_def)
  ultimately obtain us d0 where u: "chosen may (eng_stops E) n prompt us" "d_emitted d0 = length us"
    "follows (decode_loop E collect n (has_mamba E \<and> rollback)) () () collect n us d d0"
    "follows (decode_loop E on n (has_mamba E \<and> rollback)) () () on n us d d0"
    using decode_loop_follows [OF assms(1), of "has_mamba E \<and> rollback" d prompt n on] by (auto simp: d_def)
  have fits: "\<not> (prompt = [] \<or> max_t E < length prompt + n)" using assms(3,4) by simp
  have run: "generate_stream_drafting E rollback kv prompt n budget on' c = (case decode_loop E on' n (has_mamba E \<and> rollback) (with_client c d) of
      (r, d') \<Rightarrow> (case r of Inl e \<Rightarrow> Inl (Engine e) | Inr _ \<Rightarrow> Inr (stats_of d'), d_client d'))" for on' :: "'z \<Rightarrow> int \<Rightarrow> bool \<times> 'z" and c
    unfolding generate_stream_drafting_def if_not_P [OF fits] f(1) sum.case prod.case Let_def by (simp add: with_client_def d_def)
  have "length us \<le> n" using u(1) by (simp add: chosen_def)
  then have ends: "\<exists>stats. generate_stream_drafting E rollback kv prompt n budget on' c = (Inr stats, feed on' c us) \<and> st_emitted stats \<le> n \<and>
      (wants on' c us \<longrightarrow> st_emitted stats = length us)"
    if "follows (decode_loop E on' n (has_mamba E \<and> rollback)) () () on' n us d d0" for on' :: "'z \<Rightarrow> int \<Rightarrow> bool \<times> 'z" and c
    using that [unfolded follows_def, rule_format, of c] u(2) by (cases "wants on' c us") (auto simp: run stats_of_def)
  show ?thesis using ends [OF u(3)] ends [OF u(4)] u(1) by (intro exI [of _ us]) auto
qed

text \<open>
  C1: No token is emitted that the model has not chosen.  For every engine whose numeric parts keep
  their promises, every prompt that fits the cache, every draft budget and every client, the run
  returns, and the client has heard a continuation each of whose tokens is one that the model itself
  chooses after the prompt and the tokens before it, whatever the head proposes; it ends at its first
  stop token, at the token limit or when the client wants no more, and the recurrent state is rolled
  back over rejected drafts when the model has one.  The model's choice is not assumed to be the same
  in batches of different widths; where it is, and with no drafts it need only be in passes over
  single tokens, the continuation is that of plain greedy decoding.
\<close>

theorem speculation_is_verified:
  assumes "engine_ok E holds may (if has_mtp E then budget else 0)" and "holds kv []" and "prompt \<noteq> []"
    and "length prompt + n \<le> max_t E" and "rollback \<or> \<not> has_mamba E"
  shows "\<exists>us stats. generate_stream_drafting E rollback kv prompt n budget on_token c = (Inr stats, feed on_token c us) \<and>
    chosen may (eng_stops E) n prompt us \<and> (wants on_token c us \<longrightarrow> st_emitted stats = length us) \<and>
    (\<forall>nxt. (\<forall>ts t. may ts t \<longrightarrow> t = nxt ts) \<longrightarrow> us = greedy_tokens nxt (eng_stops E) n prompt)"
proof -
  obtain us stats where us: "chosen may (eng_stops E) n prompt us"
    "generate_stream_drafting E rollback kv prompt n budget on_token c = (Inr stats, feed on_token c us)"
    "wants on_token c us \<longrightarrow> st_emitted stats = length us" using drafting_emits [OF assms, of on_token] by blast
  then show ?thesis using chosen_greedy [OF _ us(1)] by blast
qed

text \<open>
  A recurrent engine: the state is the list of tokens seen, the chosen token is the sum of the
  sequence modulo 3, and the head always proposes 1.
\<close>

definition one_hot :: "nat \<Rightarrow> f32 list" where
  "one_hot i = map (\<lambda>j. if j = i then 0x3F800000 else 0) [0, 1, 2]"

definition sum_engine :: "(int list, int list, int list, unit) engine" where
  "sum_engine = \<lparr>fwd = (\<lambda>kv batch pos. Inr (kv @ batch, map (\<lambda>i. kv @ take (Suc i) batch) [0..<length batch])),
     row_logits = (\<lambda>h. one_hot (nat (sum_list h mod 3))), start_head = (\<lambda>kv p. kv), head_step = (\<lambda>kv t h raw p. Inr (kv, h)),
     head_logits = (\<lambda>h. one_hot 1), head_absorb = (\<lambda>kv ds hs p. Inr kv), take_snap = (\<lambda>kv. kv), put_snap = (\<lambda>m kv. m),
     has_mamba = True, has_mtp = True, max_t = 20, eng_stops = []\<rparr>"

lemma one_hot_order:
  "f32_gt 0x3F800000 0xFF800000" "f32_gt 0 0xFF800000" "f32_gt 0x3F800000 0" "\<not> f32_gt 0 0" "\<not> f32_gt 0 0x3F800000"
  by code_simp+

lemma argmax_one_hot: "i < 3 \<Longrightarrow> argmax_i32 (one_hot i) = int i"
proof -
  assume "i < 3"
  then consider "i = 0" | "i = 1" | "i = 2" by linarith
  then show ?thesis by cases (simp_all add: one_hot_def argmax_i32_def argmax_def one_hot_order wrap32_def)
qed

text \<open>The same engine, but rows of a pass over several tokens after the prompt are tipped to the next choice.\<close>

definition tipped_engine :: "(int list, int list, int list, unit) engine" where
  "tipped_engine = sum_engine\<lparr>fwd := (\<lambda>kv batch pos. Inr (kv @ batch,
     map (\<lambda>i. (if kv \<noteq> [] \<and> 1 < length batch then [1] else []) @ kv @ take (Suc i) batch) [0..<length batch]))\<rparr>"

lemma sum_choice: "argmax_i32 (one_hot (nat (x mod 3))) = x mod 3" for x :: int
proof -
  have "0 \<le> x mod 3" "x mod 3 < 3" by simp_all
  then show ?thesis using argmax_one_hot [of "nat (x mod 3)"] by simp
qed

lemma sum_engine_ok: "engine_ok sum_engine (\<lambda>kv ts. kv = ts) (\<lambda>ts t. t = sum_list ts mod 3) w"
  by (simp add: engine_ok_def forward_ok_def rejected_rows_dead_def snapshot_restores_def head_harmless_def sum_engine_def sum_choice)

lemma tipped_engine_ok:
  "engine_ok tipped_engine (\<lambda>kv ts. kv = ts) (\<lambda>ts t. t = sum_list ts mod 3 \<or> t = (1 + sum_list ts) mod 3) w"
  "engine_ok tipped_engine (\<lambda>kv ts. kv = ts) (\<lambda>ts t. t = sum_list ts mod 3) 0"
  by (simp_all add: engine_ok_def forward_ok_def rejected_rows_dead_def snapshot_restores_def head_harmless_def tipped_engine_def
      sum_engine_def sum_choice)

text \<open>With drafts the tipped engine takes another of its paths; without it decodes greedily.\<close>

lemma tipped_drafts_differ:
  "snd (generate_stream_drafting tipped_engine True [] [1, 1] 5 2 collect []) = [2, 2, 1, 2, 1]"
  by code_simp

theorem speculation_is_verified_witness:
  "(\<exists>stats. generate_stream_drafting tipped_engine True [] [1, 1] 5 2 collect [] = (Inr stats, [2, 2, 1, 2, 1]) \<and> st_emitted stats = 5) \<and>
   chosen (\<lambda>ts t. t = sum_list ts mod 3 \<or> t = (1 + sum_list ts) mod 3) [] 5 [1, 1] [2, 2, 1, 2, 1] \<and>
   (\<exists>stats. generate_stream_drafting tipped_engine True [] [1, 1] 5 0 collect [] = (Inr stats, [2, 1, 2, 1, 2]))"
proof -
  have e: "eng_stops tipped_engine = []" "max_t tipped_engine = 20" by (simp_all add: tipped_engine_def sum_engine_def)
  note ok = tipped_engine_ok(1) [of "if has_mtp tipped_engine then 2 else 0"]
  obtain us stats where d: "generate_stream_drafting tipped_engine True [] [1, 1] 5 2 collect [] = (Inr stats, us)"
    "chosen (\<lambda>ts t. t = sum_list ts mod 3 \<or> t = (1 + sum_list ts) mod 3) [] 5 [1, 1] us" "st_emitted stats = length us"
    using speculation_is_verified [OF ok, of "[]" "[1, 1]" 5 True collect "[]"] by (auto simp: e)
  have "us = [2, 2, 1, 2, 1]" using tipped_drafts_differ d(1) by simp
  note d = d [unfolded this]
  have ok0: "engine_ok tipped_engine (\<lambda>kv ts. kv = ts) (\<lambda>ts t. t = sum_list ts mod 3) (if has_mtp tipped_engine then 0 else 0)"
    using tipped_engine_ok(2) by simp
  have "\<exists>stats. generate_stream_drafting tipped_engine True [] [1, 1] 5 0 collect []
      = (Inr stats, greedy_tokens (\<lambda>ts. sum_list ts mod 3) [] 5 [1, 1])"
    using speculation_is_verified [OF ok0, of "[]" "[1, 1]" 5 True collect "[]"] by (auto simp: e)
  then show ?thesis using d by (auto simp: eval_nat_numeral)
qed

text \<open>Without the rollback of the recurrent state the same engine produces other tokens.\<close>

lemma no_rollback_corrupts:
  "snd (generate_stream_drafting sum_engine False [] [1, 1] 5 2 collect []) \<noteq> [2, 1, 2, 1, 2]"
  by code_simp

end
