(* ===== verification/FloatOps.thy ===== *)
theory FloatOps
  imports Float64
begin

text \<open>
  The binary64 and binary32 operations the configuration loader uses on numbers it has read:
  multiplication, \<open>f64::round\<close>, the casts \<open>as i32\<close> and \<open>as f32\<close>, \<open>f32::sqrt\<close> and the reciprocal.
  Floats are bit patterns and every operation rounds once, to nearest even.
\<close>

section \<open>Fields and values of a binary64\<close>

definition f64_neg :: "f64 \<Rightarrow> bool" where
  "f64_neg w \<longleftrightarrow> 2 ^ 63 \<le> unat w"

definition f64_exp :: "f64 \<Rightarrow> nat" where
  "f64_exp w = unat w mod 2 ^ 63 div 2 ^ 52"

definition f64_frac :: "f64 \<Rightarrow> nat" where
  "f64_frac w = unat w mod 2 ^ 52"

definition f64_is_nan :: "f64 \<Rightarrow> bool" where
  "f64_is_nan w \<longleftrightarrow> f64_exp w = 0x7FF \<and> f64_frac w \<noteq> 0"

definition f64_is_inf :: "f64 \<Rightarrow> bool" where
  "f64_is_inf w \<longleftrightarrow> f64_exp w = 0x7FF \<and> f64_frac w = 0"

text \<open>the magnitude of a finite float as a fraction\<close>

definition f64_num :: "f64 \<Rightarrow> nat" where
  "f64_num w = (if f64_exp w = 0 then f64_frac w else (2 ^ 52 + f64_frac w) * 2 ^ (f64_exp w - 1075))"

definition f64_den :: "f64 \<Rightarrow> nat" where
  "f64_den w = (if f64_exp w = 0 then 2 ^ 1074 else 2 ^ (1075 - f64_exp w))"

definition f64_nan :: f64 where
  "f64_nan = 0x7FF8000000000000"

definition f64_inf :: "bool \<Rightarrow> f64" where
  "f64_inf neg = (if neg then 0xFFF0000000000000 else 0x7FF0000000000000)"

definition f64_mul :: "f64 \<Rightarrow> f64 \<Rightarrow> f64" where
  "f64_mul a b =
     (let neg = (f64_neg a \<noteq> f64_neg b)
      in if f64_is_nan a \<or> f64_is_nan b then f64_nan
         else if f64_is_inf a \<or> f64_is_inf b
         then (if f64_num a = 0 \<or> f64_num b = 0 then f64_nan else f64_inf neg)
         else f64_of_ratio neg (f64_num a * f64_num b) (f64_den a * f64_den b))"

definition f64_of_int :: "int \<Rightarrow> f64" where
  "f64_of_int n = f64_of_ratio (n < 0) (nat \<bar>n\<bar>) 1"

text \<open>\<open>f64::round\<close>, half away from zero; from \<open>2 ^ 52\<close> on every float is an integer\<close>

definition f64_round :: "f64 \<Rightarrow> f64" where
  "f64_round w = (if 1075 \<le> f64_exp w then w
     else f64_of_ratio (f64_neg w) ((2 * f64_num w + f64_den w) div (2 * f64_den w)) 1)"

text \<open>\<open>as i32\<close> truncates and saturates, like \<open>as i64\<close>\<close>

definition f64_as_i32 :: "f64 \<Rightarrow> int" where
  "f64_as_i32 w = max (- (2 ^ 31)) (min (f64_as_i64 w) (2 ^ 31 - 1))"

lemma f64_as_i32_range: "- (2 ^ 31) \<le> f64_as_i32 w" "f64_as_i32 w < 2 ^ 31"
  by (simp_all add: f64_as_i32_def)

text \<open>a literal of the program text\<close>

definition f64_lit :: "string \<Rightarrow> f64" where
  "f64_lit s = (case f64_parse (lit s) of Some w \<Rightarrow> w | None \<Rightarrow> f64_nan)"

section \<open>binary32\<close>

definition f32_bits :: "nat \<Rightarrow> nat \<Rightarrow> nat" where
  "f32_bits num den =
     (if num = 0 then 0
      else let e = max (ilog2 num den) (- 126);
               q = e - 23;
               m = div_even (num * 2 ^ nat (- q)) (den * 2 ^ nat q);
               bits = (if m < 2 ^ 23 then m else nat (e + 127) * 2 ^ 23 + (m - 2 ^ 23))
           in min bits (0xFF * 2 ^ 23))"

definition f32_of_ratio :: "bool \<Rightarrow> nat \<Rightarrow> nat \<Rightarrow> f32" where
  "f32_of_ratio neg num den = of_nat ((if neg then 2 ^ 31 else 0) + f32_bits num den)"

definition f32_nan :: f32 where
  "f32_nan = 0x7FC00000"

definition f32_inf :: "bool \<Rightarrow> f32" where
  "f32_inf neg = (if neg then 0xFF800000 else 0x7F800000)"

definition f32_of_int :: "int \<Rightarrow> f32" where
  "f32_of_int n = f32_of_ratio (n < 0) (nat \<bar>n\<bar>) 1"

definition f64_as_f32 :: "f64 \<Rightarrow> f32" where
  "f64_as_f32 w = (if f64_is_nan w then f32_nan else if f64_is_inf w then f32_inf (f64_neg w)
     else f32_of_ratio (f64_neg w) (f64_num w) (f64_den w))"

definition f32_neg :: "f32 \<Rightarrow> bool" where
  "f32_neg w \<longleftrightarrow> 2 ^ 31 \<le> unat w"

definition f32_exp :: "f32 \<Rightarrow> nat" where
  "f32_exp w = unat w mod 2 ^ 31 div 2 ^ 23"

definition f32_frac :: "f32 \<Rightarrow> nat" where
  "f32_frac w = unat w mod 2 ^ 23"

definition f32_num :: "f32 \<Rightarrow> nat" where
  "f32_num w = (if f32_exp w = 0 then f32_frac w else (2 ^ 23 + f32_frac w) * 2 ^ (f32_exp w - 150))"

definition f32_den :: "f32 \<Rightarrow> nat" where
  "f32_den w = (if f32_exp w = 0 then 2 ^ 149 else 2 ^ (150 - f32_exp w))"

text \<open>the integer square root, one binary digit per step\<close>

fun isqrt :: "nat \<Rightarrow> nat" where
  "isqrt n = (if n = 0 then 0 else let r = 2 * isqrt (n div 4) in if (r + 1) * (r + 1) \<le> n then r + 1 else r)"

declare isqrt.simps [simp del]

text \<open>
  \<open>f32::sqrt\<close> of a finite number \<open>num / den\<close>: the root is \<open>sqrt (num * den) / den\<close>, taken with 64
  extra binary digits, and a root that is not exact is marked by a further bit below them.
\<close>

definition f32_sqrt :: "f32 \<Rightarrow> f32" where
  "f32_sqrt w =
     (if f32_exp w = 0xFF then (if f32_frac w = 0 \<and> \<not> f32_neg w then w else f32_nan)
      else if f32_num w = 0 then w
      else if f32_neg w then f32_nan
      else let n = f32_num w * f32_den w * 2 ^ 128; r = isqrt n
           in f32_of_ratio False (2 * r + (if r * r = n then 0 else 1)) (2 * f32_den w * 2 ^ 64))"

text \<open>\<open>1.0 / x\<close>\<close>

definition f32_recip :: "f32 \<Rightarrow> f32" where
  "f32_recip w =
     (if f32_exp w = 0xFF then (if f32_frac w = 0 then f32_of_ratio (f32_neg w) 0 1 else f32_nan)
      else if f32_num w = 0 then f32_inf (f32_neg w)
      else f32_of_ratio (f32_neg w) (f32_den w) (f32_num w))"

lemma isqrt_spec: "isqrt n * isqrt n \<le> n \<and> n < (isqrt n + 1) * (isqrt n + 1)"
proof (induction n rule: isqrt.induct)
  case (1 n)
  show ?case
  proof (cases "n = 0")
    case False
    define r where "r = isqrt (n div 4)"
    from 1 [OF False] have ih: "r * r \<le> n div 4" "n div 4 < (r + 1) * (r + 1)" by (simp_all add: r_def)
    have "4 * (r * r) \<le> n" using ih(1) by linarith
    moreover have "n < 4 * ((r + 1) * (r + 1))" using ih(2) by linarith
    moreover have "isqrt n = (if (2 * r + 1) * (2 * r + 1) \<le> n then 2 * r + 1 else 2 * r)"
      using False by (subst isqrt.simps) (simp add: r_def Let_def)
    ultimately show ?thesis by (auto simp: algebra_simps)
  qed (simp add: isqrt.simps)
qed

end
