(* ===== verification/Config.thy ===== *)
theory Config
  imports JsonPrint FloatOps
begin

text \<open>
  The model configuration, \<open>colibri-core/src/config.rs\<close>: the hyperparameters read from a snapshot's
  \<open>config.json\<close>, one parser per architecture, the dispatch between them, the range checks that keep
  hostile dimensions out of the engine, and the questions the engine asks a configuration.

  Integers are \<open>i32\<close> with the wrap-around of a release build written out (\<open>wrap32\<close>), floats are bit
  patterns.  The texts of the messages of \<open>ConfigError::Unsupported\<close> are left out; the constructor
  says which of them it is.
\<close>

section \<open>Data\<close>

datatype arch = GlmMoeDsa | MinimaxM3 | MinimaxM2 | NemotronH | KimiK3 | DeepseekV4 | Maple

datatype router_score = Sigmoid | Softmax

datatype layer_kind = Mamba | Attn | Moe | Kda

definition is_gqa :: "arch \<Rightarrow> bool" where
  "is_gqa a \<longleftrightarrow> a = MinimaxM3 \<or> a = MinimaxM2 \<or> a = Maple"

definition routed_experts_are_latent :: "arch \<Rightarrow> bool" where
  "routed_experts_are_latent a \<longleftrightarrow> a = NemotronH \<or> a = KimiK3"

text \<open>The fields in the order and the groups of the source.\<close>

record config_core =
  c_hidden :: int
  c_n_layers :: int
  c_n_heads :: int
  c_n_experts :: int
  c_topk :: int
  c_moe_inter :: int
  c_dense_inter :: int
  c_first_dense :: int
  c_q_lora :: int
  c_o_lora :: int
  c_o_groups :: int
  c_kv_lora :: int
  c_qk_nope :: int
  c_qk_rope :: int
  c_qk_head :: int
  c_v_head :: int
  c_n_shared :: int
  c_vocab :: int
  c_max_ctx :: int
  c_n_group :: int
  c_topk_group :: int
  c_norm_topk :: bool
  c_stop_ids :: "int list"
  c_index_topk :: int
  c_index_nh :: int
  c_index_hd :: int
  c_index_block_size :: int
  c_index_topk_blocks :: int
  c_index_local_blocks :: int
  c_idx_type :: "bool list"
  c_eps :: f32
  c_theta :: f32
  c_attn_scale :: f32
  c_routed_scale :: f32

record config_arch = config_core +
  c_arch :: arch
  c_n_kv_heads :: int
  c_shared_inter :: int
  c_qk_norm :: bool
  c_gemma_norm :: bool
  c_swiglu_oai :: bool
  c_swiglu_alpha :: f32
  c_swiglu_limit :: f32
  c_compress_ratios :: "int list"
  c_compress_theta :: f32
  c_n_hash_layers :: int
  c_dspark_block :: int
  c_dspark_noise_id :: int
  c_markov_rank :: int
  c_dspark_targets :: "int list"
  c_hc_mult :: int
  c_hc_sinkhorn_iters :: int
  c_hc_eps :: f32
  c_window :: int
  c_sigmoid_route :: bool
  c_router_score :: router_score

record config_swa = config_arch +
  c_swa_window :: int
  c_layer_swa :: "bool list"
  c_nope_on_global :: bool

record config_hybrid = config_swa +
  c_layer_kind :: "layer_kind list"
  c_mtp_layer_kind :: "layer_kind list"
  c_mamba_d_state :: int
  c_mamba_d_conv :: int
  c_mamba_n_heads :: int
  c_mamba_head_dim :: int
  c_mamba_n_groups :: int
  c_mamba_inter :: int
  c_mamba_chunk :: int
  c_moe_latent :: int
  c_relu2 :: bool
  c_mamba_dt_min :: f32

record config = config_hybrid +
  c_kda_n_heads :: int
  c_kda_head_dim :: int
  c_situ :: bool
  c_situ_beta :: f32
  c_situ_linear_beta :: f32
  c_mla_nope :: bool
  c_kda_d_conv :: int
  c_attn_res_block_size :: int

text \<open>The fields an architecture does not use; every parser states only the others.\<close>

definition blank_config :: config where
  "blank_config = \<lparr>c_hidden = 0, c_n_layers = 0, c_n_heads = 0, c_n_experts = 0, c_topk = 0, c_moe_inter = 0, c_dense_inter = 0,
     c_first_dense = 0, c_q_lora = 0, c_o_lora = 0, c_o_groups = 0, c_kv_lora = 0, c_qk_nope = 0, c_qk_rope = 0, c_qk_head = 0, c_v_head = 0, c_n_shared = 0, c_vocab = 0, c_max_ctx = 0, c_n_group = 0, c_topk_group = 0, c_norm_topk = False,
     c_stop_ids = [], c_index_topk = 0, c_index_nh = 0, c_index_hd = 0, c_index_block_size = 0, c_index_topk_blocks = 0,
     c_index_local_blocks = 0, c_idx_type = [], c_eps = 0, c_theta = 0, c_attn_scale = 0, c_routed_scale = 0, c_arch = GlmMoeDsa, c_n_kv_heads = 0, c_shared_inter = 0, c_qk_norm = False, c_gemma_norm = False, c_swiglu_oai = False,
     c_swiglu_alpha = 0, c_swiglu_limit = 0, c_compress_ratios = [], c_compress_theta = 0, c_n_hash_layers = 0,
     c_dspark_block = 0, c_dspark_noise_id = 0, c_markov_rank = 0, c_dspark_targets = [], c_hc_mult = 0,
     c_hc_sinkhorn_iters = 0, c_hc_eps = 0, c_window = 0, c_sigmoid_route = False, c_router_score = Sigmoid, c_swa_window = 0, c_layer_swa = [], c_nope_on_global = False, c_layer_kind = [], c_mtp_layer_kind = [], c_mamba_d_state = 0,
     c_mamba_d_conv = 0, c_mamba_n_heads = 0, c_mamba_head_dim = 0, c_mamba_n_groups = 0, c_mamba_inter = 0, c_mamba_chunk = 0, c_moe_latent = 0, c_relu2 = False, c_mamba_dt_min = 0, c_kda_n_heads = 0, c_kda_head_dim = 0, c_situ = False,
     c_situ_beta = 0, c_situ_linear_beta = 0, c_mla_nope = False, c_kda_d_conv = 0, c_attn_res_block_size = 0\<rparr>"

datatype unsupported =
    Needs_one_group
  | Unknown_pattern_char string
  | Kind_length_mismatch
  | No_attention_layer

datatype config_error =
    Config_io
  | Config_parse
  | Config_range string int int int
  | Config_unsupported unsupported

definition MAX_STOP_IDS :: nat where
  "MAX_STOP_IDS = 8"

definition MAX_LAYERS_IDX :: nat where
  "MAX_LAYERS_IDX = 128"

section \<open>Reading fields\<close>

abbreviation get_i64 :: "json \<Rightarrow> string \<Rightarrow> int option" where
  "get_i64 r k \<equiv> Option.bind (json_get r (lit k)) as_i64"

abbreviation get_f64 :: "json \<Rightarrow> string \<Rightarrow> f64 option" where
  "get_f64 r k \<equiv> Option.bind (json_get r (lit k)) as_f64"

abbreviation get_bool :: "json \<Rightarrow> string \<Rightarrow> bool option" where
  "get_bool r k \<equiv> Option.bind (json_get r (lit k)) as_bool"

abbreviation get_text :: "json \<Rightarrow> string \<Rightarrow> byte_string option" where
  "get_text r k \<equiv> Option.bind (json_get r (lit k)) as_str"

abbreviation get_arr :: "json \<Rightarrow> string \<Rightarrow> json list option" where
  "get_arr r k \<equiv> Option.bind (json_get r (lit k)) as_array"

definition unwrap_or :: "'a option \<Rightarrow> 'a \<Rightarrow> 'a" where
  "unwrap_or x d = (case x of Some v \<Rightarrow> v | None \<Rightarrow> d)"

definition gi_in :: "json \<Rightarrow> string \<Rightarrow> int" where
  "gi_in r k = wrap32 (unwrap_or (get_i64 r k) 0)"

text \<open>\<open>as_f64().unwrap_or(d) as f32\<close>\<close>

definition gf32 :: "json \<Rightarrow> string \<Rightarrow> f64 \<Rightarrow> f32" where
  "gf32 r k d = f64_as_f32 (unwrap_or (get_f64 r k) d)"

text \<open>a sequence of \<open>ckr!\<close>: the first value outside its range is the error\<close>

fun ckrs :: "(string \<times> int \<times> int \<times> int) list \<Rightarrow> config_error + unit" where
  "ckrs [] = Inr ()"
| "ckrs ((name, v, lo, hi) # rest) = (if v < lo \<or> hi < v then Inl (Config_range name v lo hi) else ckrs rest)"

text \<open>A character outside ASCII is rejected at its first byte.\<close>

definition pattern_kind :: "string \<Rightarrow> u8 \<Rightarrow> config_error + layer_kind" where
  "pattern_kind field ch =
     (if ch = 0x4D then Inr Mamba else if ch = 0x45 then Inr Moe else if ch = 0x2A then Inr Attn
      else Inl (Config_unsupported (Unknown_pattern_char field)))"

definition parse_hybrid_pattern :: "byte_string \<Rightarrow> string \<Rightarrow> config_error + layer_kind list" where
  "parse_hybrid_pattern pattern field = try_map (pattern_kind field) pattern"

definition parse_stop_ids :: "json \<Rightarrow> int list \<Rightarrow> int list" where
  "parse_stop_ids r out =
     (case json_get r (lit ''eos_token_id'') of
        Some (Num n) \<Rightarrow> out @ [f64_as_i32 n]
      | Some (Arr a) \<Rightarrow> out @ map wrap32 (List.map_filter as_i64 (take MAX_STOP_IDS a))
      | _ \<Rightarrow> out)"

definition validate_common :: "config \<Rightarrow> config_error + unit" where
  "validate_common c = ckrs [
     (''hidden_size'', c_hidden c, 1, 2 ^ 20),
     (''num_hidden_layers'', c_n_layers c, 1, 128),
     (''num_attention_heads'', c_n_heads c, 1, 1024),
     (''n_routed_experts'', c_n_experts c, 1, 4096),
     (''num_experts_per_tok'', c_topk c, 1, 64),
     (''moe_intermediate_size'', c_moe_inter c, 1, 2 ^ 20),
     (''intermediate_size'', c_dense_inter c, if 0 < c_first_dense c then 1 else 0, 2 ^ 24),
     (''first_k_dense_replace'', c_first_dense c, 0, c_n_layers c),
     (''v_head_dim'', c_v_head c, 1, 2 ^ 16),
     (''n_shared_experts'', c_n_shared c, 0, 64),
     (''vocab_size'', c_vocab c, 1, 2 ^ 24)]"

definition capped_layers :: "int \<Rightarrow> nat" where
  "capped_layers n = min (nat (max n 0)) MAX_LAYERS_IDX"

definition inv_sqrt :: "int \<Rightarrow> f32" where
  "inv_sqrt n = f32_recip (f32_sqrt (f32_of_int n))"

section \<open>The parsers\<close>

text \<open>GLM-5.2.  The indexer type of a layer is its entry of the list, or the formula.\<close>

definition glm_idx_slot :: "json \<Rightarrow> nat \<Rightarrow> bool" where
  "glm_idx_slot r i =
     (let freq = max 1 (gi_in r ''index_topk_freq'');
          off = wrap32 (unwrap_or (get_i64 r ''index_skip_topk_offset'') 2);
          v = max 0 (wrap32 (wrap32 (int i - off) + 1))
      in case Option.bind (Option.bind (get_arr r ''indexer_types'') (\<lambda>arr. idx arr i)) as_str of
           Some s \<Rightarrow> s = lit ''full''
         | None \<Rightarrow> v mod freq = 0)"

definition glm_config :: "json \<Rightarrow> config" where
  "glm_config r =
     (let gi = gi_in r;
          qk_head = wrap32 (gi ''qk_nope_head_dim'' + gi ''qk_rope_head_dim'')
      in blank_config\<lparr>
        c_hidden := gi ''hidden_size'', c_n_layers := gi ''num_hidden_layers'', c_n_heads := gi ''num_attention_heads'',
        c_n_experts := gi ''n_routed_experts'', c_topk := gi ''num_experts_per_tok'',
        c_moe_inter := gi ''moe_intermediate_size'', c_dense_inter := gi ''intermediate_size'',
        c_first_dense := gi ''first_k_dense_replace'', c_q_lora := gi ''q_lora_rank'', c_kv_lora := gi ''kv_lora_rank'',
        c_qk_nope := gi ''qk_nope_head_dim'', c_qk_rope := gi ''qk_rope_head_dim'', c_qk_head := qk_head,
        c_v_head := gi ''v_head_dim'', c_n_shared := gi ''n_shared_experts'', c_vocab := gi ''vocab_size'',
        c_max_ctx := gi ''max_position_embeddings'', c_n_group := gi ''n_group'', c_topk_group := gi ''topk_group'',
        c_norm_topk := unwrap_or (get_bool r ''norm_topk_prob'') False,
        c_stop_ids := parse_stop_ids r [],
        c_index_topk := gi ''index_topk'', c_index_nh := gi ''index_n_heads'', c_index_hd := gi ''index_head_dim'',
        c_idx_type := map (glm_idx_slot r) [0..<capped_layers (gi ''num_hidden_layers'')],
        c_eps := gf32 r ''rms_norm_eps'' (f64_lit ''1e-5''),
        c_theta := (case Option.bind (json_get r (lit ''rope_parameters'')) (\<lambda>rp. get_f64 rp ''rope_theta'') of
            Some th \<Rightarrow> f64_as_f32 th | None \<Rightarrow> f32_of_int 10000),
        c_attn_scale := inv_sqrt qk_head,
        c_routed_scale := gf32 r ''routed_scaling_factor'' (f64_lit ''1.0''),
        c_arch := GlmMoeDsa, c_n_kv_heads := gi ''num_attention_heads'',
        c_shared_inter := wrap32 (gi ''n_shared_experts'' * gi ''moe_intermediate_size'')\<rparr>)"

definition from_json_glm :: "json \<Rightarrow> config_error + config" where
  "from_json_glm r =
     (let c = glm_config r
      in if c_n_group c \<noteq> 1 then Inl (Config_unsupported Needs_one_group)
         else and_then (validate_common c) (\<lambda>_. and_then (ckrs [
           (''q_lora_rank'', c_q_lora c, 0, 2 ^ 20),
           (''kv_lora_rank'', c_kv_lora c, 1, 2 ^ 20),
           (''qk_nope_head_dim'', c_qk_nope c, 1, 2 ^ 16),
           (''qk_rope_head_dim'', c_qk_rope c, 1, 2 ^ 16),
           (''index_topk'', c_index_topk c, 0, 2 ^ 20),
           (''index_n_heads'', c_index_nh c, 0, 1024),
           (''index_head_dim'', c_index_hd c, 0, 2 ^ 16)]) (\<lambda>_. Inr c)))"

text \<open>MiniMax M3 and M2: \<open>t\<close> holds the hyperparameters, \<open>r\<close> is the root.\<close>

definition minimax_config :: "json \<Rightarrow> json \<Rightarrow> arch \<Rightarrow> config" where
  "minimax_config r t a =
     (let gt = gi_in t;
          head_dim = gt ''head_dim'';
          rotary_dim = gt ''rotary_dim'';
          sac = json_get t (lit ''sparse_attention_config'');
          sg = (\<lambda>k. unwrap_or (map_option wrap32 (Option.bind sac (\<lambda>s. get_i64 s k))) 0);
          nlc = capped_layers (gt ''num_hidden_layers'');
          stops = parse_stop_ids t []
      in blank_config\<lparr>
        c_hidden := gt ''hidden_size'', c_n_layers := gt ''num_hidden_layers'', c_n_heads := gt ''num_attention_heads'',
        c_n_experts := gt ''num_local_experts'', c_topk := gt ''num_experts_per_tok'',
        c_moe_inter := gt ''intermediate_size'', c_dense_inter := gt ''dense_intermediate_size'',
        c_first_dense := (case get_arr t ''moe_layer_freq'' of
            Some arr \<Rightarrow> wrap32 (int (length (takeWhile (\<lambda>v. as_i64 v = Some 0) arr)))
          | None \<Rightarrow> gt ''first_k_dense_replace''),
        c_qk_nope := wrap32 (head_dim - rotary_dim), c_qk_rope := rotary_dim, c_qk_head := head_dim, c_v_head := head_dim,
        c_n_shared := gt ''n_shared_experts'', c_vocab := gt ''vocab_size'', c_max_ctx := gt ''max_position_embeddings'',
        c_n_group := 1, c_topk_group := 1, c_norm_topk := True,
        c_stop_ids := (if stops = [] then parse_stop_ids r [] else stops),
        c_index_topk := wrap32 (sg ''sparse_topk_blocks'' * sg ''sparse_block_size''),
        c_index_nh := sg ''sparse_num_index_heads'', c_index_hd := sg ''sparse_index_dim'',
        c_index_block_size := sg ''sparse_block_size'', c_index_topk_blocks := sg ''sparse_topk_blocks'',
        c_index_local_blocks := sg ''sparse_local_block'',
        c_idx_type := (case Option.bind sac (\<lambda>s. get_arr s ''sparse_attention_freq'') of
            Some arr \<Rightarrow> map (\<lambda>i. unwrap_or (Option.bind (idx arr i) as_i64) 0 \<noteq> 0) [0..<nlc]
          | None \<Rightarrow> replicate nlc False),
        c_eps := gf32 t ''rms_norm_eps'' (f64_lit ''1e-6''),
        c_theta := gf32 t ''rope_theta'' (f64_lit ''10000.0''),
        c_attn_scale := (if 0 < head_dim then inv_sqrt head_dim else 0),
        c_routed_scale := gf32 t ''routed_scaling_factor'' (f64_lit ''1.0''),
        c_arch := a, c_n_kv_heads := gt ''num_key_value_heads'', c_shared_inter := gt ''shared_intermediate_size'',
        c_qk_norm := unwrap_or (get_bool t ''use_qk_norm'') False,
        c_gemma_norm := unwrap_or (get_bool t ''use_gemma_norm'') False,
        c_swiglu_oai := (unwrap_or (get_text t ''hidden_act'') [] = lit ''swigluoai''),
        c_swiglu_alpha := gf32 t ''swiglu_alpha'' (f64_lit ''1.702''),
        c_swiglu_limit := gf32 t ''swiglu_limit'' (f64_lit ''7.0''),
        c_sigmoid_route := (unwrap_or (get_text t ''scoring_func'') [] = lit ''sigmoid'')\<rparr>)"

definition from_json_minimax :: "json \<Rightarrow> json \<Rightarrow> arch \<Rightarrow> config_error + config" where
  "from_json_minimax r t a =
     (let c = minimax_config r t a; head_dim = gi_in t ''head_dim''
      in and_then (validate_common c) (\<lambda>_. and_then (ckrs [
           (''head_dim'', head_dim, 1, 2 ^ 16),
           (''rotary_dim'', gi_in t ''rotary_dim'', 1, head_dim),
           (''num_key_value_heads'', c_n_kv_heads c, 1, c_n_heads c),
           (''shared_intermediate_size'', c_shared_inter c, 0, 2 ^ 24)]) (\<lambda>_. Inr c)))"

text \<open>Maple.  The quotient of two positive integers truncates like \<open>div\<close>, and a negative hidden size rounds toward zero.\<close>

definition maple_head_dim :: "json \<Rightarrow> int" where
  "maple_head_dim r =
     (let hd = gi_in r ''head_dim''; n_heads = gi_in r ''num_attention_heads''; h = gi_in r ''hidden_size''
      in if 0 < hd then hd else if 0 < n_heads then sgn h * (\<bar>h\<bar> div n_heads) else 0)"

definition maple_rotary_dim :: "json \<Rightarrow> int" where
  "maple_rotary_dim r =
     f64_as_i32 (f64_mul (f64_of_int (maple_head_dim r)) (unwrap_or (get_f64 r ''partial_rotary_factor'') (f64_lit ''1.0'')))"

definition maple_layer_swa :: "json \<Rightarrow> bool list" where
  "maple_layer_swa r =
     (let nlc = capped_layers (gi_in r ''num_hidden_layers'')
      in case get_arr r ''layer_types'' of
           Some arr \<Rightarrow> map (\<lambda>i. Option.bind (idx arr i) as_str = Some (lit ''sliding_attention'')) [0..<nlc]
         | None \<Rightarrow> replicate nlc False)"

definition maple_config :: "json \<Rightarrow> config" where
  "maple_config r =
     (let gi = gi_in r;
          head_dim = maple_head_dim r;
          rotary_dim = maple_rotary_dim r;
          layer_swa = maple_layer_swa r
      in blank_config\<lparr>
        c_hidden := gi ''hidden_size'', c_n_layers := gi ''num_hidden_layers'', c_n_heads := gi ''num_attention_heads'',
        c_n_experts := gi ''num_experts'', c_topk := gi ''num_experts_per_tok'',
        c_moe_inter := gi ''moe_intermediate_size'',
        c_qk_nope := wrap32 (head_dim - rotary_dim), c_qk_rope := rotary_dim, c_qk_head := head_dim, c_v_head := head_dim,
        c_n_shared := wrap32 (unwrap_or (get_i64 r ''num_shared_experts'') 0), c_vocab := gi ''vocab_size'',
        c_max_ctx := gi ''max_position_embeddings'',
        c_n_group := 1, c_topk_group := 1, c_norm_topk := True, c_stop_ids := parse_stop_ids r [],
        c_eps := gf32 r ''rms_norm_eps'' (f64_lit ''1e-6''),
        c_theta := gf32 r ''rope_theta'' (f64_lit ''10000.0''),
        c_attn_scale := (if 0 < head_dim then inv_sqrt head_dim else 0),
        c_routed_scale := f32_of_int 1,
        c_arch := Maple, c_n_kv_heads := gi ''num_key_value_heads'',
        c_qk_norm := unwrap_or (get_bool r ''use_qk_norm'') False,
        c_swiglu_limit := f32_of_int 7, c_router_score := Softmax,
        c_swa_window := (if \<exists>b \<in> set layer_swa. b then gi ''sliding_window'' else 0),
        c_layer_swa := layer_swa,
        c_nope_on_global := unwrap_or (get_bool r ''nope_on_global_attention'') False\<rparr>)"

definition from_json_maple :: "json \<Rightarrow> config_error + config" where
  "from_json_maple r =
     (let c = maple_config r; head_dim = maple_head_dim r
      in and_then (validate_common c) (\<lambda>_. and_then (ckrs [
           (''head_dim'', head_dim, 1, 2 ^ 16),
           (''rotary_dim'', maple_rotary_dim r, 1, head_dim),
           (''num_key_value_heads'', c_n_kv_heads c, 1, c_n_heads c),
           (''sliding_window'', c_swa_window c, 0, 2 ^ 24)]) (\<lambda>_. Inr c)))"

text \<open>DeepSeek-V4\<close>

definition i32s_of :: "json list option \<Rightarrow> int list" where
  "i32s_of a = unwrap_or (map_option (\<lambda>xs. map f64_as_i32 (List.map_filter as_f64 xs)) a) []"

definition deepseek_config :: "json \<Rightarrow> config" where
  "deepseek_config r =
     (let g = gi_in r; gf = (\<lambda>k. f64_as_i32 (unwrap_or (get_f64 r k) 0))
      in blank_config\<lparr>
        c_hidden := g ''hidden_size'', c_n_layers := g ''num_hidden_layers'', c_n_heads := g ''num_attention_heads'',
        c_n_experts := g ''n_routed_experts'', c_topk := g ''num_experts_per_tok'',
        c_moe_inter := g ''moe_intermediate_size'',
        c_q_lora := g ''q_lora_rank'', c_o_lora := g ''o_lora_rank'', c_o_groups := max (g ''o_groups'') 1,
        c_kv_lora := g ''head_dim'', c_qk_nope := wrap32 (g ''head_dim'' - g ''qk_rope_head_dim''),
        c_qk_head := g ''head_dim'', c_v_head := g ''head_dim'', c_qk_rope := g ''qk_rope_head_dim'',
        c_n_shared := g ''n_shared_experts'', c_vocab := g ''vocab_size'', c_max_ctx := g ''max_position_embeddings'',
        c_n_group := max (g ''n_group'') 1, c_topk_group := max (g ''topk_group'') 1,
        c_norm_topk := unwrap_or (get_bool r ''norm_topk_prob'') True, c_stop_ids := parse_stop_ids r [],
        c_index_topk := g ''index_topk'', c_index_nh := g ''index_n_heads'', c_index_hd := g ''index_head_dim'',
        c_eps := gf32 r ''rms_norm_eps'' (f64_lit ''1e-6''),
        c_theta := gf32 r ''rope_theta'' (f64_lit ''10000.0''),
        c_routed_scale := gf32 r ''routed_scaling_factor'' (f64_lit ''1.0''),
        c_arch := DeepseekV4, c_n_kv_heads := g ''num_key_value_heads'',
        c_shared_inter := wrap32 (g ''n_shared_experts'' * g ''moe_intermediate_size''),
        c_swiglu_limit := gf32 r ''swiglu_limit'' 0,
        c_compress_ratios := i32s_of (get_arr r ''compress_ratios''),
        c_compress_theta := gf32 r ''compress_rope_theta'' (f64_lit ''10000.0''),
        c_n_hash_layers := gf ''num_hash_layers'', c_dspark_block := gf ''dspark_block_size'',
        c_dspark_noise_id := gf ''dspark_noise_token_id'', c_markov_rank := gf ''dspark_markov_rank'',
        c_dspark_targets := i32s_of (get_arr r ''dspark_target_layer_ids''),
        c_hc_mult := g ''hc_mult'', c_hc_sinkhorn_iters := g ''hc_sinkhorn_iters'',
        c_hc_eps := gf32 r ''hc_eps'' (f64_lit ''1e-6''),
        c_window := g ''sliding_window''\<rparr>)"

definition from_json_deepseek_v4 :: "json \<Rightarrow> config_error + config" where
  "from_json_deepseek_v4 r = Inr (deepseek_config r)"

text \<open>Kimi-K3.  The list of attention layers counts from one.\<close>

definition kimi_layer_kind :: "json \<Rightarrow> layer_kind list" where
  "kimi_layer_kind t =
     (let full = unwrap_or (map_option (List.map_filter as_i64)
            (Option.bind (json_get t (lit ''linear_attn_config'')) (\<lambda>s. get_arr s ''full_attn_layers''))) []
      in map (\<lambda>i. if int i + 1 \<in> set full then Attn else Kda) [0..<capped_layers (gi_in t ''num_hidden_layers'')])"

definition kimi_config :: "json \<Rightarrow> json \<Rightarrow> config" where
  "kimi_config r t =
     (let gt = gi_in t;
          lg = (\<lambda>k. unwrap_or (map_option wrap32
                 (Option.bind (json_get t (lit ''linear_attn_config'')) (\<lambda>s. get_i64 s k))) 0);
          stops = parse_stop_ids t [];
          qk_head = wrap32 (gt ''qk_nope_head_dim'' + gt ''qk_rope_head_dim'')
      in blank_config\<lparr>
        c_hidden := gt ''hidden_size'', c_n_layers := gt ''num_hidden_layers'', c_n_heads := gt ''num_attention_heads'',
        c_n_experts := gt ''num_experts'', c_topk := gt ''num_experts_per_token'',
        c_moe_inter := gt ''moe_intermediate_size'', c_dense_inter := gt ''intermediate_size'',
        c_first_dense := gt ''first_k_dense_replace'', c_q_lora := gt ''q_lora_rank'', c_kv_lora := gt ''kv_lora_rank'',
        c_qk_nope := gt ''qk_nope_head_dim'', c_qk_rope := gt ''qk_rope_head_dim'', c_qk_head := qk_head,
        c_v_head := gt ''v_head_dim'', c_n_shared := gt ''num_shared_experts'', c_vocab := gt ''vocab_size'',
        c_max_ctx := gt ''max_position_embeddings'', c_n_group := max (gt ''num_expert_group'') 1,
        c_topk_group := max (gt ''topk_group'') 1,
        c_norm_topk := unwrap_or (get_bool t ''moe_renormalize'') False,
        c_stop_ids := (if stops = [] then parse_stop_ids r [] else stops),
        c_eps := gf32 t ''rms_norm_eps'' (f64_lit ''1e-5''),
        c_theta := gf32 t ''rope_theta'' (f64_lit ''10000.0''),
        c_attn_scale := inv_sqrt qk_head,
        c_routed_scale := gf32 t ''routed_scaling_factor'' (f64_lit ''1.0''),
        c_arch := KimiK3, c_n_kv_heads := gt ''num_key_value_heads'',
        c_shared_inter := wrap32 (gt ''num_shared_experts'' * gt ''moe_intermediate_size''),
        c_sigmoid_route := (get_text t ''moe_router_activation_func'' = Some (lit ''sigmoid'')),
        c_layer_kind := kimi_layer_kind t,
        c_moe_latent := gt ''routed_expert_hidden_size'',
        c_situ := (get_text t ''hidden_act'' = Some (lit ''situ'')),
        c_situ_beta := gf32 t ''activation_situ_beta'' (f64_lit ''1.0''),
        c_situ_linear_beta := gf32 t ''activation_situ_linear_beta'' 0,
        c_mla_nope := unwrap_or (get_bool t ''mla_use_nope'') False,
        c_kda_n_heads := lg ''num_heads'', c_kda_head_dim := lg ''head_dim'', c_kda_d_conv := lg ''short_conv_kernel_size'',
        c_attn_res_block_size := gt ''attn_res_block_size''\<rparr>)"

definition from_json_kimi :: "json \<Rightarrow> json \<Rightarrow> config_error + config" where
  "from_json_kimi r t =
     (let c = kimi_config r t
      in and_then (validate_common c) (\<lambda>_.
           if length (c_layer_kind c) \<noteq> to_usize (c_n_layers c) then Inl (Config_unsupported Kind_length_mismatch)
           else if Attn \<notin> set (c_layer_kind c) then Inl (Config_unsupported No_attention_layer)
           else and_then (ckrs [
             (''linear_attn_config.num_heads'', c_kda_n_heads c, 1, 2 ^ 16),
             (''linear_attn_config.head_dim'', c_kda_head_dim c, 1, 2 ^ 16),
             (''linear_attn_config.short_conv_kernel_size'', c_kda_d_conv c, 1, 2 ^ 8),
             (''routed_expert_hidden_size'', c_moe_latent c, 0, 2 ^ 24),
             (''kv_lora_rank'', c_kv_lora c, 1, 2 ^ 16),
             (''attn_res_block_size'', c_attn_res_block_size c, 1, 2 ^ 16)]) (\<lambda>_. Inr c)))"

text \<open>Nemotron-H\<close>

definition nemotron_qk_rope :: "json \<Rightarrow> int" where
  "nemotron_qk_rope r = f64_as_i32 (f64_round
     (f64_mul (f64_of_int (gi_in r ''head_dim'')) (unwrap_or (get_f64 r ''partial_rotary_factor'') (f64_lit ''1.0''))))"

definition nemotron_config :: "json \<Rightarrow> layer_kind list \<Rightarrow> layer_kind list \<Rightarrow> config" where
  "nemotron_config r kinds mtp =
     (let gi = gi_in r;
          head_dim = gi ''head_dim'';
          qk_rope = nemotron_qk_rope r
      in blank_config\<lparr>
        c_hidden := gi ''hidden_size'', c_n_layers := gi ''num_hidden_layers'', c_n_heads := gi ''num_attention_heads'',
        c_n_experts := gi ''n_routed_experts'', c_topk := gi ''num_experts_per_tok'',
        c_moe_inter := gi ''moe_intermediate_size'', c_dense_inter := max (gi ''moe_intermediate_size'') 1,
        c_qk_nope := wrap32 (head_dim - qk_rope), c_qk_rope := qk_rope, c_qk_head := head_dim, c_v_head := head_dim,
        c_n_shared := max (gi ''n_shared_experts'') 0, c_vocab := gi ''vocab_size'',
        c_max_ctx := gi ''max_position_embeddings'', c_n_group := max (gi ''n_group'') 1,
        c_topk_group := max (gi ''topk_group'') 1,
        c_norm_topk := unwrap_or (get_bool r ''norm_topk_prob'') True, c_stop_ids := parse_stop_ids r [],
        c_eps := gf32 r ''layer_norm_epsilon'' (unwrap_or (get_f64 r ''norm_eps'') (f64_lit ''1e-5'')),
        c_theta := gf32 r ''rope_theta'' (f64_lit ''10000.0''),
        c_attn_scale := (if 0 < head_dim then inv_sqrt head_dim else 0),
        c_routed_scale := gf32 r ''routed_scaling_factor'' (f64_lit ''1.0''),
        c_arch := NemotronH, c_n_kv_heads := gi ''num_key_value_heads'',
        c_shared_inter := max (gi ''moe_shared_expert_intermediate_size'') 0,
        c_sigmoid_route := True, c_layer_kind := kinds, c_mtp_layer_kind := mtp,
        c_mamba_d_state := gi ''ssm_state_size'', c_mamba_d_conv := gi ''conv_kernel'',
        c_mamba_n_heads := gi ''mamba_num_heads'', c_mamba_head_dim := gi ''mamba_head_dim'',
        c_mamba_n_groups := max (gi ''n_groups'') 1,
        c_mamba_inter := wrap32 (gi ''mamba_num_heads'' * gi ''mamba_head_dim''),
        c_mamba_chunk := max (gi ''chunk_size'') 1, c_moe_latent := gi ''moe_latent_size'',
        c_relu2 := (get_text r ''mlp_hidden_act'' = Some (lit ''relu2'')),
        c_mamba_dt_min := gf32 r ''time_step_min'' 0\<rparr>)"

definition nemotron_checks :: "json \<Rightarrow> config \<Rightarrow> (string \<times> int \<times> int \<times> int) list" where
  "nemotron_checks r c = [
     (''head_dim'', gi_in r ''head_dim'', 1, 2 ^ 16),
     (''num_key_value_heads'', c_n_kv_heads c, 1, c_n_heads c),
     (''ssm_state_size'', c_mamba_d_state c, 1, 2 ^ 16),
     (''conv_kernel'', c_mamba_d_conv c, 1, 64),
     (''mamba_num_heads'', c_mamba_n_heads c, 1, 2 ^ 16),
     (''mamba_head_dim'', c_mamba_head_dim c, 1, 2 ^ 16),
     (''n_groups'', c_mamba_n_groups c, 1, c_mamba_n_heads c),
     (''chunk_size'', c_mamba_chunk c, 1, 2 ^ 16),
     (''moe_latent_size'', c_moe_latent c, 1, 2 ^ 20),
     (''moe_shared_expert_intermediate_size'', c_shared_inter c, 1, 2 ^ 24)]"

definition from_json_nemotron :: "json \<Rightarrow> config_error + config" where
  "from_json_nemotron r =
     and_then (parse_hybrid_pattern (unwrap_or (get_text r ''hybrid_override_pattern'') []) ''hybrid_override_pattern'') (\<lambda>kinds.
     and_then (parse_hybrid_pattern (unwrap_or (get_text r ''mtp_hybrid_override_pattern'') []) ''mtp_hybrid_override_pattern'') (\<lambda>mtp.
       let c = nemotron_config r kinds mtp
       in and_then (validate_common c) (\<lambda>_. and_then (ckrs (nemotron_checks r c)) (\<lambda>_.
          if length (c_layer_kind c) \<noteq> to_usize (c_n_layers c) then Inl (Config_unsupported Kind_length_mismatch)
          else Inr c))))"

section \<open>Dispatch and loading\<close>

definition arch_is :: "json \<Rightarrow> string \<Rightarrow> bool" where
  "arch_is r name = (case get_arr r ''architectures'' of
     Some a \<Rightarrow> (\<exists>v \<in> set a. as_str v = Some (lit name)) | None \<Rightarrow> False)"

definition config_from_json :: "json \<Rightarrow> config_error + config" where
  "config_from_json r =
     (let is_type = (\<lambda>name. get_text r ''model_type'' = Some (lit name));
          t = unwrap_or (json_get r (lit ''text_config'')) r
      in if is_type ''nemotron_h'' \<or> arch_is r ''NemotronHForCausalLM'' then from_json_nemotron r
         else if is_type ''minimax_m2'' \<or> arch_is r ''MiniMaxM2ForCausalLM'' then from_json_minimax r r MinimaxM2
         else if is_type ''deepseek_v4'' \<or> arch_is r ''DeepseekV4ForCausalLM'' then from_json_deepseek_v4 r
         else if is_type ''kimi_k3'' \<or> arch_is r ''KimiK3ForConditionalGeneration'' \<or> arch_is r ''KimiLinearForCausalLM''
           then from_json_kimi r t
         else if is_type ''maple'' \<or> arch_is r ''MapleForCausalLM'' then from_json_maple r
         else if is_type ''minimax_m3_vl'' \<or> json_get r (lit ''text_config'') \<noteq> None then from_json_minimax r t MinimaxM3
         else from_json_glm r)"

fun merge_stop_ids :: "int list \<Rightarrow> int list \<Rightarrow> int list" where
  "merge_stop_ids ids [] = ids"
| "merge_stop_ids ids (x # extra) =
     (if MAX_STOP_IDS \<le> length ids then ids
      else merge_stop_ids (if x \<in> set ids then ids else ids @ [x]) extra)"

definition merge_generation :: "byte_string option \<Rightarrow> config \<Rightarrow> config" where
  "merge_generation gtext cfg = (case Option.bind gtext json_parse of
     None \<Rightarrow> cfg
   | Some gc \<Rightarrow> cfg\<lparr>c_stop_ids := merge_stop_ids (c_stop_ids cfg) (parse_stop_ids gc [])\<rparr>)"

text \<open>The contents of the two files, \<open>None\<close> when a file cannot be read.\<close>

definition config_load :: "byte_string option \<Rightarrow> byte_string option \<Rightarrow> config_error + config" where
  "config_load text gtext =
     and_then (ok_or Config_io text) (\<lambda>text.
     and_then (ok_or Config_parse (json_parse text)) (\<lambda>root.
     and_then (config_from_json root) (\<lambda>cfg. Inr (merge_generation gtext cfg))))"

section \<open>Questions\<close>

definition moe_layers :: "config \<Rightarrow> nat \<times> nat" where
  "moe_layers c =
     (case List.find (\<lambda>i. c_layer_kind c ! i = Moe) [0..<length (c_layer_kind c)] of
        Some ix \<Rightarrow> (length (filter (\<lambda>k. k = Moe) (c_layer_kind c)), ix)
      | None \<Rightarrow> (nat (max (wrap32 (c_n_layers c - c_first_dense c)) 0), nat (max (c_first_dense c) 0)))"

definition layer_is_swa :: "config \<Rightarrow> nat \<Rightarrow> bool" where
  "layer_is_swa c i \<longleftrightarrow> 0 < c_swa_window c \<and> get_or False (c_layer_swa c) i"

definition layer_uses_rope :: "config \<Rightarrow> nat \<Rightarrow> bool" where
  "layer_uses_rope c i \<longleftrightarrow> \<not> c_nope_on_global c \<or> layer_is_swa c i"

definition layer_kv_span :: "config \<Rightarrow> nat \<Rightarrow> nat \<Rightarrow> nat" where
  "layer_kv_span c i ctx = (if layer_is_swa c i then min ctx (nat (max (c_swa_window c) 0)) else ctx)"

definition mtp_head_layers :: "config \<Rightarrow> nat" where
  "mtp_head_layers c = max (length (c_mtp_layer_kind c)) 1"

section \<open>What the checks guarantee\<close>

definition common_ok :: "config \<Rightarrow> bool" where
  "common_ok c \<longleftrightarrow> c_hidden c \<in> {1..2 ^ 20} \<and> c_n_layers c \<in> {1..128} \<and> c_n_heads c \<in> {1..1024} \<and>
     c_n_experts c \<in> {1..4096} \<and> c_topk c \<in> {1..64} \<and> c_moe_inter c \<in> {1..2 ^ 20} \<and>
     c_dense_inter c \<in> {(if 0 < c_first_dense c then 1 else 0)..2 ^ 24} \<and> c_first_dense c \<in> {0..c_n_layers c} \<and>
     c_v_head c \<in> {1..2 ^ 16} \<and> c_n_shared c \<in> {0..64} \<and> c_vocab c \<in> {1..2 ^ 24} \<and>
     length (c_stop_ids c) \<le> MAX_STOP_IDS"

definition mla_ok :: "config \<Rightarrow> bool" where
  "mla_ok c \<longleftrightarrow> c_q_lora c \<in> {0..2 ^ 20} \<and> c_kv_lora c \<in> {1..2 ^ 20} \<and> c_qk_nope c \<in> {1..2 ^ 16} \<and>
     c_qk_rope c \<in> {1..2 ^ 16} \<and> c_qk_head c = c_qk_nope c + c_qk_rope c \<and>
     c_index_topk c \<in> {0..2 ^ 20} \<and> c_index_nh c \<in> {0..1024} \<and> c_index_hd c \<in> {0..2 ^ 16} \<and>
     length (c_idx_type c) = nat (c_n_layers c) \<and> c_shared_inter c = c_n_shared c * c_moe_inter c"

definition gqa_ok :: "config \<Rightarrow> bool" where
  "gqa_ok c \<longleftrightarrow> 0 \<le> c_qk_nope c \<and> 1 \<le> c_qk_rope c \<and> c_qk_nope c + c_qk_rope c = c_qk_head c \<and>
     c_qk_head c \<le> 2 ^ 16 \<and> c_n_kv_heads c \<in> {1..c_n_heads c}"

text \<open>
  The two hybrid parsers check neither part of the query/key head, so their head geometry is what the
  \<open>i32\<close> arithmetic gives.
\<close>

definition kimi_ok :: "config \<Rightarrow> bool" where
  "kimi_ok c \<longleftrightarrow> length (c_layer_kind c) = nat (c_n_layers c) \<and> Attn \<in> set (c_layer_kind c) \<and>
     set (c_layer_kind c) \<subseteq> {Attn, Kda} \<and> c_kda_n_heads c \<in> {1..2 ^ 16} \<and> c_kda_head_dim c \<in> {1..2 ^ 16} \<and>
     c_kda_d_conv c \<in> {1..2 ^ 8} \<and> c_kv_lora c \<in> {1..2 ^ 16} \<and> c_attn_res_block_size c \<in> {1..2 ^ 16} \<and>
     c_moe_latent c \<in> {0..2 ^ 24} \<and> 1 \<le> c_n_group c \<and> 1 \<le> c_topk_group c \<and>
     c_shared_inter c = c_n_shared c * c_moe_inter c \<and> c_qk_head c = wrap32 (c_qk_nope c + c_qk_rope c) \<and>
     c_attn_scale c = inv_sqrt (c_qk_head c)"

definition nemotron_ok :: "config \<Rightarrow> bool" where
  "nemotron_ok c \<longleftrightarrow> length (c_layer_kind c) = nat (c_n_layers c) \<and> set (c_layer_kind c) \<subseteq> {Mamba, Attn, Moe} \<and>
     c_qk_head c \<in> {1..2 ^ 16} \<and> c_n_kv_heads c \<in> {1..c_n_heads c} \<and> c_mamba_d_state c \<in> {1..2 ^ 16} \<and>
     c_mamba_d_conv c \<in> {1..64} \<and> c_mamba_n_heads c \<in> {1..2 ^ 16} \<and> c_mamba_head_dim c \<in> {1..2 ^ 16} \<and>
     c_mamba_n_groups c \<in> {1..c_mamba_n_heads c} \<and> c_mamba_chunk c \<in> {1..2 ^ 16} \<and>
     c_moe_latent c \<in> {1..2 ^ 20} \<and> c_shared_inter c \<in> {1..2 ^ 24} \<and> 1 \<le> c_n_group c \<and> 1 \<le> c_topk_group c \<and>
     c_v_head c = c_qk_head c \<and> c_qk_nope c = wrap32 (c_qk_head c - c_qk_rope c) \<and>
     c_mamba_inter c = wrap32 (c_mamba_n_heads c * c_mamba_head_dim c) \<and> c_attn_scale c = inv_sqrt (c_qk_head c)"

definition config_ok :: "config \<Rightarrow> bool" where
  "config_ok c \<longleftrightarrow> common_ok c \<and> (c_layer_kind c = [] \<or> c_arch c = KimiK3 \<or> c_arch c = NemotronH) \<and>
     (case c_arch c of
        GlmMoeDsa \<Rightarrow> mla_ok c
      | MinimaxM3 \<Rightarrow> gqa_ok c \<and> length (c_idx_type c) = nat (c_n_layers c) \<and> c_shared_inter c \<in> {0..2 ^ 24}
      | MinimaxM2 \<Rightarrow> gqa_ok c \<and> length (c_idx_type c) = nat (c_n_layers c) \<and> c_shared_inter c \<in> {0..2 ^ 24}
      | Maple \<Rightarrow> gqa_ok c \<and> length (c_layer_swa c) = nat (c_n_layers c) \<and> c_swa_window c \<in> {0..2 ^ 24}
      | KimiK3 \<Rightarrow> kimi_ok c
      | NemotronH \<Rightarrow> nemotron_ok c
      | DeepseekV4 \<Rightarrow> True)"

lemma ckrs_ok [simp]: "ckrs xs = Inr u \<longleftrightarrow> (\<forall>(name, v, lo, hi) \<in> set xs. lo \<le> v \<and> v \<le> hi)"
  by (induction xs rule: ckrs.induct) auto

lemma length_map_filter: "length (List.map_filter f xs) \<le> length xs"
  by (simp add: List.map_filter_def)

lemma stop_ids_bounded: "length (parse_stop_ids r []) \<le> MAX_STOP_IDS"
proof -
  have "length (List.map_filter as_i64 (take MAX_STOP_IDS a)) \<le> MAX_STOP_IDS" for a
    using length_map_filter [of as_i64 "take MAX_STOP_IDS a"] by simp
  then show ?thesis by (simp add: parse_stop_ids_def MAX_STOP_IDS_def split: option.splits json.splits)
qed

lemma merge_bounded: "length ids \<le> MAX_STOP_IDS \<Longrightarrow> length (merge_stop_ids ids extra) \<le> MAX_STOP_IDS"
  by (induction ids extra rule: merge_stop_ids.induct) auto

lemma capped_valid: "1 \<le> n \<Longrightarrow> n \<le> 128 \<Longrightarrow> capped_layers n = nat n"
  by (simp add: capped_layers_def MAX_LAYERS_IDX_def)

lemma shared_product:
  assumes "0 \<le> a" "a \<le> 64" "1 \<le> b" "b \<le> 2 ^ 20"
  shows "wrap32 (a * b) = a * b"
proof (rule wrap32_id)
  have "a * b \<le> 64 * 2 ^ 20" using assms by (intro mult_mono) auto
  then show "a * b < 2 ^ 31" by simp
  show "- (2 ^ 31) \<le> a * b" using assms by (simp add: order_trans [OF _ mult_nonneg_nonneg])
qed

lemma validate_common_ok:
  assumes "validate_common c = Inr u" and "length (c_stop_ids c) \<le> MAX_STOP_IDS"
  shows "common_ok c"
  using assms unfolding validate_common_def common_ok_def by (simp split: if_splits)

lemma glm_sound:
  assumes "from_json_glm r = Inr c"
  shows "config_ok c \<and> c_arch c = GlmMoeDsa"
proof -
  have c: "c = glm_config r" and ok: "validate_common c = Inr ()"
    and mla: "c_q_lora c \<in> {0..2 ^ 20}" "c_kv_lora c \<in> {1..2 ^ 20}" "c_qk_nope c \<in> {1..2 ^ 16}" "c_qk_rope c \<in> {1..2 ^ 16}"
      "c_index_topk c \<in> {0..2 ^ 20}" "c_index_nh c \<in> {0..1024}" "c_index_hd c \<in> {0..2 ^ 16}"
    using assms by (auto simp: from_json_glm_def Let_def and_then_Inr split: if_splits)
  have "common_ok c" using validate_common_ok [OF ok] stop_ids_bounded [of r] by (simp add: c glm_config_def Let_def)
  moreover have "c_qk_head c = wrap32 (c_qk_nope c + c_qk_rope c)" "c_shared_inter c = wrap32 (c_n_shared c * c_moe_inter c)"
    "length (c_idx_type c) = capped_layers (c_n_layers c)" "c_arch c = GlmMoeDsa" "c_layer_kind c = []"
    by (simp_all add: c glm_config_def blank_config_def Let_def)
  ultimately show ?thesis
    using mla shared_product [of "c_n_shared c" "c_moe_inter c"] capped_valid [of "c_n_layers c"] wrap32_id [of "c_qk_nope c + c_qk_rope c"]
    by (simp add: config_ok_def mla_ok_def common_ok_def)
qed

lemma gqa_split:
  assumes "h \<in> {1..2 ^ 16}" and "rot \<in> {1..h}"
  shows "wrap32 (h - rot) = h - rot"
  using assms by (intro wrap32_id) auto

lemma minimax_sound:
  assumes "from_json_minimax r t a = Inr c" and "a = MinimaxM3 \<or> a = MinimaxM2"
  shows "config_ok c \<and> c_arch c = a"
proof -
  have c: "c = minimax_config r t a" and ok: "validate_common c = Inr ()"
    and gqa: "gi_in t ''head_dim'' \<in> {1..2 ^ 16}" "gi_in t ''rotary_dim'' \<in> {1..gi_in t ''head_dim''}"
      "c_n_kv_heads c \<in> {1..c_n_heads c}" "c_shared_inter c \<in> {0..2 ^ 24}"
    using assms(1) by (auto simp: from_json_minimax_def Let_def and_then_Inr split: if_splits)
  have common: "common_ok c" using validate_common_ok [OF ok] stop_ids_bounded [of r] stop_ids_bounded [of t]
    by (simp add: c minimax_config_def Let_def)
  have fields: "c_qk_nope c = wrap32 (gi_in t ''head_dim'' - gi_in t ''rotary_dim'')" "c_qk_rope c = gi_in t ''rotary_dim''"
    "c_qk_head c = gi_in t ''head_dim''" "c_arch c = a" "length (c_idx_type c) = capped_layers (c_n_layers c)"
    "c_layer_kind c = []"
    by (simp_all add: c minimax_config_def blank_config_def Let_def split: option.splits)
  have "length (c_idx_type c) = nat (c_n_layers c)" using fields(5) capped_valid common by (simp add: common_ok_def)
  moreover have "gqa_ok c" using gqa gqa_split [OF gqa(1,2)] fields by (simp add: gqa_ok_def)
  ultimately show ?thesis using assms(2) common gqa(4) fields(4,6) by (auto simp: config_ok_def)
qed

lemma maple_sound:
  assumes "from_json_maple r = Inr c"
  shows "config_ok c \<and> c_arch c = Maple"
proof -
  have c: "c = maple_config r" and ok: "validate_common c = Inr ()"
    and gqa: "maple_head_dim r \<in> {1..2 ^ 16}" "maple_rotary_dim r \<in> {1..maple_head_dim r}"
      "c_n_kv_heads c \<in> {1..c_n_heads c}" "c_swa_window c \<in> {0..2 ^ 24}"
    using assms(1) by (auto simp: from_json_maple_def Let_def and_then_Inr split: if_splits)
  have common: "common_ok c" using validate_common_ok [OF ok] stop_ids_bounded [of r] by (simp add: c maple_config_def Let_def)
  have fields: "c_qk_nope c = wrap32 (maple_head_dim r - maple_rotary_dim r)" "c_qk_rope c = maple_rotary_dim r"
    "c_qk_head c = maple_head_dim r" "c_arch c = Maple" "length (c_layer_swa c) = capped_layers (c_n_layers c)"
    "c_layer_kind c = []"
    by (simp_all add: c maple_config_def blank_config_def maple_layer_swa_def Let_def split: option.splits)
  have "length (c_layer_swa c) = nat (c_n_layers c)" using fields(5) capped_valid common by (simp add: common_ok_def)
  moreover have "gqa_ok c" using gqa gqa_split [OF gqa(1,2)] fields by (simp add: gqa_ok_def)
  ultimately show ?thesis using common gqa(4) fields(4,6) by (simp add: config_ok_def)
qed

lemma kimi_sound:
  assumes "from_json_kimi r t = Inr c"
  shows "config_ok c \<and> c_arch c = KimiK3"
proof -
  have c: "c = kimi_config r t" and ok: "validate_common c = Inr ()"
    and kind: "length (c_layer_kind c) = to_usize (c_n_layers c)" "Attn \<in> set (c_layer_kind c)"
    and kda: "c_kda_n_heads c \<in> {1..2 ^ 16}" "c_kda_head_dim c \<in> {1..2 ^ 16}" "c_kda_d_conv c \<in> {1..2 ^ 8}"
      "c_kv_lora c \<in> {1..2 ^ 16}" "c_attn_res_block_size c \<in> {1..2 ^ 16}" "c_moe_latent c \<in> {0..2 ^ 24}"
    using assms(1) by (auto simp: from_json_kimi_def Let_def and_then_Inr split: if_splits)
  have common: "common_ok c" using validate_common_ok [OF ok] stop_ids_bounded [of r] stop_ids_bounded [of t]
    by (simp add: c kimi_config_def Let_def)
  have fields: "c_arch c = KimiK3" "set (c_layer_kind c) \<subseteq> {Attn, Kda}" "c_shared_inter c = wrap32 (c_n_shared c * c_moe_inter c)"
    "c_qk_head c = wrap32 (c_qk_nope c + c_qk_rope c)" "c_attn_scale c = inv_sqrt (c_qk_head c)"
    "1 \<le> c_n_group c" "1 \<le> c_topk_group c"
    by (auto simp: c kimi_config_def kimi_layer_kind_def Let_def)
  have "length (c_layer_kind c) = nat (c_n_layers c)" using kind(1) common to_usize_nonneg by (simp add: common_ok_def)
  then show ?thesis using kind(2) kda fields common shared_product [of "c_n_shared c" "c_moe_inter c"]
    by (simp add: config_ok_def kimi_ok_def common_ok_def)
qed

lemma pattern_kinds: "try_map (pattern_kind f) bs = Inr ks \<Longrightarrow> set ks \<subseteq> {Mamba, Attn, Moe}"
  by (induction bs arbitrary: ks) (auto simp: and_then_Inr pattern_kind_def split: if_splits)

lemma nemotron_sound:
  assumes "from_json_nemotron r = Inr c"
  shows "config_ok c \<and> c_arch c = NemotronH"
proof -
  obtain kinds mtp u w where kinds: "try_map (pattern_kind ''hybrid_override_pattern'')
        (unwrap_or (get_text r ''hybrid_override_pattern'') []) = Inr kinds"
    and ok': "validate_common (nemotron_config r kinds mtp) = Inr u"
    and ch: "ckrs (nemotron_checks r (nemotron_config r kinds mtp)) = Inr w"
    and last: "(if length (c_layer_kind (nemotron_config r kinds mtp)) \<noteq> to_usize (c_n_layers (nemotron_config r kinds mtp))
       then Inl (Config_unsupported Kind_length_mismatch) else Inr (nemotron_config r kinds mtp)) = Inr c"
    using assms unfolding from_json_nemotron_def parse_hybrid_pattern_def Let_def and_then_Inr by blast
  have c: "c = nemotron_config r kinds mtp" and len: "length (c_layer_kind c) = to_usize (c_n_layers c)"
    using last by (auto split: if_splits)
  have ok: "validate_common c = Inr u" and checks: "ckrs (nemotron_checks r c) = Inr w" using ok' ch c by simp_all
  have head: "gi_in r ''head_dim'' \<in> {1..2 ^ 16}"
    and rest: "c_n_kv_heads c \<in> {1..c_n_heads c}" "c_mamba_d_state c \<in> {1..2 ^ 16}" "c_mamba_d_conv c \<in> {1..64}"
      "c_mamba_n_heads c \<in> {1..2 ^ 16}" "c_mamba_head_dim c \<in> {1..2 ^ 16}" "c_mamba_n_groups c \<in> {1..c_mamba_n_heads c}"
      "c_mamba_chunk c \<in> {1..2 ^ 16}" "c_moe_latent c \<in> {1..2 ^ 20}" "c_shared_inter c \<in> {1..2 ^ 24}"
    using checks unfolding nemotron_checks_def ckrs_ok by simp_all
  have common: "common_ok c" using validate_common_ok [OF ok] stop_ids_bounded [of r] by (simp add: c nemotron_config_def Let_def)
  have fields: "c_arch c = NemotronH" "c_layer_kind c = kinds" "c_qk_head c = gi_in r ''head_dim''"
    "c_v_head c = c_qk_head c" "c_qk_nope c = wrap32 (c_qk_head c - c_qk_rope c)"
    "c_mamba_inter c = wrap32 (c_mamba_n_heads c * c_mamba_head_dim c)"
    "c_attn_scale c = (if 0 < c_qk_head c then inv_sqrt (c_qk_head c) else 0)" "1 \<le> c_n_group c" "1 \<le> c_topk_group c"
    by (simp_all add: c nemotron_config_def Let_def)
  have "length (c_layer_kind c) = nat (c_n_layers c)" using len common to_usize_nonneg by (simp add: common_ok_def)
  then show ?thesis using pattern_kinds [OF kinds] rest head fields common by (simp add: config_ok_def nemotron_ok_def)
qed

lemma config_from_json_sound: "config_from_json r = Inr c \<Longrightarrow> c_arch c \<noteq> DeepseekV4 \<Longrightarrow> config_ok c"
  using glm_sound minimax_sound maple_sound kimi_sound nemotron_sound
  by (auto simp: config_from_json_def Let_def from_json_deepseek_v4_def deepseek_config_def split: if_splits)

lemma config_ok_stops: "config_ok c \<Longrightarrow> length ids \<le> MAX_STOP_IDS \<Longrightarrow> config_ok (c\<lparr>c_stop_ids := ids\<rparr>)"
  by (simp add: config_ok_def common_ok_def mla_ok_def gqa_ok_def kimi_ok_def nemotron_ok_def split: arch.splits)

lemma merge_generation_arch [simp]: "c_arch (merge_generation g c) = c_arch c"
  by (simp add: merge_generation_def split: option.splits)

lemma merge_generation_ok:
  assumes "config_ok c"
  shows "config_ok (merge_generation g c)"
proof (cases "Option.bind g json_parse")
  case (Some gc)
  have "length (c_stop_ids c) \<le> MAX_STOP_IDS" using assms by (simp add: config_ok_def common_ok_def)
  then have "length (merge_stop_ids (c_stop_ids c) (parse_stop_ids gc [])) \<le> MAX_STOP_IDS" by (rule merge_bounded)
  then show ?thesis using config_ok_stops [OF assms] Some by (simp add: merge_generation_def)
qed (use assms in \<open>simp add: merge_generation_def\<close>)

lemma load_cases:
  assumes "config_load text gtext = Inr c"
  obtains t root cfg where "text = Some t" "json_parse t = Some root" "config_from_json root = Inr cfg" "c = merge_generation gtext cfg"
  using assms by (auto simp: config_load_def and_then_Inr)

lemma load_sound:
  assumes "config_load text gtext = Inr c" and "c_arch c \<noteq> DeepseekV4"
  shows "config_ok c"
  by (rule load_cases [OF assms(1)]) (use assms(2) config_from_json_sound merge_generation_ok in simp)

section \<open>Configurations as text\<close>

lemma gi_tree:
  assumes "map_of (rev kts) (lit k) = Some (TInt n)" and "- (2 ^ 31) \<le> n" and "n < 2 ^ 31"
  shows "gi_in (json_of (TObj kts)) k = n"
proof -
  have "as_i64 (json_of (TInt n)) = Some n" using assms(2,3) by (intro as_i64_int) simp
  then show ?thesis using wrap32_id [OF assms(2,3)] assms(1) by (simp add: gi_in_def unwrap_or_def json_get_tree del: json_of.simps)
qed

lemma gi_tree_none: "map_of (rev kts) (lit k) = None \<Longrightarrow> gi_in (json_of (TObj kts)) k = 0"
  by (simp add: gi_in_def unwrap_or_def wrap32_def json_get_tree del: json_of.simps)

text \<open>A Kimi-K3 file, with the two widths of the query/key head as parameters.\<close>

definition kimi_tree :: "int \<Rightarrow> int \<Rightarrow> jtree" where
  "kimi_tree nope rope = TObj [(lit ''model_type'', TStr (lit ''kimi_k3'')), (lit ''hidden_size'', TInt 7168),
     (lit ''num_hidden_layers'', TInt 2), (lit ''num_attention_heads'', TInt 64), (lit ''num_experts'', TInt 384),
     (lit ''num_experts_per_token'', TInt 8), (lit ''moe_intermediate_size'', TInt 2048), (lit ''intermediate_size'', TInt 18432),
     (lit ''first_k_dense_replace'', TInt 1), (lit ''kv_lora_rank'', TInt 512), (lit ''qk_nope_head_dim'', TInt nope),
     (lit ''qk_rope_head_dim'', TInt rope), (lit ''v_head_dim'', TInt 128), (lit ''num_shared_experts'', TInt 1),
     (lit ''vocab_size'', TInt 163840), (lit ''attn_res_block_size'', TInt 1),
     (lit ''linear_attn_config'', TObj [(lit ''num_heads'', TInt 32), (lit ''head_dim'', TInt 128),
        (lit ''short_conv_kernel_size'', TInt 4), (lit ''full_attn_layers'', TArr [TInt 2])])]"

lemma kimi_fields:
  fixes r a b defines "r \<equiv> json_of (kimi_tree a b)"
  shows "gi_in r ''hidden_size'' = 7168" "gi_in r ''num_hidden_layers'' = 2" "gi_in r ''num_attention_heads'' = 64"
    "gi_in r ''num_experts'' = 384" "gi_in r ''num_experts_per_token'' = 8" "gi_in r ''moe_intermediate_size'' = 2048"
    "gi_in r ''intermediate_size'' = 18432" "gi_in r ''first_k_dense_replace'' = 1" "gi_in r ''kv_lora_rank'' = 512"
    "gi_in r ''v_head_dim'' = 128"
    "gi_in r ''num_shared_experts'' = 1" "gi_in r ''vocab_size'' = 163840" "gi_in r ''attn_res_block_size'' = 1"
    "gi_in r ''routed_expert_hidden_size'' = 0"
    "\<lbrakk>- (2 ^ 31) \<le> a; a < 2 ^ 31\<rbrakk> \<Longrightarrow> gi_in r ''qk_nope_head_dim'' = a"
    "\<lbrakk>- (2 ^ 31) \<le> b; b < 2 ^ 31\<rbrakk> \<Longrightarrow> gi_in r ''qk_rope_head_dim'' = b"
  by (simp_all add: r_def kimi_tree_def gi_tree gi_tree_none del: json_of.simps)

lemma kimi_linear:
  "json_get (json_of (kimi_tree a b)) (lit ''linear_attn_config'') = Some (json_of (TObj [(lit ''num_heads'', TInt 32),
     (lit ''head_dim'', TInt 128), (lit ''short_conv_kernel_size'', TInt 4), (lit ''full_attn_layers'', TArr [TInt 2])]))"
  by (simp add: kimi_tree_def json_get_tree del: json_of.simps)

lemma kimi_lin:
  fixes r a b defines "r \<equiv> json_of (kimi_tree a b)"
  shows "unwrap_or (map_option wrap32 (Option.bind (json_get r (lit ''linear_attn_config'')) (\<lambda>s. get_i64 s ''num_heads''))) 0 = 32"
    "unwrap_or (map_option wrap32 (Option.bind (json_get r (lit ''linear_attn_config'')) (\<lambda>s. get_i64 s ''head_dim''))) 0 = 128"
    "unwrap_or (map_option wrap32 (Option.bind (json_get r (lit ''linear_attn_config'')) (\<lambda>s. get_i64 s ''short_conv_kernel_size''))) 0 = 4"
  by (simp_all add: r_def kimi_linear json_get_tree as_i64_int wrap32_def unwrap_or_def del: json_of.simps)

lemma kimi_kinds: "kimi_layer_kind (json_of (kimi_tree a b)) = [Kda, Attn]"
proof -
  have "List.map_filter as_i64 [json_of (TInt 2)] = [2]" by (simp add: as_i64_int List.map_filter_def del: json_of.simps)
  then show ?thesis
    by (simp add: kimi_layer_kind_def kimi_linear kimi_fields json_get_tree as_array_def unwrap_or_def capped_layers_def
        MAX_LAYERS_IDX_def upt_rec del: json_of.simps) (simp add: as_array_def)
qed

text \<open>Every pair of widths in the range of \<open>i32\<close> is accepted.\<close>

lemma kimi_tree_loads:
  assumes "- (2 ^ 31) \<le> a" "a < 2 ^ 31" "- (2 ^ 31) \<le> b" "b < 2 ^ 31"
  shows "\<exists>k. config_load (Some (show_json (kimi_tree a b))) None = Inr k \<and>
    c_arch k = KimiK3 \<and> c_qk_nope k = a \<and> c_qk_rope k = b \<and> c_qk_head k = wrap32 (a + b)"
proof -
  let ?r = "json_of (kimi_tree a b)"
  have "jtree_ok (kimi_tree a b)" using assms by (simp add: kimi_tree_def utf8_ascii_lit) arith
  then have parse: "json_parse (show_json (kimi_tree a b)) = Some ?r" by (rule json_parse_show)
  have "config_from_json ?r = from_json_kimi ?r ?r"
    by (simp add: config_from_json_def kimi_tree_def json_get_tree arch_is_def as_str_def unwrap_or_def Let_def del: json_of.simps(6))
  moreover have "from_json_kimi ?r ?r = Inr (kimi_config ?r ?r)"
    by (simp add: from_json_kimi_def validate_common_def kimi_config_def kimi_kinds Let_def kimi_fields kimi_lin to_usize_nonneg)
  ultimately have "config_load (Some (show_json (kimi_tree a b))) None = Inr (kimi_config ?r ?r)"
    by (simp add: config_load_def parse merge_generation_def)
  then show ?thesis using assms by (simp add: kimi_config_def kimi_fields Let_def)
qed

lemma kimi_head_wraps:
  "\<exists>k. config_load (Some (show_json (kimi_tree (2 ^ 30) (2 ^ 30)))) None = Inr k \<and>
    c_arch k = KimiK3 \<and> c_qk_nope k = 2 ^ 30 \<and> c_qk_rope k = 2 ^ 30 \<and> c_qk_head k = - (2 ^ 31)"
proof -
  have "wrap32 (2 ^ 30 + 2 ^ 30) = - (2 ^ 31)" by (simp add: wrap32_def)
  then show ?thesis using kimi_tree_loads [of "2 ^ 30" "2 ^ 30"] by (simp only:) simp
qed

text \<open>
  C39: the range checks are a choke point.  Whatever bytes the two configuration files hold, a loaded
  configuration of any architecture but DeepSeek-V4 has every common dimension in its range, one entry
  per layer in its per-layer lists, and at most eight stop tokens.  For GLM, MiniMax and Maple the head
  geometry is consistent and free of wrap-around.  For Kimi-K3 and Nemotron-H it is not checked: the
  width of the Kimi query/key head and the Nemotron part without position encoding are exactly the
  wrapped \<open>i32\<close> sum and difference, and a Kimi file with both parts \<open>2 ^ 30\<close> is accepted with the head
  width \<open>- 2 ^ 31\<close>.
\<close>

theorem config_load_checked:
  assumes "config_load text gtext = Inr c" and "c_arch c \<noteq> DeepseekV4"
  shows "config_ok c \<and> (\<exists>k. config_load (Some (show_json (kimi_tree (2 ^ 30) (2 ^ 30)))) None = Inr k \<and>
    c_arch k = KimiK3 \<and> c_qk_nope k = 2 ^ 30 \<and> c_qk_rope k = 2 ^ 30 \<and> c_qk_head k = - (2 ^ 31))"
  using load_sound [OF assms] kimi_head_wraps by blast

definition glm_tree :: jtree where
  "glm_tree = TObj [(lit ''model_type'', TStr (lit ''glm_moe_dsa'')), (lit ''hidden_size'', TInt 6144),
     (lit ''num_hidden_layers'', TInt 3), (lit ''num_attention_heads'', TInt 64), (lit ''n_routed_experts'', TInt 256),
     (lit ''num_experts_per_tok'', TInt 8), (lit ''moe_intermediate_size'', TInt 2048), (lit ''intermediate_size'', TInt 12288),
     (lit ''first_k_dense_replace'', TInt 1), (lit ''q_lora_rank'', TInt 2048), (lit ''kv_lora_rank'', TInt 512),
     (lit ''qk_nope_head_dim'', TInt 192), (lit ''qk_rope_head_dim'', TInt 64), (lit ''v_head_dim'', TInt 256),
     (lit ''n_shared_experts'', TInt 1), (lit ''vocab_size'', TInt 154880), (lit ''n_group'', TInt 1),
     (lit ''eos_token_id'', TArr [TInt 154820, TInt 154827])]"

lemma glm_fields:
  fixes r defines "r \<equiv> json_of glm_tree"
  shows "gi_in r ''hidden_size'' = 6144" "gi_in r ''num_hidden_layers'' = 3" "gi_in r ''num_attention_heads'' = 64"
    "gi_in r ''n_routed_experts'' = 256" "gi_in r ''num_experts_per_tok'' = 8" "gi_in r ''moe_intermediate_size'' = 2048"
    "gi_in r ''intermediate_size'' = 12288" "gi_in r ''first_k_dense_replace'' = 1" "gi_in r ''q_lora_rank'' = 2048"
    "gi_in r ''kv_lora_rank'' = 512" "gi_in r ''qk_nope_head_dim'' = 192" "gi_in r ''qk_rope_head_dim'' = 64"
    "gi_in r ''v_head_dim'' = 256" "gi_in r ''n_shared_experts'' = 1" "gi_in r ''vocab_size'' = 154880" "gi_in r ''n_group'' = 1"
    "gi_in r ''index_topk'' = 0" "gi_in r ''index_n_heads'' = 0" "gi_in r ''index_head_dim'' = 0"
  by (simp_all add: r_def glm_tree_def gi_tree gi_tree_none del: json_of.simps)

lemma glm_tree_loads: "config_load (Some (show_json glm_tree)) None = Inr (glm_config (json_of glm_tree))"
proof -
  let ?r = "json_of glm_tree"
  have "jtree_ok glm_tree" by (simp add: glm_tree_def utf8_ascii_lit)
  then have parse: "json_parse (show_json glm_tree) = Some ?r" by (rule json_parse_show)
  have "config_from_json ?r = from_json_glm ?r"
    by (simp add: config_from_json_def glm_tree_def json_get_tree arch_is_def as_str_def del: json_of.simps(6))
  moreover have "from_json_glm ?r = Inr (glm_config ?r)"
    by (simp add: from_json_glm_def validate_common_def glm_config_def Let_def glm_fields)
  ultimately show ?thesis by (simp add: config_load_def parse merge_generation_def)
qed

theorem config_load_checked_witness:
  "\<exists>c. config_load (Some (show_json glm_tree)) None = Inr c \<and> config_ok c"
  using config_load_checked [OF glm_tree_loads] glm_tree_loads by (simp add: glm_config_def Let_def)

definition v4_tree :: "int \<Rightarrow> int \<Rightarrow> jtree" where
  "v4_tree h l = TObj [(lit ''model_type'', TStr (lit ''deepseek_v4'')), (lit ''hidden_size'', TInt h),
     (lit ''num_hidden_layers'', TInt l)]"

text \<open>
  DeepSeek-V4 passes the choke point unchecked.  A V4 configuration file with any hidden size and
  any number of layers whatsoever, negative ones included, is accepted with exactly those values.
\<close>

lemma deepseek_dims_unchecked:
  assumes "- (2 ^ 31) \<le> h" "h < 2 ^ 31" "- (2 ^ 31) \<le> l" "l < 2 ^ 31"
  shows "\<exists>c. config_load (Some (show_json (v4_tree h l))) None = Inr c \<and> c_hidden c = h \<and> c_n_layers c = l"
proof -
  let ?r = "json_of (v4_tree h l)"
  have "jtree_ok (v4_tree h l)" using assms by (simp add: v4_tree_def utf8_ascii_lit) arith
  then have parse: "json_parse (show_json (v4_tree h l)) = Some ?r" by (rule json_parse_show)
  have "config_from_json ?r = Inr (deepseek_config ?r)"
    by (simp add: config_from_json_def v4_tree_def json_get_tree arch_is_def as_str_def from_json_deepseek_v4_def del: json_of.simps(6))
  then have "config_load (Some (show_json (v4_tree h l))) None = Inr (deepseek_config ?r)"
    by (simp add: config_load_def parse merge_generation_def)
  moreover have "gi_in ?r ''hidden_size'' = h" "gi_in ?r ''num_hidden_layers'' = l"
    using assms by (simp_all add: v4_tree_def gi_tree del: json_of.simps)
  ultimately show ?thesis by (simp add: deepseek_config_def Let_def)
qed

text \<open>The narrowing to \<open>i32\<close> comes before the check, so a size of \<open>2 ^ 32 + n\<close> is read as \<open>n\<close>.\<close>

lemma size_wraps_before_check:
  assumes "map_of (rev kts) (lit k) = Some (TInt (2 ^ 32 + n))" and "0 \<le> n" and "n < 2 ^ 31"
  shows "gi_in (json_of (TObj kts)) k = n"
proof -
  have "as_i64 (json_of (TInt (2 ^ 32 + n))) = Some (2 ^ 32 + n)" using assms(2,3) by (intro as_i64_int) simp
  moreover have "wrap32 (2 ^ 32 + n) = wrap32 n" unfolding wrap32_def by (simp only: add.assoc mod_add_self1)
  moreover have "wrap32 n = n" using assms(2,3) by (intro wrap32_id) simp_all
  ultimately show ?thesis using assms(1) by (simp add: gi_in_def unwrap_or_def json_get_tree del: json_of.simps)
qed

text \<open>Two checked factors whose product leaves the \<open>i32\<close> range: the inner width of the Mamba mixer is then 0.\<close>

lemma mamba_inter_wraps:
  assumes "gi_in r ''mamba_num_heads'' = 2 ^ 16" and "gi_in r ''mamba_head_dim'' = 2 ^ 16"
  shows "c_mamba_inter (nemotron_config r kinds mtp) = 0"
  using assms by (simp add: nemotron_config_def Let_def wrap32_def)

section \<open>The MoE layers\<close>

definition holds_experts :: "config \<Rightarrow> nat \<Rightarrow> bool" where
  "holds_experts c i \<longleftrightarrow> (if c_arch c = NemotronH then c_layer_kind c ! i = Moe else nat (c_first_dense c) \<le> i)"

lemma find_upt_Some:
  "List.find P [0..<n] = Some i \<Longrightarrow> i < n \<and> P i"
  by (metis (mono_tags, lifting) atLeastLessThan_iff find_Some_iff nth_mem set_upt)

lemma find_upt_None: "List.find P [0..<n] = None \<longleftrightarrow> (\<forall>i < n. \<not> P i)"
  by (auto simp: find_None_iff)

lemma count_as_card: "length (filter P xs) = card {i. i < length xs \<and> P (xs ! i)}"
  by (simp add: length_filter_conv_card)

lemma moe_layers_dense_prefix:
  assumes "Moe \<notin> set (c_layer_kind c)" "0 \<le> c_first_dense c" "c_first_dense c \<le> c_n_layers c" "c_n_layers c < 2 ^ 31"
  shows "moe_layers c = (nat (c_n_layers c) - nat (c_first_dense c), nat (c_first_dense c))"
proof -
  have "List.find (\<lambda>i. c_layer_kind c ! i = Moe) [0..<length (c_layer_kind c)] = None"
    using assms(1) by (auto simp: find_upt_None in_set_conv_nth)
  moreover have "wrap32 (c_n_layers c - c_first_dense c) = c_n_layers c - c_first_dense c"
    using assms(2-4) by (intro wrap32_id) auto
  ultimately show ?thesis using assms(2,3) by (simp add: moe_layers_def nat_diff_distrib)
qed

text \<open>
  \<open>moe_layers\<close> counts the layers that hold experts, under both encodings, and its second
  component is one of them: for every loaded and checked configuration of a model that has any.
\<close>

lemma moe_layers_correct:
  assumes "config_load text gtext = Inr c" and "c_arch c \<noteq> DeepseekV4"
    and "\<exists>i < nat (c_n_layers c). holds_experts c i"
  shows "fst (moe_layers c) = card {i. i < nat (c_n_layers c) \<and> holds_experts c i} \<and>
    snd (moe_layers c) < nat (c_n_layers c) \<and> holds_experts c (snd (moe_layers c))"
proof -
  have ok: "config_ok c" using assms(1,2) by (rule load_sound)
  show ?thesis
  proof (cases "c_arch c = NemotronH")
    case True
    then have len: "length (c_layer_kind c) = nat (c_n_layers c)" using ok by (simp add: config_ok_def nemotron_ok_def)
    obtain ix where ix: "List.find (\<lambda>i. c_layer_kind c ! i = Moe) [0..<length (c_layer_kind c)] = Some ix"
      using assms(3) True len find_upt_None [of "\<lambda>i. c_layer_kind c ! i = Moe" "length (c_layer_kind c)"]
      by (auto simp: holds_experts_def)
    then show ?thesis using find_upt_Some [OF ix] True len
      by (simp add: moe_layers_def holds_experts_def count_as_card)
  next
    case False
    then have "Moe \<notin> set (c_layer_kind c)" using ok by (auto simp: config_ok_def kimi_ok_def)
    moreover have d: "0 \<le> c_first_dense c" "c_first_dense c \<le> c_n_layers c" "c_n_layers c < 2 ^ 31"
      using ok by (simp_all add: config_ok_def common_ok_def)
    ultimately have "moe_layers c = (nat (c_n_layers c) - nat (c_first_dense c), nat (c_first_dense c))"
      by (rule moe_layers_dense_prefix)
    moreover have "{i. i < nat (c_n_layers c) \<and> holds_experts c i} = {nat (c_first_dense c)..<nat (c_n_layers c)}"
      using False by (auto simp: holds_experts_def)
    moreover have "nat (c_first_dense c) < nat (c_n_layers c)"
      using assms(3) False by (meson holds_experts_def le_less_trans)
    ultimately show ?thesis using False by (simp add: holds_experts_def)
  qed
qed

text \<open>A Nemotron pattern that names no MoE layer is counted by the prefix rule: every layer.\<close>

lemma moe_layers_of_pattern_without_experts:
  assumes "Moe \<notin> set (c_layer_kind c)" "c_first_dense c = 0" "0 \<le> c_n_layers c" "c_n_layers c < 2 ^ 31"
  shows "moe_layers c = (nat (c_n_layers c), 0)"
  using moe_layers_dense_prefix [of c] assms by simp

end
