(* ===== verification/KvSize.thy ===== *)
theory KvSize
  imports KvCache Config Monitor
begin

text \<open>
  How large a KV cache is, twice: the buffers that \<open>KvCache::for_model\<close> allocates and the figures
  that the memory planner and the server reserve for them (\<open>bytes_per_token\<close>, \<open>fixed_bytes\<close>,
  \<open>bytes_for\<close>), all of \<open>colibri-engine/src/model.rs\<close>.

  The figures are \<open>usize\<close> words: every product wraps as in the release profile, except where the
  code saturates.  Whether the build has the \<open>cuda\<close> feature and the value of the environment variable
  \<open>COLI_DSV4_KV_BUDGET_MB\<close> are arguments.  The number of layers of the multi-token head and the
  dimensions come from the loaded model.

  The results: for every architecture without a ring the figures are exact up to the rows of the
  multi-token head, which are charged to nobody, and for the one architecture that has a ring,
  DeepSeek-V4, the ring is charged to nobody.
\<close>

section \<open>The recurrent state\<close>

record ssm_state =
  ssm_data :: "f32 list"
  ssm_n_heads :: nat
  ssm_head_dim :: nat
  ssm_d_state :: nat

record kv_state = kv_cache +
  mamba_conv :: "f32 list list"
  mamba_ssm :: "ssm_state list"
  mamba_d_conv :: nat
  mamba_conv_dim :: nat
  kda_conv :: "f32 list list"
  kda_state :: "f32 list list"

abbreviation as_usize :: "int \<Rightarrow> u64" where
  "as_usize \<equiv> of_int"

definition ssm_zeros :: "nat \<Rightarrow> nat \<Rightarrow> nat \<Rightarrow> ssm_state" where
  "ssm_zeros nh hdim ds = \<lparr>ssm_data = replicate (nh * hdim * ds) 0, ssm_n_heads = nh, ssm_head_dim = hdim, ssm_d_state = ds\<rparr>"

definition kv_state_new :: "nat \<Rightarrow> nat \<Rightarrow> nat \<Rightarrow> nat \<Rightarrow> kv_state" where
  "kv_state_new n_rows kvl qkr mt = kv_cache.extend (kv_new n_rows kvl qkr mt)
     \<lparr>mamba_conv = replicate n_rows [], mamba_ssm = map (\<lambda>_. ssm_zeros 0 0 0) [0..<n_rows], mamba_d_conv = 0,
      mamba_conv_dim = 0, kda_conv = replicate n_rows [], kda_state = replicate n_rows []\<rparr>"

definition enable_gqa :: "nat \<Rightarrow> kv_state \<Rightarrow> kv_state" where
  "enable_gqa d kv = (let rows = length (k_full kv) in
     kv\<lparr>kv_dim := d, k_full := lazy_zeros rows (max_t kv * d), v_full := lazy_zeros rows (max_t kv * d)\<rparr>)"

text \<open>Rows of the given kind are replaced, indexed by layer; rows past the end of \<open>layer_kind\<close> are not.\<close>

definition rows_of_kind :: "layer_kind \<Rightarrow> config \<Rightarrow> 'a \<Rightarrow> 'a list \<Rightarrow> 'a list" where
  "rows_of_kind k c fresh rows =
     map (\<lambda>li. if li < length (c_layer_kind c) \<and> c_layer_kind c ! li = k then fresh else rows ! li) [0..<length rows]"

definition conv_dim_of :: "config \<Rightarrow> u64" where
  "conv_dim_of c = as_usize (c_mamba_inter c) + 2 * as_usize (c_mamba_n_groups c) * as_usize (c_mamba_d_state c)"

definition enable_mamba2 :: "config \<Rightarrow> kv_state \<Rightarrow> kv_state" where
  "enable_mamba2 c kv =
     (let cd = conv_dim_of c; k = as_usize (c_mamba_d_conv c);
          fresh = ssm_zeros (unat (as_usize (c_mamba_n_heads c))) (unat (as_usize (c_mamba_head_dim c))) (unat (as_usize (c_mamba_d_state c)))
      in kv\<lparr>mamba_d_conv := unat k, mamba_conv_dim := unat cd,
            mamba_conv := rows_of_kind Mamba c (replicate (unat (k * cd)) 0) (mamba_conv kv),
            mamba_ssm := rows_of_kind Mamba c fresh (mamba_ssm kv)\<rparr>)"

definition kda_state_lens :: "config \<Rightarrow> u64 \<times> u64" where
  "kda_state_lens c = (let nh = as_usize (c_kda_n_heads c); hdim = as_usize (c_kda_head_dim c)
     in (as_usize (c_kda_d_conv c) * 3 * nh * hdim, nh * hdim * hdim))"

definition enable_kda :: "config \<Rightarrow> kv_state \<Rightarrow> kv_state" where
  "enable_kda c kv = (case kda_state_lens c of (conv, st) \<Rightarrow>
     kv\<lparr>kda_conv := rows_of_kind Kda c (replicate (unat conv) 0) (kda_conv kv),
        kda_state := rows_of_kind Kda c (replicate (unat st) 0) (kda_state kv)\<rparr>)"

definition kda_conv_take :: "kv_state \<Rightarrow> nat \<Rightarrow> nat \<Rightarrow> nat \<Rightarrow> f32 list" where
  "kda_conv_take kv layer ch k =
     (let need = 3 * (k - 1) * ch
      in if layer < length (kda_conv kv) \<and> need \<le> length (kda_conv kv ! layer) \<and> 0 < need
         then take need (kda_conv kv ! layer) else replicate need 0)"

definition kda_conv_store :: "nat \<Rightarrow> f32 list \<Rightarrow> kv_state \<Rightarrow> kv_state" where
  "kda_conv_store layer carries kv =
     (if layer < length (kda_conv kv)
      then kv\<lparr>kda_conv := (kda_conv kv)[layer := carries @ drop (length carries) (kda_conv kv ! layer)]\<rparr>
      else kv)"

section \<open>Allocation\<close>

definition allocates_gqa_kv :: "config \<Rightarrow> bool" where
  "allocates_gqa_kv c \<longleftrightarrow> is_gqa (c_arch c) \<or> c_arch c = NemotronH"

text \<open>\<open>head_rows\<close> is the number of blocks of the multi-token head, 0 without one.\<close>

definition for_model :: "config \<Rightarrow> nat \<Rightarrow> nat \<Rightarrow> kv_state" where
  "for_model c head_rows mt =
     (let n_layers = unat (as_usize (c_n_layers c));
          kv = kv_state_new (n_layers + head_rows) (unat (as_usize (c_kv_lora c))) (unat (as_usize (c_qk_rope c))) mt;
          kv = kv\<lparr>kv_start := map (\<lambda>r. if n_layers \<le> r then KV_UNSET else kv_start kv ! r) [0..<n_layers + head_rows]\<rparr>;
          kv = (if allocates_gqa_kv c then enable_gqa (unat (as_usize (c_n_kv_heads c) * as_usize (c_qk_head c))) kv else kv);
          kv = (if c_arch c = NemotronH then enable_mamba2 c kv else kv)
      in if c_arch c = KimiK3 then enable_kda c kv else kv)"

section \<open>The figures\<close>

definition count_kind :: "layer_kind \<Rightarrow> config \<Rightarrow> nat" where
  "count_kind k c = length (filter (\<lambda>x. x = k) (c_layer_kind c))"

definition kv_layers :: "config \<Rightarrow> u64" where
  "kv_layers c = (if c_layer_kind c = [] then as_usize (c_n_layers c) else of_nat (count_kind Attn c))"

definition mirrors_kv_on_device :: "config \<Rightarrow> bool" where
  "mirrors_kv_on_device c \<longleftrightarrow> \<not> allocates_gqa_kv c \<and> c_window c = 0"

definition raw_row_bytes :: "bool \<Rightarrow> config \<Rightarrow> u64" where
  "raw_row_bytes cuda c =
     (let lat = as_usize (c_kv_lora c);
          mla = (if mirrors_kv_on_device c then as_usize (c_qk_rope c) else 0);
          gqa_full = (if allocates_gqa_kv c then 2 * as_usize (c_n_kv_heads c) * as_usize (c_qk_head c) else 0);
          device_shadow = (if cuda \<and> mirrors_kv_on_device c then lat + mla else 0)
      in kv_layers c * (lat + mla + gqa_full + device_shadow) * 4)"

definition compressed_bytes_per_token :: "config \<Rightarrow> u64" where
  "compressed_bytes_per_token c =
     sum_list (map (\<lambda>r. let r = as_usize r;
                         main = as_usize (c_qk_head c) div r;
                         ix = (if r = 4 then as_usize (c_index_hd c) div r else 0)
                     in (main + ix) * 4)
       (filter (\<lambda>r. 0 < r) (take (max (length (c_layer_kind c)) (unat (as_usize (c_n_layers c)))) (c_compress_ratios c))))"

definition bytes_per_token :: "bool \<Rightarrow> config \<Rightarrow> u64" where
  "bytes_per_token cuda c = (if 0 < c_window c then 0 else raw_row_bytes cuda c) + compressed_bytes_per_token c"

definition ring_budget_bytes :: "str option \<Rightarrow> config \<Rightarrow> u64" where
  "ring_budget_bytes env c =
     (if c_window c \<le> 0 then 0
      else push_bit 20 (case Option.bind env (parse_uint (2 ^ 64) 10) of Some mb \<Rightarrow> of_nat mb | None \<Rightarrow> 1024))"

definition ring_rows :: "str option \<Rightarrow> bool \<Rightarrow> config \<Rightarrow> u64" where
  "ring_rows env cuda c =
     (if c_window c \<le> 0 then 0
      else let row = max (raw_row_bytes cuda c) 1
        in max (ring_budget_bytes env c div row) (as_usize (c_window c)) + as_usize (c_window c))"

definition raw_rows :: "str option \<Rightarrow> bool \<Rightarrow> config \<Rightarrow> u64 \<Rightarrow> u64 \<Rightarrow> u64" where
  "raw_rows env cuda c n_prompt n_new =
     (if 0 < c_window c then min (sat_add n_prompt n_new) (ring_rows env cuda c) else sat_add n_prompt n_new)"

definition fixed_bytes :: "str option \<Rightarrow> bool \<Rightarrow> config \<Rightarrow> u64" where
  "fixed_bytes env cuda c =
     (if c_layer_kind c = [] then 0
      else let n_mamba = of_nat (count_kind Mamba c);
               conv = as_usize (c_mamba_d_conv c) * conv_dim_of c;
               ssm = as_usize (c_mamba_n_heads c) * as_usize (c_mamba_head_dim c) * as_usize (c_mamba_d_state c);
               n_kda = of_nat (count_kind Kda c);
               (kconv, kstate) = kda_state_lens c;
               ring = sat_mul (ring_rows env cuda c) (raw_row_bytes cuda c)
        in (n_mamba * (conv + ssm) + n_kda * (kconv + kstate)) * 4 + ring)"

definition bytes_for_split :: "str option \<Rightarrow> bool \<Rightarrow> config \<Rightarrow> u64 \<Rightarrow> u64 \<Rightarrow> u64" where
  "bytes_for_split env cuda c n_prompt n_new =
     sat_add (sat_mul (bytes_per_token cuda c) (sat_add n_prompt n_new)) (fixed_bytes env cuda c)"

definition bytes_for :: "str option \<Rightarrow> bool \<Rightarrow> config \<Rightarrow> u64 \<Rightarrow> u64" where
  "bytes_for env cuda c n_tokens = bytes_for_split env cuda c n_tokens 0"

text \<open>The two delegates of the capacity planner in \<open>cache.rs\<close>.\<close>

definition kv_bytes_per_token :: "bool \<Rightarrow> config \<Rightarrow> u64" where
  "kv_bytes_per_token cuda c = bytes_per_token cuda c"

definition kv_fixed_bytes :: "str option \<Rightarrow> bool \<Rightarrow> config \<Rightarrow> u64" where
  "kv_fixed_bytes env cuda c = fixed_bytes env cuda c"

text \<open>The prefill policy of \<open>forward.rs\<close> that keeps the ring within the budget; \<open>override\<close> is \<open>COLI_DSV4_CHUNK\<close>.\<close>

definition dsv4_prefill_chunk :: "nat option \<Rightarrow> str option \<Rightarrow> bool \<Rightarrow> config \<Rightarrow> nat \<Rightarrow> nat" where
  "dsv4_prefill_chunk override env cuda c s =
     (case override of
        Some n \<Rightarrow> if n = 0 then 2 ^ 64 - 1 else max n 1
      | None \<Rightarrow>
          let row = max (raw_row_bytes cuda c) 1;
              budget_rows = max (unat (ring_budget_bytes env c div row)) (unat (as_usize (max (c_window c) 1)))
          in if s \<le> budget_rows then 2 ^ 64 - 1 else budget_rows)"

section \<open>Allocation and figures agree\<close>

text \<open>What the cache of a loaded model holds: the recurrent state, and the rows of one position in one layer.\<close>

definition recurrent_floats :: "kv_state \<Rightarrow> nat" where
  "recurrent_floats kv = sum_list (map length (mamba_conv kv)) + sum_list (map (\<lambda>st. length (ssm_data st)) (mamba_ssm kv))
     + sum_list (map length (kda_conv kv)) + sum_list (map length (kda_state kv))"

definition row_floats :: "bool \<Rightarrow> config \<Rightarrow> kv_state \<Rightarrow> nat" where
  "row_floats cuda c kv = (if allocates_gqa_kv c then kv_dim kv + kv_dim kv
     else (kv_lora kv + qk_rope kv) * (if cuda then 2 else 1))"

definition kv_holding :: "config \<Rightarrow> nat" where
  "kv_holding c = length (filter (\<lambda>li. c_layer_kind c = [] \<or> li < length (c_layer_kind c) \<and> c_layer_kind c ! li = Attn)
     [0..<unat (as_usize (c_n_layers c))])"

text \<open>
  The rows of the allocated cache that hold keys and values: those of the layers and those of the
  blocks of the multi-token head, given by their kinds (\<open>None\<close> for a block without one, which is a
  whole layer).  A layer holds all \<open>n\<close> positions, a block of the head the \<open>nh\<close> positions since drafting
  began; rows that are never written are not committed.
\<close>

definition head_keeps :: "layer_kind option \<Rightarrow> bool" where
  "head_keeps k \<longleftrightarrow> k = None \<or> k = Some Attn"

definition resident_row :: "bool \<Rightarrow> config \<Rightarrow> layer_kind option list \<Rightarrow> kv_state \<Rightarrow> nat \<Rightarrow> nat \<Rightarrow> nat \<Rightarrow> nat" where
  "resident_row cuda c heads kv n nh li =
     (let n_layers = unat (as_usize (c_n_layers c)) in
      if li < n_layers
      then (if c_layer_kind c = [] \<or> li < length (c_layer_kind c) \<and> c_layer_kind c ! li = Attn then n * row_floats cuda c kv else 0)
      else if head_keeps (heads ! (li - n_layers)) then nh * row_floats cuda c kv else 0)"

definition resident_floats :: "bool \<Rightarrow> config \<Rightarrow> layer_kind option list \<Rightarrow> kv_state \<Rightarrow> nat \<Rightarrow> nat \<Rightarrow> nat" where
  "resident_floats cuda c heads kv n nh =
     sum_list (map (resident_row cuda c heads kv n nh) [0..<length (kv_start kv)]) + recurrent_floats kv"

definition unringed :: "config \<Rightarrow> bool" where
  "unringed c \<longleftrightarrow> c_window c = 0 \<and> c_compress_ratios c = [] \<and> (allocates_gqa_kv c \<longrightarrow> c_kv_lora c = 0)"

lemma configs_unringed:
  "unringed (glm_config r)" "unringed (minimax_config r t a)" "unringed (maple_config r)" "unringed (kimi_config r t)"
  "unringed (nemotron_config r kinds mtp)"
  by (simp_all add: unringed_def glm_config_def minimax_config_def maple_config_def kimi_config_def nemotron_config_def
      blank_config_def allocates_gqa_kv_def is_gqa_def Let_def)

lemma configs_arch:
  "c_arch (glm_config r) = GlmMoeDsa" "c_arch (minimax_config r t a) = a" "c_arch (maple_config r) = Maple"
  "c_arch (kimi_config r t) = KimiK3" "c_arch (nemotron_config r kinds mtp) = NemotronH"
  by (simp_all add: glm_config_def minimax_config_def maple_config_def kimi_config_def nemotron_config_def Let_def)

lemma from_json_configs:
  "from_json_glm r = Inr c \<Longrightarrow> c = glm_config r"
  "from_json_minimax r t a = Inr c \<Longrightarrow> c = minimax_config r t a"
  "from_json_maple r = Inr c \<Longrightarrow> c = maple_config r"
  "from_json_kimi r t = Inr c \<Longrightarrow> c = kimi_config r t"
  "from_json_nemotron r = Inr c \<Longrightarrow> \<exists>kinds mtp. c = nemotron_config r kinds mtp"
  by (auto simp: from_json_glm_def from_json_minimax_def from_json_maple_def from_json_kimi_def from_json_nemotron_def
      Let_def and_then_Inr split: if_splits)

lemma from_json_arch:
  "from_json_glm r = Inr c \<Longrightarrow> c_arch c = GlmMoeDsa" "from_json_minimax r t a = Inr c \<Longrightarrow> c_arch c = a"
  "from_json_maple r = Inr c \<Longrightarrow> c_arch c = Maple" "from_json_kimi r t = Inr c \<Longrightarrow> c_arch c = KimiK3"
  "from_json_nemotron r = Inr c \<Longrightarrow> c_arch c = NemotronH"
  using from_json_configs configs_arch by metis+

lemma from_json_unringed:
  "from_json_glm r = Inr c \<Longrightarrow> unringed c" "from_json_minimax r t a = Inr c \<Longrightarrow> unringed c"
  "from_json_maple r = Inr c \<Longrightarrow> unringed c" "from_json_kimi r t = Inr c \<Longrightarrow> unringed c"
  "from_json_nemotron r = Inr c \<Longrightarrow> unringed c"
  using from_json_configs configs_unringed by metis+

lemma load_unringed:
  assumes "config_load text gtext = Inr c" "c_arch c \<noteq> DeepseekV4"
  shows "unringed c"
proof -
  from load_cases [OF assms(1)] obtain root cfg where j: "config_from_json root = Inr cfg" and c: "c = merge_generation gtext cfg" by metis
  have a: "c_arch cfg \<noteq> DeepseekV4" using assms(2) c by simp
  have "unringed cfg" using j a from_json_unringed
    by (auto simp: config_from_json_def Let_def from_json_deepseek_v4_def deepseek_config_def split: if_splits)
  then show ?thesis by (simp add: c merge_generation_def unringed_def allocates_gqa_kv_def split: option.splits)
qed

lemma count_kind_rows:
  assumes "length (c_layer_kind c) \<le> length rows" "list_all (\<lambda>r. f r = 0) rows"
  shows "sum_list (map f (rows_of_kind k c fresh rows)) = count_kind k c * f fresh"
proof -
  let ?n = "length rows" and ?m = "length (c_layer_kind c)" and ?P = "\<lambda>li. c_layer_kind c ! li = k"
  let ?g = "\<lambda>li. f (if li < ?m \<and> ?P li then fresh else rows ! li)"
  have z: "f (rows ! li) = 0" if "li < ?n" for li using assms(2) that by (simp add: list_all_length)
  have "sum_list (map f (rows_of_kind k c fresh rows)) = (\<Sum>li<?n. ?g li)"
    by (simp add: rows_of_kind_def comp_def interv_sum_list_conv_sum_set_nat atLeast0LessThan)
  also have "\<dots> = (\<Sum>li<?n. if li \<in> {li. li < ?m \<and> ?P li} then f fresh else 0)"
    using z by (intro sum.cong) auto
  also have "\<dots> = (\<Sum>li\<in>{..<?n} \<inter> {li. li < ?m \<and> ?P li}. f fresh)" by (rule sum.inter_restrict [symmetric]) simp
  also have "{..<?n} \<inter> {li. li < ?m \<and> ?P li} = {li. li < ?m \<and> ?P li}" using assms(1) by auto
  finally show ?thesis by (simp add: count_kind_def length_filter_conv_card)
qed

lemma length_filter_upt: "length (filter P [0..<n]) = card {i. i < n \<and> P i}"
proof -
  have "filter P [0..<n] = sorted_list_of_set {i. i < n \<and> P i}"
    by (rule sorted_distinct_set_unique) (auto simp: sorted_filter [of id, simplified])
  then show ?thesis by simp
qed

lemma count_kind_absent: "k \<notin> set (c_layer_kind c) \<Longrightarrow> count_kind k c = 0"
  by (auto simp: count_kind_def filter_empty_conv)

lemma kv_holding_layers:
  assumes "c_layer_kind c = [] \<or> length (c_layer_kind c) = unat (as_usize (c_n_layers c))"
  shows "kv_layers c = of_nat (kv_holding c)"
proof (cases "c_layer_kind c = []")
  case False
  then have len: "unat (as_usize (c_n_layers c)) = length (c_layer_kind c)" using assms by simp
  have "kv_holding c = count_kind Attn c" using False
    by (simp add: kv_holding_def len count_kind_def length_filter_conv_card length_filter_upt cong: conj_cong)
  then show ?thesis using False by (simp add: kv_layers_def)
qed (simp add: kv_layers_def kv_holding_def)

lemma as_usize_nonneg: "0 \<le> x \<Longrightarrow> x < 2 ^ 64 \<Longrightarrow> unat (as_usize x) = nat x"
  by (simp add: unsigned_of_int take_bit_int_eq_self)

lemma layers_of_loaded:
  assumes "config_ok c"
  shows "c_layer_kind c = [] \<or> length (c_layer_kind c) = unat (as_usize (c_n_layers c))"
proof -
  have "0 \<le> c_n_layers c \<and> c_n_layers c < 2 ^ 64" if "c_layer_kind c \<noteq> []"
    using assms that by (auto simp: config_ok_def common_ok_def)
  moreover have "c_layer_kind c = [] \<or> length (c_layer_kind c) = nat (c_n_layers c)"
    using assms by (auto simp: config_ok_def kimi_ok_def nemotron_ok_def)
  ultimately show ?thesis using as_usize_nonneg [of "c_n_layers c"] by (cases "c_layer_kind c = []") simp_all
qed

lemma new_fields [simp]:
  "mamba_conv (kv_state_new n l r mt) = replicate n []" "mamba_ssm (kv_state_new n l r mt) = map (\<lambda>_. ssm_zeros 0 0 0) [0..<n]"
  "kda_conv (kv_state_new n l r mt) = replicate n []" "kda_state (kv_state_new n l r mt) = replicate n []"
  "kv_lora (kv_state_new n l r mt) = l" "qk_rope (kv_state_new n l r mt) = r" "kv_dim (kv_state_new n l r mt) = 0"
  by (simp_all add: kv_state_new_def kv_new_def kv_cache.defs)

abbreviation model_rows :: "config \<Rightarrow> nat \<Rightarrow> nat" where
  "model_rows c hr \<equiv> unat (as_usize (c_n_layers c)) + hr"

abbreviation mamba_state :: "config \<Rightarrow> ssm_state" where
  "mamba_state c \<equiv> ssm_zeros (unat (as_usize (c_mamba_n_heads c))) (unat (as_usize (c_mamba_head_dim c))) (unat (as_usize (c_mamba_d_state c)))"

lemma for_model_fields:
  "mamba_conv (for_model c hr mt) = (if c_arch c = NemotronH
     then rows_of_kind Mamba c (replicate (unat (as_usize (c_mamba_d_conv c) * conv_dim_of c)) 0) (replicate (model_rows c hr) [])
     else replicate (model_rows c hr) [])"
  "mamba_ssm (for_model c hr mt) = (if c_arch c = NemotronH
     then rows_of_kind Mamba c (mamba_state c) (map (\<lambda>_. ssm_zeros 0 0 0) [0..<model_rows c hr])
     else map (\<lambda>_. ssm_zeros 0 0 0) [0..<model_rows c hr])"
  "kda_conv (for_model c hr mt) = (if c_arch c = KimiK3
     then rows_of_kind Kda c (replicate (unat (fst (kda_state_lens c))) 0) (replicate (model_rows c hr) [])
     else replicate (model_rows c hr) [])"
  "kda_state (for_model c hr mt) = (if c_arch c = KimiK3
     then rows_of_kind Kda c (replicate (unat (snd (kda_state_lens c))) 0) (replicate (model_rows c hr) [])
     else replicate (model_rows c hr) [])"
  "kv_lora (for_model c hr mt) = unat (as_usize (c_kv_lora c))" "qk_rope (for_model c hr mt) = unat (as_usize (c_qk_rope c))"
  "kv_dim (for_model c hr mt) = (if allocates_gqa_kv c then unat (as_usize (c_n_kv_heads c) * as_usize (c_qk_head c)) else 0)"
  by (simp_all add: for_model_def Let_def enable_gqa_def enable_mamba2_def enable_kda_def split: prod.split)

lemma for_model_start: "length (kv_start (for_model c hr mt)) = model_rows c hr"
  by (simp add: for_model_def Let_def enable_gqa_def enable_mamba2_def enable_kda_def split: prod.split)

lemma ssm_size [simp]: "length (ssm_data (ssm_zeros nh p ds)) = nh * p * ds"
  by (simp add: ssm_zeros_def)

lemma ssm_zeros_empty [simp]: "ssm_data (ssm_zeros 0 0 0) = []"
  by (simp add: ssm_zeros_def)

lemma sum_empty_rows [simp]:
  "sum_list (map length (replicate n [])) = 0"
  "sum_list (map (\<lambda>st. length (ssm_data st)) (map (\<lambda>_. ssm_zeros 0 0 0) xs)) = 0"
  by (simp_all add: sum_list_replicate comp_def)

lemma recurrent_of_model:
  assumes "config_ok c"
  shows "recurrent_floats (for_model c hr mt) =
    count_kind Mamba c * (unat (as_usize (c_mamba_d_conv c) * conv_dim_of c) + length (ssm_data (mamba_state c)))
    + count_kind Kda c * (unat (fst (kda_state_lens c)) + unat (snd (kda_state_lens c)))"
proof -
  let ?n = "model_rows c hr"
  have len: "length (c_layer_kind c) \<le> ?n"
  proof (cases "c_layer_kind c = []")
    case False
    then show ?thesis using layers_of_loaded [OF assms] by simp
  qed simp
  consider "c_arch c = NemotronH" "count_kind Kda c = 0" | "c_arch c = KimiK3" "count_kind Mamba c = 0"
    | "c_arch c \<noteq> NemotronH" "c_arch c \<noteq> KimiK3" "count_kind Mamba c = 0" "count_kind Kda c = 0"
  proof (cases "c_layer_kind c = []")
    case False
    then have "c_arch c = KimiK3 \<or> c_arch c = NemotronH" using assms by (simp add: config_ok_def)
    then show ?thesis
    proof
      assume a: "c_arch c = KimiK3"
      then have "Mamba \<notin> set (c_layer_kind c)" using assms by (auto simp: config_ok_def kimi_ok_def)
      then show ?thesis by (rule that(2) [OF a count_kind_absent])
    next
      assume a: "c_arch c = NemotronH"
      then have "Kda \<notin> set (c_layer_kind c)" using assms by (auto simp: config_ok_def nemotron_ok_def)
      then show ?thesis by (rule that(1) [OF a count_kind_absent])
    qed
  qed (use that in \<open>cases "c_arch c"; simp add: count_kind_def\<close>)
  moreover have "sum_list (map length (rows_of_kind k c (replicate m (0 :: f32)) (replicate ?n []))) = count_kind k c * m" for k m
    using count_kind_rows [of c "replicate ?n []" length k "replicate m (0 :: f32)"] len by (simp add: list_all_length)
  moreover have "sum_list (map (\<lambda>st. length (ssm_data st)) (rows_of_kind k c st0 (map (\<lambda>_. ssm_zeros 0 0 0) [0..<?n])))
      = count_kind k c * length (ssm_data st0)" for k st0
    using count_kind_rows [of c "map (\<lambda>_. ssm_zeros 0 0 0) [0..<?n]" "\<lambda>st. length (ssm_data st)" k st0] len
    by (simp add: list_all_length)
  ultimately show ?thesis
    by cases (simp_all only: recurrent_floats_def for_model_fields sum_empty_rows if_True if_False layer_kind.distinct arch.distinct
      simp_thms add_0 add_0_right mult_0 distrib_left)
qed

lemma fixed_bytes_exact:
  assumes "config_ok c" and "c_window c = 0"
  shows "fixed_bytes env cuda c = of_nat (4 * recurrent_floats (for_model c hr mt))"
proof -
  have "sat_mul (ring_rows env cuda c) (raw_row_bytes cuda c) = 0" using assms(2) by (simp add: ring_rows_def sat_mul_def)
  moreover have "count_kind k c = 0" if "c_layer_kind c = []" for k using that by (simp add: count_kind_def)
  ultimately show ?thesis unfolding recurrent_of_model [OF assms(1)]
    by (auto simp: fixed_bytes_def Let_def algebra_simps split: prod.split)
qed

lemma raw_row_exact:
  assumes "unringed c" and "kv_layers c = of_nat (kv_holding c)"
  shows "bytes_per_token cuda c = of_nat (4 * (kv_holding c * row_floats cuda c (for_model c hr mt)))"
proof -
  have "compressed_bytes_per_token c = 0" "c_window c = 0" using assms(1) by (simp_all add: compressed_bytes_per_token_def unringed_def)
  moreover have "raw_row_bytes cuda c = of_nat (4 * (kv_holding c * row_floats cuda c (for_model c hr mt)))"
    using assms by (auto simp: raw_row_bytes_def Let_def unringed_def mirrors_kv_on_device_def row_floats_def for_model_fields algebra_simps)
  ultimately show ?thesis by (simp add: bytes_per_token_def)
qed

lemma sat_add_0 [simp]: "sat_add x 0 = (x :: u64)"
proof -
  have "unat x \<le> 2 ^ 64 - 1" using unat_lt_pow [of x] by simp
  then show ?thesis by (simp add: word_unat_eq_iff unat_sat_add)
qed

lemma sat_linear:
  fixes a n b :: nat
  assumes "a * n + b < 2 ^ 64" and "n < 2 ^ 64"
  shows "unat (sat_add (sat_mul (of_nat a) (of_nat n)) (of_nat b :: u64)) = a * n + b"
proof (cases "n = 0")
  case True
  then show ?thesis using assms by (simp add: unat_sat_add unat_sat_mul unat_of_nat)
next
  case False
  then have "a \<le> a * n" by simp
  then have "a < 2 ^ 64" "b < 2 ^ 64" using assms(1) by linarith+
  then have "unat (of_nat a :: u64) = a" "unat (of_nat n :: u64) = n" "unat (of_nat b :: u64) = b"
    using assms(2) by (simp_all add: unat_of_nat)
  then show ?thesis using assms by (simp add: unat_sat_add unat_sat_mul)
qed

lemma sum_if_const: "sum_list (map (\<lambda>x. if P x then k else 0) xs) = length (filter P xs) * (k :: nat)"
  by (induction xs) auto

lemma resident_split:
  "resident_floats cuda c heads (for_model c (length heads) mt) n nh =
     kv_holding c * row_floats cuda c (for_model c (length heads) mt) * n
     + length (filter head_keeps heads) * row_floats cuda c (for_model c (length heads) mt) * nh
     + recurrent_floats (for_model c (length heads) mt)"
proof -
  let ?kv = "for_model c (length heads) mt" and ?l = "unat (as_usize (c_n_layers c))"
  let ?r = "resident_row cuda c heads ?kv n nh"
  have up: "[0..<length (kv_start ?kv)] = [0..<?l] @ map (\<lambda>j. ?l + j) [0..<length heads]"
  proof -
    have "length (kv_start ?kv) = ?l + length heads" by (simp add: for_model_start)
    moreover have "[0..<?l + length heads] = [0..<?l] @ [?l..<?l + length heads]" by (rule upt_add_eq_append) simp
    moreover have "map (\<lambda>j. ?l + j) [0..<length heads] = [?l..<?l + length heads]"
      using map_add_upt [of ?l "length heads"] by (simp only: add.commute)
    ultimately show ?thesis by (simp only:)
  qed
  have "map ?r [0..<?l] = map (\<lambda>li. if c_layer_kind c = [] \<or> li < length (c_layer_kind c) \<and> c_layer_kind c ! li = Attn
      then n * row_floats cuda c ?kv else 0) [0..<?l]" by (simp add: resident_row_def)
  then have 1: "sum_list (map ?r [0..<?l]) = kv_holding c * (n * row_floats cuda c ?kv)"
    by (simp only: sum_if_const kv_holding_def)
  have "map (\<lambda>j. ?r (?l + j)) [0..<length heads] = map (\<lambda>k. if head_keeps k then nh * row_floats cuda c ?kv else 0) (map ((!) heads) [0..<length heads])"
    by (simp add: resident_row_def comp_def)
  then have 2: "sum_list (map (\<lambda>j. ?r (?l + j)) [0..<length heads]) = length (filter head_keeps heads) * (nh * row_floats cuda c ?kv)"
    by (simp only: map_nth sum_if_const)
  show ?thesis using 1 2 by (simp add: resident_floats_def up comp_def mult.commute mult.left_commute)
qed

lemma reservation_exact:
  fixes heads :: "layer_kind option list"
  assumes "config_load text gtext = Inr c" and "c_arch c \<noteq> DeepseekV4" and "n_prompt + n_new < 2 ^ 64"
    and "4 * resident_floats cuda c heads (for_model c (length heads) mt) (n_prompt + n_new) 0 < 2 ^ 64"
  shows "unat (bytes_for_split env cuda c (of_nat n_prompt) (of_nat n_new))
    = 4 * resident_floats cuda c heads (for_model c (length heads) mt) (n_prompt + n_new) 0"
proof -
  let ?kv = "for_model c (length heads) mt" and ?n = "n_prompt + n_new"
  have ok: "config_ok c" and un: "unringed c" using assms(1,2) by (rule load_sound, rule load_unringed)
  have n: "sat_add (of_nat n_prompt) (of_nat n_new :: u64) = of_nat ?n"
    using assms(3) by (simp add: sat_add_def unat_of_nat)
  have r: "4 * resident_floats cuda c heads ?kv ?n 0 = 4 * (kv_holding c * row_floats cuda c ?kv) * ?n + 4 * recurrent_floats ?kv"
    by (simp add: resident_split algebra_simps)
  have "bytes_for_split env cuda c (of_nat n_prompt) (of_nat n_new)
      = sat_add (sat_mul (of_nat (4 * (kv_holding c * row_floats cuda c ?kv))) (of_nat ?n)) (of_nat (4 * recurrent_floats ?kv))"
    unfolding bytes_for_split_def n raw_row_exact [OF un kv_holding_layers [OF layers_of_loaded [OF ok]], where hr = "length heads" and mt = mt]
    using fixed_bytes_exact [OF ok, of env cuda "length heads" mt] un by (simp only: unringed_def)
  then show ?thesis using sat_linear [OF assms(4) [unfolded r] assms(3)] r by simp
qed



section \<open>The ring of DeepSeek-V4\<close>

lemma v4_loaded:
  assumes "config_load text gtext = Inr c" and "c_arch c = DeepseekV4"
  shows "c_layer_kind c = []" and "c_window c < 2 ^ 31"
proof -
  from load_cases [OF assms(1)] obtain root cfg where j: "config_from_json root = Inr cfg" and c: "c = merge_generation gtext cfg" by metis
  have a: "c_arch cfg = DeepseekV4" using assms(2) c by simp
  have "from_json_deepseek_v4 root = Inr cfg"
    using j a by (simp add: config_from_json_def Let_def split: if_splits) (auto dest!: from_json_arch)
  then have "cfg = deepseek_config root" by (simp add: from_json_deepseek_v4_def)
  then have "c_layer_kind c = []" "c_window c = gi_in root ''sliding_window''"
    by (simp_all add: c merge_generation_def deepseek_config_def blank_config_def Let_def split: option.splits)
  then show "c_layer_kind c = []" "c_window c < 2 ^ 31" using wrap32_range(2) by (simp_all add: gi_in_def)
qed

text \<open>
  C7: The ring of DeepSeek-V4 is charged to nobody.  The per-token figure of a ringed configuration
  leaves its rows to the per-sequence figure, which is 0 for every configuration without a list of
  layer kinds, and a loaded V4 configuration never has one: what a request reserves is its compressed
  rows only, while the cache keeps at least twice the window of raw rows.
\<close>

theorem v4_ring_uncharged:
  assumes "config_load text gtext = Inr c" and "c_arch c = DeepseekV4" and "0 < c_window c"
  shows "fixed_bytes env cuda c = 0 \<and> bytes_for env cuda c n = sat_mul (compressed_bytes_per_token c) n \<and>
    2 * c_window c \<le> uint (ring_rows None cuda c)"
proof -
  have f: "fixed_bytes env cuda c = 0" using v4_loaded [OF assms(1,2)] by (simp add: fixed_bytes_def)
  have b: "bytes_for env cuda c n = sat_mul (compressed_bytes_per_token c) n"
    using assms(3) by (simp add: bytes_for_def bytes_for_split_def f bytes_per_token_def)
  let ?w = "as_usize (c_window c)"
  have w: "unat ?w = nat (c_window c)" "nat (c_window c) < 2 ^ 31" using assms(3) v4_loaded(2) [OF assms(1,2)]
    by (simp_all add: as_usize_nonneg)
  define q where "q = ring_budget_bytes None c div max (raw_row_bytes cuda c) 1"
  have "unat (ring_budget_bytes None c) = 2 ^ 30" using assms(3) by (simp add: ring_budget_bytes_def)
  then have q: "unat q \<le> 2 ^ 30" by (simp add: q_def unat_div)
  have m: "unat (max q ?w) = max (unat q) (unat ?w)" by (simp add: max_def word_le_nat_alt)
  then have "unat (max q ?w + ?w) = max (unat q) (unat ?w) + unat ?w"
    using q w by (subst unat_add_no_wrap) simp_all
  moreover have "ring_rows None cuda c = max q ?w + ?w" using assms(3) by (simp add: ring_rows_def q_def Let_def)
  ultimately have "2 * unat ?w \<le> unat (ring_rows None cuda c)" by simp
  then have "2 * c_window c \<le> uint (ring_rows None cuda c)" unfolding w(1) uint_nat [of "ring_rows None cuda c"]
    using assms(3) by linarith
  then show ?thesis using f b by blast
qed

text \<open>The geometry of the released model: 43 layers, rows of 512 floats, a window of 128.\<close>

definition v4_geometry :: jtree where
  "v4_geometry = TObj [(lit ''model_type'', TStr (lit ''deepseek_v4'')), (lit ''num_hidden_layers'', TInt 43),
     (lit ''head_dim'', TInt 512), (lit ''sliding_window'', TInt 128)]"

lemma v4_geometry_loads: "config_load (Some (show_json v4_geometry)) None = Inr (deepseek_config (json_of v4_geometry))"
proof -
  let ?r = "json_of v4_geometry"
  have "jtree_ok v4_geometry" by (simp add: v4_geometry_def utf8_ascii_lit)
  then have parse: "json_parse (show_json v4_geometry) = Some ?r" by (rule json_parse_show)
  have "config_from_json ?r = Inr (deepseek_config ?r)"
    by (simp add: config_from_json_def v4_geometry_def json_get_tree arch_is_def as_str_def from_json_deepseek_v4_def del: json_of.simps(6))
  then show ?thesis by (simp add: config_load_def parse merge_generation_def)
qed

lemma v4_fields:
  fixes c defines "c \<equiv> deepseek_config (json_of v4_geometry)"
  shows "c_arch c = DeepseekV4" "c_window c = 128" "c_kv_lora c = 512" "c_n_layers c = 43" "c_layer_kind c = []"
proof -
  have "gi_in (json_of v4_geometry) ''sliding_window'' = 128" "gi_in (json_of v4_geometry) ''head_dim'' = 512"
    "gi_in (json_of v4_geometry) ''num_hidden_layers'' = 43"
    by (simp_all add: v4_geometry_def gi_tree del: json_of.simps)
  then show "c_arch c = DeepseekV4" "c_window c = 128" "c_kv_lora c = 512" "c_n_layers c = 43" "c_layer_kind c = []"
    by (simp_all add: c_def deepseek_config_def blank_config_def Let_def)
qed

theorem v4_ring_uncharged_witness:
  "\<exists>c. config_load (Some (show_json v4_geometry)) None = Inr c \<and> fixed_bytes None False c = 0 \<and>
    256 \<le> uint (ring_rows None False c) \<and> unat (ring_rows None False c * raw_row_bytes False c) = 1084948480"
proof -
  let ?c = "deepseek_config (json_of v4_geometry)"
  note l = v4_geometry_loads and f = v4_fields
  have "fixed_bytes None False ?c = 0 \<and> 2 * c_window ?c \<le> uint (ring_rows None False ?c)"
    using v4_ring_uncharged [OF l f(1), of None False] f(2) by simp
  moreover have row: "raw_row_bytes False ?c = 88064"
    using f by (simp add: raw_row_bytes_def mirrors_kv_on_device_def allocates_gqa_kv_def is_gqa_def kv_layers_def)
  have q: "(1073741824 :: u64) div 88064 = 12192" "max (88064 :: u64) 1 = 88064" "max (12192 :: u64) 128 = 12192" by code_simp+
  have "unat (ring_rows None False ?c * raw_row_bytes False ?c) = 1084948480"
    using f(2) by (simp add: ring_rows_def ring_budget_bytes_def row Let_def q)
  ultimately show ?thesis using l f(2) by auto
qed

text \<open>The prefill policy keeps one call inside the ring that the figures assume: the window and one chunk of rows.\<close>

lemma chunk_fits_ring:
  assumes "0 < c_window c" "c_window c < 2 ^ 31" and "dsv4_prefill_chunk None None cuda c s < 2 ^ 64 - 1"
  shows "dsv4_prefill_chunk None None cuda c s + nat (c_window c) \<le> unat (ring_rows None cuda c)"
proof -
  let ?w = "as_usize (c_window c)"
  have w: "unat ?w = nat (c_window c)" "nat (c_window c) < 2 ^ 31" "max (c_window c) 1 = c_window c"
    using assms(1,2) by (simp_all add: as_usize_nonneg)
  define q where "q = ring_budget_bytes None c div max (raw_row_bytes cuda c) 1"
  have "unat (ring_budget_bytes None c) = 2 ^ 30" using assms(1) by (simp add: ring_budget_bytes_def)
  then have q: "unat q \<le> 2 ^ 30" by (simp add: q_def unat_div)
  have m: "unat (max q ?w) = max (unat q) (unat ?w)" by (simp add: max_def word_le_nat_alt)
  then have "unat (ring_rows None cuda c) = max (unat q) (unat ?w) + unat ?w"
    using assms(1) q w by (simp add: ring_rows_def q_def [symmetric] Let_def unat_add_no_wrap)
  moreover have "dsv4_prefill_chunk None None cuda c s = max (unat q) (unat ?w)"
    using assms(3) w(3) by (auto simp: dsv4_prefill_chunk_def Let_def q_def split: if_splits)
  ultimately show ?thesis using w(1) by simp
qed

end
