(* ===== verification/Serve.thy ===== *)
theory Serve
  imports Http Tokenizer Generate KvSize
begin

text \<open>
  The inference server (\<open>coli/src/serve.rs\<close>): routing, the validation of a completion request, the
  chat templates, the admission of a request against physical memory and the RAM ledger, generation,
  and the two forms of the answer.

  The static parts of a server are a record, the expert cache with the RAM ledger inside is the state.
  What one request needs from outside is an argument: the readings of the available memory, what the
  other threads do to the ledger while the request waits, what the generation does to the expert
  cache, the engine for a given cache size, and which writes to the client succeed.  \<open>None\<close> is a panic.

  Timing, profiling and the messages on standard error are left out.
\<close>

section \<open>The served context\<close>

definition DEFAULT_MAX_TOKENS :: nat where "DEFAULT_MAX_TOKENS = 128"
definition CTX_RAM_RESERVE :: u64 where "CTX_RAM_RESERVE = push_bit 30 18"

text \<open>\<open>requested\<close> is \<open>COLI_CTX\<close> or the default; \<open>phys\<close> is the physical memory, if it can be read.\<close>

definition model_max :: "config \<Rightarrow> bool \<Rightarrow> u64" where
  "model_max c allow_long = (if \<not> allow_long \<and> 0 < c_max_ctx c then as_usize (c_max_ctx c) else - 1)"

definition ram_ctx :: "str option \<Rightarrow> bool \<Rightarrow> config \<Rightarrow> u64 option \<Rightarrow> u64" where
  "ram_ctx env cuda c phys =
     (let kv_pt = max (bytes_per_token cuda c) 1; kv_fixed = fixed_bytes env cuda c
      in max (case phys of Some t \<Rightarrow> sat_sub (sat_sub t CTX_RAM_RESERVE) kv_fixed div kv_pt | None \<Rightarrow> - 1) 1)"

definition served_ctx :: "str option \<Rightarrow> bool \<Rightarrow> config \<Rightarrow> bool \<Rightarrow> u64 option \<Rightarrow> u64 \<Rightarrow> u64" where
  "served_ctx env cuda c allow_long phys requested =
     min (min (max requested 1) (model_max c allow_long)) (ram_ctx env cuda c phys)"

section \<open>Chat templates\<close>

definition text_or :: "string \<Rightarrow> json json_obj \<Rightarrow> string \<Rightarrow> byte_string" where
  "text_or d ob key = (case Option.bind (obj_get ob (lit key)) as_str of Some s \<Rightarrow> s | None \<Rightarrow> lit d)"

text \<open>One turn per message that is an object, from its role and content.\<close>

definition turns :: "(byte_string \<Rightarrow> byte_string \<Rightarrow> byte_string) \<Rightarrow> json list \<Rightarrow> byte_string" where
  "turns f messages = concat (map (\<lambda>m. case as_object m of
     None \<Rightarrow> [] | Some ob \<Rightarrow> f (text_or ''user'' ob ''role'') (text_or '''' ob ''content'')) messages)"

definition im_turn :: "byte_string \<Rightarrow> byte_string \<Rightarrow> byte_string" where
  "im_turn role content = lit ''<|im_start|>'' @ role @ [0x0A] @ content @ lit ''<|im_end|>'' @ [0x0A]"

definition nemotron_chat_string :: "json list \<Rightarrow> byte_string" where
  "nemotron_chat_string messages =
     turns im_turn messages @ lit ''<|im_start|>assistant'' @ [0x0A] @ lit ''<think></think>''"

definition glm_chat_string :: "json list \<Rightarrow> byte_string" where
  "glm_chat_string messages = lit ''[gMASK]<sop>'' @
     turns (\<lambda>role content. lit ''<|'' @ role @ lit ''|>'' @ content) messages @ lit ''<|assistant|><think></think>''"

definition role_tag :: "byte_string \<Rightarrow> byte_string" where
  "role_tag r = (if r = lit ''system'' then lit ''system'' else if r = lit ''assistant'' then lit ''ai'' else lit ''user'')"

definition first_is_system :: "json list \<Rightarrow> bool" where
  "first_is_system messages = (case messages of [] \<Rightarrow> False
   | m # _ \<Rightarrow> Option.bind (Option.bind (as_object m) (\<lambda>ob. obj_get ob (lit ''role''))) as_str = Some (lit ''system''))"

definition minimax_chat_string :: "json list \<Rightarrow> byte_string" where
  "minimax_chat_string messages = lit '']~!b['' @
     (if first_is_system messages then [] else
        lit '']~b]system'' @ [0x0A] @ lit ''You are a helpful assistant. Your name is MiniMax-M2.7 and is built by MiniMax.[e~['' @ [0x0A]) @
     turns (\<lambda>role content. lit '']~b]'' @ role_tag role @ [0x0A] @ content @ lit ''[e~['' @ [0x0A]) messages @
     lit '']~b]ai'' @ [0x0A]"

definition maple_chat_string :: "json list \<Rightarrow> byte_string" where
  "maple_chat_string messages =
     turns (\<lambda>role content. if role \<in> {lit ''system'', lit ''user'', lit ''assistant''} then im_turn role content else []) messages @
     lit ''<|im_start|>assistant'' @ [0x0A] @ lit ''<think>'' @ [0x0A]"

definition chat_string :: "arch \<Rightarrow> json list \<Rightarrow> byte_string" where
  "chat_string a messages = (case a of
     MinimaxM2 \<Rightarrow> minimax_chat_string messages | NemotronH \<Rightarrow> nemotron_chat_string messages
   | Maple \<Rightarrow> maple_chat_string messages | _ \<Rightarrow> glm_chat_string messages)"

definition build_chat_prompt :: "tokenizer \<Rightarrow> json list \<Rightarrow> arch \<Rightarrow> int list" where
  "build_chat_prompt t messages a = encode t (chat_string a messages)"

section \<open>What a request asks for\<close>

record server =
  sv_cfg :: config
  sv_tok :: tokenizer
  sv_model_id :: byte_string
  sv_ctx_len :: nat
  sv_cuda :: bool
  sv_ring_env :: "str option"

abbreviation dq :: byte_string where
  "dq \<equiv> [0x22]"

text \<open>\<open>key: value\<close> members of a hand-written JSON object.\<close>

definition obj_text :: "(string \<times> byte_string) list \<Rightarrow> byte_string" where
  "obj_text kvs = 0x7B # commas (map (\<lambda>(k, v). dq @ lit k @ dq @ 0x3A # v) kvs) @ [0x7D]"

definition error_text :: "(string \<times> byte_string) list \<Rightarrow> byte_string" where
  "error_text kvs = obj_text [(''error'', obj_text kvs)]"

definition bad_request :: "string \<Rightarrow> byte_string" where
  "bad_request msg = error_text [(''message'', dq @ lit msg @ dq), (''type'', dq @ lit ''invalid_request_error'' @ dq)]"

definition context_exceeded :: "nat \<Rightarrow> nat \<Rightarrow> byte_string" where
  "context_exceeded ctx_len n = error_text
     [(''message'', jstr (lit ''This model's maximum context length is '' @ show_digits ctx_len @
         lit '' tokens, but the prompt is '' @ show_digits n @ lit '' tokens. Shorten the prompt or raise COLI_CTX.'')),
      (''type'', dq @ lit ''invalid_request_error'' @ dq), (''code'', dq @ lit ''context_length_exceeded'' @ dq)]"

datatype plan =
    Refuse nat byte_string
  | Run "int list" nat bool

definition requested_max :: "json json_obj \<Rightarrow> nat" where
  "requested_max ob = (case Option.bind (obj_get ob (lit ''max_tokens'')) as_i64 of
     Some n \<Rightarrow> nat (max n 1) | None \<Rightarrow> DEFAULT_MAX_TOKENS)"

definition stream_mode :: "json json_obj \<Rightarrow> bool" where
  "stream_mode ob = (case Option.bind (obj_get ob (lit ''stream'')) as_bool of Some b \<Rightarrow> b | None \<Rightarrow> False)"

definition prompt_ids :: "server \<Rightarrow> bool \<Rightarrow> json json_obj \<Rightarrow> string + int list" where
  "prompt_ids sv chat ob =
     (if chat then
        (case Option.bind (obj_get ob (lit ''messages'')) as_array of
           Some ms \<Rightarrow> Inr (build_chat_prompt (sv_tok sv) ms (c_arch (sv_cfg sv)))
         | None \<Rightarrow> Inl (''missing '' @ [CHR 0x27] @ ''messages'' @ [CHR 0x27]))
      else
        (case Option.bind (obj_get ob (lit ''prompt'')) as_str of
           Some p \<Rightarrow> Inr (encode (sv_tok sv) p)
         | None \<Rightarrow> Inl (''missing '' @ [CHR 0x27] @ ''prompt'' @ [CHR 0x27] @ '' (string)'')))"

definition plan_request :: "server \<Rightarrow> byte_string \<Rightarrow> bool \<Rightarrow> plan" where
  "plan_request sv body chat = (case json_parse body of
     None \<Rightarrow> Refuse 400 (bad_request ''invalid JSON body'')
   | Some req \<Rightarrow> (case as_object req of
       None \<Rightarrow> Refuse 400 (bad_request ''body must be a JSON object'')
     | Some ob \<Rightarrow> (case prompt_ids sv chat ob of
         Inl msg \<Rightarrow> Refuse 400 (bad_request msg)
       | Inr ids \<Rightarrow>
           if ids = [] then Refuse 400 (bad_request ''empty prompt'')
           else if sv_ctx_len sv \<le> length ids then Refuse 400 (context_exceeded (sv_ctx_len sv) (length ids))
           else Run ids (min (requested_max ob) (sv_ctx_len sv - length ids)) (stream_mode ob))))"

text \<open>An accepted request asks for at least one token and fits the served window.\<close>

lemma plan_bounds:
  assumes "plan_request sv body chat = Run ids m stream"
  shows "ids \<noteq> []" "1 \<le> m" "length ids + m \<le> sv_ctx_len sv"
  using assms by (auto simp: plan_request_def requested_max_def DEFAULT_MAX_TOKENS_def split: option.splits sum.splits if_splits)

section \<open>Admission\<close>

text \<open>\<open>{:.1}\<close> of a byte count in GiB: the nearest double, divided exactly, then one decimal, ties to even.\<close>

definition half_even :: "nat \<Rightarrow> nat \<Rightarrow> nat" where
  "half_even a b = (let u = a div b; r = 2 * (a mod b) in if b < r \<or> r = b \<and> odd u then u + 1 else u)"

fun bits_of :: "nat \<Rightarrow> nat" where
  "bits_of n = (if n = 0 then 0 else Suc (bits_of (n div 2)))"

declare bits_of.simps [simp del]

definition round53 :: "nat \<Rightarrow> nat" where
  "round53 n = (let k = bits_of n - 53 in half_even n (2 ^ k) * 2 ^ k)"

definition gib1 :: "u64 \<Rightarrow> byte_string" where
  "gib1 b = (let t = half_even (10 * round53 (unat b)) (2 ^ 30) in show_digits (t div 10) @ [0x2E] @ show_digits (t mod 10))"

definition memory_refusal :: "byte_string \<Rightarrow> string \<Rightarrow> string \<Rightarrow> byte_string" where
  "memory_refusal msg ty code = error_text [(''message'', jstr msg), (''type'', dq @ lit ty @ dq), (''code'', dq @ lit code @ dq)]"

definition physical_refusal :: "nat \<Rightarrow> u64 \<Rightarrow> byte_string" where
  "physical_refusal n kv = memory_refusal
     (lit ''Prompt too large for this node: '' @ show_digits n @ lit '' tokens need ~'' @ gib1 kv @
      lit '' GiB of KV cache, which does not fit even after evicting the expert cache. Use a shorter prompt.'')
     ''insufficient_memory'' ''kv_cache_too_large''"

definition ledger_refusal :: "nat \<Rightarrow> u64 \<Rightarrow> u64 \<Rightarrow> byte_string" where
  "ledger_refusal n kv rigid = memory_refusal
     (lit ''Prompt too large for this node: '' @ show_digits n @ lit '' tokens need ~'' @ gib1 kv @
      lit '' GiB of KV cache, but only ~'' @ gib1 rigid @
      lit '' GiB is available for requests after the model's own memory. Use a shorter prompt.'')
     ''insufficient_memory'' ''kv_cache_too_large''"

definition busy_refusal :: "u64 \<Rightarrow> byte_string" where
  "busy_refusal kv = memory_refusal
     (lit ''Server busy: this prompt needs ~'' @ gib1 kv @
      lit '' GiB of KV cache and other requests did not free it within 30s. Retry shortly.'')
     ''server_busy'' ''kv_cache_contended''"

definition rigid_budget :: "ram_cell \<Rightarrow> u64" where
  "rigid_budget cell = (case cell of
     Some m \<Rightarrow> sat_sub (sat_sub (sat_sub (sat_sub (ceiling m) (committed_in m Dense)) (committed_in m Experts))
                 (committed_in m Scratch)) (committed_in m ReadBuf)
   | None \<Rightarrow> - 1)"

definition drop_commitment :: "commitment \<Rightarrow> ram_cell \<Rightarrow> ram_cell" where
  "drop_commitment cm cell = map_option (ram_drop cm) cell"

text \<open>
  \<open>reserve_ram\<close> against physical memory, then the ledger.  A refusal by the ledger gives the
  reservation back at once (\<open>KvRoom\<close> is dropped); an admitted request keeps it with its commitment.
\<close>

definition admit :: "nat \<Rightarrow> u64 \<Rightarrow> (nat \<Rightarrow> u64 option) \<Rightarrow> (ram_cell \<Rightarrow> ram_cell) list \<Rightarrow> 'x cache \<Rightarrow>
    ((nat \<times> byte_string) + commitment) \<times> 'x cache" where
  "admit n kv avail sleeps c =
     (case reserve_ram kv avail c of
        (False, c) \<Rightarrow> (Inl (507, physical_refusal n kv), c)
      | (True, c) \<Rightarrow>
          let rigid = rigid_budget (ram_cell c)
          in case commit_or_wait Kv kv rigid sleeps (ram_cell c) of
               ((Adm_too_large, _), cell) \<Rightarrow> (Inl (507, ledger_refusal n kv rigid), release_ram kv (c\<lparr>ram_cell := cell\<rparr>))
             | ((Adm_busy, _), cell) \<Rightarrow> (Inl (503, busy_refusal kv), release_ram kv (c\<lparr>ram_cell := cell\<rparr>))
             | ((Adm_ok, cm), cell) \<Rightarrow> (Inr (the cm), c\<lparr>ram_cell := cell\<rparr>))"

section \<open>The two answers\<close>

text \<open>The usage, the first choice and the envelope of the JSON object.\<close>

definition choice_text :: "bool \<Rightarrow> byte_string \<Rightarrow> string \<Rightarrow> byte_string" where
  "choice_text chat answer finish =
     (if chat then obj_text [(''index'', show_digits 0),
        (''message'', obj_text [(''role'', dq @ lit ''assistant'' @ dq), (''content'', jstr answer)]),
        (''finish_reason'', jstr (lit finish))]
      else obj_text [(''index'', show_digits 0), (''text'', jstr answer), (''finish_reason'', jstr (lit finish))])"

definition usage_text :: "nat \<Rightarrow> nat \<Rightarrow> byte_string" where
  "usage_text n_prompt n_answer = obj_text [(''prompt_tokens'', show_digits n_prompt),
     (''completion_tokens'', show_digits n_answer), (''total_tokens'', show_digits (n_prompt + n_answer))]"

definition completion_id :: "nat \<Rightarrow> nat \<Rightarrow> byte_string" where
  "completion_id n max_tokens = lit ''cmpl-'' @ show_digits (unat ((of_nat n * 2654435761) XOR of_nat max_tokens :: u64))"

definition envelope :: "byte_string \<Rightarrow> string \<Rightarrow> byte_string \<Rightarrow> byte_string \<Rightarrow> (string \<times> byte_string) list" where
  "envelope cid ob model choice =
     [(''id'', jstr cid), (''object'', jstr (lit ob)), (''model'', jstr model), (''choices'', 0x5B # choice @ [0x5D])]"

definition object_name :: "bool \<Rightarrow> string" where
  "object_name chat = (if chat then ''chat.completion'' else ''text_completion'')"

text \<open>\<open>err\<close> is the text of an engine error.\<close>

definition block_completion :: "server \<Rightarrow> ('g gen_error \<Rightarrow> byte_string) \<Rightarrow> ('kv, 'h, 'm, 'g) engine \<Rightarrow> bool \<Rightarrow> nat \<Rightarrow> 'kv \<Rightarrow>
    int list \<Rightarrow> nat \<Rightarrow> byte_string \<Rightarrow> bool \<Rightarrow> byte_string" where
  "block_completion sv err E rollback drafts kv prompt max_tokens cid chat =
     (case generate_greedy E rollback drafts kv prompt max_tokens of
        Inl e \<Rightarrow> send_json 500 (error_text [(''message'', jstr (err e)), (''type'', dq @ lit ''internal_error'' @ dq)])
      | Inr sq \<Rightarrow>
          let full = drop (length prompt) sq;
              hit_stop = full \<noteq> [] \<and> last full \<in> set (c_stop_ids (sv_cfg sv));
              cont = (if hit_stop then butlast full else full);
              answer = decode (sv_tok sv) cont;
              finish = (if hit_stop then ''stop'' else ''length'')
          in send_json 200 (obj_text (envelope cid (object_name chat) (sv_model_id sv) (choice_text chat answer finish) @
               [(''usage'', usage_text (length prompt) (length cont))])))"

text \<open>A byte index that is no boundary of characters; slicing there panics.\<close>

definition char_boundary :: "byte_string \<Rightarrow> nat \<Rightarrow> bool" where
  "char_boundary s i \<longleftrightarrow> i = 0 \<or> i = length s \<or> i < length s \<and> \<not> is_cont (s ! i)"

text \<open>The client side of a stream: \<open>writes\<close> counts the events attempted, \<open>events\<close> are the delivered ones.\<close>

record sse =
  ss_ids :: "int list"
  ss_sent :: byte_string
  ss_finish :: string
  ss_events :: byte_string
  ss_deltas :: "byte_string list"
  ss_writes :: nat
  ss_panicked :: bool

definition sse_start :: sse where
  "sse_start = \<lparr>ss_ids = [], ss_sent = [], ss_finish = ''length'', ss_events = [], ss_deltas = [], ss_writes = 0, ss_panicked = False\<rparr>"

definition chunk_object :: "bool \<Rightarrow> string" where
  "chunk_object chat = (if chat then ''chat.completion.chunk'' else ''text_completion'')"

definition delta_text :: "server \<Rightarrow> byte_string \<Rightarrow> bool \<Rightarrow> byte_string \<Rightarrow> byte_string" where
  "delta_text sv cid chat delta = obj_text (envelope cid (chunk_object chat) (sv_model_id sv)
     (obj_text [(''index'', show_digits 0),
        (if chat then (''delta'', obj_text [(''role'', dq @ lit ''assistant'' @ dq), (''content'', jstr delta)])
         else (''text'', jstr delta)),
        (''finish_reason'', lit ''null'')]))"

definition stream_token :: "server \<Rightarrow> byte_string \<Rightarrow> bool \<Rightarrow> (nat \<Rightarrow> bool) \<Rightarrow> sse \<Rightarrow> int \<Rightarrow> bool \<times> sse" where
  "stream_token sv cid chat wok st t =
     (if t \<in> set (c_stop_ids (sv_cfg sv)) then (True, st\<lparr>ss_finish := ''stop''\<rparr>)
      else let st = st\<lparr>ss_ids := ss_ids st @ [t]\<rparr>;
               full = decode (sv_tok sv) (ss_ids st); sent = length (ss_sent st)
        in if length full \<le> sent then (True, st)
           else if \<not> char_boundary full sent then (False, st\<lparr>ss_panicked := True\<rparr>)
           else let delta = drop sent full; ok = wok (ss_writes st); st = st\<lparr>ss_writes := ss_writes st + 1\<rparr>
             in (ok, if ok then st\<lparr>ss_sent := full, ss_deltas := ss_deltas st @ [delta],
                               ss_events := ss_events st @ sse_event (delta_text sv cid chat delta)\<rparr> else st))"

definition sse_headers :: byte_string where
  "sse_headers = lit ''HTTP/1.1 200 OK'' @ crlf @ lit ''Content-Type: text/event-stream'' @ crlf @
     lit ''Cache-Control: no-cache'' @ crlf @ lit ''Connection: close'' @ crlf @
     lit ''Access-Control-Allow-Origin: *'' @ crlf @ crlf"

definition last_chunk :: "server \<Rightarrow> byte_string \<Rightarrow> bool \<Rightarrow> string \<Rightarrow> byte_string" where
  "last_chunk sv cid chat finish = obj_text (envelope cid (chunk_object chat) (sv_model_id sv)
     (obj_text [(''index'', show_digits 0), (if chat then (''delta'', obj_text []) else (''text'', dq @ dq)),
        (''finish_reason'', jstr (lit finish))]))"

text \<open>Generation errors end the stream like a full answer; \<open>None\<close> is the panic of the token callback.\<close>

definition stream_completion :: "server \<Rightarrow> ('kv, 'h, 'm, 'g) engine \<Rightarrow> bool \<Rightarrow> nat \<Rightarrow> 'kv \<Rightarrow> (nat \<Rightarrow> bool) \<Rightarrow>
    int list \<Rightarrow> nat \<Rightarrow> byte_string \<Rightarrow> bool \<Rightarrow> byte_string option" where
  "stream_completion sv E rollback drafts kv wok prompt max_tokens cid chat =
     (if \<not> wok 0 then Some []
      else let (_, st) = generate_stream E rollback drafts kv prompt max_tokens
                 (stream_token sv cid chat (\<lambda>i. wok (i + 1))) sse_start
        in if ss_panicked st then None
           else let ok = wok (ss_writes st + 1); done_ok = wok (ss_writes st + 2)
             in Some (sse_headers @ ss_events st @
                  (if ok then sse_event (last_chunk sv cid chat (ss_finish st)) else []) @
                  (if done_ok then lit ''data: [DONE]'' @ [0x0A, 0x0A] else [])))"

section \<open>One request\<close>

text \<open>What a request meets: the engine built for a cache of the given size, and the world around it.\<close>

record ('kv, 'h, 'm, 'g, 'x) world =
  w_engine :: "nat \<Rightarrow> ('kv, 'h, 'm, 'g) engine \<times> 'kv"
  w_err :: "'g gen_error \<Rightarrow> byte_string"
  w_rollback :: bool
  w_draft :: nat
  w_avail :: "nat \<Rightarrow> u64 option"
  w_sleeps :: "(ram_cell \<Rightarrow> ram_cell) list"
  w_work :: "'x cache \<Rightarrow> 'x cache"
  w_write :: "nat \<Rightarrow> bool"

definition run_completion :: "server \<Rightarrow> ('kv, 'h, 'm, 'g, 'x) world \<Rightarrow> int list \<Rightarrow> nat \<Rightarrow> bool \<Rightarrow> bool \<Rightarrow> byte_string option" where
  "run_completion sv w ids max_tokens stream chat =
     (let (E, kv) = w_engine w (length ids + max_tokens); cid = completion_id (length ids) max_tokens
      in if stream then stream_completion sv E (w_rollback w) (w_draft w) kv (w_write w) ids max_tokens cid chat
         else Some (block_completion sv (w_err w) E (w_rollback w) (w_draft w) kv ids max_tokens cid chat))"

definition request_kv :: "server \<Rightarrow> int list \<Rightarrow> u64" where
  "request_kv sv ids = bytes_for (sv_ring_env sv) (sv_cuda sv) (sv_cfg sv) (of_nat (length ids))"

text \<open>The commitment is dropped before the reservation it was made under.\<close>

definition complete :: "server \<Rightarrow> ('kv, 'h, 'm, 'g, 'x) world \<Rightarrow> byte_string \<Rightarrow> bool \<Rightarrow> 'x cache \<Rightarrow> byte_string option \<times> 'x cache" where
  "complete sv w body chat c = (case plan_request sv body chat of
     Refuse status msg \<Rightarrow> (Some (send_json status msg), c)
   | Run ids max_tokens stream \<Rightarrow>
       let kv_bytes = request_kv sv ids
       in case admit (length ids) kv_bytes (w_avail w) (w_sleeps w) c of
            (Inl (status, msg), c) \<Rightarrow> (Some (send_json status msg), c)
          | (Inr cm, c) \<Rightarrow>
              let out = run_completion sv w ids max_tokens stream chat; c = w_work w c;
                  c = c\<lparr>ram_cell := drop_commitment cm (ram_cell c)\<rparr>
              in (out, release_ram kv_bytes c))"

definition health_text :: "server \<Rightarrow> byte_string" where
  "health_text sv = obj_text [(''status'', dq @ lit ''ok'' @ dq), (''model'', jstr (sv_model_id sv)),
     (''max_model_len'', show_digits (sv_ctx_len sv))]"

definition models_text :: "server \<Rightarrow> byte_string" where
  "models_text sv = obj_text [(''object'', dq @ lit ''list'' @ dq), (''data'', 0x5B # obj_text [(''id'', jstr (sv_model_id sv)),
     (''object'', dq @ lit ''model'' @ dq), (''owned_by'', dq @ lit ''colibri'' @ dq),
     (''max_model_len'', show_digits (sv_ctx_len sv))] @ [0x5D])]"

definition not_found_text :: byte_string where
  "not_found_text = bad_request ''not found''"

definition route :: "server \<Rightarrow> ('kv, 'h, 'm, 'g, 'x) world \<Rightarrow> http_request \<Rightarrow> 'x cache \<Rightarrow> byte_string option \<times> 'x cache" where
  "route sv w rq c =
     (let m = rq_method rq; p = rq_path rq
      in if m = str_of ''GET'' \<and> (p = str_of ''/'' \<or> p = str_of ''/health'') then (Some (send_json 200 (health_text sv)), c)
         else if m = str_of ''GET'' \<and> p = str_of ''/v1/models'' then (Some (send_json 200 (models_text sv)), c)
         else if m = str_of ''POST'' \<and> p = str_of ''/v1/completions'' then complete sv w (rq_body rq) False c
         else if m = str_of ''POST'' \<and> p = str_of ''/v1/chat/completions'' then complete sv w (rq_body rq) True c
         else if m = str_of ''OPTIONS'' then (Some (send_json 204 []), c)
         else (Some (send_json 404 not_found_text), c))"

text \<open>One accepted connection: what the client gets back, \<open>None\<close> when the server panics, and the cache.\<close>

definition handle :: "server \<Rightarrow> ('kv, 'h, 'm, 'g, 'x) world \<Rightarrow> bool \<Rightarrow> byte_string \<Rightarrow> 'x cache \<Rightarrow> byte_string option \<times> 'x cache" where
  "handle sv w stalls input c = (case read_request stalls input of
     None \<Rightarrow> (None, c)
   | Some None \<Rightarrow> (Some [], c)
   | Some (Some rq) \<Rightarrow> route sv w rq c)"

end
