(* ===== verification/TokenizerLoad.thy ===== *)
theory TokenizerLoad
  imports Tokenizer Json
begin

text \<open>
  Building a tokenizer from a parsed \<open>tokenizer.json\<close> (\<open>Tokenizer::from_json\<close>, \<open>detect_pretok\<close>).
  The main results: what \<open>from_json\<close> builds satisfies the conditions under which decoding inverts
  encoding, when the ids of the file are distinct; and the added token matched at a position is the
  longest one.
\<close>

section \<open>The pre-tokenizer\<close>

function pretok_scan :: "json \<Rightarrow> bool" where
  "pretok_scan (Str s) = contains (lit ''&&[^'' @ 0x5C # lit ''p{Han}]'') s"
| "pretok_scan (Arr a) = list_ex pretok_scan a"
| "pretok_scan (Obj ob) = list_ex (\<lambda>(k, v). pretok_scan v) (obj_iter ob)"
| "pretok_scan Null = False"
| "pretok_scan (Bool b) = False"
| "pretok_scan (Num n) = False"
  by pat_completeness auto
termination
proof (relation "measure size", goal_cases)
  case (2 a x)
  then show ?case by (simp add: size_list_estimation' less_Suc_eq_le)
next
  case (3 ob kv k v)
  then have "v \<in> set (jo_vals ob)" by (auto simp: obj_iter_def dest: set_zip_rightD)
  then have "size v \<le> size_list size (jo_vals ob)" by (simp add: size_list_estimation')
  then show ?case by (cases ob) simp
qed simp

definition detect_pretok :: "json \<Rightarrow> pre_tok" where
  "detect_pretok root = (case json_get root (lit ''pre_tokenizer'') of
     Some p \<Rightarrow> if pretok_scan p then KimiK3 else Cl100k
   | None \<Rightarrow> Cl100k)"

section \<open>Loading\<close>

definition max_id :: "json list \<Rightarrow> int \<Rightarrow> int" where
  "max_id vs m = fold (\<lambda>v m. case as_i64 v of Some i \<Rightarrow> max m (wrap32 i) | None \<Rightarrow> m) vs m"

text \<open>\<open>id as usize\<close> of a negative id is beyond every vector\<close>

definition set_id :: "i32 \<Rightarrow> 'a \<Rightarrow> 'a list \<Rightarrow> 'a list" where
  "set_id i v xs = (if 0 \<le> i \<and> nat i < length xs then xs[nat i := v] else xs)"

definition load_vocab ::
  "(byte_string \<times> json) list \<Rightarrow> byte_string option list
     \<Rightarrow> (byte_string \<rightharpoonup> i32) \<times> byte_string option list" where
  "load_vocab kvs id2str =
     fold (\<lambda>(k, v) (vocab, id2str). case as_i64 v of
         Some i \<Rightarrow> let i = wrap32 i in (vocab(k \<mapsto> i), set_id i (Some k) id2str)
       | None \<Rightarrow> (vocab, id2str)) kvs (\<lambda>_. None, id2str)"

definition split_once_at :: "'a \<Rightarrow> 'a list \<Rightarrow> ('a list \<times> 'a list) option" where
  "split_once_at d s = (if d \<in> set s
     then Some (takeWhile (\<lambda>c. c \<noteq> d) s, tl (dropWhile (\<lambda>c. c \<noteq> d) s)) else None)"

definition merge_entry :: "json \<Rightarrow> (byte_string \<times> byte_string) option" where
  "merge_entry pr = (case pr of
     Arr a \<Rightarrow> if 2 \<le> length a
       then Some (case as_str (a ! 0) of Some s \<Rightarrow> s | None \<Rightarrow> [], case as_str (a ! 1) of Some s \<Rightarrow> s | None \<Rightarrow> [])
       else None
   | Str s \<Rightarrow> split_once_at 0x20 s
   | _ \<Rightarrow> None)"

definition load_merges :: "json list \<Rightarrow> byte_string \<rightharpoonup> i32" where
  "load_merges mj =
     fold (\<lambda>(rank, pr) merges. case merge_entry pr of
         Some (l, r) \<Rightarrow> merges(merge_key l r \<mapsto> wrap32 (int rank))
       | None \<Rightarrow> merges) (enumerate 0 mj) (\<lambda>_. None)"

definition added_entry :: "json \<Rightarrow> byte_string \<times> i32" where
  "added_entry a =
     ((case Option.bind (json_get a (lit ''content'')) as_str of Some s \<Rightarrow> s | None \<Rightarrow> []),
      wrap32 (case Option.bind (json_get a (lit ''id'')) as_i64 of Some i \<Rightarrow> i | None \<Rightarrow> - 1))"

definition load_added ::
  "json list \<Rightarrow> byte_string option list \<Rightarrow> bool list
     \<Rightarrow> byte_string option list \<times> bool list \<times> special list" where
  "load_added added id2str id_added =
     fold (\<lambda>a (id2str, id_added, specials).
         let (bytes, i) = added_entry a in
         if i < 0 then (id2str, id_added, specials)
         else (set_id i (Some bytes) id2str,
               (if nat i < length id2str then id_added[nat i := True] else id_added),
               specials @ [\<lparr>sp_bytes = bytes, sp_id = i\<rparr>]))
       added (id2str, id_added, [])"

definition from_json :: "json \<Rightarrow> tokenizer option" where
  "from_json root = do {
     model \<leftarrow> json_get root (lit ''model'');
     vj \<leftarrow> json_get model (lit ''vocab'');
     vocab_j \<leftarrow> as_object vj;
     mj \<leftarrow> json_get model (lit ''merges'');
     merges_j \<leftarrow> as_array mj;
     let added_j = Option.bind (json_get root (lit ''added_tokens'')) as_array;
     let (byte2str, cp2byte) = build_bytemap;
     let maxid = max_id (map snd (obj_iter vocab_j)) 0;
     let maxid = (case added_j of
         Some added \<Rightarrow> max_id (List.map_filter (\<lambda>a. json_get a (lit ''id'')) added) maxid
       | None \<Rightarrow> maxid);
     let n = nat (max (wrap32 (maxid + 1)) 0);
     let (vocab, id2str) = load_vocab (obj_iter vocab_j) (replicate n None);
     let (id2str, id_added, specials) = (case added_j of
         Some added \<Rightarrow>
           (let (id2str, id_added, specials) = load_added added id2str (replicate n False) in
            (id2str, id_added, sort_key (\<lambda>s. - int (length (sp_bytes s))) specials))
       | None \<Rightarrow> (id2str, replicate n False, []));
     Some \<lparr>tk_vocab = vocab, tk_merges = load_merges merges_j, tk_id2str = id2str,
       tk_id_added = id_added, tk_specials = specials, tk_byte2str = byte2str,
       tk_cp2byte = cp2byte, tk_pretok = detect_pretok root\<rparr> }"

section \<open>The entries of a file\<close>

definition vocab_of :: "json \<Rightarrow> (byte_string \<times> json) list" where
  "vocab_of root = (case do {
       model \<leftarrow> json_get root (lit ''model''); vj \<leftarrow> json_get model (lit ''vocab''); as_object vj } of
     Some ob \<Rightarrow> obj_iter ob | None \<Rightarrow> [])"

definition added_of :: "json \<Rightarrow> json list" where
  "added_of root = (case Option.bind (json_get root (lit ''added_tokens'')) as_array of
     Some a \<Rightarrow> a | None \<Rightarrow> [])"

definition vocab_entries :: "(byte_string \<times> json) list \<Rightarrow> (byte_string \<times> i32) list" where
  "vocab_entries kvs = List.map_filter (\<lambda>(k, v). map_option (\<lambda>i. (k, wrap32 i)) (as_i64 v)) kvs"

definition added_entries :: "json list \<Rightarrow> (byte_string \<times> i32) list" where
  "added_entries added = filter (\<lambda>(b, i). 0 \<le> i) (map added_entry added)"

text \<open>The shape of what \<open>from_json\<close> returns.\<close>

lemma from_json_shape:
  assumes "from_json root = Some t"
  defines "n \<equiv> nat (max (wrap32 (max_id (List.map_filter (\<lambda>a. json_get a (lit ''id'')) (added_of root))
      (max_id (map snd (vocab_of root)) 0) + 1)) 0)"
  obtains ids sps where "load_vocab (vocab_of root) (replicate n None) = (tk_vocab t, ids)"
    and "load_added (added_of root) ids (replicate n False) = (tk_id2str t, tk_id_added t, sps)"
    and "tk_specials t = sort_key (\<lambda>s. - int (length (sp_bytes s))) sps"
    and "bytemap_ok t" and "tk_pretok t = detect_pretok root"
proof -
  from assms(1) obtain model vj vocab_j mj merges_j where j:
    "json_get root (lit ''model'') = Some model" "json_get model (lit ''vocab'') = Some vj"
    "as_object vj = Some vocab_j" "json_get model (lit ''merges'') = Some mj" "as_array mj = Some merges_j"
    by (auto simp: from_json_def bind_eq_Some_conv)
  have v: "vocab_of root = obj_iter vocab_j" using j by (simp add: vocab_of_def)
  obtain vocab ids where lv: "load_vocab (vocab_of root) (replicate n None) = (vocab, ids)" by force
  obtain id2 ia sps where la: "load_added (added_of root) ids (replicate n False) = (id2, ia, sps)"
    by (metis prod_cases3)
  obtain byte2str cp2byte where bm: "build_bytemap = (byte2str, cp2byte)" by force
  have "t = \<lparr>tk_vocab = vocab, tk_merges = load_merges merges_j, tk_id2str = id2, tk_id_added = ia,
      tk_specials = sort_key (\<lambda>s. - int (length (sp_bytes s))) sps, tk_byte2str = byte2str,
      tk_cp2byte = cp2byte, tk_pretok = detect_pretok root\<rparr>"
  proof (cases "Option.bind (json_get root (lit ''added_tokens'')) as_array")
    case None
    then have a: "added_of root = []" by (simp add: added_of_def)
    then have la': "id2 = ids" "ia = replicate n False" "sps = []" using la by (simp_all add: load_added_def)
    have n: "n = nat (max (wrap32 (max_id (map snd (obj_iter vocab_j)) 0 + 1)) 0)"
      by (simp add: n_def a v max_id_def List.map_filter_def)
    from assms(1) show ?thesis
      using lv unfolding from_json_def v n by (simp add: j None bm la' [unfolded n])
  next
    case (Some added)
    then have a: "added_of root = added" by (simp add: added_of_def)
    from assms(1) show ?thesis
      using lv la unfolding from_json_def n_def v a by (simp add: j Some bm Let_def)
  qed
  then show ?thesis using that [of ids sps] lv la unfolding bytemap_ok_def bm by simp
qed

section \<open>Loading the entries\<close>

lemma length_set_id [simp]: "length (set_id i v xs) = length xs"
  by (simp add: set_id_def)

lemma load_vocab_entries:
  "fold (\<lambda>(k, v) (vocab, id2str). case as_i64 v of
         Some i \<Rightarrow> let i = wrap32 i in (vocab(k \<mapsto> i), set_id i (Some k) id2str)
       | None \<Rightarrow> (vocab, id2str)) kvs (vocab, ids)
    = (fold (\<lambda>(k, i) vocab. vocab(k \<mapsto> i)) (vocab_entries kvs) vocab,
       fold (\<lambda>(k, i). set_id i (Some k)) (vocab_entries kvs) ids)"
proof (induction kvs arbitrary: vocab ids)
  case (Cons kv kvs)
  obtain k v where "kv = (k, v)" by force
  with Cons show ?case by (cases "as_i64 v") (simp_all add: vocab_entries_def List.map_filter_def Let_def)
qed (simp add: vocab_entries_def List.map_filter_def)

lemma fold_upd_map_of: "fold (\<lambda>(k, i) vocab. vocab(k \<mapsto> i)) es vocab = vocab ++ map_of (rev es)"
  by (induction es arbitrary: vocab) (auto simp: map_add_def fun_eq_iff split: option.split)

text \<open>Writing entries with distinct ids into a table leaves each where it belongs.\<close>

lemma length_fold_set_id: "length (fold (\<lambda>(k, i). set_id i (Some k)) es ids) = length ids"
  by (induction es arbitrary: ids) auto

lemma fold_set_id_other:
  "(\<forall>(k, i)\<in>set es. 0 \<le> i \<longrightarrow> nat i \<noteq> j) \<Longrightarrow> fold (\<lambda>(k, i). set_id i (Some k)) es ids ! j = ids ! j"
proof (induction es arbitrary: ids)
  case (Cons e es)
  obtain k i where e: "e = (k, i)" by force
  with Cons have "fold (\<lambda>(k, i). set_id i (Some k)) es (set_id i (Some k) ids) ! j = set_id i (Some k) ids ! j"
    by simp
  moreover have "set_id i (Some k) ids ! j = ids ! j" using Cons.prems e by (auto simp: set_id_def)
  ultimately show ?case using e by simp
qed simp

lemma fold_set_id_own:
  "distinct (map snd es) \<Longrightarrow> \<forall>(k, i)\<in>set es. 0 \<le> i \<and> nat i < length ids \<Longrightarrow> (k, i) \<in> set es \<Longrightarrow>
   fold (\<lambda>(k, i). set_id i (Some k)) es ids ! nat i = Some k"
proof (induction es arbitrary: ids)
  case (Cons e es)
  obtain k' i' where e: "e = (k', i')" by force
  show ?case
  proof (cases "(k, i) = e")
    case True
    then have "i \<notin> snd ` set es" "0 \<le> i" using Cons.prems e by auto
    then have "\<forall>(k'', j)\<in>set es. 0 \<le> j \<longrightarrow> nat j \<noteq> nat i" by force
    moreover have "set_id i (Some k) ids ! nat i = Some k" using Cons.prems e True by (auto simp: set_id_def)
    ultimately show ?thesis using fold_set_id_other [of es "nat i" "set_id i (Some k) ids"] e True by simp
  next
    case False
    with Cons.prems e have "(k, i) \<in> set es" by auto
    with Cons.IH [of "set_id i' (Some k') ids"] Cons.prems e show ?thesis by simp
  qed
qed simp

lemma load_added_entries:
  "length ids = length ia \<Longrightarrow>
   fold (\<lambda>a (id2str, id_added, specials).
         let (bytes, i) = added_entry a in
         if i < 0 then (id2str, id_added, specials)
         else (set_id i (Some bytes) id2str,
               (if nat i < length id2str then id_added[nat i := True] else id_added),
               specials @ [\<lparr>sp_bytes = bytes, sp_id = i\<rparr>])) added (ids, ia, sps)
    = (fold (\<lambda>(k, i). set_id i (Some k)) (added_entries added) ids,
       fold (\<lambda>(k, i). set_id i True) (added_entries added) ia,
       sps @ map (\<lambda>(k, i). \<lparr>sp_bytes = k, sp_id = i\<rparr>) (added_entries added))"
proof (induction added arbitrary: ids ia sps)
  case (Cons a added)
  obtain k i where e: "added_entry a = (k, i)" by force
  show ?case
  proof (cases "i < 0")
    case True
    with Cons e show ?thesis by (simp add: added_entries_def)
  next
    case False
    have "set_id i True ia = (if nat i < length ids then ia[nat i := True] else ia)"
      using False Cons.prems by (simp add: set_id_def)
    with False Cons e show ?thesis by (simp add: added_entries_def)
  qed
qed (simp add: added_entries_def)

lemma fold_set_true:
  "j < length ia \<Longrightarrow> fold (\<lambda>(k, i). set_id i True) es ia ! j \<longleftrightarrow>
     ia ! j \<or> (\<exists>(k, i)\<in>set es. 0 \<le> i \<and> nat i = j)"
proof (induction es arbitrary: ia)
  case (Cons e es)
  obtain k i where e: "e = (k, i)" by force
  have "set_id i True ia ! j \<longleftrightarrow> ia ! j \<or> 0 \<le> i \<and> nat i = j"
    using Cons.prems by (auto simp: set_id_def nth_list_update)
  with Cons e show ?case by auto
qed simp

section \<open>Every id has its place\<close>

lemma max_id_ge_start: "m \<le> max_id vs m"
  unfolding max_id_def
proof (induction vs arbitrary: m)
  case (Cons v vs)
  then show ?case by (cases "as_i64 v") (auto intro: order_trans [OF max.cobounded1])
qed simp

lemma max_id_ge: "v \<in> set vs \<Longrightarrow> as_i64 v = Some i \<Longrightarrow> wrap32 i \<le> max_id vs m"
proof (induction vs arbitrary: m)
  case (Cons w vs)
  have step: "max_id (w # vs) m = max_id vs (case as_i64 w of Some i \<Rightarrow> max m (wrap32 i) | None \<Rightarrow> m)"
    by (simp add: max_id_def)
  show ?case
  proof (cases "v = w")
    case True
    then have "max_id (w # vs) m = max_id vs (max m (wrap32 i))" using Cons.prems step by simp
    then show ?thesis using max_id_ge_start [of "max m (wrap32 i)" vs] by simp
  next
    case False
    with Cons step show ?thesis by simp
  qed
qed simp

lemma max_id_less:
  "m < B \<Longrightarrow> \<forall>v\<in>set vs. \<forall>i. as_i64 v = Some i \<longrightarrow> wrap32 i < B \<Longrightarrow> max_id vs m < B"
  unfolding max_id_def
proof (induction vs arbitrary: m)
  case (Cons v vs)
  then show ?case by (cases "as_i64 v") auto
qed simp

definition file_ids :: "json \<Rightarrow> i32 list" where
  "file_ids root = map snd (vocab_entries (vocab_of root)) @ map snd (added_entries (added_of root))"

text \<open>What a usable file satisfies: distinct tokens, distinct ids, ids in range.\<close>

definition ids_ok :: "json \<Rightarrow> bool" where
  "ids_ok root \<longleftrightarrow> distinct (map fst (vocab_of root)) \<and> distinct (file_ids root) \<and>
     list_all (\<lambda>i. 0 \<le> i \<and> i < i32_max) (file_ids root)"

lemma wrap32_m1: "wrap32 (- 1) = - 1"
  by (simp add: wrap32_def)

lemma vocab_entry_value:
  "(k, i) \<in> set (vocab_entries kvs) \<longleftrightarrow> (\<exists>v w. (k, v) \<in> set kvs \<and> as_i64 v = Some w \<and> i = wrap32 w)"
  by (force simp: vocab_entries_def List.map_filter_def)

lemma added_entry_value:
  assumes "(k, i) \<in> set (added_entries added)"
  shows "\<exists>v w. v \<in> set (List.map_filter (\<lambda>a. json_get a (lit ''id'')) added) \<and> as_i64 v = Some w \<and> i = wrap32 w"
proof -
  obtain a where a: "a \<in> set added" "added_entry a = (k, i)" "0 \<le> i" using assms by (auto simp: added_entries_def)
  then have "Option.bind (json_get a (lit ''id'')) as_i64 \<noteq> None"
    by (cases "Option.bind (json_get a (lit ''id'')) as_i64") (auto simp: added_entry_def wrap32_m1)
  then obtain v w where "json_get a (lit ''id'') = Some v" "as_i64 v = Some w"
    by (auto simp: bind_eq_Some_conv)
  with a show ?thesis by (force simp: added_entry_def List.map_filter_def)
qed

lemma id_below_size:
  assumes "ids_ok root" "i \<in> set (file_ids root)"
  defines "m \<equiv> max_id (List.map_filter (\<lambda>a. json_get a (lit ''id'')) (added_of root))
      (max_id (map snd (vocab_of root)) 0)"
  shows "0 \<le> i" and "nat i < nat (max (wrap32 (m + 1)) 0)"
proof -
  let ?ids = "List.map_filter (\<lambda>a. json_get a (lit ''id'')) (added_of root)"
  have range: "0 \<le> j \<and> j < i32_max" if "j \<in> set (file_ids root)" for j
    using assms(1) that by (auto simp: ids_ok_def list_all_iff)
  then show "0 \<le> i" using assms(2) by blast
  have vocab: "wrap32 w < i32_max" if mem: "v \<in> set (map snd (vocab_of root))" and w: "as_i64 v = Some w" for v w
  proof -
    obtain k where "(k, v) \<in> set (vocab_of root)" using mem by auto
    then have "(k, wrap32 w) \<in> set (vocab_entries (vocab_of root))" using w vocab_entry_value by blast
    then have "wrap32 w \<in> set (file_ids root)" by (force simp: file_ids_def)
    then show ?thesis using range by blast
  qed
  have added: "wrap32 w < i32_max" if mem: "v \<in> set ?ids" and w: "as_i64 v = Some w" for v w
  proof (cases "wrap32 w < 0")
    case False
    obtain a where a: "a \<in> set (added_of root)" "json_get a (lit ''id'') = Some v"
      using mem by (auto simp: List.map_filter_def)
    then have "snd (added_entry a) = wrap32 w" using w by (simp add: added_entry_def)
    then have "added_entry a \<in> set (added_entries (added_of root))"
      using a(1) False by (auto simp: added_entries_def split: prod.split)
    then have "wrap32 w \<in> set (file_ids root)"
      using \<open>snd (added_entry a) = wrap32 w\<close> by (force simp: file_ids_def)
    then show ?thesis using range by blast
  qed (simp add: i32_max_def)
  have mid: "0 \<le> m" "m < i32_max"
    using max_id_less [of 0 i32_max "map snd (vocab_of root)"] vocab
      max_id_less [of "max_id (map snd (vocab_of root)) 0" i32_max ?ids] added
      max_id_ge_start [of 0 "map snd (vocab_of root)"]
      max_id_ge_start [of "max_id (map snd (vocab_of root)) 0" ?ids]
    by (auto simp: m_def i32_max_def)
  have "i \<le> m"
  proof -
    consider k where "(k, i) \<in> set (vocab_entries (vocab_of root))"
      | k where "(k, i) \<in> set (added_entries (added_of root))"
      using assms(2) by (auto simp: file_ids_def)
    then show ?thesis
    proof cases
      case 1
      then obtain v w where v: "(k, v) \<in> set (vocab_of root)" "as_i64 v = Some w" "i = wrap32 w"
        using vocab_entry_value by blast
      then have "v \<in> set (map snd (vocab_of root))" by force
      from max_id_ge [OF this v(2), of 0] max_id_ge_start [of "max_id (map snd (vocab_of root)) 0" ?ids] v(3)
      show ?thesis by (simp add: m_def)
    next
      case 2
      then obtain v w where "v \<in> set ?ids" "as_i64 v = Some w" "i = wrap32 w"
        using added_entry_value by blast
      with max_id_ge [of v ?ids w] show ?thesis by (simp add: m_def)
    qed
  qed
  moreover have "wrap32 (m + 1) = m + 1" using mid by (intro wrap32_id) (simp_all add: i32_max_def)
  ultimately show "nat i < nat (max (wrap32 (m + 1)) 0)" using \<open>0 \<le> i\<close> mid by simp
qed

lemma from_json_vocab_ok:
  assumes load: "from_json root = Some t" and ids: "ids_ok root"
    and closed: "\<And>l r. l \<in> dom (tk_vocab t) \<Longrightarrow> r \<in> dom (tk_vocab t) \<Longrightarrow>
      tk_merges t (merge_key l r) \<noteq> None \<Longrightarrow> l @ r \<in> dom (tk_vocab t)"
  shows "vocab_ok t"
proof -
  let ?E = "vocab_entries (vocab_of root)" and ?A = "added_entries (added_of root)"
  define n where "n = nat (max (wrap32 (max_id (List.map_filter (\<lambda>a. json_get a (lit ''id'')) (added_of root))
      (max_id (map snd (vocab_of root)) 0) + 1)) 0)"
  obtain tab sps where lv: "load_vocab (vocab_of root) (replicate n None) = (tk_vocab t, tab)"
    and la: "load_added (added_of root) tab (replicate n False) = (tk_id2str t, tk_id_added t, sps)"
    and sp: "tk_specials t = sort_key (\<lambda>s. - int (length (sp_bytes s))) sps" and bm: "bytemap_ok t"
    unfolding n_def by (rule from_json_shape [OF load])
  have voc: "tk_vocab t = map_of (rev ?E)" and tab: "tab = fold (\<lambda>(k, i). set_id i (Some k)) ?E (replicate n None)"
    using lv load_vocab_entries [of "vocab_of root" "\<lambda>_. None" "replicate n None"]
    by (simp_all add: load_vocab_def fold_upd_map_of)
  have len: "length tab = n" by (simp add: tab length_fold_set_id)
  have strs: "tk_id2str t = fold (\<lambda>(k, i). set_id i (Some k)) ?A tab"
    and flags: "tk_id_added t = fold (\<lambda>(k, i). set_id i True) ?A (replicate n False)"
    and spl: "sps = map (\<lambda>(k, i). \<lparr>sp_bytes = k, sp_id = i\<rparr>) ?A"
    using la load_added_entries [of tab "replicate n False" "added_of root" "[]"] len
    by (simp_all add: load_added_def)
  have size: "n_ids t = n" by (simp add: n_ids_def strs length_fold_set_id len)
  have inE: "0 \<le> i \<and> nat i < n" if "(k, i) \<in> set ?E" for k i
    using id_below_size [OF ids, of i] that by (force simp: file_ids_def n_def)
  have inA: "0 \<le> i \<and> nat i < n" if "(k, i) \<in> set ?A" for k i
    using id_below_size [OF ids, of i] that by (force simp: file_ids_def n_def)
  have disj: "nat i \<noteq> nat j" if "(k, i) \<in> set ?E" "(l, j) \<in> set ?A" for k i l j
  proof -
    have "i \<in> set (map snd ?E)" "j \<in> set (map snd ?A)" using that by force+
    moreover have "set (map snd ?E) \<inter> set (map snd ?A) = {}"
      using ids unfolding ids_ok_def file_ids_def distinct_append by blast
    ultimately have "i \<noteq> j" by blast
    with inE [OF that(1)] inA [OF that(2)] show ?thesis by (metis eq_nat_nat_iff)
  qed
  have dist: "distinct (map snd ?E)" "distinct (map snd ?A)" using ids by (simp_all add: ids_ok_def file_ids_def)
  have "0 \<le> v \<and> nat v < n_ids t \<and> tk_id2str t ! nat v = Some s \<and> \<not> tk_id_added t ! nat v"
    if "tk_vocab t s = Some v" for s v
  proof -
    have e: "(s, v) \<in> set ?E" using that map_of_SomeD [of "rev ?E" s v] voc by simp
    have "tab ! nat v = Some s" unfolding tab using dist(1) e inE by (intro fold_set_id_own) auto
    moreover have other: "\<forall>(l, j)\<in>set ?A. nat j \<noteq> nat v"
    proof
      fix x assume "x \<in> set ?A"
      then show "case x of (l, j) \<Rightarrow> nat j \<noteq> nat v" using disj [OF e, of "fst x" "snd x"]
        by (simp add: case_prod_beta)
    qed
    then have "tk_id2str t ! nat v = tab ! nat v"
      unfolding strs by (intro fold_set_id_other) auto
    moreover have "\<not> tk_id_added t ! nat v"
      using fold_set_true [of "nat v" "replicate n False" ?A] inE [OF e] other by (auto simp: flags)
    ultimately show ?thesis using inE [OF e] size by simp
  qed
  moreover have "0 \<le> sp_id sp \<and> nat (sp_id sp) < n_ids t \<and>
      tk_id2str t ! nat (sp_id sp) = Some (sp_bytes sp) \<and> tk_id_added t ! nat (sp_id sp)"
    if "sp \<in> set (tk_specials t)" for sp
  proof -
    have "sp \<in> set sps" using that sp by simp
    then obtain k i where a: "(k, i) \<in> set ?A" and s: "sp = \<lparr>sp_bytes = k, sp_id = i\<rparr>"
      using spl by auto
    have "tk_id2str t ! nat i = Some k"
      unfolding strs using dist(2) a inA len by (intro fold_set_id_own) auto
    moreover have "tk_id_added t ! nat i"
      using fold_set_true [of "nat i" "replicate n False" ?A] inA [OF a] a by (auto simp: flags)
    ultimately show ?thesis using inA [OF a] size s by simp
  qed
  ultimately show ?thesis using closed bm unfolding vocab_ok_def by blast
qed

section \<open>The earliest, longest added token\<close>

definition matches_at :: "byte_string \<Rightarrow> nat \<Rightarrow> special \<Rightarrow> bool" where
  "matches_at p j sp \<longleftrightarrow> 0 < length (sp_bytes sp) \<and> j + length (sp_bytes sp) \<le> length p \<and>
     sub p j (length (sp_bytes sp)) = sp_bytes sp"

lemma special_at_find: "special_at t p j = List.find (matches_at p j) (tk_specials t)"
  by (simp add: special_at_def matches_at_def [abs_def] Let_def)

lemma find_sorted_longest:
  assumes "sorted (map (\<lambda>s. - int (length (sp_bytes s))) sps)" "List.find P sps = Some sp"
    "sp' \<in> set sps" "P sp'"
  shows "length (sp_bytes sp') \<le> length (sp_bytes sp)"
  using assms by (induction sps) (auto split: if_splits)

lemma first_some_upt:
  "first_some f [i..<n] = Some y \<Longrightarrow> \<exists>x. i \<le> x \<and> x < n \<and> f x = Some y \<and> (\<forall>j. i \<le> j \<longrightarrow> j < x \<longrightarrow> f j = None)"
proof (induction "n - i" arbitrary: i rule: less_induct)
  case less
  then have i: "i < n" by (cases "i < n") auto
  then have step: "first_some f [i..<n] = (case f i of Some y \<Rightarrow> Some y | None \<Rightarrow> first_some f [Suc i..<n])"
    by (simp add: upt_conv_Cons)
  show ?case
  proof (cases "f i")
    case None
    with less.prems step have "first_some f [Suc i..<n] = Some y" by simp
    moreover have "n - Suc i < n - i" using i by simp
    ultimately obtain x where
      x: "Suc i \<le> x" "x < n" "f x = Some y" "\<forall>j. Suc i \<le> j \<longrightarrow> j < x \<longrightarrow> f j = None"
      using less.hyps [of "Suc i"] by blast
    have "f j = None" if "i \<le> j" "j < x" for j using that x(4) None by (cases "j = i") auto
    with x show ?thesis by (intro exI [of _ x]) auto
  next
    case (Some z)
    with less.prems step i show ?thesis by (intro exI [of _ i]) auto
  qed
qed

text \<open>
  In a loaded tokenizer the scan for added tokens returns the earliest position at or after the
  cursor where any of them matches, and at that position the longest of those that match, although
  it takes the first of the list: loading sorts the list by length.
\<close>

lemma added_token_earliest_longest:
  assumes "from_json root = Some t" and "find_special t p i = Some (pos, sl, v)"
  shows "(\<exists>sp\<in>set (tk_specials t). matches_at p pos sp \<and> sl = length (sp_bytes sp) \<and> v = sp_id sp) \<and>
    (\<forall>sp\<in>set (tk_specials t). matches_at p pos sp \<longrightarrow> length (sp_bytes sp) \<le> sl) \<and>
    (\<forall>j. i \<le> j \<longrightarrow> j < pos \<longrightarrow> (\<forall>sp\<in>set (tk_specials t). \<not> matches_at p j sp))"
proof -
  obtain sps where "tk_specials t = sort_key (\<lambda>s. - int (length (sp_bytes s))) sps"
    using from_json_shape [OF assms(1)] by blast
  then have sorted: "sorted (map (\<lambda>s. - int (length (sp_bytes s))) (tk_specials t))" by simp
  from first_some_upt [OF assms(2) [unfolded find_special_def]] obtain x where
    hit: "(case special_at t p x of Some sp \<Rightarrow> Some (x, length (sp_bytes sp), sp_id sp) | None \<Rightarrow> None)
        = Some (pos, sl, v)"
    and before: "\<forall>j. i \<le> j \<longrightarrow> j < x \<longrightarrow> (case special_at t p j of
        Some sp \<Rightarrow> Some (j, length (sp_bytes sp), sp_id sp) | None \<Rightarrow> None) = None" by blast
  from hit obtain sp where sp: "special_at t p x = Some sp" "x = pos" "sl = length (sp_bytes sp)" "v = sp_id sp"
    by (auto split: option.splits)
  then have at: "List.find (matches_at p pos) (tk_specials t) = Some sp" by (simp add: special_at_find)
  then have "sp \<in> set (tk_specials t)" "matches_at p pos sp" by (auto simp: find_Some_iff)
  moreover have "length (sp_bytes sp') \<le> sl" if "sp' \<in> set (tk_specials t)" "matches_at p pos sp'" for sp'
    using find_sorted_longest [OF sorted at that] sp(3) by simp
  moreover have "\<not> matches_at p j sp'" if "i \<le> j" "j < pos" "sp' \<in> set (tk_specials t)" for j sp'
  proof -
    have "special_at t p j = None" using before that(1,2) sp(2) by (auto split: option.splits)
    then show ?thesis using that(3) by (simp add: special_at_find find_None_iff)
  qed
  ultimately show ?thesis using sp(3,4) by blast
qed

text \<open>
  C21: a tokenizer loaded from a file with distinct tokens and distinct ids in range, whose
  vocabulary is closed under its merges, decodes what it encodes, for every text of bytes that have
  a token.
\<close>

theorem loaded_round_trip:
  assumes "from_json root = Some t" and "ids_ok root"
    and "\<And>l r. l \<in> dom (tk_vocab t) \<Longrightarrow> r \<in> dom (tk_vocab t) \<Longrightarrow>
      tk_merges t (merge_key l r) \<noteq> None \<Longrightarrow> l @ r \<in> dom (tk_vocab t)"
    and "covers t p"
  shows "decode_bytes t (encode t p) = p"
  using decode_encode_from [OF from_json_vocab_ok [OF assms(1-3)] assms(4), of 0 "[]"]
  by (simp add: decode_bytes_def encode_def)

text \<open>
  The file of the crate's test \<open>added_tokens_are_atomic\<close>, with smaller ids: tokens \<open>a\<close> and \<open>b\<close>, the
  merge of both, and an added token \<open>x\<close>; 0, 1, 2 and 3 as floats.
\<close>

definition obj :: "(byte_string \<times> json) list \<Rightarrow> json" where
  "obj kvs = Obj (fold (\<lambda>(k, v). obj_push k v) kvs obj_new)"

definition small_file :: json where
  "small_file = obj
     [(lit ''model'', obj
        [(lit ''vocab'', obj [([0x61], Num 0), ([0x62], Num 0x3FF0000000000000),
                              ([0x61, 0x62], Num 0x4000000000000000)]),
         (lit ''merges'', Arr [Arr [Str [0x61], Str [0x62]]])]),
      (lit ''added_tokens'', Arr [obj [(lit ''id'', Num 0x4008000000000000), (lit ''content'', Str [0x78])]])]"

lemma small_numbers:
  "as_i64 (Num 0) = Some 0" "as_i64 (Num 0x3FF0000000000000) = Some 1"
  "as_i64 (Num 0x4000000000000000) = Some 2" "as_i64 (Num 0x4008000000000000) = Some 3"
  by (simp_all add: as_i64_def f64_as_i64_def)

lemma small_vocab:
  "vocab_of small_file = [([0x61], Num 0), ([0x62], Num 0x3FF0000000000000), ([0x61, 0x62], Num 0x4000000000000000)]"
  by (simp add: vocab_of_def small_file_def obj_def obj_push_def obj_new_def json_get_def obj_get_def
      as_object_def obj_iter_def lit_def)

lemma small_added: "added_entries (added_of small_file) = [([0x78], 3)]"
  by (simp add: added_entries_def added_of_def added_entry_def small_file_def obj_def obj_push_def obj_new_def
      json_get_def obj_get_def as_array_def as_str_def lit_def small_numbers wrap32_id)

lemma small_ids_ok: "ids_ok small_file"
  by (simp add: ids_ok_def file_ids_def small_vocab small_added vocab_entries_def List.map_filter_def
      small_numbers wrap32_id i32_max_def)

definition small_tokenizer :: tokenizer where
  "small_tokenizer = \<lparr>tk_vocab = [[0x61] \<mapsto> 0, [0x62] \<mapsto> 1, [0x61, 0x62] \<mapsto> 2],
     tk_merges = [[0x61, 0, 0x62] \<mapsto> 0],
     tk_id2str = [Some [0x61], Some [0x62], Some [0x61, 0x62], Some [0x78]],
     tk_id_added = [False, False, False, True], tk_specials = [\<lparr>sp_bytes = [0x78], sp_id = 3\<rparr>],
     tk_byte2str = fst build_bytemap, tk_cp2byte = snd build_bytemap, tk_pretok = Cl100k\<rparr>"

lemmas small_file_simps = small_file_def obj_def obj_push_def obj_new_def json_get_def obj_get_def
  as_object_def as_array_def as_str_def obj_iter_def lit_def

lemma small_loaded: "from_json small_file = Some small_tokenizer"
proof -
  have ids: "max_id (map snd [([0x61], Num 0), ([0x62], Num 0x3FF0000000000000), ([0x61, 0x62], Num 0x4000000000000000)]) 0 = 2"
    "max_id [Num 0x4008000000000000] 2 = 3"
    by (simp_all add: max_id_def small_numbers wrap32_id)
  have voc: "load_vocab [([0x61], Num 0), ([0x62], Num 0x3FF0000000000000), ([0x61, 0x62], Num 0x4000000000000000)]
      (replicate 4 None) = ([[0x61] \<mapsto> 0, [0x62] \<mapsto> 1, [0x61, 0x62] \<mapsto> 2],
        [Some [0x61], Some [0x62], Some [0x61, 0x62], None])"
    by (simp add: load_vocab_def small_numbers wrap32_id set_id_def numeral_eq_Suc)
  have mer: "load_merges [Arr [Str [0x61], Str [0x62]]] = [[0x61, 0, 0x62] \<mapsto> 0]"
    by (simp add: load_merges_def merge_entry_def as_str_def merge_key_def wrap32_id)
  have add: "load_added [obj [(lit ''id'', Num 0x4008000000000000), (lit ''content'', Str [0x78])]]
      [Some [0x61], Some [0x62], Some [0x61, 0x62], None] (replicate 4 False)
      = ([Some [0x61], Some [0x62], Some [0x61, 0x62], Some [0x78]], [False, False, False, True],
         [\<lparr>sp_bytes = [0x78], sp_id = 3\<rparr>])"
    by (simp add: load_added_def added_entry_def small_file_simps small_numbers wrap32_id set_id_def numeral_eq_Suc)
  have pre: "detect_pretok small_file = Cl100k" by (simp add: detect_pretok_def small_file_simps)
  let ?V = "obj [([0x61], Num 0), ([0x62], Num 0x3FF0000000000000), ([0x61, 0x62], Num 0x4000000000000000)]"
  let ?M = "obj [(lit ''vocab'', ?V), (lit ''merges'', Arr [Arr [Str [0x61], Str [0x62]]])]"
  let ?A = "obj [(lit ''id'', Num 0x4008000000000000), (lit ''content'', Str [0x78])]"
  obtain ob where ob: "as_object ?V = Some ob"
    "obj_iter ob = [([0x61], Num 0), ([0x62], Num 0x3FF0000000000000), ([0x61, 0x62], Num 0x4000000000000000)]"
    by (simp add: small_file_simps)
  have get: "json_get small_file (lit ''model'') = Some ?M" "json_get ?M (lit ''vocab'') = Some ?V"
    "json_get ?M (lit ''merges'') = Some (Arr [Arr [Str [0x61], Str [0x62]]])"
    "json_get small_file (lit ''added_tokens'') = Some (Arr [?A])"
    "List.map_filter (\<lambda>a. json_get a (lit ''id'')) [?A] = [Num 0x4008000000000000]"
    by (simp_all add: small_file_simps List.map_filter_def)
  have four: "nat (max (wrap32 (3 + 1)) 0) = 4" by (simp add: wrap32_id)
  show ?thesis
    unfolding from_json_def get Option.bind.bind_lunit ob as_array_def json.case Let_def option.case ids four
      voc add mer pre prod.case
    by (simp add: small_tokenizer_def case_prod_beta)
qed

lemma small_closed:
  "l \<in> dom (tk_vocab small_tokenizer) \<Longrightarrow> r \<in> dom (tk_vocab small_tokenizer) \<Longrightarrow>
   tk_merges small_tokenizer (merge_key l r) \<noteq> None \<Longrightarrow> l @ r \<in> dom (tk_vocab small_tokenizer)"
proof -
  have d: "dom (tk_vocab small_tokenizer) = {[0x61], [0x62], [0x61, 0x62]}"
    by (auto simp: small_tokenizer_def)
  assume "l \<in> dom (tk_vocab small_tokenizer)" "r \<in> dom (tk_vocab small_tokenizer)"
    "tk_merges small_tokenizer (merge_key l r) \<noteq> None"
  then show ?thesis unfolding d by (auto simp: small_tokenizer_def merge_key_def split: if_splits)
qed

theorem loaded_round_trip_witness:
  "decode_bytes small_tokenizer (encode small_tokenizer [0x62, 0x61, 0x62]) = [0x62, 0x61, 0x62]"
proof (rule loaded_round_trip [OF small_loaded small_ids_ok small_closed])
  have "byte_str 0x61 = [0x61]" "byte_str 0x62 = [0x62]" by (simp_all add: byte_str_direct)
  then show "covers small_tokenizer [0x62, 0x61, 0x62]" by (simp add: covers_def small_tokenizer_def)
qed

end
