(* ===== verification/Answers.thy ===== *)
theory Answers
  imports Serve TokenizerLoad
begin

text \<open>
  What the server answers.  The answer to a completion request is a continuation of its prompt that
  the model chose token by token, as JSON that the repository's own parser reads back; the streamed pieces of an answer are
  the block answer; and the one case in which they are not, a character split over two tokens, ends
  the server.
\<close>

section \<open>The tokens of an answer\<close>

abbreviation before_stop :: "int list \<Rightarrow> int list \<Rightarrow> int list" where
  "before_stop stop_ids \<equiv> takeWhile (\<lambda>t. t \<notin> set stop_ids)"

text \<open>A stop token can only be the last one.\<close>

lemma legal_split:
  "legal may st ts us \<Longrightarrow> \<exists>e. us = before_stop st us @ e \<and> (e = [] \<or> (\<exists>t \<in> set st. e = [t]))"
proof (induction us arbitrary: ts)
  case (Cons t us)
  show ?case
  proof (cases "t \<in> set st")
    case False
    obtain e where "us = before_stop st us @ e" "e = [] \<or> (\<exists>t \<in> set st. e = [t])" using Cons by auto
    then have "t # us = before_stop st (t # us) @ e" "e = [] \<or> (\<exists>t \<in> set st. e = [t])" using False by simp_all
    then show ?thesis by blast
  qed (use Cons.prems in simp)
qed simp

lemma legal_stop:
  assumes "legal may st ts g"
  shows "(if g \<noteq> [] \<and> last g \<in> set st then butlast g else g) = before_stop st g"
    "(g \<noteq> [] \<and> last g \<in> set st) = (before_stop st g \<noteq> g)"
proof -
  obtain e where g: "g = before_stop st g @ e" and e: "e = [] \<or> (\<exists>t \<in> set st. e = [t])"
    using legal_split [OF assms] by auto
  have tw: "t \<notin> set st" if "t \<in> set (before_stop st g)" for t using set_takeWhileD [OF that] by simp
  from e consider "e = []" | t where "t \<in> set st" "e = [t]" by blast
  then have "(if g \<noteq> [] \<and> last g \<in> set st then butlast g else g) = before_stop st g \<and>
      (g \<noteq> [] \<and> last g \<in> set st) = (before_stop st g \<noteq> g)"
  proof cases
    case 1
    then have "before_stop st g = g" using g by simp
    then show ?thesis using tw last_in_set [of g] by metis
  next
    case (2 t)
    then have "g \<noteq> []" "last g = t" "butlast g = before_stop st g" using g by (metis snoc_eq_iff_butlast)+
    then show ?thesis using 2(1) by (metis append_butlast_last_id not_Cons_self2 append_self_conv)
  qed
  then show "(if g \<noteq> [] \<and> last g \<in> set st then butlast g else g) = before_stop st g"
    "(g \<noteq> [] \<and> last g \<in> set st) = (before_stop st g \<noteq> g)" by blast+
qed

text \<open>
  The engine that a request gets, for a cache of \<open>n\<close> tokens, keeps the promises of \<open>Generate\<close>: it does not
  fail, and its passes choose tokens that the model may choose.
\<close>

definition engine_for :: "server \<Rightarrow> ('kv, 'h, 'm, 'g, 'x) world \<Rightarrow> ('kv \<Rightarrow> int list \<Rightarrow> bool) \<Rightarrow> (int list \<Rightarrow> int \<Rightarrow> bool) \<Rightarrow> nat \<Rightarrow> bool" where
  "engine_for sv w reps may n \<longleftrightarrow> (let (E, kv) = w_engine w n in
     engine_ok E reps may (if has_mtp E then w_draft w else 0) \<and> reps kv [] \<and> engine.max_t E = n \<and>
     eng_stops E = c_stop_ids (sv_cfg sv) \<and> (w_rollback w \<or> \<not> has_mamba E))"

text \<open>What the engine generates for the prompt when the client takes everything.\<close>

definition answer_tokens :: "('kv, 'h, 'm, 'g, 'x) world \<Rightarrow> int list \<Rightarrow> nat \<Rightarrow> int list" where
  "answer_tokens w ids m = (let (E, kv) = w_engine w (length ids + m) in
     snd (generate_stream E (w_rollback w) (w_draft w) kv ids m collect []))"

abbreviation visible :: "server \<Rightarrow> int list \<Rightarrow> int list" where
  "visible sv \<equiv> before_stop (c_stop_ids (sv_cfg sv))"

definition finish_of :: "server \<Rightarrow> int list \<Rightarrow> string" where
  "finish_of sv g = (if visible sv g \<noteq> g then ''stop'' else ''length'')"

lemma stream_runs:
  assumes "engine_for sv w reps may (length ids + m)" "ids \<noteq> []"
  shows "chosen may (c_stop_ids (sv_cfg sv)) m ids (answer_tokens w ids m)"
    "generate_stream (fst (w_engine w (length ids + m))) (w_rollback w) (w_draft w) (snd (w_engine w (length ids + m))) ids m on c
      = (Inr (), feed on c (answer_tokens w ids m))"
proof -
  obtain E kv where E: "w_engine w (length ids + m) = (E, kv)" by fastforce
  let ?b = "if has_mtp E then w_draft w else 0"
  have ok: "engine_ok E reps may (if has_mtp E then ?b else 0)" "reps kv []" "engine.max_t E = length ids + m"
    "eng_stops E = c_stop_ids (sv_cfg sv)" "w_rollback w \<or> \<not> has_mamba E" using assms(1) E by (cases "has_mtp E"; simp add: engine_for_def)+
  have room: "length ids + m \<le> engine.max_t E" using ok(3) by simp
  obtain us where us: "chosen may (eng_stops E) m ids us"
    "\<forall>out. \<exists>stats. generate_stream_drafting E (w_rollback w) kv ids m ?b collect out = (Inr stats, out @ us) \<and> st_emitted stats = length us"
    "\<forall>c. \<exists>stats. generate_stream_drafting E (w_rollback w) kv ids m ?b on c = (Inr stats, feed on c us) \<and> st_emitted stats \<le> m \<and>
      (wants on c us \<longrightarrow> st_emitted stats = length us)"
    using drafting_emits [OF ok(1,2) assms(2) room ok(5), of on] by blast
  obtain s1 s2 where s: "generate_stream_drafting E (w_rollback w) kv ids m ?b collect [] = (Inr s1, us)"
    "generate_stream_drafting E (w_rollback w) kv ids m ?b on c = (Inr s2, feed on c us)" using us(2,3) by (metis append_Nil)
  have a: "answer_tokens w ids m = us" by (simp add: answer_tokens_def E generate_stream_def Let_def s(1))
  show "chosen may (c_stop_ids (sv_cfg sv)) m ids (answer_tokens w ids m)" using us(1) ok(4) a by simp
  show "generate_stream (fst (w_engine w (length ids + m))) (w_rollback w) (w_draft w) (snd (w_engine w (length ids + m))) ids m on c
      = (Inr (), feed on c (answer_tokens w ids m))" by (simp add: a E generate_stream_def Let_def s(2))
qed

lemma answer_legal:
  assumes "engine_for sv w reps may (length ids + m)" "ids \<noteq> []"
  shows "legal may (c_stop_ids (sv_cfg sv)) ids (answer_tokens w ids m)" "length (answer_tokens w ids m) \<le> m"
  using stream_runs(1) [OF assms] by (simp_all add: chosen_def)

section \<open>The block answer as a JSON tree\<close>

text \<open>Keys and fixed strings need no escape.\<close>

definition plain_text :: "string \<Rightarrow> bool" where
  "plain_text s \<longleftrightarrow> list_all (\<lambda>c. c \<noteq> CHR 0x22 \<and> c \<noteq> CHR 0x5C) s"

lemma show_plain: "plain_text s \<Longrightarrow> show_str (lit s) = dq @ lit s @ dq"
proof -
  have c: "(of_nat (of_char c) :: u8) = of_nat (of_char d) \<longleftrightarrow> c = d" for c d
    using lit_inject [of "[c]" "[d]"] by (simp add: lit_def)
  have "esc (of_nat (of_char c)) = [of_nat (of_char c)]" if "c \<noteq> CHR 0x22" "c \<noteq> CHR 0x5C" for c
    using that c [of c "CHR 0x22"] c [of c "CHR 0x5C"] by (simp add: esc_def)
  then have "plain_text s \<Longrightarrow> concat (map esc (lit s)) = lit s"
    by (induction s) (simp_all add: plain_text_def lit_def)
  then show "plain_text s \<Longrightarrow> show_str (lit s) = dq @ lit s @ dq" by (simp add: show_str_def)
qed

lemma obj_text_tree:
  assumes "list_all2 (\<lambda>(k, v) (k', t). k' = lit k \<and> plain_text k \<and> v = show_json t) kvs kts"
  shows "obj_text kvs = show_json (TObj kts)"
proof -
  have "map (\<lambda>(k, v). dq @ lit k @ dq @ 0x3A # v) kvs = map show_member kts"
    using assms by (induction rule: list_all2_induct) (auto simp: show_plain)
  then show ?thesis by (simp only: obj_text_def show_json.simps)
qed

definition tnum :: "nat \<Rightarrow> jtree" where
  "tnum n = TInt (int n)"

lemma show_tnum [simp]: "show_json (tnum n) = show_digits n"
  by (simp add: tnum_def show_int_def)

definition choice_tree :: "bool \<Rightarrow> byte_string \<Rightarrow> string \<Rightarrow> jtree" where
  "choice_tree chat answer finish = TObj (
     (lit ''index'', tnum 0) #
     (if chat then (lit ''message'', TObj [(lit ''role'', TStr (lit ''assistant'')), (lit ''content'', TLit answer)])
      else (lit ''text'', TLit answer)) #
     [(lit ''finish_reason'', TLit (lit finish))])"

definition answer_tree :: "server \<Rightarrow> bool \<Rightarrow> byte_string \<Rightarrow> nat \<Rightarrow> nat \<Rightarrow> byte_string \<Rightarrow> string \<Rightarrow> jtree" where
  "answer_tree sv chat cid n_prompt n_answer answer finish = TObj [
     (lit ''id'', TLit cid), (lit ''object'', TLit (lit (object_name chat))), (lit ''model'', TLit (sv_model_id sv)),
     (lit ''choices'', TArr [choice_tree chat answer finish]),
     (lit ''usage'', TObj [(lit ''prompt_tokens'', tnum n_prompt), (lit ''completion_tokens'', tnum n_answer),
        (lit ''total_tokens'', tnum (n_prompt + n_answer))])]"

lemma choice_text_tree: "choice_text chat answer finish = show_json (choice_tree chat answer finish)"
proof -
  have o1: "obj_text [(''role'', dq @ lit ''assistant'' @ dq), (''content'', jstr answer)]
      = show_json (TObj [(lit ''role'', TStr (lit ''assistant'')), (lit ''content'', TLit answer)])"
    by (rule obj_text_tree) (simp add: plain_text_def show_plain)
  show ?thesis unfolding choice_text_def choice_tree_def o1
    by (cases chat; simp only: if_True if_False; rule obj_text_tree; simp add: plain_text_def del: show_json.simps(6))
qed

lemma answer_text_tree:
  "obj_text (envelope cid (object_name chat) (sv_model_id sv) (choice_text chat answer finish) @ [(''usage'', usage_text n_prompt n_answer)])
    = show_json (answer_tree sv chat cid n_prompt n_answer answer finish)"
proof -
  have u: "usage_text n_prompt n_answer = show_json (TObj [(lit ''prompt_tokens'', tnum n_prompt), (lit ''completion_tokens'', tnum n_answer),
      (lit ''total_tokens'', tnum (n_prompt + n_answer))])"
    unfolding usage_text_def by (rule obj_text_tree) (simp add: plain_text_def)
  show ?thesis unfolding envelope_def choice_text_tree u answer_tree_def append.simps
    by (rule obj_text_tree) (simp add: plain_text_def del: show_json.simps(6))
qed

text \<open>Every text of the tree is valid UTF-8 and every number exact.\<close>

lemma answer_tree_ok:
  assumes "utf8_valid (sv_model_id sv)" "n_prompt + n_answer < 2 ^ 53" "utf8_valid answer" "finish \<in> {''stop'', ''length''}" "utf8_valid cid"
  shows "jtree_ok (answer_tree sv chat cid n_prompt n_answer answer finish)"
  using assms by (auto simp: answer_tree_def choice_tree_def object_name_def tnum_def utf8_ascii_lit)

section \<open>The block answer\<close>

lemma block_runs:
  assumes "engine_for sv w reps may (length ids + m)" "ids \<noteq> []"
  defines "g \<equiv> answer_tokens w ids m"
  shows "block_completion sv err (fst (w_engine w (length ids + m))) (w_rollback w) (w_draft w) (snd (w_engine w (length ids + m))) ids m cid chat
    = send_json 200 (show_json (answer_tree sv chat cid (length ids) (length (visible sv g)) (decode (sv_tok sv) (visible sv g)) (finish_of sv g)))"
proof -
  have "generate_greedy (fst (w_engine w (length ids + m))) (w_rollback w) (w_draft w) (snd (w_engine w (length ids + m))) ids m = Inr (ids @ g)"
    using stream_runs(2) [OF assms(1,2), of collect ids]
    by (simp add: generate_greedy_def g_def)
  note r = this
  have d: "drop (length ids) (ids @ g) = g" by simp
  note s = legal_stop [OF answer_legal(1) [OF assms(1,2)], folded g_def]
  show ?thesis
    unfolding block_completion_def r sum.case Let_def d s(1)
    unfolding s(2) finish_of_def [symmetric] answer_text_tree ..
qed

section \<open>The stream\<close>

lemma decode_str_append: "decode_str t s j out = out @ decode_str t s j []"
proof (induction "length s - j" arbitrary: j out rule: less_induct)
  case less
  show ?case
  proof (cases "j < length s")
    case True
    obtain cp k where ck: "u8_next s j = (cp, k)" by fastforce
    let ?e = "if cp < 1024 \<and> 0 \<le> tk_cp2byte t ! unat cp then [of_int (tk_cp2byte t ! unat cp)] else []"
    have step: "decode_str t s j o' = decode_str t s (j + k) (o' @ ?e)" for o'
      using True ck by (subst decode_str.simps) simp
    have "1 \<le> k" using u8_next_pos [of s j] ck by simp
    then have "length s - (j + k) < length s - j" using True by simp
    from less [OF this] have "decode_str t s (j + k) (out @ ?e) = (out @ ?e) @ decode_str t s (j + k) []"
      "decode_str t s (j + k) ([] @ ?e) = ([] @ ?e) @ decode_str t s (j + k) []" by blast+
    then show ?thesis unfolding step [of out] step [of "[]"] by simp
  next
    case False
    then show ?thesis by (subst (1 2) decode_str.simps) simp
  qed
qed

lemma decode_id_append: "decode_id t v out = out @ decode_id t v []"
proof (cases "v < 0 \<or> length (tk_id2str t) \<le> nat v")
  case False
  then show ?thesis using decode_str_append [of t _ 0 out] by (auto simp: decode_id_def split: option.splits)
qed (simp add: decode_id_def)

lemma decode_bytes_snoc: "decode_bytes t (ids @ [v]) = decode_bytes t ids @ decode_id t v []"
  using decode_id_append [of t v "decode_bytes t ids"] by (simp add: decode_bytes_def)

text \<open>No token ends inside a character: the bytes of every prefix are whole characters.\<close>

definition whole_chars :: "tokenizer \<Rightarrow> int list \<Rightarrow> bool" where
  "whole_chars t ids \<longleftrightarrow> list_all (\<lambda>k. utf8_valid (decode_bytes t (take k ids))) [0..<Suc (length ids)]"

lemma whole_chars_take: "whole_chars t ids \<Longrightarrow> k \<le> length ids \<Longrightarrow> utf8_valid (decode_bytes t (take k ids))"
  by (simp add: whole_chars_def list_all_iff del: upt_Suc)

lemma whole_chars_prefix:
  assumes "whole_chars t (xs @ v # ys)"
  shows "utf8_valid (decode_bytes t xs)" "utf8_valid (decode_bytes t (xs @ [v]))"
  using whole_chars_take [OF assms, of "length xs"] whole_chars_take [OF assms, of "Suc (length xs)"] by simp_all

lemma boundary_after_whole:
  assumes "utf8_valid a" "utf8_valid (a @ b)"
  shows "char_boundary (a @ b) (length a)"
proof (cases b)
  case (Cons c cs)
  then have "utf8_valid (c # cs)" using assms utf8_valid_cut [of a b] by simp
  then show ?thesis using valid_head [of c cs] Cons by (simp add: char_boundary_def nth_append)
qed (simp add: char_boundary_def)

text \<open>The stream after the tokens \<open>ids\<close>, with the pieces \<open>ds\<close> sent.\<close>

definition streamed :: "server \<Rightarrow> byte_string \<Rightarrow> bool \<Rightarrow> int list \<Rightarrow> byte_string list \<Rightarrow> sse \<Rightarrow> bool" where
  "streamed sv cid chat ids ds st \<longleftrightarrow> ss_ids st = ids \<and> ss_sent st = decode_bytes (sv_tok sv) ids \<and> ss_deltas st = ds \<and>
     ss_events st = concat (map (\<lambda>d. sse_event (delta_text sv cid chat d)) ds) \<and> concat ds = ss_sent st \<and>
     ss_finish st = ''length'' \<and> \<not> ss_panicked st"

lemma stream_token_step:
  assumes "streamed sv cid chat ids ds st" "t \<notin> set (c_stop_ids (sv_cfg sv))"
    and "utf8_valid (decode_bytes (sv_tok sv) ids)" "utf8_valid (decode_bytes (sv_tok sv) (ids @ [t]))"
  shows "\<exists>ds' st'. stream_token sv cid chat (\<lambda>_. True) st t = (True, st') \<and> streamed sv cid chat (ids @ [t]) ds' st'"
proof -
  let ?p = "decode_bytes (sv_tok sv) ids" and ?d = "decode_id (sv_tok sv) t []"
  have full: "decode (sv_tok sv) (ids @ [t]) = ?p @ ?d" using assms(4) by (simp add: decode_def utf8_lossy_valid decode_bytes_snoc)
  show ?thesis
  proof (cases "?d = []")
    case True
    then have "stream_token sv cid chat (\<lambda>_. True) st t = (True, st\<lparr>ss_ids := ids @ [t]\<rparr>)"
      using assms(1,2) full by (simp add: stream_token_def Let_def streamed_def)
    moreover have "streamed sv cid chat (ids @ [t]) ds (st\<lparr>ss_ids := ids @ [t]\<rparr>)"
      using assms(1) True by (simp add: streamed_def decode_bytes_snoc)
    ultimately show ?thesis by blast
  next
    case False
    let ?st = "st\<lparr>ss_ids := ids @ [t], ss_writes := ss_writes st + 1, ss_sent := ?p @ ?d, ss_deltas := ds @ [?d],
      ss_events := ss_events st @ sse_event (delta_text sv cid chat ?d)\<rparr>"
    have "char_boundary (?p @ ?d) (length ?p)" using assms(3,4) by (intro boundary_after_whole) (simp_all add: decode_bytes_snoc)
    then have "stream_token sv cid chat (\<lambda>_. True) st t = (True, ?st)"
      using assms(1,2) full False by (simp add: stream_token_def Let_def streamed_def)
    moreover have "streamed sv cid chat (ids @ [t]) (ds @ [?d]) ?st"
      using assms(1) by (simp add: streamed_def decode_bytes_snoc)
    ultimately show ?thesis by blast
  qed
qed

lemma feed_streamed:
  assumes "streamed sv cid chat xs ds st" "whole_chars (sv_tok sv) (xs @ ts)" "list_all (\<lambda>t. t \<notin> set (c_stop_ids (sv_cfg sv))) ts"
  shows "\<exists>ds' st'. feed (stream_token sv cid chat (\<lambda>_. True)) st (ts @ es) = feed (stream_token sv cid chat (\<lambda>_. True)) st' es \<and>
    streamed sv cid chat (xs @ ts) ds' st'"
  using assms
proof (induction ts arbitrary: xs ds st)
  case (Cons t ts)
  have "t \<notin> set (c_stop_ids (sv_cfg sv))" using Cons.prems(3) by simp
  from stream_token_step [OF Cons.prems(1) this whole_chars_prefix [OF Cons.prems(2)]] obtain ds1 st1 where
    s: "stream_token sv cid chat (\<lambda>_. True) st t = (True, st1)" "streamed sv cid chat (xs @ [t]) ds1 st1" by blast
  show ?case using Cons.IH [OF s(2)] Cons.prems(2,3) s(1) by simp
qed auto

text \<open>
  C4: A stream is the block answer in pieces.  While every write succeeds and no token ends inside a
  character, the deltas of the stream join to the text of the block answer to the same request, the
  two report the same reason to finish, and the stream ends with its terminal chunk and marker.
\<close>

theorem stream_agrees_with_block:
  assumes "engine_for sv w reps may (length ids + m)" and "ids \<noteq> []" and "w_write w = (\<lambda>_. True)"
    and "whole_chars (sv_tok sv) (visible sv (answer_tokens w ids m))"
  shows "\<exists>deltas finish n. 
    run_completion sv w ids m True chat = Some (sse_headers @
      concat (map (\<lambda>d. sse_event (delta_text sv (completion_id (length ids) m) chat d)) deltas) @
      sse_event (last_chunk sv (completion_id (length ids) m) chat finish) @ lit ''data: [DONE]'' @ [0x0A, 0x0A]) \<and>
    run_completion sv w ids m False chat = Some (send_json 200
      (show_json (answer_tree sv chat (completion_id (length ids) m) (length ids) n (concat deltas) finish)))"
proof -
  let ?cid = "completion_id (length ids) m" and ?g = "answer_tokens w ids m" and ?on = "stream_token sv (completion_id (length ids) m) chat (\<lambda>_. True)"
  have "streamed sv ?cid chat [] [] sse_start" by (simp add: streamed_def sse_start_def decode_bytes_def)
  moreover have "list_all (\<lambda>t. t \<notin> set (c_stop_ids (sv_cfg sv))) (visible sv ?g)" by (auto simp: list_all_iff dest: set_takeWhileD)
  moreover obtain e where e: "?g = visible sv ?g @ e" "e = [] \<or> (\<exists>t \<in> set (c_stop_ids (sv_cfg sv)). e = [t])"
    using legal_split [OF answer_legal(1) [OF assms(1,2)]] by auto
  ultimately obtain ds st where st: "feed ?on sse_start ?g = feed ?on st e" "streamed sv ?cid chat (visible sv ?g) ds st"
    using feed_streamed [of sv ?cid chat "[]" "[]" sse_start "visible sv ?g" e] assms(4) by (metis append_Nil)
  define st' where "st' = feed ?on st e"
  have fields: "ss_events st' = ss_events st" "ss_panicked st' = ss_panicked st" "ss_finish st' = finish_of sv ?g"
  proof -
    from e(2) consider "e = []" | t where "t \<in> set (c_stop_ids (sv_cfg sv))" "e = [t]" by blast
    then have "ss_events st' = ss_events st \<and> ss_panicked st' = ss_panicked st \<and> ss_finish st' = finish_of sv ?g"
    proof cases
      case 1
      then have "visible sv ?g = ?g" using e(1) by simp
      then show ?thesis using 1 st(2) by (simp add: st'_def finish_of_def streamed_def)
    next
      case (2 t)
      then have "visible sv ?g \<noteq> ?g" using e(1) by (metis append_self_conv not_Cons_self2)
      then show ?thesis using 2 by (simp add: st'_def finish_of_def stream_token_def)
    qed
    then show "ss_events st' = ss_events st" "ss_panicked st' = ss_panicked st" "ss_finish st' = finish_of sv ?g" by blast+
  qed
  have s: "run_completion sv w ids m True chat = Some (sse_headers @ ss_events st' @
      sse_event (last_chunk sv ?cid chat (ss_finish st')) @ lit ''data: [DONE]'' @ [0x0A, 0x0A])"
    using stream_runs(2) [OF assms(1,2), of ?on sse_start] st(1) st(2) fields(2)
    by (simp add: run_completion_def stream_completion_def Let_def assms(3) split_def st'_def streamed_def)
  have b: "run_completion sv w ids m False chat = Some (send_json 200 (show_json
      (answer_tree sv chat ?cid (length ids) (length (visible sv ?g)) (decode (sv_tok sv) (visible sv ?g)) (finish_of sv ?g))))"
    using block_runs [OF assms(1,2), of "w_err w" ?cid chat] by (simp add: run_completion_def Let_def split_def)
  have "utf8_valid (decode_bytes (sv_tok sv) (visible sv ?g))" using whole_chars_take [OF assms(4), of "length (visible sv ?g)"] by simp
  then have "concat ds = decode (sv_tok sv) (visible sv ?g)" using st(2) by (simp add: streamed_def decode_def utf8_lossy_valid)
  then show ?thesis using s b st(2) unfolding fields streamed_def
    by (intro exI [of _ ds] exI [of _ "finish_of sv ?g"] exI [of _ "length (visible sv ?g)"]) simp
qed

section \<open>A character over two tokens\<close>

text \<open>
  C5: A character that is split over two tokens ends the server.  When the model starts its answer with
  two tokens that share an emoji, the first delta is a replacement character of three bytes, and the
  second slices the four bytes of the emoji at the third: the thread that serves every connection
  panics, while the block answer to the same request is delivered.
\<close>

theorem split_character_panics:
  assumes "engine_for sv w reps may (length ids + m)" and "ids \<noteq> []" and "w_write w = (\<lambda>_. True)"
    and "answer_tokens w ids m = a # b # ts" and "{a, b} \<inter> set (c_stop_ids (sv_cfg sv)) = {}"
    and "decode_bytes (sv_tok sv) [a] = [0xF0, 0x9F]" and "decode_bytes (sv_tok sv) [a, b] = [0xF0, 0x9F, 0x98, 0x80]"
  shows "run_completion sv w ids m True chat = None \<and> run_completion sv w ids m False chat \<noteq> None"
proof -
  let ?cid = "completion_id (length ids) m" and ?on = "stream_token sv (completion_id (length ids) m) chat (\<lambda>_. True)"
  have "utf8_lossy [0xF0, 0x9F] = [0xEF, 0xBF, 0xBD]" "utf8_lossy [0xF0, 0x9F, 0x98, 0x80] = [0xF0, 0x9F, 0x98, 0x80]"
    "\<not> char_boundary [0xF0, 0x9F, 0x98, 0x80] 3" by code_simp+
  then have d: "decode (sv_tok sv) [a] = [0xEF, 0xBF, 0xBD]" "decode (sv_tok sv) [a, b] = [0xF0, 0x9F, 0x98, 0x80]"
    and nb: "\<not> char_boundary [0xF0, 0x9F, 0x98, 0x80] 3" using assms(6,7) by (simp_all add: decode_def)
  have ns: "a \<notin> set (c_stop_ids (sv_cfg sv))" "b \<notin> set (c_stop_ids (sv_cfg sv))" using assms(5) by simp_all
  obtain st where 1: "?on sse_start a = (True, st)" "ss_ids st = [a]" "ss_sent st = [0xEF, 0xBF, 0xBD]"
    using ns(1) d(1) by (simp add: stream_token_def sse_start_def Let_def char_boundary_def)
  have 2: "\<exists>st2. ?on st b = (False, st2) \<and> ss_panicked st2"
    using ns(2) d(2) 1(2,3) nb by (simp add: stream_token_def Let_def numeral_3_eq_3)
  have "ss_panicked (feed ?on sse_start (answer_tokens w ids m))"
    using 1(1) 2 unfolding assms(4) by auto
  then have "run_completion sv w ids m True chat = None"
    using stream_runs(2) [OF assms(1,2), of ?on sse_start]
    by (simp add: run_completion_def stream_completion_def Let_def assms(3) split_def)
  moreover have "run_completion sv w ids m False chat \<noteq> None" by (simp add: run_completion_def split_def Let_def)
  ultimately show ?thesis ..
qed

section \<open>End to end\<close>

lemma digits_utf8: "utf8_valid (show_digits n)"
  using show_digits_digit [of n]
  by (intro utf8_valid_ascii) (auto simp: list_all_iff is_digit_def word_le_nat_alt word_less_nat_alt)

definition completion_path :: "bool \<Rightarrow> string" where
  "completion_path chat = (if chat then ''/v1/chat/completions'' else ''/v1/completions'')"

lemma completion_paths:
  "list_all plain (lit ''POST'')" "lit ''POST'' \<noteq> []" "map unat (lit ''POST'') = str_of ''POST''"
  "list_all plain (lit (completion_path chat))" "lit (completion_path chat) \<noteq> []"
  "map unat (lit (completion_path chat)) = str_of (completion_path chat)"
  by (simp_all add: lit_def plain_def completion_path_def str_of_def)

lemma route_completion:
  "route sv w \<lparr>rq_method = str_of ''POST'', rq_path = str_of (completion_path chat), rq_body = body\<rparr> c = complete sv w body chat c"
  by (cases chat) (simp_all add: route_def completion_path_def str_of_def Let_def)

text \<open>
C2: From bytes to bytes.  A well-formed request for a completion, of text or of a chat, whose body the
  server accepts, whose memory it grants and whose engine does not fail, is answered with status 200
  and a JSON object that the repository's own parser reads back: the text of the generated tokens up
  to their stop token, the reason to finish and the token counts, whatever characters the answer
  holds.  The generated tokens are a continuation of the prompt that the model itself chose, token by
  token, whatever the draft head proposes, in at most as many tokens as were asked for and the window
  has left, ended early only by a stop token.
\<close>

theorem completion_end_to_end:
  assumes "list_all plain_header hs" and "utf8_valid body" and "length body < 2 ^ 63"
    and "plan_request sv body chat = Run ids m False" and "sv_ctx_len sv < 2 ^ 53" and "utf8_valid (sv_model_id sv)"
    and "admit (length ids) (request_kv sv ids) (w_avail w) (w_sleeps w) c = (Inr cm, d)"
    and "engine_for sv w reps may (length ids + m)"
  defines "g \<equiv> answer_tokens w ids m"
  shows "\<exists>answer. fst (handle sv w stalls (render_request (lit ''POST'') (lit (completion_path chat)) hs body @ later) c)
      = Some (send_json 200 answer) \<and>
    json_parse answer = Some (json_of (answer_tree sv chat (completion_id (length ids) m) (length ids) (length (visible sv g))
      (decode (sv_tok sv) (visible sv g)) (finish_of sv g))) \<and>
    chosen may (c_stop_ids (sv_cfg sv)) m ids g"
proof -
  note p = plan_bounds [OF assms(4)]
  let ?t = "answer_tree sv chat (completion_id (length ids) m) (length ids) (length (visible sv g))
      (decode (sv_tok sv) (visible sv g)) (finish_of sv g)"
  have "handle sv w stalls (render_request (lit ''POST'') (lit (completion_path chat)) hs body @ later) c = complete sv w body chat c"
    using read_whole_request [OF completion_paths(2,1,5,4) assms(1,3), where stalls = stalls and later = later]
    unfolding handle_def completion_paths(3,6) utf8_lossy_valid [OF assms(2)] by (simp add: route_completion)
  moreover have "fst (complete sv w body chat c) = Some (send_json 200 (show_json ?t))"
    using block_runs [OF assms(8) p(1), of "w_err w" "completion_id (length ids) m" chat] assms(4,7)
    by (simp add: complete_def Let_def run_completion_def split_def g_def)
  moreover have "json_parse (show_json ?t) = Some (json_of ?t)"
  proof (rule json_parse_show, rule answer_tree_ok)
    have "length (visible sv g) \<le> m"
      using answer_legal(2) [OF assms(8) p(1)] length_takeWhile_le [of "\<lambda>t. t \<notin> set (c_stop_ids (sv_cfg sv))" g]
      unfolding g_def by linarith
    then show "length ids + length (visible sv g) < 2 ^ 53" using p(3) assms(5) by linarith
    show "utf8_valid (completion_id (length ids) m)"
      by (simp add: completion_id_def utf8_valid_append utf8_ascii_lit digits_utf8)
  qed (simp_all add: assms(6) decode_def utf8_valid_lossy finish_of_def)
  moreover have "chosen may (c_stop_ids (sv_cfg sv)) m ids g" unfolding g_def by (rule stream_runs(1) [OF assms(8) p(1)])
  ultimately show ?thesis by auto
qed

section \<open>An engine and a server to run\<close>

text \<open>The engine of \<open>Generate\<close> for a cache of any size, and a server with the small tokenizer around it.\<close>

definition small_world :: "(int list, int list, int list, unit, unit) world" where
  "small_world = \<lparr>w_engine = (\<lambda>n. (sum_engine\<lparr>engine.max_t := n\<rparr>, [])), w_err = (\<lambda>_. lit ''error''), w_rollback = True, w_draft = 2,
     w_avail = (\<lambda>_. None), w_sleeps = [], w_work = (\<lambda>c. c), w_write = (\<lambda>_. True)\<rparr>"

text \<open>The tokenizer of a vocabulary of byte strings with one added token.\<close>

definition tokenizer_of :: "byte_string list \<Rightarrow> tokenizer" where
  "tokenizer_of words = small_tokenizer\<lparr>tk_id2str := map (\<lambda>w. Some (concat (map byte_str w))) words @ [Some [0x78]],
     tk_id_added := map (\<lambda>_. False) words @ [True]\<rparr>"

definition small_server :: "byte_string list \<Rightarrow> server" where
  "small_server words = \<lparr>sv_cfg = blank_config\<lparr>c_n_layers := 2, c_kv_lora := 4\<rparr>, sv_tok = tokenizer_of words, sv_model_id = lit ''m'',
     sv_ctx_len = 10, sv_cuda = False, sv_ring_env = None\<rparr>"

lemma small_stops [simp]: "c_stop_ids (sv_cfg (small_server words)) = []"
  by (simp add: small_server_def blank_config_def)

lemma decode_words:
  assumes "list_all (\<lambda>v. 0 \<le> v \<and> nat v < length words) ids"
  shows "decode_bytes (tokenizer_of words) ids = concat (map (\<lambda>v. words ! nat v) ids)"
proof -
  have bm: "bytemap_ok (tokenizer_of words)" by (simp add: bytemap_ok_def tokenizer_of_def small_tokenizer_def)
  have "decode_id (tokenizer_of words) v out = out @ words ! nat v" if "0 \<le> v" "nat v < length words" for v out
    using decode_str_units [OF bm, of "[]" "words ! nat v" out] that
    by (simp add: decode_id_def tokenizer_of_def nth_append)
  then have "fold (decode_id (tokenizer_of words)) ids out = out @ concat (map (\<lambda>v. words ! nat v) ids)" for out
    using assms by (induction ids arbitrary: out) simp_all
  then show ?thesis by (simp add: decode_bytes_def)
qed

lemma small_engine: "engine_for (small_server words) small_world (\<lambda>kv ts. kv = ts) (\<lambda>ts t. t = sum_list ts mod 3) n"
  by (simp add: engine_for_def small_world_def engine_ok_def forward_ok_def rejected_rows_dead_def snapshot_restores_def
      head_harmless_def sum_engine_def sum_choice)

lemma small_answers: "ids \<noteq> [] \<Longrightarrow> answer_tokens small_world ids m = greedy_tokens (\<lambda>ts. sum_list ts mod 3) [] m ids"
  using chosen_greedy [OF _ stream_runs(1) [OF small_engine], of "\<lambda>ts. sum_list ts mod 3"] by simp

lemma small_answer: "answer_tokens small_world [1, 1] 3 = [2, 1, 2]"
  by (simp add: small_answers eval_nat_numeral)

theorem stream_agrees_with_block_witness:
  "\<exists>deltas finish n. 
    run_completion (small_server [[], [0x62], [0xE2, 0x98, 0x95]]) small_world [1, 1] 3 True False = Some (sse_headers @
      concat (map (\<lambda>d. sse_event (delta_text (small_server [[], [0x62], [0xE2, 0x98, 0x95]]) (completion_id 2 3) False d)) deltas) @
      sse_event (last_chunk (small_server [[], [0x62], [0xE2, 0x98, 0x95]]) (completion_id 2 3) False finish) @ lit ''data: [DONE]'' @ [0x0A, 0x0A]) \<and>
    run_completion (small_server [[], [0x62], [0xE2, 0x98, 0x95]]) small_world [1, 1] 3 False False = Some (send_json 200
      (show_json (answer_tree (small_server [[], [0x62], [0xE2, 0x98, 0x95]]) False (completion_id 2 3) 2 n (concat deltas) finish)))"
proof -
  let ?words = "[[], [0x62], [0xE2, 0x98, 0x95]] :: byte_string list"
  have "utf8_valid [0xE2, 0x98, 0x95]" "utf8_valid [0xE2, 0x98, 0x95, 0x62]" "utf8_valid [0xE2, 0x98, 0x95, 0x62, 0xE2, 0x98, 0x95]" by code_simp+
  then have "whole_chars (tokenizer_of ?words) [2, 1, 2]"
    by (simp add: whole_chars_def decode_words eval_nat_numeral del: utf8_valid.simps(2))
  then have w: "whole_chars (sv_tok (small_server ?words)) (visible (small_server ?words)
      (answer_tokens small_world [1, 1] 3))"
    unfolding small_answer by (simp add: small_server_def blank_config_def)
  have l: "length [1, 1 :: int] = 2" and ne: "[1, 1 :: int] \<noteq> []" by simp_all
  have k: "w_write small_world = (\<lambda>_. True)" by (simp add: small_world_def)
  show ?thesis
    using stream_agrees_with_block [OF small_engine [of ?words "length [1, 1] + 3"] ne k w, of False] unfolding l by blast
qed

text \<open>A vocabulary whose tokens 2 and 1 are the halves of an emoji.\<close>

theorem split_character_panics_witness:
  "run_completion (small_server [[], [0x98, 0x80], [0xF0, 0x9F]]) small_world [1, 1] 3 True False = None"
proof -
  let ?words = "[[], [0x98, 0x80], [0xF0, 0x9F]] :: byte_string list"
  have t: "decode_bytes (sv_tok (small_server ?words)) [2] = [0xF0, 0x9F]"
    "decode_bytes (sv_tok (small_server ?words)) [2, 1] = [0xF0, 0x9F, 0x98, 0x80]"
    by (simp_all add: small_server_def decode_words)
  have k: "w_write small_world = (\<lambda>_. True)" by (simp add: small_world_def)
  show ?thesis
    using split_character_panics [OF small_engine [of ?words "length [1, 1] + 3"] _ k small_answer _ t, of False] by simp
qed

text \<open>A request for three tokens after the added token, whose answer is the word 0 three times.\<close>

definition small_body :: byte_string where
  "small_body = show_json (TObj [(lit ''prompt'', TStr [0x78]), (lit ''max_tokens'', TInt 3)])"

lemma small_plan: "plan_request (small_server words) small_body False = Run [3] 3 False"
proof -
  have enc: "encode (tokenizer_of words) [0x78] = [3]"
  proof -
    have "find_special (tokenizer_of words) [0x78] 0 = Some (0, 1, 3)"
      by (simp add: find_special_def special_at_def tokenizer_of_def small_tokenizer_def sub_def)
    then show ?thesis unfolding encode_def by (subst encode_from.simps, simp, subst encode_from.simps, simp)
  qed
  have "json_parse small_body = Some (json_of (TObj [(lit ''prompt'', TStr [0x78]), (lit ''max_tokens'', TInt 3)]))"
    unfolding small_body_def by (rule json_parse_show) (simp add: utf8_ascii_lit utf8_valid_Cons del: utf8_valid.simps(2))
  moreover obtain ob where ob: "json_of (TObj [(lit ''prompt'', TStr [0x78]), (lit ''max_tokens'', TInt 3)]) = Obj ob" by simp
  moreover have "obj_get ob (lit ''prompt'') = Some (Str [0x78])" "obj_get ob (lit ''max_tokens'') = Some (json_of (TInt 3))"
    "obj_get ob (lit ''stream'') = None"
    using json_get_tree [of "[(lit ''prompt'', TStr [0x78]), (lit ''max_tokens'', TInt 3)]"] ob by (simp_all add: json_get_def)
  moreover have "as_i64 (json_of (TInt 3)) = Some 3" by (rule as_i64_int) simp
  ultimately show ?thesis
    by (simp add: plan_request_def as_object_def prompt_ids_def as_str_def small_server_def enc requested_max_def stream_mode_def)
qed

lemma small_kv: "request_kv (small_server words) [3] = 32"
  by (simp add: request_kv_def bytes_for_def bytes_for_split_def bytes_per_token_def raw_row_bytes_def compressed_bytes_per_token_def
      kv_layers_def mirrors_kv_on_device_def allocates_gqa_kv_def is_gqa_def fixed_bytes_def small_server_def blank_config_def
      sat_mul_def)

definition small_cache :: "unit cache" where
  "small_cache = cache_new 0 (Some (ram_new 1000))"

lemma small_admit: "\<exists>cm d. admit 1 (request_kv (small_server words) [3]) (w_avail small_world) (w_sleeps small_world) small_cache = (Inr cm, d)"
  unfolding small_kv
  by (simp add: admit_def reserve_ram_def reserve_add_def small_cache_def cache_new_def rigid_budget_def ram_new_def committed_in_def
      N_CLASSES_def commit_or_wait_def try_commit_def ram_commit_def sat_sub_def Let_def)

lemma small_answer_zero: "answer_tokens small_world [3] 3 = [0, 0, 0]"
  by (simp add: small_answers eval_nat_numeral)

text \<open>Posted to the text endpoint with no header of its own, the answer is \<open>aaa\<close>.\<close>

theorem completion_end_to_end_witness:
  "\<exists>answer. fst (handle (small_server [[0x61], [0x62], [0x63]]) small_world False
        (render_request (lit ''POST'') (lit ''/v1/completions'') [] small_body) small_cache) = Some (send_json 200 answer) \<and>
    json_parse answer = Some (json_of (answer_tree (small_server [[0x61], [0x62], [0x63]]) False (completion_id 1 3) 1 3 (lit ''aaa'') ''length'')) \<and>
    chosen (\<lambda>ts t. t = sum_list ts mod 3) [] 3 [3] [0, 0, 0]"
proof -
  let ?sv = "small_server [[0x61], [0x62], [0x63]]"
  obtain cm d where a: "admit (length [3 :: int]) (request_kv ?sv [3]) (w_avail small_world) (w_sleeps small_world) small_cache = (Inr cm, d)"
    using small_admit [of "[[0x61], [0x62], [0x63]]"] by auto
  have bt: "small_body = lit (''{'' @ [CHR 0x22] @ ''prompt'' @ [CHR 0x22] @ '':'' @ [CHR 0x22] @ ''x'' @ [CHR 0x22] @ '','' @
      [CHR 0x22] @ ''max_tokens'' @ [CHR 0x22] @ '':3}'')"
    by (simp add: small_body_def show_str_def esc_def show_int_def show_digits_def show_dec.simps lit_def)
  then have b: "utf8_valid small_body" "length small_body < 2 ^ 63"
    unfolding bt by (intro utf8_ascii_lit; simp) (simp add: lit_def)
  have s: "sv_ctx_len ?sv < 2 ^ 53" "utf8_valid (sv_model_id ?sv)" by (simp_all add: small_server_def utf8_ascii_lit)
  have v: "visible ?sv (answer_tokens small_world [3] 3) = [0, 0, 0]" by (simp add: small_answer_zero)
  have "decode (sv_tok ?sv) [0, 0, 0] = lit ''aaa''"
    using utf8_lossy_valid [OF utf8_ascii_lit [of "''aaa''"]]
    by (simp add: small_server_def decode_def decode_words lit_def del: utf8_lossy.simps)
  moreover have "finish_of ?sv [0, 0, 0] = ''length''" by (simp add: finish_of_def)
  ultimately show ?thesis
    using completion_end_to_end [where hs = "[]" and chat = False and stalls = False and later = "[]", OF _ b small_plan s a small_engine]
    unfolding v unfolding small_answer_zero by (simp add: completion_path_def numeral_3_eq_3)
qed

end
