(* ===== verification/Serving.thy ===== *)
theory Serving
  imports Answers
begin

text \<open>
  The server and its memory: the offered context fits, an accepted request stays inside it, and on
  every path a request gives back what it reserved from the cache and committed in the ledger.
\<close>

section \<open>The served context fits\<close>

lemma served_figure_fits:
  fixes c :: config and t requested :: u64 and cuda allow_long :: bool and env :: "str option"
  assumes "unat CTX_RAM_RESERVE + unat (fixed_bytes env cuda c) + unat (max (bytes_per_token cuda c) 1) \<le> unat t"
  defines "n \<equiv> unat (served_ctx env cuda c allow_long (Some t) requested)"
  shows "unat (bytes_per_token cuda c) * n + unat (fixed_bytes env cuda c) + unat CTX_RAM_RESERVE \<le> unat t"
proof -
  let ?p = "unat (max (bytes_per_token cuda c) 1)" and ?f = "unat (fixed_bytes env cuda c)" and ?r = "unat CTX_RAM_RESERVE"
  have p: "1 \<le> ?p" "unat (bytes_per_token cuda c) \<le> ?p" by (simp_all add: max_def word_le_nat_alt)
  let ?d = "sat_sub (sat_sub t CTX_RAM_RESERVE) (fixed_bytes env cuda c) div max (bytes_per_token cuda c) 1"
  have d: "unat ?d = (unat t - ?r - ?f) div ?p" by (simp add: unat_div)
  have "1 \<le> (unat t - ?r - ?f) div ?p" using assms(1) p(1) by (subst le_div_geq) auto
  then have "unat (max ?d 1) = (unat t - ?r - ?f) div ?p" using d by (simp add: max_def word_le_nat_alt)
  moreover have "served_ctx env cuda c allow_long (Some t) requested \<le> max ?d 1" by (simp add: served_ctx_def ram_ctx_def Let_def)
  ultimately have "n \<le> (unat t - ?r - ?f) div ?p" by (simp add: word_le_nat_alt n_def)
  then have "n * ?p \<le> unat t - ?r - ?f" using p(1) by (simp add: less_eq_div_iff_mult_less_eq)
  moreover have "unat (bytes_per_token cuda c) * n \<le> n * ?p" using p(2) by (simp add: mult.commute)
  ultimately show ?thesis using assms(1) by linarith
qed

text \<open>
  C8: The context that the server offers fits the memory.  For a loaded configuration of every
  architecture but DeepSeek-V4, whose ring the figures leave out, whenever a cache of one token fits
  beside the reserve, everything that the allocated cache holds when a request fills the offered
  window without drafting, rows and recurrent state, fits beside the reserve.
\<close>

theorem context_fits_ram:
  fixes heads :: "layer_kind option list"
  assumes "config_load text gtext = Inr c" and "c_arch c \<noteq> DeepseekV4"
    and "unat CTX_RAM_RESERVE + 4 * resident_floats cuda c heads (for_model c (length heads) mt) 1 0 < unat t"
  shows "4 * resident_floats cuda c heads (for_model c (length heads) mt) (unat (served_ctx env cuda c allow_long (Some t) requested)) 0
    + unat CTX_RAM_RESERVE \<le> unat t"
proof -
  let ?kv = "for_model c (length heads) mt"
  let ?a = "4 * (kv_holding c * row_floats cuda c ?kv)" and ?f = "4 * recurrent_floats ?kv"
  have ok: "config_ok c" and un: "unringed c" using assms(1,2) by (rule load_sound, rule load_unringed)
  have r: "4 * resident_floats cuda c heads ?kv n 0 = ?a * n + ?f" for n by (simp add: resident_split algebra_simps)
  have t: "unat t < 2 ^ 64" using unat_lt_pow [of t] by simp
  have small: "?a < 2 ^ 64" "?f < 2 ^ 64" using assms(3) [unfolded r] t by linarith+
  have bt: "bytes_per_token cuda c = of_nat ?a"
    by (rule raw_row_exact [OF un kv_holding_layers [OF layers_of_loaded [OF ok]]])
  have w0: "c_window c = 0" using un by (simp add: unringed_def)
  have fb: "fixed_bytes env cuda c = of_nat ?f" by (rule fixed_bytes_exact [OF ok w0])
  have u: "unat (of_nat k :: u64) = k" if "k < 2 ^ 64" for k using that by (simp add: unsigned_of_nat take_bit_nat_eq_self)
  have b: "unat (bytes_per_token cuda c) = ?a" "unat (fixed_bytes env cuda c) = ?f"
    unfolding bt fb by (rule u [OF small(1)], rule u [OF small(2)])
  have "unat (max (bytes_per_token cuda c) 1) \<le> max ?a 1" using b(1) by (simp add: max_def word_le_nat_alt)
  then have "unat CTX_RAM_RESERVE + unat (fixed_bytes env cuda c) + unat (max (bytes_per_token cuda c) 1) \<le> unat t"
    using assms(3) [unfolded r] b(2) by linarith
  from served_figure_fits [OF this, of allow_long requested] show ?thesis unfolding r b by simp
qed

text \<open>The latent model of three layers on a machine with 19 GiB: one GiB is left for 6912 bytes a token.\<close>

theorem context_fits_ram_witness:
  "\<exists>c. config_load (Some (show_json glm_tree)) None = Inr c \<and>
    4 * resident_floats False c [None] (for_model c 1 200) (unat (served_ctx None False c False (Some (push_bit 30 19)) 4096)) 0
     + unat CTX_RAM_RESERVE \<le> unat (push_bit 30 19 :: u64)"
proof -
  let ?c = "glm_config (json_of glm_tree)"
  have a: "c_arch ?c = GlmMoeDsa" "c_layer_kind ?c = []" "c_n_layers ?c = 3" "c_kv_lora ?c = 512" "c_qk_rope ?c = 64"
    by (simp_all add: glm_config_def blank_config_def Let_def glm_fields)
  then have z: "recurrent_floats (for_model ?c 1 200) = 0"
    using recurrent_of_model [OF load_sound [OF glm_tree_loads]] by (simp add: count_kind_def configs_arch)
  have row: "row_floats False ?c (for_model ?c 1 200) = 512 + 64" "kv_holding ?c = 3"
    using a by (simp_all add: row_floats_def for_model_fields kv_holding_def allocates_gqa_kv_def is_gqa_def)
  have "resident_floats False ?c [None] (for_model ?c (length [None :: layer_kind option]) 200) 1 0 = 3 * (512 + 64)"
    unfolding resident_split using z row by simp
  then have "unat CTX_RAM_RESERVE + 4 * resident_floats False ?c [None] (for_model ?c (length [None :: layer_kind option]) 200) 1 0
      < unat (push_bit 30 19 :: u64)" by (simp add: CTX_RAM_RESERVE_def)
  from context_fits_ram [OF glm_tree_loads _ this, of None False 4096] a(1) glm_tree_loads show ?thesis by auto
qed

section \<open>Memory comes back\<close>

definition kv_held :: "ram_cell \<Rightarrow> u64" where
  "kv_held cell = (case cell of Some m \<Rightarrow> committed_in m Kv | None \<Rightarrow> 0)"

definition ledger_shape :: "ram_cell \<Rightarrow> bool" where
  "ledger_shape cell = (case cell of Some m \<Rightarrow> length (per_class m) = N_CLASSES | None \<Rightarrow> True)"

text \<open>What goes on beside the request takes no key-value memory of its own for good.\<close>

definition kv_neutral :: "(ram_cell \<Rightarrow> ram_cell) \<Rightarrow> bool" where
  "kv_neutral f \<longleftrightarrow> (\<forall>cell. ledger_shape cell \<longrightarrow> ledger_shape (f cell) \<and> kv_held (f cell) = kv_held cell \<and>
     (cell \<noteq> None \<longrightarrow> f cell \<noteq> None))"

lemma kv_neutralD: "kv_neutral f \<Longrightarrow> ledger_shape cell \<Longrightarrow> ledger_shape (f cell) \<and> kv_held (f cell) = kv_held cell \<and>
    (cell \<noteq> None \<longrightarrow> f cell \<noteq> None)"
  by (simp add: kv_neutral_def)

lemma committed_in_update:
  "length (per_class m) = N_CLASSES \<Longrightarrow>
   committed_in (m\<lparr>per_class := (per_class m)[class_ix k := v]\<rparr>) k' = (if k = k' then v else committed_in m k')"
  "length (per_class m) = N_CLASSES \<Longrightarrow>
   committed_in (m\<lparr>total := x, per_class := (per_class m)[class_ix k := v]\<rparr>) k' = (if k = k' then v else committed_in m k')"
  by (cases k; cases k'; simp add: committed_in_def N_CLASSES_def)+

lemma note_peak_same [simp]:
  "committed_in (note_peak k now m) k' = committed_in m k'" "per_class (note_peak k now m) = per_class m"
  by (simp_all add: note_peak_def committed_in_def)

lemma committed_in_total [simp]: "committed_in (m\<lparr>total := x\<rparr>) k = committed_in m k"
  by (simp add: committed_in_def)

lemma publish_neutral: "kv_neutral (publish_ram s)"
  unfolding kv_neutral_def
proof (intro allI impI)
  fix cell assume "ledger_shape cell"
  then show "ledger_shape (publish_ram s cell) \<and> kv_held (publish_ram s cell) = kv_held cell \<and>
      (cell \<noteq> None \<longrightarrow> publish_ram s cell \<noteq> None)"
    by (cases cell) (simp_all add: ledger_shape_def kv_held_def publish_ram_def cell_set_usage_def set_usage_def Let_def committed_in_update
        del: class_ix.simps split: prod.splits)
qed

lemma evict_neutral:
  assumes "ledger_shape (ram_cell c)"
  shows "ledger_shape (ram_cell (cache_evict t p c))" "kv_held (ram_cell (cache_evict t p c)) = kv_held (ram_cell c)"
  using kv_neutralD [OF publish_neutral assms]
  by (auto simp: cache_evict_def evict_to_protecting_def split: prod.splits)

lemma passes_neutral:
  assumes "reserve_passes n avail i need a c = (a', i', c')" "ledger_shape (ram_cell c)"
  shows "reserved c' = reserved c \<and> ledger_shape (ram_cell c') \<and> kv_held (ram_cell c') = kv_held (ram_cell c)"
  using assms
proof (induction n avail i need a c arbitrary: a' i' c' rule: reserve_passes.induct)
  case (2 n read i need a c)
  show ?case
  proof (cases "read i")
    case (Some now)
    let ?t = "max (sat_sub (bytes (state c)) (need - now)) FLOOR_MIN"
    show ?thesis
    proof (cases "need \<le> now \<or> bytes (state c) \<le> ?t")
      case False
      let ?c = "(cache_evict ?t {} c)\<lparr>budget := ?t\<rparr>"
      have r: "reserve_passes n read (Suc i) need (Some now) ?c = (a', i', c')" using 2(2) Some False by (simp add: Let_def)
      have "ledger_shape (ram_cell ?c)" "kv_held (ram_cell ?c) = kv_held (ram_cell c)" using evict_neutral [OF 2(3)] by simp_all
      with 2(1) [OF Some _ refl _ r] False show ?thesis by simp
    qed (use 2(2,3) Some in \<open>auto simp: Let_def split: if_splits\<close>)
  qed (use 2(2,3) in simp)
qed simp

lemma release_fields [simp]: "reserved (release_ram b c) = sat_sub (reserved c) b" "ram_cell (release_ram b c) = ram_cell c"
  by (simp_all add: release_ram_def)

lemma sat_sub_add: "unat r + unat b < 2 ^ 64 \<Longrightarrow> sat_sub (r + b) b = (r :: u64)"
  by (simp add: word_unat_eq_iff unat_add_no_wrap)

lemma reserve_neutral:
  assumes "reserve_ram b avail c = (ok, c')" "ledger_shape (ram_cell c)" "unat (reserved c) + unat b < 2 ^ 64"
  shows "reserved c' = (if ok then reserved c + b else reserved c)" "ledger_shape (ram_cell c')" "kv_held (ram_cell c') = kv_held (ram_cell c)"
proof -
  let ?c = "reserve_add b c"
  have c: "reserved ?c = reserved c + b" "ram_cell ?c = ram_cell c" "fill_target ?c = fill_target c" "hard_floor ?c = hard_floor c"
    by (simp_all add: reserve_add_def)
  have "reserved c' = (if ok then reserved c + b else reserved c) \<and> ledger_shape (ram_cell c') \<and> kv_held (ram_cell c') = kv_held (ram_cell c)"
  proof (cases "fill_target c = 0 \<or> avail 0 = None \<or> (\<exists>a. avail 0 = Some a \<and> sat_add b (hard_floor c) \<le> a)")
    case True
    then have "ok \<and> c' = ?c" using assms(1) unfolding reserve_ram_def Let_def c by (cases "fill_target c = 0") (auto split: option.splits)
    then show ?thesis using c assms(2) by simp
  next
    case False
    then obtain a where a: "fill_target c \<noteq> 0" "avail 0 = Some a" "\<not> sat_add b (hard_floor c) \<le> a" by auto
    obtain x i d where p: "reserve_passes MAX_PASSES avail 1 (sat_add b (hard_floor c)) (Some a) ?c = (x, i, d)" by (metis prod_cases3)
    then have d: "c' = (if ok then d else release_ram b d)"
      using assms(1) a unfolding reserve_ram_def Let_def c by (auto split: if_splits)
    show ?thesis using passes_neutral [OF p] d assms(2,3) c sat_sub_add by simp
  qed
  then show "reserved c' = (if ok then reserved c + b else reserved c)" "ledger_shape (ram_cell c')"
    "kv_held (ram_cell c') = kv_held (ram_cell c)" by simp_all
qed

text \<open>A commitment that was granted, and what taking it back leaves.\<close>

lemma try_commit_neutral:
  assumes "try_commit Kv b cell = (r, cell')" "ledger_shape cell"
  shows "ledger_shape cell'" "kv_held cell' = kv_held cell + (case r of Some cm \<Rightarrow> c_bytes cm | None \<Rightarrow> 0)"
    "r = Some cm \<Longrightarrow> c_class cm = Kv \<and> (cell' = None \<longrightarrow> c_bytes cm = 0)"
  using assms
  by (auto simp: try_commit_def ram_commit_def add_class_def ledger_shape_def kv_held_def Let_def committed_in_update
      simp del: class_ix.simps split: option.splits if_splits prod.splits)

lemma poll_neutral:
  assumes "poll_commit Kv b fs cell = ((v, r), cell')" "list_all kv_neutral fs" "ledger_shape cell"
  shows "ledger_shape cell' \<and> kv_held cell' = kv_held cell + (case r of Some cm \<Rightarrow> c_bytes cm | None \<Rightarrow> 0) \<and>
    (v = Adm_ok \<longleftrightarrow> r \<noteq> None) \<and> (\<forall>cm. r = Some cm \<longrightarrow> c_class cm = Kv \<and> (cell' = None \<longrightarrow> c_bytes cm = 0))"
  using assms
proof (induction fs arbitrary: cell)
  case (Cons f fs)
  obtain s d where t: "try_commit Kv b (f cell) = (s, d)" by fastforce
  have f: "ledger_shape (f cell)" "kv_held (f cell) = kv_held cell" using kv_neutralD [of f cell] Cons.prems(2,3) by simp_all
  note n = try_commit_neutral [OF t f(1)]
  show ?case
  proof (cases s)
    case None
    then show ?thesis using Cons.IH [of d] Cons.prems t n(1,2) f(2) by simp
  next
    case (Some cm)
    then show ?thesis using Cons.prems(1) t n(1,2,3) f(2) by auto
  qed
qed simp

lemma wait_neutral:
  assumes "commit_or_wait Kv b rigid fs cell = ((v, r), cell')" "list_all kv_neutral fs" "ledger_shape cell"
  shows "ledger_shape cell'" "kv_held cell' = kv_held cell + (case r of Some cm \<Rightarrow> c_bytes cm | None \<Rightarrow> 0)"
    "v = Adm_ok \<longleftrightarrow> r \<noteq> None" "r = Some cm \<Longrightarrow> c_class cm = Kv \<and> (cell' = None \<longrightarrow> c_bytes cm = 0)"
proof -
  have "ledger_shape cell' \<and> kv_held cell' = kv_held cell + (case r of Some cm \<Rightarrow> c_bytes cm | None \<Rightarrow> 0) \<and>
    (v = Adm_ok \<longleftrightarrow> r \<noteq> None) \<and> (\<forall>cm. r = Some cm \<longrightarrow> c_class cm = Kv \<and> (cell' = None \<longrightarrow> c_bytes cm = 0))"
  proof (cases "rigid < b")
    case True
    then show ?thesis using assms(1,3) by (auto simp: commit_or_wait_def)
  next
    case False
    obtain s d where t: "try_commit Kv b cell = (s, d)" by fastforce
    note n = try_commit_neutral [OF t assms(3)]
    show ?thesis
    proof (cases s)
      case None
      then have "poll_commit Kv b fs d = ((v, r), cell')" using assms(1) False t by (simp add: commit_or_wait_def)
      from poll_neutral [OF this assms(2) n(1)] show ?thesis using n(2) None by simp
    next
      case (Some cm)
      then show ?thesis using assms(1) False t n(1,2,3) by (auto simp: commit_or_wait_def)
    qed
  qed
  then show "ledger_shape cell'" "kv_held cell' = kv_held cell + (case r of Some cm \<Rightarrow> c_bytes cm | None \<Rightarrow> 0)"
    "v = Adm_ok \<longleftrightarrow> r \<noteq> None" "r = Some cm \<Longrightarrow> c_class cm = Kv \<and> (cell' = None \<longrightarrow> c_bytes cm = 0)" by blast+
qed

lemma admit_neutral:
  assumes "admit n b avail fs c = (r, c')" "list_all kv_neutral fs" "ledger_shape (ram_cell c)" "unat (reserved c) + unat b < 2 ^ 64"
  shows "ledger_shape (ram_cell c')"
    "r = Inl e \<Longrightarrow> reserved c' = reserved c \<and> kv_held (ram_cell c') = kv_held (ram_cell c)"
    "r = Inr cm \<Longrightarrow> reserved c' = reserved c + b \<and> kv_held (ram_cell c') = kv_held (ram_cell c) + c_bytes cm \<and>
      c_class cm = Kv \<and> (ram_cell c' = None \<longrightarrow> c_bytes cm = 0)"
proof -
  obtain ok d where rr: "reserve_ram b avail c = (ok, d)" by fastforce
  note rn = reserve_neutral [OF rr assms(3,4)]
  obtain v s cell where w: "commit_or_wait Kv b (rigid_budget (ram_cell d)) fs (ram_cell d) = ((v, s), cell)" by (metis prod.exhaust)
  note wn = wait_neutral [OF w assms(2) rn(2)]
  have "ledger_shape (ram_cell c') \<and>
    (\<forall>e. r = Inl e \<longrightarrow> reserved c' = reserved c \<and> kv_held (ram_cell c') = kv_held (ram_cell c)) \<and>
    (\<forall>cm. r = Inr cm \<longrightarrow> reserved c' = reserved c + b \<and> kv_held (ram_cell c') = kv_held (ram_cell c) + c_bytes cm \<and>
      c_class cm = Kv \<and> (ram_cell c' = None \<longrightarrow> c_bytes cm = 0))"
  proof (cases ok)
    case False
    then show ?thesis using assms(1) rr rn by (auto simp: admit_def)
  next
    case True
    show ?thesis
    proof (cases v)
      case Adm_ok
      then obtain cm where "s = Some cm" using wn(3) by auto
      then show ?thesis using assms(1) rr True w Adm_ok wn rn by (auto simp: admit_def Let_def)
    next
      case Adm_busy
      then have "s = None" using wn(3) by auto
      then show ?thesis using assms(1) rr True w Adm_busy wn rn sat_sub_add [OF assms(4)] by (auto simp: admit_def Let_def)
    next
      case Adm_too_large
      then have "s = None" using wn(3) by auto
      then show ?thesis using assms(1) rr True w Adm_too_large wn rn sat_sub_add [OF assms(4)] by (auto simp: admit_def Let_def)
    qed
  qed
  then show "ledger_shape (ram_cell c')"
    "r = Inl e \<Longrightarrow> reserved c' = reserved c \<and> kv_held (ram_cell c') = kv_held (ram_cell c)"
    "r = Inr cm \<Longrightarrow> reserved c' = reserved c + b \<and> kv_held (ram_cell c') = kv_held (ram_cell c) + c_bytes cm \<and>
      c_class cm = Kv \<and> (ram_cell c' = None \<longrightarrow> c_bytes cm = 0)"
    by blast+
qed

definition quiet_work :: "('x cache \<Rightarrow> 'x cache) \<Rightarrow> bool" where
  "quiet_work W \<longleftrightarrow> (\<forall>d. reserved (W d) = reserved d \<and> (ledger_shape (ram_cell d) \<longrightarrow>
     ledger_shape (ram_cell (W d)) \<and> kv_held (ram_cell (W d)) = kv_held (ram_cell d) \<and> (ram_cell d \<noteq> None \<longrightarrow> ram_cell (W d) \<noteq> None)))"

lemma drop_returns:
  assumes "ledger_shape cell" "kv_held cell = x + c_bytes cm" "c_class cm = Kv" "cell = None \<Longrightarrow> c_bytes cm = 0"
  shows "kv_held (drop_commitment cm cell) = x"
proof (cases cell)
  case None
  then show ?thesis using assms(2,4) by (simp add: drop_commitment_def kv_held_def)
next
  case (Some m)
  then have "length (per_class (m\<lparr>total := total m - c_bytes cm\<rparr>)) = N_CLASSES" using assms(1) by (simp add: ledger_shape_def)
  from committed_in_update(1) [OF this, of Kv _ Kv] show ?thesis
    using Some assms(2,3) by (simp add: drop_commitment_def kv_held_def ram_drop_def Let_def)
qed

text \<open>
  C3: No request keeps memory.  On every path of a completion, malformed bodies, refusals for lack of
  memory, engine errors, full and streamed answers, and the panic, the reservation and the
  commitment for its keys and values are back when it ends, although a request that got past the
  ledger waited while others changed it.
\<close>

theorem request_returns_memory:
  assumes "ledger_shape (ram_cell c)" and "list_all kv_neutral (w_sleeps w)" and "quiet_work (w_work w)"
    and "\<forall>ids m stream. plan_request sv body chat = Run ids m stream \<longrightarrow> unat (reserved c) + unat (request_kv sv ids) < 2 ^ 64"
    and "complete sv w body chat c = (out, c')"
  shows "reserved c' = reserved c \<and> kv_held (ram_cell c') = kv_held (ram_cell c)"
proof (cases "plan_request sv body chat")
  case (Refuse status msg)
  then show ?thesis using assms(5) by (simp add: complete_def)
next
  case (Run ids m stream)
  let ?b = "request_kv sv ids"
  have nw: "unat (reserved c) + unat ?b < 2 ^ 64" using assms(4) Run by simp
  obtain r d where a: "admit (length ids) ?b (w_avail w) (w_sleeps w) c = (r, d)" by fastforce
  note n = admit_neutral [OF a assms(2,1) nw]
  show ?thesis
  proof (cases r)
    case (Inl e)
    then show ?thesis using assms(5) Run a n(2) by (cases e) (simp add: complete_def Let_def)
  next
    case (Inr cm)
    let ?d = "w_work w d"
    have q: "reserved ?d = reserved d" "ledger_shape (ram_cell ?d)" "kv_held (ram_cell ?d) = kv_held (ram_cell d)"
      "ram_cell ?d = None \<Longrightarrow> ram_cell d = None"
      using assms(3) n(1) by (auto simp: quiet_work_def)
    have "kv_held (drop_commitment cm (ram_cell ?d)) = kv_held (ram_cell c)"
      using q n(3) [OF Inr] by (intro drop_returns) simp_all
    moreover have "c' = release_ram ?b (?d\<lparr>ram_cell := drop_commitment cm (ram_cell ?d)\<rparr>)"
      using assms(5) Run a Inr by (simp add: complete_def Let_def)
    ultimately show ?thesis using q(1) n(3) [OF Inr] sat_sub_add [OF nw] by simp
  qed
qed

text \<open>The small request, admitted by a ledger of 1000 bytes, while the expert cache publishes its use.\<close>

theorem request_returns_memory_witness:
  "reserved (snd (complete (small_server []) (small_world\<lparr>w_sleeps := [publish_ram (state small_cache)]\<rparr>) small_body False small_cache)) = 0"
proof -
  let ?w = "small_world\<lparr>w_sleeps := [publish_ram (state small_cache)]\<rparr>"
  obtain out c' where c: "complete (small_server []) ?w small_body False small_cache = (out, c')" by fastforce
  have "ledger_shape (ram_cell small_cache)" by (simp add: ledger_shape_def small_cache_def cache_new_def ram_new_def N_CLASSES_def)
  moreover have "list_all kv_neutral (w_sleeps ?w)" by (simp add: publish_neutral)
  moreover have "quiet_work (w_work ?w)" by (simp add: quiet_work_def small_world_def)
  moreover have z: "reserved small_cache = 0" by (simp add: small_cache_def cache_new_def)
  ultimately show ?thesis
    using request_returns_memory [of small_cache ?w, OF _ _ _ _ c] c by (simp add: small_plan small_kv)
qed

end
