(* ===== verification/Spec2Isabelle.thy ===== *)
theory Spec2Isabelle
  imports Tier Sharding Usage Transport Predictor Monitor PretokRegex Chunk BatchRead Discovery KvCache Preload BufPool Serving
begin

text \<open>
  A model of SpeedyColibri, an inference engine for mixture-of-experts language models that streams
  routed experts from disk and serves completions over HTTP, and the theorems that make its
  non-numeric parts correct.

  \<^bold>\<open>The program.\<close>  A snapshot directory holds a configuration, a tokenizer and weight shards.  The
  engine reads the configuration and the tokenizer, indexes the shards, keeps the dense weights
  resident and a cache of experts in what memory is left, and generates tokens greedily, with drafts
  from a small head that the model verifies.  A monitor shrinks the expert cache when memory is
  short; a ledger shares the memory between classes of use; experts can also live on other nodes of
  a cluster.  A single-threaded HTTP server admits a request against both, generates, and answers
  at once or as a stream.

  \<^bold>\<open>Shared vocabulary.\<close>  \<open>Prelude\<close> (words of 32 and 64 bits, saturating arithmetic, lists, folds, the
  \<open>named_theorems\<close> of the development), \<open>Text\<close> (strings of scalar values: trimming, splitting,
  numbers), \<open>Utf8\<close> (decoding, validity, lossy decoding), \<open>Float64\<close> and \<open>FloatOps\<close> (binary64 and
  binary32 as exact rationals with a rounding function), \<open>Dtype\<close> (element types, bf16, f16),
  \<open>Quant\<close> (tensor containers).

  \<^bold>\<open>Which theory models which part\<close> (paths below \<open>src/crates\<close>).

  \<^item> Snapshot files.  \<open>Json\<close> is the parser of \<open>colibri-json/src/lib.rs\<close>; \<open>JsonPrint\<close> proves that it
    returns whenever the stack is deep enough for the input and inverts the printers used for the files and for the server's answers
    (the locale \<open>string_escape\<close> is the contract of a string escape, with both escapes of the code as
    its interpretations).  \<open>Config\<close> is \<open>colibri-core/src/config.rs\<close>: seven architectures and the range
    checks.  \<open>Safetensors\<close>, \<open>SpanRead\<close> and \<open>BatchRead\<close> are \<open>colibri-safetensors/src/lib.rs\<close>: the index,
    raw reads and export; coalescing, the residency gate and the read strategies of one group; and the
    batch of groups whose jobs worker threads drain in any order.  \<open>Preload\<close> is
    \<open>colibri-engine/src/preload.rs\<close>: repacking experts and loading the shards in parallel.

  \<^item> Tokenizer (\<open>colibri-tokenizer\<close>).  \<open>RangeSearch\<close> and \<open>UnicodeTables\<close> (\<open>unicode_tables.rs\<close>,
    \<open>unicode_k3.rs\<close>), \<open>Pretok\<close> (the two hand-written pre-tokenizers of \<open>lib.rs\<close>), \<open>PretokRegex\<close> (the
    regular expressions they stand for and the proof that they agree, U+017F after an apostrophe
    excepted), \<open>Bpe\<close> (byte-pair encoding on
    index arrays refines pair merging on lists), \<open>Tokenizer\<close> (encode, decode) and \<open>TokenizerLoad\<close>
    (building it from a parsed file, and the round trip of a loaded tokenizer).

  \<^item> Experts in memory.  \<open>Tier\<close> (\<open>colibri-core/src/tier.rs\<close>), \<open>Usage\<close> (\<open>usage.rs\<close> of \<open>colibri-engine\<close>),
    \<open>Predictor\<close>, \<open>ExpertCache\<close> and \<open>Monitor\<close> (\<open>cache.rs\<close>: prediction, the cache, the adaptive budget, one
    step per access to shared state, and reservations), \<open>RamLedger\<close> (\<open>ram.rs\<close>), \<open>BufPool\<close> (the pool of read buffers in
    \<open>colibri-core/src/quant.rs\<close>), \<open>Chunk\<close> (\<open>chunk.rs\<close>: experts in bands).

  \<^item> Cluster (\<open>colibri-cluster\<close>).  \<open>Sharding\<close> (\<open>sharding.rs\<close> and the configuration in \<open>lib.rs\<close>), \<open>Wire\<close> and
    \<open>Transport\<close> (\<open>net.rs\<close>, \<open>transport.rs\<close>), \<open>Discovery\<close> (\<open>discovery.rs\<close>).

  \<^item> Generation and serving.  \<open>KvCache\<close> and \<open>KvSize\<close> (the cache of keys and values in \<open>model.rs\<close>: its rows
    and ring; its allocation for a model, the snapshot of the recurrent state and the reservation
    figures), \<open>Generate\<close> (the decode loop of \<open>forward.rs\<close> with the draft chain of \<open>mtp.rs\<close> and the
    greedy choice of \<open>sampling.rs\<close>), \<open>Http\<close>, \<open>Serve\<close>, \<open>Answers\<close> and \<open>Serving\<close> (\<open>coli/src/serve.rs\<close>: the
    HTTP layer; validation, templates, admission and answers; what is answered; what happens to memory).

  \<^bold>\<open>How the code is translated.\<close>  A struct is a record, an enum a datatype, \<open>usize\<close> and \<open>u64\<close> a 64-bit word
  wherever wrap-around can matter and a natural number where it counts elements that exist in
  memory.  An error is \<open>None\<close> or the left of a sum; a panic is a value of its own wherever the code can
  meet it.  Release-build arithmetic is modelled: it wraps.  Threads are interleavings: the ledger,
  the pool, the client connections, the expert cache and its monitor are step relations or sequences of critical
  sections, one step per atomic access or lock, and their theorems hold for every schedule.  What
  the code asks of the system, readings of memory, answers of sockets, which write fails, which page
  is resident, which environment variable is set, is an argument.

  \<^bold>\<open>What the groups of theorems show.\<close>

  \<^item> Equivalence and refinement: with or without drafts every emitted token is one that the model
    itself chose, and where its choice does not depend on the width of a pass, generation is plain
    greedy decoding; the pre-tokenizers are their regular expressions; byte-pair encoding on arrays is the one on lists; the expert cache is
    transparent; a client and a server composed are the handler; the ring of keys and values is a
    sliding window; batched reads in any order are the tensors; a streamed answer is the block answer;
    the reservation figures are the bytes allocated, the rows of the draft head excepted.

  \<^item> Round trips: JSON, wire messages, usage files, exported shards, repacked experts, tokens, HTTP
    requests, and from the bytes of a request to a parsed answer.

  \<^item> Invariants under every interleaving: the ledger stays below its ceiling, the accounts of the cache
    agree with its contents, the memory of live pool buffers never overlaps, pinned experts stay, a tick
    of the monitor is safe whatever comes between its accesses.

  \<^item> Bounds, errors and findings: the load of the cluster is balanced, the served context fits the
    memory, a request gives back what it took; and where the code does something other than it says,
    a theorem or lemma with the input that shows it.

  \<^bold>\<open>Fuel and termination.\<close>  The JSON parser runs on fuel \<open>2 * length + 2\<close>, proved enough for every input; the
  fuel is not the stack.  The code recurses without a depth limit, so \<open>JsonPrint\<close> also models the parser
  on a stack of a given depth: one activation more than the input has opening brackets is enough, and
  no depth is enough for all inputs.  Every other theorem about parsed text takes the stack as deep
  enough.
  The tiling of a span into reads runs on fuel equal to its length, and each read takes at least one byte.
  \<open>f16_norm\<close> is a partial function, proved defined on every half.  \<open>with_len\<close> is a step relation, proved
  to end after at most 10005 of the thread's own steps.  The decode loop terminates because each
  round emits a token, the header loop of a request because each line shortens the stream; both have
  termination proofs.

  \<^bold>\<open>Parameters and hypotheses.\<close>  The forward pass, the draft head and the output projection are the record
  \<open>engine\<close> of \<open>Generate\<close>; the predicate \<open>engine_ok\<close> states what the decode loop relies on: a pass
  over a batch succeeds and the token read off each row is one that the model may choose after the
  row's prefix, rejected rows are overwritten before they are read, a snapshot of the recurrent state
  restores it, the head does not disturb the model.  That choice is a relation: a pass over several
  tokens need not score them like a pass over one.  A server's
  surroundings are the record \<open>world\<close> of \<open>Serve\<close>.  Each theorem with hypotheses has a witness at a
  concrete input, with a concrete engine or world.

  \<^bold>\<open>Not modelled.\<close>  The numeric kernels (\<open>colibri-kernels\<close>, \<open>attention.rs\<close>, \<open>dsv4.rs\<close>, \<open>kda.rs\<close>, \<open>mamba2.rs\<close>,
  \<open>hc.rs\<close>, \<open>math.rs\<close>, \<open>linear.rs\<close>, \<open>dsa.rs\<close>) and the expert products of \<open>moe.rs\<close>: binary32 sums whose rounding
  depends on vector width and thread count, and transcendental functions.  The CUDA backend and \<open>gpu.rs\<close>.
  Quantisation, \<open>qsim.rs\<close> and the checkpoint converter \<open>convert.rs\<close>.  The loader, which assembles weight
  structures from tensors.  The command line \<open>main.rs\<close> and the start-up of the server.  The grammar
  crate, which is a skeleton.  The opt-in io_uring drain, advice to the page cache, timing, profiling
  and log lines.
\<close>

end
